(* ===== verification/Prelude.thy ===== *)
theory Prelude
  imports Main "HOL-Library.Word" "HOL-Library.Monad_Syntax"
begin

text \<open>
  The vocabulary that every component of the development shares: the C integer types of
  \<^verbatim>\<open>kernel/types.h\<close> as machine words, byte-addressed memory, the reading of
  the \<open>option\<close> monad (a call that does not return, because the kernel panicked, span
  for ever or stepped outside an object, is \<open>None\<close>), and the generic facts on lists,
  options and words that the component proofs use.
\<close>

unbundle bit_operations_syntax

section \<open>C types\<close>

type_synonym uchar = "8 word"
type_synonym ushort = "16 word"
type_synonym uint = "32 word"
type_synonym uint64 = "64 word"

text \<open>Physical memory, one byte per address.\<close>

type_synonym mem = "uint64 \<Rightarrow> uchar"

text \<open>A C object of character type: the bytes it holds, in order.\<close>

type_synonym bytes = "uchar list"

section \<open>The option monad as control flow\<close>

named_theorems step_simps \<open>evaluation of straight-line kernel code\<close>

lemma bind_SomeI [intro]: "x = Some y \<Longrightarrow> f y = Some z \<Longrightarrow> Option.bind x f = Some z"
  by simp

lemma bind_SomeE [elim!]:
  assumes "Option.bind x f = Some z"
  obtains y where "x = Some y" and "f y = Some z"
  using assms by (auto simp: Option.bind_eq_Some_conv)

lemmas bind_conv = Option.bind_eq_Some_conv Option.bind_eq_None_conv

text \<open>A \<open>for\<close> loop over a fixed list of indices whose body may fail to return.\<close>

fun for_each :: "('i \<Rightarrow> 's \<Rightarrow> 's option) \<Rightarrow> 'i list \<Rightarrow> 's \<Rightarrow> 's option" where
  "for_each f [] s = Some s"
| "for_each f (i # is) s = Option.bind (f i s) (for_each f is)"

lemma for_each_append:
  "for_each f (xs @ ys) s = Option.bind (for_each f xs s) (for_each f ys)"
  by (induction xs arbitrary: s) (auto split: Option.bind_splits)

text \<open>
  The rule for such loops: \<open>g xs s\<close> is the state after the iterations \<open>xs\<close>, and every
  iteration returns from a state that satisfies the invariant.
\<close>

lemma for_each_inv:
  assumes "I 0 s" and "\<And>k t. k < length is \<Longrightarrow> I k t \<Longrightarrow> \<exists>u. f (is ! k) t = Some u \<and> I (Suc k) u"
  shows "\<exists>t. for_each f is s = Some t \<and> I (length is) t"
proof -
  have "\<exists>t. for_each f (take k is) s = Some t \<and> I k t" if "k \<le> length is" for k
    using that
  proof (induction k)
    case (Suc k)
    then obtain t where t: "for_each f (take k is) s = Some t" "I k t" by auto
    obtain u where "f (is ! k) t = Some u" "I (Suc k) u" using assms(2) [of k t] Suc.prems t(2) by auto
    with t(1) Suc.prems show ?case by (auto simp: take_Suc_conv_app_nth for_each_append)
  qed (use assms(1) in simp)
  from this [of "length is"] show ?thesis by simp
qed

lemma for_each_run:
  assumes "I s" and "g [] s = s"
    and "\<And>xs x ys. is = xs @ x # ys \<Longrightarrow> I (g xs s) \<Longrightarrow>
      f x (g xs s) = Some (g (xs @ [x]) s) \<and> I (g (xs @ [x]) s)"
  shows "for_each f is s = Some (g is s) \<and> I (g is s)"
proof -
  have "for_each f xs s = Some (g xs s) \<and> I (g xs s)" if "is = xs @ ys" for xs ys
    using that
  proof (induction xs arbitrary: ys rule: rev_induct)
    case Nil
    then show ?case using assms(1,2) by simp
  next
    case (snoc x xs)
    then show ?case using assms(3) [of xs x ys] by (simp add: for_each_append)
  qed
  then show ?thesis by simp
qed

section \<open>Lists\<close>

lemma takeWhile_neq_Cons_split:
  "x \<in> set xs \<Longrightarrow> xs = takeWhile (\<lambda>y. y \<noteq> x) xs @ x # tl (dropWhile (\<lambda>y. y \<noteq> x) xs)"
  by (induction xs) auto

lemma notin_takeWhile_neq [simp]: "x \<notin> set (takeWhile (\<lambda>y. y \<noteq> x) xs)"
  by (auto dest: set_takeWhileD)

lemma nth_list_update_if:
  "i < length xs \<Longrightarrow> xs[j := v] ! i = (if i = j then v else xs ! i)"
  by (simp add: nth_list_update)

lemma distinct_nth_inj:
  "distinct xs \<Longrightarrow> i < length xs \<Longrightarrow> j < length xs \<Longrightarrow> xs ! i = xs ! j \<Longrightarrow> i = j"
  by (simp add: nth_eq_iff_index_eq)

section \<open>Words\<close>

lemma unat_bound: "unat (w :: 'a::len word) < 2 ^ LENGTH('a)"
  by (rule unsigned_less)

lemma uint_eq_iff_word: "uint (a :: 'a::len word) = uint b \<longleftrightarrow> a = b"
  by (simp add: word_uint_eq_iff)

lemma unat_diff_eq_iff:
  fixes a b :: "'a::len word"
  shows "k < 2 ^ LENGTH('a) \<Longrightarrow> unat (a - b) = k \<longleftrightarrow> a = b + of_nat k"
  by (metis add_diff_cancel_left' diff_add_cancel add.commute unat_of_nat mod_less of_nat_unat
      ucast_id)

lemma unat_add_small:
  fixes a :: "'a::len word"
  shows "unat a + n < 2 ^ LENGTH('a) \<Longrightarrow> unat (a + of_nat n) = unat a + n"
  by (simp add: unat_word_ariths unat_of_nat)

lemma of_nat_word_eq_iff:
  fixes i j :: nat
  shows "i < 2 ^ LENGTH('a) \<Longrightarrow> j < 2 ^ LENGTH('a) \<Longrightarrow>
    (of_nat i :: 'a::len word) = of_nat j \<longleftrightarrow> i = j"
  by (metis unat_of_nat mod_less)

lemma word_add_offset_inj:
  fixes a :: "'a::len word"
  shows "i < 2 ^ LENGTH('a) \<Longrightarrow> j < 2 ^ LENGTH('a) \<Longrightarrow> a + of_nat i = a + of_nat j \<longleftrightarrow> i = j"
  by (simp add: of_nat_word_eq_iff)

lemma word_offset_exists:
  fixes a b :: "'a::len word"
  shows "a = b + of_nat (unat (a - b))"
  by simp

section \<open>Rounding\<close>

lemma round_down_bounds:
  fixes n k :: nat
  assumes "0 < k"
  shows "n div k * k \<le> n" "n < n div k * k + k"
  using assms div_mult_mod_eq [of n k] mod_less_divisor [of k n] by linarith+

lemma round_up_bounds:
  fixes n k :: nat
  assumes "0 < k"
  shows "n \<le> (n + (k - 1)) div k * k" "(n + (k - 1)) div k * k < n + k"
  using round_down_bounds [OF assms, of "n + (k - 1)"] assms by linarith+

lemma round_up_le:
  fixes n k m :: nat
  assumes "0 < k" "n \<le> k * m"
  shows "(n + (k - 1)) div k * k \<le> k * m"
proof -
  let ?q = "(n + (k - 1)) div k"
  have "k * ?q < k * Suc m"
    using round_up_bounds(2) [OF assms(1), of n] assms(2) by (simp only: mult.commute [of k] mult_Suc)
  then have "?q \<le> m" using assms(1) by (simp only: nat_mult_less_cancel_disj less_Suc_eq_le)
  then show ?thesis by (metis mult.commute mult_le_mono2)
qed

end
