(* ===== verification/KString.thy ===== *)
theory KString
  imports Prelude
begin

text \<open>
  The C library of the kernel, \<^verbatim>\<open>kernel/string.c\<close>.  The \<open>mem\<close> functions work on
  the byte-addressed memory, because their arguments may overlap and because the kernel calls
  them on whole pages; the \<open>str\<close> functions work on character objects given by their
  bytes, and an access past the end of the object is \<open>None\<close>.
\<close>

section \<open>The mem functions\<close>

text \<open>\<^verbatim>\<open>memset\<close>: the loop writes the low byte of \<open>c\<close> at \<open>dst[0]\<close>, \<open>dst[1]\<close>, \<open>\<dots>\<close>\<close>

fun memset_loop :: "uint64 \<Rightarrow> uchar \<Rightarrow> nat \<Rightarrow> mem \<Rightarrow> mem" where
  "memset_loop dst c 0 m = m"
| "memset_loop dst c (Suc i) m = (memset_loop dst c i m)(dst + of_nat i := c)"

definition memset :: "uint64 \<Rightarrow> uint \<Rightarrow> uint \<Rightarrow> mem \<Rightarrow> mem" where
  "memset dst c n m = memset_loop dst (ucast c) (unat n) m"

fun memcmp_loop :: "nat \<Rightarrow> uint64 \<Rightarrow> uint64 \<Rightarrow> mem \<Rightarrow> int" where
  "memcmp_loop 0 s1 s2 m = 0"
| "memcmp_loop (Suc n) s1 s2 m =
     (if m s1 \<noteq> m s2 then uint (m s1) - uint (m s2) else memcmp_loop n (s1 + 1) (s2 + 1) m)"

definition memcmp :: "uint64 \<Rightarrow> uint64 \<Rightarrow> uint \<Rightarrow> mem \<Rightarrow> int" where
  "memcmp v1 v2 n m = memcmp_loop (unat n) v1 v2 m"

text \<open>The two loops of \<^verbatim>\<open>memmove\<close>: backwards from one past the end, and forwards.\<close>

fun memmove_down :: "nat \<Rightarrow> uint64 \<Rightarrow> uint64 \<Rightarrow> mem \<Rightarrow> mem" where
  "memmove_down 0 d s m = m"
| "memmove_down (Suc n) d s m = memmove_down n (d - 1) (s - 1) (m(d - 1 := m (s - 1)))"

fun memmove_up :: "nat \<Rightarrow> uint64 \<Rightarrow> uint64 \<Rightarrow> mem \<Rightarrow> mem" where
  "memmove_up 0 d s m = m"
| "memmove_up (Suc n) d s m = memmove_up n (d + 1) (s + 1) (m(d := m s))"

definition memmove :: "uint64 \<Rightarrow> uint64 \<Rightarrow> uint \<Rightarrow> mem \<Rightarrow> mem" where
  "memmove dst src n m =
     (if n = 0 then m
      else if src < dst \<and> src + ucast n > dst
      then memmove_down (unat n) (dst + ucast n) (src + ucast n) m
      else memmove_up (unat n) dst src m)"

definition memcpy :: "uint64 \<Rightarrow> uint64 \<Rightarrow> uint \<Rightarrow> mem \<Rightarrow> mem" where
  "memcpy dst src n m = memmove dst src n m"

section \<open>The str functions\<close>

text \<open>\<^verbatim>\<open>strncmp\<close>: each read of \<open>*p\<close> and \<open>*q\<close> needs a byte left in the object.\<close>

fun strncmp :: "bytes \<Rightarrow> bytes \<Rightarrow> nat \<Rightarrow> int option" where
  "strncmp p q 0 = Some 0"
| "strncmp (a # p) (b # q) (Suc n) =
     (if a \<noteq> 0 \<and> a = b then strncmp p q n else Some (uint a - uint b))"
| "strncmp p q (Suc n) = None"

text \<open>The second loop of \<^verbatim>\<open>strncpy\<close>: zero the rest of the first \<open>n\<close> bytes.\<close>

fun strncpy_fill :: "bytes \<Rightarrow> nat \<Rightarrow> bytes option" where
  "strncpy_fill s 0 = Some s"
| "strncpy_fill (x # s) (Suc n) = map_option (Cons 0) (strncpy_fill s n)"
| "strncpy_fill [] (Suc n) = None"

fun strncpy_loop :: "bytes \<Rightarrow> bytes \<Rightarrow> nat \<Rightarrow> bytes option" where
  "strncpy_loop s t 0 = Some s"
| "strncpy_loop (x # s) (c # t) (Suc n) =
     map_option (Cons c) (if c \<noteq> 0 then strncpy_loop s t n else strncpy_fill s n)"
| "strncpy_loop s t (Suc n) = None"

definition strncpy :: "bytes \<Rightarrow> bytes \<Rightarrow> int \<Rightarrow> bytes option" where
  "strncpy s t n = strncpy_loop s t (nat n)"

text \<open>
  \<^verbatim>\<open>safestrcpy\<close>: the argument of the loop is \<open>n\<close> before the \<open>--n\<close> of the loop test.
  The final \<open>*s = 0\<close> is also executed after a NUL has been copied, one byte further on.
\<close>

fun safestrcpy_loop :: "bytes \<Rightarrow> bytes \<Rightarrow> nat \<Rightarrow> bytes option" where
  "safestrcpy_loop (x # s) (c # t) (Suc (Suc n)) =
     map_option (Cons c)
       (if c \<noteq> 0 then safestrcpy_loop s t (Suc n)
        else case s of [] \<Rightarrow> None | y # s' \<Rightarrow> Some (0 # s'))"
| "safestrcpy_loop (x # s) t (Suc 0) = Some (0 # s)"
| "safestrcpy_loop s t n = None"

definition safestrcpy :: "bytes \<Rightarrow> bytes \<Rightarrow> int \<Rightarrow> bytes option" where
  "safestrcpy s t n = (if n \<le> 0 then Some s else safestrcpy_loop s t (nat n))"

fun strlen :: "bytes \<Rightarrow> nat option" where
  "strlen [] = None"
| "strlen (c # s) = (if c = 0 then Some 0 else map_option Suc (strlen s))"

section \<open>Correctness of the mem functions\<close>

lemma memset_loop_apply:
  "k \<le> 2 ^ 64 \<Longrightarrow> memset_loop dst c k m a = (if unat (a - dst) < k then c else m a)"
proof (induction k)
  case (Suc k)
  have "a = dst + of_nat k \<longleftrightarrow> unat (a - dst) = k"
    using Suc.prems unat_diff_eq_iff [of k a dst] by simp
  with Suc show ?case by auto
qed simp

lemma memset_apply:
  "memset dst c n m a = (if unat (a - dst) < unat n then ucast c else m a)"
  using unat_bound [of n] by (simp add: memset_def memset_loop_apply)

lemma memcmp_loop_0_iff:
  "memcmp_loop n a b m = 0 \<longleftrightarrow> (\<forall>i<n. m (a + of_nat i) = m (b + of_nat i))"
proof (induction n arbitrary: a b)
  case (Suc n)
  have split: "(\<forall>i<Suc n. P i) \<longleftrightarrow> P 0 \<and> (\<forall>i<n. P (Suc i))" for P
    using less_Suc_eq_0_disj by auto
  show ?case
    by (subst split)
      (auto simp: Suc uint_eq_iff_word add.assoc add.commute add.left_commute)
qed simp

text \<open>What a copy should do, whatever the overlap: every byte comes from the memory before.\<close>

definition copied :: "uint64 \<Rightarrow> uint64 \<Rightarrow> nat \<Rightarrow> mem \<Rightarrow> mem" where
  "copied dst src n m = (\<lambda>a. if unat (a - dst) < n then m (src + (a - dst)) else m a)"

lemma copied_0 [simp]: "copied dst src 0 m = m"
  by (simp add: copied_def)

lemma memmove_up_copied:
  "n \<le> 2 ^ 32 \<Longrightarrow> unat (d - s) = 0 \<or> n \<le> unat (d - s) \<Longrightarrow>
    memmove_up n d s m = copied d s n m"
proof (induction n arbitrary: d s m)
  case (Suc n)
  let ?m = "m(d := m s)"
  have IH: "memmove_up n (d + 1) (s + 1) ?m = copied (d + 1) (s + 1) n ?m"
    using Suc.prems by (intro Suc.IH) auto
  have "copied (d + 1) (s + 1) n ?m a = copied d s (Suc n) m a" for a
  proof (cases "a = d")
    case True
    have "unat (d - (d + 1)) = 2 ^ 64 - 1"
      using unat_sub_if' [of 0 "1 :: uint64"] by simp
    with Suc.prems True show ?thesis by (simp add: copied_def)
  next
    case False
    then have nz: "a - d \<noteq> 0" by simp
    have pred: "unat (a - (d + 1)) = unat (a - d) - 1"
    proof -
      have "a - (d + 1) = (a - d) - 1" by simp
      then show ?thesis using unat_minus_one [OF nz] by metis
    qed
    have src: "s + 1 + (a - (d + 1)) = s + (a - d)" by simp
    have "s + (a - d) \<noteq> d" if "unat (a - d) < Suc n"
    proof
      assume "s + (a - d) = d"
      then have eq: "a - d = d - s" by (simp add: algebra_simps)
      have "unat (d - s) \<noteq> 0" using nz unfolding eq by (metis unsigned_eq_0_iff)
      with that Suc.prems show False unfolding eq by simp
    qed
    moreover have "unat (a - d) \<noteq> 0" using nz by (metis unsigned_eq_0_iff)
    ultimately show ?thesis
      using False unfolding copied_def pred src by auto
  qed
  with IH show ?case by auto
qed simp

lemma memmove_down_copied:
  "n \<le> 2 ^ 32 \<Longrightarrow> unat (s - d) = 0 \<or> n \<le> unat (s - d) \<Longrightarrow>
    memmove_down n (d + of_nat n) (s + of_nat n) m = copied d s n m"
proof (induction n arbitrary: m)
  case (Suc n)
  let ?m = "m(d + of_nat n := m (s + of_nat n))"
  have "memmove_down (Suc n) (d + of_nat (Suc n)) (s + of_nat (Suc n)) m =
      memmove_down n (d + of_nat n) (s + of_nat n) ?m"
    by simp
  also have "\<dots> = copied d s n ?m"
    using Suc.prems by (intro Suc.IH) auto
  also have "copied d s n ?m = copied d s (Suc n) m"
  proof
    fix a
    have n64: "n < 2 ^ 64" using Suc.prems by simp
    have a_n: "unat (a - d) = n \<longleftrightarrow> a = d + of_nat n"
      using unat_diff_eq_iff [of n a d] n64 by simp
    have "s + (a - d) \<noteq> d + of_nat n" if "unat (a - d) < n"
    proof
      assume eq: "s + (a - d) = d + of_nat n"
      define j where "j = unat (a - d)"
      have j: "a - d = of_nat j" "j < n" using that by (auto simp: j_def)
      have "s - d = of_nat n - of_nat j"
        using eq j(1) by (simp add: algebra_simps)
      also have "\<dots> = of_nat (n - j)" using j(2) by simp
      finally have "unat (s - d) = n - j"
        using n64 by (simp add: unat_of_nat)
      with j(2) Suc.prems show False by auto
    qed
    then show "copied d s n ?m a = copied d s (Suc n) m a"
      using a_n by (auto simp: copied_def less_Suc_eq)
  qed
  finally show ?case .
qed simp

text \<open>
  \<^verbatim>\<open>memmove\<close> copies as if through a temporary, for every overlap of source and
  destination, as long as the source does not run past the end of the address space.
\<close>

lemma memmove_copied:
  assumes fits: "unat src + unat n < 2 ^ 64"
  shows "memmove dst src n m = copied dst src (unat n) m"
proof -
  have n32: "unat n \<le> 2 ^ 32" using unat_bound [of n] by simp
  have cast: "(ucast n :: uint64) = of_nat (unat n)" by simp
  have send: "unat (src + ucast n) = unat src + unat n"
    using fits unat_add_small [of src "unat n"] by simp
  consider (zero) "n = 0" | (down) "n \<noteq> 0" "src < dst" "dst < src + ucast n"
    | (up) "n \<noteq> 0" "\<not> (src < dst \<and> dst < src + ucast n)" by blast
  then show ?thesis
  proof cases
    case down
    then have d: "unat src < unat dst" "unat dst < unat src + unat n"
      using send by (auto simp: word_less_nat_alt)
    have "unat (src - dst) = unat src + 2 ^ 64 - unat dst"
      using d unat_sub_if' [of src dst] by (simp add: word_size)
    then have "unat n \<le> unat (src - dst)"
      using d n32 by simp
    then have "memmove_down (unat n) (dst + ucast n) (src + ucast n) m = copied dst src (unat n) m"
      unfolding cast using n32 by (intro memmove_down_copied) auto
    with down show ?thesis by (simp add: memmove_def)
  next
    case up
    have "unat (dst - src) = 0 \<or> unat n \<le> unat (dst - src)"
    proof (cases "src < dst")
      case True
      then have "unat (dst - src) = unat dst - unat src"
        using unat_sub [of src dst] by simp
      moreover have "unat src + unat n \<le> unat dst"
        using True up send by (simp add: word_less_nat_alt not_less)
      ultimately show ?thesis by linarith
    next
      case False
      then have le: "unat dst \<le> unat src" by (simp add: word_less_nat_alt not_less)
      show ?thesis
      proof (cases "dst = src")
        case neq: False
        then have "unat dst < unat src" using le word_unat_eq_iff [of dst src] by simp
        then have "unat (dst - src) = unat dst + 2 ^ 64 - unat src"
          using unat_sub_if' [of dst src] by (simp add: word_size)
        then show ?thesis using fits by simp
      qed simp
    qed
    with up n32 show ?thesis by (auto simp: memmove_def memmove_up_copied)
  qed (simp add: memmove_def)
qed


section \<open>Correctness of the str functions\<close>

text \<open>
  The C string held by an object, cut after \<open>n\<close> bytes as the \<open>strn\<close> functions do, and
  the objects in which reading that far stays inside the object.
\<close>

definition cstrn :: "nat \<Rightarrow> bytes \<Rightarrow> bytes" where
  "cstrn n s = takeWhile (\<lambda>c. c \<noteq> 0) (take n s)"

abbreviation cstr :: "bytes \<Rightarrow> bytes" where
  "cstr s \<equiv> takeWhile (\<lambda>c. c \<noteq> 0) s"

definition readable :: "nat \<Rightarrow> bytes \<Rightarrow> bool" where
  "readable n s \<longleftrightarrow> n \<le> length s \<or> 0 \<in> set s"

lemma cstrn_simps [simp]:
  "cstrn 0 s = []"
  "cstrn n [] = []"
  "cstrn (Suc n) (c # s) = (if c = 0 then [] else c # cstrn n s)"
  by (auto simp: cstrn_def)

lemma readable_simps [simp]:
  "readable 0 s"
  "readable (Suc n) (c # s) \<longleftrightarrow> c = 0 \<or> readable n s"
  "\<not> readable (Suc n) []"
  by (auto simp: readable_def)

lemma cstrn_no_nul: "0 \<notin> set (cstrn n s)"
  by (auto simp: cstrn_def dest: set_takeWhileD)

lemma cstrn_length: "length (cstrn n s) \<le> n"
  unfolding cstrn_def using length_takeWhile_le [of _ "take n s"] by (auto intro: order_trans)

lemma strlen_Some_iff:
  "strlen s = (if 0 \<in> set s then Some (length (cstr s)) else None)"
  by (induction s) auto

lemma strncmp_total:
  "readable n p \<Longrightarrow> readable n q \<Longrightarrow>
    \<exists>r. strncmp p q n = Some r \<and> (r = 0 \<longleftrightarrow> cstrn n p = cstrn n q)"
proof (induction p q n rule: strncmp.induct)
  case (2 a p b q n)
  then show ?case by (auto simp: uint_eq_iff_word)
qed auto

text \<open>\<^verbatim>\<open>strncpy\<close> writes exactly the first \<open>n\<close> bytes: the string, then NULs.\<close>

lemma strncpy_fill_spec:
  "n \<le> length s \<Longrightarrow> strncpy_fill s n = Some (replicate n 0 @ drop n s)"
  by (induction s n rule: strncpy_fill.induct) auto

lemma strncpy_loop_spec:
  "n \<le> length s \<Longrightarrow> readable n t \<Longrightarrow>
    strncpy_loop s t n =
      Some (cstrn n t @ replicate (n - length (cstrn n t)) 0 @ drop n s)"
proof (induction s t n rule: strncpy_loop.induct)
  case (2 x s c t n)
  then show ?case
    by (auto simp: strncpy_fill_spec cstrn_length)
qed auto

text \<open>
  \<^verbatim>\<open>safestrcpy\<close> stays inside a buffer of \<open>n\<close> bytes and always leaves a NUL-terminated
  string there: the first \<open>n - 1\<close> characters of the source.
\<close>

lemma safestrcpy_loop_spec:
  "n \<le> length s \<Longrightarrow> 0 < n \<Longrightarrow> readable (n - 1) t \<Longrightarrow>
    \<exists>s'. safestrcpy_loop s t n = Some s' \<and> length s' = length s \<and> drop n s' = drop n s \<and>
      0 \<in> set (take n s') \<and> cstr s' = cstrn (n - 1) t"
proof (induction s t n rule: safestrcpy_loop.induct)
  case (1 x s c t n)
  show ?case
  proof (cases "c = 0")
    case True
    with "1.prems" show ?thesis by (cases s) auto
  next
    case False
    with "1.prems" have "readable n t" by (cases n) auto
    with "1.IH" [OF False] "1.prems" False show ?thesis by fastforce
  qed
qed auto

section \<open>Properties\<close>

text \<open>
  C37: \<open>memmove\<close> copies as if through a temporary buffer, whatever the overlap of
  source and destination: every byte of the destination is the byte that the source held before
  the call, and no other byte changes.
\<close>

theorem memmove_correct:
  assumes "unat src + unat n < 2 ^ 64"
  shows "memmove dst src n m a =
    (if unat (a - dst) < unat n then m (src + (a - dst)) else m a)"
  using memmove_copied [OF assms] by (simp add: copied_def)

theorem memmove_correct_witness:
  "memmove 0x1002 0x1000 8 (\<lambda>a. ucast a) 0x1009 =
    (if unat (0x1009 - 0x1002 :: uint64) < unat (8 :: uint) then ucast (0x1000 + (0x1009 - 0x1002) :: uint64)
     else ucast (0x1009 :: uint64))"
  by (rule memmove_correct) simp

text \<open>
  The contract of safestrcpy: \<open>safestrcpy\<close> with a positive \<open>n\<close> writes only the first \<open>n\<close>
  bytes of the destination and always leaves a NUL-terminated string in them, which is the
  source's string cut after \<open>n - 1\<close> characters.
\<close>

theorem safestrcpy_terminates_string:
  assumes "0 < n" "nat n \<le> length s" "readable (nat n - 1) t"
  shows "\<exists>s'. safestrcpy s t n = Some s' \<and> length s' = length s \<and> drop (nat n) s' = drop (nat n) s \<and>
      0 \<in> set (take (nat n) s') \<and> cstr s' = cstrn (nat n - 1) t"
  using safestrcpy_loop_spec [of "nat n" s t] assms by (simp add: safestrcpy_def)

theorem safestrcpy_terminates_string_witness:
  "\<exists>s'. safestrcpy (replicate 4 7) [104, 101, 108, 108, 111, 0] 4 = Some s' \<and>
      length s' = length (replicate 4 (7 :: uchar)) \<and> drop (nat 4) s' = drop (nat 4) (replicate 4 7) \<and>
      0 \<in> set (take (nat 4) s') \<and> cstr s' = cstrn (nat 4 - 1) [104, 101, 108, 108, 111, 0]"
  by (rule safestrcpy_terminates_string) (simp_all add: readable_def)

end
