(* ===== verification/Memory.thy ===== *)
theory Memory
  imports KString
begin

text \<open>
  Words in byte-addressed memory, in the little-endian order of the RISC-V targets: the
  loads and stores behind the kernel's pointer and integer fields, and the page geometry of
  \<^verbatim>\<open>kernel/riscv.h\<close> and \<^verbatim>\<open>kernel/memlayout.h\<close>.
\<close>

section \<open>Little-endian loads and stores\<close>

fun load_le :: "nat \<Rightarrow> mem \<Rightarrow> uint64 \<Rightarrow> uint64" where
  "load_le 0 m a = 0"
| "load_le (Suc k) m a = ucast (m a) OR push_bit 8 (load_le k m (a + 1))"

fun store_le :: "nat \<Rightarrow> uint64 \<Rightarrow> uint64 \<Rightarrow> mem \<Rightarrow> mem" where
  "store_le 0 a v m = m"
| "store_le (Suc k) a v m = store_le k (a + 1) (drop_bit 8 v) (m(a := ucast v))"

definition load64 :: "mem \<Rightarrow> uint64 \<Rightarrow> uint64" where
  "load64 m a = load_le 8 m a"

definition store64 :: "uint64 \<Rightarrow> uint64 \<Rightarrow> mem \<Rightarrow> mem" where
  "store64 a v m = store_le 8 a v m"

lemma store_le_other:
  "k \<le> unat (b - a) \<Longrightarrow> store_le k a v m b = m b"
proof (induction k arbitrary: a v m)
  case (Suc k)
  then have ne: "b - a \<noteq> 0" by auto
  have "b - (a + 1) = b - a - 1" by simp
  then have "unat (b - (a + 1)) = unat (b - a) - 1"
    using unat_minus_one [OF ne] by metis
  with Suc have "k \<le> unat (b - (a + 1))" by simp
  with Suc.IH ne show ?case by simp
qed simp

lemma store_le_hd: "k < 2 ^ 32 \<Longrightarrow> store_le k (a + 1) v m a = m a"
  using store_le_other [of k a "a + 1"] unat_sub_if' [of 0 "1 :: uint64"] by simp

lemma load_store_le:
  "k < 2 ^ 32 \<Longrightarrow> load_le k (store_le k a v m) a = take_bit (8 * k) v"
proof (induction k arbitrary: a v m)
  case (Suc k)
  have "load_le (Suc k) (store_le (Suc k) a v m) a =
      ucast (ucast v :: uchar) OR push_bit 8 (take_bit (8 * k) (drop_bit 8 v))"
    using Suc by (simp add: store_le_hd)
  also have "\<dots> = take_bit (8 * Suc k) v"
    by (rule bit_word_eqI) (auto simp: bit_simps)
  finally show ?case .
qed simp

lemma load_le_cong:
  "(\<And>i. i < k \<Longrightarrow> m (a + of_nat i) = m' (a + of_nat i)) \<Longrightarrow> load_le k m a = load_le k m' a"
proof (induction k arbitrary: a)
  case (Suc k)
  have "m a = m' a" using Suc.prems [of 0] by simp
  moreover have "load_le k m (a + 1) = load_le k m' (a + 1)"
  proof (rule Suc.IH)
    fix i assume "i < k"
    then show "m (a + 1 + of_nat i) = m' (a + 1 + of_nat i)"
      using Suc.prems [of "Suc i"] by (simp add: add.assoc)
  qed
  ultimately show ?case by simp
qed simp

lemma load64_store64 [simp]: "load64 (store64 a v m) a = v"
  by (simp add: load64_def store64_def load_store_le take_bit_word_eq_self)

lemma store64_other: "8 \<le> unat (b - a) \<Longrightarrow> store64 a v m b = m b"
  by (simp add: store64_def store_le_other)

lemma load64_cong:
  "(\<And>i. i < 8 \<Longrightarrow> m (a + of_nat i) = m' (a + of_nat i)) \<Longrightarrow> load64 m a = load64 m' a"
  unfolding load64_def by (rule load_le_cong)

text \<open>Two words that do not overlap do not disturb each other.\<close>

lemma load64_store64_apart:
  assumes "8 \<le> unat (a - b)" "8 \<le> unat (b - a)"
  shows "load64 (store64 b v m) a = load64 m a"
proof (rule load64_cong)
  fix i :: nat assume i: "i < 8"
  have "a + of_nat i - b = (a - b) + of_nat i" by simp
  moreover have "8 \<le> unat ((a - b) + of_nat i)"
  proof (rule ccontr)
    assume "\<not> 8 \<le> unat ((a - b) + of_nat i)"
    then have lt: "unat ((a - b) + of_nat i) < 8" by simp
    define x where "x = a - b"
    have "unat x + i \<ge> 2 ^ 64"
    proof (rule ccontr)
      assume "\<not> 2 ^ 64 \<le> unat x + i"
      then have "unat (x + of_nat i) = unat x + i"
        using unat_add_small [of x i] by simp
      with lt assms(1) show False by (simp add: x_def)
    qed
    then have "unat (- x) \<le> i"
      using unat_sub_if' [of 0 x] unat_bound [of x] by (auto split: if_splits)
    moreover have "b - a = - x" by (simp add: x_def)
    ultimately show False using assms(2) i by simp
  qed
  ultimately show "store64 b v m (a + of_nat i) = m (a + of_nat i)"
    using store64_other [of "a + of_nat i" b v m] by metis
qed

section \<open>Pages\<close>

definition PGSIZE :: uint64 where "PGSIZE = 4096"
definition PGSHIFT :: nat where "PGSHIFT = 12"

definition PGROUNDUP :: "uint64 \<Rightarrow> uint64" where
  "PGROUNDUP sz = (sz + PGSIZE - 1) AND NOT (PGSIZE - 1)"

definition PGROUNDDOWN :: "uint64 \<Rightarrow> uint64" where
  "PGROUNDDOWN a = a AND NOT (PGSIZE - 1)"

definition KERNBASE :: uint64 where "KERNBASE = 0x80000000"
definition PHYSTOP :: uint64 where "PHYSTOP = KERNBASE + 128 * 1024 * 1024"
definition MAXVA :: uint64 where "MAXVA = push_bit (9 + 9 + 9 + 12 - 1) 1"
definition TRAMPOLINE :: uint64 where "TRAMPOLINE = MAXVA - PGSIZE"
definition TRAPFRAME :: uint64 where "TRAPFRAME = TRAMPOLINE - PGSIZE"

definition KSTACK :: "uint64 \<Rightarrow> uint64" where
  "KSTACK p = TRAMPOLINE - (p + 1) * 2 * PGSIZE"

lemma page_values [simp]:
  "PHYSTOP = 0x88000000" "MAXVA = 0x4000000000" "TRAMPOLINE = 0x3FFFFFF000"
  "TRAPFRAME = 0x3FFFFFE000"
  by (simp_all add: PHYSTOP_def KERNBASE_def MAXVA_def TRAMPOLINE_def TRAPFRAME_def PGSIZE_def)

definition page_aligned :: "uint64 \<Rightarrow> bool" where
  "page_aligned a \<longleftrightarrow> unat a mod 4096 = 0"

lemma unat_mod_PGSIZE [simp]: "a mod PGSIZE = 0 \<longleftrightarrow> page_aligned a"
  by (simp add: page_aligned_def PGSIZE_def word_unat_eq_iff unat_mod)

lemma round_down_push: "PGROUNDDOWN a = push_bit 12 (drop_bit 12 a)"
proof -
  have m: "PGSIZE - 1 = mask 12" by (simp add: PGSIZE_def mask_eq_exp_minus_1)
  show ?thesis
    unfolding PGROUNDDOWN_def m by (rule bit_word_eqI) (auto simp: bit_simps)
qed

lemma unat_PGROUNDDOWN: "unat (PGROUNDDOWN a) = unat a div 4096 * 4096"
proof -
  have "unat a div 4096 * 4096 < 2 ^ 64"
    using unat_bound [of a] div_times_less_eq_dividend [of "unat a" 4096] by simp
  then show ?thesis
    by (simp add: round_down_push push_bit_eq_mult drop_bit_eq_div unat_word_ariths unat_div)
qed

lemma PGROUNDUP_down: "PGROUNDUP a = PGROUNDDOWN (a + 4095)"
  by (simp add: PGROUNDUP_def PGROUNDDOWN_def PGSIZE_def add.commute)

lemma unat_PGROUNDUP:
  "unat a + 4095 < 2 ^ 64 \<Longrightarrow> unat (PGROUNDUP a) = (unat a + 4095) div 4096 * 4096"
  using unat_add_small [of a 4095] by (simp add: PGROUNDUP_down unat_PGROUNDDOWN)

text \<open>The bounds of a rounded address below \<open>PHYSTOP\<close>.\<close>

lemma PGROUNDUP_PHYSTOP:
  assumes "a \<le> PHYSTOP"
  shows "unat a \<le> unat (PGROUNDUP a)" "unat (PGROUNDUP a) < unat a + 4096"
    "unat (PGROUNDUP a) \<le> 0x88000000" "unat (PGROUNDUP a) mod 4096 = 0"
proof -
  have a: "unat a \<le> 4096 * 0x88000" using assms by (simp add: word_le_nat_alt)
  then have up: "unat (PGROUNDUP a) = (unat a + 4095) div 4096 * 4096"
    by (intro unat_PGROUNDUP) simp
  show "unat a \<le> unat (PGROUNDUP a)" "unat (PGROUNDUP a) < unat a + 4096"
    using round_up_bounds [of 4096 "unat a"] by (simp_all add: up)
  show "unat (PGROUNDUP a) \<le> 0x88000000" using round_up_le [OF _ a] by (simp add: up)
  show "unat (PGROUNDUP a) mod 4096 = 0" by (simp add: up)
qed

lemma page_aligned_PGROUNDDOWN [simp]: "page_aligned (PGROUNDDOWN a)"
  by (simp add: page_aligned_def unat_PGROUNDDOWN)

lemma page_aligned_PGROUNDUP [simp]: "page_aligned (PGROUNDUP a)"
  by (simp add: PGROUNDUP_down)

lemma PGROUNDDOWN_aligned [simp]: "page_aligned a \<Longrightarrow> PGROUNDDOWN a = a"
  by (auto simp: page_aligned_def unat_PGROUNDDOWN word_unat_eq_iff)

lemma unat_PGROUNDDOWN_offset: "unat (a - PGROUNDDOWN a) = unat a mod 4096"
  using unat_sub_if' [of a "PGROUNDDOWN a"]
  by (simp add: unat_PGROUNDDOWN minus_div_mult_eq_mod)

text \<open>Distinct pages are disjoint.\<close>

lemma page_aligned_apart:
  assumes "page_aligned p" "page_aligned q" "p \<noteq> q"
  shows "4096 \<le> unat (p - q)"
proof -
  obtain k l where kl: "unat p = 4096 * k" "unat q = 4096 * l"
    using assms by (auto simp: page_aligned_def elim!: dvdE dest!: mod_0_imp_dvd)
  with assms have ne: "k \<noteq> l" by (auto simp: word_unat_eq_iff)
  have l: "l < 2 ^ 52" using kl unat_bound [of q] by simp
  show ?thesis
  proof (cases "l \<le> k")
    case True
    then have "unat (p - q) = 4096 * (k - l)"
      using unat_sub_if' [of p q] kl by (simp add: diff_mult_distrib2)
    with True ne show ?thesis by simp
  next
    case False
    then have "unat (p - q) = 4096 * (k + (2 ^ 52 - l))"
      using unat_sub_if' [of p q] kl l by (simp add: diff_mult_distrib2)
    with l show ?thesis by simp
  qed
qed

definition in_page :: "uint64 \<Rightarrow> uint64 \<Rightarrow> bool" where
  "in_page p a \<longleftrightarrow> unat (a - p) < 4096"

lemma in_page_offset: "page_aligned p \<Longrightarrow> i < 4096 \<Longrightarrow> in_page p (p + of_nat i)"
  by (simp add: in_page_def unat_of_nat)

lemma in_page_unique:
  assumes "page_aligned p" "page_aligned q" "in_page p a" "in_page q a"
  shows "p = q"
proof (rule ccontr)
  assume ne: "p \<noteq> q"
  define i j where "i = unat (a - p)" and "j = unat (a - q)"
  have ij: "a = p + of_nat i" "i < 4096" "a = q + of_nat j" "j < 4096"
    using assms(3,4) by (auto simp: i_def j_def in_page_def)
  have "p - q = of_nat j - of_nat i" using ij by (simp add: algebra_simps)
  moreover have "q - p = of_nat i - of_nat j" using ij by (simp add: algebra_simps)
  moreover have "i \<le> j \<or> j \<le> i" by linarith
  ultimately have "p - q = of_nat (j - i) \<or> q - p = of_nat (i - j)"
    by (metis of_nat_diff)
  then have "unat (p - q) < 4096 \<or> unat (q - p) < 4096"
    using ij by (auto simp: unat_of_nat)
  with page_aligned_apart assms(1,2) ne show False by (metis not_le)
qed

section \<open>Byte sequences\<close>

fun load_bytes :: "mem \<Rightarrow> uint64 \<Rightarrow> nat \<Rightarrow> bytes" where
  "load_bytes m a 0 = []"
| "load_bytes m a (Suc n) = m a # load_bytes m (a + 1) n"

fun store_bytes :: "uint64 \<Rightarrow> bytes \<Rightarrow> mem \<Rightarrow> mem" where
  "store_bytes a [] m = m"
| "store_bytes a (b # bs) m = store_bytes (a + 1) bs (m(a := b))"

lemma load_bytes_map: "load_bytes m a n = map (\<lambda>i. m (a + of_nat i)) [0..<n]"
proof (induction n arbitrary: a)
  case (Suc n)
  have "map (\<lambda>i. m (a + of_nat i)) [0..<Suc n] = m a # map (\<lambda>i. m (a + 1 + of_nat i)) [0..<n]"
    by (simp add: upt_conv_Cons map_Suc_upt [symmetric] comp_def add.assoc del: upt_Suc)
  with Suc show ?case by simp
qed simp

lemma length_load_bytes [simp]: "length (load_bytes m a n) = n"
  by (simp add: load_bytes_map)

lemma nth_load_bytes [simp]: "i < n \<Longrightarrow> load_bytes m a n ! i = m (a + of_nat i)"
  by (simp add: load_bytes_map)

lemma load_bytes_append:
  "load_bytes m a (i + j) = load_bytes m a i @ load_bytes m (a + of_nat i) j"
  by (induction i arbitrary: a) (simp_all add: add.assoc)

lemma load_bytes_cong:
  "(\<And>i. i < n \<Longrightarrow> m (a + of_nat i) = m' (a + of_nat i)) \<Longrightarrow> load_bytes m a n = load_bytes m' a n"
  by (simp add: load_bytes_map)

lemma store_bytes_apply:
  "length bs \<le> 2 ^ 32 \<Longrightarrow> store_bytes a bs m x =
     (if unat (x - a) < length bs then bs ! unat (x - a) else m x)"
proof (induction bs arbitrary: a m)
  case (Cons b bs)
  have IH: "store_bytes a (b # bs) m x =
     (if unat (x - (a + 1)) < length bs then bs ! unat (x - (a + 1)) else (m(a := b)) x)"
    using Cons by simp
  show ?case
  proof (cases "x = a")
    case True
    have "unat (x - (a + 1)) = 2 ^ 64 - 1"
      using True unat_sub_if' [of 0 "1 :: uint64"] by simp
    with True IH Cons.prems show ?thesis by simp
  next
    case False
    then have nz: "x - a \<noteq> 0" by simp
    have "x - (a + 1) = x - a - 1" by simp
    then have pred: "unat (x - (a + 1)) = unat (x - a) - 1" using unat_minus_one [OF nz] by metis
    have "unat (x - a) \<noteq> 0" using nz by (metis unsigned_eq_0_iff)
    then show ?thesis using False IH unfolding pred by (cases "unat (x - a)") auto
  qed
qed simp

lemma load_store_bytes:
  assumes "length bs \<le> 2 ^ 32"
  shows "load_bytes (store_bytes a bs m) a (length bs) = bs"
  using assms by (intro nth_equalityI) (simp_all add: store_bytes_apply unat_of_nat)

end
