(* ===== verification/Spinlock.thy ===== *)
theory Spinlock
  imports Prelude
begin

text \<open>
  Spin locks and interrupt nesting: \<^verbatim>\<open>kernel/spinlock.c\<close>, the per-CPU record of
  \<^verbatim>\<open>kernel/proc.h\<close> and the interrupt-enable bit of \<^verbatim>\<open>kernel/riscv.h\<close>.

  The record \<open>mach\<close> is the root of the kernel state; the other components extend it with
  their own fields.  Every function takes the number \<open>h\<close> of the hart that runs it, which the
  code keeps in the \<open>tp\<close> register, so that \<open>mycpu()\<close> is \<open>cpus s h\<close>.  The functions of the
  first section describe one hart running alone: \<open>acquire\<close> of a lock that is taken spins
  with nobody to release it and does not return.  The last section interleaves any number of
  harts at the granularity of the atomic memory operations.
\<close>

section \<open>State\<close>

record spinlock =
  locked :: uint
  lkname :: string
  lkcpu :: "nat option"

text \<open>Sleep locks are named here because each of them contains a spin lock.\<close>

datatype sleeplock_id = BufLock nat | InodeLock nat

text \<open>The spin locks of the kernel; in C they are the addresses of the lock objects.\<close>

datatype lock_id =
    KmemLock | PidLock | WaitLock | ProcLock nat | TicksLock | BcacheLock | LogLock
  | ItableLock | FtableLock | PipeLock uint64 | ConsLock | UartTxLock | VdiskLock | PrLock
  | SleepLk sleeplock_id

text \<open>
  The CPU record.  \<open>sstatus\<close> is the hart's supervisor status register.
\<close>

record cpu =
  cproc :: "nat option"
  noff :: int
  intena :: bool
  sstatus :: uint64

record mach =
  cpus :: "nat \<Rightarrow> cpu"
  locks :: "lock_id \<Rightarrow> spinlock"

section \<open>Operations\<close>

definition upd_cpu :: "nat \<Rightarrow> (cpu \<Rightarrow> cpu) \<Rightarrow> 'a mach_scheme \<Rightarrow> 'a mach_scheme" where
  "upd_cpu h f s = s\<lparr>cpus := (cpus s)(h := f (cpus s h))\<rparr>"

definition upd_lock :: "lock_id \<Rightarrow> (spinlock \<Rightarrow> spinlock) \<Rightarrow> 'a mach_scheme \<Rightarrow> 'a mach_scheme" where
  "upd_lock l f s = s\<lparr>locks := (locks s)(l := f (locks s l))\<rparr>"

definition SSTATUS_SIE :: uint64 where
  "SSTATUS_SIE = push_bit 1 1"

definition intr_on :: "nat \<Rightarrow> 'a mach_scheme \<Rightarrow> 'a mach_scheme" where
  "intr_on h s = upd_cpu h (\<lambda>c. c\<lparr>sstatus := sstatus c OR SSTATUS_SIE\<rparr>) s"

definition intr_off :: "nat \<Rightarrow> 'a mach_scheme \<Rightarrow> 'a mach_scheme" where
  "intr_off h s = upd_cpu h (\<lambda>c. c\<lparr>sstatus := sstatus c AND NOT SSTATUS_SIE\<rparr>) s"

definition intr_get :: "nat \<Rightarrow> 'a mach_scheme \<Rightarrow> bool" where
  "intr_get h s \<longleftrightarrow> sstatus (cpus s h) AND SSTATUS_SIE \<noteq> 0"

definition push_off :: "nat \<Rightarrow> 'a mach_scheme \<Rightarrow> 'a mach_scheme" where
  "push_off h s =
     (let old = intr_get h s;
          s1 = intr_off h s;
          s2 = (if noff (cpus s1 h) = 0 then upd_cpu h (\<lambda>c. c\<lparr>intena := old\<rparr>) s1 else s1)
      in upd_cpu h (\<lambda>c. c\<lparr>noff := noff c + 1\<rparr>) s2)"

definition pop_off :: "nat \<Rightarrow> 'a mach_scheme \<Rightarrow> 'a mach_scheme option" where
  "pop_off h s =
     (if intr_get h s then None
      else if noff (cpus s h) < 1 then None
      else let s1 = upd_cpu h (\<lambda>c. c\<lparr>noff := noff c - 1\<rparr>) s
           in Some (if noff (cpus s1 h) = 0 \<and> intena (cpus s1 h) then intr_on h s1 else s1))"

definition initlock :: "lock_id \<Rightarrow> string \<Rightarrow> 'a mach_scheme \<Rightarrow> 'a mach_scheme" where
  "initlock l nm s = upd_lock l (\<lambda>k. k\<lparr>lkname := nm, locked := 0, lkcpu := None\<rparr>) s"

definition holding :: "nat \<Rightarrow> lock_id \<Rightarrow> 'a mach_scheme \<Rightarrow> bool" where
  "holding h l s \<longleftrightarrow> locked (locks s l) \<noteq> 0 \<and> lkcpu (locks s l) = Some h"

text \<open>
  The test-and-set loop of \<open>acquire\<close> succeeds at once when the lock is free; when it is
  not, the loop of a hart running alone never ends.
\<close>

definition acquire :: "nat \<Rightarrow> lock_id \<Rightarrow> 'a mach_scheme \<Rightarrow> 'a mach_scheme option" where
  "acquire h l s =
     (let s1 = push_off h s
      in if holding h l s1 then None
         else if locked (locks s1 l) \<noteq> 0 then None
         else Some (upd_lock l (\<lambda>k. k\<lparr>lkcpu := Some h\<rparr>) (upd_lock l (\<lambda>k. k\<lparr>locked := 1\<rparr>) s1)))"

definition release :: "nat \<Rightarrow> lock_id \<Rightarrow> 'a mach_scheme \<Rightarrow> 'a mach_scheme option" where
  "release h l s =
     (if \<not> holding h l s then None
      else pop_off h (upd_lock l (\<lambda>k. k\<lparr>locked := 0\<rparr>) (upd_lock l (\<lambda>k. k\<lparr>lkcpu := None\<rparr>) s)))"

section \<open>Interrupt nesting\<close>

lemma bit_SIE [simp]: "bit SSTATUS_SIE n \<longleftrightarrow> n = 1"
  by (auto simp: SSTATUS_SIE_def bit_simps)

lemma sie_off [simp]: "(x AND NOT SSTATUS_SIE) AND SSTATUS_SIE = 0"
  by (rule bit_word_eqI) (simp add: bit_simps)

lemma sie_bit: "x AND SSTATUS_SIE = 0 \<longleftrightarrow> \<not> bit x 1"
proof
  assume "x AND SSTATUS_SIE = 0"
  then have "\<not> bit (x AND SSTATUS_SIE) 1" by simp
  then show "\<not> bit x 1" by (simp add: bit_simps)
next
  assume "\<not> bit x 1"
  then show "x AND SSTATUS_SIE = 0"
    by (intro bit_word_eqI) (auto simp: bit_simps)
qed

lemma sie_on [simp]: "(x OR SSTATUS_SIE) AND SSTATUS_SIE \<noteq> 0"
  unfolding sie_bit by (simp only: bit_or_iff bit_SIE) simp

lemma sie_restore: "x AND SSTATUS_SIE \<noteq> 0 \<Longrightarrow> (x AND NOT SSTATUS_SIE) OR SSTATUS_SIE = x"
  by (rule bit_word_eqI) (auto simp: sie_bit bit_simps)

lemma sie_already_off: "x AND SSTATUS_SIE = 0 \<Longrightarrow> x AND NOT SSTATUS_SIE = x"
  by (rule bit_word_eqI) (auto simp: sie_bit bit_simps)

lemma upd_cpu_simps [simp]:
  "cpus (upd_cpu h f s) = (cpus s)(h := f (cpus s h))"
  "locks (upd_cpu h f s) = locks s"
  by (simp_all add: upd_cpu_def)

lemma upd_lock_simps [simp]:
  "cpus (upd_lock l f s) = cpus s"
  "locks (upd_lock l f s) = (locks s)(l := f (locks s l))"
  by (simp_all add: upd_lock_def)

lemma upd_cpu_twice: "upd_cpu h f (upd_cpu h g s) = upd_cpu h (\<lambda>c. f (g c)) s"
  by (simp add: upd_cpu_def)

lemma upd_cpu_id: "f (cpus s h) = cpus s h \<Longrightarrow> upd_cpu h f s = s"
  by (simp add: upd_cpu_def)

text \<open>
  What \<open>push_off\<close> and \<open>pop_off\<close> do to the record of the hart that runs them; no other part
  of the state changes.
\<close>

definition pushed :: "cpu \<Rightarrow> cpu" where
  "pushed c = c\<lparr>sstatus := sstatus c AND NOT SSTATUS_SIE,
     intena := (if noff c = 0 then sstatus c AND SSTATUS_SIE \<noteq> 0 else intena c),
     noff := noff c + 1\<rparr>"

definition popped :: "cpu \<Rightarrow> cpu" where
  "popped c = c\<lparr>sstatus := (if noff c = 1 \<and> intena c then sstatus c OR SSTATUS_SIE else sstatus c),
     noff := noff c - 1\<rparr>"

lemma pushed_simps [simp]:
  "noff (pushed c) = noff c + 1" "cproc (pushed c) = cproc c"
  by (simp_all add: pushed_def)

lemma pushed_sie [simp]: "sstatus (pushed c) AND SSTATUS_SIE = 0"
  by (simp add: pushed_def)

lemma popped_simps [simp]:
  "noff (popped c) = noff c - 1" "cproc (popped c) = cproc c"
  by (simp_all add: popped_def)

lemma push_off_eq: "push_off h s = upd_cpu h pushed s"
  by (auto simp: push_off_def intr_off_def intr_get_def upd_cpu_def pushed_def Let_def)

lemma pop_off_eq:
  "pop_off h s =
    (if sstatus (cpus s h) AND SSTATUS_SIE = 0 \<and> 1 \<le> noff (cpus s h)
     then Some (upd_cpu h popped s) else None)"
  by (auto simp: pop_off_def intr_on_def intr_get_def upd_cpu_def popped_def Let_def fun_eq_iff)

text \<open>
  A balanced pair leaves the nesting depth and the interrupt-enable bit as they were; only the
  remembered \<open>intena\<close> may differ, and only at depth 0, where it has no meaning.
\<close>

definition settled :: "cpu \<Rightarrow> cpu" where
  "settled c = (if noff c = 0 then c\<lparr>intena := (sstatus c AND SSTATUS_SIE \<noteq> 0)\<rparr>
     else c\<lparr>sstatus := sstatus c AND NOT SSTATUS_SIE\<rparr>)"

lemma popped_pushed: "popped (pushed c) = settled c"
  by (auto simp: popped_def pushed_def settled_def sie_restore sie_already_off)

lemma settled_fields [simp]:
  "noff (settled c) = noff c" "cproc (settled c) = cproc c"
  by (simp_all add: settled_def)

text \<open>
  The record of a hart is well formed when its nesting depth is not negative and interrupts
  are off whenever the depth is positive.
\<close>

definition cpu_ok :: "cpu \<Rightarrow> bool" where
  "cpu_ok c \<longleftrightarrow> 0 \<le> noff c \<and> (0 < noff c \<longrightarrow> sstatus c AND SSTATUS_SIE = 0)"

lemma cpu_ok_pushed [simp]: "cpu_ok c \<Longrightarrow> cpu_ok (pushed c)"
  by (simp add: cpu_ok_def pushed_def)

lemma cpu_ok_popped [simp]: "cpu_ok c \<Longrightarrow> 1 \<le> noff c \<Longrightarrow> cpu_ok (popped c)"
  by (auto simp: cpu_ok_def popped_def)

lemma settled_sstatus [simp]: "cpu_ok c \<Longrightarrow> sstatus (settled c) = sstatus c"
  by (auto simp: cpu_ok_def settled_def sie_already_off)

lemma settled_deep [simp]: "cpu_ok c \<Longrightarrow> 0 < noff c \<Longrightarrow> settled c = c"
  by (simp add: cpu_ok_def settled_def sie_already_off)

lemma cpu_ok_settled [simp]: "cpu_ok c \<Longrightarrow> cpu_ok (settled c)"
  by (auto simp: cpu_ok_def settled_def)

fun push_offs :: "nat \<Rightarrow> nat \<Rightarrow> 'a mach_scheme \<Rightarrow> 'a mach_scheme" where
  "push_offs h 0 s = s"
| "push_offs h (Suc n) s = push_offs h n (push_off h s)"

fun pop_offs :: "nat \<Rightarrow> nat \<Rightarrow> 'a mach_scheme \<Rightarrow> 'a mach_scheme option" where
  "pop_offs h 0 s = Some s"
| "pop_offs h (Suc n) s = Option.bind (pop_off h s) (pop_offs h n)"

lemma push_offs_Suc: "push_offs h (Suc n) s = push_off h (push_offs h n s)"
  by (induction n arbitrary: s) auto

lemma push_offs_ok:
  "cpu_ok (cpus s h) \<Longrightarrow> cpu_ok (cpus (push_offs h n s) h)"
  "noff (cpus (push_offs h n s) h) = noff (cpus s h) + int n"
  by (induction n arbitrary: s) (auto simp: push_off_eq)

lemma pop_push_off:
  "cpu_ok (cpus s h) \<Longrightarrow> pop_off h (push_off h s) = Some (upd_cpu h settled s)"
  by (simp add: push_off_eq pop_off_eq upd_cpu_twice popped_pushed pushed_sie cpu_ok_def)

lemma pop_push_offs:
  assumes ok: "cpu_ok (cpus s h)"
  shows "pop_offs h (Suc n) (push_offs h (Suc n) s) = Some (upd_cpu h settled s)"
proof (induction n)
  case 0
  show ?case using pop_push_off [OF ok] by simp
next
  case (Suc n)
  let ?t = "push_offs h (Suc n) s"
  have "cpu_ok (cpus ?t h)" "0 < noff (cpus ?t h)"
    using push_offs_ok(1) [OF ok, of "Suc n"] push_offs_ok(2) [of h "Suc n" s] ok
    by (auto simp: cpu_ok_def)
  then have "pop_off h (push_off h ?t) = Some ?t"
    by (simp add: pop_push_off upd_cpu_id)
  moreover have "pop_offs h (Suc (Suc n)) (push_offs h (Suc (Suc n)) s) =
      Option.bind (pop_off h (push_off h ?t)) (pop_offs h (Suc n))"
    by (simp only: push_offs_Suc pop_offs.simps)
  ultimately show ?case using Suc by simp
qed

section \<open>Balanced critical sections\<close>

text \<open>A lock is free when it is not taken and records no holder.\<close>

definition lock_free :: "lock_id \<Rightarrow> 'a mach_scheme \<Rightarrow> bool" where
  "lock_free l s \<longleftrightarrow> locked (locks s l) = 0 \<and> lkcpu (locks s l) = None"

definition taken :: "nat \<Rightarrow> lock_id \<Rightarrow> 'a mach_scheme \<Rightarrow> 'a mach_scheme" where
  "taken h l s = upd_lock l (\<lambda>k. k\<lparr>locked := 1, lkcpu := Some h\<rparr>) (upd_cpu h pushed s)"

lemma acquire_free: "lock_free l s \<Longrightarrow> acquire h l s = Some (taken h l s)"
  by (simp add: acquire_def taken_def lock_free_def push_off_eq holding_def upd_lock_def Let_def)

lemma acquire_Some:
  "acquire h l s = Some t \<Longrightarrow> locked (locks s l) = 0 \<and> t = taken h l s"
  by (auto simp: acquire_def taken_def push_off_eq holding_def upd_lock_def Let_def split: if_splits)

lemma acquire_self_None: "holding h l s \<Longrightarrow> acquire h l s = None"
  by (simp add: acquire_def push_off_eq holding_def Let_def)

lemma release_not_holding: "\<not> holding h l s \<Longrightarrow> release h l s = None"
  by (simp add: release_def)

lemma release_eq:
  "release h l s =
    (if holding h l s \<and> sstatus (cpus s h) AND SSTATUS_SIE = 0 \<and> 1 \<le> noff (cpus s h)
     then Some (s\<lparr>cpus := (cpus s)(h := popped (cpus s h)),
        locks := (locks s)(l := (locks s l)\<lparr>lkcpu := None, locked := 0\<rparr>)\<rparr>) else None)"
  by (simp add: release_def pop_off_eq upd_lock_def upd_cpu_def)

lemma free_lock_restored [simp]:
  "lock_free l s \<Longrightarrow> (locks s)(l := (locks s l)\<lparr>locked := 0, lkcpu := None\<rparr>) = locks s"
  "lock_free l s \<Longrightarrow> (locks s)(l := (locks s l)\<lparr>lkcpu := None, locked := 0\<rparr>) = locks s"
  by (auto simp: lock_free_def)

lemma settled_settled [simp]: "settled (settled c) = settled c"
  by (simp add: settled_def)

text \<open>
  The facts that evaluate a critical section which a hart runs alone: the lock is taken, the
  body runs, and the release restores the lock.
\<close>

lemmas critical_section = acquire_free taken_def release_eq holding_def upd_lock_def upd_cpu_def
  popped_pushed

section \<open>Many harts\<close>

text \<open>
  Any number of harts call \<open>acquire\<close> and \<open>release\<close> on any locks, interleaved between the
  memory operations of the code.  The position of a hart inside the two functions:
  \<^item> \<open>Out\<close>: in neither;
  \<^item> \<open>Spin l\<close>: in the test-and-set loop of \<open>acquire\<close>;
  \<^item> \<open>Swapped l\<close>: the atomic swap has returned 0, \<open>lk->cpu\<close> is not yet written;
  \<^item> \<open>Cleared l\<close>: in \<open>release\<close>, \<open>lk->cpu\<close> is cleared, \<open>lk->locked\<close> is not;
  \<^item> \<open>Dropped l\<close>: \<open>lk->locked\<close> is cleared, \<open>pop_off\<close> is still to come;
  \<^item> \<open>Panicked\<close>: stopped in \<open>panic\<close>.
  \<open>cs s h\<close> is the set of locks for which an \<open>acquire\<close> of hart \<open>h\<close> has returned and no
  \<open>release\<close> has begun: the critical sections the hart is in.
\<close>

datatype hart_pc =
    Out | Spin lock_id | Swapped lock_id | Cleared lock_id | Dropped lock_id | Panicked

record smp = mach +
  pc :: "nat \<Rightarrow> hart_pc"
  cs :: "nat \<Rightarrow> lock_id set"

inductive smp_step :: "smp \<Rightarrow> smp \<Rightarrow> bool" where
  acquire_enter: "pc s h = Out \<Longrightarrow> \<not> holding h l (push_off h s) \<Longrightarrow>
     smp_step s ((push_off h s)\<lparr>pc := (pc s)(h := Spin l)\<rparr>)"
| acquire_panic: "pc s h = Out \<Longrightarrow> holding h l (push_off h s) \<Longrightarrow>
     smp_step s ((push_off h s)\<lparr>pc := (pc s)(h := Panicked)\<rparr>)"
| swap_taken: "pc s h = Spin l \<Longrightarrow> locked (locks s l) \<noteq> 0 \<Longrightarrow>
     smp_step s (upd_lock l (\<lambda>k. k\<lparr>locked := 1\<rparr>) s)"
| swap_free: "pc s h = Spin l \<Longrightarrow> locked (locks s l) = 0 \<Longrightarrow>
     smp_step s ((upd_lock l (\<lambda>k. k\<lparr>locked := 1\<rparr>) s)\<lparr>pc := (pc s)(h := Swapped l)\<rparr>)"
| acquire_done: "pc s h = Swapped l \<Longrightarrow>
     smp_step s ((upd_lock l (\<lambda>k. k\<lparr>lkcpu := Some h\<rparr>) s)
       \<lparr>pc := (pc s)(h := Out), cs := (cs s)(h := insert l (cs s h))\<rparr>)"
| release_panic: "pc s h = Out \<Longrightarrow> \<not> holding h l s \<Longrightarrow>
     smp_step s (s\<lparr>pc := (pc s)(h := Panicked)\<rparr>)"
| release_enter: "pc s h = Out \<Longrightarrow> holding h l s \<Longrightarrow>
     smp_step s ((upd_lock l (\<lambda>k. k\<lparr>lkcpu := None\<rparr>) s)
       \<lparr>pc := (pc s)(h := Cleared l), cs := (cs s)(h := cs s h - {l})\<rparr>)"
| release_store: "pc s h = Cleared l \<Longrightarrow>
     smp_step s ((upd_lock l (\<lambda>k. k\<lparr>locked := 0\<rparr>) s)\<lparr>pc := (pc s)(h := Dropped l)\<rparr>)"
| release_done: "pc s h = Dropped l \<Longrightarrow> pop_off h s = Some t \<Longrightarrow>
     smp_step s (t\<lparr>pc := (pc s)(h := Out)\<rparr>)"
| pop_off_panic: "pc s h = Dropped l \<Longrightarrow> pop_off h s = None \<Longrightarrow>
     smp_step s (s\<lparr>pc := (pc s)(h := Panicked)\<rparr>)"

text \<open>At boot every lock is initialised and no hart is inside the lock code.\<close>

definition smp_init :: "smp \<Rightarrow> bool" where
  "smp_init s \<longleftrightarrow> (\<forall>l. lock_free l s) \<and> (\<forall>h. pc s h = Out \<and> cs s h = {} \<and> noff (cpus s h) = 0)"

inductive smp_reachable :: "smp \<Rightarrow> bool" where
  smp_start: "smp_init s \<Longrightarrow> smp_reachable s"
| smp_more: "smp_reachable s \<Longrightarrow> smp_step s t \<Longrightarrow> smp_reachable t"

text \<open>A hart owns a lock from its successful swap to the store that frees the lock.\<close>

definition owns :: "smp \<Rightarrow> nat \<Rightarrow> lock_id \<Rightarrow> bool" where
  "owns s h l \<longleftrightarrow> l \<in> cs s h \<or> pc s h = Swapped l \<or> pc s h = Cleared l"

definition busy :: "hart_pc \<Rightarrow> int" where
  "busy p = (case p of Out \<Rightarrow> 0 | Panicked \<Rightarrow> 0 | _ \<Rightarrow> 1)"

definition lock_inv :: "smp \<Rightarrow> bool" where
  "lock_inv s \<longleftrightarrow>
     (\<forall>h l. owns s h l \<longrightarrow> locked (locks s l) \<noteq> 0) \<and>
     (\<forall>h h' l. owns s h l \<longrightarrow> owns s h' l \<longrightarrow> h = h') \<and>
     (\<forall>h l. lkcpu (locks s l) = Some h \<longleftrightarrow> l \<in> cs s h) \<and>
     (\<forall>h l. pc s h = Swapped l \<or> pc s h = Cleared l \<longrightarrow> l \<notin> cs s h)"

text \<open>The nesting depth counts the critical sections and a call in progress.\<close>

definition depth_inv :: "smp \<Rightarrow> bool" where
  "depth_inv s \<longleftrightarrow> (\<forall>h. pc s h \<noteq> Panicked \<longrightarrow>
     finite (cs s h) \<and> cpu_ok (cpus s h) \<and> noff (cpus s h) = int (card (cs s h)) + busy (pc s h))"

lemma lock_inv_init: "smp_init s \<Longrightarrow> lock_inv s"
  by (auto simp: smp_init_def lock_inv_def owns_def lock_free_def)

lemma depth_inv_init: "smp_init s \<Longrightarrow> depth_inv s"
  by (simp add: smp_init_def depth_inv_def cpu_ok_def busy_def)

lemma lock_invI:
  assumes "\<And>h l. owns s h l \<Longrightarrow> locked (locks s l) \<noteq> 0"
    and "\<And>h h' l. owns s h l \<Longrightarrow> owns s h' l \<Longrightarrow> h = h'"
    and "\<And>h l. lkcpu (locks s l) = Some h \<longleftrightarrow> l \<in> cs s h"
    and "\<And>h l. pc s h = Swapped l \<or> pc s h = Cleared l \<Longrightarrow> l \<notin> cs s h"
  shows "lock_inv s"
  using assms unfolding lock_inv_def by blast

lemma lock_invD:
  assumes "lock_inv s"
  shows "owns s h l \<Longrightarrow> locked (locks s l) \<noteq> 0"
    and "owns s h l \<Longrightarrow> owns s h' l \<Longrightarrow> h = h'"
    and "lkcpu (locks s l) = Some h \<longleftrightarrow> l \<in> cs s h"
    and "pc s h = Swapped l \<or> pc s h = Cleared l \<Longrightarrow> l \<notin> cs s h"
  using assms unfolding lock_inv_def by blast+

lemma owns_simps:
  "owns (s\<lparr>pc := p\<rparr>) h l \<longleftrightarrow> l \<in> cs s h \<or> p h = Swapped l \<or> p h = Cleared l"
  "owns (s\<lparr>pc := p, cs := c\<rparr>) h l \<longleftrightarrow> l \<in> c h \<or> p h = Swapped l \<or> p h = Cleared l"
  by (simp_all add: owns_def)

lemma smp_frame [simp]:
  "cs (upd_lock l f s) = cs s" "pc (upd_lock l f s) = pc s"
  "cs (upd_cpu h g s) = cs s" "pc (upd_cpu h g s) = pc s"
  by (simp_all add: upd_lock_def upd_cpu_def)

text \<open>A step that moves one hart between positions that own nothing.\<close>

lemma lock_inv_move:
  assumes inv: "lock_inv s" and eq: "cs t = cs s" "locks t = locks s"
    and pc: "pc t = (pc s)(h := p)" "\<And>l. p \<noteq> Swapped l \<and> p \<noteq> Cleared l"
  shows "lock_inv t"
proof (rule lock_invI)
  have own: "owns s k l" if "owns t k l" for k l
    using that pc eq by (auto simp: owns_def split: if_splits)
  show "locked (locks t l) \<noteq> 0" if "owns t k l" for k l
    using own [OF that] lock_invD(1) [OF inv] eq by metis
  show "k = k'" if "owns t k l" "owns t k' l" for k k' l
    using own [OF that(1)] own [OF that(2)] lock_invD(2) [OF inv] by metis
  show "lkcpu (locks t l) = Some k \<longleftrightarrow> l \<in> cs t k" for k l
    using lock_invD(3) [OF inv] eq by metis
  show "l \<notin> cs t k" if "pc t k = Swapped l \<or> pc t k = Cleared l" for k l
    using that lock_invD(4) [OF inv] eq pc by (auto split: if_splits)
qed

lemma lock_inv_swap_taken:
  assumes inv: "lock_inv s" and l: "locked (locks s l) \<noteq> 0"
  shows "lock_inv (upd_lock l (\<lambda>k. k\<lparr>locked := 1\<rparr>) s)"
  using lock_invD [OF inv] by (intro lock_invI) (auto simp: owns_def)

lemma lock_inv_swap_free:
  assumes inv: "lock_inv s" and l: "locked (locks s l) = 0" and p: "pc s h = Spin l"
  shows "lock_inv ((upd_lock l (\<lambda>k. k\<lparr>locked := 1\<rparr>) s)\<lparr>pc := (pc s)(h := Swapped l)\<rparr>)"
    (is "lock_inv ?t")
proof (rule lock_invI)
  have none: "\<not> owns s k l" for k using lock_invD(1) [OF inv] l by blast
  have own: "owns ?t k l' \<longleftrightarrow> owns s k l' \<or> k = h \<and> l' = l" for k l'
    using p by (auto simp: owns_def)
  show "locked (locks ?t l') \<noteq> 0" if "owns ?t k l'" for k l'
    using lock_invD(1) [OF inv, of k l'] that own none by auto
  show "k = k'" if "owns ?t k l'" "owns ?t k' l'" for k k' l'
    using that own none lock_invD(2) [OF inv] by metis
  show "lkcpu (locks ?t l') = Some k \<longleftrightarrow> l' \<in> cs ?t k" for k l'
    using lock_invD(3) [OF inv] by auto
  show "l' \<notin> cs ?t k" if "pc ?t k = Swapped l' \<or> pc ?t k = Cleared l'" for k l'
    using that lock_invD(4) [OF inv, of k l'] none by (auto simp: owns_def split: if_splits)
qed

lemma lock_inv_acquire_done:
  assumes inv: "lock_inv s" and p: "pc s h = Swapped l"
  shows "lock_inv ((upd_lock l (\<lambda>k. k\<lparr>lkcpu := Some h\<rparr>) s)
       \<lparr>pc := (pc s)(h := Out), cs := (cs s)(h := insert l (cs s h))\<rparr>)" (is "lock_inv ?t")
proof (rule lock_invI)
  have mine: "owns s h l" using p by (simp add: owns_def)
  have only: "owns s k l \<Longrightarrow> k = h" for k using lock_invD(2) [OF inv mine] by blast
  have own: "owns ?t k l' \<longleftrightarrow> owns s k l'" for k l'
    using p by (auto simp: owns_def)
  show "locked (locks ?t l') \<noteq> 0" if "owns ?t k l'" for k l'
    using lock_invD(1) [OF inv, of k l'] that own by auto
  show "k = k'" if "owns ?t k l'" "owns ?t k' l'" for k k' l'
    using that own lock_invD(2) [OF inv] by metis
  have "l \<notin> cs s k" for k
    using only lock_invD(4) [OF inv, of k l] p unfolding owns_def by metis
  then show "lkcpu (locks ?t l') = Some k \<longleftrightarrow> l' \<in> cs ?t k" for k l'
    using lock_invD(3) [OF inv] by auto
  show "l' \<notin> cs ?t k" if "pc ?t k = Swapped l' \<or> pc ?t k = Cleared l'" for k l'
    using that lock_invD(4) [OF inv, of k l'] by (auto split: if_splits)
qed

lemma lock_inv_release_enter:
  assumes inv: "lock_inv s" and p: "pc s h = Out" and hold: "holding h l s"
  shows "lock_inv ((upd_lock l (\<lambda>k. k\<lparr>lkcpu := None\<rparr>) s)
       \<lparr>pc := (pc s)(h := Cleared l), cs := (cs s)(h := cs s h - {l})\<rparr>)" (is "lock_inv ?t")
proof (rule lock_invI)
  have mine: "l \<in> cs s h" using hold lock_invD(3) [OF inv] by (simp add: holding_def)
  then have "owns s h l" by (simp add: owns_def)
  then have only: "owns s k l \<Longrightarrow> k = h" for k using lock_invD(2) [OF inv] by blast
  have own: "owns ?t k l' \<longleftrightarrow> owns s k l'" for k l'
    using p mine by (auto simp: owns_def)
  show "locked (locks ?t l') \<noteq> 0" if "owns ?t k l'" for k l'
    using lock_invD(1) [OF inv, of k l'] that own by auto
  show "k = k'" if "owns ?t k l'" "owns ?t k' l'" for k k' l'
    using that own lock_invD(2) [OF inv] by metis
  have "l \<notin> cs s k" if "k \<noteq> h" for k
    using only that unfolding owns_def by metis
  then show "lkcpu (locks ?t l') = Some k \<longleftrightarrow> l' \<in> cs ?t k" for k l'
    using lock_invD(3) [OF inv] by auto
  show "l' \<notin> cs ?t k" if "pc ?t k = Swapped l' \<or> pc ?t k = Cleared l'" for k l'
    using that lock_invD(4) [OF inv, of k l'] by (auto split: if_splits)
qed

lemma lock_inv_release_store:
  assumes inv: "lock_inv s" and p: "pc s h = Cleared l"
  shows "lock_inv ((upd_lock l (\<lambda>k. k\<lparr>locked := 0\<rparr>) s)\<lparr>pc := (pc s)(h := Dropped l)\<rparr>)"
    (is "lock_inv ?t")
proof (rule lock_invI)
  have "owns s h l" using p by (simp add: owns_def)
  then have only: "owns s k l \<Longrightarrow> k = h" for k using lock_invD(2) [OF inv] by blast
  have "l \<notin> cs s h" using lock_invD(4) [OF inv] p by blast
  then have own: "owns ?t k l' \<Longrightarrow> owns s k l' \<and> l' \<noteq> l" for k l'
    using p only by (auto simp: owns_def split: if_splits)
  show "locked (locks ?t l') \<noteq> 0" if "owns ?t k l'" for k l'
    using lock_invD(1) [OF inv, of k l'] own [OF that] by simp
  show "k = k'" if "owns ?t k l'" "owns ?t k' l'" for k k' l'
    using own [OF that(1)] own [OF that(2)] lock_invD(2) [OF inv] by metis
  show "lkcpu (locks ?t l') = Some k \<longleftrightarrow> l' \<in> cs ?t k" for k l'
    using lock_invD(3) [OF inv] by auto
  show "l' \<notin> cs ?t k" if "pc ?t k = Swapped l' \<or> pc ?t k = Cleared l'" for k l'
    using that lock_invD(4) [OF inv, of k l'] by (auto split: if_splits)
qed

lemma pop_off_frame:
  "pop_off h s = Some t \<Longrightarrow> locks t = locks s \<and> cs t = cs s \<and> pc t = pc s"
  by (auto simp: pop_off_eq split: if_splits)

lemma lock_inv_step: "smp_step s t \<Longrightarrow> lock_inv s \<Longrightarrow> lock_inv t"
proof (induction rule: smp_step.induct)
  case (acquire_enter s h l)
  then show ?case by - (rule lock_inv_move [of s _ h "Spin l"], auto simp: push_off_eq)
next
  case (acquire_panic s h l)
  then show ?case by - (rule lock_inv_move [of s _ h Panicked], auto simp: push_off_eq)
next
  case (release_panic s h l)
  then show ?case by - (rule lock_inv_move [of s _ h Panicked], auto)
next
  case (release_done s h l t)
  then show ?case
    using pop_off_frame [of h s t] by - (rule lock_inv_move [of s _ h Out], auto)
next
  case (pop_off_panic s h l)
  then show ?case by - (rule lock_inv_move [of s _ h Panicked], auto)
qed (simp_all add: lock_inv_swap_taken lock_inv_swap_free lock_inv_acquire_done
    lock_inv_release_enter lock_inv_release_store)

lemma depth_invD:
  "depth_inv s \<Longrightarrow> pc s h \<noteq> Panicked \<Longrightarrow> finite (cs s h) \<and> cpu_ok (cpus s h) \<and>
     noff (cpus s h) = int (card (cs s h)) + busy (pc s h)"
  by (simp add: depth_inv_def)

text \<open>A step touches the records of one hart only.\<close>

lemma depth_inv_local:
  assumes "depth_inv s"
    and "\<And>k. k \<noteq> h \<Longrightarrow> pc t k = pc s k \<and> cs t k = cs s k \<and> cpus t k = cpus s k"
    and "pc t h \<noteq> Panicked \<Longrightarrow> finite (cs t h) \<and> cpu_ok (cpus t h) \<and>
      noff (cpus t h) = int (card (cs t h)) + busy (pc t h)"
  shows "depth_inv t"
  unfolding depth_inv_def
proof (intro allI impI)
  fix k assume "pc t k \<noteq> Panicked"
  then show "finite (cs t k) \<and> cpu_ok (cpus t k) \<and>
      noff (cpus t k) = int (card (cs t k)) + busy (pc t k)"
    using assms depth_invD [of s k] by (cases "k = h") simp_all
qed

lemma depth_inv_step: "smp_step s t \<Longrightarrow> lock_inv s \<Longrightarrow> depth_inv s \<Longrightarrow> depth_inv t"
proof (induction rule: smp_step.induct)
  case (acquire_enter s h l)
  with depth_invD [of s h] show ?case
    by - (rule depth_inv_local [of s h], auto simp: push_off_eq busy_def)
next
  case (acquire_panic s h l)
  then show ?case by - (rule depth_inv_local [of s h], auto simp: push_off_eq)
next
  case (swap_taken s h l)
  with depth_invD [of s h] show ?case by - (rule depth_inv_local [of s h], auto)
next
  case (swap_free s h l)
  with depth_invD [of s h] show ?case
    by - (rule depth_inv_local [of s h], auto simp: busy_def)
next
  case (acquire_done s h l)
  with depth_invD [of s h] lock_invD(4) [of s h l] show ?case
    by - (rule depth_inv_local [of s h], auto simp: busy_def)
next
  case (release_panic s h l)
  then show ?case by - (rule depth_inv_local [of s h], auto)
next
  case (release_enter s h l)
  moreover from this have "l \<in> cs s h"
    using lock_invD(3) by (simp add: holding_def)
  moreover from this depth_invD [of s h] release_enter have "0 < card (cs s h)"
    by (auto simp: card_gt_0_iff)
  ultimately show ?case
    using depth_invD [of s h]
    by - (rule depth_inv_local [of s h], auto simp: busy_def of_nat_diff)
next
  case (release_store s h l)
  with depth_invD [of s h] show ?case
    by - (rule depth_inv_local [of s h], auto simp: busy_def)
next
  case (release_done s h l t)
  with depth_invD [of s h] show ?case
    by - (rule depth_inv_local [of s h], auto simp: busy_def pop_off_eq split: if_splits)
next
  case (pop_off_panic s h l)
  then show ?case by - (rule depth_inv_local [of s h], auto)
qed

lemma smp_reachable_inv: "smp_reachable s \<Longrightarrow> lock_inv s \<and> depth_inv s"
  by (induction rule: smp_reachable.induct)
    (auto simp: lock_inv_init depth_inv_init intro: lock_inv_step depth_inv_step)


section \<open>Properties\<close>

text \<open>A machine at boot, for examples.\<close>

definition boot_smp :: smp where
  "boot_smp = \<lparr>cpus = (\<lambda>h. \<lparr>cproc = None, noff = 0, intena = False, sstatus = 0\<rparr>),
     locks = (\<lambda>l. \<lparr>locked = 0, lkname = [], lkcpu = None\<rparr>), pc = (\<lambda>h. Out), cs = (\<lambda>h. {})\<rparr>"

lemma smp_init_boot: "smp_init boot_smp"
  by (simp add: smp_init_def boot_smp_def lock_free_def)

text \<open>
  C8: mutual exclusion.  However the harts interleave, at most one of them is
  between the return of \<open>acquire\<close> and the call of \<open>release\<close> for a given lock.
\<close>

theorem smp_mutual_exclusion:
  assumes "smp_reachable s" "l \<in> cs s i" "l \<in> cs s j"
  shows "i = j"
proof -
  have "lock_inv s" using assms(1) smp_reachable_inv by blast
  moreover have "owns s i l" "owns s j l" using assms(2,3) by (simp_all add: owns_def)
  ultimately show ?thesis by (rule lock_invD(2))
qed

text \<open>The run of hart 0 through \<open>acquire\<close> of the memory allocator's lock, as an example.\<close>

lemma boot_acquire: "\<exists>s. smp_reachable s \<and> KmemLock \<in> cs s 0"
proof -
  let ?s1 = "(push_off 0 boot_smp)\<lparr>pc := (pc boot_smp)(0 := Spin KmemLock)\<rparr>"
  let ?s2 = "(upd_lock KmemLock (\<lambda>k. k\<lparr>locked := 1\<rparr>) ?s1)\<lparr>pc := (pc ?s1)(0 := Swapped KmemLock)\<rparr>"
  let ?s3 = "(upd_lock KmemLock (\<lambda>k. k\<lparr>lkcpu := Some 0\<rparr>) ?s2)
     \<lparr>pc := (pc ?s2)(0 := Out), cs := (cs ?s2)(0 := insert KmemLock (cs ?s2 0))\<rparr>"
  have "smp_step boot_smp ?s1"
    by (rule smp_step.acquire_enter) (simp_all add: boot_smp_def holding_def push_off_eq)
  moreover have "smp_step ?s1 ?s2"
    by (rule smp_step.swap_free) (simp_all add: boot_smp_def push_off_eq)
  moreover have "smp_step ?s2 ?s3"
    by (rule smp_step.acquire_done) simp
  ultimately have "smp_reachable ?s3"
    using smp_init_boot by (blast intro: smp_reachable.intros)
  then show ?thesis by (rule exI [of _ ?s3, OF conjI]) simp
qed

theorem smp_mutual_exclusion_witness:
  "\<exists>s. smp_reachable s \<and> KmemLock \<in> cs s 0 \<and> (\<forall>j. KmemLock \<in> cs s j \<longrightarrow> 0 = j)"
  using boot_acquire smp_mutual_exclusion [of _ KmemLock 0] by blast

text \<open>
  C21: a hart that holds a lock can always give it back.  In every reachable
  state \<open>release\<close> of a lock whose critical section the hart is in passes the \<open>holding\<close> test, and
  the \<open>pop_off\<close> at the end of every \<open>release\<close> returns.
\<close>

theorem smp_release_never_panics:
  assumes "smp_reachable s"
  shows "(l \<in> cs s h \<longrightarrow> holding h l s) \<and>
    (pc s h = Dropped l \<longrightarrow> (\<exists>t. pop_off h s = Some t \<and> smp_step s (t\<lparr>pc := (pc s)(h := Out)\<rparr>)))"
proof (intro conjI impI)
  have inv: "lock_inv s" "depth_inv s" using assms smp_reachable_inv by blast+
  show "holding h l s" if "l \<in> cs s h"
    using lock_invD(1) [OF inv(1), of h l] lock_invD(3) [OF inv(1), of l h] that
    by (simp add: holding_def owns_def)
  show "\<exists>t. pop_off h s = Some t \<and> smp_step s (t\<lparr>pc := (pc s)(h := Out)\<rparr>)"
    if p: "pc s h = Dropped l"
  proof -
    have "cpu_ok (cpus s h)" "1 \<le> noff (cpus s h)"
      using depth_invD [OF inv(2), of h] p by (auto simp: busy_def)
    then have "pop_off h s = Some (upd_cpu h popped s)"
      by (simp add: pop_off_eq cpu_ok_def)
    with p show ?thesis by (blast intro: smp_step.release_done)
  qed
qed

theorem smp_release_never_panics_witness:
  "\<exists>s. smp_reachable s \<and> KmemLock \<in> cs s 0 \<and> holding 0 KmemLock s"
  using boot_acquire smp_release_never_panics [of _ KmemLock 0] by blast

text \<open>
  \<open>push_off\<close> and \<open>pop_off\<close> nest.  Any number of \<open>push_off\<close>s followed by as
  many \<open>pop_off\<close>s never panics and gives back the hart's nesting depth and status register,
  while interrupts stay off in between.
\<close>

theorem interrupts_restored:
  assumes "cpu_ok (cpus s h)"
  shows "\<not> intr_get h (push_offs h (Suc n) s) \<and>
    (\<exists>t. pop_offs h (Suc n) (push_offs h (Suc n) s) = Some t \<and>
      noff (cpus t h) = noff (cpus s h) \<and> sstatus (cpus t h) = sstatus (cpus s h) \<and>
      (\<forall>k. k \<noteq> h \<longrightarrow> cpus t k = cpus s k) \<and> locks t = locks s)"
proof -
  have "0 < noff (cpus (push_offs h (Suc n) s) h)"
    using push_offs_ok(2) [of h "Suc n" s] assms by (simp add: cpu_ok_def)
  then have "\<not> intr_get h (push_offs h (Suc n) s)"
    using push_offs_ok(1) [OF assms, of "Suc n"] by (simp add: cpu_ok_def intr_get_def)
  then show ?thesis using pop_push_offs [OF assms, of n] assms by simp
qed

theorem interrupts_restored_witness:
  "cpu_ok (cpus boot_smp 0) \<and> \<not> intr_get 0 (push_offs 0 (Suc 2) boot_smp) \<and>
    (\<exists>t. pop_offs 0 (Suc 2) (push_offs 0 (Suc 2) boot_smp) = Some t \<and>
      noff (cpus t 0) = noff (cpus boot_smp 0) \<and> sstatus (cpus t 0) = sstatus (cpus boot_smp 0) \<and>
      (\<forall>k. k \<noteq> 0 \<longrightarrow> cpus t k = cpus boot_smp k) \<and> locks t = locks boot_smp)"
proof -
  have ok: "cpu_ok (cpus boot_smp 0)" by (simp add: boot_smp_def cpu_ok_def)
  show ?thesis using ok interrupts_restored [OF ok, of 2] by blast
qed

end
