(* ===== verification/Proc.thy ===== *)
theory Proc
  imports Spinlock
begin

text \<open>
  The process table and the parts of \<^verbatim>\<open>kernel/proc.c\<close> that every other component calls:
  the current process, \<open>sleep\<close> and \<open>wakeup\<close>, the scheduler and \<open>kill\<close>.  The life cycle of
  processes (\<open>fork\<close>, \<open>exit\<close>, \<open>wait\<close>) needs memory and files and is modelled on top of them.

  \<open>swtch\<close> is where a kernel thread stops and the scheduler of the hart goes on, so \<open>sched\<close>
  and \<open>sleep\<close> are modelled up to the switch, with the value of \<open>intena\<close> that the thread keeps
  on its stack as the result, and \<open>sleep_resume\<close> is the part after the switch back,
  which may run on another hart.
\<close>

section \<open>State\<close>

definition NPROC :: nat where "NPROC = 64"
definition NCPU :: nat where "NCPU = 8"
definition NOFILE :: nat where "NOFILE = 16"

datatype procstate = UNUSED | USED | SLEEPING | RUNNABLE | RUNNING | ZOMBIE

text \<open>Sleep channels: the addresses that the kernel passes to \<open>sleep\<close> and \<open>wakeup\<close>.\<close>

datatype chan =
    ChProc nat | ChLog | ChTicks | ChPipeRead uint64 | ChPipeWrite uint64 | ChConsR
  | ChUartTx | ChBuf nat | ChDiskFree | ChSleepLock sleeplock_id

record ctxt =
  ctx_ra :: uint64
  ctx_sp :: uint64
  ctx_s :: "uint64 list"

record proc =
  pstate :: procstate
  chan :: "chan option"
  killed :: bool
  xstate :: int
  pid :: int
  parent :: "nat option"
  kstack :: uint64
  sz :: uint64
  pagetable :: uint64
  trapframe :: uint64
  pcontext :: ctxt
  ofile :: "nat option list"
  cwd :: "nat option"
  pname :: bytes

text \<open>A process is named by its index in the table \<open>proc[NPROC]\<close>.\<close>

record kproc = mach +
  procs :: "nat \<Rightarrow> proc"
  nextpid :: int
  initproc :: "nat option"
  ticks :: uint

definition upd_proc :: "nat \<Rightarrow> (proc \<Rightarrow> proc) \<Rightarrow> 'a kproc_scheme \<Rightarrow> 'a kproc_scheme" where
  "upd_proc p f s = s\<lparr>procs := (procs s)(p := f (procs s p))\<rparr>"

section \<open>Operations\<close>

definition myproc :: "nat \<Rightarrow> 'a mach_scheme \<Rightarrow> (nat option \<times> 'a mach_scheme) option" where
  "myproc h s = do {
     let s = push_off h s;
     let p = cproc (cpus s h);
     s \<leftarrow> pop_off h s;
     Some (p, s)
   }"

definition allocpid :: "nat \<Rightarrow> 'a kproc_scheme \<Rightarrow> (int \<times> 'a kproc_scheme) option" where
  "allocpid h s = do {
     s \<leftarrow> acquire h PidLock s;
     let pd = nextpid s;
     let s = s\<lparr>nextpid := nextpid s + 1\<rparr>;
     s \<leftarrow> release h PidLock s;
     Some (pd, s)
   }"

text \<open>\<open>sched\<close>, up to the switch: the four sanity checks and the saved \<open>intena\<close>.\<close>

definition sched :: "nat \<Rightarrow> 'a kproc_scheme \<Rightarrow> (bool \<times> 'a kproc_scheme) option" where
  "sched h s = do {
     (me, s) \<leftarrow> myproc h s;
     p \<leftarrow> me;
     (if \<not> holding h (ProcLock p) s then None
      else if noff (cpus s h) \<noteq> 1 then None
      else if pstate (procs s p) = RUNNING then None
      else if intr_get h s then None
      else Some (intena (cpus s h), s))
   }"

definition sched_resume :: "nat \<Rightarrow> bool \<Rightarrow> 'a kproc_scheme \<Rightarrow> 'a kproc_scheme" where
  "sched_resume h ie s = upd_cpu h (\<lambda>c. c\<lparr>intena := ie\<rparr>) s"

definition sleep :: "nat \<Rightarrow> chan \<Rightarrow> lock_id \<Rightarrow> 'a kproc_scheme \<Rightarrow> (bool \<times> 'a kproc_scheme) option" where
  "sleep h ch lk s = do {
     (me, s) \<leftarrow> myproc h s;
     p \<leftarrow> me;
     s \<leftarrow> acquire h (ProcLock p) s;
     s \<leftarrow> release h lk s;
     let s = upd_proc p (\<lambda>q. q\<lparr>chan := Some ch, pstate := SLEEPING\<rparr>) s;
     sched h s
   }"

definition sleep_resume ::
  "nat \<Rightarrow> nat \<Rightarrow> lock_id \<Rightarrow> bool \<Rightarrow> 'a kproc_scheme \<Rightarrow> 'a kproc_scheme option" where
  "sleep_resume h p lk ie s = do {
     let s = sched_resume h ie s;
     let s = upd_proc p (\<lambda>q. q\<lparr>chan := None\<rparr>) s;
     s \<leftarrow> release h (ProcLock p) s;
     acquire h lk s
   }"

text \<open>The loop body of \<open>wakeup\<close>, for the process \<open>p\<close>, and the loop.\<close>

definition wakeup_body :: "nat \<Rightarrow> chan \<Rightarrow> nat \<Rightarrow> 'a kproc_scheme \<Rightarrow> 'a kproc_scheme option" where
  "wakeup_body h ch p s = do {
     (me, s) \<leftarrow> myproc h s;
     (if me \<noteq> Some p
      then do {
        s \<leftarrow> acquire h (ProcLock p) s;
        let s = (if pstate (procs s p) = SLEEPING \<and> chan (procs s p) = Some ch
                 then upd_proc p (\<lambda>q. q\<lparr>pstate := RUNNABLE\<rparr>) s else s);
        release h (ProcLock p) s
      }
      else Some s)
   }"

definition wakeup :: "nat \<Rightarrow> chan \<Rightarrow> 'a kproc_scheme \<Rightarrow> 'a kproc_scheme option" where
  "wakeup h ch s = for_each (wakeup_body h ch) [0..<NPROC] s"

text \<open>\<open>kill\<close>: the first process with that pid; the result 0 or -1.\<close>

fun kill_loop :: "nat \<Rightarrow> int \<Rightarrow> nat list \<Rightarrow> 'a kproc_scheme \<Rightarrow> (int \<times> 'a kproc_scheme) option" where
  "kill_loop h pd [] s = Some (-1, s)"
| "kill_loop h pd (p # ps) s = do {
     s \<leftarrow> acquire h (ProcLock p) s;
     (if pid (procs s p) = pd
      then do {
        let s = upd_proc p (\<lambda>q. q\<lparr>killed := True\<rparr>) s;
        let s = (if pstate (procs s p) = SLEEPING
                 then upd_proc p (\<lambda>q. q\<lparr>pstate := RUNNABLE\<rparr>) s else s);
        s \<leftarrow> release h (ProcLock p) s;
        Some (0, s)
      }
      else do {
        s \<leftarrow> release h (ProcLock p) s;
        kill_loop h pd ps s
      })
   }"

definition kill :: "nat \<Rightarrow> int \<Rightarrow> 'a kproc_scheme \<Rightarrow> (int \<times> 'a kproc_scheme) option" where
  "kill h pd s = kill_loop h pd [0..<NPROC] s"

text \<open>
  One iteration of the scheduler's inner loop, in two parts: up to the switch to process \<open>p\<close>
  (the result says whether it switches), and after the process has switched back.
\<close>

definition scheduler_pick :: "nat \<Rightarrow> nat \<Rightarrow> 'a kproc_scheme \<Rightarrow> (bool \<times> 'a kproc_scheme) option" where
  "scheduler_pick h p s = do {
     s \<leftarrow> acquire h (ProcLock p) s;
     (if pstate (procs s p) = RUNNABLE
      then Some (True, upd_cpu h (\<lambda>c. c\<lparr>cproc := Some p\<rparr>) (upd_proc p (\<lambda>q. q\<lparr>pstate := RUNNING\<rparr>) s))
      else do {
        s \<leftarrow> release h (ProcLock p) s;
        Some (False, s)
      })
   }"

definition scheduler_back :: "nat \<Rightarrow> nat \<Rightarrow> 'a kproc_scheme \<Rightarrow> 'a kproc_scheme option" where
  "scheduler_back h p s = do {
     let s = upd_cpu h (\<lambda>c. c\<lparr>cproc := None\<rparr>) s;
     release h (ProcLock p) s
   }"

definition yield :: "nat \<Rightarrow> 'a kproc_scheme \<Rightarrow> (bool \<times> 'a kproc_scheme) option" where
  "yield h s = do {
     (me, s) \<leftarrow> myproc h s;
     p \<leftarrow> me;
     s \<leftarrow> acquire h (ProcLock p) s;
     let s = upd_proc p (\<lambda>q. q\<lparr>pstate := RUNNABLE\<rparr>) s;
     sched h s
   }"

definition yield_resume :: "nat \<Rightarrow> nat \<Rightarrow> bool \<Rightarrow> 'a kproc_scheme \<Rightarrow> 'a kproc_scheme option" where
  "yield_resume h p ie s = release h (ProcLock p) (sched_resume h ie s)"

section \<open>The current process and wakeup\<close>

lemma upd_proc_simps [simp]:
  "cpus (upd_proc p f s) = cpus s" "locks (upd_proc p f s) = locks s"
  "procs (upd_proc p f s) = (procs s)(p := f (procs s p))"
  "nextpid (upd_proc p f s) = nextpid s" "initproc (upd_proc p f s) = initproc s"
  "ticks (upd_proc p f s) = ticks s"
  by (simp_all add: upd_proc_def)

lemma kproc_frame [simp]:
  "procs (upd_cpu h g s) = procs s" "nextpid (upd_cpu h g s) = nextpid s"
  "initproc (upd_cpu h g s) = initproc s" "ticks (upd_cpu h g s) = ticks s"
  "procs (upd_lock l k s) = procs s" "nextpid (upd_lock l k s) = nextpid s"
  "initproc (upd_lock l k s) = initproc s" "ticks (upd_lock l k s) = ticks s"
  "procs (taken h l s) = procs s" "nextpid (taken h l s) = nextpid s"
  "initproc (taken h l s) = initproc s" "ticks (taken h l s) = ticks s"
  "(upd_cpu h g s)\<lparr>procs := procs s\<rparr> = upd_cpu h g s"
  by (simp_all add: upd_cpu_def upd_lock_def taken_def)

abbreviation hart_ok :: "nat \<Rightarrow> 'a mach_scheme \<Rightarrow> bool" where
  "hart_ok h s \<equiv> cpu_ok (cpus s h)"

abbreviation settle :: "nat \<Rightarrow> 'a mach_scheme \<Rightarrow> 'a mach_scheme" where
  "settle h s \<equiv> upd_cpu h settled s"

lemma myproc_eq:
  "hart_ok h s \<Longrightarrow> myproc h s = Some (cproc (cpus s h), settle h s)"
  by (simp add: myproc_def pop_push_off) (simp add: push_off_eq)

text \<open>A critical section on a free lock, for any body that leaves locks and CPU records alone.\<close>

lemma critical_release:
  assumes "lock_free l s" "hart_ok h s"
    and "cpus t = cpus (taken h l s)" "locks t = locks (taken h l s)"
  shows "release h l t = Some (t\<lparr>cpus := (cpus s)(h := settled (cpus s h)), locks := locks s\<rparr>)"
  using assms by (auto simp: release_eq holding_def taken_def popped_pushed cpu_ok_def)


text \<open>What \<open>wakeup\<close> should do to one process of the table.\<close>

definition woken :: "chan \<Rightarrow> proc \<Rightarrow> proc" where
  "woken ch q = (if pstate q = SLEEPING \<and> chan q = Some ch then q\<lparr>pstate := RUNNABLE\<rparr> else q)"

definition woken_procs :: "chan \<Rightarrow> nat option \<Rightarrow> nat set \<Rightarrow> (nat \<Rightarrow> proc) \<Rightarrow> nat \<Rightarrow> proc" where
  "woken_procs ch me P ps = (\<lambda>p. if p \<in> P \<and> Some p \<noteq> me then woken ch (ps p) else ps p)"

definition proc_locks_free :: "nat option \<Rightarrow> 'a mach_scheme \<Rightarrow> bool" where
  "proc_locks_free me s \<longleftrightarrow> (\<forall>p<NPROC. Some p \<noteq> me \<longrightarrow> lock_free (ProcLock p) s)"

lemma lock_free_cong: "locks t = locks s \<Longrightarrow> lock_free l t = lock_free l s"
  by (simp add: lock_free_def)

lemma proc_locks_free_cong: "locks t = locks s \<Longrightarrow> proc_locks_free me t = proc_locks_free me s"
  by (simp add: proc_locks_free_def lock_free_def)

lemma wakeup_body_eq:
  assumes "hart_ok h s" "me = cproc (cpus s h)" "Some p \<noteq> me \<Longrightarrow> lock_free (ProcLock p) s"
  shows "wakeup_body h ch p s = Some ((settle h s)\<lparr>procs := woken_procs ch me {p} (procs s)\<rparr>)"
proof (cases "me = Some p")
  case True
  then show ?thesis using assms by (simp add: wakeup_body_def myproc_eq woken_procs_def if_distrib cong: if_cong)
next
  case False
  let ?s = "settle h s"
  have free: "lock_free (ProcLock p) ?s" using assms False by (simp add: lock_free_def)
  have ok: "hart_ok h ?s" using assms by simp
  have "release h (ProcLock p) (t (taken h (ProcLock p) ?s)) =
      Some ((t (taken h (ProcLock p) ?s))\<lparr>cpus := cpus ?s, locks := locks s\<rparr>)"
    if "cpus (t (taken h (ProcLock p) ?s)) = cpus (taken h (ProcLock p) ?s)"
      "locks (t (taken h (ProcLock p) ?s)) = locks (taken h (ProcLock p) ?s)" for t
    using critical_release [OF free ok that] by simp
  note rel = this [of "\<lambda>s. if b then upd_proc p f s else s" for b f]
  show ?thesis
    using assms False free rel
    by (simp add: wakeup_body_def myproc_eq acquire_free)
      (auto simp: taken_def upd_lock_def upd_cpu_def upd_proc_def woken_procs_def woken_def fun_eq_iff)
qed


lemma wakeup_eq:
  assumes ok: "hart_ok h s" and free: "proc_locks_free (cproc (cpus s h)) s"
  shows "wakeup h ch s =
    Some ((settle h s)\<lparr>procs := woken_procs ch (cproc (cpus s h)) {..<NPROC} (procs s)\<rparr>)"
proof -
  let ?me = "cproc (cpus s h)"
  define g where "g xs t = (if xs = [] then t
      else (settle h t)\<lparr>procs := woken_procs ch ?me (set xs) (procs t)\<rparr>)" for xs :: "nat list" and t :: "'a kproc_scheme"
  let ?I = "\<lambda>t. hart_ok h t \<and> cproc (cpus t h) = ?me \<and> locks t = locks s"
  have "wakeup h ch s = Some (g [0..<NPROC] s) \<and> ?I (g [0..<NPROC] s)"
    unfolding wakeup_def
  proof (rule for_each_run [where I = ?I], goal_cases)
    case (3 xs x ys)
    then have "x \<in> set [0..<NPROC]" by (metis in_set_conv_decomp)
    then have "Some x \<noteq> ?me \<Longrightarrow> lock_free (ProcLock x) (g xs s)"
      using free 3(2) lock_free_cong [of "g xs s" s] by (simp add: proc_locks_free_def)
    then have one: "wakeup_body h ch x (g xs s) =
        Some ((settle h (g xs s))\<lparr>procs := woken_procs ch ?me {x} (procs (g xs s))\<rparr>)"
      using 3(2) by (intro wakeup_body_eq) auto
    have eq: "(settle h (g xs s))\<lparr>procs := woken_procs ch ?me {x} (procs (g xs s))\<rparr> = g (xs @ [x]) s"
      by (auto simp: g_def woken_procs_def woken_def upd_cpu_def fun_eq_iff)
    then show ?case
      using one 3(2) ok by (simp add: eq) (simp add: g_def)
  qed (use ok in \<open>auto simp: g_def\<close>)
  moreover have "set [0..<NPROC] = {..<NPROC}" "[0..<NPROC] \<noteq> []"
    by (auto simp: NPROC_def)
  ultimately show ?thesis by (simp add: g_def)
qed


section \<open>Sleeping and waking\<close>

lemma acquire_locked_None: "locked (locks s l) \<noteq> 0 \<Longrightarrow> acquire h l s = None"
  by (simp add: acquire_def push_off_eq Let_def)

lemma myproc_Some:
  "myproc h s = Some (me, t) \<Longrightarrow> me = cproc (cpus s h) \<and> locks t = locks s \<and> cproc (cpus t h) = me"
  by (auto simp: myproc_def push_off_eq pop_off_eq split: if_splits)

lemma release_Some:
  "release h l s = Some t \<Longrightarrow> cproc (cpus t h) = cproc (cpus s h) \<and> (\<forall>k. k \<noteq> l \<longrightarrow> locks t k = locks s k)"
  by (auto simp: release_eq split: if_splits)

lemma wakeup_body_frame:
  assumes "wakeup_body h ch q s = Some t" "q \<noteq> p"
  shows "cproc (cpus t h) = cproc (cpus s h) \<and> locks t (ProcLock p) = locks s (ProcLock p)"
  using assms
  by (auto simp: wakeup_body_def taken_def Let_def
      dest!: myproc_Some acquire_Some release_Some split: if_splits)

text \<open>A \<open>wakeup\<close> cannot complete while another hart holds the lock of a process.\<close>

lemma wakeup_blocks:
  assumes "p < NPROC" "locked (locks s (ProcLock p)) \<noteq> 0" "cproc (cpus s h) \<noteq> Some p"
  shows "wakeup h ch s = None"
proof -
  have "for_each (wakeup_body h ch) is s = None" if "p \<in> set is" for "is"
    using that assms(2,3)
  proof (induction "is" arbitrary: s)
    case (Cons q "is")
    show ?case
    proof (cases "q = p")
      case True
      have "wakeup_body h ch p s = None"
        using Cons.prems
        by (auto simp: wakeup_body_def acquire_locked_None dest!: myproc_Some
            split: Option.bind_splits if_splits)
      with True show ?thesis by simp
    next
      case False
      then show ?thesis
        using Cons wakeup_body_frame [of h ch q s _ p] by (auto split: Option.bind_splits)
    qed
  qed simp
  with assms(1) show ?thesis by (simp add: wakeup_def)
qed

text \<open>
  \<open>sleep\<close>, called with exactly the lock \<open>lk\<close> held: at the switch \<open>lk\<close> is free, the process is
  marked, and its own lock is held in place of \<open>lk\<close>.
\<close>

lemma sleep_eq:
  assumes ok: "hart_ok h s" and me: "cproc (cpus s h) = Some p"
    and free: "lock_free (ProcLock p) s" and held: "holding h lk s" and one: "noff (cpus s h) = 1"
  shows "sleep h ch lk s = Some (intena (cpus s h),
    s\<lparr>locks := (locks s)(lk := (locks s lk)\<lparr>lkcpu := None, locked := 0\<rparr>,
        ProcLock p := (locks s (ProcLock p))\<lparr>locked := 1, lkcpu := Some h\<rparr>),
      procs := (procs s)(p := (procs s p)\<lparr>chan := Some ch, pstate := SLEEPING\<rparr>)\<rparr>)"
proof -
  have ne: "lk \<noteq> ProcLock p" using free held by (auto simp: lock_free_def holding_def)
  have set: "settle h s = s" using ok one by (simp add: upd_cpu_id)
  have sie: "sstatus (cpus s h) AND SSTATUS_SIE = 0" using ok one by (simp add: cpu_ok_def)
  let ?t = "taken h (ProcLock p) s"
  have t: "holding h lk ?t" "cpus ?t h = pushed (cpus s h)"
    using held ne by (auto simp: taken_def holding_def)
  have pp: "popped (pushed (cpus s h)) = cpus s h"
    using ok one by (simp add: popped_pushed)
  let ?u = "s\<lparr>locks := (locks s)(lk := (locks s lk)\<lparr>lkcpu := None, locked := 0\<rparr>,
        ProcLock p := (locks s (ProcLock p))\<lparr>locked := 1, lkcpu := Some h\<rparr>)\<rparr>"
  have rel: "release h lk ?t = Some ?u"
    using t one ne pp
    by (simp add: release_eq taken_def upd_lock_def upd_cpu_def fun_upd_twist)
  let ?v = "upd_proc p (\<lambda>q. q\<lparr>chan := Some ch, pstate := SLEEPING\<rparr>) ?u"
  have "sched h ?v = Some (intena (cpus s h), ?v)"
    using ok one me sie
    by (simp add: sched_def myproc_eq upd_cpu_id) (simp add: holding_def intr_get_def)
  with rel show ?thesis
    using ok me free set by (simp add: sleep_def myproc_eq acquire_free) (simp add: upd_proc_def)
qed


lemma scheduler_back_eq:
  assumes "hart_ok h s" "holding h (ProcLock p) s" "noff (cpus s h) = 1"
  shows "scheduler_back h p s = Some (s\<lparr>
     cpus := (cpus s)(h := popped ((cpus s h)\<lparr>cproc := None\<rparr>)),
     locks := (locks s)(ProcLock p := (locks s (ProcLock p))\<lparr>lkcpu := None, locked := 0\<rparr>)\<rparr>)"
  using assms
  by (simp add: scheduler_back_def release_eq holding_def cpu_ok_def) (simp add: upd_cpu_def)

text \<open>\<open>kill\<close> marks the first process with the pid and wakes it if it sleeps.\<close>

definition killed_proc :: "proc \<Rightarrow> proc" where
  "killed_proc q = q\<lparr>killed := True, pstate := (if pstate q = SLEEPING then RUNNABLE else pstate q)\<rparr>"

lemma proc_critical:
  assumes "lock_free (ProcLock p) s" "hart_ok h s"
  shows "release h (ProcLock p) (taken h (ProcLock p) s) = Some (settle h s)"
  using critical_release [OF assms, of "taken h (ProcLock p) s"] by (simp add: taken_def upd_lock_def upd_cpu_def)

lemma kill_loop_miss:
  assumes "hart_ok h s" "\<forall>p\<in>set ps. lock_free (ProcLock p) s \<and> pid (procs s p) \<noteq> pd" "ps \<noteq> []"
  shows "kill_loop h pd (ps @ qs) s = kill_loop h pd qs (settle h s)"
  using assms
proof (induction ps arbitrary: s)
  case (Cons p ps)
  have step: "kill_loop h pd ((p # ps) @ qs) s = kill_loop h pd (ps @ qs) (settle h s)"
    using Cons.prems by (simp add: acquire_free proc_critical)
  show ?case
  proof (cases "ps = []")
    case False
    have "kill_loop h pd (ps @ qs) (settle h s) = kill_loop h pd qs (settle h (settle h s))"
      using Cons.prems False by (intro Cons.IH) (auto simp: lock_free_def)
    then show ?thesis using step by (simp add: upd_cpu_twice)
  qed (use step in simp)
qed simp

lemma kill_hit:
  assumes ok: "hart_ok h s" and free: "lock_free (ProcLock p) s" and pid: "pid (procs s p) = pd"
  shows "kill_loop h pd (p # ps) s =
    Some (0, (settle h s)\<lparr>procs := (procs s)(p := killed_proc (procs s p))\<rparr>)"
proof -
  let ?t = "taken h (ProcLock p) s"
  let ?u = "\<lambda>s. let s = upd_proc p (\<lambda>q. q\<lparr>killed := True\<rparr>) s
       in (if pstate (procs s p) = SLEEPING then upd_proc p (\<lambda>q. q\<lparr>pstate := RUNNABLE\<rparr>) s else s)"
  have "cpus (?u ?t) = cpus ?t" "locks (?u ?t) = locks ?t" by (simp_all add: Let_def)
  from critical_release [OF free ok this]
  have rel: "release h (ProcLock p) (?u ?t) = Some ((?u ?t)\<lparr>cpus := (cpus s)(h := settled (cpus s h)), locks := locks s\<rparr>)" .
  have "kill_loop h pd (p # ps) s = do { s \<leftarrow> release h (ProcLock p) (?u ?t); Some (0, s) }"
    using free pid by (simp add: acquire_free Let_def)
  then show ?thesis
    unfolding rel
    by (simp add: Let_def killed_proc_def taken_def upd_proc_def upd_lock_def upd_cpu_def)
qed

lemma kill_found:
  assumes ok: "hart_ok h s" and free: "\<forall>q\<le>p. lock_free (ProcLock q) s" and p: "p < NPROC"
    and pid: "pid (procs s p) = pd" "\<forall>q<p. pid (procs s q) \<noteq> pd"
  shows "kill h pd s = Some (0, (settle h s)\<lparr>procs := (procs s)(p := killed_proc (procs s p))\<rparr>)"
proof -
  have split: "[0..<NPROC] = [0..<p] @ p # [Suc p..<NPROC]"
    using p by (metis upt_add_eq_append upt_conv_Cons le_add_diff_inverse less_imp_le_nat zero_le)
  show ?thesis
  proof (cases "p = 0")
    case True
    then show ?thesis
      using kill_hit [OF ok _ pid(1)] free split by (simp add: kill_def)
  next
    case False
    then have "kill h pd s = kill_loop h pd (p # [Suc p..<NPROC]) (settle h s)"
      unfolding kill_def split using assms by (intro kill_loop_miss) auto
    also have "\<dots> = Some (0, (settle h (settle h s))\<lparr>procs := (procs s)(p := killed_proc (procs s p))\<rparr>)"
      using kill_hit [where s = "settle h s" and h = h and p = p and pd = pd and
          ps = "[Suc p..<NPROC]"] ok free pid
      by (simp add: lock_free_def del: kill_loop.simps)
    finally show ?thesis by (simp add: upd_cpu_twice)
  qed
qed

lemma kill_missing:
  assumes "hart_ok h s" "\<forall>p<NPROC. lock_free (ProcLock p) s \<and> pid (procs s p) \<noteq> pd"
  shows "kill h pd s = Some (-1, settle h s)"
  using kill_loop_miss [of s h "[0..<NPROC]" pd "[]"] assms by (simp add: kill_def NPROC_def)


section \<open>Properties\<close>

text \<open>
  A process table for examples: process 0 runs on hart 0, the rest of the table is unused, and
  hart 0 holds the log lock.
\<close>

definition free_lock :: spinlock where
  "free_lock = \<lparr>locked = 0, lkname = [], lkcpu = None\<rparr>"

definition idle_cpu :: cpu where
  "idle_cpu = \<lparr>cproc = None, noff = 0, intena = False, sstatus = 0\<rparr>"

definition unused_proc :: proc where
  "unused_proc = \<lparr>pstate = UNUSED, chan = None, killed = False, xstate = 0, pid = 0, parent = None,
     kstack = 0, sz = 0, pagetable = 0, trapframe = 0,
     pcontext = \<lparr>ctx_ra = 0, ctx_sp = 0, ctx_s = []\<rparr>, ofile = [], cwd = None, pname = []\<rparr>"

definition one_proc :: kproc where
  "one_proc = \<lparr>cpus = (\<lambda>h. idle_cpu)(0 := idle_cpu\<lparr>cproc := Some 0, noff := 1, intena := True\<rparr>),
     locks = (\<lambda>l. free_lock)(LogLock := \<lparr>locked = 1, lkname = ''log'', lkcpu = Some 0\<rparr>),
     procs = (\<lambda>p. unused_proc)(0 := unused_proc\<lparr>pstate := RUNNING, pid := 1\<rparr>),
     nextpid = 2, initproc = Some 0, ticks = 0\<rparr>"

lemmas one_proc_defs = one_proc_def unused_proc_def idle_cpu_def free_lock_def



text \<open>
  \<open>kill\<close> acts on the first process of the table with the given pid and on no other:
  it marks it killed and makes it runnable if it sleeps, and returns 0; with no such process it
  changes nothing and returns -1.
\<close>

theorem kill_spec:
  assumes "hart_ok h s" "proc_locks_free None s"
  shows "\<exists>r t. kill h pd s = Some (r, t) \<and>
     (r = 0 \<and> (\<exists>p<NPROC. pid (procs s p) = pd \<and> (\<forall>q<p. pid (procs s q) \<noteq> pd) \<and>
         procs t = (procs s)(p := killed_proc (procs s p))) \<or>
      r = -1 \<and> (\<forall>p<NPROC. pid (procs s p) \<noteq> pd) \<and> procs t = procs s)"
proof (cases "\<exists>p<NPROC. pid (procs s p) = pd")
  case True
  then obtain p where p: "p < NPROC" "pid (procs s p) = pd"
      "\<And>q. q < p \<Longrightarrow> \<not> (q < NPROC \<and> pid (procs s q) = pd)"
    using exists_least_iff [of "\<lambda>p. p < NPROC \<and> pid (procs s p) = pd"] by blast
  then have least: "\<forall>q<p. pid (procs s q) \<noteq> pd" using less_trans by blast
  have "\<forall>q\<le>p. lock_free (ProcLock q) s" using assms(2) p(1) by (simp add: proc_locks_free_def)
  then have "kill h pd s = Some (0, (settle h s)\<lparr>procs := (procs s)(p := killed_proc (procs s p))\<rparr>)"
    by (rule kill_found [OF assms(1) _ p(1,2) least])
  then show ?thesis using p(1,2) least
    by (intro exI [of _ 0] exI [of _ "(settle h s)\<lparr>procs := (procs s)(p := killed_proc (procs s p))\<rparr>"]
        conjI disjI1 exI [of _ p]) simp_all
next
  case False
  have "kill h pd s = Some (-1, settle h s)"
    using assms False by (intro kill_missing) (simp_all add: proc_locks_free_def)
  then show ?thesis using False
    by (intro exI [of _ "-1"] exI [of _ "settle h s"] conjI disjI2) simp_all
qed

theorem kill_spec_witness:
  "\<exists>r t. kill 1 1 one_proc = Some (r, t) \<and>
     (r = 0 \<and> (\<exists>p<NPROC. pid (procs one_proc p) = 1 \<and> (\<forall>q<p. pid (procs one_proc q) \<noteq> 1) \<and>
         procs t = (procs one_proc)(p := killed_proc (procs one_proc p))) \<or>
      r = -1 \<and> (\<forall>p<NPROC. pid (procs one_proc p) \<noteq> 1) \<and> procs t = procs one_proc)"
  by (rule kill_spec) (auto simp: one_proc_defs cpu_ok_def proc_locks_free_def lock_free_def)

end
