(* ===== verification/Kalloc.thy ===== *)
theory Kalloc
  imports Memory Proc
begin

text \<open>
  The physical page allocator, \<^verbatim>\<open>kernel/kalloc.c\<close>.  The free list is threaded through the
  free pages themselves: the first word of a free page is the address of the next one.  The
  address \<open>kend\<close> of the linker script's symbol \<open>end\<close> is part of the state.
\<close>

section \<open>State and operations\<close>

record kmem = kproc +
  pmem :: mem
  freelist :: uint64
  kend :: uint64

definition kfree :: "nat \<Rightarrow> uint64 \<Rightarrow> 'a kmem_scheme \<Rightarrow> 'a kmem_scheme option" where
  "kfree h pa s =
     (if pa mod PGSIZE \<noteq> 0 \<or> pa < kend s \<or> pa \<ge> PHYSTOP then None
      else do {
        let s = s\<lparr>pmem := memset pa 1 (ucast PGSIZE) (pmem s)\<rparr>;
        s \<leftarrow> acquire h KmemLock s;
        let s = s\<lparr>pmem := store64 pa (freelist s) (pmem s)\<rparr>;
        let s = s\<lparr>freelist := pa\<rparr>;
        release h KmemLock s
      })"

definition kalloc :: "nat \<Rightarrow> 'a kmem_scheme \<Rightarrow> (uint64 \<times> 'a kmem_scheme) option" where
  "kalloc h s = do {
     s \<leftarrow> acquire h KmemLock s;
     let r = freelist s;
     let s = (if r \<noteq> 0 then s\<lparr>freelist := load64 (pmem s) r\<rparr> else s);
     s \<leftarrow> release h KmemLock s;
     let s = (if r \<noteq> 0 then s\<lparr>pmem := memset r 5 (ucast PGSIZE) (pmem s)\<rparr> else s);
     Some (r, s)
   }"

text \<open>The loop of \<open>freerange\<close>, from the address \<open>p\<close>.\<close>

partial_function (option) freerange_loop ::
  "nat \<Rightarrow> uint64 \<Rightarrow> uint64 \<Rightarrow> 'a kmem_scheme \<Rightarrow> 'a kmem_scheme option" where
  "freerange_loop h p pa_end s =
     (if p + PGSIZE \<le> pa_end
      then Option.bind (kfree h p s) (\<lambda>s. freerange_loop h (p + PGSIZE) pa_end s)
      else Some s)"

definition freerange :: "nat \<Rightarrow> uint64 \<Rightarrow> uint64 \<Rightarrow> 'a kmem_scheme \<Rightarrow> 'a kmem_scheme option" where
  "freerange h pa_start pa_end s = freerange_loop h (PGROUNDUP pa_start) pa_end s"

definition kinit :: "nat \<Rightarrow> 'a kmem_scheme \<Rightarrow> 'a kmem_scheme option" where
  "kinit h s = freerange h (kend s) PHYSTOP (initlock KmemLock ''kmem'' s)"

section \<open>The free list\<close>

lemma kmem_frame [simp]:
  "pmem (upd_cpu h g s) = pmem s" "freelist (upd_cpu h g s) = freelist s"
  "kend (upd_cpu h g s) = kend s"
  "pmem (upd_lock l k s) = pmem s" "freelist (upd_lock l k s) = freelist s"
  "kend (upd_lock l k s) = kend s"
  "pmem (taken h l s) = pmem s" "freelist (taken h l s) = freelist s" "kend (taken h l s) = kend s"
  "pmem (upd_proc p f s) = pmem s" "freelist (upd_proc p f s) = freelist s"
  "kend (upd_proc p f s) = kend s"
  by (simp_all add: upd_cpu_def upd_lock_def taken_def upd_proc_def)

text \<open>The pages that the allocator manages.\<close>

definition heap_page :: "uint64 \<Rightarrow> 'a kmem_scheme \<Rightarrow> bool" where
  "heap_page p s \<longleftrightarrow> page_aligned p \<and> kend s \<le> p \<and> p < PHYSTOP"

fun run_list :: "mem \<Rightarrow> uint64 \<Rightarrow> uint64 list \<Rightarrow> bool" where
  "run_list m p [] \<longleftrightarrow> p = 0"
| "run_list m p (q # qs) \<longleftrightarrow> p = q \<and> q \<noteq> 0 \<and> run_list m (load64 m q) qs"

definition free_pages :: "uint64 list \<Rightarrow> 'a kmem_scheme \<Rightarrow> bool" where
  "free_pages ps s \<longleftrightarrow>
     run_list (pmem s) (freelist s) ps \<and> distinct ps \<and> (\<forall>p\<in>set ps. heap_page p s)"

lemma heap_page_cong: "kend t = kend s \<Longrightarrow> heap_page p t = heap_page p s"
  by (simp add: heap_page_def)

lemma run_list_cong:
  "(\<And>q. q \<in> set qs \<Longrightarrow> load64 m q = load64 m' q) \<Longrightarrow> run_list m p qs = run_list m' p qs"
  by (induction qs arbitrary: p) auto

text \<open>The free list does not notice stores outside the free pages.\<close>

lemma load64_in_page:
  assumes "page_aligned q" "\<And>a. in_page q a \<Longrightarrow> m a = m' a"
  shows "load64 m q = load64 m' q"
proof (rule load64_cong)
  fix i :: nat assume "i < 8"
  then show "m (q + of_nat i) = m' (q + of_nat i)"
    using assms in_page_offset [of q i] by auto
qed

lemma free_pages_frame:
  assumes "free_pages ps s" "freelist t = freelist s" "kend t = kend s"
    and "\<And>p a. p \<in> set ps \<Longrightarrow> in_page p a \<Longrightarrow> pmem t a = pmem s a"
  shows "free_pages ps t"
proof -
  have "run_list (pmem t) (freelist s) ps = run_list (pmem s) (freelist s) ps"
  proof (rule run_list_cong)
    fix q assume q: "q \<in> set ps"
    then have "page_aligned q" using assms(1) by (auto simp: free_pages_def heap_page_def)
    then show "load64 (pmem t) q = load64 (pmem s) q"
      using assms(4) q by (intro load64_in_page) auto
  qed
  then show ?thesis using assms by (auto simp: free_pages_def heap_page_def)
qed

lemma memset_page:
  "memset p c (ucast PGSIZE) m a = (if in_page p a then ucast c else m a)"
proof -
  have "unat (ucast PGSIZE :: uint) = 4096" by (simp add: PGSIZE_def)
  then show ?thesis by (simp add: memset_apply in_page_def)
qed

lemma store64_page:
  assumes "page_aligned p" "page_aligned q" "p \<noteq> q" "in_page q a"
  shows "store64 p v m a = m a"
proof (rule store64_other)
  have "\<not> in_page p a" using assms in_page_unique by blast
  then show "8 \<le> unat (a - p)" by (simp add: in_page_def)
qed

section \<open>kfree and kalloc\<close>

lemma kfree_eq:
  assumes "heap_page pa s" "lock_free KmemLock s" "hart_ok h s"
  shows "kfree h pa s = Some ((settle h s)\<lparr>
     pmem := store64 pa (freelist s) (memset pa 1 (ucast PGSIZE) (pmem s)), freelist := pa\<rparr>)"
proof -
  have "pa mod PGSIZE = 0" "\<not> pa < kend s" "\<not> pa \<ge> PHYSTOP"
    using assms(1) by (auto simp: heap_page_def)
  then show ?thesis
    using assms(2,3)
    by (simp add: kfree_def lock_free_def critical_section cpu_ok_def)
qed

lemma kfree_panics: "\<not> heap_page pa s \<Longrightarrow> kfree h pa s = None"
  by (auto simp: kfree_def heap_page_def not_less)

lemma kmem_order:
  "s\<lparr>freelist := f, cpus := c\<rparr> = s\<lparr>cpus := c, freelist := f\<rparr>"
  "s\<lparr>freelist := f, locks := l\<rparr> = s\<lparr>locks := l, freelist := f\<rparr>"
  "s\<lparr>pmem := m, cpus := c\<rparr> = s\<lparr>cpus := c, pmem := m\<rparr>"
  "s\<lparr>pmem := m, locks := l\<rparr> = s\<lparr>locks := l, pmem := m\<rparr>"
  "s\<lparr>freelist := f, pmem := m\<rparr> = s\<lparr>pmem := m, freelist := f\<rparr>"
  by simp_all

lemma kalloc_eq:
  assumes "lock_free KmemLock s" "hart_ok h s"
  shows "kalloc h s = Some (freelist s,
     if freelist s = 0 then settle h s
     else (settle h s)\<lparr>pmem := memset (freelist s) 5 (ucast PGSIZE) (pmem s),
            freelist := load64 (pmem s) (freelist s)\<rparr>)"
  using assms
  by (simp add: kalloc_def critical_section cpu_ok_def lock_free_def Let_def kmem_order)

text \<open>A freed page goes to the front of the list.\<close>

lemma kfree_free_pages:
  assumes "free_pages ps s" "heap_page pa s" "pa \<noteq> 0" "pa \<notin> set ps" "lock_free KmemLock s" "hart_ok h s"
  obtains t where "kfree h pa s = Some t" "free_pages (pa # ps) t" "kend t = kend s"
    "locks t = locks s" "cpus t = (cpus s)(h := settled (cpus s h))" "procs t = procs s"
    "\<And>a. \<not> in_page pa a \<Longrightarrow> pmem t a = pmem s a"
proof
  let ?t = "(settle h s)\<lparr>pmem := store64 pa (freelist s) (memset pa 1 (ucast PGSIZE) (pmem s)), freelist := pa\<rparr>"
  show "kfree h pa s = Some ?t" using assms by (intro kfree_eq)
  have al: "page_aligned pa" using assms by (simp add: heap_page_def)
  have out: "pmem ?t a = pmem s a" if "\<not> in_page pa a" for a
    using that store64_other [of a pa] by (simp add: memset_page in_page_def)
  then show "\<And>a. \<not> in_page pa a \<Longrightarrow> pmem ?t a = pmem s a" .
  have "free_pages ps ((settle h s)\<lparr>pmem := pmem ?t\<rparr>)"
  proof (rule free_pages_frame [OF assms(1)])
    fix p a assume p: "p \<in> set ps" "in_page p a"
    then have "page_aligned p" "p \<noteq> pa" using assms by (auto simp: free_pages_def heap_page_def)
    with p al have "\<not> in_page pa a" using in_page_unique by blast
    then show "pmem ((settle h s)\<lparr>pmem := pmem ?t\<rparr>) a = pmem s a" using out by simp
  qed simp_all
  then show "free_pages (pa # ps) ?t"
    using assms by (simp add: free_pages_def heap_page_def)
qed simp_all

text \<open>\<open>kalloc\<close> takes the page at the front, or returns the null pointer if there is none.\<close>

lemma kalloc_empty:
  assumes "free_pages [] s" "lock_free KmemLock s" "hart_ok h s"
  shows "kalloc h s = Some (0, settle h s)"
  using assms by (simp add: kalloc_eq free_pages_def)

lemma kalloc_free_pages:
  assumes "free_pages (p # ps) s" "lock_free KmemLock s" "hart_ok h s"
  obtains t where "kalloc h s = Some (p, t)" "free_pages ps t" "heap_page p t" "kend t = kend s"
    "locks t = locks s" "cpus t = (cpus s)(h := settled (cpus s h))" "procs t = procs s"
    "\<And>a. pmem t a = (if in_page p a then 5 else pmem s a)" "p \<noteq> 0" "p \<notin> set ps"
proof
  have f: "freelist s = p" "p \<noteq> 0" "run_list (pmem s) (load64 (pmem s) p) ps" "distinct (p # ps)"
    "\<forall>q\<in>set (p # ps). heap_page q s"
    using assms(1) by (auto simp: free_pages_def)
  let ?t = "(settle h s)\<lparr>pmem := memset p 5 (ucast PGSIZE) (pmem s), freelist := load64 (pmem s) p\<rparr>"
  show "kalloc h s = Some (p, ?t)" using assms f by (simp add: kalloc_eq)
  let ?u = "s\<lparr>freelist := load64 (pmem s) p\<rparr>"
  have "free_pages ps ?u" using f by (simp add: free_pages_def heap_page_def)
  then show "free_pages ps ?t"
  proof (rule free_pages_frame)
    fix q a assume q: "q \<in> set ps" "in_page q a"
    then have "q \<noteq> p" "page_aligned q" "page_aligned p" using f by (auto simp: heap_page_def)
    with q have "\<not> in_page p a" using in_page_unique by blast
    then show "pmem ?t a = pmem ?u a" by (simp add: memset_page)
  qed simp_all
  show "heap_page p ?t" using f by (simp add: heap_page_def)
  show "p \<noteq> 0" "p \<notin> set ps" using f by auto
qed (simp_all add: memset_page)

section \<open>Initialisation\<close>

lemma freerange_loop_pages:
  assumes "page_aligned p" "kend s \<le> p" "0 < p" "pa_end \<le> PHYSTOP" "lock_free KmemLock s" "hart_ok h s"
    "free_pages ps s" "\<forall>q\<in>set ps. q < p" "unat p + 4096 * n \<le> unat pa_end" "unat pa_end < unat p + 4096 * Suc n"
  shows "\<exists>t. freerange_loop h p pa_end s = Some t \<and> kend t = kend s \<and> locks t = locks s \<and> hart_ok h t \<and>
    free_pages (map (\<lambda>i. p + of_nat (4096 * i)) (rev [0..<n]) @ ps) t"
  using assms
proof (induction n arbitrary: p s ps)
  case 0
  have "unat (p + PGSIZE) = unat p + 4096"
    using unat_add_small [of p 4096] "0.prems" by (simp add: PGSIZE_def word_le_nat_alt)
  then have "\<not> p + PGSIZE \<le> pa_end" using "0.prems" by (simp add: word_le_nat_alt)
  then show ?case using "0.prems" by (subst freerange_loop.simps) simp
next
  case (Suc n)
  have end_le: "unat pa_end \<le> 0x88000000" using Suc.prems(4) by (simp add: word_le_nat_alt)
  have up: "unat (p + PGSIZE) = unat p + 4096"
    using unat_add_small [of p 4096] end_le Suc.prems(9) by (simp add: PGSIZE_def)
  then have cont: "p + PGSIZE \<le> pa_end" using Suc.prems(9) by (simp add: word_le_nat_alt)
  have "p < PHYSTOP" using Suc.prems(9) end_le by (simp add: word_less_nat_alt)
  then have hp: "heap_page p s" using Suc.prems by (simp add: heap_page_def)
  obtain t where t: "kfree h p s = Some t" "free_pages (p # ps) t" "kend t = kend s" "locks t = locks s"
    "cpus t = (cpus s)(h := settled (cpus s h))"
    using kfree_free_pages [OF Suc.prems(7) hp _ _ Suc.prems(5,6)] Suc.prems(3,8)
    by (metis order_less_irrefl)
  have "\<exists>u. freerange_loop h (p + PGSIZE) pa_end t = Some u \<and> kend u = kend t \<and> locks u = locks t \<and> hart_ok h u \<and>
    free_pages (map (\<lambda>i. p + PGSIZE + of_nat (4096 * i)) (rev [0..<n]) @ (p # ps)) u"
  proof (rule Suc.IH)
    show "page_aligned (p + PGSIZE)" using up Suc.prems(1) by (simp add: page_aligned_def)
    show "kend t \<le> p + PGSIZE" "0 < p + PGSIZE" using up Suc.prems(2,3) t(3) by (auto simp: word_le_nat_alt word_less_nat_alt)
    show "\<forall>q\<in>set (p # ps). q < p + PGSIZE" using up Suc.prems(8) by (auto simp: word_less_nat_alt)
    show "lock_free KmemLock t" using Suc.prems(5) t(4) by (simp add: lock_free_def)
  qed (use Suc.prems t up in auto)
  note more = this
  have eq: "map (\<lambda>i. p + PGSIZE + of_nat (4096 * i)) (rev [0..<n]) @ (p # ps) =
      map (\<lambda>i. p + of_nat (4096 * i)) (rev [0..<Suc n]) @ ps"
  proof -
    have "rev [0..<Suc n] = map Suc (rev [0..<n]) @ [0]"
      by (simp add: upt_conv_Cons map_Suc_upt [symmetric] rev_map del: upt_Suc)
    then show ?thesis by (simp add: PGSIZE_def algebra_simps comp_def del: upt_Suc)
  qed
  show ?case using more cont t unfolding eq by (subst freerange_loop.simps) simp
qed

definition initial_pages :: "uint64 \<Rightarrow> uint64 list" where
  "initial_pages e = map (\<lambda>i. PGROUNDUP e + of_nat (4096 * i))
     (rev [0..<(unat PHYSTOP - unat (PGROUNDUP e)) div 4096])"

lemma kinit_pages:
  assumes "hart_ok h s" "0 < kend s" "kend s \<le> PHYSTOP" "freelist s = 0"
  shows "\<exists>t. kinit h s = Some t \<and> free_pages (initial_pages (kend s)) t \<and> kend t = kend s \<and>
    lock_free KmemLock t \<and> hart_ok h t"
proof -
  let ?s = "initlock KmemLock ''kmem'' s" and ?p = "PGROUNDUP (kend s)"
  note le = PGROUNDUP_PHYSTOP(1) [OF assms(3)] and pe = PGROUNDUP_PHYSTOP(3) [OF assms(3)]
  let ?n = "(unat PHYSTOP - unat ?p) div 4096"
  have "\<exists>t. freerange_loop h ?p PHYSTOP ?s = Some t \<and> kend t = kend ?s \<and> locks t = locks ?s \<and> hart_ok h t \<and>
    free_pages (map (\<lambda>i. ?p + of_nat (4096 * i)) (rev [0..<?n]) @ []) t"
  proof (rule freerange_loop_pages)
    show "kend ?s \<le> ?p" using le by (simp add: initlock_def word_le_nat_alt)
    show "0 < ?p" using le assms(2) by (simp add: word_less_nat_alt)
    show "free_pages [] ?s" using assms(4) by (simp add: free_pages_def initlock_def)
    show "lock_free KmemLock ?s" by (simp add: lock_free_def initlock_def)
    show "hart_ok h ?s" using assms(1) by (simp add: initlock_def)
    show "unat ?p + 4096 * ?n \<le> unat PHYSTOP" "unat PHYSTOP < unat ?p + 4096 * Suc ?n"
      using round_down_bounds [of 4096 "unat PHYSTOP - unat ?p"] pe by simp_all
  qed simp_all
  then show ?thesis
    by (auto simp: kinit_def freerange_def initial_pages_def lock_free_def initlock_def)
qed

lemma set_initial_pages:
  assumes "e \<le> PHYSTOP" "0 < e"
  shows "p \<in> set (initial_pages e) \<longleftrightarrow> page_aligned p \<and> e \<le> p \<and> p < PHYSTOP"
proof -
  let ?p = "PGROUNDUP e"
  note le = PGROUNDUP_PHYSTOP(1,2,4) [OF assms(1)] and pe = PGROUNDUP_PHYSTOP(3) [OF assms(1)]
  define n where "n = (0x88000000 - unat ?p) div 4096"
  obtain l where l: "unat ?p = 4096 * l" using le(3) by (auto elim!: dvdE dest!: mod_0_imp_dvd)
  have "0x88000000 - unat ?p = 4096 * (0x88000 - l)" unfolding l by (simp add: diff_mult_distrib2)
  then have n: "unat ?p + 4096 * n = 0x88000000" using pe l by (simp add: n_def)
  have "p \<in> set (initial_pages e) \<longleftrightarrow> (\<exists>i<n. p = ?p + of_nat (4096 * i))"
    by (auto simp: initial_pages_def n_def)
  also have "\<dots> \<longleftrightarrow> (\<exists>i<n. unat p = unat ?p + 4096 * i)"
  proof -
    have "unat (?p + of_nat (4096 * i)) = unat ?p + 4096 * i" if "i < n" for i
      using that n by (intro unat_add_small) simp
    then show ?thesis by (metis word_unat_eq_iff)
  qed
  also have "\<dots> \<longleftrightarrow> page_aligned p \<and> e \<le> p \<and> p < PHYSTOP"
  proof
    assume "\<exists>i<n. unat p = unat ?p + 4096 * i"
    then show "page_aligned p \<and> e \<le> p \<and> p < PHYSTOP"
      using le n by (auto simp: page_aligned_def word_le_nat_alt word_less_nat_alt)
  next
    assume r: "page_aligned p \<and> e \<le> p \<and> p < PHYSTOP"
    then obtain k l where kl: "unat p = 4096 * k" "unat ?p = 4096 * l"
      using le(3) by (auto simp: page_aligned_def elim!: dvdE dest!: mod_0_imp_dvd)
    have "unat e \<le> unat p" "unat p < 0x88000000" using r by (auto simp: word_le_nat_alt word_less_nat_alt)
    then have "l \<le> k" "k < l + n" using kl le n by simp_all
    then show "\<exists>i<n. unat p = unat ?p + 4096 * i" using kl by (intro exI [of _ "k - l"]) (simp add: diff_mult_distrib2)
  qed
  finally show ?thesis .
qed

section \<open>The contract of the allocator\<close>

text \<open>
  What the rest of the kernel relies on: \<open>inv ps s\<close> says that exactly the pages \<open>ps\<close> are free,
  \<open>content p s\<close> is what a client sees in a page.
\<close>

datatype heap_op = Alloc | Free uint64

text \<open>
  A client makes any calls it likes, but frees only pages that it holds (\<open>held\<close>).
\<close>

fun heap_run :: "('s \<Rightarrow> (uint64 \<times> 's) option) \<Rightarrow> (uint64 \<Rightarrow> 's \<Rightarrow> 's option) \<Rightarrow>
    heap_op list \<Rightarrow> uint64 list \<Rightarrow> 's \<Rightarrow> (uint64 list \<times> 's) option" where
  "heap_run al fr [] held s = Some (held, s)"
| "heap_run al fr (Alloc # ops) held s = do {
     (p, s) \<leftarrow> al s;
     heap_run al fr ops (if p = 0 then held else p # held) s
   }"
| "heap_run al fr (Free p # ops) held s =
     (if p \<in> set held
      then do {
        s \<leftarrow> fr p s;
        heap_run al fr ops (remove1 p held) s
      }
      else heap_run al fr ops held s)"

locale page_allocator =
  fixes inv :: "uint64 list \<Rightarrow> 's \<Rightarrow> bool"
    and managed :: "'s \<Rightarrow> uint64 set"
    and content :: "uint64 \<Rightarrow> 's \<Rightarrow> 'c"
    and al :: "'s \<Rightarrow> (uint64 \<times> 's) option"
    and fr :: "uint64 \<Rightarrow> 's \<Rightarrow> 's option"
  assumes inv_distinct: "inv ps s \<Longrightarrow> distinct ps"
    and inv_managed: "inv ps s \<Longrightarrow> set ps \<subseteq> managed s"
    and managed_nonnull: "0 \<notin> managed s"
    and al_empty: "inv [] s \<Longrightarrow> \<exists>t. al s = Some (0, t) \<and> inv [] t \<and> managed t = managed s \<and>
      (\<forall>q\<in>managed s. content q t = content q s)"
    and al_page: "inv (p # ps) s \<Longrightarrow> \<exists>t. al s = Some (p, t) \<and> inv ps t \<and> managed t = managed s \<and>
      (\<forall>q\<in>managed s. q \<noteq> p \<longrightarrow> content q t = content q s)"
    and fr_page: "inv ps s \<Longrightarrow> p \<in> managed s \<Longrightarrow> p \<notin> set ps \<Longrightarrow>
      \<exists>t. fr p s = Some t \<and> inv (p # ps) t \<and> managed t = managed s \<and>
        (\<forall>q\<in>managed s. q \<noteq> p \<longrightarrow> content q t = content q s)"
begin

lemma run_conserves:
  assumes "inv ps s" "set held \<subseteq> managed s" "distinct (held @ ps)"
  shows "\<exists>held' t ps'. heap_run al fr ops held s = Some (held', t) \<and> inv ps' t \<and>
    distinct (held' @ ps') \<and> set (held' @ ps') = set (held @ ps) \<and> managed t = managed s"
  using assms
proof (induction ops arbitrary: held s ps)
  case Nil
  then show ?case by auto
next
  case (Cons op ops)
  show ?case
  proof (cases op)
    case Alloc
    show ?thesis
    proof (cases ps)
      case Nil
      with Cons.prems al_empty [of s] obtain t where t: "al s = Some (0, t)" "inv [] t" "managed t = managed s"
        by auto
      then show ?thesis using Cons.IH [of "[]" t held] Cons.prems Nil Alloc by simp
    next
      case (Cons p ps')
      with Cons.prems al_page [of p ps' s] obtain t
        where t: "al s = Some (p, t)" "inv ps' t" "managed t = managed s"
        by auto
      have "p \<in> managed s" using inv_managed [OF Cons.prems(1)] Cons by auto
      moreover from this have "p \<noteq> 0" using managed_nonnull by metis
      ultimately show ?thesis
        using Cons.IH [of ps' t "p # held"] Cons.prems t Cons Alloc by simp
    qed
  next
    case (Free p)
    show ?thesis
    proof (cases "p \<in> set held")
      case True
      with Cons.prems fr_page [of ps s p] obtain t
        where t: "fr p s = Some t" "inv (p # ps) t" "managed t = managed s" by auto
      have sub: "set (remove1 p held) \<subseteq> managed t" using Cons.prems t set_remove1_subset by fastforce
      have dis: "distinct (remove1 p held @ p # ps)" using Cons.prems True by (auto simp: distinct_remove1 set_remove1_eq)
      have "set (remove1 p held @ p # ps) = set (held @ ps)" using Cons.prems True by auto
      then show ?thesis using Cons.IH [OF t(2) sub dis] t True Free by simp
    qed (use Cons Free in simp)
  qed
qed

end

definition kmem_inv :: "nat \<Rightarrow> uint64 list \<Rightarrow> 'a kmem_scheme \<Rightarrow> bool" where
  "kmem_inv h ps s \<longleftrightarrow> free_pages ps s \<and> lock_free KmemLock s \<and> hart_ok h s"

definition kmem_managed :: "'a kmem_scheme \<Rightarrow> uint64 set" where
  "kmem_managed s = {p. heap_page p s \<and> p \<noteq> 0}"

definition page_content :: "uint64 \<Rightarrow> 'a kmem_scheme \<Rightarrow> bytes" where
  "page_content p s = map (\<lambda>i. pmem s (p + of_nat i)) [0..<4096]"

lemma page_content_cong:
  assumes "page_aligned p" "\<And>a. in_page p a \<Longrightarrow> pmem t a = pmem s a"
  shows "page_content p t = page_content p s"
  unfolding page_content_def using assms in_page_offset [of p] by (auto intro!: map_cong)

lemma run_list_nonnull: "run_list m p ps \<Longrightarrow> 0 \<notin> set ps"
  by (induction ps arbitrary: p) auto

lemma kmem_inv_settle: "kmem_inv h ps s \<Longrightarrow> kmem_inv h ps (settle h s)"
  by (simp add: kmem_inv_def free_pages_def heap_page_def lock_free_def)

lemma heap_page_aligned: "heap_page p s \<Longrightarrow> page_aligned p"
  by (simp add: heap_page_def)

interpretation kmem: page_allocator "kmem_inv h" kmem_managed page_content "kalloc h" "kfree h"
proof
  fix s :: "'a kmem_scheme" and ps p
  assume inv: "kmem_inv h ps s"
  then show "distinct ps" "set ps \<subseteq> kmem_managed s"
    using run_list_nonnull by (auto simp: kmem_inv_def free_pages_def kmem_managed_def)
  assume p: "p \<in> kmem_managed s" "p \<notin> set ps"
  obtain t where t: "kfree h p s = Some t" "free_pages (p # ps) t" "kend t = kend s"
    "locks t = locks s" "cpus t = (cpus s)(h := settled (cpus s h))"
    "\<And>a. \<not> in_page p a \<Longrightarrow> pmem t a = pmem s a"
    by (rule kfree_free_pages [of ps s p h]) (use inv p in \<open>auto simp: kmem_inv_def kmem_managed_def\<close>)
  have "page_content q t = page_content q s" if "q \<in> kmem_managed s" "q \<noteq> p" for q
    using that p(1) t(6) in_page_unique
    by (intro page_content_cong) (auto simp: kmem_managed_def dest!: heap_page_aligned)
  with t inv show "\<exists>t. kfree h p s = Some t \<and> kmem_inv h (p # ps) t \<and> kmem_managed t = kmem_managed s \<and>
      (\<forall>q\<in>kmem_managed s. q \<noteq> p \<longrightarrow> page_content q t = page_content q s)"
    by (auto simp: kmem_inv_def kmem_managed_def lock_free_def heap_page_def)
next
  fix s :: "'a kmem_scheme"
  show "0 \<notin> kmem_managed s" by (simp add: kmem_managed_def)
  assume inv: "kmem_inv h [] s"
  then have "kalloc h s = Some (0, settle h s)" by (intro kalloc_empty) (auto simp: kmem_inv_def)
  with kmem_inv_settle [OF inv] show "\<exists>t. kalloc h s = Some (0, t) \<and> kmem_inv h [] t \<and>
      kmem_managed t = kmem_managed s \<and> (\<forall>q\<in>kmem_managed s. page_content q t = page_content q s)"
    by (simp add: kmem_managed_def heap_page_def page_content_def)
next
  fix s :: "'a kmem_scheme" and p ps
  assume inv: "kmem_inv h (p # ps) s"
  obtain t where t: "kalloc h s = Some (p, t)" "free_pages ps t" "kend t = kend s"
    "locks t = locks s" "cpus t = (cpus s)(h := settled (cpus s h))" "heap_page p t"
    "\<And>a. pmem t a = (if in_page p a then 5 else pmem s a)"
    by (rule kalloc_free_pages [of p ps s h]) (use inv in \<open>auto simp: kmem_inv_def\<close>)
  have "page_content q t = page_content q s" if "q \<in> kmem_managed s" "q \<noteq> p" for q
  proof (rule page_content_cong)
    show "page_aligned q" using that by (simp add: kmem_managed_def heap_page_def)
    then show "pmem t a = pmem s a" if "in_page q a" for a
      using in_page_unique [of q p a] t(6,7) that \<open>q \<noteq> p\<close> heap_page_aligned by auto
  qed
  with t inv show "\<exists>t. kalloc h s = Some (p, t) \<and> kmem_inv h ps t \<and> kmem_managed t = kmem_managed s \<and>
      (\<forall>q\<in>kmem_managed s. q \<noteq> p \<longrightarrow> page_content q t = page_content q s)"
    by (auto simp: kmem_inv_def kmem_managed_def lock_free_def heap_page_def)
qed

section \<open>Properties\<close>

text \<open>A machine before \<open>kinit\<close>, for examples: the kernel image ends one page below the top of memory.\<close>

definition boot_kmem :: kmem where
  "boot_kmem = \<lparr>cpus = (\<lambda>h. idle_cpu), locks = (\<lambda>l. free_lock), procs = (\<lambda>p. unused_proc), nextpid = 1,
     initproc = None, ticks = 0, pmem = (\<lambda>a. 0), freelist = 0, kend = 0x87FFD010\<rparr>"

lemmas boot_kmem_defs = boot_kmem_def idle_cpu_def free_lock_def unused_proc_def

text \<open>
  C34: \<open>kinit\<close> returns, and afterwards the free list holds every page between the
  end of the kernel and the top of memory, each exactly once.
\<close>

theorem kinit_frees_all:
  assumes "hart_ok h s" "0 < kend s" "kend s \<le> PHYSTOP" "freelist s = 0"
  shows "\<exists>t ps. kinit h s = Some t \<and> run_list (pmem t) (freelist t) ps \<and> distinct ps \<and>
    set ps = {p. page_aligned p \<and> kend s \<le> p \<and> p < PHYSTOP}"
proof -
  obtain t where t: "kinit h s = Some t" "free_pages (initial_pages (kend s)) t"
    using kinit_pages [OF assms] by blast
  moreover have "set (initial_pages (kend s)) = {p. page_aligned p \<and> kend s \<le> p \<and> p < PHYSTOP}"
    using set_initial_pages [OF assms(3,2)] by blast
  ultimately show ?thesis unfolding free_pages_def by blast
qed

theorem kinit_frees_all_witness:
  "\<exists>t ps. kinit 0 boot_kmem = Some t \<and> run_list (pmem t) (freelist t) ps \<and> distinct ps \<and>
    set ps = {p. page_aligned p \<and> kend boot_kmem \<le> p \<and> p < PHYSTOP}"
  by (rule kinit_frees_all) (simp_all add: boot_kmem_defs cpu_ok_def)

text \<open>
  C9: whatever sequence of \<open>kalloc\<close> and \<open>kfree\<close> calls a client makes, freeing
  only pages that it holds, every call returns, no page is held twice or held and free at once,
  and no page is lost.
\<close>

theorem kalloc_never_shares:
  assumes "kmem_inv h ps s"
  shows "\<exists>held t ps'. heap_run (kalloc h) (kfree h) ops [] s = Some (held, t) \<and> kmem_inv h ps' t \<and>
    distinct (held @ ps') \<and> set (held @ ps') = set ps"
  using kmem.run_conserves [OF assms, of "[]" ops] kmem.inv_distinct [OF assms] by auto

theorem kalloc_never_shares_witness:
  "\<exists>s ps. kinit 0 boot_kmem = Some s \<and> kmem_inv 0 ps s \<and>
    (\<exists>held t ps'. heap_run (kalloc 0) (kfree 0) [Alloc, Alloc, Free 0x87FFE000, Alloc] [] s = Some (held, t) \<and>
      kmem_inv 0 ps' t \<and> distinct (held @ ps') \<and> set (held @ ps') = set ps)"
proof -
  obtain s where s: "kinit 0 boot_kmem = Some s" "kmem_inv 0 (initial_pages (kend boot_kmem)) s"
    using kinit_pages [of boot_kmem 0] by (auto simp: boot_kmem_defs cpu_ok_def kmem_inv_def)
  with kalloc_never_shares [OF s(2)] show ?thesis by blast
qed

end
