(* ===== verification/Sleeplock.thy ===== *)
theory Sleeplock
  imports Kalloc
begin

text \<open>
  Sleep locks, \<^verbatim>\<open>kernel/sleeplock.c\<close>.  A process that finds the lock taken goes to
  sleep; a hart running alone is never woken up again, so for it \<open>acquiresleep\<close> of a taken
  lock does not return.  One round of the waiting loop is \<open>acquiresleep_wait\<close>.
\<close>

section \<open>State and operations\<close>

record sleeplock =
  slocked :: uint
  slname :: string
  slpid :: int

record kslk = kmem +
  slocks :: "sleeplock_id \<Rightarrow> sleeplock"

definition upd_slock :: "sleeplock_id \<Rightarrow> (sleeplock \<Rightarrow> sleeplock) \<Rightarrow> 'a kslk_scheme \<Rightarrow> 'a kslk_scheme" where
  "upd_slock l f s = s\<lparr>slocks := (slocks s)(l := f (slocks s l))\<rparr>"

definition initsleeplock :: "sleeplock_id \<Rightarrow> string \<Rightarrow> 'a kslk_scheme \<Rightarrow> 'a kslk_scheme" where
  "initsleeplock l nm s =
     (let s = initlock (SleepLk l) ''sleep lock'' s
      in upd_slock l (\<lambda>k. k\<lparr>slname := nm, slocked := 0, slpid := 0\<rparr>) s)"

text \<open>One round of the loop of \<open>acquiresleep\<close> when the lock is taken, up to the switch.\<close>

definition acquiresleep_wait :: "nat \<Rightarrow> sleeplock_id \<Rightarrow> 'a kslk_scheme \<Rightarrow> (bool \<times> 'a kslk_scheme) option" where
  "acquiresleep_wait h l s = do {
     s \<leftarrow> acquire h (SleepLk l) s;
     (if slocked (slocks s l) \<noteq> 0 then sleep h (ChSleepLock l) (SleepLk l) s else None)
   }"

definition acquiresleep :: "nat \<Rightarrow> sleeplock_id \<Rightarrow> 'a kslk_scheme \<Rightarrow> 'a kslk_scheme option" where
  "acquiresleep h l s = do {
     s \<leftarrow> acquire h (SleepLk l) s;
     (if slocked (slocks s l) \<noteq> 0 then None
      else do {
        let s = upd_slock l (\<lambda>k. k\<lparr>slocked := 1\<rparr>) s;
        (me, s) \<leftarrow> myproc h s;
        p \<leftarrow> me;
        let s = upd_slock l (\<lambda>k. k\<lparr>slpid := pid (procs s p)\<rparr>) s;
        release h (SleepLk l) s
      })
   }"

definition releasesleep :: "nat \<Rightarrow> sleeplock_id \<Rightarrow> 'a kslk_scheme \<Rightarrow> 'a kslk_scheme option" where
  "releasesleep h l s = do {
     s \<leftarrow> acquire h (SleepLk l) s;
     let s = upd_slock l (\<lambda>k. k\<lparr>slocked := 0, slpid := 0\<rparr>) s;
     s \<leftarrow> wakeup h (ChSleepLock l) s;
     release h (SleepLk l) s
   }"

definition holdingsleep :: "nat \<Rightarrow> sleeplock_id \<Rightarrow> 'a kslk_scheme \<Rightarrow> (bool \<times> 'a kslk_scheme) option" where
  "holdingsleep h l s = do {
     s \<leftarrow> acquire h (SleepLk l) s;
     (if slocked (slocks s l) = 0
      then do {
        s \<leftarrow> release h (SleepLk l) s;
        Some (False, s)
      }
      else do {
        (me, s) \<leftarrow> myproc h s;
        p \<leftarrow> me;
        let r = (slpid (slocks s l) = pid (procs s p));
        s \<leftarrow> release h (SleepLk l) s;
        Some (r, s)
      })
   }"

section \<open>A process running alone\<close>

text \<open>
  The state in which file system code runs: in a process, with no spin lock held by anybody.
\<close>

definition quiet :: "nat \<Rightarrow> 'a kproc_scheme \<Rightarrow> bool" where
  "quiet h s \<longleftrightarrow> hart_ok h s \<and> (\<forall>l. lock_free l s) \<and> cproc (cpus s h) \<noteq> None"

definition me_pid :: "nat \<Rightarrow> 'a kproc_scheme \<Rightarrow> int" where
  "me_pid h s = pid (procs s (the (cproc (cpus s h))))"

text \<open>Processes may be woken up, and nothing else happens to them.\<close>

definition wakes :: "(nat \<Rightarrow> proc) \<Rightarrow> (nat \<Rightarrow> proc) \<Rightarrow> bool" where
  "wakes P Q \<longleftrightarrow> (\<forall>p. Q p = P p \<or> pstate (P p) = SLEEPING \<and> Q p = (P p)\<lparr>pstate := RUNNABLE\<rparr>)"

lemma wakes_refl [simp]: "wakes P P"
  by (simp add: wakes_def)

lemma wakes_trans: "wakes P Q \<Longrightarrow> wakes Q R \<Longrightarrow> wakes P R"
  unfolding wakes_def by (metis procstate.distinct(5) proc.select_convs(1) proc.update_convs(1) proc.surjective)

lemma wakes_pid: "wakes P Q \<Longrightarrow> pid (Q p) = pid (P p)"
  unfolding wakes_def by (metis proc.select_convs(5) proc.surjective proc.update_convs(1))

lemma wakes_woken: "wakes P (woken_procs ch me A P)"
  by (simp add: wakes_def woken_procs_def woken_def)

text \<open>
  What a file system operation leaves alone: everything but the fields it is about, up to the
  remembered \<open>intena\<close> of the hart and processes that were woken up.
\<close>

definition quiet_step :: "nat \<Rightarrow> 'a kproc_scheme \<Rightarrow> 'a kproc_scheme \<Rightarrow> bool" where
  "quiet_step h s t \<longleftrightarrow> locks t = locks s \<and> nextpid t = nextpid s \<and> initproc t = initproc s \<and>
     ticks t = ticks s \<and> wakes (procs s) (procs t) \<and>
     (cpus t = cpus s \<or> cpus t = (cpus s)(h := settled (cpus s h)))"

lemma quiet_step_refl [simp]: "quiet_step h s s"
  by (simp add: quiet_step_def)

lemma quiet_step_trans: "quiet_step h s t \<Longrightarrow> quiet_step h t u \<Longrightarrow> quiet_step h s u"
  unfolding quiet_step_def by (auto intro: wakes_trans)

lemma quiet_step_quiet: "quiet_step h s t \<Longrightarrow> quiet h s \<Longrightarrow> quiet h t"
  by (auto simp: quiet_step_def quiet_def lock_free_def)

lemma quiet_step_pid: "quiet_step h s t \<Longrightarrow> me_pid h t = me_pid h s"
  unfolding quiet_step_def me_pid_def by (auto simp: wakes_pid)

lemma quiet_step_settle: "quiet_step h s (settle h s)"
  by (simp add: quiet_step_def)

section \<open>Sleep locks of a process running alone\<close>

lemma kslk_frame [simp]:
  "slocks (upd_cpu h g s) = slocks s" "slocks (upd_lock k f s) = slocks s" "slocks (taken h k s) = slocks s"
  "slocks (upd_proc p v s) = slocks s"
  "cpus (upd_slock l u s) = cpus s" "locks (upd_slock l u s) = locks s" "procs (upd_slock l u s) = procs s"
  "slocks (upd_slock l u s) = (slocks s)(l := u (slocks s l))"
  by (simp_all add: upd_cpu_def upd_lock_def taken_def upd_proc_def upd_slock_def)

lemma kslk_order:
  "s\<lparr>slocks := k, cpus := c\<rparr> = s\<lparr>cpus := c, slocks := k\<rparr>"
  "s\<lparr>slocks := k, locks := l\<rparr> = s\<lparr>locks := l, slocks := k\<rparr>"
  "s\<lparr>slocks := k, procs := p\<rparr> = s\<lparr>procs := p, slocks := k\<rparr>"
  "s\<lparr>procs := p, cpus := c\<rparr> = s\<lparr>cpus := c, procs := p\<rparr>"
  "s\<lparr>procs := p, locks := l\<rparr> = s\<lparr>locks := l, procs := p\<rparr>"
  "s\<lparr>locks := l, cpus := c\<rparr> = s\<lparr>cpus := c, locks := l\<rparr>"
  by simp_all

lemma acquiresleep_eq:
  assumes "quiet h s" "slocked (slocks s l) = 0"
  shows "acquiresleep h l s =
    Some ((settle h s)\<lparr>slocks := (slocks s)(l := (slocks s l)\<lparr>slocked := 1, slpid := me_pid h s\<rparr>)\<rparr>)"
proof -
  obtain p where p: "cproc (cpus s h) = Some p" using assms(1) by (auto simp: quiet_def)
  let ?k = "SleepLk l" and ?t = "taken h (SleepLk l) s"
  let ?u = "?t\<lparr>slocks := (slocks s)(l := (slocks s l)\<lparr>slocked := 1, slpid := me_pid h s\<rparr>)\<rparr>"
  have free: "lock_free ?k s" and ok: "hart_ok h s" using assms(1) by (simp_all add: quiet_def)
  have deep: "cpu_ok (pushed (cpus s h))" "0 < noff (pushed (cpus s h))" using ok by (simp_all add: cpu_ok_def)
  have mp: "myproc h (upd_slock l f ?t) = Some (Some p, upd_slock l f ?t)" for f
    using deep p by (simp add: myproc_eq taken_def upd_cpu_id)
  have "release h ?k ?u = Some (?u\<lparr>cpus := (cpus s)(h := settled (cpus s h)), locks := locks s\<rparr>)"
    by (rule critical_release [OF free ok]) simp_all
  moreover have "acquiresleep h l s = release h ?k ?u"
    using assms(2) free p mp
    by (simp add: acquiresleep_def acquire_free me_pid_def) (simp add: upd_slock_def taken_def)
  ultimately show ?thesis by (simp add: taken_def upd_lock_def upd_cpu_def kslk_order)
qed

lemma holdingsleep_eq:
  assumes "quiet h s"
  shows "holdingsleep h l s = Some (slocked (slocks s l) \<noteq> 0 \<and> slpid (slocks s l) = me_pid h s, settle h s)"
proof -
  obtain p where p: "cproc (cpus s h) = Some p" using assms by (auto simp: quiet_def)
  let ?k = "SleepLk l" and ?t = "taken h (SleepLk l) s"
  have free: "lock_free ?k s" and ok: "hart_ok h s" using assms by (simp_all add: quiet_def)
  have deep: "cpu_ok (pushed (cpus s h))" "0 < noff (pushed (cpus s h))" using ok by (simp_all add: cpu_ok_def)
  have mp: "myproc h ?t = Some (Some p, ?t)"
    using deep p by (simp add: myproc_eq taken_def upd_cpu_id)
  have "release h ?k ?t = Some (?t\<lparr>cpus := (cpus s)(h := settled (cpus s h)), locks := locks s\<rparr>)"
    by (rule critical_release [OF free ok]) simp_all
  then have "release h ?k ?t = Some (settle h s)" by (simp add: taken_def upd_lock_def upd_cpu_def)
  then show ?thesis using free p mp by (simp add: holdingsleep_def acquire_free me_pid_def)
qed

lemma releasesleep_eq:
  assumes "quiet h s"
  obtains Q where "releasesleep h l s =
      Some ((settle h s)\<lparr>procs := Q, slocks := (slocks s)(l := (slocks s l)\<lparr>slocked := 0, slpid := 0\<rparr>)\<rparr>)"
    "wakes (procs s) Q"
proof -
  let ?k = "SleepLk l" and ?t = "taken h (SleepLk l) s"
  let ?u = "upd_slock l (\<lambda>k. k\<lparr>slocked := 0, slpid := 0\<rparr>) ?t"
  let ?Q = "woken_procs (ChSleepLock l) (cproc (cpus s h)) {..<NPROC} (procs s)"
  have free: "lock_free ?k s" and ok: "hart_ok h s" using assms by (simp_all add: quiet_def)
  have deep: "cpu_ok (pushed (cpus s h))" "0 < noff (pushed (cpus s h))" using ok by (simp_all add: cpu_ok_def)
  have all: "lock_free k s" for k using assms by (simp add: quiet_def)
  have "wakeup h (ChSleepLock l) ?u = Some ((settle h ?u)\<lparr>procs := woken_procs (ChSleepLock l) (cproc (cpus ?u h)) {..<NPROC} (procs ?u)\<rparr>)"
    by (rule wakeup_eq) (use deep all in \<open>auto simp: proc_locks_free_def lock_free_def taken_def\<close>)
  moreover have "settle h ?u = ?u" using deep by (simp add: upd_cpu_id taken_def)
  ultimately have wk: "wakeup h (ChSleepLock l) ?u = Some (?u\<lparr>procs := ?Q\<rparr>)" by (simp add: taken_def)
  have "release h ?k (?u\<lparr>procs := ?Q\<rparr>) =
      Some (?u\<lparr>procs := ?Q, cpus := (cpus s)(h := settled (cpus s h)), locks := locks s\<rparr>)"
    by (rule critical_release [OF free ok]) simp_all
  then have "releasesleep h l s =
      Some ((settle h s)\<lparr>procs := ?Q, slocks := (slocks s)(l := (slocks s l)\<lparr>slocked := 0, slpid := 0\<rparr>)\<rparr>)"
    using free wk
    by (simp add: releasesleep_def acquire_free) (simp add: taken_def upd_slock_def upd_lock_def upd_cpu_def kslk_order)
  then show thesis using that wakes_woken by blast
qed

end
