(* ===== verification/Bio.thy ===== *)
theory Bio
  imports Sleeplock
begin

text \<open>
  The buffer cache, \<^verbatim>\<open>kernel/bio.c\<close>.  The buffers and the list head form a doubly linked
  list through their indices: index \<open>NBUF\<close> is \<open>bcache.head\<close>.

  The disk is a map from block numbers to blocks.  \<open>disk_rw\<close> is the disk driver as the cache
  sees it: the driver's own data structures, and that they implement \<open>disk_rw\<close>, are
  the subject of the theory on the virtio driver.  \<open>history\<close> records the block writes that reach the
  disk, in their order, so that the disk after a crash at any moment can be spoken of.
\<close>

section \<open>State and operations\<close>

definition BSIZE :: nat where "BSIZE = 1024"
definition MAXOPBLOCKS :: nat where "MAXOPBLOCKS = 10"
definition NBUF :: nat where "NBUF = MAXOPBLOCKS * 3"

record buf =
  bvalid :: bool
  bdisk :: bool
  bdev :: uint
  blockno :: uint
  refcnt :: uint
  bprev :: nat
  bnext :: nat
  bdata :: bytes

record bio = kslk +
  bufs :: "nat \<Rightarrow> buf"
  disk :: "uint \<Rightarrow> bytes"
  history :: "(uint \<times> bytes) list"

definition upd_buf :: "nat \<Rightarrow> (buf \<Rightarrow> buf) \<Rightarrow> 'a bio_scheme \<Rightarrow> 'a bio_scheme" where
  "upd_buf b f s = s\<lparr>bufs := (bufs s)(b := f (bufs s b))\<rparr>"

text \<open>A completed request of the driver: the block is transferred and the buffer given back.\<close>

definition disk_rw :: "nat \<Rightarrow> bool \<Rightarrow> 'a bio_scheme \<Rightarrow> 'a bio_scheme" where
  "disk_rw b write s =
     (let n = blockno (bufs s b)
      in if write
         then upd_buf b (\<lambda>x. x\<lparr>bdisk := False\<rparr>)
           (s\<lparr>disk := (disk s)(n := bdata (bufs s b)), history := history s @ [(n, bdata (bufs s b))]\<rparr>)
         else upd_buf b (\<lambda>x. x\<lparr>bdata := disk s n, bdisk := False\<rparr>) s)"

text \<open>The loop of \<open>binit\<close>: every buffer is put at the front of the list.\<close>

definition binit_body :: "nat \<Rightarrow> 'a bio_scheme \<Rightarrow> 'a bio_scheme" where
  "binit_body b s =
     (let s = upd_buf b (\<lambda>x. x\<lparr>bnext := bnext (bufs s NBUF)\<rparr>) s;
          s = upd_buf b (\<lambda>x. x\<lparr>bprev := NBUF\<rparr>) s;
          s = initsleeplock (BufLock b) ''buffer'' s;
          s = upd_buf (bnext (bufs s NBUF)) (\<lambda>x. x\<lparr>bprev := b\<rparr>) s
      in upd_buf NBUF (\<lambda>x. x\<lparr>bnext := b\<rparr>) s)"

fun binit_loop :: "nat \<Rightarrow> 'a bio_scheme \<Rightarrow> 'a bio_scheme" where
  "binit_loop 0 s = s"
| "binit_loop (Suc b) s = binit_body b (binit_loop b s)"

definition binit :: "'a bio_scheme \<Rightarrow> 'a bio_scheme" where
  "binit s =
     (let s = initlock BcacheLock ''bcache'' s;
          s = upd_buf NBUF (\<lambda>x. x\<lparr>bprev := NBUF\<rparr>) s;
          s = upd_buf NBUF (\<lambda>x. x\<lparr>bnext := NBUF\<rparr>) s
      in binit_loop NBUF s)"

text \<open>The two loops of \<open>bget\<close>; \<open>Some None\<close> is a loop that came back to the list head.\<close>

partial_function (option) bget_cached :: "(nat \<Rightarrow> buf) \<Rightarrow> uint \<Rightarrow> uint \<Rightarrow> nat \<Rightarrow> nat option option" where
  "bget_cached B dev n b =
     (if b = NBUF then Some None
      else if bdev (B b) = dev \<and> blockno (B b) = n then Some (Some b)
      else bget_cached B dev n (bnext (B b)))"

partial_function (option) bget_unused :: "(nat \<Rightarrow> buf) \<Rightarrow> nat \<Rightarrow> nat option option" where
  "bget_unused B b =
     (if b = NBUF then Some None
      else if refcnt (B b) = 0 then Some (Some b)
      else bget_unused B (bprev (B b)))"

definition bget :: "nat \<Rightarrow> uint \<Rightarrow> uint \<Rightarrow> 'a bio_scheme \<Rightarrow> (nat \<times> 'a bio_scheme) option" where
  "bget h dev n s = do {
     s \<leftarrow> acquire h BcacheLock s;
     hit \<leftarrow> bget_cached (bufs s) dev n (bnext (bufs s NBUF));
     (case hit of
        Some b \<Rightarrow> do {
          let s = upd_buf b (\<lambda>x. x\<lparr>refcnt := refcnt x + 1\<rparr>) s;
          s \<leftarrow> release h BcacheLock s;
          s \<leftarrow> acquiresleep h (BufLock b) s;
          Some (b, s)
        }
      | None \<Rightarrow> do {
          unused \<leftarrow> bget_unused (bufs s) (bprev (bufs s NBUF));
          b \<leftarrow> unused;
          let s = upd_buf b (\<lambda>x. x\<lparr>bdev := dev, blockno := n, bvalid := False, refcnt := 1\<rparr>) s;
          s \<leftarrow> release h BcacheLock s;
          s \<leftarrow> acquiresleep h (BufLock b) s;
          Some (b, s)
        })
   }"

definition bread :: "nat \<Rightarrow> uint \<Rightarrow> uint \<Rightarrow> 'a bio_scheme \<Rightarrow> (nat \<times> 'a bio_scheme) option" where
  "bread h dev n s = do {
     (b, s) \<leftarrow> bget h dev n s;
     (if \<not> bvalid (bufs s b)
      then Some (b, upd_buf b (\<lambda>x. x\<lparr>bvalid := True\<rparr>) (disk_rw b False s))
      else Some (b, s))
   }"

definition bwrite :: "nat \<Rightarrow> nat \<Rightarrow> 'a bio_scheme \<Rightarrow> 'a bio_scheme option" where
  "bwrite h b s = do {
     (held, s) \<leftarrow> holdingsleep h (BufLock b) s;
     (if \<not> held then None else Some (disk_rw b True s))
   }"

text \<open>Moving a buffer to the front of the list, as \<open>brelse\<close> does: take it out, and put it in.\<close>

definition unlink_buf :: "nat \<Rightarrow> (nat \<Rightarrow> buf) \<Rightarrow> (nat \<Rightarrow> buf)" where
  "unlink_buf b B =
     (let B = B(bnext (B b) := (B (bnext (B b)))\<lparr>bprev := bprev (B b)\<rparr>)
      in B(bprev (B b) := (B (bprev (B b)))\<lparr>bnext := bnext (B b)\<rparr>))"

definition insert_front :: "nat \<Rightarrow> (nat \<Rightarrow> buf) \<Rightarrow> (nat \<Rightarrow> buf)" where
  "insert_front b B =
     (let B = B(b := (B b)\<lparr>bnext := bnext (B NBUF)\<rparr>);
          B = B(b := (B b)\<lparr>bprev := NBUF\<rparr>);
          B = B(bnext (B NBUF) := (B (bnext (B NBUF)))\<lparr>bprev := b\<rparr>)
      in B(NBUF := (B NBUF)\<lparr>bnext := b\<rparr>))"

definition brelse :: "nat \<Rightarrow> nat \<Rightarrow> 'a bio_scheme \<Rightarrow> 'a bio_scheme option" where
  "brelse h b s = do {
     (held, s) \<leftarrow> holdingsleep h (BufLock b) s;
     (if \<not> held then None
      else do {
        s \<leftarrow> releasesleep h (BufLock b) s;
        s \<leftarrow> acquire h BcacheLock s;
        let s = upd_buf b (\<lambda>x. x\<lparr>refcnt := refcnt x - 1\<rparr>) s;
        let s = (if refcnt (bufs s b) = 0
          then s\<lparr>bufs := insert_front b (unlink_buf b (bufs s))\<rparr>
          else s);
        release h BcacheLock s
      })
   }"

definition bpin :: "nat \<Rightarrow> nat \<Rightarrow> 'a bio_scheme \<Rightarrow> 'a bio_scheme option" where
  "bpin h b s = do {
     s \<leftarrow> acquire h BcacheLock s;
     let s = upd_buf b (\<lambda>x. x\<lparr>refcnt := refcnt x + 1\<rparr>) s;
     release h BcacheLock s
   }"

definition bunpin :: "nat \<Rightarrow> nat \<Rightarrow> 'a bio_scheme \<Rightarrow> 'a bio_scheme option" where
  "bunpin h b s = do {
     s \<leftarrow> acquire h BcacheLock s;
     let s = upd_buf b (\<lambda>x. x\<lparr>refcnt := refcnt x - 1\<rparr>) s;
     release h BcacheLock s
   }"

section \<open>The LRU list\<close>

text \<open>
  \<open>lru B xs\<close>: from the head on, the \<open>next\<close> links visit the buffers \<open>xs\<close> and come back to the
  head, and the \<open>prev\<close> links visit them backwards.
\<close>

fun links :: "(nat \<Rightarrow> buf) \<Rightarrow> nat \<Rightarrow> nat list \<Rightarrow> nat \<Rightarrow> bool" where
  "links B a [] z \<longleftrightarrow> bnext (B a) = z \<and> bprev (B z) = a"
| "links B a (x # xs) z \<longleftrightarrow> bnext (B a) = x \<and> bprev (B x) = a \<and> links B x xs z"

definition lru :: "(nat \<Rightarrow> buf) \<Rightarrow> nat list \<Rightarrow> bool" where
  "lru B xs \<longleftrightarrow> links B NBUF xs NBUF \<and> distinct xs \<and> set xs = {..<NBUF}"

lemma links_append:
  "links B a (xs @ y # ys) z \<longleftrightarrow> links B a xs y \<and> links B y ys z"
  by (induction xs arbitrary: a) auto

lemma links_next: "links B a xs z \<Longrightarrow> bnext (B a) = (case xs of [] \<Rightarrow> z | x # _ \<Rightarrow> x)"
  by (cases xs) auto

lemma links_prev: "links B a xs z \<Longrightarrow> bprev (B z) = (if xs = [] then a else last xs)"
  by (induction xs arbitrary: a) (auto split: if_splits)

text \<open>Links depend only on the pointer fields.\<close>

lemma links_cong:
  assumes "\<And>x. bnext (B' x) = bnext (B x)" "\<And>x. bprev (B' x) = bprev (B x)"
  shows "links B' a xs z = links B a xs z"
  by (induction xs arbitrary: a) (simp_all add: assms)

lemma lru_cong:
  "(\<And>x. bnext (B' x) = bnext (B x)) \<Longrightarrow> (\<And>x. bprev (B' x) = bprev (B x)) \<Longrightarrow> lru B' xs = lru B xs"
  by (simp add: lru_def links_cong [of B' B])

lemma bget_cached_links:
  assumes "links B a xs NBUF" "NBUF \<notin> set xs"
  shows "bget_cached B dev n (bnext (B a)) = Some (find (\<lambda>b. bdev (B b) = dev \<and> blockno (B b) = n) xs)"
  using assms
proof (induction xs arbitrary: a)
  case Nil
  then show ?case by (subst bget_cached.simps) simp
next
  case (Cons x xs)
  then show ?case by (subst bget_cached.simps) auto
qed

lemma bget_unused_links:
  assumes "links B NBUF xs z" "NBUF \<notin> set xs"
  shows "bget_unused B (bprev (B z)) = Some (find (\<lambda>b. refcnt (B b) = 0) (rev xs))"
  using assms
proof (induction xs arbitrary: z rule: rev_induct)
  case Nil
  then show ?case by (subst bget_unused.simps) simp
next
  case (snoc x xs)
  then have "links B NBUF xs x" "bprev (B z) = x" by (auto simp: links_append)
  with snoc show ?case by (subst bget_unused.simps) auto
qed

lemma links_cong_on:
  assumes "\<And>x. x \<in> insert a (set xs) \<Longrightarrow> bnext (B' x) = bnext (B x)"
    and "\<And>x. x \<in> insert z (set xs) \<Longrightarrow> bprev (B' x) = bprev (B x)"
  shows "links B' a xs z = links B a xs z"
  using assms
proof (induction xs arbitrary: a)
  case (Cons x xs)
  have "links B' x xs z = links B x xs z" by (rule Cons.IH) (use Cons.prems in auto)
  then show ?case using Cons.prems by simp
qed simp

lemma links_mid:
  assumes "links B a (xs @ b # ys) z"
  shows "bprev (B b) = (if xs = [] then a else last xs)" "bnext (B b) = (case ys of [] \<Rightarrow> z | y # _ \<Rightarrow> y)"
  using assms links_prev [of B a xs b] links_next [of B b ys z] by (auto simp: links_append)

lemma links_unlink:
  assumes "links B a (xs @ b # ys) z" "distinct (xs @ b # ys)" "a \<notin> set (xs @ b # ys)" "z \<notin> set (xs @ b # ys)"
    and q: "q = (case ys of [] \<Rightarrow> z | y # _ \<Rightarrow> y)" and p: "p = (if xs = [] then a else last xs)"
    and next': "\<And>x. bnext (B' x) = (if x = p then q else bnext (B x))"
    and prev': "\<And>x. bprev (B' x) = (if x = q then p else bprev (B x))"
  shows "links B' a (xs @ ys) z"
  using assms
proof (induction xs arbitrary: a)
  case Nil
  show ?case
  proof (cases ys)
    case Nil
    with Nil.prems show ?thesis by simp
  next
    case (Cons y ys')
    have "links B' y ys' z = links B y ys' z"
      by (rule links_cong_on) (use Nil.prems Cons in auto)
    with Nil.prems Cons show ?thesis by auto
  qed
next
  case (Cons x xs)
  have "links B' x (xs @ ys) z"
    using Cons.prems by (intro Cons.IH) (auto split: list.splits)
  moreover have "a \<noteq> p" using Cons.prems(3,6) last_in_set [of xs] by auto
  moreover have "x \<noteq> q" using Cons.prems(2,4,5) by (auto split: list.splits)
  ultimately show ?case using Cons.prems(1,7,8) by simp
qed

lemma lru_insert_front:
  assumes "links B NBUF ys NBUF" "b \<notin> insert NBUF (set ys)" "NBUF \<notin> set ys" "distinct ys"
  shows "links (insert_front b B) NBUF (b # ys) NBUF"
proof (cases ys)
  case Nil
  then show ?thesis using assms by (simp add: insert_front_def Let_def)
next
  case (Cons y ys')
  have "links (insert_front b B) y ys' NBUF = links B y ys' NBUF"
    by (rule links_cong_on) (use assms Cons in \<open>auto simp: insert_front_def Let_def\<close>)
  then show ?thesis using assms Cons by (auto simp: insert_front_def Let_def)
qed

lemma lru_to_front:
  assumes "lru B (xs @ b # ys)"
  shows "lru (insert_front b (unlink_buf b B)) (b # xs @ ys)"
proof -
  have l: "links B NBUF (xs @ b # ys) NBUF" "distinct (xs @ b # ys)" "NBUF \<notin> set (xs @ b # ys)"
    using assms by (auto simp: lru_def)
  define p q where "p = bprev (B b)" and "q = bnext (B b)"
  have pq: "p = (if xs = [] then NBUF else last xs)" "q = (case ys of [] \<Rightarrow> NBUF | y # _ \<Rightarrow> y)"
    using links_mid [OF l(1)] by (simp_all add: p_def q_def)
  have ne: "p \<noteq> b" "q \<noteq> b" using l(2,3) last_in_set [of xs] pq by (auto split: list.splits if_splits)
  have "links (unlink_buf b B) NBUF (xs @ ys) NBUF"
    by (rule links_unlink [OF l(1,2,3,3) pq(2,1)]) (use ne in \<open>simp_all add: unlink_buf_def Let_def p_def q_def\<close>)
  then have "links (insert_front b (unlink_buf b B)) NBUF (b # xs @ ys) NBUF"
    by (rule lru_insert_front) (use l in auto)
  then show ?thesis using assms l by (auto simp: lru_def)
qed

section \<open>What a client sees of the cache\<close>

text \<open>The buffer that caches a block, if any.\<close>

definition holds :: "uint \<Rightarrow> (nat \<Rightarrow> buf) \<Rightarrow> uint \<Rightarrow> nat \<Rightarrow> bool" where
  "holds d B n b \<longleftrightarrow> b < NBUF \<and> bdev (B b) = d \<and> blockno (B b) = n"

definition buf_of :: "uint \<Rightarrow> (nat \<Rightarrow> buf) \<Rightarrow> uint \<Rightarrow> nat option" where
  "buf_of d B n = find (\<lambda>b. bdev (B b) = d \<and> blockno (B b) = n) [0..<NBUF]"

text \<open>
  The abstract cache: the contents of every block as the clients see them, the number of references to each
  block, the process that has it locked, and the disk.
\<close>

record cache =
  cview :: "uint \<Rightarrow> bytes"
  crefs :: "uint \<Rightarrow> uint"
  clocks :: "uint \<Rightarrow> int option"
  cdisk :: "uint \<Rightarrow> bytes"
  chist :: "(uint \<times> bytes) list"

definition abs_cache :: "uint \<Rightarrow> 'a bio_scheme \<Rightarrow> cache" where
  "abs_cache d s = \<lparr>
     cview = (\<lambda>n. case buf_of d (bufs s) n of None \<Rightarrow> disk s n
       | Some b \<Rightarrow> if bvalid (bufs s b) then bdata (bufs s b) else disk s n),
     crefs = (\<lambda>n. case buf_of d (bufs s) n of None \<Rightarrow> 0 | Some b \<Rightarrow> refcnt (bufs s b)),
     clocks = (\<lambda>n. case buf_of d (bufs s) n of None \<Rightarrow> None
       | Some b \<Rightarrow> if slocked (slocks s (BufLock b)) = 0 then None else Some (slpid (slocks s (BufLock b)))),
     cdisk = disk s, chist = history s\<rparr>"

text \<open>
  The invariant: every buffer is in the list; at most one buffer caches a block; only blocks of the
  device are referenced; locked buffers are referenced; unreferenced buffers agree with the disk.
\<close>

definition cache_ok :: "uint \<Rightarrow> 'a bio_scheme \<Rightarrow> bool" where
  "cache_ok d s \<longleftrightarrow> (\<exists>xs. lru (bufs s) xs) \<and>
     (\<forall>b<NBUF. \<forall>c<NBUF. bdev (bufs s b) = d \<longrightarrow> bdev (bufs s c) = d \<longrightarrow>
        blockno (bufs s b) = blockno (bufs s c) \<longrightarrow> b = c) \<and>
     (\<forall>b<NBUF. refcnt (bufs s b) \<noteq> 0 \<longrightarrow> bdev (bufs s b) = d) \<and>
     (\<forall>b<NBUF. slocked (slocks s (BufLock b)) \<noteq> 0 \<longrightarrow> refcnt (bufs s b) \<noteq> 0) \<and>
     (\<forall>b<NBUF. bdev (bufs s b) = d \<longrightarrow> bvalid (bufs s b) \<longrightarrow> refcnt (bufs s b) = 0 \<longrightarrow>
        bdata (bufs s b) = disk s (blockno (bufs s b)))"

lemma cache_okD:
  assumes "cache_ok d s"
  shows "\<exists>xs. lru (bufs s) xs"
    "b < NBUF \<Longrightarrow> c < NBUF \<Longrightarrow> bdev (bufs s b) = d \<Longrightarrow> bdev (bufs s c) = d \<Longrightarrow>
        blockno (bufs s b) = blockno (bufs s c) \<Longrightarrow> b = c"
    "b < NBUF \<Longrightarrow> refcnt (bufs s b) \<noteq> 0 \<Longrightarrow> bdev (bufs s b) = d"
    "b < NBUF \<Longrightarrow> slocked (slocks s (BufLock b)) \<noteq> 0 \<Longrightarrow> refcnt (bufs s b) \<noteq> 0"
    "b < NBUF \<Longrightarrow> bdev (bufs s b) = d \<Longrightarrow> bvalid (bufs s b) \<Longrightarrow> refcnt (bufs s b) = 0 \<Longrightarrow>
        bdata (bufs s b) = disk s (blockno (bufs s b))"
  using assms unfolding cache_ok_def by blast+

lemma find_Some_iff_unique:
  assumes "\<And>x y. x \<in> set xs \<Longrightarrow> y \<in> set xs \<Longrightarrow> P x \<Longrightarrow> P y \<Longrightarrow> x = y"
  shows "find P xs = Some x \<longleftrightarrow> x \<in> set xs \<and> P x"
proof
  assume "find P xs = Some x"
  then show "x \<in> set xs \<and> P x" by (auto simp: find_Some_iff)
next
  assume x: "x \<in> set xs \<and> P x"
  then obtain y where "find P xs = Some y" by (cases "find P xs") (auto simp: find_None_iff)
  moreover from this have "y \<in> set xs \<and> P y" by (auto simp: find_Some_iff)
  ultimately show "find P xs = Some x" using assms x by auto
qed

lemma buf_of_Some:
  assumes "cache_ok d s"
  shows "buf_of d (bufs s) n = Some b \<longleftrightarrow> holds d (bufs s) n b"
proof -
  have "find (\<lambda>b. bdev (bufs s b) = d \<and> blockno (bufs s b) = n) [0..<NBUF] = Some b \<longleftrightarrow>
      b \<in> set [0..<NBUF] \<and> bdev (bufs s b) = d \<and> blockno (bufs s b) = n"
    by (rule find_Some_iff_unique) (use cache_okD(2) [OF assms] in auto)
  then show ?thesis by (simp add: buf_of_def holds_def)
qed

lemma buf_of_None: "buf_of d B n = None \<longleftrightarrow> (\<forall>b. \<not> holds d B n b)"
  by (auto simp: buf_of_def holds_def find_None_iff)

lemma abs_cached:
  assumes "cache_ok d s" "holds d (bufs s) n b"
  shows "cview (abs_cache d s) n = (if bvalid (bufs s b) then bdata (bufs s b) else disk s n)"
    "crefs (abs_cache d s) n = refcnt (bufs s b)"
    "clocks (abs_cache d s) n = (if slocked (slocks s (BufLock b)) = 0 then None else Some (slpid (slocks s (BufLock b))))"
proof -
  have "buf_of d (bufs s) n = Some b" using buf_of_Some [OF assms(1)] assms(2) by simp
  then show "cview (abs_cache d s) n = (if bvalid (bufs s b) then bdata (bufs s b) else disk s n)"
    "crefs (abs_cache d s) n = refcnt (bufs s b)"
    "clocks (abs_cache d s) n = (if slocked (slocks s (BufLock b)) = 0 then None else Some (slpid (slocks s (BufLock b))))"
    by (simp_all add: abs_cache_def)
qed

lemma abs_not_cached:
  assumes "\<forall>b. \<not> holds d (bufs s) n b"
  shows "cview (abs_cache d s) n = disk s n" "crefs (abs_cache d s) n = 0" "clocks (abs_cache d s) n = None"
  using assms buf_of_None [of d "bufs s" n] by (simp_all add: abs_cache_def)

lemma abs_disk [simp]: "cdisk (abs_cache d s) = disk s" "chist (abs_cache d s) = history s"
  by (simp_all add: abs_cache_def)

lemma crefs_holds: "cache_ok d s \<Longrightarrow> crefs (abs_cache d s) n \<noteq> 0 \<Longrightarrow> \<exists>b. holds d (bufs s) n b"
  using abs_not_cached(2) by blast

lemma abs_eqI:
  assumes "\<And>n. cview (abs_cache d t) n = V n" "\<And>n. crefs (abs_cache d t) n = R n"
    "\<And>n. clocks (abs_cache d t) n = L n" "disk t = D" "history t = H"
  shows "abs_cache d t = \<lparr>cview = V, crefs = R, clocks = L, cdisk = D, chist = H\<rparr>"
  using assms by (auto simp: fun_eq_iff intro!: cache.equality)

text \<open>The kernel state around the cache stays as it is.\<close>

definition bio_frame :: "'a bio_scheme \<Rightarrow> 'a bio_scheme \<Rightarrow> bool" where
  "bio_frame s t \<longleftrightarrow> (\<exists>c p k b d w. t = s\<lparr>cpus := c, procs := p, slocks := k, bufs := b,
     disk := d, history := w\<rparr>)"

lemma bio_frame_refl [simp]: "bio_frame s s"
  unfolding bio_frame_def
  by (rule exI [of _ "cpus s"], rule exI [of _ "procs s"], rule exI [of _ "slocks s"], rule exI [of _ "bufs s"],
      rule exI [of _ "disk s"], rule exI [of _ "history s"]) simp

lemma bio_frame_trans:
  assumes "bio_frame s t" "bio_frame t u"
  shows "bio_frame s u"
proof -
  from assms(1) obtain c p k b d w where t: "t = s\<lparr>cpus := c, procs := p, slocks := k, bufs := b, disk := d, history := w\<rparr>"
    unfolding bio_frame_def by blast
  from assms(2) obtain c' p' k' b' d' w' where "u = t\<lparr>cpus := c', procs := p', slocks := k', bufs := b', disk := d', history := w'\<rparr>"
    unfolding bio_frame_def by blast
  then have "u = s\<lparr>cpus := c', procs := p', slocks := k', bufs := b', disk := d', history := w'\<rparr>"
    unfolding t by simp
  then show ?thesis unfolding bio_frame_def by blast
qed

lemma bio_frameI [intro]:
  "bio_frame s (s\<lparr>cpus := c, procs := p, slocks := k, bufs := b, disk := d, history := w\<rparr>)"
  unfolding bio_frame_def by blast

section \<open>The operations, for a process running alone\<close>

lemma bio_simps [simp]:
  "bufs (upd_cpu h g s) = bufs s" "bufs (upd_lock l k s) = bufs s" "bufs (taken h l s) = bufs s"
  "disk (upd_cpu h g s) = disk s" "disk (upd_lock l k s) = disk s" "disk (taken h l s) = disk s"
  "history (upd_cpu h g s) = history s" "history (upd_lock l k s) = history s" "history (taken h l s) = history s"
  by (simp_all add: upd_cpu_def upd_lock_def taken_def)

lemma upd_buf_simps [simp]:
  "cpus (upd_buf b f s) = cpus s" "locks (upd_buf b f s) = locks s" "procs (upd_buf b f s) = procs s"
  "slocks (upd_buf b f s) = slocks s" "bufs (upd_buf b f s) = (bufs s)(b := f (bufs s b))"
  "disk (upd_buf b f s) = disk s" "history (upd_buf b f s) = history s"
  by (simp_all add: upd_buf_def)

lemma bio_order:
  "s\<lparr>bufs := b, cpus := c\<rparr> = s\<lparr>cpus := c, bufs := b\<rparr>"
  "s\<lparr>bufs := b, locks := l\<rparr> = s\<lparr>locks := l, bufs := b\<rparr>"
  "s\<lparr>bufs := b, procs := p\<rparr> = s\<lparr>procs := p, bufs := b\<rparr>"
  "s\<lparr>bufs := b, slocks := k\<rparr> = s\<lparr>slocks := k, bufs := b\<rparr>"
  by simp_all

lemma settle_bufs: "settle h (s\<lparr>bufs := B\<rparr>) = (settle h s)\<lparr>bufs := B\<rparr>"
  by (simp add: upd_cpu_def)

lemma settle_settle [simp]: "settle h (settle h s) = settle h s"
  by (simp add: upd_cpu_twice)

lemma quiet_settle [simp]: "quiet h s \<Longrightarrow> quiet h (settle h s)"
  by (auto simp: quiet_def lock_free_def)

lemma quiet_bufs [simp]: "quiet h (s\<lparr>bufs := B\<rparr>) = quiet h s" "quiet h (s\<lparr>slocks := k\<rparr>) = quiet h s"
  "quiet h (s\<lparr>disk := D\<rparr>) = quiet h s" "quiet h (s\<lparr>history := H\<rparr>) = quiet h s"
  by (simp_all add: quiet_def lock_free_def)

lemma me_pid_simps [simp]: "me_pid h (settle h s) = me_pid h s" "me_pid h (s\<lparr>bufs := B\<rparr>) = me_pid h s"
  "me_pid h (s\<lparr>slocks := k\<rparr>) = me_pid h s" "me_pid h (s\<lparr>disk := D\<rparr>) = me_pid h s"
  "me_pid h (s\<lparr>history := H\<rparr>) = me_pid h s"
  by (simp_all add: me_pid_def)

text \<open>The section of \<open>bget\<close>, \<open>brelse\<close>, \<open>bpin\<close> and \<open>bunpin\<close> under \<open>bcache.lock\<close>.\<close>

lemma bcache_section:
  assumes "quiet h s"
  shows "acquire h BcacheLock s = Some (taken h BcacheLock s)"
    "release h BcacheLock ((taken h BcacheLock s)\<lparr>bufs := B\<rparr>) = Some ((settle h s)\<lparr>bufs := B\<rparr>)"
proof -
  have free: "lock_free BcacheLock s" and ok: "hart_ok h s" using assms by (simp_all add: quiet_def)
  show "acquire h BcacheLock s = Some (taken h BcacheLock s)" using free by (rule acquire_free)
  show "release h BcacheLock ((taken h BcacheLock s)\<lparr>bufs := B\<rparr>) = Some ((settle h s)\<lparr>bufs := B\<rparr>)"
    using critical_release [OF free ok, of "(taken h BcacheLock s)\<lparr>bufs := B\<rparr>"]
    by (simp add: taken_def upd_lock_def upd_cpu_def bio_order)
qed

lemma bpin_eq:
  assumes "quiet h s"
  shows "bpin h b s = Some ((settle h s)\<lparr>bufs := (bufs s)(b := (bufs s b)\<lparr>refcnt := refcnt (bufs s b) + 1\<rparr>)\<rparr>)"
  using bcache_section [OF assms] by (simp add: bpin_def upd_buf_def)

lemma bunpin_eq:
  assumes "quiet h s"
  shows "bunpin h b s = Some ((settle h s)\<lparr>bufs := (bufs s)(b := (bufs s b)\<lparr>refcnt := refcnt (bufs s b) - 1\<rparr>)\<rparr>)"
  using bcache_section [OF assms] by (simp add: bunpin_def upd_buf_def)

lemma bwrite_eq:
  assumes "quiet h s" "slocked (slocks s (BufLock b)) \<noteq> 0" "slpid (slocks s (BufLock b)) = me_pid h s"
  shows "bwrite h b s = Some (disk_rw b True (settle h s))"
  using assms by (simp add: bwrite_def holdingsleep_eq)

definition bget_bufs :: "uint \<Rightarrow> uint \<Rightarrow> (nat \<Rightarrow> buf) \<Rightarrow> nat \<Rightarrow> (nat \<Rightarrow> buf)" where
  "bget_bufs d n B b =
     (if bdev (B b) = d \<and> blockno (B b) = n then B(b := (B b)\<lparr>refcnt := refcnt (B b) + 1\<rparr>)
      else B(b := (B b)\<lparr>bdev := d, blockno := n, bvalid := False, refcnt := 1\<rparr>))"

definition locked_slocks :: "nat \<Rightarrow> nat \<Rightarrow> 'a kslk_scheme \<Rightarrow> (sleeplock_id \<Rightarrow> sleeplock)" where
  "locked_slocks h b s = (slocks s)(BufLock b := (slocks s (BufLock b))\<lparr>slocked := 1, slpid := me_pid h s\<rparr>)"

lemma bget_finish:
  assumes "quiet h s" "slocked (slocks s (BufLock b)) = 0"
  shows "do { s \<leftarrow> release h BcacheLock ((taken h BcacheLock s)\<lparr>bufs := B\<rparr>);
              s \<leftarrow> acquiresleep h (BufLock b) s; Some (b, s) } =
    Some (b, (settle h s)\<lparr>slocks := locked_slocks h b s, bufs := B\<rparr>)"
  using assms
  by (simp add: bcache_section acquiresleep_eq settle_bufs locked_slocks_def bio_order)

lemma bget_eq:
  assumes q: "quiet h s" and ok: "cache_ok d s"
    and avail: "(\<exists>b. holds d (bufs s) n b \<and> slocked (slocks s (BufLock b)) = 0) \<or>
      (\<forall>b. \<not> holds d (bufs s) n b) \<and> (\<exists>b<NBUF. refcnt (bufs s b) = 0)"
  shows "\<exists>b<NBUF. (holds d (bufs s) n b \<or> (\<forall>c. \<not> holds d (bufs s) n c) \<and> refcnt (bufs s b) = 0) \<and>
    slocked (slocks s (BufLock b)) = 0 \<and>
    bget h d n s = Some (b, (settle h s)\<lparr>slocks := locked_slocks h b s, bufs := bget_bufs d n (bufs s) b\<rparr>)"
proof -
  obtain xs where xs: "lru (bufs s) xs" using cache_okD(1) [OF ok] by blast
  then have l: "links (bufs s) NBUF xs NBUF" "NBUF \<notin> set xs" "set xs = {..<NBUF}" by (auto simp: lru_def)
  note hit = bget_cached_links [OF l(1,2), of d n] and unused = bget_unused_links [OF l(1,2)]
  from avail show ?thesis
  proof
    assume "\<exists>b. holds d (bufs s) n b \<and> slocked (slocks s (BufLock b)) = 0"
    then obtain b where b: "holds d (bufs s) n b" "slocked (slocks s (BufLock b)) = 0" by blast
    have "find (\<lambda>b. bdev (bufs s b) = d \<and> blockno (bufs s b) = n) xs = Some b \<longleftrightarrow>
        b \<in> set xs \<and> bdev (bufs s b) = d \<and> blockno (bufs s b) = n"
      by (rule find_Some_iff_unique) (use cache_okD(2) [OF ok] l(3) in auto)
    then have "find (\<lambda>b. bdev (bufs s b) = d \<and> blockno (bufs s b) = n) xs = Some b"
      using b l(3) by (auto simp: holds_def)
    then have "bget h d n s = Some (b, (settle h s)\<lparr>slocks := locked_slocks h b s, bufs := bget_bufs d n (bufs s) b\<rparr>)"
      using hit b bget_finish [OF q b(2), of "bget_bufs d n (bufs s) b"]
      by (simp add: bget_def bcache_section [OF q] upd_buf_def bget_bufs_def holds_def)
    then show ?thesis using b by (auto simp: holds_def)
  next
    assume no: "(\<forall>b. \<not> holds d (bufs s) n b) \<and> (\<exists>b<NBUF. refcnt (bufs s b) = 0)"
    then have none: "find (\<lambda>b. bdev (bufs s b) = d \<and> blockno (bufs s b) = n) xs = None"
      using l(3) by (auto simp: find_None_iff holds_def)
    obtain b where fb: "find (\<lambda>b. refcnt (bufs s b) = 0) (rev xs) = Some b"
      using no l(3) by (cases "find (\<lambda>b. refcnt (bufs s b) = 0) (rev xs)") (auto simp: find_None_iff)
    then have b: "b < NBUF" "refcnt (bufs s b) = 0" using l(3) by (auto simp: find_Some_iff) (metis lessThan_iff nth_mem length_rev set_rev)
    then have sl: "slocked (slocks s (BufLock b)) = 0" using cache_okD(4) [OF ok] by blast
    have "bget h d n s = Some (b, (settle h s)\<lparr>slocks := locked_slocks h b s, bufs := bget_bufs d n (bufs s) b\<rparr>)"
    proof -
      have "bget_bufs d n (bufs s) b = (bufs s)(b := (bufs s b)\<lparr>bdev := d, blockno := n, bvalid := False, refcnt := 1\<rparr>)"
        using no b(1) by (auto simp: bget_bufs_def holds_def)
      then show ?thesis
        using hit none unused fb bget_finish [OF q sl, of "bget_bufs d n (bufs s) b"]
        by (simp add: bget_def bcache_section [OF q] upd_buf_def)
    qed
    then show ?thesis using b sl no by blast
  qed
qed

section \<open>The operations on the abstract cache\<close>

definition same_buf :: "buf \<Rightarrow> buf \<Rightarrow> bool" where
  "same_buf x y \<longleftrightarrow> bdev x = bdev y \<and> blockno x = blockno y \<and> bvalid x = bvalid y \<and> refcnt x = refcnt y \<and>
     bdata x = bdata y"

text \<open>
  Every operation changes one buffer \<open>b\<close>, which caches the block \<open>n\<close> afterwards, and its lock.
\<close>

lemma cache_update:
  assumes ok: "cache_ok d s" and b: "b < NBUF" and x: "bdev x = d" "blockno x = n"
    and own: "holds d (bufs s) n b \<or> (\<forall>c. \<not> holds d (bufs s) n c) \<and> refcnt (bufs s b) = 0"
    and lru: "\<exists>xs. lru (bufs t) xs"
    and bufs: "\<And>c. c < NBUF \<Longrightarrow> same_buf (bufs t c) (if c = b then x else bufs s c)"
    and locks: "\<And>c. slocks t (BufLock c) = (if c = b then k else slocks s (BufLock c))"
    and lk: "slocked k \<noteq> 0 \<Longrightarrow> refcnt x \<noteq> 0"
    and coh: "refcnt x = 0 \<Longrightarrow> bvalid x \<Longrightarrow> bdata x = disk t n"
    and disk: "\<And>m. m \<noteq> n \<Longrightarrow> disk t m = disk s m"
  shows "cache_ok d t"
    "abs_cache d t = \<lparr>cview = (cview (abs_cache d s))(n := if bvalid x then bdata x else disk t n),
       crefs = (crefs (abs_cache d s))(n := refcnt x),
       clocks = (clocks (abs_cache d s))(n := if slocked k = 0 then None else Some (slpid k)),
       cdisk = disk t, chist = history t\<rparr>"
    "\<And>m c. holds d (bufs t) m c \<longleftrightarrow> c = b \<and> m = n \<or> c \<noteq> b \<and> holds d (bufs s) m c"
proof -
  have uniq: "c = c'" if "holds d (bufs s) m c" "holds d (bufs s) m c'" for m c c'
    using cache_okD(2) [OF ok, of c c'] that by (simp add: holds_def)
  have only: "c = b" if "holds d (bufs s) n c" for c
    using own uniq that by blast
  have at_b: "same_buf (bufs t b) x" using bufs [OF b] by simp
  have at_c: "same_buf (bufs t c) (bufs s c)" if "c < NBUF" "c \<noteq> b" for c using bufs [OF that(1)] that(2) by simp
  show hold: "holds d (bufs t) m c \<longleftrightarrow> c = b \<and> m = n \<or> c \<noteq> b \<and> holds d (bufs s) m c" for m c
  proof (cases "c = b")
    case True
    then show ?thesis using at_b x b by (auto simp: holds_def same_buf_def)
  next
    case False
    then show ?thesis using at_c [of c] by (auto simp: holds_def same_buf_def)
  qed
  have "b' = c'" if "b' < NBUF" "c' < NBUF" "bdev (bufs t b') = d" "bdev (bufs t c') = d"
    "blockno (bufs t b') = blockno (bufs t c')" for b' c'
  proof -
    have "holds d (bufs t) (blockno (bufs t c')) b'" "holds d (bufs t) (blockno (bufs t c')) c'"
      using that by (auto simp: holds_def)
    then show ?thesis unfolding hold using only uniq by blast
  qed
  moreover have "refcnt (bufs t c) \<noteq> 0 \<Longrightarrow> bdev (bufs t c) = d" if "c < NBUF" for c
    using at_b at_c [OF that] x(1) cache_okD(3) [OF ok that] by (cases "c = b") (simp_all add: same_buf_def)
  moreover have "slocked (slocks t (BufLock c)) \<noteq> 0 \<Longrightarrow> refcnt (bufs t c) \<noteq> 0" if "c < NBUF" for c
    using at_b at_c [OF that] lk cache_okD(4) [OF ok that] locks [of c]
    by (cases "c = b") (simp_all add: same_buf_def)
  moreover have "bdata (bufs t c) = disk t (blockno (bufs t c))"
    if c: "c < NBUF" "bdev (bufs t c) = d" "bvalid (bufs t c)" "refcnt (bufs t c) = 0" for c
  proof (cases "c = b")
    case True
    then show ?thesis using at_b coh x(2) c(3,4) by (simp add: same_buf_def)
  next
    case False
    then have "\<not> holds d (bufs s) n c" using only by blast
    then show ?thesis
      using at_c [OF c(1) False] c cache_okD(5) [OF ok c(1)] disk [of "blockno (bufs s c)"]
      by (simp add: same_buf_def holds_def)
  qed
  ultimately show okt: "cache_ok d t" using lru unfolding cache_ok_def by blast
  have eq: "cview (abs_cache d t) m = ((cview (abs_cache d s))(n := if bvalid x then bdata x else disk t n)) m \<and>
    crefs (abs_cache d t) m = ((crefs (abs_cache d s))(n := refcnt x)) m \<and>
    clocks (abs_cache d t) m = ((clocks (abs_cache d s))(n := if slocked k = 0 then None else Some (slpid k))) m" for m
  proof (cases "m = n")
    case True
    have "holds d (bufs t) n b" using hold by blast
    from abs_cached [OF okt this] show ?thesis
      using True at_b locks [of b] by (simp add: same_buf_def)
  next
    case False
    show ?thesis
    proof (cases "\<exists>c. c \<noteq> b \<and> holds d (bufs s) m c")
      case True
      then obtain c where c: "c \<noteq> b" "holds d (bufs s) m c" by blast
      then have "holds d (bufs t) m c" using hold by blast
      from abs_cached [OF okt this] abs_cached [OF ok c(2)] show ?thesis
        using False c at_c [of c] locks [of c] disk [OF False] by (simp add: same_buf_def holds_def)
    next
      case no: False
      then have none: "\<forall>c. \<not> holds d (bufs t) m c" using hold False by blast
      note t = abs_not_cached [OF none]
      show ?thesis
      proof (cases "holds d (bufs s) m b")
        case True
        then have z: "refcnt (bufs s b) = 0" using own False by (auto simp: holds_def)
        then have "slocked (slocks s (BufLock b)) = 0" using cache_okD(4) [OF ok b] by blast
        then show ?thesis
          using abs_cached [OF ok True] t z False disk [OF False] cache_okD(5) [OF ok b] True
          by (auto simp: holds_def)
      next
        case False
        then have "\<forall>c. \<not> holds d (bufs s) m c" using no by metis
        from abs_not_cached [OF this] show ?thesis using t \<open>m \<noteq> n\<close> disk by simp
      qed
    qed
  qed
  show "abs_cache d t = \<lparr>cview = (cview (abs_cache d s))(n := if bvalid x then bdata x else disk t n),
       crefs = (crefs (abs_cache d s))(n := refcnt x),
       clocks = (clocks (abs_cache d s))(n := if slocked k = 0 then None else Some (slpid k)),
       cdisk = disk t, chist = history t\<rparr>"
    using eq by (intro abs_eqI) blast+
qed

lemma free_buffer:
  assumes ok: "cache_ok d s" and card: "card {n. crefs (abs_cache d s) n \<noteq> 0} < NBUF"
  shows "\<exists>b<NBUF. refcnt (bufs s b) = 0"
proof (rule ccontr)
  assume "\<not> ?thesis"
  then have all: "refcnt (bufs s b) \<noteq> 0" "bdev (bufs s b) = d" if "b < NBUF" for b
    using that cache_okD(3) [OF ok] by auto
  let ?f = "\<lambda>b. blockno (bufs s b)"
  have "inj_on ?f {..<NBUF}" using all(2) cache_okD(2) [OF ok] by (auto simp: inj_on_def)
  moreover have "?f ` {..<NBUF} = {n. crefs (abs_cache d s) n \<noteq> 0}"
  proof
    show "?f ` {..<NBUF} \<subseteq> {n. crefs (abs_cache d s) n \<noteq> 0}"
    proof
      fix n assume "n \<in> ?f ` {..<NBUF}"
      then obtain b where b: "b < NBUF" "n = ?f b" by auto
      then have "holds d (bufs s) n b" using all by (simp add: holds_def)
      from abs_cached(2) [OF ok this] all(1) [OF b(1)] show "n \<in> {n. crefs (abs_cache d s) n \<noteq> 0}" by simp
    qed
    show "{n. crefs (abs_cache d s) n \<noteq> 0} \<subseteq> ?f ` {..<NBUF}"
      using crefs_holds [OF ok] by (auto simp: holds_def)
  qed
  ultimately show False using card card_image [of ?f "{..<NBUF}"] by simp
qed

text \<open>
  The contract of every operation: \<open>cache_step h d s t a\<close> says that \<open>t\<close> represents the abstract cache \<open>a\<close>,
  that nothing but the cache changed, and that referenced blocks stay in their buffers.
\<close>

definition cache_step :: "nat \<Rightarrow> uint \<Rightarrow> 'a bio_scheme \<Rightarrow> 'a bio_scheme \<Rightarrow> cache \<Rightarrow> bool" where
  "cache_step h d s t a \<longleftrightarrow> cache_ok d t \<and> abs_cache d t = a \<and> quiet_step h s t \<and> bio_frame s t \<and>
     (\<forall>m c. crefs (abs_cache d s) m \<noteq> 0 \<longrightarrow> holds d (bufs s) m c \<longrightarrow>
        holds d (bufs t) m c \<and> (bvalid (bufs s c) \<longrightarrow> bvalid (bufs t c)))"

lemma step_frame:
  assumes "t = (settle h s)\<lparr>procs := Q, slocks := k, bufs := B, disk := D, history := H\<rparr>" "wakes (procs s) Q"
  shows "quiet_step h s t" "bio_frame s t"
  using assms by (auto simp: quiet_step_def upd_cpu_def)

lemma bread_abs:
  assumes q: "quiet h s" and ok: "cache_ok d s" and lk: "clocks (abs_cache d s) n = None"
    and ref: "crefs (abs_cache d s) n + 1 \<noteq> 0"
    and free: "crefs (abs_cache d s) n \<noteq> 0 \<or> card {m. crefs (abs_cache d s) m \<noteq> 0} < NBUF"
  obtains b t where "bread h d n s = Some (b, t)" "holds d (bufs t) n b" "bvalid (bufs t b)"
    "bdata (bufs t b) = cview (abs_cache d s) n"
    "cache_step h d s t ((abs_cache d s)\<lparr>crefs := (crefs (abs_cache d s))(n := crefs (abs_cache d s) n + 1),
       clocks := (clocks (abs_cache d s))(n := Some (me_pid h s))\<rparr>)"
proof -
  have avail: "(\<exists>b. holds d (bufs s) n b \<and> slocked (slocks s (BufLock b)) = 0) \<or>
      (\<forall>b. \<not> holds d (bufs s) n b) \<and> (\<exists>b<NBUF. refcnt (bufs s b) = 0)"
  proof (cases "\<exists>b. holds d (bufs s) n b")
    case True
    then obtain b where b: "holds d (bufs s) n b" by blast
    then have "slocked (slocks s (BufLock b)) = 0" using abs_cached(3) [OF ok b] lk by (simp split: if_splits)
    with b show ?thesis by blast
  next
    case False
    then have "crefs (abs_cache d s) n = 0" using abs_not_cached(2) by blast
    then have "\<exists>b<NBUF. refcnt (bufs s b) = 0" using free free_buffer [OF ok] by simp
    with False show ?thesis by blast
  qed
  obtain b where b: "b < NBUF" "holds d (bufs s) n b \<or> (\<forall>c. \<not> holds d (bufs s) n c) \<and> refcnt (bufs s b) = 0"
    "slocked (slocks s (BufLock b)) = 0"
    and get: "bget h d n s = Some (b, (settle h s)\<lparr>slocks := locked_slocks h b s, bufs := bget_bufs d n (bufs s) b\<rparr>)"
    using bget_eq [OF q ok avail] by blast
  define x where "x = bget_bufs d n (bufs s) b b"
  define y where "y = (if bvalid x then x else x\<lparr>bdata := disk s n, bdisk := False, bvalid := True\<rparr>)"
  have gb: "bget_bufs d n (bufs s) b = (bufs s)(b := x)" by (simp add: x_def bget_bufs_def)
  have xs: "bdev x = d" "blockno x = n" "bprev x = bprev (bufs s b)" "bnext x = bnext (bufs s b)"
    by (auto simp: x_def bget_bufs_def)
  have hit: "bdata x = bdata (bufs s b) \<and> bvalid x = bvalid (bufs s b) \<and> refcnt x = refcnt (bufs s b) + 1"
    if "holds d (bufs s) n b" using that by (simp add: x_def bget_bufs_def holds_def)
  have miss: "\<not> bvalid x \<and> refcnt x = 1" if "\<not> holds d (bufs s) n b"
    using that b(1) by (auto simp: x_def bget_bufs_def holds_def)
  have y: "bdev y = d" "blockno y = n" "bprev y = bprev (bufs s b)" "bnext y = bnext (bufs s b)" "bvalid y"
    "refcnt y = refcnt x" "bdata y = (if bvalid x then bdata x else disk s n)"
    using xs by (auto simp: y_def)
  let ?t = "(settle h s)\<lparr>slocks := locked_slocks h b s, bufs := (bufs s)(b := y)\<rparr>"
  have read: "bread h d n s = Some (b, ?t)"
  proof (cases "bvalid x")
    case True
    then show ?thesis by (simp add: bread_def get gb y_def)
  next
    case False
    then show ?thesis using xs by (simp add: bread_def get gb y_def disk_rw_def upd_buf_def)
  qed
  have ry: "refcnt y = crefs (abs_cache d s) n + 1"
  proof (cases "holds d (bufs s) n b")
    case True
    then show ?thesis using abs_cached(2) [OF ok True] hit y(6) by simp
  next
    case False
    then show ?thesis using b(2) abs_not_cached(2) miss y(6) by fastforce
  qed
  have vy: "bdata y = cview (abs_cache d s) n"
  proof (cases "holds d (bufs s) n b")
    case True
    then show ?thesis using abs_cached(1) [OF ok True] hit y(7) by simp
  next
    case False
    then show ?thesis using b(2) abs_not_cached(1) [of d s n] miss y(7) by simp
  qed
  have lru: "\<exists>xs. lru (bufs ?t) xs"
    using cache_okD(1) [OF ok] lru_cong [of "bufs ?t" "bufs s"] y(3,4) by simp
  have up: "cache_ok d ?t"
    "abs_cache d ?t = \<lparr>cview = (cview (abs_cache d s))(n := if bvalid y then bdata y else disk ?t n),
       crefs = (crefs (abs_cache d s))(n := refcnt y),
       clocks = (clocks (abs_cache d s))(n := if slocked (locked_slocks h b s (BufLock b)) = 0 then None
          else Some (slpid (locked_slocks h b s (BufLock b)))),
       cdisk = disk ?t, chist = history ?t\<rparr>"
    "\<And>m c. holds d (bufs ?t) m c \<longleftrightarrow> c = b \<and> m = n \<or> c \<noteq> b \<and> holds d (bufs s) m c"
    by (rule cache_update [OF ok b(1) y(1,2) b(2) lru, of "locked_slocks h b s (BufLock b)"];
        use ref ry in \<open>simp add: same_buf_def locked_slocks_def\<close>)+
  have "abs_cache d ?t = (abs_cache d s)\<lparr>crefs := (crefs (abs_cache d s))(n := crefs (abs_cache d s) n + 1),
       clocks := (clocks (abs_cache d s))(n := Some (me_pid h s))\<rparr>"
    unfolding up(2) using y(5) ry vy by (intro cache.equality) (simp_all add: locked_slocks_def fun_upd_idem)
  moreover have "holds d (bufs ?t) m c" if "crefs (abs_cache d s) m \<noteq> 0" "holds d (bufs s) m c" for m c
  proof (cases "c = b")
    case True
    have "refcnt (bufs s b) \<noteq> 0" using abs_cached(2) [OF ok that(2)] that(1) True by simp
    then have "holds d (bufs s) n b" using b(2) by blast
    then have "m = n" using that(2) True by (simp add: holds_def)
    then show ?thesis using True up(3) by blast
  qed (use that(2) up(3) in blast)
  moreover have "quiet_step h s ?t" "bio_frame s ?t"
    by (rule step_frame [where Q = "procs s" and D = "disk s" and H = "history s"]; simp add: upd_cpu_def)+
  ultimately show thesis
    using that [OF read] up(1,3) y(5) vy by (auto simp: cache_step_def)
qed

text \<open>A buffer that the current process has locked.\<close>

definition mine :: "nat \<Rightarrow> uint \<Rightarrow> 'a bio_scheme \<Rightarrow> uint \<Rightarrow> nat \<Rightarrow> bool" where
  "mine h d s n b \<longleftrightarrow> holds d (bufs s) n b \<and> bvalid (bufs s b) \<and> clocks (abs_cache d s) n = Some (me_pid h s)"

lemma mine_locked:
  assumes "cache_ok d s" "mine h d s n b"
  shows "slocked (slocks s (BufLock b)) \<noteq> 0" "slpid (slocks s (BufLock b)) = me_pid h s"
    "refcnt (bufs s b) \<noteq> 0" "crefs (abs_cache d s) n = refcnt (bufs s b)" "cview (abs_cache d s) n = bdata (bufs s b)"
proof -
  have b: "holds d (bufs s) n b" "bvalid (bufs s b)" "clocks (abs_cache d s) n = Some (me_pid h s)"
    using assms(2) by (simp_all add: mine_def)
  show l: "slocked (slocks s (BufLock b)) \<noteq> 0" "slpid (slocks s (BufLock b)) = me_pid h s"
    using abs_cached(3) [OF assms(1) b(1)] b(3) by (simp_all split: if_splits)
  show "refcnt (bufs s b) \<noteq> 0" using cache_okD(4) [OF assms(1)] b(1) l(1) by (simp add: holds_def)
  show "crefs (abs_cache d s) n = refcnt (bufs s b)" "cview (abs_cache d s) n = bdata (bufs s b)"
    using abs_cached(1,2) [OF assms(1) b(1)] b(2) by simp_all
qed

text \<open>An operation that rewrites one referenced buffer.\<close>

lemma cache_step_upd:
  assumes ok: "cache_ok d s" and b: "holds d (bufs s) n b" and x: "bdev x = d" "blockno x = n"
    and t: "t = (settle h s)\<lparr>procs := Q, slocks := (slocks s)(BufLock b := k), bufs := B, disk := D, history := H\<rparr>"
      "wakes (procs s) Q"
    and lru: "\<exists>xs. lru B xs"
    and bufs: "\<And>c. c < NBUF \<Longrightarrow> same_buf (B c) (if c = b then x else bufs s c)"
    and lk: "slocked k \<noteq> 0 \<Longrightarrow> refcnt x \<noteq> 0"
    and coh: "refcnt x = 0 \<Longrightarrow> bvalid x \<Longrightarrow> bdata x = D n" and valid: "bvalid (bufs s b) \<Longrightarrow> bvalid x"
    and disk: "\<And>m. m \<noteq> n \<Longrightarrow> D m = disk s m"
  shows "cache_step h d s t \<lparr>cview = (cview (abs_cache d s))(n := if bvalid x then bdata x else D n),
       crefs = (crefs (abs_cache d s))(n := refcnt x),
       clocks = (clocks (abs_cache d s))(n := if slocked k = 0 then None else Some (slpid k)),
       cdisk = D, chist = H\<rparr>"
proof -
  have bN: "b < NBUF" using b by (simp add: holds_def)
  have f: "bufs t = B" "disk t = D" "history t = H" "slocks t = (slocks s)(BufLock b := k)" by (simp_all add: t(1))
  have ow: "holds d (bufs s) n b \<or> (\<forall>c. \<not> holds d (bufs s) n c) \<and> refcnt (bufs s b) = 0" using b by blast
  have lru': "\<exists>xs. lru (bufs t) xs" using lru f by simp
  have bufs': "\<And>c. c < NBUF \<Longrightarrow> same_buf (bufs t c) (if c = b then x else bufs s c)" using bufs f by simp
  have locks': "\<And>c. slocks t (BufLock c) = (if c = b then k else slocks s (BufLock c))" using f by simp
  have coh': "refcnt x = 0 \<Longrightarrow> bvalid x \<Longrightarrow> bdata x = disk t n" using coh f by simp
  have disk': "\<And>m. m \<noteq> n \<Longrightarrow> disk t m = disk s m" using disk f by simp
  note up = cache_update [OF ok bN x ow lru' bufs' locks' lk coh' disk', unfolded f]
  have "holds d (bufs t) m c \<and> (bvalid (bufs s c) \<longrightarrow> bvalid (bufs t c))" if "holds d (bufs s) m c" for m c
  proof (cases "c = b")
    case True
    then have "m = n" using b that by (simp add: holds_def)
    then show ?thesis using True up(3) f bufs [OF bN] valid by (simp add: same_buf_def)
  next
    case False
    then show ?thesis using up(3) that f bufs [of c] by (auto simp: same_buf_def holds_def)
  qed
  then show ?thesis using up(1,2) step_frame [OF t] by (simp add: cache_step_def)
qed

lemma lru_upd:
  assumes "\<exists>xs. lru B xs" "bprev x = bprev (B b)" "bnext x = bnext (B b)"
  shows "\<exists>xs. lru (B(b := x)) xs"
  using assms lru_cong [of "B(b := x)" B] by auto

text \<open>\<open>bpin\<close> and \<open>bunpin\<close>.\<close>

lemma slock_state:
  assumes "cache_ok d s" "holds d (bufs s) n b"
  shows "(if slocked (slocks s (BufLock b)) = 0 then None else Some (slpid (slocks s (BufLock b)))) = clocks (abs_cache d s) n"
  using abs_cached(3) [OF assms] by simp

lemma bpin_abs:
  assumes q: "quiet h s" and ok: "cache_ok d s" and b: "holds d (bufs s) n b"
    and ref: "crefs (abs_cache d s) n \<noteq> 0" "crefs (abs_cache d s) n + 1 \<noteq> 0"
  obtains t where "bpin h b s = Some t" "bdata (bufs t b) = bdata (bufs s b)" "bvalid (bufs t b) = bvalid (bufs s b)"
    "cache_step h d s t ((abs_cache d s)\<lparr>crefs := (crefs (abs_cache d s))(n := crefs (abs_cache d s) n + 1)\<rparr>)"
proof -
  let ?x = "(bufs s b)\<lparr>refcnt := refcnt (bufs s b) + 1\<rparr>"
  let ?t = "(settle h s)\<lparr>procs := procs s, slocks := (slocks s)(BufLock b := slocks s (BufLock b)),
     bufs := (bufs s)(b := ?x), disk := disk s, history := history s\<rparr>"
  have eq: "bpin h b s = Some ?t" by (simp add: bpin_eq [OF q] upd_cpu_def)
  have rb: "crefs (abs_cache d s) n = refcnt (bufs s b)" using abs_cached(2) [OF ok b] .
  have "cache_step h d s ?t \<lparr>cview = (cview (abs_cache d s))(n := if bvalid ?x then bdata ?x else disk s n),
       crefs = (crefs (abs_cache d s))(n := refcnt ?x),
       clocks = (clocks (abs_cache d s))(n := if slocked (slocks s (BufLock b)) = 0 then None else Some (slpid (slocks s (BufLock b)))),
       cdisk = disk s, chist = history s\<rparr>"
    by (rule cache_step_upd [OF ok b _ _ refl]) (use b ref rb cache_okD(1) [OF ok] in \<open>auto simp: holds_def same_buf_def intro!: lru_upd\<close>)
  moreover have "\<lparr>cview = (cview (abs_cache d s))(n := if bvalid ?x then bdata ?x else disk s n),
       crefs = (crefs (abs_cache d s))(n := refcnt ?x),
       clocks = (clocks (abs_cache d s))(n := if slocked (slocks s (BufLock b)) = 0 then None else Some (slpid (slocks s (BufLock b)))),
       cdisk = disk s, chist = history s\<rparr> =
     (abs_cache d s)\<lparr>crefs := (crefs (abs_cache d s))(n := crefs (abs_cache d s) n + 1)\<rparr>"
    unfolding slock_state [OF ok b] rb using abs_cached(1) [OF ok b] by (intro cache.equality) (simp_all add: fun_upd_idem)
  ultimately show thesis using that [OF eq] by simp
qed

lemma bunpin_abs:
  assumes q: "quiet h s" and ok: "cache_ok d s" and b: "holds d (bufs s) n b"
    and ref: "1 < crefs (abs_cache d s) n"
  obtains t where "bunpin h b s = Some t" "bdata (bufs t b) = bdata (bufs s b)" "bvalid (bufs t b) = bvalid (bufs s b)"
    "cache_step h d s t ((abs_cache d s)\<lparr>crefs := (crefs (abs_cache d s))(n := crefs (abs_cache d s) n - 1)\<rparr>)"
proof -
  let ?x = "(bufs s b)\<lparr>refcnt := refcnt (bufs s b) - 1\<rparr>"
  let ?t = "(settle h s)\<lparr>procs := procs s, slocks := (slocks s)(BufLock b := slocks s (BufLock b)),
     bufs := (bufs s)(b := ?x), disk := disk s, history := history s\<rparr>"
  have eq: "bunpin h b s = Some ?t" by (simp add: bunpin_eq [OF q] upd_cpu_def)
  have rb: "crefs (abs_cache d s) n = refcnt (bufs s b)" using abs_cached(2) [OF ok b] .
  have nz: "refcnt (bufs s b) - 1 \<noteq> 0" using ref rb by auto
  have "cache_step h d s ?t \<lparr>cview = (cview (abs_cache d s))(n := if bvalid ?x then bdata ?x else disk s n),
       crefs = (crefs (abs_cache d s))(n := refcnt ?x),
       clocks = (clocks (abs_cache d s))(n := if slocked (slocks s (BufLock b)) = 0 then None else Some (slpid (slocks s (BufLock b)))),
       cdisk = disk s, chist = history s\<rparr>"
    by (rule cache_step_upd [OF ok b _ _ refl]) (use b nz cache_okD(1) [OF ok] in \<open>auto simp: holds_def same_buf_def intro!: lru_upd\<close>)
  moreover have "\<lparr>cview = (cview (abs_cache d s))(n := if bvalid ?x then bdata ?x else disk s n),
       crefs = (crefs (abs_cache d s))(n := refcnt ?x),
       clocks = (clocks (abs_cache d s))(n := if slocked (slocks s (BufLock b)) = 0 then None else Some (slpid (slocks s (BufLock b)))),
       cdisk = disk s, chist = history s\<rparr> =
     (abs_cache d s)\<lparr>crefs := (crefs (abs_cache d s))(n := crefs (abs_cache d s) n - 1)\<rparr>"
    unfolding slock_state [OF ok b] rb using abs_cached(1) [OF ok b] by (intro cache.equality) (simp_all add: fun_upd_idem)
  ultimately show thesis using that [OF eq] by simp
qed

text \<open>The owner of a buffer changes its contents, and \<open>bwrite\<close> writes them to the disk.\<close>

lemma mine_abs:
  assumes "cache_ok d s" "mine h d s n b"
  shows "holds d (bufs s) n b" "bvalid (bufs s b)" "bdev (bufs s b) = d" "blockno (bufs s b) = n"
    "clocks (abs_cache d s) n = Some (me_pid h s)"
  using assms(2) by (simp_all add: mine_def holds_def)

lemma set_data_abs:
  assumes ok: "cache_ok d s" and b: "mine h d s n b"
  shows "cache_step h d s (upd_buf b (\<lambda>x. x\<lparr>bdata := v\<rparr>) s) ((abs_cache d s)\<lparr>cview := (cview (abs_cache d s))(n := v)\<rparr>)"
proof -
  let ?x = "(bufs s b)\<lparr>bdata := v\<rparr>" and ?k = "slocks s (BufLock b)"
  let ?t = "upd_buf b (\<lambda>x. x\<lparr>bdata := v\<rparr>) s"
  note m = mine_abs [OF ok b] and l = mine_locked [OF ok b]
  have bN: "b < NBUF" using m(1) by (simp add: holds_def)
  note up = cache_update [OF ok bN, of ?x n ?t ?k]
  have ok': "cache_ok d ?t"
    by (rule up(1)) (use m l cache_okD(1) [OF ok] in \<open>auto simp: same_buf_def intro!: lru_upd\<close>)
  have ab: "abs_cache d ?t = (abs_cache d s)\<lparr>cview := (cview (abs_cache d s))(n := v)\<rparr>"
    by (subst up(2)) (use m l cache_okD(1) [OF ok] in \<open>auto simp: same_buf_def fun_upd_idem intro!: lru_upd\<close>)
  have "quiet_step h s ?t" by (simp add: quiet_step_def upd_buf_def)
  moreover have "bio_frame s ?t"
    unfolding bio_frame_def upd_buf_def
    by (rule exI [of _ "cpus s"], rule exI [of _ "procs s"], rule exI [of _ "slocks s"], rule exI, rule exI [of _ "disk s"],
        rule exI [of _ "history s"]) simp
  ultimately show ?thesis using ok' ab by (auto simp: cache_step_def holds_def)
qed

lemma bwrite_abs:
  assumes q: "quiet h s" and ok: "cache_ok d s" and b: "mine h d s n b"
  obtains t where "bwrite h b s = Some t" "bdata (bufs t b) = bdata (bufs s b)" "bvalid (bufs t b) = bvalid (bufs s b)"
    "cache_step h d s t ((abs_cache d s)\<lparr>cdisk := (cdisk (abs_cache d s))(n := cview (abs_cache d s) n),
       chist := chist (abs_cache d s) @ [(n, cview (abs_cache d s) n)]\<rparr>)"
proof -
  let ?x = "(bufs s b)\<lparr>bdisk := False\<rparr>" and ?k = "slocks s (BufLock b)"
  note m = mine_abs [OF ok b] and l = mine_locked [OF ok b]
  let ?t = "(settle h s)\<lparr>procs := procs s, slocks := (slocks s)(BufLock b := ?k), bufs := (bufs s)(b := ?x),
     disk := (disk s)(n := bdata (bufs s b)), history := history s @ [(n, bdata (bufs s b))]\<rparr>"
  have eq: "bwrite h b s = Some ?t"
    using m l by (simp add: bwrite_eq [OF q] disk_rw_def upd_buf_def upd_cpu_def)
  have "cache_step h d s ?t \<lparr>cview = (cview (abs_cache d s))(n := if bvalid ?x then bdata ?x else ((disk s)(n := bdata (bufs s b))) n),
       crefs = (crefs (abs_cache d s))(n := refcnt ?x),
       clocks = (clocks (abs_cache d s))(n := if slocked ?k = 0 then None else Some (slpid ?k)),
       cdisk = (disk s)(n := bdata (bufs s b)), chist = history s @ [(n, bdata (bufs s b))]\<rparr>"
    by (rule cache_step_upd [OF ok m(1) _ _ refl])
      (use m l cache_okD(1) [OF ok] in \<open>auto simp: same_buf_def intro!: lru_upd\<close>)
  moreover have "\<lparr>cview = (cview (abs_cache d s))(n := if bvalid ?x then bdata ?x else ((disk s)(n := bdata (bufs s b))) n),
       crefs = (crefs (abs_cache d s))(n := refcnt ?x),
       clocks = (clocks (abs_cache d s))(n := if slocked ?k = 0 then None else Some (slpid ?k)),
       cdisk = (disk s)(n := bdata (bufs s b)), chist = history s @ [(n, bdata (bufs s b))]\<rparr> =
     (abs_cache d s)\<lparr>cdisk := (cdisk (abs_cache d s))(n := cview (abs_cache d s) n),
       chist := chist (abs_cache d s) @ [(n, cview (abs_cache d s) n)]\<rparr>"
    using m l by (intro cache.equality) (simp_all add: fun_upd_idem)
  ultimately show thesis using that [OF eq] by simp
qed

text \<open>\<open>brelse\<close> gives the block up, and moves a buffer without references to the front of the list.\<close>

definition brelse_bufs :: "(nat \<Rightarrow> buf) \<Rightarrow> nat \<Rightarrow> (nat \<Rightarrow> buf)" where
  "brelse_bufs B b =
     (let B = B(b := (B b)\<lparr>refcnt := refcnt (B b) - 1\<rparr>)
      in if refcnt (B b) = 0 then insert_front b (unlink_buf b B) else B)"

lemma brelse_eq:
  assumes q: "quiet h s" and "slocked (slocks s (BufLock b)) \<noteq> 0" "slpid (slocks s (BufLock b)) = me_pid h s"
  obtains Q where "brelse h b s = Some ((settle h s)\<lparr>procs := Q,
      slocks := (slocks s)(BufLock b := (slocks s (BufLock b))\<lparr>slocked := 0, slpid := 0\<rparr>), bufs := brelse_bufs (bufs s) b\<rparr>)"
    "wakes (procs s) Q"
proof -
  let ?S = "(slocks s)(BufLock b := (slocks s (BufLock b))\<lparr>slocked := 0, slpid := 0\<rparr>)"
  obtain Q where rel: "releasesleep h (BufLock b) (settle h s) = Some ((settle h s)\<lparr>procs := Q, slocks := ?S\<rparr>)"
    and w: "wakes (procs s) Q"
    using releasesleep_eq [OF quiet_settle [OF q], of "BufLock b"] by auto
  let ?u = "(settle h s)\<lparr>procs := Q, slocks := ?S\<rparr>"
  have qu: "quiet h ?u" using q by (auto simp: quiet_def lock_free_def)
  have su: "settle h ?u = ?u" by (simp add: upd_cpu_def)
  have fr: "bufs ?u = bufs s" by simp
  have "release h BcacheLock ((taken h BcacheLock ?u)\<lparr>bufs := brelse_bufs (bufs s) b\<rparr>) =
      Some (?u\<lparr>bufs := brelse_bufs (bufs s) b\<rparr>)"
    using bcache_section(2) [OF qu] su by simp
  then have "brelse h b s = Some (?u\<lparr>bufs := brelse_bufs (bufs s) b\<rparr>)"
    using assms bcache_section(1) [OF qu] rel
    by (cases "refcnt (bufs s b) = 1") (simp_all add: brelse_def holdingsleep_eq [OF q] brelse_bufs_def Let_def upd_buf_def)
  then show thesis using that w by blast
qed

lemma same_buf_ptr:
  "\<forall>c. same_buf (B' c) (B c) \<Longrightarrow> \<forall>c. same_buf ((B'(x := (B' x)\<lparr>bnext := v\<rparr>)) c) (B c)"
  "\<forall>c. same_buf (B' c) (B c) \<Longrightarrow> \<forall>c. same_buf ((B'(x := (B' x)\<lparr>bprev := v\<rparr>)) c) (B c)"
  by (auto simp: same_buf_def)

lemma same_buf_let:
  "(\<And>X. \<forall>c. same_buf (X c) (B c) \<Longrightarrow> \<forall>c. same_buf (f X c) (B c)) \<Longrightarrow> \<forall>c. same_buf (B' c) (B c) \<Longrightarrow>
   \<forall>c. same_buf ((let X = B' in f X) c) (B c)"
  by simp

lemma front_same: "\<forall>c. same_buf (insert_front b (unlink_buf b B) c) (B c)"
proof -
  have u: "\<forall>c. same_buf (unlink_buf b B c) (B c)"
    unfolding unlink_buf_def by (intro same_buf_let same_buf_ptr) (simp_all add: same_buf_def)
  show ?thesis unfolding insert_front_def by (intro same_buf_let same_buf_ptr u)
qed

lemma brelse_bufs_same:
  "same_buf (brelse_bufs B b c) (if c = b then (B b)\<lparr>refcnt := refcnt (B b) - 1\<rparr> else B c)"
proof (cases "refcnt (B b) = 1")
  case True
  then show ?thesis
    using spec [OF front_same, of b "B(b := (B b)\<lparr>refcnt := refcnt (B b) - 1\<rparr>)" c] by (auto simp: brelse_bufs_def)
qed (simp add: brelse_bufs_def same_buf_def)

lemma brelse_bufs_lru:
  assumes "lru B xs" "b < NBUF"
  shows "\<exists>ys. lru (brelse_bufs B b) ys"
proof -
  let ?B = "B(b := (B b)\<lparr>refcnt := refcnt (B b) - 1\<rparr>)"
  have l: "lru ?B xs" using assms(1) lru_cong [of ?B B] by simp
  have "b \<in> set xs" using assms by (simp add: lru_def)
  then obtain us vs where "xs = us @ b # vs" by (auto simp: in_set_conv_decomp)
  then have "lru (insert_front b (unlink_buf b ?B)) (b # us @ vs)" using l lru_to_front by simp
  then show ?thesis using l by (cases "refcnt (B b) = 1") (auto simp: brelse_bufs_def Let_def)
qed

lemma brelse_abs:
  assumes q: "quiet h s" and ok: "cache_ok d s" and b: "mine h d s n b"
    and clean: "crefs (abs_cache d s) n = 1 \<Longrightarrow> cview (abs_cache d s) n = cdisk (abs_cache d s) n"
  obtains t where "brelse h b s = Some t"
    "cache_step h d s t ((abs_cache d s)\<lparr>crefs := (crefs (abs_cache d s))(n := crefs (abs_cache d s) n - 1),
       clocks := (clocks (abs_cache d s))(n := None)\<rparr>)"
proof -
  note m = mine_abs [OF ok b] and l = mine_locked [OF ok b]
  let ?x = "(bufs s b)\<lparr>refcnt := refcnt (bufs s b) - 1\<rparr>"
  let ?k = "(slocks s (BufLock b))\<lparr>slocked := 0, slpid := 0\<rparr>"
  obtain Q where eq: "brelse h b s = Some ((settle h s)\<lparr>procs := Q, slocks := (slocks s)(BufLock b := ?k),
      bufs := brelse_bufs (bufs s) b\<rparr>)" and w: "wakes (procs s) Q"
    using brelse_eq [OF q l(1,2)] by blast
  let ?t = "(settle h s)\<lparr>procs := Q, slocks := (slocks s)(BufLock b := ?k),
      bufs := brelse_bufs (bufs s) b, disk := disk s, history := history s\<rparr>"
  have eq': "brelse h b s = Some ?t" unfolding eq by (simp add: upd_cpu_def)
  have bN: "b < NBUF" using m(1) by (simp add: holds_def)
  have "cache_step h d s ?t \<lparr>cview = (cview (abs_cache d s))(n := if bvalid ?x then bdata ?x else disk s n),
       crefs = (crefs (abs_cache d s))(n := refcnt ?x),
       clocks = (clocks (abs_cache d s))(n := if slocked ?k = 0 then None else Some (slpid ?k)),
       cdisk = disk s, chist = history s\<rparr>"
    by (rule cache_step_upd [OF ok m(1) _ _ refl w])
      (use m l clean bN cache_okD(1) [OF ok] brelse_bufs_lru brelse_bufs_same in auto)
  moreover have "\<lparr>cview = (cview (abs_cache d s))(n := if bvalid ?x then bdata ?x else disk s n),
       crefs = (crefs (abs_cache d s))(n := refcnt ?x),
       clocks = (clocks (abs_cache d s))(n := if slocked ?k = 0 then None else Some (slpid ?k)),
       cdisk = disk s, chist = history s\<rparr> =
     (abs_cache d s)\<lparr>crefs := (crefs (abs_cache d s))(n := crefs (abs_cache d s) n - 1),
       clocks := (clocks (abs_cache d s))(n := None)\<rparr>"
    using m l by (intro cache.equality) (simp_all add: fun_upd_idem)
  ultimately show thesis using that [OF eq'] by simp
qed

section \<open>Initialisation\<close>

lemma binit_body_bufs:
  assumes "b < NBUF"
  shows "bufs (binit_body b s) = insert_front b (bufs s)"
  using assms by (simp add: binit_body_def insert_front_def initsleeplock_def initlock_def upd_slock_def upd_lock_def Let_def)

lemma sleeplock_all: "k\<lparr>slname := nm, slocked := l, slpid := p\<rparr> = \<lparr>slocked = l, slname = nm, slpid = p\<rparr>"
  by (rule sleeplock.equality) simp_all

lemma binit_body_locks:
  "slocks (binit_body b s) = (slocks s)(BufLock b := \<lparr>slocked = 0, slname = ''buffer'', slpid = 0\<rparr>)"
  "disk (binit_body b s) = disk s" "history (binit_body b s) = history s"
  by (simp_all add: sleeplock_all binit_body_def initsleeplock_def initlock_def upd_slock_def upd_lock_def Let_def)

lemma insert_front_same: "\<forall>c. same_buf (insert_front b B c) (B c)"
  unfolding insert_front_def by (intro same_buf_let same_buf_ptr) (simp_all add: same_buf_def)

lemma binit_loop_spec:
  assumes "links (bufs s) NBUF [] NBUF" "k \<le> NBUF"
  shows "links (bufs (binit_loop k s)) NBUF (rev [0..<k]) NBUF \<and> (\<forall>c. same_buf (bufs (binit_loop k s) c) (bufs s c)) \<and>
    (\<forall>b<k. slocked (slocks (binit_loop k s) (BufLock b)) = 0) \<and>
    disk (binit_loop k s) = disk s \<and> history (binit_loop k s) = history s"
  using assms(2)
proof (induction k)
  case 0
  then show ?case using assms(1) by (simp add: same_buf_def)
next
  case (Suc k)
  let ?s = "binit_loop k s"
  have IH: "links (bufs ?s) NBUF (rev [0..<k]) NBUF" "\<forall>c. same_buf (bufs ?s c) (bufs s c)"
    using Suc by auto
  have "links (insert_front k (bufs ?s)) NBUF (k # rev [0..<k]) NBUF"
    by (rule lru_insert_front) (use IH Suc.prems in auto)
  moreover have "\<forall>c. same_buf (insert_front k (bufs ?s) c) (bufs s c)"
    using insert_front_same [of k "bufs ?s"] IH(2) by (simp add: same_buf_def)
  moreover have "slocked (slocks (binit_body k ?s) (BufLock b)) = 0" if "b < Suc k" for b
    using that Suc by (auto simp: binit_body_locks less_Suc_eq)
  ultimately show ?case using Suc by (simp add: binit_body_bufs binit_body_locks(2,3) Suc_le_lessD)
qed

text \<open>
  The cache after \<open>binit\<close>, started on the zeroed memory of the kernel: no block of a device is cached.
\<close>

lemma binit_ok:
  assumes zero: "\<And>b. b < NBUF \<Longrightarrow> bdev (bufs s b) = 0 \<and> refcnt (bufs s b) = 0" and d: "d \<noteq> 0"
  shows "cache_ok d (binit s)"
    "abs_cache d (binit s) = \<lparr>cview = disk s, crefs = (\<lambda>n. 0), clocks = (\<lambda>n. None), cdisk = disk s, chist = history s\<rparr>"
    "lru (bufs (binit s)) (rev [0..<NBUF])"
proof -
  let ?s = "upd_buf NBUF (\<lambda>x. x\<lparr>bnext := NBUF\<rparr>) (upd_buf NBUF (\<lambda>x. x\<lparr>bprev := NBUF\<rparr>) (initlock BcacheLock ''bcache'' s))"
  have eq: "binit s = binit_loop NBUF ?s" by (simp add: binit_def Let_def)
  have sp: "links (bufs (binit s)) NBUF (rev [0..<NBUF]) NBUF" "\<forall>c. same_buf (bufs (binit s) c) (bufs ?s c)"
    "\<forall>b<NBUF. slocked (slocks (binit s) (BufLock b)) = 0" "disk (binit s) = disk s" "history (binit s) = history s"
    using binit_loop_spec [of ?s NBUF] unfolding eq by (simp_all add: initlock_def upd_lock_def)
  then show l: "lru (bufs (binit s)) (rev [0..<NBUF])" by (auto simp: lru_def)
  have z: "bdev (bufs (binit s) b) = 0" "refcnt (bufs (binit s) b) = 0" if "b < NBUF" for b
    using sp(2) zero [OF that] that by (auto simp: same_buf_def initlock_def upd_lock_def dest!: spec [of _ b])
  then have "\<forall>b. \<not> holds d (bufs (binit s)) n b" for n using d by (auto simp: holds_def)
  from abs_not_cached [OF this] show
    "abs_cache d (binit s) = \<lparr>cview = disk s, crefs = (\<lambda>n. 0), clocks = (\<lambda>n. None), cdisk = disk s, chist = history s\<rparr>"
    using sp(4,5) by (intro abs_eqI) simp_all
  show "cache_ok d (binit s)" using l z d sp(3) unfolding cache_ok_def by auto
qed

section \<open>The interface of the cache\<close>

text \<open>A block can be read when nobody has locked it and there is a buffer for it.\<close>

definition available :: "cache \<Rightarrow> uint \<Rightarrow> bool" where
  "available a n \<longleftrightarrow> clocks a n = None \<and> crefs a n + 1 \<noteq> 0 \<and> (crefs a n \<noteq> 0 \<or> card {m. crefs a m \<noteq> 0} < NBUF)"

definition locked_by :: "int \<Rightarrow> uint \<Rightarrow> cache \<Rightarrow> cache" where
  "locked_by p n a = a\<lparr>crefs := (crefs a)(n := crefs a n + 1), clocks := (clocks a)(n := Some p)\<rparr>"

definition released :: "uint \<Rightarrow> cache \<Rightarrow> cache" where
  "released n a = a\<lparr>crefs := (crefs a)(n := crefs a n - 1), clocks := (clocks a)(n := None)\<rparr>"

definition changed :: "uint \<Rightarrow> bytes \<Rightarrow> cache \<Rightarrow> cache" where
  "changed n v a = a\<lparr>cview := (cview a)(n := v)\<rparr>"

definition flushed :: "uint \<Rightarrow> cache \<Rightarrow> cache" where
  "flushed n a = a\<lparr>cdisk := (cdisk a)(n := cview a n), chist := chist a @ [(n, cview a n)]\<rparr>"

definition pinned :: "uint \<Rightarrow> cache \<Rightarrow> cache" where
  "pinned n a = a\<lparr>crefs := (crefs a)(n := crefs a n + 1)\<rparr>"

definition unpinned :: "uint \<Rightarrow> cache \<Rightarrow> cache" where
  "unpinned n a = a\<lparr>crefs := (crefs a)(n := crefs a n - 1)\<rparr>"

lemmas cache_ops = locked_by_def released_def changed_def flushed_def pinned_def unpinned_def

definition set_data :: "nat \<Rightarrow> bytes \<Rightarrow> 'a bio_scheme \<Rightarrow> 'a bio_scheme" where
  "set_data b v = upd_buf b (\<lambda>x. x\<lparr>bdata := v\<rparr>)"

text \<open>
  What the log and the file system rely on.  \<open>own s n b\<close>: the process has block \<open>n\<close> locked, in the buffer \<open>b\<close>.
\<close>

locale block_cache =
  fixes ok :: "'s \<Rightarrow> bool" and absc :: "'s \<Rightarrow> cache" and me :: "'s \<Rightarrow> int" and own :: "'s \<Rightarrow> uint \<Rightarrow> nat \<Rightarrow> bool"
    and step :: "'s \<Rightarrow> 's \<Rightarrow> cache \<Rightarrow> bool" and frame :: "'s \<Rightarrow> 's \<Rightarrow> bool" and data :: "nat \<Rightarrow> 's \<Rightarrow> bytes"
    and rd :: "uint \<Rightarrow> 's \<Rightarrow> (nat \<times> 's) option" and put :: "nat \<Rightarrow> bytes \<Rightarrow> 's \<Rightarrow> 's"
    and wr rl pn un :: "nat \<Rightarrow> 's \<Rightarrow> 's option"
  assumes step_result: "step s t a \<Longrightarrow> ok s \<Longrightarrow> ok t \<and> absc t = a \<and> frame s t"
    and step_own: "step s t a \<Longrightarrow> ok s \<Longrightarrow> own s m c \<Longrightarrow> clocks a m = Some (me s) \<Longrightarrow> own t m c"
    and frame_refl: "frame s s"
    and frame_trans: "frame s t \<Longrightarrow> frame t u \<Longrightarrow> frame s u"
    and frame_me: "frame s t \<Longrightarrow> me t = me s"
    and own_data: "ok s \<Longrightarrow> own s n b \<Longrightarrow> data b s = cview (absc s) n \<and> clocks (absc s) n = Some (me s) \<and> crefs (absc s) n \<noteq> 0"
    and clean: "ok s \<Longrightarrow> crefs (absc s) n = 0 \<Longrightarrow> cview (absc s) n = cdisk (absc s) n"
    and rd_law: "ok s \<Longrightarrow> available (absc s) n \<Longrightarrow>
      \<exists>b t. rd n s = Some (b, t) \<and> own t n b \<and> step s t (locked_by (me s) n (absc s))"
    and put_law: "ok s \<Longrightarrow> own s n b \<Longrightarrow> step s (put b v s) (changed n v (absc s))"
    and wr_law: "ok s \<Longrightarrow> own s n b \<Longrightarrow> \<exists>t. wr b s = Some t \<and> step s t (flushed n (absc s))"
    and rl_law: "ok s \<Longrightarrow> own s n b \<Longrightarrow> (crefs (absc s) n = 1 \<Longrightarrow> cview (absc s) n = cdisk (absc s) n) \<Longrightarrow>
      \<exists>t. rl b s = Some t \<and> step s t (released n (absc s))"
    and pn_law: "ok s \<Longrightarrow> own s n b \<Longrightarrow> crefs (absc s) n + 1 \<noteq> 0 \<Longrightarrow>
      \<exists>t. pn b s = Some t \<and> step s t (pinned n (absc s))"
    and un_law: "ok s \<Longrightarrow> own s n b \<Longrightarrow> 1 < crefs (absc s) n \<Longrightarrow>
      \<exists>t. un b s = Some t \<and> step s t (unpinned n (absc s))"
begin

text \<open>Looking at a block leaves everything as it was.\<close>

lemma read_block:
  assumes "ok s" "available (absc s) n"
  shows "\<exists>b t u. rd n s = Some (b, t) \<and> rl b t = Some u \<and> data b t = cview (absc s) n \<and> own t n b \<and> ok t \<and>
    step s t (locked_by (me s) n (absc s)) \<and> ok u \<and> absc u = absc s \<and> frame s u"
proof -
  obtain b t where t: "rd n s = Some (b, t)" "own t n b" "step s t (locked_by (me s) n (absc s))"
    using rd_law [OF assms] by blast
  have okt: "ok t" "absc t = locked_by (me s) n (absc s)" "frame s t" using step_result [OF t(3) assms(1)] by auto
  have "crefs (absc t) n = 1 \<Longrightarrow> cview (absc t) n = cdisk (absc t) n"
    using clean [OF assms(1), of n] by (simp add: okt(2) locked_by_def)
  from rl_law [OF okt(1) t(2) this] obtain u where u: "rl b t = Some u" "step t u (released n (absc t))" by blast
  have "released n (absc t) = absc s"
    using assms(2) by (simp add: okt(2) released_def locked_by_def available_def fun_upd_idem)
  moreover have "data b t = cview (absc s) n" using own_data [OF okt(1) t(2)] by (simp add: okt(2) locked_by_def)
  ultimately show ?thesis
    using t u okt step_result [OF u(2) okt(1)] frame_trans [OF okt(3)] by auto
qed

text \<open>Writing a block through to the disk: \<open>bread\<close>, change the data, \<open>bwrite\<close>, \<open>brelse\<close>.\<close>

lemma write_block:
  assumes "ok s" "available (absc s) n"
  shows "\<exists>b t u v. rd n s = Some (b, t) \<and> data b t = cview (absc s) n \<and>
    wr b (put b x t) = Some u \<and> rl b u = Some v \<and> ok v \<and> absc v = flushed n (changed n x (absc s)) \<and> frame s v"
proof -
  obtain b t where t: "rd n s = Some (b, t)" "own t n b" "step s t (locked_by (me s) n (absc s))"
    using rd_law [OF assms] by blast
  have okt: "ok t" "absc t = locked_by (me s) n (absc s)" "frame s t" using step_result [OF t(3) assms(1)] by auto
  have lk: "clocks (absc t) n = Some (me t)" using own_data [OF okt(1) t(2)] by blast
  let ?p = "put b x t"
  have p: "step t ?p (changed n x (absc t))" using put_law [OF okt(1) t(2)] .
  have okp: "ok ?p" "absc ?p = changed n x (absc t)" "frame t ?p" using step_result [OF p okt(1)] by auto
  have ownp: "own ?p n b" using step_own [OF p okt(1) t(2)] lk by (simp add: changed_def)
  obtain u where u: "wr b ?p = Some u" "step ?p u (flushed n (absc ?p))" using wr_law [OF okp(1) ownp] by blast
  have oku: "ok u" "absc u = flushed n (absc ?p)" "frame ?p u" using step_result [OF u(2) okp(1)] by auto
  have ownu: "own u n b"
    using step_own [OF u(2) okp(1) ownp] lk frame_me [OF okp(3)] by (simp add: okp(2) flushed_def changed_def)
  have "cview (absc u) n = cdisk (absc u) n" by (simp add: oku(2) flushed_def)
  with rl_law [OF oku(1) ownu] obtain v where v: "rl b u = Some v" "step u v (released n (absc u))" by blast
  have "absc v = released n (absc u)" "ok v" "frame u v" using step_result [OF v(2) oku(1)] by auto
  moreover have "released n (absc u) = flushed n (changed n x (absc s))"
    using assms(2) by (simp add: oku(2) okp(2) okt(2) cache_ops available_def fun_upd_idem)
  moreover have "data b t = cview (absc s) n" using own_data [OF okt(1) t(2)] by (simp add: okt(2) locked_by_def)
  moreover have "frame s v" using okt(3) okp(3) oku(3) \<open>frame u v\<close> by (blast intro: frame_trans)
  ultimately show ?thesis using t(1) u(1) v(1) by auto
qed

end

lemma clean_abs:
  assumes "cache_ok d s" "crefs (abs_cache d s) n = 0"
  shows "cview (abs_cache d s) n = disk s n"
proof (cases "\<exists>b. holds d (bufs s) n b")
  case True
  then obtain b where b: "holds d (bufs s) n b" by blast
  then show ?thesis using abs_cached(1,2) [OF assms(1) b] assms(2) cache_okD(5) [OF assms(1), of b] by (auto simp: holds_def)
qed (use abs_not_cached in blast)

lemma step_mine:
  assumes "cache_step h d s t a" "cache_ok d s" "mine h d s m c" "clocks a m = Some (me_pid h s)"
  shows "mine h d t m c"
proof -
  have "me_pid h t = me_pid h s" using assms(1) by (auto simp: cache_step_def intro: quiet_step_pid)
  moreover have "crefs (abs_cache d s) m \<noteq> 0" using mine_locked(3,4) [OF assms(2,3)] by simp
  ultimately show ?thesis using assms by (auto simp: cache_step_def mine_def)
qed

interpretation bcache: block_cache "\<lambda>s. quiet h s \<and> cache_ok d s" "abs_cache d" "me_pid h" "mine h d" "cache_step h d"
  "\<lambda>s t. quiet_step h s t \<and> bio_frame s t" "\<lambda>b s. bdata (bufs s b)" "bread h d" set_data
  "bwrite h" "brelse h" "bpin h" "bunpin h" for h d
proof (unfold_locales, goal_cases)
  case (1 s t a)
  then show ?case by (auto simp: cache_step_def intro: quiet_step_quiet)
next
  case (2 s t a m c)
  then show ?case using step_mine by blast
next
  case (4 s t u)
  then show ?case using quiet_step_trans bio_frame_trans by blast
next
  case (5 s t)
  then show ?case using quiet_step_pid by blast
next
  case (6 s n b)
  then show ?case using mine_locked [of d s h n b] mine_abs [of d s h n b] by auto
next
  case (7 s n)
  then show ?case using clean_abs by auto
next
  case (8 s n)
  then obtain b t where "bread h d n s = Some (b, t)" "holds d (bufs t) n b" "bvalid (bufs t b)"
    "cache_step h d s t (locked_by (me_pid h s) n (abs_cache d s))"
    using bread_abs [of h s d n] unfolding available_def locked_by_def by blast
  moreover from this have "mine h d t n b"
    using quiet_step_pid [of h s t] by (auto simp: cache_step_def mine_def locked_by_def)
  ultimately show ?case by blast
next
  case (9 s n b v)
  then show ?case using set_data_abs by (auto simp: set_data_def changed_def)
next
  case (10 s n b)
  then show ?case using bwrite_abs [of h s d n b] by (auto simp: flushed_def)
next
  case (11 s n b)
  then show ?case using brelse_abs [of h s d n b] by (auto simp: released_def)
next
  case (12 s n b)
  then show ?case using bpin_abs [of h s d n b] mine_locked(3,4) [of d s h n b] by (auto simp: pinned_def mine_def)
next
  case (13 s n b)
  then show ?case using bunpin_abs [of h s d n b] by (auto simp: unpinned_def mine_def)
qed simp

section \<open>Properties\<close>

text \<open>A machine with a process running on hart 0 and an empty cache, for examples.\<close>

definition boot_bio :: bio where
  "boot_bio = \<lparr>cpus = (\<lambda>h. idle_cpu\<lparr>cproc := Some 0\<rparr>), locks = (\<lambda>l. free_lock),
     procs = (\<lambda>p. unused_proc)(0 := unused_proc\<lparr>pstate := RUNNING, pid := 1\<rparr>), nextpid = 2,
     initproc = Some 0, ticks = 0, pmem = (\<lambda>a. 0), freelist = 0, kend = 0x87FFD010,
     slocks = (\<lambda>l. \<lparr>slocked = 0, slname = [], slpid = 0\<rparr>),
     bufs = (\<lambda>b. \<lparr>bvalid = False, bdisk = False, bdev = 0, blockno = 0, refcnt = 0, bprev = 0, bnext = 0, bdata = []\<rparr>),
     disk = (\<lambda>n. replicate BSIZE (ucast n)), history = []\<rparr>"

lemma quiet_binit: "quiet h s \<Longrightarrow> quiet h (binit s)"
proof -
  have loop: "cpus (binit_loop k s) = cpus s \<and> ((\<forall>l. lock_free l s) \<longrightarrow> (\<forall>l. lock_free l (binit_loop k s)))" for k and s :: "'b bio_scheme"
    by (induction k) (auto simp: binit_body_def initsleeplock_def initlock_def upd_slock_def upd_lock_def upd_buf_def lock_free_def Let_def)
  show "quiet h s \<Longrightarrow> quiet h (binit s)"
    using loop [of NBUF "upd_buf NBUF (\<lambda>x. x\<lparr>bnext := NBUF\<rparr>) (upd_buf NBUF (\<lambda>x. x\<lparr>bprev := NBUF\<rparr>) (initlock BcacheLock ''bcache'' s))"]
    by (auto simp: quiet_def binit_def Let_def lock_free_def initlock_def upd_lock_def)
qed

lemma boot_bio_ok:
  "quiet 0 (binit boot_bio)" "cache_ok 1 (binit boot_bio)"
  "abs_cache 1 (binit boot_bio) = \<lparr>cview = disk boot_bio, crefs = (\<lambda>n. 0), clocks = (\<lambda>n. None), cdisk = disk boot_bio, chist = []\<rparr>"
proof -
  have "quiet 0 boot_bio" by (simp add: quiet_def boot_bio_def idle_cpu_def free_lock_def lock_free_def cpu_ok_def)
  then show "quiet 0 (binit boot_bio)" by (rule quiet_binit)
  show "cache_ok 1 (binit boot_bio)"
    "abs_cache 1 (binit boot_bio) = \<lparr>cview = disk boot_bio, crefs = (\<lambda>n. 0), clocks = (\<lambda>n. None), cdisk = disk boot_bio, chist = []\<rparr>"
    using binit_ok [of boot_bio 1] by (simp_all add: boot_bio_def)
qed

text \<open>
  C7: when a block is not locked and there is a buffer for it, \<open>bread\<close> returns a buffer that the calling process
  has locked and that holds the current contents of the block, whether it was cached or not; the contents, references and
  locks of all other blocks, and the disk, stay as they are, and the invariant of the cache (at most one buffer per block,
  a well-formed list, unreferenced buffers agree with the disk) is kept.
\<close>

theorem bread_refines:
  assumes "quiet h s" "cache_ok d s" "available (abs_cache d s) n"
  shows "\<exists>b t. bread h d n s = Some (b, t) \<and> mine h d t n b \<and> bdata (bufs t b) = cview (abs_cache d s) n \<and>
    abs_cache d t = locked_by (me_pid h s) n (abs_cache d s) \<and> cache_ok d t \<and> quiet h t"
  using bcache.read_block [of h s d n] assms unfolding cache_step_def by blast

theorem bread_refines_witness:
  "\<exists>b t. bread 0 1 46 (binit boot_bio) = Some (b, t) \<and> mine 0 1 t 46 b \<and>
    bdata (bufs t b) = cview (abs_cache 1 (binit boot_bio)) 46 \<and>
    abs_cache 1 t = locked_by (me_pid 0 (binit boot_bio)) 46 (abs_cache 1 (binit boot_bio)) \<and> cache_ok 1 t \<and> quiet 0 t"
  by (rule bread_refines [OF boot_bio_ok(1,2)]) (simp add: available_def boot_bio_ok(3) NBUF_def MAXOPBLOCKS_def)

text \<open>
  Writing through the cache: reading a block, changing its data, \<open>bwrite\<close> and \<open>brelse\<close> returns, puts the new contents
  in the cache and on the disk as one write of that block, and leaves every other block, all reference counts and all locks
  as they were.
\<close>

theorem bcache_write_through:
  assumes "quiet h s" "cache_ok d s" "available (abs_cache d s) n"
  shows "\<exists>t. do { (b, s) \<leftarrow> bread h d n s; s \<leftarrow> bwrite h b (set_data b (f (bdata (bufs s b))) s); brelse h b s } = Some t \<and>
    abs_cache d t = (abs_cache d s)\<lparr>cview := (cview (abs_cache d s))(n := f (cview (abs_cache d s) n)),
      cdisk := (disk s)(n := f (cview (abs_cache d s) n)), chist := history s @ [(n, f (cview (abs_cache d s) n))]\<rparr> \<and>
    cache_ok d t \<and> quiet h t"
  using bcache.write_block [of h s d n "f (cview (abs_cache d s) n)"] assms by (auto simp: cache_ops)

theorem bcache_write_through_witness:
  "\<exists>t. do { (b, s) \<leftarrow> bread 0 1 46 (binit boot_bio); s \<leftarrow> bwrite 0 b (set_data b (rev (bdata (bufs s b))) s); brelse 0 b s } = Some t \<and>
    abs_cache 1 t = (abs_cache 1 (binit boot_bio))\<lparr>
      cview := (cview (abs_cache 1 (binit boot_bio)))(46 := rev (cview (abs_cache 1 (binit boot_bio)) 46)),
      cdisk := (disk (binit boot_bio))(46 := rev (cview (abs_cache 1 (binit boot_bio)) 46)),
      chist := history (binit boot_bio) @ [(46, rev (cview (abs_cache 1 (binit boot_bio)) 46))]\<rparr> \<and>
    cache_ok 1 t \<and> quiet 0 t"
  by (rule bcache_write_through [OF boot_bio_ok(1,2)]) (simp add: available_def boot_bio_ok(3) NBUF_def MAXOPBLOCKS_def)

end
