(* ===== verification/Bytes.thy ===== *)
theory Bytes
  imports Prelude
begin

text \<open>
  Little-endian numbers in blocks: the C code reads and writes fields of on-disk structures by casting the data of a
  buffer to a struct.
\<close>

definition slice :: "nat \<Rightarrow> nat \<Rightarrow> 'a list \<Rightarrow> 'a list" where
  "slice off k xs = take k (drop off xs)"

definition splice_at :: "nat \<Rightarrow> 'a list \<Rightarrow> 'a list \<Rightarrow> 'a list" where
  "splice_at off ys xs = take off xs @ ys @ drop (off + length ys) xs"

lemma length_splice_at [simp]: "off + length ys \<le> length xs \<Longrightarrow> length (splice_at off ys xs) = length xs"
  by (simp add: splice_at_def)

lemma length_slice [simp]: "off + k \<le> length xs \<Longrightarrow> length (slice off k xs) = k"
  by (simp add: slice_def)

lemma nth_slice: "i < k \<Longrightarrow> off + k \<le> length xs \<Longrightarrow> slice off k xs ! i = xs ! (off + i)"
  by (simp add: slice_def)

lemma nth_splice_at:
  "off + length ys \<le> length xs \<Longrightarrow> i < length xs \<Longrightarrow>
   splice_at off ys xs ! i = (if off \<le> i \<and> i < off + length ys then ys ! (i - off) else xs ! i)"
  by (auto simp: splice_at_def nth_append)

lemma slice_splice_same: "off + length ys \<le> length xs \<Longrightarrow> k = length ys \<Longrightarrow> slice off k (splice_at off ys xs) = ys"
  by (rule nth_equalityI) (simp_all add: nth_slice nth_splice_at)

lemma slice_splice_other:
  assumes "off + length ys \<le> length xs" "off' + k \<le> length xs" "off' + k \<le> off \<or> off + length ys \<le> off'"
  shows "slice off' k (splice_at off ys xs) = slice off' k xs"
  using assms by (intro nth_equalityI) (auto simp: nth_slice nth_splice_at)

lemma splice_slice: "off + k \<le> length xs \<Longrightarrow> splice_at off (slice off k xs) xs = xs"
  by (intro nth_equalityI) (auto simp: nth_slice nth_splice_at)

fun enc_le :: "nat \<Rightarrow> 'a::len word \<Rightarrow> bytes" where
  "enc_le 0 w = []"
| "enc_le (Suc k) w = ucast w # enc_le k (drop_bit 8 w)"

fun dec_le :: "bytes \<Rightarrow> 'a::len word" where
  "dec_le [] = 0"
| "dec_le (b # bs) = ucast b OR push_bit 8 (dec_le bs)"

lemma length_enc_le [simp]: "length (enc_le k w) = k"
  by (induction k arbitrary: w) auto

lemma dec_enc_le: "dec_le (enc_le k w) = take_bit (8 * k) w"
proof (induction k arbitrary: w)
  case (Suc k)
  show ?case
    by (rule bit_word_eqI) (auto simp: Suc bit_simps)
qed simp

lemma enc_dec_le: "length bs = k \<Longrightarrow> 8 * k \<le> LENGTH('a) \<Longrightarrow> enc_le k (dec_le bs :: 'a::len word) = bs"
proof (induction bs arbitrary: k)
  case (Cons b bs)
  then obtain j where k: "k = Suc j" "length bs = j" "8 + 8 * j \<le> LENGTH('a)" by auto
  have bnd: "\<not> bit (dec_le bs :: 'a word) n" if "8 * j \<le> n" for n
  proof -
    have IH: "enc_le j (dec_le bs :: 'a word) = bs" using Cons.IH k by simp
    have "(dec_le bs :: 'a word) = take_bit (8 * j) (dec_le bs)" using dec_enc_le [of j "dec_le bs :: 'a word"] IH by simp
    then show ?thesis using that by (metis bit_take_bit_iff not_less)
  qed
  have "drop_bit 8 (dec_le (b # bs) :: 'a word) = dec_le bs"
    by (rule bit_word_eqI) (use k bnd in \<open>auto simp: bit_simps dest: bit_imp_le_length\<close>)
  moreover have "ucast (dec_le (b # bs) :: 'a word) = b"
    by (rule bit_word_eqI) (use k in \<open>auto simp: bit_simps\<close>)
  ultimately show ?case using Cons k by simp
qed simp

definition get32 :: "nat \<Rightarrow> bytes \<Rightarrow> uint" where
  "get32 off xs = dec_le (slice off 4 xs)"

definition put32 :: "nat \<Rightarrow> uint \<Rightarrow> bytes \<Rightarrow> bytes" where
  "put32 off v xs = splice_at off (enc_le 4 v) xs"

definition get16 :: "nat \<Rightarrow> bytes \<Rightarrow> ushort" where
  "get16 off xs = dec_le (slice off 2 xs)"

definition put16 :: "nat \<Rightarrow> ushort \<Rightarrow> bytes \<Rightarrow> bytes" where
  "put16 off v xs = splice_at off (enc_le 2 v) xs"

lemma length_put [simp]:
  "off + 4 \<le> length xs \<Longrightarrow> length (put32 off v xs) = length xs"
  "off + 2 \<le> length xs \<Longrightarrow> length (put16 off u xs) = length xs"
  by (simp_all add: put32_def put16_def)

lemma get_put [simp]:
  "off + 4 \<le> length xs \<Longrightarrow> get32 off (put32 off v xs) = v"
  "off + 2 \<le> length xs \<Longrightarrow> get16 off (put16 off u xs) = u"
  by (simp_all add: get32_def put32_def get16_def put16_def slice_splice_same dec_enc_le take_bit_word_eq_self)

lemma get_put_other:
  "off + 4 \<le> length xs \<Longrightarrow> off' + 4 \<le> length xs \<Longrightarrow> off' + 4 \<le> off \<or> off + 4 \<le> off' \<Longrightarrow>
     get32 off' (put32 off v xs) = get32 off' xs"
  "off + 2 \<le> length xs \<Longrightarrow> off' + 2 \<le> length xs \<Longrightarrow> off' + 2 \<le> off \<or> off + 2 \<le> off' \<Longrightarrow>
     get16 off' (put16 off u xs) = get16 off' xs"
  "off + 4 \<le> length xs \<Longrightarrow> off' + 2 \<le> length xs \<Longrightarrow> off' + 2 \<le> off \<or> off + 4 \<le> off' \<Longrightarrow>
     get16 off' (put32 off v xs) = get16 off' xs"
  "off + 2 \<le> length xs \<Longrightarrow> off' + 4 \<le> length xs \<Longrightarrow> off' + 4 \<le> off \<or> off + 2 \<le> off' \<Longrightarrow>
     get32 off' (put16 off u xs) = get32 off' xs"
  by (simp_all add: get32_def put32_def get16_def put16_def slice_splice_other)

lemma put_get:
  "off + 4 \<le> length xs \<Longrightarrow> put32 off (get32 off xs) xs = xs"
  "off + 2 \<le> length xs \<Longrightarrow> put16 off (get16 off xs) xs = xs"
  by (simp_all add: get32_def put32_def get16_def put16_def enc_dec_le splice_slice)

end
