(* ===== verification/Log.thy ===== *)
theory Log
  imports Bio Bytes
begin

text \<open>
  The write-ahead log, \<^verbatim>\<open>kernel/log.c\<close>.  The in-memory header and the on-disk header block are both modelled; a
  header block is the bytes of \<open>struct logheader\<close>, an \<open>int\<close> \<open>n\<close> followed by \<open>LOGSIZE\<close> block numbers.  A store outside
  the \<open>block\<close> array is a call that does not return.
\<close>

section \<open>State and operations\<close>

definition LOGSIZE :: nat where "LOGSIZE = MAXOPBLOCKS * 3"

record superblock =
  magic :: uint
  sbsize :: uint
  nblocks :: uint
  ninodes :: uint
  nlog :: uint
  logstart :: uint
  inodestart :: uint
  bmapstart :: uint

record klog = bio +
  lstart :: uint
  lsize :: int
  outstanding :: int
  committing :: int
  ldev :: uint
  lhn :: int
  lhblock :: "nat \<Rightarrow> uint"

definition sizeof_logheader :: nat where "sizeof_logheader = 4 + 4 * LOGSIZE"

text \<open>The fields of a header block.\<close>

definition hdr_n :: "bytes \<Rightarrow> int" where "hdr_n xs = sint (get32 0 xs)"
definition hdr_block :: "bytes \<Rightarrow> nat \<Rightarrow> uint" where "hdr_block xs i = get32 (4 + 4 * i) xs"

fun install_trans_loop :: "nat \<Rightarrow> bool \<Rightarrow> nat \<Rightarrow> nat \<Rightarrow> 'a klog_scheme \<Rightarrow> 'a klog_scheme option" where
  "install_trans_loop h recovering 0 tail s = Some s"
| "install_trans_loop h recovering (Suc k) tail s = do {
     (lbuf, s) \<leftarrow> bread h (ldev s) (lstart s + of_nat tail + 1) s;
     if LOGSIZE \<le> tail then None
     else do {
       (dbuf, s) \<leftarrow> bread h (ldev s) (lhblock s tail) s;
       let s = set_data dbuf (bdata (bufs s lbuf)) s;
       s \<leftarrow> bwrite h dbuf s;
       s \<leftarrow> (if \<not> recovering then bunpin h dbuf s else Some s);
       s \<leftarrow> brelse h lbuf s;
       s \<leftarrow> brelse h dbuf s;
       install_trans_loop h recovering k (Suc tail) s
     }
   }"

definition install_trans :: "nat \<Rightarrow> bool \<Rightarrow> 'a klog_scheme \<Rightarrow> 'a klog_scheme option" where
  "install_trans h recovering s = install_trans_loop h recovering (nat (lhn s)) 0 s"

fun read_head_loop :: "bytes \<Rightarrow> nat \<Rightarrow> nat \<Rightarrow> 'a klog_scheme \<Rightarrow> 'a klog_scheme option" where
  "read_head_loop lh 0 i s = Some s"
| "read_head_loop lh (Suc k) i s =
     (if LOGSIZE \<le> i then None
      else read_head_loop lh k (Suc i) (s\<lparr>lhblock := (lhblock s)(i := hdr_block lh i)\<rparr>))"

definition read_head :: "nat \<Rightarrow> 'a klog_scheme \<Rightarrow> 'a klog_scheme option" where
  "read_head h s = do {
     (buf, s) \<leftarrow> bread h (ldev s) (lstart s) s;
     let lh = bdata (bufs s buf);
     let s = s\<lparr>lhn := hdr_n lh\<rparr>;
     s \<leftarrow> read_head_loop lh (nat (lhn s)) 0 s;
     brelse h buf s
   }"

fun write_head_loop :: "(nat \<Rightarrow> uint) \<Rightarrow> nat \<Rightarrow> nat \<Rightarrow> bytes \<Rightarrow> bytes option" where
  "write_head_loop block 0 i hb = Some hb"
| "write_head_loop block (Suc k) i hb =
     (if LOGSIZE \<le> i then None else write_head_loop block k (Suc i) (put32 (4 + 4 * i) (block i) hb))"

definition write_head :: "nat \<Rightarrow> 'a klog_scheme \<Rightarrow> 'a klog_scheme option" where
  "write_head h s = do {
     (buf, s) \<leftarrow> bread h (ldev s) (lstart s) s;
     let hb = put32 0 (word_of_int (lhn s)) (bdata (bufs s buf));
     hb \<leftarrow> write_head_loop (lhblock s) (nat (lhn s)) 0 hb;
     s \<leftarrow> bwrite h buf (set_data buf hb s);
     brelse h buf s
   }"

definition recover_from_log :: "nat \<Rightarrow> 'a klog_scheme \<Rightarrow> 'a klog_scheme option" where
  "recover_from_log h s = do {
     s \<leftarrow> read_head h s;
     s \<leftarrow> install_trans h True s;
     write_head h (s\<lparr>lhn := 0\<rparr>)
   }"

definition initlog :: "nat \<Rightarrow> uint \<Rightarrow> superblock \<Rightarrow> 'a klog_scheme \<Rightarrow> 'a klog_scheme option" where
  "initlog h dev sb s =
     (if BSIZE \<le> sizeof_logheader then None
      else do {
        let s = initlock LogLock ''log'' s;
        let s = s\<lparr>lstart := logstart sb\<rparr>;
        let s = s\<lparr>lsize := sint (nlog sb)\<rparr>;
        let s = s\<lparr>ldev := dev\<rparr>;
        recover_from_log h s
      })"

text \<open>
  The test of \<open>begin_op\<close>.  A hart running alone that goes to sleep here never comes back; one round of the waiting loop, up
  to the switch, is \<open>begin_op_wait\<close>.
\<close>

definition begin_op_blocked :: "'a klog_scheme \<Rightarrow> bool" where
  "begin_op_blocked s \<longleftrightarrow> committing s \<noteq> 0 \<or> int LOGSIZE < lhn s + (outstanding s + 1) * int MAXOPBLOCKS"

definition begin_op_wait :: "nat \<Rightarrow> 'a klog_scheme \<Rightarrow> (bool \<times> 'a klog_scheme) option" where
  "begin_op_wait h s = do {
     s \<leftarrow> acquire h LogLock s;
     (if begin_op_blocked s then sleep h ChLog LogLock s else None)
   }"

definition begin_op :: "nat \<Rightarrow> 'a klog_scheme \<Rightarrow> 'a klog_scheme option" where
  "begin_op h s = do {
     s \<leftarrow> acquire h LogLock s;
     (if begin_op_blocked s then None
      else do {
        let s = s\<lparr>outstanding := outstanding s + 1\<rparr>;
        release h LogLock s
      })
   }"

fun write_log_loop :: "nat \<Rightarrow> nat \<Rightarrow> nat \<Rightarrow> 'a klog_scheme \<Rightarrow> 'a klog_scheme option" where
  "write_log_loop h 0 tail s = Some s"
| "write_log_loop h (Suc k) tail s = do {
     (to, s) \<leftarrow> bread h (ldev s) (lstart s + of_nat tail + 1) s;
     if LOGSIZE \<le> tail then None
     else do {
       (from, s) \<leftarrow> bread h (ldev s) (lhblock s tail) s;
       let s = set_data to (bdata (bufs s from)) s;
       s \<leftarrow> bwrite h to s;
       s \<leftarrow> brelse h from s;
       s \<leftarrow> brelse h to s;
       write_log_loop h k (Suc tail) s
     }
   }"

definition write_log :: "nat \<Rightarrow> 'a klog_scheme \<Rightarrow> 'a klog_scheme option" where
  "write_log h s = write_log_loop h (nat (lhn s)) 0 s"

definition commit :: "nat \<Rightarrow> 'a klog_scheme \<Rightarrow> 'a klog_scheme option" where
  "commit h s =
     (if 0 < lhn s
      then do {
        s \<leftarrow> write_log h s;
        s \<leftarrow> write_head h s;
        s \<leftarrow> install_trans h False s;
        write_head h (s\<lparr>lhn := 0\<rparr>)
      }
      else Some s)"

definition end_op :: "nat \<Rightarrow> 'a klog_scheme \<Rightarrow> 'a klog_scheme option" where
  "end_op h s = do {
     s \<leftarrow> acquire h LogLock s;
     let s = s\<lparr>outstanding := outstanding s - 1\<rparr>;
     if committing s \<noteq> 0 then None
     else do {
       (do_commit, s) \<leftarrow> (if outstanding s = 0 then Some (True, s\<lparr>committing := 1\<rparr>)
         else do { s \<leftarrow> wakeup h ChLog s; Some (False, s) });
       s \<leftarrow> release h LogLock s;
       (if do_commit
        then do {
          s \<leftarrow> commit h s;
          s \<leftarrow> acquire h LogLock s;
          let s = s\<lparr>committing := 0\<rparr>;
          s \<leftarrow> wakeup h ChLog s;
          release h LogLock s
        }
        else Some s)
     }
   }"

fun log_write_find :: "(nat \<Rightarrow> uint) \<Rightarrow> uint \<Rightarrow> nat \<Rightarrow> nat \<Rightarrow> nat" where
  "log_write_find block n 0 i = i"
| "log_write_find block n (Suc k) i = (if block i = n then i else log_write_find block n k (Suc i))"

definition log_write :: "nat \<Rightarrow> nat \<Rightarrow> 'a klog_scheme \<Rightarrow> 'a klog_scheme option" where
  "log_write h b s = do {
     s \<leftarrow> acquire h LogLock s;
     if int LOGSIZE \<le> lhn s \<or> lsize s - 1 \<le> lhn s then None
     else if outstanding s < 1 then None
     else do {
       let i = log_write_find (lhblock s) (blockno (bufs s b)) (nat (lhn s)) 0;
       let s = s\<lparr>lhblock := (lhblock s)(i := blockno (bufs s b))\<rparr>;
       s \<leftarrow> (if int i = lhn s
             then do {
               s \<leftarrow> bpin h b s;
               Some (s\<lparr>lhn := lhn s + 1\<rparr>)
             }
             else Some s);
       release h LogLock s
     }
   }"

section \<open>Copying blocks through the cache\<close>

text \<open>A list of block writes, and its effect on a disk and on the abstract cache.\<close>

fun apply_writes :: "(uint \<times> bytes) list \<Rightarrow> (uint \<Rightarrow> bytes) \<Rightarrow> (uint \<Rightarrow> bytes)" where
  "apply_writes [] D = D"
| "apply_writes ((n, v) # ws) D = apply_writes ws (D(n := v))"

definition wrote :: "(uint \<times> bytes) list \<Rightarrow> cache \<Rightarrow> cache" where
  "wrote ws a = a\<lparr>cview := apply_writes ws (cview a), cdisk := apply_writes ws (cdisk a), chist := chist a @ ws\<rparr>"

lemma apply_writes_append: "apply_writes (ws @ vs) D = apply_writes vs (apply_writes ws D)"
  by (induction ws D rule: apply_writes.induct) (simp_all del: fun_upd_apply)

lemma apply_writes_other: "n \<notin> fst ` set ws \<Longrightarrow> apply_writes ws D n = D n"
  by (induction ws D rule: apply_writes.induct) auto

lemma apply_writes_cong: "n \<in> fst ` set ws \<or> D n = E n \<Longrightarrow> apply_writes ws D n = apply_writes ws E n"
proof (induction ws arbitrary: D E)
  case (Cons w ws)
  have "n \<in> fst ` set ws \<or> (D(fst w := snd w)) n = (E(fst w := snd w)) n" using Cons.prems by auto
  from Cons.IH [of "D(fst w := snd w)" "E(fst w := snd w)", OF this] show ?case by (cases w) (simp del: fun_upd_apply)
qed simp

lemma wrote_simps [simp]:
  "cview (wrote ws a) = apply_writes ws (cview a)" "cdisk (wrote ws a) = apply_writes ws (cdisk a)"
  "chist (wrote ws a) = chist a @ ws" "crefs (wrote ws a) = crefs a" "clocks (wrote ws a) = clocks a"
  by (simp_all add: wrote_def)

lemma wrote_append: "wrote (ws @ vs) a = wrote vs (wrote ws a)"
  by (simp add: wrote_def apply_writes_append)

lemma wrote_Nil [simp]: "wrote [] a = a"
  by (simp add: wrote_def)

lemma flushed_changed: "flushed n (changed n v a) = wrote [(n, v)] a"
  by (simp add: flushed_def changed_def wrote_def)

lemma one_less_word: "1 < x \<longleftrightarrow> x \<noteq> 0 \<and> x \<noteq> (1 :: uint)"
proof -
  have "unat x \<noteq> 0 \<longleftrightarrow> x \<noteq> 0" "unat x \<noteq> 1 \<longleftrightarrow> x \<noteq> 1" by (metis unat_0 unsigned_word_eqI, metis unat_1 unsigned_word_eqI)
  then show ?thesis unfolding word_less_nat_alt by simp linarith
qed

context block_cache
begin

text \<open>The process has a source and a destination block locked: it copies, writes and releases.\<close>

lemma copy_owned:
  assumes ok: "ok s" and b: "own s n b" and c: "own s m c" and ne: "n \<noteq> m"
    and src: "crefs (absc s) n = 1 \<Longrightarrow> cview (absc s) n = cdisk (absc s) n"
  shows "\<exists>t. wr c (put c (data b s) s) = Some t \<and> ok t \<and> frame s t \<and> own t n b \<and> own t m c \<and>
    absc t = wrote [(m, cview (absc s) n)] (absc s)"
proof -
  let ?v = "data b s"
  define p where "p = put c ?v s"
  have v: "?v = cview (absc s) n" "clocks (absc s) n = Some (me s)" "clocks (absc s) m = Some (me s)"
    using own_data [OF ok b] own_data [OF ok c] by auto
  have st: "step s p (changed m ?v (absc s))" unfolding p_def using put_law [OF ok c] .
  have okp: "ok p" "absc p = changed m ?v (absc s)" "frame s p" using step_result [OF st ok] by auto
  have ownp: "own p n b" "own p m c" using step_own [OF st ok b] step_own [OF st ok c] v by (simp_all add: changed_def)
  obtain t where t: "wr c p = Some t" "step p t (flushed m (absc p))" using wr_law [OF okp(1) ownp(2)] by blast
  have okt: "ok t" "absc t = flushed m (absc p)" "frame p t" using step_result [OF t(2) okp(1)] by auto
  have "own t n b" "own t m c"
    using step_own [OF t(2) okp(1) ownp(1)] step_own [OF t(2) okp(1) ownp(2)] v frame_me [OF okp(3)]
    by (simp_all add: okp(2) flushed_def changed_def)
  then show ?thesis
    using t(1) okt okp frame_trans [OF okp(3) okt(3)] v(1) by (auto simp: flushed_changed p_def)
qed

lemma release_two:
  assumes ok: "ok s" and b: "own s n b" and c: "own s m c" and ne: "n \<noteq> m"
    and cl: "crefs (absc s) n = 1 \<Longrightarrow> cview (absc s) n = cdisk (absc s) n"
      "crefs (absc s) m = 1 \<Longrightarrow> cview (absc s) m = cdisk (absc s) m"
  shows "\<exists>t u. rl b s = Some t \<and> rl c t = Some u \<and> ok u \<and> frame s u \<and> absc u = released m (released n (absc s))"
proof -
  obtain t where t: "rl b s = Some t" "step s t (released n (absc s))" using rl_law [OF ok b cl(1)] by blast
  have okt: "ok t" "absc t = released n (absc s)" "frame s t" using step_result [OF t(2) ok] by auto
  have ct: "own t m c" using step_own [OF t(2) ok c] own_data [OF ok c] ne by (simp add: released_def)
  have "crefs (absc t) m = 1 \<Longrightarrow> cview (absc t) m = cdisk (absc t) m" using cl(2) ne by (simp add: okt(2) released_def)
  from rl_law [OF okt(1) ct this] obtain u where u: "rl c t = Some u" "step t u (released m (absc t))" by blast
  then show ?thesis using t(1) okt step_result [OF u(2) okt(1)] frame_trans [OF okt(3)] by auto
qed

text \<open>Locking two blocks.\<close>

lemma read_two:
  assumes ok: "ok s" and n: "available (absc s) n" and m: "available (locked_by (me s) n (absc s)) m" and ne: "n \<noteq> m"
  shows "\<exists>b t c u. rd n s = Some (b, t) \<and> rd m t = Some (c, u) \<and> ok u \<and> own u n b \<and> own u m c \<and> frame s t \<and> frame s u \<and>
    absc u = locked_by (me s) m (locked_by (me s) n (absc s))"
proof -
  obtain b t where t: "rd n s = Some (b, t)" "own t n b" "step s t (locked_by (me s) n (absc s))"
    using rd_law [OF ok n] by blast
  have okt: "ok t" "absc t = locked_by (me s) n (absc s)" "frame s t" using step_result [OF t(3) ok] by auto
  have me: "me t = me s" using frame_me [OF okt(3)] .
  obtain c u where u: "rd m t = Some (c, u)" "own u m c" "step t u (locked_by (me t) m (absc t))"
    using rd_law [OF okt(1), of m] m by (auto simp: okt(2))
  have oku: "ok u" "absc u = locked_by (me t) m (absc t)" "frame t u" using step_result [OF u(3) okt(1)] by auto
  have "own u n b" using step_own [OF u(3) okt(1) t(2)] ne me by (simp add: okt(2) locked_by_def)
  then show ?thesis using t(1) u(1,2) okt oku me frame_trans [OF okt(3) oku(3)] by auto
qed

text \<open>
  The body of the loop of \<open>write_log\<close> (copy block \<open>m\<close> into the log block \<open>n\<close>) and of \<open>install_trans\<close> (the other way
  round, where the destination may have to be unpinned).
\<close>

lemma log_block:
  assumes ok: "ok s" and n: "available (absc s) n" and m: "available (locked_by (me s) n (absc s)) m" and ne: "n \<noteq> m"
  shows "\<exists>b s1 c s2 t u v. rd n s = Some (b, s1) \<and> rd m s1 = Some (c, s2) \<and> frame s s1 \<and> frame s s2 \<and>
    wr b (put b (data c s2) s2) = Some t \<and> rl c t = Some u \<and> rl b u = Some v \<and> ok v \<and> frame s v \<and>
    absc v = wrote [(n, cview (absc s) m)] (absc s)"
proof -
  let ?a = "locked_by (me s) m (locked_by (me s) n (absc s))"
  obtain b s1 c s2 where r: "rd n s = Some (b, s1)" "rd m s1 = Some (c, s2)" "ok s2" "own s2 n b" "own s2 m c"
    "frame s s1" "frame s s2" "absc s2 = ?a"
    using read_two [OF ok n m ne] by blast
  have cl: "crefs (absc s2) m = 1 \<Longrightarrow> cview (absc s2) m = cdisk (absc s2) m"
    using clean [OF ok, of m] ne by (simp add: r(8) locked_by_def)
  obtain t where t: "wr b (put b (data c s2) s2) = Some t" "ok t" "frame s2 t" "own t m c" "own t n b"
    "absc t = wrote [(n, cview (absc s2) m)] (absc s2)"
    using copy_owned [OF r(3,5,4) ne [symmetric] cl] by auto
  have "crefs (absc t) m = 1 \<Longrightarrow> cview (absc t) m = cdisk (absc t) m" "cview (absc t) n = cdisk (absc t) n"
    using cl ne by (simp_all add: t(6))
  then obtain u v where u: "rl c t = Some u" "rl b u = Some v" "ok v" "frame t v" "absc v = released n (released m (absc t))"
    using release_two [OF t(2,4,5)] ne by auto
  have "released n (released m (absc t)) = wrote [(n, cview (absc s) m)] (absc s)"
    using n m ne by (simp add: t(6) r(8) cache_ops wrote_def available_def fun_upd_idem fun_upd_twist)
  then show ?thesis using r t u frame_trans by (metis (no_types, lifting))
qed

lemma install_block:
  assumes ok: "ok s" and n: "available (absc s) n" and m: "available (locked_by (me s) n (absc s)) m" and ne: "n \<noteq> m"
  shows "\<exists>b s1 c s2 t u v. rd n s = Some (b, s1) \<and> rd m s1 = Some (c, s2) \<and> frame s s1 \<and> frame s s2 \<and>
    wr c (put c (data b s2) s2) = Some t \<and> rl b t = Some u \<and> rl c u = Some v \<and> ok v \<and> frame s v \<and>
    absc v = wrote [(m, cview (absc s) n)] (absc s)"
    "crefs (absc s) m \<noteq> 0 \<Longrightarrow> \<exists>b s1 c s2 t t' u v. rd n s = Some (b, s1) \<and> rd m s1 = Some (c, s2) \<and> frame s s1 \<and> frame s s2 \<and>
    wr c (put c (data b s2) s2) = Some t \<and> un c t = Some t' \<and> rl b t' = Some u \<and> rl c u = Some v \<and> ok v \<and> frame s v \<and>
    absc v = unpinned m (wrote [(m, cview (absc s) n)] (absc s))"
proof -
  let ?a = "locked_by (me s) m (locked_by (me s) n (absc s))"
  obtain b s1 c s2 where r: "rd n s = Some (b, s1)" "rd m s1 = Some (c, s2)" "ok s2" "own s2 n b" "own s2 m c"
    "frame s s1" "frame s s2" "absc s2 = ?a"
    using read_two [OF ok n m ne] by blast
  have cl: "crefs (absc s2) n = 1 \<Longrightarrow> cview (absc s2) n = cdisk (absc s2) n"
    using clean [OF ok, of n] ne by (simp add: r(8) locked_by_def)
  obtain t where t: "wr c (put c (data b s2) s2) = Some t" "ok t" "frame s2 t" "own t n b" "own t m c"
    "absc t = wrote [(m, cview (absc s2) n)] (absc s2)"
    using copy_owned [OF r(3,4,5) ne cl] by auto
  have cl': "crefs (absc t) n = 1 \<Longrightarrow> cview (absc t) n = cdisk (absc t) n" "cview (absc t) m = cdisk (absc t) m"
    using cl ne by (simp_all add: t(6))
  then obtain u v where u: "rl b t = Some u" "rl c u = Some v" "ok v" "frame t v" "absc v = released m (released n (absc t))"
    using release_two [OF t(2,4,5)] ne by auto
  have "released m (released n (absc t)) = wrote [(m, cview (absc s) n)] (absc s)"
    using n m ne by (simp add: t(6) r(8) cache_ops wrote_def available_def fun_upd_idem fun_upd_twist)
  then show "\<exists>b s1 c s2 t u v. rd n s = Some (b, s1) \<and> rd m s1 = Some (c, s2) \<and> frame s s1 \<and> frame s s2 \<and>
    wr c (put c (data b s2) s2) = Some t \<and> rl b t = Some u \<and> rl c u = Some v \<and> ok v \<and> frame s v \<and>
    absc v = wrote [(m, cview (absc s) n)] (absc s)"
    using r t u frame_trans by (metis (no_types, lifting))
  assume pin: "crefs (absc s) m \<noteq> 0"
  have "1 < crefs (absc t) m" using pin m ne by (simp add: t(6) r(8) locked_by_def available_def one_less_word)
  then obtain t' where t': "un c t = Some t'" "step t t' (unpinned m (absc t))" using un_law [OF t(2,5)] by blast
  have okt': "ok t'" "absc t' = unpinned m (absc t)" "frame t t'" using step_result [OF t'(2) t(2)] by auto
  show "\<exists>b s1 c s2 t t' u v. rd n s = Some (b, s1) \<and> rd m s1 = Some (c, s2) \<and> frame s s1 \<and> frame s s2 \<and>
    wr c (put c (data b s2) s2) = Some t \<and> un c t = Some t' \<and> rl b t' = Some u \<and> rl c u = Some v \<and> ok v \<and> frame s v \<and>
    absc v = unpinned m (wrote [(m, cview (absc s) n)] (absc s))"
  proof -
    have own': "own t' n b" "own t' m c"
      using step_own [OF t'(2) t(2,4)] step_own [OF t'(2) t(2,5)] own_data [OF t(2,4)] own_data [OF t(2,5)]
      by (simp_all add: unpinned_def)
    obtain u v where u: "rl b t' = Some u" "rl c u = Some v" "ok v" "frame t' v" "absc v = released m (released n (absc t'))"
      using release_two [OF okt'(1) own'] cl' ne by (auto simp: okt'(2) unpinned_def)
    have "released m (released n (absc t')) = unpinned m (wrote [(m, cview (absc s) n)] (absc s))"
      using n m ne by (simp add: okt'(2) t(6) r(8) cache_ops wrote_def available_def fun_upd_idem fun_upd_twist)
    moreover have "frame s v" using r(7) t(3) okt'(3) u(4) by (blast intro: frame_trans)
    ultimately show ?thesis using r t(1) t'(1) u by metis
  qed
qed

end

section \<open>The loops\<close>

text \<open>The cache between two blocks of a loop: nothing is locked, and a block is referenced at most once, by its pin.\<close>

definition calm :: "cache \<Rightarrow> bool" where
  "calm a \<longleftrightarrow> (\<forall>n. clocks a n = None) \<and> (\<forall>n. crefs a n = 0 \<or> crefs a n = 1) \<and> card {n. crefs a n \<noteq> 0} < NBUF"

definition logblk :: "uint \<Rightarrow> nat \<Rightarrow> uint" where
  "logblk st i = st + of_nat i + 1"

lemma calm_wrote [simp]: "calm (wrote ws a) = calm a"
  by (simp add: calm_def)

lemma calm_available:
  assumes "calm a"
  shows "available a n"
proof -
  have "crefs a n = 0 \<or> crefs a n = 1" using assms by (simp add: calm_def)
  then have "crefs a n + 1 \<noteq> 0" by auto
  then show ?thesis using assms by (simp add: calm_def available_def)
qed

lemma calm_two:
  assumes "calm a" "n \<noteq> m" "crefs a m \<noteq> 0 \<or> card {n. crefs a n \<noteq> 0} + 1 < NBUF"
  shows "available a n" "available (locked_by p n a) m"
proof -
  show "available a n" using assms(1) by (rule calm_available)
  have r: "crefs a n = 0 \<or> crefs a n = 1" "crefs a m = 0 \<or> crefs a m = 1" using assms(1) by (auto simp: calm_def)
  then have p1: "crefs a m + 1 \<noteq> 0" by auto
  have "{i. ((crefs a)(n := crefs a n + 1)) i \<noteq> 0} \<subseteq> insert n {i. crefs a i \<noteq> 0}" by auto
  then have "card {i. ((crefs a)(n := crefs a n + 1)) i \<noteq> 0} \<le> card (insert n {i. crefs a i \<noteq> 0})"
    by (intro card_mono) auto
  also have "\<dots> \<le> card {i. crefs a i \<noteq> 0} + 1" by (simp add: card_insert_if)
  finally show "available (locked_by p n a) m"
    using assms p1 unfolding available_def locked_by_def calm_def by (auto simp del: fun_upd_apply) (auto simp: fun_upd_other)
qed

lemma bio_frame_klog:
  fixes s :: "'a klog_scheme"
  assumes "bio_frame s t"
  shows "lstart t = lstart s" "lsize t = lsize s" "outstanding t = outstanding s" "committing t = committing s"
    "ldev t = ldev s" "lhn t = lhn s" "lhblock t = lhblock s"
  using assms by (auto simp: bio_frame_def)

lemma write_log_loop_spec:
  fixes s :: "'a klog_scheme"
  assumes "quiet h s" "cache_ok d s" "ldev s = d" "calm (abs_cache d s)" "tail + k \<le> LOGSIZE"
    and "\<forall>i\<in>{tail..<tail + k}. crefs (abs_cache d s) (logblk (lstart s) i) = 0"
    and "\<forall>i\<in>{tail..<tail + k}. crefs (abs_cache d s) (lhblock s i) \<noteq> 0"
  shows "\<exists>t. write_log_loop h k tail s = Some t \<and> quiet h t \<and> cache_ok d t \<and> quiet_step h s t \<and> bio_frame s t \<and>
    abs_cache d t = wrote (map (\<lambda>i. (logblk (lstart s) i, cview (abs_cache d s) (lhblock s i))) [tail..<tail + k]) (abs_cache d s)"
  using assms
proof (induction k arbitrary: tail s)
  case (Suc k)
  let ?a = "abs_cache d s" and ?n = "logblk (lstart s) tail" and ?m = "lhblock s tail"
  have r: "crefs ?a ?n = 0" "crefs ?a ?m \<noteq> 0" using Suc.prems(6,7) by auto
  then have ne: "?n \<noteq> ?m" by auto
  have ok: "quiet h s \<and> cache_ok d s" using Suc.prems by simp
  have av: "available ?a ?n" "available (locked_by (me_pid h s) ?n ?a) ?m"
    using calm_two [OF Suc.prems(4) ne] r by auto
  obtain b s1 c s2 t u v where run: "bread h d ?n s = Some (b, s1)" "bread h d ?m s1 = Some (c, s2)"
    "bio_frame s s1" "bio_frame s s2" "bwrite h b (set_data b (bdata (bufs s2 c)) s2) = Some t"
    "brelse h c t = Some u" "brelse h b u = Some v"
    and v: "quiet h v" "cache_ok d v" "quiet_step h s v" "bio_frame s v" "abs_cache d v = wrote [(?n, cview ?a ?m)] ?a"
    using bcache.log_block [OF ok av ne] by blast
  note f1 = bio_frame_klog [OF run(3)] and f2 = bio_frame_klog [OF run(4)] and fv = bio_frame_klog [OF v(4)]
  have go: "write_log_loop h (Suc k) tail s = write_log_loop h k (Suc tail) v"
    using run Suc.prems(3,5) f1 f2 by (simp add: logblk_def)
  have later: "lhblock s i \<noteq> ?n" if "i \<in> {Suc tail..<Suc tail + k}" for i
    using bspec [OF Suc.prems(7), of i] r(1) that by auto
  have "\<exists>t. write_log_loop h k (Suc tail) v = Some t \<and> quiet h t \<and> cache_ok d t \<and> quiet_step h v t \<and> bio_frame v t \<and>
    abs_cache d t = wrote (map (\<lambda>i. (logblk (lstart v) i, cview (abs_cache d v) (lhblock v i))) [Suc tail..<Suc tail + k]) (abs_cache d v)"
    by (rule Suc.IH) (use v Suc.prems fv in auto)
  then obtain t' where t': "write_log_loop h k (Suc tail) v = Some t'" "quiet h t'" "cache_ok d t'" "quiet_step h v t'"
    "bio_frame v t'" "abs_cache d t' = wrote (map (\<lambda>i. (logblk (lstart v) i, cview (abs_cache d v) (lhblock v i))) [Suc tail..<Suc tail + k]) (abs_cache d v)"
    by blast
  have eq: "map (\<lambda>i. (logblk (lstart v) i, cview (abs_cache d v) (lhblock v i))) [Suc tail..<Suc tail + k] =
    map (\<lambda>i. (logblk (lstart s) i, cview ?a (lhblock s i))) [Suc tail..<Suc tail + k]"
    using later by (auto simp: fv v(5))
  have "abs_cache d t' = wrote (map (\<lambda>i. (logblk (lstart s) i, cview ?a (lhblock s i))) [tail..<tail + Suc k]) ?a"
    unfolding t'(6) eq unfolding v(5) wrote_append [symmetric] by (simp add: upt_conv_Cons del: upt_Suc)
  then show ?case using go t' quiet_step_trans [OF v(3) t'(4)] bio_frame_trans [OF v(4) t'(5)] by auto
qed simp

text \<open>Unpinning a set of blocks.\<close>

definition unpin_set :: "uint set \<Rightarrow> cache \<Rightarrow> cache" where
  "unpin_set S a = a\<lparr>crefs := (\<lambda>n. if n \<in> S then crefs a n - 1 else crefs a n)\<rparr>"

lemma unpin_set_simps [simp]:
  "cview (unpin_set S a) = cview a" "cdisk (unpin_set S a) = cdisk a" "chist (unpin_set S a) = chist a"
  "clocks (unpin_set S a) = clocks a" "crefs (unpin_set S a) n = (if n \<in> S then crefs a n - 1 else crefs a n)"
  by (simp_all add: unpin_set_def)

lemma unpin_set_empty [simp]: "unpin_set {} a = a"
  by (simp add: unpin_set_def)

lemma calm_unpin:
  assumes "calm a" "\<forall>n\<in>S. crefs a n \<noteq> 0"
  shows "calm (unpin_set S a)"
    "card {n. crefs (unpin_set S a) n \<noteq> 0} \<le> card {n. crefs a n \<noteq> 0}"
proof -
  have "crefs a n = 1" if "n \<in> S" for n using assms that by (auto simp: calm_def)
  then have r: "crefs (unpin_set S a) n = (if n \<in> S then 0 else crefs a n)" for n by simp
  then show le: "card {n. crefs (unpin_set S a) n \<noteq> 0} \<le> card {n. crefs a n \<noteq> 0}"
    by (intro card_mono) auto
  show "calm (unpin_set S a)" using assms(1) le r unfolding calm_def by auto
qed

lemma install_trans_loop_spec:
  fixes s :: "'a klog_scheme"
  assumes "quiet h s" "cache_ok d s" "ldev s = d" "calm (abs_cache d s)" "tail + k \<le> LOGSIZE"
    and "\<forall>i\<in>{tail..<tail + k}. \<forall>j\<in>{tail..<tail + k}. lhblock s i \<noteq> logblk (lstart s) j"
    and "if recovering then card {n. crefs (abs_cache d s) n \<noteq> 0} + 1 < NBUF
      else (\<forall>i\<in>{tail..<tail + k}. crefs (abs_cache d s) (lhblock s i) \<noteq> 0) \<and> inj_on (lhblock s) {tail..<tail + k}"
  shows "\<exists>t. install_trans_loop h recovering k tail s = Some t \<and> quiet h t \<and> cache_ok d t \<and> quiet_step h s t \<and> bio_frame s t \<and>
    abs_cache d t = unpin_set (if recovering then {} else lhblock s ` {tail..<tail + k})
      (wrote (map (\<lambda>i. (lhblock s i, cview (abs_cache d s) (logblk (lstart s) i))) [tail..<tail + k]) (abs_cache d s))"
  using assms
proof (induction k arbitrary: tail s)
  case (Suc k)
  let ?a = "abs_cache d s" and ?n = "logblk (lstart s) tail" and ?m = "lhblock s tail"
  let ?I = "{Suc tail..<Suc tail + k}"
  have rng: "{tail..<tail + Suc k} = insert tail ?I" by auto
  note P6 = Suc.prems(6) [unfolded rng] and P7 = Suc.prems(7) [unfolded rng]
  have ne: "?n \<noteq> ?m" using P6 by auto
  have ok: "quiet h s \<and> cache_ok d s" using Suc.prems by simp
  have av: "available ?a ?n" "available (locked_by (me_pid h s) ?n ?a) ?m"
    using calm_two [OF Suc.prems(4) ne] Suc.prems(7) by (auto split: if_splits)
  let ?w = "[(?m, cview ?a ?n)]" and ?S = "if recovering then {} else {?m}"
  have "\<exists>v. install_trans_loop h recovering (Suc k) tail s = install_trans_loop h recovering k (Suc tail) v \<and>
    quiet h v \<and> cache_ok d v \<and> quiet_step h s v \<and> bio_frame s v \<and> abs_cache d v = unpin_set ?S (wrote ?w ?a)"
  proof (cases recovering)
    case True
    obtain b s1 c s2 t u v where run: "bread h d ?n s = Some (b, s1)" "bread h d ?m s1 = Some (c, s2)"
      "bio_frame s s1" "bio_frame s s2" "bwrite h c (set_data c (bdata (bufs s2 b)) s2) = Some t"
      "brelse h b t = Some u" "brelse h c u = Some v"
      and v: "quiet h v" "cache_ok d v" "quiet_step h s v" "bio_frame s v" "abs_cache d v = wrote ?w ?a"
      using bcache.install_block(1) [OF ok av ne] by blast
    have "install_trans_loop h recovering (Suc k) tail s = install_trans_loop h recovering k (Suc tail) v"
      using run Suc.prems(3,5) bio_frame_klog [OF run(3)] bio_frame_klog [OF run(4)] True by (simp add: logblk_def)
    then show ?thesis using v True by auto
  next
    case False
    then have pin: "crefs ?a ?m \<noteq> 0" using Suc.prems(7) by auto
    obtain b s1 c s2 t t' u v where run: "bread h d ?n s = Some (b, s1)" "bread h d ?m s1 = Some (c, s2)"
      "bio_frame s s1" "bio_frame s s2" "bwrite h c (set_data c (bdata (bufs s2 b)) s2) = Some t"
      "bunpin h c t = Some t'" "brelse h b t' = Some u" "brelse h c u = Some v"
      and v: "quiet h v" "cache_ok d v" "quiet_step h s v" "bio_frame s v" "abs_cache d v = unpinned ?m (wrote ?w ?a)"
      using bcache.install_block(2) [OF ok av ne pin] by blast
    have "install_trans_loop h recovering (Suc k) tail s = install_trans_loop h recovering k (Suc tail) v"
      using run Suc.prems(3,5) bio_frame_klog [OF run(3)] bio_frame_klog [OF run(4)] False by (simp add: logblk_def)
    moreover have "unpinned ?m (wrote ?w ?a) = unpin_set {?m} (wrote ?w ?a)"
      by (rule cache.equality) (auto simp: unpinned_def)
    ultimately show ?thesis using v False by auto
  qed
  then obtain v where go: "install_trans_loop h recovering (Suc k) tail s = install_trans_loop h recovering k (Suc tail) v"
    and v: "quiet h v" "cache_ok d v" "quiet_step h s v" "bio_frame s v" "abs_cache d v = unpin_set ?S (wrote ?w ?a)"
    by blast
  note fv = bio_frame_klog [OF v(4)]
  have pinS: "\<forall>n\<in>?S. crefs (wrote ?w ?a) n \<noteq> 0" using Suc.prems(7) by auto
  note cl = calm_unpin [of "wrote ?w ?a", OF _ pinS]
  have inj: "recovering \<or> (\<forall>i\<in>?I. lhblock s i \<noteq> ?m)" using P7 by (auto simp: inj_on_def split: if_splits)
  have "\<exists>t. install_trans_loop h recovering k (Suc tail) v = Some t \<and> quiet h t \<and> cache_ok d t \<and> quiet_step h v t \<and> bio_frame v t \<and>
    abs_cache d t = unpin_set (if recovering then {} else lhblock v ` ?I)
      (wrote (map (\<lambda>i. (lhblock v i, cview (abs_cache d v) (logblk (lstart v) i))) [Suc tail..<Suc tail + k]) (abs_cache d v))"
  proof (rule Suc.IH)
    show "calm (abs_cache d v)" using cl(1) Suc.prems(4) by (simp add: v(5))
    show "if recovering then card {n. crefs (abs_cache d v) n \<noteq> 0} + 1 < NBUF
      else (\<forall>i\<in>?I. crefs (abs_cache d v) (lhblock v i) \<noteq> 0) \<and> inj_on (lhblock v) ?I"
    proof (cases recovering)
      case True
      then show ?thesis using P7 by (simp add: v(5))
    next
      case False
      then have "\<forall>i\<in>?I. lhblock s i \<noteq> ?m" "\<forall>i\<in>?I. crefs ?a (lhblock s i) \<noteq> 0" "inj_on (lhblock s) ?I"
        using inj P7 by (auto simp: inj_on_def)
      then show ?thesis using False by (simp add: v(5) fv)
    qed
  qed (use v Suc.prems fv in auto)
  then obtain t' where t': "install_trans_loop h recovering k (Suc tail) v = Some t'" "quiet h t'" "cache_ok d t'" "quiet_step h v t'"
    "bio_frame v t'" "abs_cache d t' = unpin_set (if recovering then {} else lhblock v ` ?I)
      (wrote (map (\<lambda>i. (lhblock v i, cview (abs_cache d v) (logblk (lstart v) i))) [Suc tail..<Suc tail + k]) (abs_cache d v))"
    by blast
  have eq: "map (\<lambda>i. (lhblock v i, cview (abs_cache d v) (logblk (lstart v) i))) [Suc tail..<Suc tail + k] =
    map (\<lambda>i. (lhblock s i, cview ?a (logblk (lstart s) i))) [Suc tail..<Suc tail + k]"
  proof -
    have "logblk (lstart s) i \<noteq> ?m" if "i \<in> ?I" for i using P6 that by force
    then show ?thesis by (auto simp: fv v(5) simp del: upt_Suc)
  qed
  have "abs_cache d t' = unpin_set (if recovering then {} else lhblock s ` {tail..<tail + Suc k})
     (wrote (map (\<lambda>i. (lhblock s i, cview ?a (logblk (lstart s) i))) [tail..<tail + Suc k]) ?a)"
    unfolding t'(6) eq unfolding v(5) fv rng using inj
    by (intro cache.equality ext) (auto simp: upt_conv_Cons simp del: upt_Suc)
  then show ?case using go t' quiet_step_trans [OF v(3) t'(4)] bio_frame_trans [OF v(4) t'(5)] by auto
qed simp

section \<open>The header block\<close>

definition hdr_put :: "int \<Rightarrow> (nat \<Rightarrow> uint) \<Rightarrow> bytes \<Rightarrow> bytes" where
  "hdr_put n block xs = fold (\<lambda>i. put32 (4 + 4 * i) (block i)) [0..<nat n] (put32 0 (word_of_int n) xs)"

lemma write_head_loop_eq:
  "i + k \<le> LOGSIZE \<Longrightarrow> write_head_loop block k i hb = Some (fold (\<lambda>i. put32 (4 + 4 * i) (block i)) [i..<i + k] hb)"
  by (induction k arbitrary: i hb) (auto simp: upt_conv_Cons simp del: upt_Suc)

lemma put_blocks:
  assumes "length hb = BSIZE" "k \<le> LOGSIZE"
  shows "length (fold (\<lambda>i. put32 (4 + 4 * i) (block i)) [0..<k] hb) = BSIZE \<and>
    get32 0 (fold (\<lambda>i. put32 (4 + 4 * i) (block i)) [0..<k] hb) = get32 0 hb \<and>
    (\<forall>i<k. get32 (4 + 4 * i) (fold (\<lambda>i. put32 (4 + 4 * i) (block i)) [0..<k] hb) = block i)"
  using assms(2)
proof (induction k)
  case (Suc k)
  let ?x = "fold (\<lambda>i. put32 (4 + 4 * i) (block i)) [0..<k] hb"
  have IH: "length ?x = BSIZE" "get32 0 ?x = get32 0 hb" "\<forall>i<k. get32 (4 + 4 * i) ?x = block i" and k: "4 + 4 * k + 4 \<le> BSIZE"
    using Suc by (auto simp: BSIZE_def LOGSIZE_def MAXOPBLOCKS_def)
  have "get32 (4 + 4 * i) (put32 (4 + 4 * k) (block k) ?x) = block i" if "i < Suc k" for i
  proof (cases "i = k")
    case True
    then show ?thesis using IH(1) k by simp
  next
    case False
    then have "get32 (4 + 4 * i) (put32 (4 + 4 * k) (block k) ?x) = get32 (4 + 4 * i) ?x"
      using that IH(1) k by (intro get_put_other) auto
    then show ?thesis using IH(3) that False by simp
  qed
  then show ?case using IH k by (simp add: get_put_other)
qed (use assms(1) in simp)

lemma hdr_put_fields:
  assumes "length xs = BSIZE" "0 \<le> n" "n \<le> int LOGSIZE"
  shows "length (hdr_put n block xs) = BSIZE" "hdr_n (hdr_put n block xs) = n"
    "\<And>i. i < nat n \<Longrightarrow> hdr_block (hdr_put n block xs) i = block i"
proof -
  have n: "nat n \<le> LOGSIZE" "n < 2 ^ 31" using assms by (auto simp: LOGSIZE_def MAXOPBLOCKS_def)
  have b: "0 + 4 \<le> length xs" using assms(1) by (simp add: BSIZE_def)
  note p = put_blocks [of "put32 0 (word_of_int n) xs", OF _ n(1), of block]
  have "sint (word_of_int n :: uint) = n" using n(2) assms(2) by (simp add: signed_of_int signed_take_bit_int_eq_self)
  then show "length (hdr_put n block xs) = BSIZE" "hdr_n (hdr_put n block xs) = n"
    "\<And>i. i < nat n \<Longrightarrow> hdr_block (hdr_put n block xs) i = block i"
    using p b assms(1) by (simp_all add: hdr_put_def hdr_n_def hdr_block_def)
qed

lemma write_head_spec:
  fixes s :: "'a klog_scheme"
  assumes "quiet h s" "cache_ok d s" "ldev s = d" "calm (abs_cache d s)" "lhn s \<le> int LOGSIZE"
  shows "\<exists>t. write_head h s = Some t \<and> quiet h t \<and> cache_ok d t \<and> quiet_step h s t \<and> bio_frame s t \<and>
    abs_cache d t = wrote [(lstart s, hdr_put (lhn s) (lhblock s) (cview (abs_cache d s) (lstart s)))] (abs_cache d s)"
proof -
  let ?x = "hdr_put (lhn s) (lhblock s) (cview (abs_cache d s) (lstart s))"
  obtain b t u v where r: "bread h d (lstart s) s = Some (b, t)" "bdata (bufs t b) = cview (abs_cache d s) (lstart s)"
    "bwrite h b (set_data b ?x t) = Some u" "brelse h b u = Some v"
    and v: "quiet h v" "cache_ok d v" "abs_cache d v = flushed (lstart s) (changed (lstart s) ?x (abs_cache d s))"
    "quiet_step h s v" "bio_frame s v"
    using bcache.write_block [of h s d "lstart s" ?x] assms(1,2) calm_available [OF assms(4)] by blast
  have "\<exists>b' t'. bread h d (lstart s) s = Some (b', t') \<and> bio_frame s t'"
    using bcache.read_block [of h s d "lstart s"] assms(1,2) calm_available [OF assms(4)] by (auto simp: cache_step_def)
  then have f: "lhn t = lhn s" "lhblock t = lhblock s" using r(1) by (auto simp: bio_frame_klog)
  have "nat (lhn s) \<le> LOGSIZE" using assms(5) by simp
  then have "write_head h s = Some v"
    using r assms(3) write_head_loop_eq [of 0 "nat (lhn s)"] by (simp add: write_head_def f hdr_put_def)
  then show ?thesis using v by (simp add: flushed_changed)
qed

lemma read_head_loop_eq:
  "i + k \<le> LOGSIZE \<Longrightarrow> read_head_loop lh k i s = Some (s\<lparr>lhblock := (\<lambda>j. if i \<le> j \<and> j < i + k then hdr_block lh j else lhblock s j)\<rparr>)"
proof (induction k arbitrary: i s)
  case (Suc k)
  have "read_head_loop lh (Suc k) i s = read_head_loop lh k (Suc i) (s\<lparr>lhblock := (lhblock s)(i := hdr_block lh i)\<rparr>)"
    using Suc.prems by simp
  also have "\<dots> = Some (s\<lparr>lhblock := (\<lambda>j. if Suc i \<le> j \<and> j < Suc i + k then hdr_block lh j else ((lhblock s)(i := hdr_block lh i)) j)\<rparr>)"
    using Suc.prems by (simp add: Suc.IH cong: if_cong)
  also have "(\<lambda>j. if Suc i \<le> j \<and> j < Suc i + k then hdr_block lh j else ((lhblock s)(i := hdr_block lh i)) j) =
    (\<lambda>j. if i \<le> j \<and> j < i + Suc k then hdr_block lh j else lhblock s j)" by (auto simp: fun_eq_iff)
  finally show ?case .
next
  case 0
  have "(\<lambda>j. if i \<le> j \<and> j < i + 0 then hdr_block lh j else lhblock s j) = lhblock s"
    by (rule ext) auto
  then show ?case by simp
qed

end
