(* ===== verification/Crash.thy ===== *)
theory Crash
  imports Log
begin

text \<open>
  Crash safety of the log: what recovery makes of the disk that a crash leaves behind, at whatever moment of a commit, or of
  an earlier recovery, the crash happens.
\<close>

section \<open>Recovery and commit\<close>

text \<open>What the operations of the log leave alone: everything but the cache and the log.\<close>

definition klog_frame :: "'a klog_scheme \<Rightarrow> 'a klog_scheme \<Rightarrow> bool" where
  "klog_frame s t \<longleftrightarrow> t = s\<lparr>cpus := cpus t, procs := procs t, slocks := slocks t, bufs := bufs t, disk := disk t,
     history := history t, lstart := lstart t, lsize := lsize t, outstanding := outstanding t, committing := committing t,
     ldev := ldev t, lhn := lhn t, lhblock := lhblock t\<rparr>"

lemma klog_frame_bio: "bio_frame s t \<Longrightarrow> klog_frame s t"
  by (auto simp: bio_frame_def klog_frame_def)

lemma klog_frame_refl [simp]: "klog_frame s s"
  by (simp add: klog_frame_def)

lemma klog_frame_trans:
  assumes "klog_frame s t" "klog_frame t u"
  shows "klog_frame s u"
proof -
  obtain c p k b D w st sz os cm dv n bl where t: "t = s\<lparr>cpus := c, procs := p, slocks := k, bufs := b, disk := D,
     history := w, lstart := st, lsize := sz, outstanding := os, committing := cm, ldev := dv, lhn := n, lhblock := bl\<rparr>"
    using assms(1) unfolding klog_frame_def by blast
  show ?thesis unfolding klog_frame_def by (subst assms(2) [unfolded klog_frame_def]) (simp add: t)
qed

lemma klog_frame_upd:
  "klog_frame s (s\<lparr>lhn := n\<rparr>)" "klog_frame s (s\<lparr>lhblock := bl\<rparr>)" "klog_frame s (s\<lparr>outstanding := os\<rparr>)"
  "klog_frame s (s\<lparr>committing := cm\<rparr>)" "klog_frame s (s\<lparr>lstart := start\<rparr>)" "klog_frame s (s\<lparr>lsize := ls\<rparr>)"
  "klog_frame s (s\<lparr>ldev := dv\<rparr>)"
  by (simp_all add: klog_frame_def)

lemma abs_cache_cong:
  "bufs t = bufs s \<Longrightarrow> slocks t = slocks s \<Longrightarrow> disk t = disk s \<Longrightarrow> history t = history s \<Longrightarrow>
   abs_cache d t = abs_cache d s"
  "bufs t = bufs s \<Longrightarrow> slocks t = slocks s \<Longrightarrow> disk t = disk s \<Longrightarrow> cache_ok d t = cache_ok d s"
  by (simp_all add: abs_cache_def cache_ok_def cong: option.case_cong if_cong)

lemma klog_upd_simps [simp]:
  "quiet h (s\<lparr>lhn := n\<rparr>) = quiet h s" "quiet h (s\<lparr>lhblock := bl\<rparr>) = quiet h s"
  "cache_ok d (s\<lparr>lhn := n\<rparr>) = cache_ok d s" "cache_ok d (s\<lparr>lhblock := bl\<rparr>) = cache_ok d s"
  "abs_cache d (s\<lparr>lhn := n\<rparr>) = abs_cache d s" "abs_cache d (s\<lparr>lhblock := bl\<rparr>) = abs_cache d s"
  "quiet h (s\<lparr>outstanding := os\<rparr>) = quiet h s" "quiet h (s\<lparr>committing := cm\<rparr>) = quiet h s"
  "cache_ok d (s\<lparr>outstanding := os\<rparr>) = cache_ok d s" "cache_ok d (s\<lparr>committing := cm\<rparr>) = cache_ok d s"
  "abs_cache d (s\<lparr>outstanding := os\<rparr>) = abs_cache d s" "abs_cache d (s\<lparr>committing := cm\<rparr>) = abs_cache d s"
  by (simp_all add: quiet_def lock_free_def abs_cache_cong [of "s\<lparr>lhn := n\<rparr>" s] abs_cache_cong [of "s\<lparr>lhblock := bl\<rparr>" s]
      abs_cache_cong [of "s\<lparr>outstanding := os\<rparr>" s] abs_cache_cong [of "s\<lparr>committing := cm\<rparr>" s])

lemma quiet_step_klog:
  "quiet_step h s (t\<lparr>lhn := n\<rparr>) = quiet_step h s t" "quiet_step h s (t\<lparr>lhblock := bl\<rparr>) = quiet_step h s t"
  "quiet_step h (t\<lparr>lhn := n\<rparr>) s = quiet_step h t s" "quiet_step h (t\<lparr>lhblock := bl\<rparr>) s = quiet_step h t s"
  by (simp_all add: quiet_step_def)

lemma read_head_spec:
  fixes s :: "'a klog_scheme"
  assumes "quiet h s" "cache_ok d s" "ldev s = d" "calm (abs_cache d s)"
    and n: "hdr_n (cview (abs_cache d s) (lstart s)) \<le> int LOGSIZE"
  shows "\<exists>t. read_head h s = Some t \<and> quiet h t \<and> cache_ok d t \<and> quiet_step h s t \<and> klog_frame s t \<and> abs_cache d t = abs_cache d s \<and>
    lstart t = lstart s \<and> lsize t = lsize s \<and> ldev t = d \<and> outstanding t = outstanding s \<and> committing t = committing s \<and>
    lhn t = hdr_n (cview (abs_cache d s) (lstart s)) \<and>
    (\<forall>j<nat (lhn t). lhblock t j = hdr_block (cview (abs_cache d s) (lstart s)) j)"
proof -
  let ?x = "cview (abs_cache d s) (lstart s)" and ?n = "lstart s"
  let ?f = "\<lambda>s :: 'a klog_scheme. s\<lparr>lhn := hdr_n ?x, lhblock := (\<lambda>j. if j < nat (hdr_n ?x) then hdr_block ?x j else lhblock s j)\<rparr>"
  obtain b t where r: "bread h d ?n s = Some (b, t)" "bdata (bufs t b) = ?x" "mine h d t ?n b"
    "quiet h t" "cache_ok d t" "quiet_step h s t" "bio_frame s t" "abs_cache d t = locked_by (me_pid h s) ?n (abs_cache d s)"
    using bcache.read_block [of h s d ?n] assms(1,2) calm_available [OF assms(4)] by (auto simp: cache_step_def)
  have ft: "quiet h (?f t)" "cache_ok d (?f t)" "mine h d (?f t) ?n b" "abs_cache d (?f t) = abs_cache d t"
    using r by (simp_all add: mine_def me_pid_def)
  have "crefs (abs_cache d (?f t)) ?n = 1 \<Longrightarrow> cview (abs_cache d (?f t)) ?n = cdisk (abs_cache d (?f t)) ?n"
    using clean_abs [OF assms(2), of ?n] by (simp add: r(8) locked_by_def)
  with bcache.rl_law [of h "?f t" d ?n b] ft(1-3) obtain u
    where u: "brelse h b (?f t) = Some u" "cache_step h d (?f t) u (released ?n (abs_cache d (?f t)))" by blast
  have same: "released ?n (abs_cache d (?f t)) = abs_cache d s"
    using calm_available [OF assms(4), of ?n] by (simp add: r(8) released_def locked_by_def available_def fun_upd_idem)
  have fu: "bio_frame (?f t) u" "quiet_step h t u" "quiet h u" "cache_ok d u" "abs_cache d u = abs_cache d s"
    using u(2) same quiet_step_quiet [of h "?f t" u] ft(1) by (simp_all add: cache_step_def quiet_step_klog)
  have "read_head_loop ?x (nat (hdr_n ?x)) 0 (t\<lparr>lhn := hdr_n ?x\<rparr>) = Some (?f t)"
    using n by (simp add: read_head_loop_eq cong: if_cong)
  then have "read_head h s = Some u" using r(1,2) u(1) assms(3) by (simp add: read_head_def)
  moreover have "klog_frame s u"
    using r(7) fu(1) by (blast intro: klog_frame_trans klog_frame_bio klog_frame_upd)
  ultimately show ?thesis
    using fu r(6) bio_frame_klog [OF fu(1)] bio_frame_klog [OF r(7)] assms(3) by (auto intro: quiet_step_trans)
qed

text \<open>
  The disk as the file system means it: with the transaction that the header describes, if any, installed.
  \<open>log_area st ls\<close> are the \<open>ls\<close> blocks of the log, the header block first.
\<close>

definition log_area :: "uint \<Rightarrow> nat \<Rightarrow> uint set" where
  "log_area st ls = (\<lambda>i. st + of_nat i) ` {..<ls}"

definition log_writes :: "uint \<Rightarrow> (uint \<Rightarrow> bytes) \<Rightarrow> (uint \<times> bytes) list" where
  "log_writes st D = map (\<lambda>i. (hdr_block (D st) i, D (logblk st i))) [0..<nat (hdr_n (D st))]"

definition logical :: "uint \<Rightarrow> (uint \<Rightarrow> bytes) \<Rightarrow> (uint \<Rightarrow> bytes)" where
  "logical st D = apply_writes (log_writes st D) D"

definition log_disk_ok :: "uint \<Rightarrow> nat \<Rightarrow> (uint \<Rightarrow> bytes) \<Rightarrow> bool" where
  "log_disk_ok st ls D \<longleftrightarrow> 0 < ls \<and> unat st + ls < 2 ^ 32 \<and> length (D st) = BSIZE \<and>
     hdr_n (D st) \<le> int LOGSIZE \<and> hdr_n (D st) < int ls \<and>
     (\<forall>i<nat (hdr_n (D st)). hdr_block (D st) i \<notin> log_area st ls)"

lemma logblk_area: "i + 1 < ls \<Longrightarrow> logblk st i \<in> log_area st ls"
  unfolding log_area_def logblk_def by (rule image_eqI [of _ _ "Suc i"]) auto

lemma start_area: "0 < ls \<Longrightarrow> st \<in> log_area st ls"
  unfolding log_area_def by (rule image_eqI [of _ _ 0]) auto

lemma of_nat_uint_eq:
  assumes "i < 2 ^ 32" "j < 2 ^ 32" "(of_nat i :: uint) = of_nat j"
  shows "i = j"
proof -
  have "unat (of_nat i :: uint) = i" "unat (of_nat j :: uint) = j" using assms(1,2) by (simp_all add: unsigned_of_nat take_bit_nat_eq_self)
  then show ?thesis using assms(3) by metis
qed

lemma logblk_start: "unat st + ls < 2 ^ 32 \<Longrightarrow> i + 1 < ls \<Longrightarrow> logblk st i \<noteq> st"
  using of_nat_uint_eq [of "Suc i" 0] by (auto simp: logblk_def algebra_simps)

lemma logblk_inj: "unat st + ls < 2 ^ 32 \<Longrightarrow> i + 1 < ls \<Longrightarrow> j + 1 < ls \<Longrightarrow> logblk st i = logblk st j \<longleftrightarrow> i = j"
  using of_nat_uint_eq [of i j] by (auto simp: logblk_def)

text \<open>Facts about writing to a disk with a log.\<close>

lemma logical_empty: "hdr_n (D st) = 0 \<Longrightarrow> logical st D = D"
  by (simp add: logical_def log_writes_def)

lemma apply_take_then_all: "apply_writes ws (apply_writes (take k ws) D) = apply_writes ws D"
proof
  fix n
  show "apply_writes ws (apply_writes (take k ws) D) n = apply_writes ws D n"
  proof (rule apply_writes_cong)
    show "n \<in> fst ` set ws \<or> apply_writes (take k ws) D n = D n"
      using apply_writes_other [of n "take k ws" D] set_take_subset [of k ws] by blast
  qed
qed

text \<open>Writes outside the log area do not change the transaction that the log describes.\<close>

lemma log_writes_cong:
  assumes "E st = D st" "\<forall>i<nat (hdr_n (D st)). E (logblk st i) = D (logblk st i)"
  shows "log_writes st E = log_writes st D"
  using assms by (simp add: log_writes_def)

lemma log_disk_okD:
  assumes "log_disk_ok st ls D"
  shows "0 < ls" "unat st + ls < 2 ^ 32" "length (D st) = BSIZE" "nat (hdr_n (D st)) \<le> LOGSIZE" "nat (hdr_n (D st)) < ls"
    "i < nat (hdr_n (D st)) \<Longrightarrow> hdr_block (D st) i \<notin> log_area st ls"
    "i < nat (hdr_n (D st)) \<Longrightarrow> logblk st i \<in> log_area st ls"
    "i < nat (hdr_n (D st)) \<Longrightarrow> logblk st i \<noteq> st"
proof -
  show ls: "0 < ls" "unat st + ls < 2 ^ 32" "length (D st) = BSIZE" "nat (hdr_n (D st)) \<le> LOGSIZE" "nat (hdr_n (D st)) < ls"
    "i < nat (hdr_n (D st)) \<Longrightarrow> hdr_block (D st) i \<notin> log_area st ls"
    using assms unfolding log_disk_ok_def by auto
  assume "i < nat (hdr_n (D st))"
  then have "i + 1 < ls" using ls(5) by simp
  then show "logblk st i \<in> log_area st ls" "logblk st i \<noteq> st" using logblk_area logblk_start ls(2) by blast+
qed

lemma log_writes_outside:
  assumes "log_disk_ok st ls D" "(n, v) \<in> set (log_writes st D)"
  shows "n \<notin> log_area st ls"
  using assms log_disk_okD(6) by (auto simp: log_writes_def)

text \<open>
  The two groups of writes to home blocks that recovery and commit make keep the logical disk: installing the transaction in the
  log, and marking the log empty when the transaction is installed.
\<close>

lemma install_prefix:
  assumes ok: "log_disk_ok st ls D"
  defines "E \<equiv> \<lambda>k. apply_writes (take k (log_writes st D)) D"
  shows "log_disk_ok st ls (E k)" "logical st (E k) = logical st D" "log_writes st (E k) = log_writes st D"
    "n \<in> log_area st ls \<Longrightarrow> E k n = D n"
proof -
  have area: "E k n = D n" if "n \<in> log_area st ls" for n
    unfolding E_def using log_writes_outside [OF ok] set_take_subset [of k "log_writes st D"] that
    by (intro apply_writes_other) force
  then show "n \<in> log_area st ls \<Longrightarrow> E k n = D n" .
  have st: "E k st = D st" using area start_area log_disk_okD(1) [OF ok] by blast
  have lg: "E k (logblk st i) = D (logblk st i)" if "i < nat (hdr_n (D st))" for i
    using area log_disk_okD(7) [OF ok that] by blast
  show w: "log_writes st (E k) = log_writes st D" by (rule log_writes_cong) (use st lg in auto)
  show "logical st (E k) = logical st D"
    unfolding logical_def w unfolding E_def by (rule apply_take_then_all)
  show "log_disk_ok st ls (E k)" using ok by (simp add: log_disk_ok_def st)
qed

lemma hdr_put_empty:
  assumes "length xs = BSIZE"
  shows "hdr_n (hdr_put 0 block xs) = 0" "length (hdr_put 0 block xs) = BSIZE"
  using hdr_put_fields [OF assms, where n = 0 and block = block] by simp_all

text \<open>Clearing the log after the installation, and all the disks on the way.\<close>

definition recovery_writes :: "uint \<Rightarrow> (nat \<Rightarrow> uint) \<Rightarrow> (uint \<Rightarrow> bytes) \<Rightarrow> (uint \<times> bytes) list" where
  "recovery_writes st block D = log_writes st D @ [(st, hdr_put 0 block (D st))]"

lemma recovery_prefix:
  assumes ok: "log_disk_ok st ls D"
  shows "log_disk_ok st ls (apply_writes (take k (recovery_writes st block D)) D) \<and>
    (\<forall>n. n \<notin> log_area st ls \<longrightarrow> logical st (apply_writes (take k (recovery_writes st block D)) D) n = logical st D n)"
proof (cases "k \<le> length (log_writes st D)")
  case True
  then have "take k (recovery_writes st block D) = take k (log_writes st D)" by (simp add: recovery_writes_def)
  then show ?thesis using install_prefix(1,2) [OF ok, of k] by simp
next
  case False
  let ?E = "apply_writes (log_writes st D) D"
  let ?F = "?E(st := hdr_put 0 block (D st))"
  have F: "apply_writes (take k (recovery_writes st block D)) D = ?F"
    using False by (simp add: recovery_writes_def apply_writes_append)
  have e: "log_disk_ok st ls ?E" using install_prefix(1) [OF ok, of "length (log_writes st D)"] by simp
  have h: "hdr_n (?F st) = 0" "length (?F st) = BSIZE" using hdr_put_empty [OF log_disk_okD(3) [OF ok]] by simp_all
  have "log_disk_ok st ls ?F" using e h unfolding log_disk_ok_def by simp
  moreover have "logical st ?F = ?F" using h(1) by (rule logical_empty)
  moreover have "?F n = logical st D n" if "n \<notin> log_area st ls" for n
    using that start_area log_disk_okD(1) [OF ok] by (auto simp: logical_def)
  ultimately show ?thesis unfolding F by auto
qed

lemma recovery_result:
  assumes ok: "log_disk_ok st ls D"
  shows "\<forall>n. n \<notin> log_area st ls \<longrightarrow> apply_writes (recovery_writes st block D) D n = logical st D n"
    "hdr_n (apply_writes (recovery_writes st block D) D st) = 0"
proof -
  show "\<forall>n. n \<notin> log_area st ls \<longrightarrow> apply_writes (recovery_writes st block D) D n = logical st D n"
    using start_area log_disk_okD(1) [OF ok] by (auto simp: recovery_writes_def apply_writes_append logical_def)
  show "hdr_n (apply_writes (recovery_writes st block D) D st) = 0"
    using hdr_put_empty(1) [OF log_disk_okD(3) [OF ok]] by (simp add: recovery_writes_def apply_writes_append)
qed

text \<open>The writes of a commit of the blocks \<open>blk 0, \<dots>, blk (n - 1)\<close> with the contents that \<open>V\<close> gives.\<close>

definition log_copies :: "uint \<Rightarrow> int \<Rightarrow> (nat \<Rightarrow> uint) \<Rightarrow> (uint \<Rightarrow> bytes) \<Rightarrow> (uint \<times> bytes) list" where
  "log_copies st n blk V = map (\<lambda>i. (logblk st i, V (blk i))) [0..<nat n]"

definition committed_disk :: "uint \<Rightarrow> int \<Rightarrow> (nat \<Rightarrow> uint) \<Rightarrow> (uint \<Rightarrow> bytes) \<Rightarrow> (uint \<Rightarrow> bytes) \<Rightarrow> (uint \<Rightarrow> bytes)" where
  "committed_disk st n blk V D = apply_writes (log_copies st n blk V @ [(st, hdr_put n blk (D st))]) D"

definition commit_writes :: "uint \<Rightarrow> int \<Rightarrow> (nat \<Rightarrow> uint) \<Rightarrow> (uint \<Rightarrow> bytes) \<Rightarrow> (uint \<Rightarrow> bytes) \<Rightarrow> (uint \<times> bytes) list" where
  "commit_writes st n blk V D = log_copies st n blk V @ (st, hdr_put n blk (D st)) #
     recovery_writes st blk (committed_disk st n blk V D)"

lemma log_copies_at:
  assumes "unat st + ls < 2 ^ 32" "k < ls" "i < k"
  shows "apply_writes (map (\<lambda>i. (logblk st i, V (blk i))) [0..<k]) D (logblk st i) = V (blk i)"
  using assms(2,3)
proof (induction k)
  case (Suc k)
  show ?case
  proof (cases "i = k")
    case True
    then show ?thesis by (simp add: apply_writes_append)
  next
    case False
    then have "logblk st k \<noteq> logblk st i" using Suc.prems logblk_inj [of st ls k i] assms(1) by auto
    then show ?thesis using Suc False by (simp add: apply_writes_append)
  qed
qed simp

text \<open>What a commit needs: an empty log on the disk, room in it, and blocks outside it.\<close>

definition committable :: "uint \<Rightarrow> nat \<Rightarrow> int \<Rightarrow> (nat \<Rightarrow> uint) \<Rightarrow> (uint \<Rightarrow> bytes) \<Rightarrow> bool" where
  "committable st ls n blk D \<longleftrightarrow> log_disk_ok st ls D \<and> hdr_n (D st) = 0 \<and> 0 \<le> n \<and> n \<le> int LOGSIZE \<and> n < int ls \<and>
     (\<forall>i<nat n. blk i \<notin> log_area st ls)"

lemma log_copies_area:
  assumes "committable st ls n blk D" "(m, v) \<in> set (log_copies st n blk V)"
  shows "m \<in> log_area st ls" "m \<noteq> st"
proof -
  obtain i where i: "i < nat n" "m = logblk st i" using assms(2) by (auto simp: log_copies_def)
  have c: "n < int ls" "unat st + ls < 2 ^ 32" using assms(1) by (auto simp: committable_def log_disk_ok_def)
  then have "i + 1 < ls" using i by simp
  then show "m \<in> log_area st ls" "m \<noteq> st" using i(2) c(2) logblk_area logblk_start by auto
qed

text \<open>Before the header is written the logical disk is the old one.\<close>

lemma copies_prefix:
  fixes V :: "uint \<Rightarrow> bytes"
  assumes c: "committable st ls n blk D"
  defines "E \<equiv> \<lambda>k. apply_writes (take k (log_copies st n blk V)) D"
  shows "log_disk_ok st ls (E k)" "m \<notin> log_area st ls \<Longrightarrow> logical st (E k) m = D m" "E k st = D st"
    "m \<notin> log_area st ls \<Longrightarrow> E k m = D m"
proof -
  have out: "E k m = D m" if "m \<notin> log_area st ls \<or> m = st" for m
    unfolding E_def using log_copies_area [OF c] set_take_subset [of k "log_copies st n blk V"] that
    by (intro apply_writes_other) force
  then show "m \<notin> log_area st ls \<Longrightarrow> E k m = D m" by blast
  show st: "E k st = D st" using out by blast
  show "log_disk_ok st ls (E k)" using c by (simp add: committable_def log_disk_ok_def st)
  have "logical st (E k) = E k" using c st by (intro logical_empty) (simp add: committable_def)
  then show "m \<notin> log_area st ls \<Longrightarrow> logical st (E k) m = D m" using out by simp
qed

text \<open>Once it is written, the logical disk is the new one.\<close>

lemma committed_disk_ok:
  assumes c: "committable st ls n blk D"
  shows "log_disk_ok st ls (committed_disk st n blk V D)"
    "log_writes st (committed_disk st n blk V D) = map (\<lambda>i. (blk i, V (blk i))) [0..<nat n]"
    "m \<notin> log_area st ls \<Longrightarrow> committed_disk st n blk V D m = D m"
    "committed_disk st n blk V D st = hdr_put n blk (D st)"
proof -
  let ?E = "apply_writes (log_copies st n blk V) D" and ?C = "committed_disk st n blk V D"
  have C: "?C = ?E(st := hdr_put n blk (D st))" by (simp add: committed_disk_def apply_writes_append)
  have E: "log_disk_ok st ls ?E" "?E st = D st" "\<And>m. m \<notin> log_area st ls \<Longrightarrow> ?E m = D m"
    using copies_prefix(1,3,4) [OF c, where k = "length (log_copies st n blk V)" and V = V] by simp_all
  have len: "length (D st) = BSIZE" and n: "0 \<le> n" "n \<le> int LOGSIZE" "nat n < ls" and ls: "0 < ls" "unat st + ls < 2 ^ 32"
    using c by (auto simp: committable_def log_disk_ok_def)
  note h = hdr_put_fields [OF len n(1,2), where block = blk]
  show st: "?C st = hdr_put n blk (D st)" by (simp add: C)
  show "m \<notin> log_area st ls \<Longrightarrow> ?C m = D m" using E(3) start_area [OF ls(1)] by (auto simp: C)
  have "?C (logblk st i) = V (blk i)" if "i < nat n" for i
    using log_copies_at [OF ls(2) n(3) that] logblk_start [OF ls(2), of i] that n(3) by (simp add: C log_copies_def)
  then show "log_writes st ?C = map (\<lambda>i. (blk i, V (blk i))) [0..<nat n]"
    using h(2,3) by (simp add: log_writes_def st)
  show "log_disk_ok st ls ?C" using c h n unfolding log_disk_ok_def st by (auto simp: committable_def log_disk_ok_def)
qed

lemma commit_prefix:
  assumes c: "committable st ls n blk D" and V: "\<forall>m. m \<notin> blk ` {..<nat n} \<longrightarrow> V m = D m"
  defines "E \<equiv> \<lambda>k. apply_writes (take k (commit_writes st n blk V D)) D"
  shows "log_disk_ok st ls (E k) \<and>
    ((\<forall>m. m \<notin> log_area st ls \<longrightarrow> logical st (E k) m = D m) \<or> (\<forall>m. m \<notin> log_area st ls \<longrightarrow> logical st (E k) m = V m))"
proof (cases "k \<le> length (log_copies st n blk V)")
  case True
  then have "take k (commit_writes st n blk V D) = take k (log_copies st n blk V)" by (simp add: commit_writes_def)
  then show ?thesis using copies_prefix(1,2) [OF c] by (auto simp: E_def)
next
  case False
  let ?C = "committed_disk st n blk V D"
  define j where "j = k - length (log_copies st n blk V) - 1"
  have "k - length (log_copies st n blk V) = Suc j" using False by (simp add: j_def)
  then have "take k (commit_writes st n blk V D) =
      (log_copies st n blk V @ [(st, hdr_put n blk (D st))]) @ take j (recovery_writes st blk ?C)"
    using False by (simp add: commit_writes_def)
  then have E: "E k = apply_writes (take j (recovery_writes st blk ?C)) ?C"
    by (simp add: E_def apply_writes_append committed_disk_def)
  note C = committed_disk_ok [OF c, where V = V]
  have new: "apply_writes (map (\<lambda>i. (blk i, V (blk i))) [0..<k]) ?C m = (if m \<in> blk ` {..<k} then V m else ?C m)" for k m
    by (induction k) (auto simp: apply_writes_append less_Suc_eq)
  have "logical st ?C m = V m" if "m \<notin> log_area st ls" for m
    using V C(3) [OF that] by (simp add: logical_def C(2) new)
  then show ?thesis using recovery_prefix [OF C(1), of j blk] by (simp add: E)
qed

section \<open>The operations that write these blocks\<close>

definition no_users :: "cache \<Rightarrow> bool" where
  "no_users a \<longleftrightarrow> (\<forall>n. crefs a n = 0) \<and> (\<forall>n. clocks a n = None)"

lemma no_users_calm: "no_users a \<Longrightarrow> calm a" "no_users a \<Longrightarrow> card {n. crefs a n \<noteq> 0} + 1 < NBUF"
  by (simp_all add: no_users_def calm_def NBUF_def MAXOPBLOCKS_def)

lemma no_users_view: "cache_ok d s \<Longrightarrow> no_users (abs_cache d s) \<Longrightarrow> cview (abs_cache d s) = disk s"
  using clean_abs [of d s] by (auto simp: no_users_def fun_eq_iff)

lemma install_trans_frame:
  assumes "bio_frame s (t :: 'a klog_scheme)" "quiet_step h s t"
  shows "klog_frame s (t\<lparr>lhn := n\<rparr>)" "quiet_step h s (t\<lparr>lhn := n\<rparr>)"
  using assms klog_frame_trans [OF klog_frame_bio klog_frame_upd(1)] by (auto simp: quiet_step_klog)

lemma recover_from_log_spec:
  fixes s :: "'a klog_scheme"
  assumes q: "quiet h s" "cache_ok d s" "ldev s = d" and nu: "no_users (abs_cache d s)"
    and ok: "log_disk_ok (lstart s) ls (disk s)"
  shows "\<exists>t block. recover_from_log h s = Some t \<and> quiet h t \<and> cache_ok d t \<and> quiet_step h s t \<and> klog_frame s t \<and>
    abs_cache d t = wrote (recovery_writes (lstart s) block (disk s)) (abs_cache d s) \<and>
    lstart t = lstart s \<and> lsize t = lsize s \<and> ldev t = d \<and> outstanding t = outstanding s \<and> committing t = committing s \<and> lhn t = 0"
proof -
  let ?D = "disk s" and ?st = "lstart s" and ?a = "abs_cache d s"
  have V: "cview ?a = ?D" using no_users_view [OF q(2) nu] .
  note okD = log_disk_okD [OF ok]
  have "hdr_n (cview ?a ?st) \<le> int LOGSIZE" using okD(4) by (simp add: V)
  from read_head_spec [OF q no_users_calm(1) [OF nu] this] obtain t where t: "read_head h s = Some t" "quiet h t" "cache_ok d t"
    "quiet_step h s t" "klog_frame s t" "abs_cache d t = ?a" "lstart t = ?st" "lsize t = lsize s" "ldev t = d"
    "outstanding t = outstanding s" "committing t = committing s"
    and n: "lhn t = hdr_n (?D ?st)" and blk: "\<forall>j<nat (lhn t). lhblock t j = hdr_block (?D ?st) j"
    unfolding V by blast
  have "\<exists>u. install_trans_loop h True (nat (lhn t)) 0 t = Some u \<and> quiet h u \<and> cache_ok d u \<and> quiet_step h t u \<and> bio_frame t u \<and>
    abs_cache d u = unpin_set (if True then {} else lhblock t ` {0..<0 + nat (lhn t)})
      (wrote (map (\<lambda>i. (lhblock t i, cview (abs_cache d t) (logblk (lstart t) i))) [0..<0 + nat (lhn t)]) (abs_cache d t))"
  proof (rule install_trans_loop_spec)
    show "\<forall>i\<in>{0..<0 + nat (lhn t)}. \<forall>j\<in>{0..<0 + nat (lhn t)}. lhblock t i \<noteq> logblk (lstart t) j"
      using okD(6,7) blk by (auto simp: n t(7)) metis
  qed (use t n okD(4) no_users_calm [OF nu] in \<open>auto\<close>)
  moreover have "map (\<lambda>i. (lhblock t i, cview (abs_cache d t) (logblk (lstart t) i))) [0..<0 + nat (lhn t)] = log_writes ?st ?D"
    using blk by (simp add: log_writes_def n t(6,7) V)
  ultimately obtain u where u: "install_trans h True t = Some u" "quiet h u" "cache_ok d u" "quiet_step h t u" "bio_frame t u"
    "abs_cache d u = wrote (log_writes ?st ?D) ?a"
    by (auto simp: install_trans_def t(6))
  note fu = bio_frame_klog [OF u(5)] and fu' = install_trans_frame [OF u(5,4), of 0]
  let ?u = "u\<lparr>lhn := 0\<rparr>"
  have "\<exists>v. write_head h ?u = Some v \<and> quiet h v \<and> cache_ok d v \<and> quiet_step h ?u v \<and> bio_frame ?u v \<and>
    abs_cache d v = wrote [(lstart ?u, hdr_put (lhn ?u) (lhblock ?u) (cview (abs_cache d ?u) (lstart ?u)))] (abs_cache d ?u)"
    by (rule write_head_spec) (use u fu t(9) no_users_calm(1) [OF nu] in \<open>auto\<close>)
  then obtain v where v: "write_head h ?u = Some v" "quiet h v" "cache_ok d v" "quiet_step h ?u v" "bio_frame ?u v"
    "abs_cache d v = wrote [(?st, hdr_put 0 (lhblock u) (cview (abs_cache d u) ?st))] (abs_cache d u)"
    by (auto simp: fu t(7))
  have "cview (abs_cache d u) ?st = ?D ?st"
    using install_prefix(4) [OF ok start_area [OF okD(1)], of "length (log_writes ?st ?D)"] by (simp add: u(6) V)
  then have "abs_cache d v = wrote (recovery_writes ?st (lhblock u) ?D) ?a"
    using v(6) u(6) by (simp add: recovery_writes_def wrote_append)
  moreover have "recover_from_log h s = Some v" using t(1) u(1) v(1) by (simp add: recover_from_log_def)
  moreover have "quiet_step h s v" using t(4) fu'(2) v(4) by (blast intro: quiet_step_trans)
  moreover have "klog_frame s v" using t(5) fu'(1) klog_frame_bio [OF v(5)] by (blast intro: klog_frame_trans)
  ultimately show ?thesis using v(2,3) bio_frame_klog [OF v(5)] fu t by auto
qed

lemma initlog_spec:
  fixes s :: "'a klog_scheme"
  assumes q: "quiet h s" "cache_ok d s" and nu: "no_users (abs_cache d s)"
    and ok: "log_disk_ok (logstart sb) ls (disk s)"
  shows "\<exists>t block. initlog h d sb s = Some t \<and> quiet h t \<and> cache_ok d t \<and>
    abs_cache d t = wrote (recovery_writes (logstart sb) block (disk s)) (abs_cache d s) \<and>
    lstart t = logstart sb \<and> lsize t = sint (nlog sb) \<and> ldev t = d \<and> lhn t = 0 \<and>
    outstanding t = outstanding s \<and> committing t = committing s"
proof -
  let ?s = "(initlock LogLock ''log'' s)\<lparr>lstart := logstart sb, lsize := sint (nlog sb), ldev := d\<rparr>"
  have same: "abs_cache d ?s = abs_cache d s" "cache_ok d ?s = cache_ok d s" "disk ?s = disk s"
    by (rule abs_cache_cong, simp_all add: initlock_def upd_lock_def)+
  have "quiet h ?s" using q(1) by (auto simp: quiet_def lock_free_def initlock_def upd_lock_def)
  moreover have "\<not> BSIZE \<le> sizeof_logheader" by (simp add: BSIZE_def sizeof_logheader_def LOGSIZE_def MAXOPBLOCKS_def)
  moreover have "outstanding ?s = outstanding s" "committing ?s = committing s" by (simp_all add: initlock_def upd_lock_def)
  ultimately show ?thesis
    using recover_from_log_spec [of h ?s d ls] q(2) nu ok by (simp add: initlog_def same) blast
qed

text \<open>The state of the log between the operations of a transaction, when nobody has a buffer locked.\<close>

definition log_inv :: "nat \<Rightarrow> uint \<Rightarrow> 'a klog_scheme \<Rightarrow> bool" where
  "log_inv h d s \<longleftrightarrow> quiet h s \<and> cache_ok d s \<and> ldev s = d \<and> calm (abs_cache d s) \<and>
     committable (lstart s) (nat (lsize s)) (lhn s) (lhblock s) (disk s) \<and> inj_on (lhblock s) {..<nat (lhn s)} \<and>
     (\<forall>n. crefs (abs_cache d s) n \<noteq> 0 \<longleftrightarrow> n \<in> lhblock s ` {..<nat (lhn s)})"

lemma log_invD:
  assumes "log_inv h d s"
  shows "quiet h s" "cache_ok d s" "ldev s = d" "calm (abs_cache d s)"
    "committable (lstart s) (nat (lsize s)) (lhn s) (lhblock s) (disk s)" "inj_on (lhblock s) {..<nat (lhn s)}"
    "crefs (abs_cache d s) n \<noteq> 0 \<longleftrightarrow> n \<in> lhblock s ` {..<nat (lhn s)}"
  using assms by (simp_all add: log_inv_def)

lemma committableD:
  assumes "committable st ls n blk D"
  shows "log_disk_ok st ls D" "hdr_n (D st) = 0" "0 \<le> n" "n \<le> int LOGSIZE" "n < int ls"
    "i < nat n \<Longrightarrow> blk i \<notin> log_area st ls" "i < nat n \<Longrightarrow> logblk st i \<in> log_area st ls"
    "unat st + ls < 2 ^ 32" "0 < ls"
proof -
  show c: "log_disk_ok st ls D" "hdr_n (D st) = 0" "0 \<le> n" "n \<le> int LOGSIZE" "n < int ls"
    "i < nat n \<Longrightarrow> blk i \<notin> log_area st ls" "unat st + ls < 2 ^ 32" "0 < ls"
    using assms by (auto simp: committable_def log_disk_ok_def)
  assume "i < nat n"
  then show "logblk st i \<in> log_area st ls" using c(5) by (intro logblk_area) simp
qed

text \<open>A pinned block is a home block.\<close>

lemma log_area_unpinned:
  assumes "log_inv h d s" "n \<in> log_area (lstart s) (nat (lsize s))"
  shows "crefs (abs_cache d s) n = 0" "cview (abs_cache d s) n = disk s n"
proof -
  show "crefs (abs_cache d s) n = 0"
    using assms(2) log_invD(7) [OF assms(1), of n] committableD(6) [OF log_invD(5) [OF assms(1)]] by auto
  then show "cview (abs_cache d s) n = disk s n" using clean_abs [OF log_invD(2) [OF assms(1)]] by simp
qed

lemma write_log_spec:
  assumes inv: "log_inv h d s"
  shows "\<exists>t. write_log h s = Some t \<and> quiet h t \<and> cache_ok d t \<and> quiet_step h s t \<and> bio_frame s t \<and>
    abs_cache d t = wrote (log_copies (lstart s) (lhn s) (lhblock s) (cview (abs_cache d s))) (abs_cache d s)"
proof -
  note I = log_invD [OF inv] and c = committableD [OF log_invD(5) [OF inv]]
  have "\<exists>t. write_log_loop h (nat (lhn s)) 0 s = Some t \<and> quiet h t \<and> cache_ok d t \<and> quiet_step h s t \<and> bio_frame s t \<and>
    abs_cache d t = wrote (map (\<lambda>i. (logblk (lstart s) i, cview (abs_cache d s) (lhblock s i))) [0..<0 + nat (lhn s)]) (abs_cache d s)"
    by (rule write_log_loop_spec)
      (use I(1-4,7) c(3,4,7) log_area_unpinned [OF inv] in \<open>auto\<close>)
  then show ?thesis by (simp add: write_log_def log_copies_def)
qed

lemma unpin_wrote: "unpin_set S (wrote ws a) = wrote ws (unpin_set S a)"
  by (rule cache.equality) (simp_all add: fun_eq_iff)

text \<open>The cached view after the header is on the disk.\<close>

lemma committed_view:
  assumes inv: "log_inv h d s" and L: "L = lstart s" "n = lhn s" "b = lhblock s" "V = cview (abs_cache d s)"
    and W: "W = log_copies L n b V @ [(L, hdr_put n b (disk s L))]"
  shows "apply_writes W (disk s) = committed_disk L n b V (disk s)" "apply_writes W V L = hdr_put n b (disk s L)"
    "i < nat n \<Longrightarrow> apply_writes W V (logblk L i) = V (b i)"
    "apply_writes (log_copies L n b V) V L = disk s L"
proof -
  note c = committableD [OF log_invD(5) [OF inv]]
  show "apply_writes W (disk s) = committed_disk L n b V (disk s)" by (simp add: W committed_disk_def)
  show "apply_writes W V L = hdr_put n b (disk s L)" by (simp add: W apply_writes_append)
  have "L \<notin> fst ` set (log_copies L n b V)" using log_copies_area(2) [OF log_invD(5) [OF inv]] unfolding L by force
  then show "apply_writes (log_copies L n b V) V L = disk s L"
    using log_area_unpinned(2) [OF inv start_area [OF c(9)]] by (simp add: apply_writes_other L)
  assume i: "i < nat n"
  have lt: "nat n < nat (lsize s)" using c(3,5) by (auto simp: L split: if_splits)
  then have "i + 1 < nat (lsize s)" using i by linarith
  then have "logblk L i \<noteq> L" using logblk_start [of L "nat (lsize s)" i] c(8) by (simp add: L)
  then show "apply_writes W V (logblk L i) = V (b i)"
    using log_copies_at [of L "nat (lsize s)" "nat n" i V b V] lt c(8) i
    by (simp add: W apply_writes_append log_copies_def L)
qed

lemma commit_spec:
  fixes s :: "'a klog_scheme"
  assumes inv: "log_inv h d s" and pos: "0 < lhn s"
  shows "\<exists>t. commit h s = Some t \<and> quiet h t \<and> cache_ok d t \<and> quiet_step h s t \<and> klog_frame s t \<and>
    abs_cache d t = unpin_set (lhblock s ` {..<nat (lhn s)})
      (wrote (commit_writes (lstart s) (lhn s) (lhblock s) (cview (abs_cache d s)) (disk s)) (abs_cache d s)) \<and>
    lstart t = lstart s \<and> lsize t = lsize s \<and> ldev t = d \<and> outstanding t = outstanding s \<and> committing t = committing s \<and>
    lhn t = 0"
proof -
  define a L n b V D where "a = abs_cache d s" and "L = lstart s" and "n = lhn s" and "b = lhblock s"
    and "V = cview (abs_cache d s)" and "D = disk s"
  define W where "W = log_copies L n b V @ [(L, hdr_put n b (D L))]"
  note I = log_invD [OF inv] and c = committableD [OF log_invD(5) [OF inv]]
  note cv = committed_view [OF inv L_def n_def b_def V_def W_def [unfolded D_def], folded D_def]
  obtain t where t: "write_log h s = Some t" "quiet h t" "cache_ok d t" "quiet_step h s t" "bio_frame s t"
    "abs_cache d t = wrote (log_copies L n b V) a"
    using write_log_spec [OF inv] unfolding a_def L_def n_def b_def V_def by blast
  note ft = bio_frame_klog [OF t(5)]
  have "\<exists>u. write_head h t = Some u \<and> quiet h u \<and> cache_ok d u \<and> quiet_step h t u \<and> bio_frame t u \<and>
    abs_cache d u = wrote [(lstart t, hdr_put (lhn t) (lhblock t) (cview (abs_cache d t) (lstart t)))] (abs_cache d t)"
    by (rule write_head_spec) (use t ft I(3,4) c(4) in \<open>auto simp: a_def\<close>)
  then obtain u where u: "write_head h t = Some u" "quiet h u" "cache_ok d u" "quiet_step h t u" "bio_frame t u"
    "abs_cache d u = wrote W a"
    using cv(4) unfolding t(6) ft by (auto simp: W_def wrote_append a_def V_def L_def n_def b_def)
  have fu: "lstart u = L" "lsize u = lsize s" "ldev u = d" "lhn u = n" "lhblock u = b" "outstanding u = outstanding s"
    "committing u = committing s"
    using bio_frame_klog [OF u(5)] ft I(3) by (simp_all add: L_def n_def b_def)
  have "\<exists>v. install_trans_loop h False (nat (lhn u)) 0 u = Some v \<and> quiet h v \<and> cache_ok d v \<and> quiet_step h u v \<and> bio_frame u v \<and>
    abs_cache d v = unpin_set (if False then {} else lhblock u ` {0..<0 + nat (lhn u)})
      (wrote (map (\<lambda>i. (lhblock u i, cview (abs_cache d u) (logblk (lstart u) i))) [0..<0 + nat (lhn u)]) (abs_cache d u))"
  proof (rule install_trans_loop_spec)
    show "\<forall>i\<in>{0..<0 + nat (lhn u)}. \<forall>j\<in>{0..<0 + nat (lhn u)}. lhblock u i \<noteq> logblk (lstart u) j"
      using c(6,7) by (auto simp: fu L_def n_def b_def) metis
    show "if False then card {n. crefs (abs_cache d u) n \<noteq> 0} + 1 < NBUF
      else (\<forall>i\<in>{0..<0 + nat (lhn u)}. crefs (abs_cache d u) (lhblock u i) \<noteq> 0) \<and> inj_on (lhblock u) {0..<0 + nat (lhn u)}"
      using I(6,7) by (auto simp: fu u(6) n_def b_def a_def lessThan_atLeast0)
  qed (use u fu I(3,4) c(3,4) in \<open>auto simp: a_def n_def\<close>)
  moreover have "map (\<lambda>i. (lhblock u i, cview (abs_cache d u) (logblk (lstart u) i))) [0..<0 + nat (lhn u)] =
      log_writes L (committed_disk L n b V D)"
    using cv(3) committed_disk_ok(2) [OF I(5), of V] by (simp add: fu u(6) L_def n_def b_def D_def V_def a_def)
  ultimately obtain v where v: "install_trans h False u = Some v" "quiet h v" "cache_ok d v" "quiet_step h u v" "bio_frame u v"
    "abs_cache d v = unpin_set (b ` {..<nat n}) (wrote (W @ log_writes L (committed_disk L n b V D)) a)"
    unfolding install_trans_def by (auto simp: fu u(6) wrote_append lessThan_atLeast0)
  note fv = bio_frame_klog [OF v(5)]
  let ?v = "v\<lparr>lhn := 0\<rparr>" and ?S = "b ` {..<nat n}" and ?C = "committed_disk L n b V D"
  have "calm (unpin_set ?S a)" by (rule calm_unpin) (use I(4,7) in \<open>auto simp: a_def b_def n_def\<close>)
  then have "calm (abs_cache d ?v)" by (simp add: v(6) unpin_wrote)
  then have "\<exists>w. write_head h ?v = Some w \<and> quiet h w \<and> cache_ok d w \<and> quiet_step h ?v w \<and> bio_frame ?v w \<and>
    abs_cache d w = wrote [(lstart ?v, hdr_put (lhn ?v) (lhblock ?v) (cview (abs_cache d ?v) (lstart ?v)))] (abs_cache d ?v)"
    by (intro write_head_spec) (use v fv fu in \<open>auto\<close>)
  moreover have "cview (abs_cache d ?v) L = ?C L"
  proof -
    have "L \<notin> fst ` set (log_writes L ?C)"
      using log_writes_outside [OF committed_disk_ok(1) [OF I(5)]] start_area [OF c(9)] unfolding L_def n_def b_def D_def by force
    then show ?thesis
      using cv(2) committed_disk_ok(4) [OF I(5), of V] by (simp add: v(6) apply_writes_append apply_writes_other V_def [symmetric]
          a_def L_def n_def b_def D_def)
  qed
  ultimately obtain w where w: "write_head h ?v = Some w" "quiet h w" "cache_ok d w" "quiet_step h ?v w" "bio_frame ?v w"
    "abs_cache d w = wrote [(L, hdr_put 0 b (?C L))] (abs_cache d v)"
    by (auto simp: fv fu)
  have "abs_cache d w = unpin_set ?S (wrote (commit_writes L n b V D) a)"
    unfolding w(6) v(6) commit_writes_def recovery_writes_def W_def
    by (rule cache.equality) (simp_all add: apply_writes_append fun_eq_iff)
  moreover have "commit h s = Some w" using pos t(1) u(1) v(1) w(1) by (simp add: commit_def)
  moreover have "quiet_step h s w"
    using t(4) u(4) install_trans_frame(2) [OF v(5,4)] w(4) by (blast intro: quiet_step_trans)
  moreover have "klog_frame s w"
    using klog_frame_bio [OF t(5)] klog_frame_bio [OF u(5)] install_trans_frame(1) [OF v(5,4)] klog_frame_bio [OF w(5)]
    by (blast intro: klog_frame_trans)
  ultimately show ?thesis
    using w(2,3) bio_frame_klog [OF w(5)] fv fu by (simp add: a_def L_def n_def b_def V_def D_def)
qed

section \<open>Crash safety\<close>

text \<open>The machine after a reboot with the disk \<open>D\<close>: a fresh cache.\<close>

definition rebooted :: "nat \<Rightarrow> uint \<Rightarrow> (uint \<Rightarrow> bytes) \<Rightarrow> 'a klog_scheme \<Rightarrow> bool" where
  "rebooted h d D r \<longleftrightarrow> quiet h r \<and> cache_ok d r \<and> no_users (abs_cache d r) \<and> disk r = D"

definition same_homes :: "uint \<Rightarrow> nat \<Rightarrow> (uint \<Rightarrow> bytes) \<Rightarrow> (uint \<Rightarrow> bytes) \<Rightarrow> bool" where
  "same_homes st ls D E \<longleftrightarrow> (\<forall>n. n \<notin> log_area st ls \<longrightarrow> D n = E n)"

lemma recovery_installs:
  fixes r :: "'a klog_scheme"
  assumes ok: "log_disk_ok (logstart sb) ls D" and r: "rebooted h d D r"
  shows "\<exists>u ws. initlog h d sb r = Some u \<and> history u = history r @ ws \<and> disk u = apply_writes ws D \<and>
    quiet h u \<and> cache_ok d u \<and> no_users (abs_cache d u) \<and>
    hdr_n (disk u (logstart sb)) = 0 \<and> same_homes (logstart sb) ls (disk u) (logical (logstart sb) D) \<and>
    (\<forall>k. log_disk_ok (logstart sb) ls (apply_writes (take k ws) D) \<and>
      same_homes (logstart sb) ls (logical (logstart sb) (apply_writes (take k ws) D)) (logical (logstart sb) D))"
proof -
  let ?st = "logstart sb"
  have r': "quiet h r" "cache_ok d r" "no_users (abs_cache d r)" "disk r = D" using r by (simp_all add: rebooted_def)
  obtain u block where u: "initlog h d sb r = Some u" "quiet h u" "cache_ok d u"
    "abs_cache d u = wrote (recovery_writes ?st block D) (abs_cache d r)"
    using initlog_spec [of h r d sb ls] r' ok by blast
  have D: "disk u = apply_writes (recovery_writes ?st block D) D" "history u = history r @ recovery_writes ?st block D"
    using arg_cong [OF u(4), of cdisk] arg_cong [OF u(4), of chist] r'(4) by simp_all
  have "no_users (abs_cache d u)" using r'(3) by (simp add: u(4) no_users_def)
  then show ?thesis
    using u(1-3) D recovery_result [OF ok, of block] recovery_prefix [OF ok, of _ block] by (auto simp: same_homes_def)
qed

text \<open>Any number of crashes while recovering from a crash.\<close>

inductive crashes :: "nat \<Rightarrow> uint \<Rightarrow> superblock \<Rightarrow> (uint \<Rightarrow> bytes) \<Rightarrow> (uint \<Rightarrow> bytes) \<Rightarrow> bool" for h d sb where
  none: "crashes h d sb D D"
| crash: "crashes h d sb D E \<Longrightarrow> rebooted h d E (r :: klog) \<Longrightarrow> initlog h d sb r = Some u \<Longrightarrow> history u = history r @ ws \<Longrightarrow>
    crashes h d sb D (apply_writes (take k ws) E)"

lemma crashes_logical:
  assumes "crashes h d sb D E" "log_disk_ok (logstart sb) ls D"
  shows "log_disk_ok (logstart sb) ls E \<and> same_homes (logstart sb) ls (logical (logstart sb) E) (logical (logstart sb) D)"
  using assms
proof (induction rule: crashes.induct)
  case (none D)
  then show ?case by (simp add: same_homes_def)
next
  case (crash D E r u ws k)
  then have E: "log_disk_ok (logstart sb) ls E" "same_homes (logstart sb) ls (logical (logstart sb) E) (logical (logstart sb) D)"
    by auto
  from recovery_installs [OF E(1) crash.hyps(2)] crash.hyps(3,4) have
    "log_disk_ok (logstart sb) ls (apply_writes (take k ws) E) \<and>
     same_homes (logstart sb) ls (logical (logstart sb) (apply_writes (take k ws) E)) (logical (logstart sb) E)"
    by auto
  then show ?case using E(2) by (auto simp: same_homes_def)
qed

end
