(* ===== verification/Transaction.thy ===== *)
theory Transaction
  imports Crash
begin

text \<open>
  Transactions: the view that code between \<open>begin_op\<close> and \<open>end_op\<close> has of the buffer cache and the log.
  \<open>tx_inv h d H s\<close> is the invariant of such code, where \<open>H\<close> are the blocks it has locked.
\<close>

section \<open>The invariant\<close>

definition pins :: "'a klog_scheme \<Rightarrow> uint set" where
  "pins s = lhblock s ` {..<nat (lhn s)}"

definition tx_inv :: "nat \<Rightarrow> uint \<Rightarrow> uint set \<Rightarrow> 'a klog_scheme \<Rightarrow> bool" where
  "tx_inv h d H s \<longleftrightarrow> quiet h s \<and> cache_ok d s \<and> ldev s = d \<and>
     committable (lstart s) (nat (lsize s)) (lhn s) (lhblock s) (disk s) \<and> inj_on (lhblock s) {..<nat (lhn s)} \<and>
     lhn s < int NBUF \<and>
     (\<forall>n. clocks (abs_cache d s) n = (if n \<in> H then Some (me_pid h s) else None)) \<and>
     (\<forall>n. crefs (abs_cache d s) n = of_bool (n \<in> pins s) + of_bool (n \<in> H))"

lemma tx_invD:
  assumes "tx_inv h d H s"
  shows "quiet h s" "cache_ok d s" "ldev s = d" "committable (lstart s) (nat (lsize s)) (lhn s) (lhblock s) (disk s)"
    "inj_on (lhblock s) {..<nat (lhn s)}" "lhn s < int NBUF"
    "clocks (abs_cache d s) n = (if n \<in> H then Some (me_pid h s) else None)"
    "crefs (abs_cache d s) n = of_bool (n \<in> pins s) + of_bool (n \<in> H)"
  using assms by (simp_all add: tx_inv_def)

lemma of_bool_zero: "(of_bool p + of_bool q = (0 :: uint)) = (\<not> p \<and> \<not> q)"
  by (auto simp: of_bool_def)

lemma card_pins:
  assumes "tx_inv h d H s"
  shows "card (pins s) = nat (lhn s)"
  using card_image [OF tx_invD(5) [OF assms]] by (simp add: pins_def)

lemma tx_inv_log_inv: "tx_inv h d {} s \<longleftrightarrow> log_inv h d s"
proof
  assume tx: "tx_inv h d {} s"
  have "{n. crefs (abs_cache d s) n \<noteq> 0} = pins s" using tx_invD(8) [OF tx] by auto
  then have "card {n. crefs (abs_cache d s) n \<noteq> 0} < NBUF" using card_pins [OF tx] tx_invD(6) [OF tx] by (simp add: NBUF_def MAXOPBLOCKS_def)
  then show "log_inv h d s"
    using tx_invD [OF tx] unfolding log_inv_def calm_def pins_def by auto
next
  assume inv: "log_inv h d s"
  have "{n. crefs (abs_cache d s) n \<noteq> 0} = pins s" using log_invD(7) [OF inv] by (auto simp: pins_def)
  then have "nat (lhn s) < NBUF" using log_invD(4,6) [OF inv] card_image [OF log_invD(6) [OF inv]] by (simp add: calm_def pins_def)
  then have "lhn s < int NBUF" by (simp add: NBUF_def MAXOPBLOCKS_def)
  moreover have "crefs (abs_cache d s) n = of_bool (n \<in> pins s)" for n
    using log_invD(4) [OF inv] log_invD(7) [OF inv, of n] by (auto simp: calm_def pins_def)
  ultimately show "tx_inv h d {} s" using log_invD(1-6) [OF inv] by (simp add: tx_inv_def calm_def)
qed

text \<open>An operation on the cache inside a transaction, which leaves the log alone.\<close>

lemma tx_step:
  fixes s :: "'a klog_scheme"
  assumes tx: "tx_inv h d H s" and st: "cache_step h d s t a" and disk: "cdisk a = disk s"
    and lk: "\<forall>n. clocks a n = (if n \<in> H' then Some (me_pid h s) else None)"
    and rf: "\<forall>n. crefs a n = of_bool (n \<in> pins s) + of_bool (n \<in> H')"
  shows "tx_inv h d H' t" "pins t = pins s" "quiet_step h s t" "bio_frame s t"
proof -
  have c: "cache_ok d t" "abs_cache d t = a" "quiet_step h s t" "bio_frame s t" using st by (simp_all add: cache_step_def)
  note f = bio_frame_klog [OF c(4)]
  have dt: "disk t = disk s" using arg_cong [OF c(2), of cdisk] disk by simp
  show p: "pins t = pins s" by (simp add: pins_def f)
  show "tx_inv h d H' t"
    using tx_invD(1,3-6) [OF tx] c lk rf quiet_step_quiet [OF c(3)] quiet_step_pid [OF c(3)]
    by (simp add: tx_inv_def p f dt)
  show "quiet_step h s t" "bio_frame s t" using c by auto
qed

section \<open>The steps of a transaction\<close>

lemma tx_bread:
  fixes s :: "'a klog_scheme"
  assumes tx: "tx_inv h d H s" and n: "n \<notin> H" and room: "n \<in> pins s \<or> card (pins s \<union> H) < NBUF"
  shows "\<exists>b t. bread h d n s = Some (b, t) \<and> mine h d t n b \<and> bdata (bufs t b) = cview (abs_cache d s) n \<and>
    tx_inv h d (insert n H) t \<and> pins t = pins s \<and> quiet_step h s t \<and> bio_frame s t \<and>
    cview (abs_cache d t) = cview (abs_cache d s) \<and> disk t = disk s \<and> history t = history s \<and>
    (\<forall>m c. mine h d s m c \<longrightarrow> mine h d t m c)"
proof -
  note I = tx_invD [OF tx]
  have "{m. crefs (abs_cache d s) m \<noteq> 0} = pins s \<union> H" by (auto simp: I(8))
  then have av: "available (abs_cache d s) n" using n room by (auto simp: available_def I(7,8))
  obtain b t where t: "bread h d n s = Some (b, t)" "mine h d t n b" "bdata (bufs t b) = cview (abs_cache d s) n"
    "cache_step h d s t (locked_by (me_pid h s) n (abs_cache d s))"
    using bcache.read_block [of h s d n] av I(1,2) by blast
  note st = tx_step [OF tx t(4), where H' = "insert n H"]
  have a: "abs_cache d t = locked_by (me_pid h s) n (abs_cache d s)" using t(4) by (simp add: cache_step_def)
  have "tx_inv h d (insert n H) t" "pins t = pins s" "quiet_step h s t" "bio_frame s t"
    using st n by (auto simp: locked_by_def I(7,8))
  moreover have "mine h d t m c" if "mine h d s m c" for m c
    using step_mine [OF t(4) I(2) that] mine_abs(5) [OF I(2) that] by (simp add: locked_by_def)
  moreover have "disk t = disk s" "history t = history s"
    using arg_cong [OF a, of cdisk] arg_cong [OF a, of chist] by (simp_all add: locked_by_def)
  moreover have "cview (abs_cache d t) = cview (abs_cache d s)" by (simp add: a locked_by_def)
  ultimately show ?thesis using t by blast
qed

lemma tx_mine:
  assumes "tx_inv h d H s" "mine h d s n b"
  shows "n \<in> H" "bdata (bufs s b) = cview (abs_cache d s) n" "blockno (bufs s b) = n"
  using assms tx_invD(7) [OF assms(1), of n] mine_locked(5) [OF tx_invD(2) [OF assms(1)] assms(2)]
  by (auto simp: mine_def holds_def split: if_splits)

lemma tx_set:
  fixes s :: "'a klog_scheme" and v :: bytes
  assumes tx: "tx_inv h d H s" and b: "mine h d s n b"
  defines "t \<equiv> set_data b v s"
  shows "tx_inv h d H t" "pins t = pins s" "quiet_step h s t" "bio_frame s t"
    "cview (abs_cache d t) = (cview (abs_cache d s))(n := v)" "disk t = disk s" "history t = history s"
    "\<And>m c. mine h d s m c \<Longrightarrow> mine h d t m c"
proof -
  note I = tx_invD [OF tx]
  have st: "cache_step h d s t (changed n v (abs_cache d s))"
    unfolding t_def using bcache.put_law [of h s d n b v] I(1,2) b by blast
  have a: "abs_cache d t = changed n v (abs_cache d s)" using st by (simp add: cache_step_def)
  note s' = tx_step [OF tx st, where H' = H]
  show "tx_inv h d H t" "pins t = pins s" "quiet_step h s t" "bio_frame s t"
    using s' by (auto simp: changed_def I(7,8))
  show "cview (abs_cache d t) = (cview (abs_cache d s))(n := v)" by (simp add: a changed_def)
  show "disk t = disk s" "history t = history s" by (simp_all add: t_def set_data_def)
  show "mine h d t m c" if "mine h d s m c" for m c
    using step_mine [OF st I(2) that] mine_abs(5) [OF I(2) that] by (simp add: changed_def)
qed

lemma tx_brelse:
  fixes s :: "'a klog_scheme"
  assumes tx: "tx_inv h d H s" and b: "mine h d s n b" and cl: "n \<in> pins s \<or> cview (abs_cache d s) n = disk s n"
  shows "\<exists>t. brelse h b s = Some t \<and> tx_inv h d (H - {n}) t \<and> pins t = pins s \<and> quiet_step h s t \<and> bio_frame s t \<and>
    cview (abs_cache d t) = cview (abs_cache d s) \<and> disk t = disk s \<and> history t = history s \<and>
    (\<forall>m c. mine h d s m c \<longrightarrow> m \<noteq> n \<longrightarrow> mine h d t m c)"
proof -
  note I = tx_invD [OF tx]
  have n: "n \<in> H" using tx_mine(1) [OF tx b] .
  have "crefs (abs_cache d s) n = 1 \<Longrightarrow> cview (abs_cache d s) n = cdisk (abs_cache d s) n"
    using cl n by (auto simp: I(8))
  with bcache.rl_law [of h s d n b] I(1,2) b obtain t where t: "brelse h b s = Some t"
    "cache_step h d s t (released n (abs_cache d s))" by blast
  have a: "abs_cache d t = released n (abs_cache d s)" using t(2) by (simp add: cache_step_def)
  have "tx_inv h d (H - {n}) t" "pins t = pins s" "quiet_step h s t" "bio_frame s t"
    using tx_step [OF tx t(2), where H' = "H - {n}"] n by (auto simp: released_def I(7,8))
  moreover have "mine h d t m c" if "mine h d s m c" "m \<noteq> n" for m c
    using step_mine [OF t(2) I(2) that(1)] mine_abs(5) [OF I(2) that(1)] that(2) by (simp add: released_def)
  moreover have "disk t = disk s" "history t = history s"
    using arg_cong [OF a, of cdisk] arg_cong [OF a, of chist] by (simp_all add: released_def)
  moreover have "cview (abs_cache d t) = cview (abs_cache d s)" by (simp add: a released_def)
  ultimately show ?thesis using t(1) by blast
qed

text \<open>\<open>log_write\<close>.\<close>

lemma log_write_find_eq:
  "log_write_find blk n k i = (case find (\<lambda>j. blk j = n) [i..<i + k] of None \<Rightarrow> i + k | Some j \<Rightarrow> j)"
  by (induction k arbitrary: i) (auto simp: upt_conv_Cons simp del: upt_Suc split: option.splits)

lemma log_write_find_spec:
  assumes "inj_on blk {..<k}"
  shows "n \<in> blk ` {..<k} \<Longrightarrow> log_write_find blk n k 0 < k \<and> blk (log_write_find blk n k 0) = n"
    "n \<notin> blk ` {..<k} \<Longrightarrow> log_write_find blk n k 0 = k"
  by (auto simp: log_write_find_eq find_None_iff find_Some_iff split: option.splits)

lemma klog_section:
  fixes s t :: "'a klog_scheme"
  assumes "quiet h s"
  shows "acquire h LogLock s = Some (taken h LogLock s)"
    "cpus t = cpus (taken h LogLock s) \<Longrightarrow> locks t = locks (taken h LogLock s) \<Longrightarrow>
     release h LogLock t = Some (t\<lparr>cpus := (cpus s)(h := settled (cpus s h)), locks := locks s\<rparr>)"
proof -
  have free: "lock_free LogLock s" and ok: "hart_ok h s" using assms by (simp_all add: quiet_def)
  show "acquire h LogLock s = Some (taken h LogLock s)" using free by (rule acquire_free)
  assume "cpus t = cpus (taken h LogLock s)" "locks t = locks (taken h LogLock s)"
  then show "release h LogLock t = Some (t\<lparr>cpus := (cpus s)(h := settled (cpus s h)), locks := locks s\<rparr>)"
    by (rule critical_release [OF free ok])
qed

lemma bpin_locked:
  assumes "lock_free BcacheLock s" "hart_ok h s" "0 < noff (cpus s h)"
  shows "bpin h b s = Some (s\<lparr>bufs := (bufs s)(b := (bufs s b)\<lparr>refcnt := refcnt (bufs s b) + 1\<rparr>)\<rparr>)"
proof -
  let ?B = "(bufs s)(b := (bufs s b)\<lparr>refcnt := refcnt (bufs s b) + 1\<rparr>)"
  have "release h BcacheLock ((taken h BcacheLock s)\<lparr>bufs := ?B\<rparr>) =
    Some ((taken h BcacheLock s)\<lparr>bufs := ?B, cpus := (cpus s)(h := settled (cpus s h)), locks := locks s\<rparr>)"
    using critical_release [OF assms(1,2), of "(taken h BcacheLock s)\<lparr>bufs := ?B\<rparr>"] by simp
  also have "settled (cpus s h) = cpus s h" using assms(2,3) by simp
  finally have "release h BcacheLock ((taken h BcacheLock s)\<lparr>bufs := ?B\<rparr>) = Some (s\<lparr>bufs := ?B\<rparr>)"
    by (simp add: taken_def upd_lock_def upd_cpu_def bio_order del: fun_upd_apply)
  then show ?thesis using acquire_free [OF assms(1), of h] by (simp add: bpin_def upd_buf_def)
qed

lemma log_write_eq:
  fixes s :: "'a klog_scheme"
  assumes q: "quiet h s" and cap: "lhn s < int LOGSIZE" "lhn s < lsize s - 1" "1 \<le> outstanding s"
    and n: "blockno (bufs s b) = n" and inj: "inj_on (lhblock s) {..<nat (lhn s)}" and pos: "0 \<le> lhn s"
  shows "log_write h b s = Some (if n \<in> pins s then settle h s
    else (settle h s)\<lparr>bufs := (bufs s)(b := (bufs s b)\<lparr>refcnt := refcnt (bufs s b) + 1\<rparr>),
      lhn := lhn s + 1, lhblock := (lhblock s)(nat (lhn s) := n)\<rparr>)"
proof -
  let ?t = "taken h LogLock s" and ?i = "log_write_find (lhblock s) n (nat (lhn s)) 0"
  have free: "lock_free BcacheLock (?t\<lparr>lhblock := lb\<rparr>)" "hart_ok h (?t\<lparr>lhblock := lb\<rparr>)" "0 < noff (cpus (?t\<lparr>lhblock := lb\<rparr>) h)" for lb
    using q by (auto simp: quiet_def lock_free_def taken_def upd_lock_def upd_cpu_def cpu_ok_def)
  have cap': "\<not> (int LOGSIZE \<le> lhn s \<or> lsize s - 1 \<le> lhn s)" "\<not> outstanding s < 1" using cap by auto
  have f: "lhn ?t = lhn s" "lsize ?t = lsize s" "outstanding ?t = outstanding s" "lhblock ?t = lhblock s" "bufs ?t = bufs s"
    by (simp_all add: taken_def upd_lock_def upd_cpu_def)
  show ?thesis
  proof (cases "n \<in> pins s")
    case True
    then have i: "?i < nat (lhn s)" "lhblock s ?i = n" using log_write_find_spec(1) [OF inj] by (auto simp: pins_def)
    then have "(lhblock s)(?i := n) = lhblock s" "int ?i \<noteq> lhn s" by auto
    moreover have "?t\<lparr>lhblock := lhblock s\<rparr> = ?t" by (simp add: f(4) [symmetric])
    ultimately have "log_write h b s = release h LogLock ?t"
      using cap' n by (simp add: log_write_def klog_section [OF q] f del: fun_upd_apply)
    then show ?thesis using klog_section(2) [OF q, of ?t] True by (simp add: taken_def upd_lock_def upd_cpu_def)
  next
    case False
    then have i: "?i = nat (lhn s)" using log_write_find_spec(2) [OF inj] by (auto simp: pins_def)
    let ?B = "(bufs s)(b := (bufs s b)\<lparr>refcnt := refcnt (bufs s b) + 1\<rparr>)" and ?L = "(lhblock s)(nat (lhn s) := n)"
    have "log_write h b s = release h LogLock (?t\<lparr>lhblock := ?L, bufs := ?B, lhn := lhn s + 1\<rparr>)"
      using cap' n pos bpin_locked [OF free, of b ?L] by (simp add: log_write_def klog_section [OF q] f i del: fun_upd_apply)
    then show ?thesis
      using klog_section(2) [OF q, of "?t\<lparr>lhblock := ?L, bufs := ?B, lhn := lhn s + 1\<rparr>"] False
      by (simp add: taken_def upd_lock_def upd_cpu_def del: fun_upd_apply)
  qed
qed

lemma klog_cpu [simp]:
  "lstart (upd_cpu h g s) = lstart s" "lsize (upd_cpu h g s) = lsize s" "outstanding (upd_cpu h g s) = outstanding s"
  "committing (upd_cpu h g s) = committing s" "ldev (upd_cpu h g s) = ldev s" "lhn (upd_cpu h g s) = lhn s"
  "lhblock (upd_cpu h g s) = lhblock s"
  by (simp_all add: upd_cpu_def)

lemma tx_log_write:
  fixes s :: "'a klog_scheme"
  assumes tx: "tx_inv h d H s" and b: "mine h d s n b" and home: "n \<notin> log_area (lstart s) (nat (lsize s))"
    and cap: "n \<in> pins s \<or> lhn s + 1 < int NBUF" "lhn s < int LOGSIZE" "lhn s < lsize s - 1" "1 \<le> outstanding s"
  shows "\<exists>t. log_write h b s = Some t \<and> tx_inv h d H t \<and> pins t = insert n (pins s) \<and> quiet_step h s t \<and> klog_frame s t \<and>
    lstart t = lstart s \<and> lsize t = lsize s \<and> outstanding t = outstanding s \<and> committing t = committing s \<and>
    lhn t = (if n \<in> pins s then lhn s else lhn s + 1) \<and>
    cview (abs_cache d t) = cview (abs_cache d s) \<and> disk t = disk s \<and> history t = history s \<and>
    (\<forall>m c. mine h d s m c \<longrightarrow> mine h d t m c)"
proof -
  note I = tx_invD [OF tx] and m = tx_mine [OF tx b] and c = committableD [OF tx_invD(4) [OF tx]]
  note eq = log_write_eq [OF I(1) cap(2-4) m(3) I(5) c(3)]
  show ?thesis
  proof (cases "n \<in> pins s")
    case True
    have q: "quiet h (settle h s)" using I(1) by simp
    have a: "abs_cache d (settle h s) = abs_cache d s" "cache_ok d (settle h s) = cache_ok d s"
      by (rule abs_cache_cong, simp_all)+
    have p: "pins (settle h s) = pins s" by (simp add: pins_def)
    have "klog_frame s (settle h s)" by (simp add: klog_frame_def upd_cpu_def)
    moreover have "tx_inv h d H (settle h s)" using tx q by (simp add: tx_inv_def a p)
    moreover have "mine h d (settle h s) m c" if "mine h d s m c" for m c using that by (simp add: mine_def a)
    ultimately show ?thesis using True eq by (simp add: a p insert_absorb quiet_step_settle)
  next
    case False
    obtain t where t: "bpin h b s = Some t" "cache_step h d s t (pinned n (abs_cache d s))"
      using bcache.pn_law [of h s d n b] I(1,2) b m(1) False by (auto simp: I(8))
    then have te: "t = (settle h s)\<lparr>bufs := (bufs s)(b := (bufs s b)\<lparr>refcnt := refcnt (bufs s b) + 1\<rparr>)\<rparr>"
      by (simp add: bpin_eq [OF I(1)])
    have ct: "cache_ok d t" "abs_cache d t = pinned n (abs_cache d s)" "quiet_step h s t" "bio_frame s t"
      using t(2) by (simp_all add: cache_step_def)
    note ft = bio_frame_klog [OF ct(4)]
    let ?k = "nat (lhn s)" and ?u = "t\<lparr>lhn := lhn s + 1, lhblock := (lhblock s)(nat (lhn s) := n)\<rparr>"
    have lw: "log_write h b s = Some ?u" using eq False te by simp
    have k: "nat (lhn s + 1) = Suc ?k" using c(3) by simp
    have pu: "pins ?u = insert n (pins s)" by (auto simp: pins_def k lessThan_Suc)
    have dt: "disk t = disk s" "history t = history s"
      using arg_cong [OF ct(2), of cdisk] arg_cong [OF ct(2), of chist] by (simp_all add: pinned_def)
    have inj: "inj_on ((lhblock s)(?k := n)) {..<Suc ?k}"
      using I(5) False by (auto simp: lessThan_Suc inj_on_def pins_def)
    have com: "committable (lstart s) (nat (lsize s)) (lhn s + 1) ((lhblock s)(?k := n)) (disk s)"
      using I(4) home cap(2,3) c(3) by (auto simp: committable_def k less_Suc_eq)
    have me: "me_pid h ?u = me_pid h s" using quiet_step_pid [OF ct(3)] by (simp add: me_pid_def)
    have "tx_inv h d H ?u"
      unfolding tx_inv_def pu me using ct I quiet_step_quiet [OF ct(3) I(1)] inj com cap(1) False m(1)
      by (auto simp: ft dt pinned_def k)
    moreover have "mine h d ?u m c" if "mine h d s m c" for m c
      using step_mine [OF t(2) I(2) that] mine_abs(5) [OF I(2) that] by (simp add: pinned_def mine_def me_pid_def)
    moreover have "klog_frame s ?u"
      using klog_frame_bio [OF ct(4)] by (blast intro: klog_frame_trans klog_frame_upd)
    ultimately show ?thesis
      using lw pu ft dt ct(2,3) False by (auto simp: quiet_step_klog pinned_def)
  qed
qed

text \<open>The use of the log that the comment above \<open>log_write\<close> describes: read a block, change it, log it, release it.\<close>

definition tx_put :: "nat \<Rightarrow> uint \<Rightarrow> uint \<Rightarrow> bytes \<Rightarrow> 'a klog_scheme \<Rightarrow> 'a klog_scheme option" where
  "tx_put h d n v s = do {
     (b, s) \<leftarrow> bread h d n s;
     s \<leftarrow> log_write h b (set_data b v s);
     brelse h b s
   }"

lemma tx_put_spec:
  fixes s :: "'a klog_scheme"
  assumes tx: "tx_inv h d {} s" and home: "n \<notin> log_area (lstart s) (nat (lsize s))"
    and cap: "lhn s + 1 < int NBUF" "lhn s < lsize s - 1" "1 \<le> outstanding s"
  shows "\<exists>t. tx_put h d n v s = Some t \<and> tx_inv h d {} t \<and> quiet_step h s t \<and> klog_frame s t \<and>
    pins t = insert n (pins s) \<and> lstart t = lstart s \<and> lsize t = lsize s \<and> outstanding t = outstanding s \<and>
    committing t = committing s \<and> lhn t \<le> lhn s + 1 \<and>
    cview (abs_cache d t) = (cview (abs_cache d s))(n := v) \<and> disk t = disk s \<and> history t = history s"
proof -
  note I = tx_invD [OF tx]
  have "card (pins s \<union> {}) < NBUF" using card_pins [OF tx] I(6) by (simp add: NBUF_def MAXOPBLOCKS_def)
  with tx_bread [OF tx, of n] obtain b t where t: "bread h d n s = Some (b, t)" "mine h d t n b"
    "tx_inv h d {n} t" "pins t = pins s" "quiet_step h s t" "bio_frame s t"
    "cview (abs_cache d t) = cview (abs_cache d s)" "disk t = disk s" "history t = history s" by auto
  note ft = bio_frame_klog [OF t(6)]
  let ?u = "set_data b v t"
  note u = tx_set [OF t(3,2), where v = v] and fu = bio_frame_klog [OF tx_set(4) [OF t(3,2), where v = v]]
  have LN: "int LOGSIZE = int NBUF" by (simp add: LOGSIZE_def NBUF_def)
  have "\<exists>w. log_write h b ?u = Some w \<and> tx_inv h d {n} w \<and> pins w = insert n (pins ?u) \<and> quiet_step h ?u w \<and> klog_frame ?u w \<and>
    lstart w = lstart ?u \<and> lsize w = lsize ?u \<and> outstanding w = outstanding ?u \<and> committing w = committing ?u \<and>
    lhn w = (if n \<in> pins ?u then lhn ?u else lhn ?u + 1) \<and>
    cview (abs_cache d w) = cview (abs_cache d ?u) \<and> disk w = disk ?u \<and> history w = history ?u \<and>
    (\<forall>m c. mine h d ?u m c \<longrightarrow> mine h d w m c)"
    by (rule tx_log_write [OF u(1) u(8) [OF t(2)]]) (use home cap LN in \<open>auto simp: fu ft\<close>)
  then obtain w where w: "log_write h b ?u = Some w" "tx_inv h d {n} w" "pins w = insert n (pins ?u)" "quiet_step h ?u w"
    "klog_frame ?u w" "lstart w = lstart ?u" "lsize w = lsize ?u" "outstanding w = outstanding ?u" "committing w = committing ?u"
    "lhn w = (if n \<in> pins ?u then lhn ?u else lhn ?u + 1)"
    "cview (abs_cache d w) = cview (abs_cache d ?u)" "disk w = disk ?u" "history w = history ?u" "mine h d w n b"
    using u(8) [OF t(2)] by blast
  obtain v' where v': "brelse h b w = Some v'" "tx_inv h d ({n} - {n}) v'" "pins v' = pins w" "quiet_step h w v'" "bio_frame w v'"
    "cview (abs_cache d v') = cview (abs_cache d w)" "disk v' = disk w" "history v' = history w"
    using tx_brelse [OF w(2,14)] w(3) by auto
  have "quiet_step h s v'" using t(5) u(3) w(4) v'(4) by (blast intro: quiet_step_trans)
  moreover have "klog_frame s v'"
    using klog_frame_bio [OF t(6)] klog_frame_bio [OF u(4)] w(5) klog_frame_bio [OF v'(5)] by (blast intro: klog_frame_trans)
  ultimately show ?thesis
    using t w v' u bio_frame_klog [OF v'(5)] fu ft by (auto simp: tx_put_def)
qed

section \<open>Beginning and ending an operation\<close>

lemma begin_op_eq:
  fixes s :: "'a klog_scheme"
  assumes "quiet h s" "\<not> begin_op_blocked s"
  shows "begin_op h s = Some ((settle h s)\<lparr>outstanding := outstanding s + 1\<rparr>)"
proof -
  let ?t = "taken h LogLock s"
  have "begin_op_blocked ?t = begin_op_blocked s" "outstanding ?t = outstanding s"
    by (simp_all add: begin_op_blocked_def taken_def upd_lock_def upd_cpu_def)
  then have "begin_op h s = release h LogLock (?t\<lparr>outstanding := outstanding s + 1\<rparr>)"
    using assms(2) by (simp add: begin_op_def klog_section [OF assms(1)])
  then show ?thesis
    using klog_section(2) [OF assms(1), of "?t\<lparr>outstanding := outstanding s + 1\<rparr>"]
    by (simp add: taken_def upd_lock_def upd_cpu_def)
qed

lemma wakeup_log:
  fixes s t :: "'a klog_scheme"
  assumes q: "quiet h s" and t: "cpus t = cpus (taken h LogLock s)" "locks t = locks (taken h LogLock s)" "procs t = procs s"
  shows "\<exists>Q. wakeup h ChLog t = Some (t\<lparr>procs := Q\<rparr>) \<and> wakes (procs s) Q"
proof -
  let ?Q = "woken_procs ChLog (cproc (cpus t h)) {..<NPROC} (procs t)"
  have deep: "hart_ok h t" "0 < noff (cpus t h)" using q t(1) by (auto simp: quiet_def cpu_ok_def taken_def)
  have "proc_locks_free (cproc (cpus t h)) t"
    using q t(2) by (auto simp: proc_locks_free_def quiet_def lock_free_def taken_def)
  then have "wakeup h ChLog t = Some ((settle h t)\<lparr>procs := ?Q\<rparr>)" by (rule wakeup_eq [OF deep(1)])
  moreover have "settle h t = t" using deep by (simp add: upd_cpu_id)
  ultimately show ?thesis using wakes_woken [of "procs t"] by (auto simp: t(3))
qed

lemma end_op_eq:
  fixes s :: "'a klog_scheme"
  assumes q: "quiet h s" and o: "outstanding s = 1" "committing s = 0"
    and com: "commit h ((settle h s)\<lparr>outstanding := 0, committing := 1\<rparr>) = Some t" and qt: "quiet h t"
  shows "\<exists>Q. end_op h s = Some ((settle h t)\<lparr>procs := Q, committing := 0\<rparr>) \<and> wakes (procs t) Q"
proof -
  let ?t = "taken h LogLock s" and ?u = "taken h LogLock t"
  have f: "outstanding ?t = 1" "committing ?t = 0"
    using o by (simp_all add: taken_def upd_lock_def upd_cpu_def)
  have rel: "release h LogLock (?t\<lparr>outstanding := 0, committing := 1\<rparr>) = Some ((settle h s)\<lparr>outstanding := 0, committing := 1\<rparr>)"
    using klog_section(2) [OF q, of "?t\<lparr>outstanding := 0, committing := 1\<rparr>"] by (simp add: taken_def upd_lock_def upd_cpu_def)
  obtain Q where Q: "wakeup h ChLog (?u\<lparr>committing := 0\<rparr>) = Some (?u\<lparr>committing := 0, procs := Q\<rparr>)" "wakes (procs t) Q"
    using wakeup_log [OF qt, of "?u\<lparr>committing := 0\<rparr>"] by (auto simp: taken_def)
  have "release h LogLock (?u\<lparr>committing := 0, procs := Q\<rparr>) = Some ((settle h t)\<lparr>procs := Q, committing := 0\<rparr>)"
    using klog_section(2) [OF qt, of "?u\<lparr>committing := 0, procs := Q\<rparr>"]
    by (simp add: taken_def upd_lock_def upd_cpu_def)
  then have "end_op h s = Some ((settle h t)\<lparr>procs := Q, committing := 0\<rparr>)"
    using f rel com Q(1) by (simp add: end_op_def klog_section(1) [OF q] klog_section(1) [OF qt])
  then show ?thesis using Q(2) by blast
qed

section \<open>A whole transaction\<close>

text \<open>The disks that the writes \<open>ws\<close> of a commit leave at a crash: all of them recover to the old or to the new contents.\<close>

definition atomic_writes :: "uint \<Rightarrow> nat \<Rightarrow> (uint \<Rightarrow> bytes) \<Rightarrow> (uint \<Rightarrow> bytes) \<Rightarrow> (uint \<times> bytes) list \<Rightarrow> bool" where
  "atomic_writes st ls D V ws \<longleftrightarrow> (\<forall>k. log_disk_ok st ls (apply_writes (take k ws) D) \<and>
     (same_homes st ls (logical st (apply_writes (take k ws) D)) D \<or> same_homes st ls (logical st (apply_writes (take k ws) D)) V))"

lemma view_unpinned:
  assumes "log_inv h d s"
  shows "\<forall>m. m \<notin> lhblock s ` {..<nat (lhn s)} \<longrightarrow> cview (abs_cache d s) m = disk s m"
  using clean_abs [OF log_invD(2) [OF assms]] log_invD(7) [OF assms] by auto

lemma commit_disk:
  assumes c: "committable st ls n blk D" and V: "\<forall>m. m \<notin> blk ` {..<nat n} \<longrightarrow> V m = D m"
  defines "E \<equiv> apply_writes (commit_writes st n blk V D) D"
  shows "log_disk_ok st ls E" "hdr_n (E st) = 0" "same_homes st ls E V"
proof -
  let ?C = "committed_disk st n blk V D"
  have E: "E = apply_writes (recovery_writes st blk ?C) ?C"
    by (simp add: E_def commit_writes_def committed_disk_def apply_writes_append)
  note C = committed_disk_ok [OF c, where V = V]
  show "log_disk_ok st ls E"
    using recovery_prefix [OF C(1), of "length (recovery_writes st blk ?C)" blk] by (simp add: E)
  show "hdr_n (E st) = 0" using recovery_result(2) [OF C(1)] by (simp add: E)
  have new: "apply_writes (map (\<lambda>i. (blk i, V (blk i))) [0..<k]) ?C m = (if m \<in> blk ` {..<k} then V m else ?C m)" for k m
    by (induction k) (auto simp: apply_writes_append less_Suc_eq)
  have "logical st ?C m = V m" if "m \<notin> log_area st ls" for m
    using V C(3) [OF that] by (simp add: logical_def C(2) new)
  then show "same_homes st ls E V" using recovery_result(1) [OF C(1)] by (simp add: E same_homes_def)
qed

lemma commit_full:
  fixes s :: "'a klog_scheme"
  assumes inv: "log_inv h d s"
  shows "\<exists>t ws. commit h s = Some t \<and> log_inv h d t \<and> lhn t = 0 \<and> history t = history s @ ws \<and> disk t = apply_writes ws (disk s) \<and>
    same_homes (lstart s) (nat (lsize s)) (disk t) (cview (abs_cache d s)) \<and>
    atomic_writes (lstart s) (nat (lsize s)) (disk s) (cview (abs_cache d s)) ws \<and> quiet_step h s t \<and> klog_frame s t \<and>
    lstart t = lstart s \<and> lsize t = lsize s \<and> outstanding t = outstanding s \<and> committing t = committing s"
proof (cases "lhn s = 0")
  case True
  note c = committableD [OF log_invD(5) [OF inv]] and V = view_unpinned [OF inv]
  have V': "cview (abs_cache d s) = disk s" using V True by auto
  have "logical (lstart s) (disk s) = disk s" using c(2) by (rule logical_empty)
  then have "commit h s = Some s \<and> log_inv h d s \<and> lhn s = 0 \<and> history s = history s @ [] \<and> disk s = apply_writes [] (disk s) \<and>
    same_homes (lstart s) (nat (lsize s)) (disk s) (cview (abs_cache d s)) \<and>
    atomic_writes (lstart s) (nat (lsize s)) (disk s) (cview (abs_cache d s)) []"
    using True inv c(1) by (simp add: commit_def V' same_homes_def atomic_writes_def)
  then show ?thesis using quiet_step_refl [of h s] klog_frame_refl [of s] by blast
next
  case False
  note I = log_invD [OF inv] and c = committableD [OF log_invD(5) [OF inv]] and V = view_unpinned [OF inv]
  let ?W = "commit_writes (lstart s) (lhn s) (lhblock s) (cview (abs_cache d s)) (disk s)"
  obtain t where t: "commit h s = Some t" "quiet h t" "cache_ok d t" "quiet_step h s t" "klog_frame s t"
    "abs_cache d t = unpin_set (lhblock s ` {..<nat (lhn s)}) (wrote ?W (abs_cache d s))"
    "lstart t = lstart s" "lsize t = lsize s" "ldev t = d" "outstanding t = outstanding s" "committing t = committing s" "lhn t = 0"
    using commit_spec [OF inv] False c(3) by auto
  have D: "disk t = apply_writes ?W (disk s)" "history t = history s @ ?W"
    using arg_cong [OF t(6), of cdisk] arg_cong [OF t(6), of chist] by simp_all
  note E = commit_disk [OF I(5) V, folded D(1)]
  have "crefs (abs_cache d t) n = 0" for n
    using I(4) I(7) [of n] by (auto simp: t(6) calm_def)
  then have "calm (abs_cache d t)" using I(4) by (auto simp: calm_def t(6) NBUF_def MAXOPBLOCKS_def)
  then have "log_inv h d t"
    using t \<open>\<And>n. crefs (abs_cache d t) n = 0\<close> E(1,2) by (simp add: log_inv_def committable_def log_disk_ok_def)
  moreover have "atomic_writes (lstart s) (nat (lsize s)) (disk s) (cview (abs_cache d s)) ?W"
    using commit_prefix [OF I(5) V] by (simp add: atomic_writes_def same_homes_def)
  ultimately show ?thesis using t D E(3) by blast
qed

fun tx_run :: "nat \<Rightarrow> uint \<Rightarrow> (uint \<times> bytes) list \<Rightarrow> 'a klog_scheme \<Rightarrow> 'a klog_scheme option" where
  "tx_run h d [] s = Some s"
| "tx_run h d ((n, v) # us) s = do { s \<leftarrow> tx_put h d n v s; tx_run h d us s }"

lemma tx_run_spec:
  fixes s :: "'a klog_scheme"
  assumes "tx_inv h d {} s" "\<forall>u\<in>set us. fst u \<notin> log_area (lstart s) (nat (lsize s))"
    and "lhn s + int (length us) < int NBUF" "lhn s + int (length us) < lsize s" "1 \<le> outstanding s"
  shows "\<exists>t. tx_run h d us s = Some t \<and> tx_inv h d {} t \<and> quiet_step h s t \<and> klog_frame s t \<and>
    lstart t = lstart s \<and> lsize t = lsize s \<and> outstanding t = outstanding s \<and> committing t = committing s \<and>
    cview (abs_cache d t) = apply_writes us (cview (abs_cache d s)) \<and> disk t = disk s \<and> history t = history s"
  using assms
proof (induction us arbitrary: s)
  case (Cons u us)
  obtain n v where u: "u = (n, v)" by force
  obtain t where t: "tx_put h d n v s = Some t" "tx_inv h d {} t" "quiet_step h s t" "klog_frame s t"
    "lstart t = lstart s" "lsize t = lsize s" "outstanding t = outstanding s" "committing t = committing s" "lhn t \<le> lhn s + 1"
    "cview (abs_cache d t) = (cview (abs_cache d s))(n := v)" "disk t = disk s" "history t = history s"
    using tx_put_spec [of h d s n v] Cons.prems u by auto
  have "\<exists>w. tx_run h d us t = Some w \<and> tx_inv h d {} w \<and> quiet_step h t w \<and> klog_frame t w \<and>
    lstart w = lstart t \<and> lsize w = lsize t \<and> outstanding w = outstanding t \<and> committing w = committing t \<and>
    cview (abs_cache d w) = apply_writes us (cview (abs_cache d t)) \<and> disk w = disk t \<and> history w = history t"
    by (rule Cons.IH) (use t Cons.prems in auto)
  then show ?case using t u quiet_step_trans [OF t(3)] klog_frame_trans [OF t(4)] by (auto simp del: fun_upd_apply)
qed simp

lemma klog_frame_settle: "klog_frame s (settle h s)"
  by (simp add: klog_frame_def upd_cpu_def)

lemma log_inv_upd:
  "log_inv h d (s\<lparr>outstanding := n\<rparr>) = log_inv h d s" "log_inv h d (s\<lparr>committing := n\<rparr>) = log_inv h d s"
  by (simp_all add: log_inv_def)

lemma abs_settle [simp]: "abs_cache d (settle h s) = abs_cache d s" "cache_ok d (settle h s) = cache_ok d s"
  by (rule abs_cache_cong, simp_all)+

lemma log_inv_settle: "log_inv h d s \<Longrightarrow> log_inv h d (settle h s)"
  by (simp add: log_inv_def)

lemma log_inv_procs: "log_inv h d s \<Longrightarrow> wakes (procs s) Q \<Longrightarrow> log_inv h d (s\<lparr>procs := Q\<rparr>)"
  using abs_cache_cong [of "s\<lparr>procs := Q\<rparr>" s d] by (simp add: log_inv_def quiet_def lock_free_def)

lemma recovers_atomically:
  assumes at: "atomic_writes (logstart sb) ls D V ws" and cr: "crashes h d sb (apply_writes (take k ws) D) E"
    and r: "rebooted h d E (r :: klog)"
  shows "\<exists>u. initlog h d sb r = Some u \<and>
    (same_homes (logstart sb) ls (disk u) D \<or> same_homes (logstart sb) ls (disk u) V)"
proof -
  have ok: "log_disk_ok (logstart sb) ls (apply_writes (take k ws) D)"
    and old_new: "same_homes (logstart sb) ls (logical (logstart sb) (apply_writes (take k ws) D)) D \<or>
      same_homes (logstart sb) ls (logical (logstart sb) (apply_writes (take k ws) D)) V"
    using at by (auto simp: atomic_writes_def)
  note E = crashes_logical [OF cr ok]
  show ?thesis using recovery_installs [OF conjunct1 [OF E] r] old_new E by (auto simp: same_homes_def)
qed

lemma transaction_run:
  fixes s :: "'a klog_scheme"
  assumes inv: "log_inv h d s" and idle: "lhn s = 0" "outstanding s = 0" "committing s = 0"
    and len: "length us \<le> MAXOPBLOCKS" "int (length us) < lsize s"
    and home: "\<forall>u\<in>set us. fst u \<notin> log_area (lstart s) (nat (lsize s))"
  shows "\<exists>t ws. do { s \<leftarrow> begin_op h s; s \<leftarrow> tx_run h d us s; end_op h s } = Some t \<and>
    log_inv h d t \<and> lhn t = 0 \<and> outstanding t = 0 \<and> committing t = 0 \<and> lstart t = lstart s \<and> lsize t = lsize s \<and>
    same_homes (lstart s) (nat (lsize s)) (disk t) (apply_writes us (disk s)) \<and> history t = history s @ ws \<and>
    atomic_writes (lstart s) (nat (lsize s)) (disk s) (apply_writes us (disk s)) ws"
proof -
  note I = log_invD [OF inv]
  let ?s = "(settle h s)\<lparr>outstanding := 1\<rparr>"
  have V: "cview (abs_cache d s) = disk s" using view_unpinned [OF inv] idle(1) by auto
  have b: "begin_op h s = Some ?s"
    using begin_op_eq [OF I(1)] idle by (simp add: begin_op_blocked_def LOGSIZE_def MAXOPBLOCKS_def)
  have "tx_inv h d {} ?s" using inv by (simp add: tx_inv_log_inv log_inv_upd log_inv_settle)
  then have "\<exists>t. tx_run h d us ?s = Some t \<and> tx_inv h d {} t \<and> quiet_step h ?s t \<and> klog_frame ?s t \<and>
    lstart t = lstart ?s \<and> lsize t = lsize ?s \<and> outstanding t = outstanding ?s \<and> committing t = committing ?s \<and>
    cview (abs_cache d t) = apply_writes us (cview (abs_cache d ?s)) \<and> disk t = disk ?s \<and> history t = history ?s"
    by (rule tx_run_spec) (use home len idle in \<open>auto simp: NBUF_def MAXOPBLOCKS_def\<close>)
  then obtain t where t: "tx_run h d us ?s = Some t" "tx_inv h d {} t" "lstart t = lstart s" "lsize t = lsize s"
    "outstanding t = 1" "committing t = 0" "cview (abs_cache d t) = apply_writes us (disk s)" "disk t = disk s" "history t = history s"
    using V idle by auto
  have lt: "log_inv h d t" using t(2) by (simp add: tx_inv_log_inv)
  let ?t = "(settle h t)\<lparr>outstanding := 0, committing := 1\<rparr>"
  have "log_inv h d ?t" using lt by (simp add: log_inv_upd log_inv_settle)
  from commit_full [OF this] obtain u ws where u: "commit h ?t = Some u" "log_inv h d u" "lhn u = 0" "history u = history s @ ws"
    "same_homes (lstart s) (nat (lsize s)) (disk u) (apply_writes us (disk s))"
    "atomic_writes (lstart s) (nat (lsize s)) (disk s) (apply_writes us (disk s)) ws"
    "lstart u = lstart s" "lsize u = lsize s" "outstanding u = 0"
    by (auto simp: t)
  obtain Q where Q: "end_op h t = Some ((settle h u)\<lparr>procs := Q, committing := 0\<rparr>)" "wakes (procs u) Q"
    using end_op_eq [OF log_invD(1) [OF lt] t(5,6) u(1) log_invD(1) [OF u(2)]] by blast
  have "log_inv h d ((settle h u)\<lparr>procs := Q, committing := 0\<rparr>)"
    using log_inv_procs [OF log_inv_settle [OF u(2)], of Q] Q(2) by (simp add: log_inv_upd)
  then show ?thesis using b t(1) Q(1) u by auto
qed

lemma initlog_log_inv:
  fixes r :: "'a klog_scheme"
  assumes r: "rebooted h d D r" and ok: "log_disk_ok (logstart sb) (nat (sint (nlog sb))) D"
  shows "\<exists>t. initlog h d sb r = Some t \<and> log_inv h d t \<and> lhn t = 0 \<and> lstart t = logstart sb \<and> lsize t = sint (nlog sb) \<and>
    outstanding t = outstanding r \<and> committing t = committing r"
proof -
  have r': "quiet h r" "cache_ok d r" "no_users (abs_cache d r)" "disk r = D" using r by (simp_all add: rebooted_def)
  obtain t block where t: "initlog h d sb r = Some t" "quiet h t" "cache_ok d t"
    "abs_cache d t = wrote (recovery_writes (logstart sb) block D) (abs_cache d r)"
    "lstart t = logstart sb" "lsize t = sint (nlog sb)" "ldev t = d" "lhn t = 0" "outstanding t = outstanding r" "committing t = committing r"
    using initlog_spec [OF r'(1-3)] ok r'(4) by blast
  have Dt: "disk t = apply_writes (recovery_writes (logstart sb) block D) D"
    using arg_cong [OF t(4), of cdisk] r'(4) by simp
  have "log_disk_ok (logstart sb) (nat (sint (nlog sb))) (disk t)" "hdr_n (disk t (logstart sb)) = 0"
    using recovery_prefix [OF ok, of "length (recovery_writes (logstart sb) block D)" block] recovery_result(2) [OF ok]
    by (simp_all add: Dt)
  moreover have "no_users (abs_cache d t)" using r'(3) by (simp add: t(4) no_users_def)
  ultimately have "log_inv h d t"
    using t no_users_calm(1) by (auto simp: log_inv_def committable_def no_users_def log_disk_ok_def)
  then show ?thesis using t by blast
qed

section \<open>Properties\<close>

text \<open>A machine that boots with a zeroed disk with a log of 30 blocks from block 2 on, for examples.\<close>

definition example_sb :: superblock where
  "example_sb = \<lparr>magic = 0x10203040, sbsize = 1000, nblocks = 954, ninodes = 200, nlog = 30, logstart = 2, inodestart = 32,
     bmapstart = 45\<rparr>"

definition boot_klog :: klog where
  "boot_klog = bio.extend (boot_bio\<lparr>disk := (\<lambda>n. replicate BSIZE 0)\<rparr>)
     \<lparr>lstart = 0, lsize = 0, outstanding = 0, committing = 0, ldev = 0, lhn = 0, lhblock = (\<lambda>i. 0)\<rparr>"

lemma boot_klog_fields:
  "cpus boot_klog = cpus boot_bio" "locks boot_klog = locks boot_bio" "bufs boot_klog = bufs boot_bio"
  "disk boot_klog = (\<lambda>n. replicate BSIZE 0)" "outstanding boot_klog = 0" "committing boot_klog = 0"
  by (simp_all add: boot_klog_def boot_bio_def bio.extend_def)

lemma binit_klog:
  "outstanding (binit s) = outstanding s" "committing (binit s) = committing s" "disk (binit s) = disk s"
proof -
  have loop: "outstanding (binit_loop k s) = outstanding s \<and> committing (binit_loop k s) = committing s \<and> disk (binit_loop k s) = disk s"
    for k and s :: "'b klog_scheme"
    by (induction k) (auto simp: binit_body_def initsleeplock_def initlock_def upd_slock_def upd_lock_def upd_buf_def Let_def)
  show "outstanding (binit s) = outstanding s" "committing (binit s) = committing s" "disk (binit s) = disk s"
    by (simp_all add: binit_def loop Let_def initlock_def upd_lock_def upd_buf_def)
qed

lemma boot_klog_rebooted: "rebooted 0 1 (\<lambda>n. replicate BSIZE 0) (binit boot_klog)"
proof -
  have "quiet 0 boot_klog" by (simp add: quiet_def boot_klog_fields lock_free_def) (simp add: boot_bio_def idle_cpu_def free_lock_def cpu_ok_def)
  then have "quiet 0 (binit boot_klog)" by (rule quiet_binit)
  moreover have "cache_ok 1 (binit boot_klog)" "no_users (abs_cache 1 (binit boot_klog))"
    using binit_ok(1,2) [of boot_klog 1] by (simp_all add: boot_klog_fields boot_bio_def no_users_def)
  ultimately show ?thesis by (simp add: rebooted_def binit_klog boot_klog_fields)
qed

lemma get32_zeros: "off + 4 \<le> k \<Longrightarrow> get32 off (replicate k 0) = 0"
  by (simp add: get32_def slice_def take_bit_word_def numeral_eq_Suc)

lemma boot_log_ok: "log_disk_ok (logstart example_sb) (nat (sint (nlog example_sb))) (\<lambda>n. replicate BSIZE 0)"
  by (simp add: log_disk_ok_def example_sb_def hdr_n_def BSIZE_def get32_zeros LOGSIZE_def)

text \<open>
  C1: a file system operation on an idle log (\<open>begin_op\<close>, up to \<open>MAXOPBLOCKS\<close> logged block updates,
  \<open>end_op\<close>) returns, commits, and installs its updates at their home locations.  And it is atomic: if the machine stops after any number
  of its disk writes, and stops again any number of times, anywhere, while it recovers, then the \<open>initlog\<close> that is finally allowed
  to finish leaves the home blocks either all as they were before the operation or all with the updates.
\<close>

theorem transaction_atomic:
  fixes s :: klog
  assumes "log_inv h d s" "lhn s = 0" "outstanding s = 0" "committing s = 0" "logstart sb = lstart s"
    and "length us \<le> MAXOPBLOCKS" "int (length us) < lsize s"
    and "\<forall>u\<in>set us. fst u \<notin> log_area (lstart s) (nat (lsize s))"
  shows "\<exists>t ws. do { s \<leftarrow> begin_op h s; s \<leftarrow> tx_run h d us s; end_op h s } = Some t \<and>
    log_inv h d t \<and> lhn t = 0 \<and> outstanding t = 0 \<and> committing t = 0 \<and>
    same_homes (lstart s) (nat (lsize s)) (disk t) (apply_writes us (disk s)) \<and> history t = history s @ ws \<and>
    (\<forall>k D (r :: klog). crashes h' d sb (apply_writes (take k ws) (disk s)) D \<longrightarrow> rebooted h' d D r \<longrightarrow>
      (\<exists>u. initlog h' d sb r = Some u \<and> (same_homes (lstart s) (nat (lsize s)) (disk u) (disk s) \<or>
        same_homes (lstart s) (nat (lsize s)) (disk u) (apply_writes us (disk s)))))"
proof -
  note R = recovers_atomically [of sb "nat (lsize s)" "disk s" "apply_writes us (disk s)", unfolded assms(5)]
  from transaction_run [OF assms(1-4,6-8)] obtain t ws
    where t: "do { s \<leftarrow> begin_op h s; s \<leftarrow> tx_run h d us s; end_op h s } = Some t"
      "log_inv h d t \<and> lhn t = 0 \<and> outstanding t = 0 \<and> committing t = 0 \<and>
       same_homes (lstart s) (nat (lsize s)) (disk t) (apply_writes us (disk s)) \<and> history t = history s @ ws"
      "atomic_writes (lstart s) (nat (lsize s)) (disk s) (apply_writes us (disk s)) ws" by blast
  have "\<forall>k D (r :: klog). crashes h' d sb (apply_writes (take k ws) (disk s)) D \<longrightarrow> rebooted h' d D r \<longrightarrow>
      (\<exists>u. initlog h' d sb r = Some u \<and> (same_homes (lstart s) (nat (lsize s)) (disk u) (disk s) \<or>
        same_homes (lstart s) (nat (lsize s)) (disk u) (apply_writes us (disk s))))"
    using R [OF t(3)] by blast
  with t show ?thesis by (intro exI [of _ t] exI [of _ ws]) simp
qed

theorem transaction_atomic_witness:
  "\<exists>s. initlog 0 1 example_sb (binit boot_klog) = Some s \<and>
    (\<exists>t ws. do { s \<leftarrow> begin_op 0 s; s \<leftarrow> tx_run 0 1 [(46, replicate BSIZE 1), (45, replicate BSIZE 2)] s; end_op 0 s } = Some t \<and>
    log_inv 0 1 t \<and> lhn t = 0 \<and> outstanding t = 0 \<and> committing t = 0 \<and>
    same_homes (lstart s) (nat (lsize s)) (disk t) (apply_writes [(46, replicate BSIZE 1), (45, replicate BSIZE 2)] (disk s)) \<and>
    history t = history s @ ws \<and>
    (\<forall>k D (r :: klog). crashes 1 1 example_sb (apply_writes (take k ws) (disk s)) D \<longrightarrow> rebooted 1 1 D r \<longrightarrow>
      (\<exists>u. initlog 1 1 example_sb r = Some u \<and> (same_homes (lstart s) (nat (lsize s)) (disk u) (disk s) \<or>
        same_homes (lstart s) (nat (lsize s)) (disk u) (apply_writes [(46, replicate BSIZE 1), (45, replicate BSIZE 2)] (disk s))))))"
proof -
  obtain s where s: "initlog 0 1 example_sb (binit boot_klog) = Some s" "log_inv 0 1 s" "lhn s = 0" "lstart s = logstart example_sb"
    "lsize s = sint (nlog example_sb)" "outstanding s = 0" "committing s = 0"
    using initlog_log_inv [OF boot_klog_rebooted boot_log_ok] by (auto simp: binit_klog boot_klog_fields)
  have "n \<notin> log_area 2 30" if "n = 45 \<or> n = 46" for n :: uint
  proof
    assume "n \<in> log_area 2 30"
    then obtain i where "i < 30" "n = 2 + of_nat i" by (auto simp: log_area_def)
    then have "unat n = 2 + i" by (auto simp: unat_word_ariths unsigned_of_nat take_bit_nat_eq_self)
    then show False using that \<open>i < 30\<close> by auto
  qed
  then have "\<forall>u\<in>set [(46, replicate BSIZE 1), (45, replicate BSIZE 2)]. fst u \<notin> log_area (lstart s) (nat (lsize s))"
    by (simp add: s(4,5) example_sb_def)
  from transaction_atomic [OF s(2,3,6,7) s(4) [symmetric] _ _ this, of 1] show ?thesis
    using s(1,5) by (simp add: example_sb_def MAXOPBLOCKS_def)
qed

text \<open>
  C6: on every well-formed disk, \<open>initlog\<close> after a reboot returns, installs the committed transaction (the home blocks
  become the logical disk), and marks the log empty; and every disk that a crash during this recovery leaves behind is well-formed
  and has the same logical contents, so recovery can be repeated.
\<close>

theorem log_recovery:
  fixes r :: klog
  assumes "log_disk_ok (logstart sb) ls D" "rebooted h d D r"
  shows "\<exists>u ws. initlog h d sb r = Some u \<and> history u = history r @ ws \<and> disk u = apply_writes ws D \<and> cache_ok d u \<and>
    hdr_n (disk u (logstart sb)) = 0 \<and> same_homes (logstart sb) ls (disk u) (logical (logstart sb) D) \<and>
    (\<forall>k. log_disk_ok (logstart sb) ls (apply_writes (take k ws) D) \<and>
      same_homes (logstart sb) ls (logical (logstart sb) (apply_writes (take k ws) D)) (logical (logstart sb) D))"
  using recovery_installs [OF assms] by blast

theorem log_recovery_witness:
  "\<exists>u ws. initlog 0 1 example_sb (binit boot_klog) = Some u \<and> history u = history (binit boot_klog) @ ws \<and>
    disk u = apply_writes ws (\<lambda>n. replicate BSIZE 0) \<and> cache_ok 1 u \<and>
    hdr_n (disk u (logstart example_sb)) = 0 \<and>
    same_homes (logstart example_sb) (nat (sint (nlog example_sb))) (disk u) (logical (logstart example_sb) (\<lambda>n. replicate BSIZE 0)) \<and>
    (\<forall>k. log_disk_ok (logstart example_sb) (nat (sint (nlog example_sb))) (apply_writes (take k ws) (\<lambda>n. replicate BSIZE 0)) \<and>
      same_homes (logstart example_sb) (nat (sint (nlog example_sb)))
        (logical (logstart example_sb) (apply_writes (take k ws) (\<lambda>n. replicate BSIZE 0)))
        (logical (logstart example_sb) (\<lambda>n. replicate BSIZE 0)))"
  by (rule log_recovery [OF boot_log_ok boot_klog_rebooted])



end
