(* ===== verification/Vm.thy ===== *)
theory Vm
  imports Kalloc
begin

text \<open>
  Virtual memory, \<^verbatim>\<open>kernel/vm.c\<close>: the three-level Sv39 page tables, which live in pages of
  the physical memory, and the copies between kernel and user memory.  The buffer on the kernel's
  side of \<open>copyin\<close> and \<open>copyout\<close> is an object given by its bytes.
\<close>

section \<open>Page table entries\<close>

definition PTE_V :: uint64 where "PTE_V = push_bit 0 1"
definition PTE_R :: uint64 where "PTE_R = push_bit 1 1"
definition PTE_W :: uint64 where "PTE_W = push_bit 2 1"
definition PTE_X :: uint64 where "PTE_X = push_bit 3 1"
definition PTE_U :: uint64 where "PTE_U = push_bit 4 1"

definition PA2PTE :: "uint64 \<Rightarrow> uint64" where
  "PA2PTE pa = push_bit 10 (drop_bit 12 pa)"

definition PTE2PA :: "uint64 \<Rightarrow> uint64" where
  "PTE2PA pte = push_bit 12 (drop_bit 10 pte)"

definition PTE_FLAGS :: "uint64 \<Rightarrow> uint64" where
  "PTE_FLAGS pte = pte AND 0x3FF"

definition PXSHIFT :: "nat \<Rightarrow> nat" where
  "PXSHIFT level = PGSHIFT + 9 * level"

definition PX :: "nat \<Rightarrow> uint64 \<Rightarrow> uint64" where
  "PX level va = drop_bit (PXSHIFT level) va AND 0x1FF"

section \<open>Operations\<close>

text \<open>The address of \<open>pagetable[i]\<close>, an array of 64-bit words.\<close>

definition pte_at :: "uint64 \<Rightarrow> uint64 \<Rightarrow> uint64" where
  "pte_at pt i = pt + 8 * i"

fun walk_loop ::
  "nat \<Rightarrow> uint64 \<Rightarrow> uint64 \<Rightarrow> bool \<Rightarrow> nat \<Rightarrow> 'a kmem_scheme \<Rightarrow> (uint64 \<times> 'a kmem_scheme) option" where
  "walk_loop h pt va alloc 0 s = Some (pte_at pt (PX 0 va), s)"
| "walk_loop h pt va alloc (Suc l) s =
     (let pte = pte_at pt (PX (Suc l) va); e = load64 (pmem s) pte
      in if e AND PTE_V \<noteq> 0 then walk_loop h (PTE2PA e) va alloc l s
         else if \<not> alloc then Some (0, s)
         else do {
           (pg, s) \<leftarrow> kalloc h s;
           (if pg = 0 then Some (0, s)
            else do {
              let s = s\<lparr>pmem := memset pg 0 (ucast PGSIZE) (pmem s)\<rparr>;
              let s = s\<lparr>pmem := store64 pte (PA2PTE pg OR PTE_V) (pmem s)\<rparr>;
              walk_loop h pg va alloc l s
            })
         })"

definition walk ::
  "nat \<Rightarrow> uint64 \<Rightarrow> uint64 \<Rightarrow> bool \<Rightarrow> 'a kmem_scheme \<Rightarrow> (uint64 \<times> 'a kmem_scheme) option" where
  "walk h pt va alloc s = (if va \<ge> MAXVA then None else walk_loop h pt va alloc 2 s)"

definition walkaddr :: "nat \<Rightarrow> uint64 \<Rightarrow> uint64 \<Rightarrow> 'a kmem_scheme \<Rightarrow> uint64 option" where
  "walkaddr h pt va s =
     (if va \<ge> MAXVA then Some 0
      else do {
        (pte, s) \<leftarrow> walk h pt va False s;
        (if pte = 0 then Some 0
         else let e = load64 (pmem s) pte
           in if e AND PTE_V = 0 then Some 0
              else if e AND PTE_U = 0 then Some 0
              else Some (PTE2PA e))
      })"

text \<open>The loop of \<open>mappages\<close>; the result is 0 or -1.\<close>

partial_function (option) mappages_loop ::
  "nat \<Rightarrow> uint64 \<Rightarrow> uint64 \<Rightarrow> uint64 \<Rightarrow> uint64 \<Rightarrow> uint64 \<Rightarrow> 'a kmem_scheme \<Rightarrow> (int \<times> 'a kmem_scheme) option"
where
  "mappages_loop h pt a lst pa perm s =
     Option.bind (walk h pt a True s) (\<lambda>(pte, s).
       if pte = 0 then Some (-1, s)
       else if load64 (pmem s) pte AND PTE_V \<noteq> 0 then None
       else let s = s\<lparr>pmem := store64 pte (PA2PTE pa OR perm OR PTE_V) (pmem s)\<rparr>
         in if a = lst then Some (0, s)
            else mappages_loop h pt (a + PGSIZE) lst (pa + PGSIZE) perm s)"

definition mappages ::
  "nat \<Rightarrow> uint64 \<Rightarrow> uint64 \<Rightarrow> uint64 \<Rightarrow> uint64 \<Rightarrow> uint64 \<Rightarrow> 'a kmem_scheme \<Rightarrow> (int \<times> 'a kmem_scheme) option"
where
  "mappages h pt va len pa perm s =
     (if len = 0 then None
      else mappages_loop h pt (PGROUNDDOWN va) (PGROUNDDOWN (va + len - 1)) pa perm s)"

definition kvmmap ::
  "nat \<Rightarrow> uint64 \<Rightarrow> uint64 \<Rightarrow> uint64 \<Rightarrow> uint64 \<Rightarrow> uint64 \<Rightarrow> 'a kmem_scheme \<Rightarrow> 'a kmem_scheme option" where
  "kvmmap h kpgtbl va pa len perm s = do {
     (r, s) \<leftarrow> mappages h kpgtbl va len pa perm s;
     (if r \<noteq> 0 then None else Some s)
   }"

partial_function (option) uvmunmap_loop ::
  "nat \<Rightarrow> uint64 \<Rightarrow> uint64 \<Rightarrow> uint64 \<Rightarrow> bool \<Rightarrow> 'a kmem_scheme \<Rightarrow> 'a kmem_scheme option" where
  "uvmunmap_loop h pt a lim do_free s =
     (if a < lim
      then Option.bind (walk h pt a False s) (\<lambda>(pte, s).
        if pte = 0 then None
        else if load64 (pmem s) pte AND PTE_V = 0 then None
        else if PTE_FLAGS (load64 (pmem s) pte) = PTE_V then None
        else Option.bind (if do_free then kfree h (PTE2PA (load64 (pmem s) pte)) s else Some s)
          (\<lambda>s. uvmunmap_loop h pt (a + PGSIZE) lim do_free (s\<lparr>pmem := store64 pte 0 (pmem s)\<rparr>)))
      else Some s)"

definition uvmunmap ::
  "nat \<Rightarrow> uint64 \<Rightarrow> uint64 \<Rightarrow> uint64 \<Rightarrow> bool \<Rightarrow> 'a kmem_scheme \<Rightarrow> 'a kmem_scheme option" where
  "uvmunmap h pt va npages do_free s =
     (if va mod PGSIZE \<noteq> 0 then None
      else uvmunmap_loop h pt va (va + npages * PGSIZE) do_free s)"

definition uvmcreate :: "nat \<Rightarrow> 'a kmem_scheme \<Rightarrow> (uint64 \<times> 'a kmem_scheme) option" where
  "uvmcreate h s = do {
     (pt, s) \<leftarrow> kalloc h s;
     (if pt = 0 then Some (0, s)
      else Some (pt, s\<lparr>pmem := memset pt 0 (ucast PGSIZE) (pmem s)\<rparr>))
   }"

text \<open>\<open>uvminit\<close>: \<open>src\<close> is the array \<open>initcode\<close>; \<open>kalloc\<close> is not checked.\<close>

definition uvminit :: "nat \<Rightarrow> uint64 \<Rightarrow> bytes \<Rightarrow> uint \<Rightarrow> 'a kmem_scheme \<Rightarrow> 'a kmem_scheme option" where
  "uvminit h pt src usz s =
     (if ucast usz \<ge> PGSIZE \<or> length src < unat usz then None
      else do {
        (mm, s) \<leftarrow> kalloc h s;
        let s = s\<lparr>pmem := memset mm 0 (ucast PGSIZE) (pmem s)\<rparr>;
        (r, s) \<leftarrow> mappages h pt 0 PGSIZE mm (PTE_W OR PTE_R OR PTE_X OR PTE_U) s;
        Some (s\<lparr>pmem := store_bytes mm (take (unat usz) src) (pmem s)\<rparr>)
      })"

definition uvmdealloc ::
  "nat \<Rightarrow> uint64 \<Rightarrow> uint64 \<Rightarrow> uint64 \<Rightarrow> 'a kmem_scheme \<Rightarrow> (uint64 \<times> 'a kmem_scheme) option" where
  "uvmdealloc h pt oldsz newsz s =
     (if newsz \<ge> oldsz then Some (oldsz, s)
      else if PGROUNDUP newsz < PGROUNDUP oldsz
      then do {
        let npages = (PGROUNDUP oldsz - PGROUNDUP newsz) div PGSIZE;
        s \<leftarrow> uvmunmap h pt (PGROUNDUP newsz) (scast (ucast npages :: uint)) True s;
        Some (newsz, s)
      }
      else Some (newsz, s))"

partial_function (option) uvmalloc_loop ::
  "nat \<Rightarrow> uint64 \<Rightarrow> uint64 \<Rightarrow> uint64 \<Rightarrow> uint64 \<Rightarrow> 'a kmem_scheme \<Rightarrow> (uint64 \<times> 'a kmem_scheme) option" where
  "uvmalloc_loop h pt oldsz a newsz s =
     (if a < newsz
      then Option.bind (kalloc h s) (\<lambda>(mm, s).
        if mm = 0
        then Option.bind (uvmdealloc h pt a oldsz s) (\<lambda>(_, s). Some (0, s))
        else let s = s\<lparr>pmem := memset mm 0 (ucast PGSIZE) (pmem s)\<rparr>
          in Option.bind (mappages h pt a PGSIZE mm (PTE_W OR PTE_X OR PTE_R OR PTE_U) s) (\<lambda>(r, s).
            if r \<noteq> 0
            then Option.bind (kfree h mm s) (\<lambda>s.
              Option.bind (uvmdealloc h pt a oldsz s) (\<lambda>(_, s). Some (0, s)))
            else uvmalloc_loop h pt oldsz (a + PGSIZE) newsz s))
      else Some (newsz, s))"

definition uvmalloc ::
  "nat \<Rightarrow> uint64 \<Rightarrow> uint64 \<Rightarrow> uint64 \<Rightarrow> 'a kmem_scheme \<Rightarrow> (uint64 \<times> 'a kmem_scheme) option" where
  "uvmalloc h pt oldsz newsz s =
     (if newsz < oldsz then Some (oldsz, s)
      else uvmalloc_loop h pt (PGROUNDUP oldsz) (PGROUNDUP oldsz) newsz s)"

text \<open>
  \<open>freewalk\<close>, from the entry \<open>i\<close> of a page on; the recursive call handles a lower-level page.
\<close>

partial_function (option) freewalk_from ::
  "nat \<Rightarrow> uint64 \<Rightarrow> nat \<Rightarrow> 'a kmem_scheme \<Rightarrow> 'a kmem_scheme option" where
  "freewalk_from h pt i s =
     (if i < 512
      then let pte = load64 (pmem s) (pte_at pt (of_nat i))
        in if pte AND PTE_V \<noteq> 0 \<and> pte AND (PTE_R OR PTE_W OR PTE_X) = 0
           then Option.bind (freewalk_from h (PTE2PA pte) 0 s) (\<lambda>s.
             freewalk_from h pt (Suc i) (s\<lparr>pmem := store64 (pte_at pt (of_nat i)) 0 (pmem s)\<rparr>))
           else if pte AND PTE_V \<noteq> 0 then None
           else freewalk_from h pt (Suc i) s
      else kfree h pt s)"

definition freewalk :: "nat \<Rightarrow> uint64 \<Rightarrow> 'a kmem_scheme \<Rightarrow> 'a kmem_scheme option" where
  "freewalk h pt s = freewalk_from h pt 0 s"

definition uvmfree :: "nat \<Rightarrow> uint64 \<Rightarrow> uint64 \<Rightarrow> 'a kmem_scheme \<Rightarrow> 'a kmem_scheme option" where
  "uvmfree h pt usz s = do {
     s \<leftarrow> (if usz > 0 then uvmunmap h pt 0 (PGROUNDUP usz div PGSIZE) True s else Some s);
     freewalk h pt s
   }"

text \<open>The error exit of \<open>uvmcopy\<close> and its loop, from the address \<open>i\<close>.\<close>

definition uvmcopy_err :: "nat \<Rightarrow> uint64 \<Rightarrow> uint64 \<Rightarrow> 'a kmem_scheme \<Rightarrow> (int \<times> 'a kmem_scheme) option" where
  "uvmcopy_err h new i s = do {
     s \<leftarrow> uvmunmap h new 0 (i div PGSIZE) True s;
     Some (-1, s)
   }"

partial_function (option) uvmcopy_loop ::
  "nat \<Rightarrow> uint64 \<Rightarrow> uint64 \<Rightarrow> uint64 \<Rightarrow> uint64 \<Rightarrow> 'a kmem_scheme \<Rightarrow> (int \<times> 'a kmem_scheme) option" where
  "uvmcopy_loop h old new i usz s =
     (if i < usz
      then Option.bind (walk h old i False s) (\<lambda>(pte, s).
        if pte = 0 then None
        else if load64 (pmem s) pte AND PTE_V = 0 then None
        else let pa = PTE2PA (load64 (pmem s) pte); flags = PTE_FLAGS (load64 (pmem s) pte)
          in Option.bind (kalloc h s) (\<lambda>(mm, s).
            if mm = 0 then uvmcopy_err h new i s
            else let s = s\<lparr>pmem := memmove mm pa (ucast PGSIZE) (pmem s)\<rparr>
              in Option.bind (mappages h new i PGSIZE mm flags s) (\<lambda>(r, s).
                if r \<noteq> 0
                then Option.bind (kfree h mm s) (\<lambda>s. uvmcopy_err h new i s)
                else uvmcopy_loop h old new (i + PGSIZE) usz s)))
      else Some (0, s))"

definition uvmcopy :: "nat \<Rightarrow> uint64 \<Rightarrow> uint64 \<Rightarrow> uint64 \<Rightarrow> 'a kmem_scheme \<Rightarrow> (int \<times> 'a kmem_scheme) option" where
  "uvmcopy h old new usz s = uvmcopy_loop h old new 0 usz s"

definition uvmclear :: "nat \<Rightarrow> uint64 \<Rightarrow> uint64 \<Rightarrow> 'a kmem_scheme \<Rightarrow> 'a kmem_scheme option" where
  "uvmclear h pt va s = do {
     (pte, s) \<leftarrow> walk h pt va False s;
     (if pte = 0 then None
      else Some (s\<lparr>pmem := store64 pte (load64 (pmem s) pte AND NOT PTE_U) (pmem s)\<rparr>))
   }"

text \<open>The number of bytes that one iteration of the copy loops handles.\<close>

definition chunk :: "uint64 \<Rightarrow> uint64 \<Rightarrow> uint64" where
  "chunk va len = (let n = PGSIZE - (va - PGROUNDDOWN va) in if n > len then len else n)"

lemma unat_chunk: "unat (chunk va len) = min (4096 - unat va mod 4096) (unat len)"
proof -
  have o: "unat (va - PGROUNDDOWN va) = unat va mod 4096" by (rule unat_PGROUNDDOWN_offset)
  have "unat (PGSIZE - (va - PGROUNDDOWN va)) = 4096 - unat va mod 4096"
    using unat_sub [of "va - PGROUNDDOWN va" PGSIZE] o
    by (simp add: PGSIZE_def word_le_nat_alt less_imp_le)
  then show ?thesis by (auto simp: chunk_def Let_def word_less_nat_alt)
qed

lemma chunk_less: "0 < len \<Longrightarrow> unat (len - chunk va len) < unat len"
proof -
  assume "0 < len"
  then have "0 < unat len" by (simp add: word_less_nat_alt)
  moreover have "0 < unat (chunk va len)" using calculation by (simp add: unat_chunk)
  moreover have "unat (len - chunk va len) = unat len - unat (chunk va len)"
    using unat_sub [of "chunk va len" len] by (simp add: unat_chunk word_le_nat_alt)
  ultimately show ?thesis by simp
qed

function copyout ::
  "nat \<Rightarrow> uint64 \<Rightarrow> uint64 \<Rightarrow> bytes \<Rightarrow> uint64 \<Rightarrow> 'a kmem_scheme \<Rightarrow> (int \<times> 'a kmem_scheme) option" where
  "copyout h pt dstva src len s =
     (if len > 0
      then let va0 = PGROUNDDOWN dstva
        in case walkaddr h pt va0 s of None \<Rightarrow> None
           | Some pa0 \<Rightarrow>
               if pa0 = 0 then Some (-1, s)
               else let n = chunk dstva len
                 in if length src < unat n then None
                    else copyout h pt (va0 + PGSIZE) (drop (unat n) src) (len - n)
                      (s\<lparr>pmem := store_bytes (pa0 + (dstva - va0)) (take (unat n) src) (pmem s)\<rparr>)
      else Some (0, s))"
  by pat_completeness auto
termination by (relation "measure (\<lambda>(h, pt, va, src, len, s). unat len)") (auto simp: chunk_less)

text \<open>\<open>copyin\<close> and \<open>copyinstr\<close> return their result and the bytes they have written to \<open>dst\<close>.\<close>

function copyin :: "nat \<Rightarrow> uint64 \<Rightarrow> uint64 \<Rightarrow> uint64 \<Rightarrow> 'a kmem_scheme \<Rightarrow> (int \<times> bytes) option" where
  "copyin h pt srcva len s =
     (if len > 0
      then let va0 = PGROUNDDOWN srcva
        in case walkaddr h pt va0 s of None \<Rightarrow> None
           | Some pa0 \<Rightarrow>
               if pa0 = 0 then Some (-1, [])
               else let n = chunk srcva len
                 in case copyin h pt (va0 + PGSIZE) (len - n) s of None \<Rightarrow> None
                    | Some (r, bs) \<Rightarrow>
                        Some (r, load_bytes (pmem s) (pa0 + (srcva - va0)) (unat n) @ bs)
      else Some (0, []))"
  by pat_completeness auto
termination by (relation "measure (\<lambda>(h, pt, va, len, s). unat len)") (auto simp: chunk_less)

text \<open>The inner loop of \<open>copyinstr\<close> over \<open>n\<close> bytes from \<open>p\<close>: the bytes written and \<open>got_null\<close>.\<close>

fun copyinstr_inner :: "mem \<Rightarrow> uint64 \<Rightarrow> nat \<Rightarrow> bytes \<times> bool" where
  "copyinstr_inner m p 0 = ([], False)"
| "copyinstr_inner m p (Suc n) =
     (if m p = 0 then ([0], True)
      else let (bs, got) = copyinstr_inner m (p + 1) n in (m p # bs, got))"

function copyinstr :: "nat \<Rightarrow> uint64 \<Rightarrow> uint64 \<Rightarrow> uint64 \<Rightarrow> 'a kmem_scheme \<Rightarrow> (int \<times> bytes) option" where
  "copyinstr h pt srcva mx s =
     (if mx > 0
      then let va0 = PGROUNDDOWN srcva
        in case walkaddr h pt va0 s of None \<Rightarrow> None
           | Some pa0 \<Rightarrow>
               if pa0 = 0 then Some (-1, [])
               else let n = chunk srcva mx
                 in case copyinstr_inner (pmem s) (pa0 + (srcva - va0)) (unat n) of (bs, got) \<Rightarrow>
                      if got then Some (0, bs)
                      else case copyinstr h pt (va0 + PGSIZE) (mx - n) s of None \<Rightarrow> None
                        | Some (r, bs') \<Rightarrow> Some (r, bs @ bs')
      else Some (-1, []))"
  by pat_completeness auto
termination by (relation "measure (\<lambda>(h, pt, va, mx, s). unat mx)") (auto simp: chunk_less)

declare copyout.simps [simp del] copyin.simps [simp del] copyinstr.simps [simp del]

section \<open>Entries in memory\<close>

lemma PX_less: "unat (PX l va) < 512"
proof -
  have "PX l va \<le> 0x1FF" unfolding PX_def by (rule word_and_le1)
  then show ?thesis by (simp add: word_le_nat_alt)
qed

definition pte :: "mem \<Rightarrow> uint64 \<Rightarrow> nat \<Rightarrow> uint64" where
  "pte m p i = load64 m (pte_at p (of_nat i))"

lemma pte_in_page:
  assumes "page_aligned p" "i < 512" "k < 8"
  shows "in_page p (pte_at p (of_nat i) + of_nat k)"
proof -
  have eq: "pte_at p (of_nat i) + of_nat k = p + of_nat (8 * i + k)"
    by (simp add: pte_at_def)
  show ?thesis unfolding eq using in_page_offset [OF assms(1), of "8 * i + k"] assms(2,3) by simp
qed

lemma pte_cong:
  assumes "page_aligned p" "i < 512" "\<And>a. in_page p a \<Longrightarrow> m a = m' a"
  shows "pte m p i = pte m' p i"
  unfolding pte_def using assms pte_in_page by (intro load64_cong) blast

lemma pte_store:
  assumes "page_aligned p" "page_aligned q" "i < 512" "j < 512"
  shows "pte (store64 (pte_at p (of_nat i)) v m) q j = (if q = p \<and> j = i then v else pte m q j)"
proof (cases "q = p \<and> j = i")
  case False
  have "8 \<le> unat (pte_at q (of_nat j) - pte_at p (of_nat i))" if "page_aligned p" "page_aligned q"
    "i < 512" "j < 512" "\<not> (q = p \<and> j = i)" for p q i j
  proof (cases "q = p")
    case True
    then have ne: "i \<noteq> j" using that by auto
    have eq: "pte_at q (of_nat j) - pte_at p (of_nat i) = 8 * of_nat j - (8 * of_nat i :: uint64)"
      using True by (simp add: pte_at_def)
    have u: "unat (8 * of_nat k :: uint64) = 8 * k" if "k < 512" for k
      using that by (simp add: unat_word_ariths unat_of_nat)
    show ?thesis unfolding eq using unat_sub_if' [of "8 * of_nat j" "8 * of_nat i :: uint64"] u that ne
      by (auto split: if_splits)
  next
    case False
    show ?thesis
    proof (rule ccontr)
      assume "\<not> ?thesis"
      then obtain k where k: "k < 8" "pte_at q (of_nat j) = pte_at p (of_nat i) + of_nat k"
        using word_offset_exists [of "pte_at q (of_nat j)" "pte_at p (of_nat i)"] by (metis not_le)
      then have "in_page p (pte_at q (of_nat j))" using pte_in_page [of p i k] that by simp
      moreover have "in_page q (pte_at q (of_nat j))" using pte_in_page [of q j 0] that by simp
      ultimately show False using in_page_unique that False by blast
    qed
  qed
  from this [of p q i j] this [of q p j i] assms False
  show ?thesis by (auto simp: pte_def intro!: load64_store64_apart)
qed (simp add: pte_def)

lemma store_pte_other:
  assumes "page_aligned p" "i < 512" "\<not> in_page p a"
  shows "store64 (pte_at p (of_nat i)) v m a = m a"
proof (rule store64_other, rule ccontr)
  assume "\<not> 8 \<le> unat (a - pte_at p (of_nat i))"
  then have "in_page p a"
    using pte_in_page [OF assms(1,2), of "unat (a - pte_at p (of_nat i))"] by simp
  with assms(3) show False by blast
qed

lemma load64_zero:
  assumes "\<And>i. i < 8 \<Longrightarrow> m (a + of_nat i) = 0"
  shows "load64 m a = 0"
proof -
  have "load_le k m a = 0" if "\<And>i. i < k \<Longrightarrow> m (a + of_nat i) = 0" for k a
    using that
  proof (induction k arbitrary: a)
    case (Suc k)
    have "load_le k m (a + 1) = 0"
      using Suc.prems [of "Suc _"] by (intro Suc.IH) (simp add: add.assoc)
    then show ?case using Suc.prems [of 0] by simp
  qed simp
  then show ?thesis using assms by (simp add: load64_def)
qed

lemma pte_memset_zero:
  assumes "page_aligned p" "page_aligned q" "i < 512"
  shows "pte (memset p 0 (ucast PGSIZE) m) q i = (if q = p then 0 else pte m q i)"
proof (cases "q = p")
  case True
  then show ?thesis
    unfolding pte_def using assms pte_in_page [of p i]
    by (auto simp: memset_page intro!: load64_zero)
next
  case False
  have "pte (memset p 0 (ucast PGSIZE) m) q i = pte m q i"
    by (rule pte_cong) (use assms False in_page_unique in \<open>auto simp: memset_page\<close>)
  with False show ?thesis by simp
qed

lemma bit_PTE [simp]:
  "bit PTE_V n \<longleftrightarrow> n = 0" "bit PTE_R n \<longleftrightarrow> n = 1" "bit PTE_W n \<longleftrightarrow> n = 2" "bit PTE_X n \<longleftrightarrow> n = 3"
  "bit PTE_U n \<longleftrightarrow> n = 4"
  unfolding PTE_V_def PTE_R_def PTE_W_def PTE_X_def PTE_U_def bit_push_bit_iff bit_1_iff
  by auto

lemma PTE_V_iff: "e AND PTE_V = 0 \<longleftrightarrow> \<not> bit e 0"
proof
  assume "e AND PTE_V = 0"
  then have "\<not> bit (e AND PTE_V) 0" by simp
  then show "\<not> bit e 0" by (simp add: bit_simps)
next
  assume "\<not> bit e 0"
  then have "\<not> (bit e n \<and> n = 0)" for n by metis
  then show "e AND PTE_V = 0" by (intro bit_word_eqI) (simp add: bit_simps)
qed

lemma PA2PTE_V: "(PA2PTE pa OR f OR PTE_V) AND PTE_V \<noteq> 0" "(PA2PTE pa OR PTE_V) AND PTE_V \<noteq> 0"
  unfolding PTE_V_iff by (simp_all add: bit_simps)

lemma PTE2PA_PA2PTE:
  assumes "page_aligned pa" "pa < 2 ^ 56" "\<And>n. bit f n \<Longrightarrow> n < 10"
  shows "PTE2PA (PA2PTE pa OR f) = pa"
proof (rule bit_word_eqI)
  fix n assume n: "n < LENGTH(64)"
  have low: "\<not> bit pa n" if "n < 12"
  proof -
    have "PGROUNDDOWN pa = pa" using assms(1) by simp
    then have "pa = push_bit 12 (drop_bit 12 pa)" by (simp add: round_down_push)
    then show ?thesis using that by (metis bit_push_bit_iff not_le)
  qed
  have high: "\<not> bit pa n" if "56 \<le> n"
  proof
    assume "bit pa n"
    have "take_bit 56 pa = pa" using assms(2)
      by (simp add: take_bit_eq_mod word_unat_eq_iff unat_mod word_less_nat_alt)
    then show False using \<open>bit pa n\<close> that by (metis bit_take_bit_iff not_le)
  qed
  have "\<not> bit f k" if "10 \<le> k" for k using assms(3) [of k] that by auto
  then show "bit (PTE2PA (PA2PTE pa OR f)) n = bit pa n"
    using n low high by (cases "12 \<le> n") (auto simp: PTE2PA_def PA2PTE_def bit_simps)
qed

end
