(* ===== verification/PageTable.thy ===== *)
theory PageTable
  imports Vm
begin

text \<open>
  Page tables as trees of pages, and what \<open>walk\<close>, \<open>mappages\<close>, \<open>uvmunmap\<close> and \<open>freewalk\<close>
  do to the mapping that a tree represents.
\<close>

section \<open>Trees of page-table pages\<close>

abbreviation valid :: "uint64 \<Rightarrow> bool" where
  "valid e \<equiv> e AND PTE_V \<noteq> 0"

abbreviation child :: "mem \<Rightarrow> uint64 \<Rightarrow> nat \<Rightarrow> uint64" where
  "child m p i \<equiv> PTE2PA (pte m p i)"

text \<open>The pages of the tree of height \<open>l\<close> below the page \<open>p\<close>.\<close>

fun pt_set :: "mem \<Rightarrow> nat \<Rightarrow> uint64 \<Rightarrow> uint64 set" where
  "pt_set m 0 p = {p}"
| "pt_set m (Suc l) p = insert p (\<Union>i\<in>{i. i < 512 \<and> valid (pte m p i)}. pt_set m l (child m p i))"

text \<open>A well-formed tree: aligned pages, none of them reached in two ways.\<close>

fun pt_ok :: "mem \<Rightarrow> nat \<Rightarrow> uint64 \<Rightarrow> bool" where
  "pt_ok m 0 p \<longleftrightarrow> page_aligned p \<and> p \<noteq> 0"
| "pt_ok m (Suc l) p \<longleftrightarrow> page_aligned p \<and> p \<noteq> 0 \<and>
     (\<forall>i<512. valid (pte m p i) \<longrightarrow> pt_ok m l (child m p i) \<and> p \<notin> pt_set m l (child m p i)) \<and>
     (\<forall>i<512. \<forall>j<512. i \<noteq> j \<longrightarrow> valid (pte m p i) \<longrightarrow> valid (pte m p j) \<longrightarrow>
        pt_set m l (child m p i) \<inter> pt_set m l (child m p j) = {})"

text \<open>The entry of an address: the page and index of its lowest-level entry, and its value.\<close>

abbreviation vpn :: "nat \<Rightarrow> uint64 \<Rightarrow> nat" where
  "vpn l va \<equiv> unat (PX l va)"

fun leaf :: "mem \<Rightarrow> nat \<Rightarrow> uint64 \<Rightarrow> uint64 \<Rightarrow> (uint64 \<times> nat) option" where
  "leaf m 0 p va = Some (p, vpn 0 va)"
| "leaf m (Suc l) p va =
     (if valid (pte m p (vpn (Suc l) va)) then leaf m l (child m p (vpn (Suc l) va)) va else None)"

definition entry :: "mem \<Rightarrow> nat \<Rightarrow> uint64 \<Rightarrow> uint64 \<Rightarrow> uint64" where
  "entry m l p va = (case leaf m l p va of None \<Rightarrow> 0 | Some (q, i) \<Rightarrow> pte m q i)"

definition leaf_addr :: "(uint64 \<times> nat) option \<Rightarrow> uint64" where
  "leaf_addr x = (case x of None \<Rightarrow> 0 | Some (q, i) \<Rightarrow> pte_at q (of_nat i))"

lemma pt_set_root [simp]: "p \<in> pt_set m l p"
  by (cases l) auto

lemma pt_ok_root: "pt_ok m l p \<Longrightarrow> page_aligned p \<and> p \<noteq> 0"
  by (cases l) auto

lemma pt_ok_set: "pt_ok m l p \<Longrightarrow> q \<in> pt_set m l p \<Longrightarrow> page_aligned q \<and> q \<noteq> 0"
  by (induction l arbitrary: p) (auto dest: pt_ok_root)

lemma leaf_in_set: "leaf m l p va = Some (q, i) \<Longrightarrow> q \<in> pt_set m l p \<and> i < 512"
proof (induction l arbitrary: p)
  case (Suc l)
  then have "valid (pte m p (vpn (Suc l) va))" "q \<in> pt_set m l (child m p (vpn (Suc l) va)) \<and> i < 512"
    by (auto split: if_splits)
  with PX_less [of "Suc l" va] show ?case by auto
qed (auto simp: PX_less)

lemma PX_of_nat: "of_nat (vpn l va) = PX l va"
  by simp

text \<open>A tree depends only on the entries of its own pages.\<close>

lemma tree_cong:
  assumes "\<And>q i. q \<in> pt_set m l p \<Longrightarrow> i < 512 \<Longrightarrow> pte m' q i = pte m q i"
  shows "pt_set m' l p = pt_set m l p" "pt_ok m' l p = pt_ok m l p" "leaf m' l p va = leaf m l p va"
    "entry m' l p va = entry m l p va"
proof -
  have "pt_set m' l p = pt_set m l p \<and> pt_ok m' l p = pt_ok m l p \<and> leaf m' l p va = leaf m l p va"
    using assms
  proof (induction l arbitrary: p)
    case (Suc l)
    have p: "pte m' p i = pte m p i" if "i < 512" for i using Suc.prems that by auto
    have sub: "pt_set m' l (child m p i) = pt_set m l (child m p i) \<and>
        pt_ok m' l (child m p i) = pt_ok m l (child m p i) \<and>
        leaf m' l (child m p i) va = leaf m l (child m p i) va"
      if "i < 512" "valid (pte m p i)" for i
      using that Suc.prems by (intro Suc.IH) auto
    have 1: "pt_set m' (Suc l) p = pt_set m (Suc l) p"
      using p sub by (auto simp del: Int_iff)
    have 2: "pt_ok m' (Suc l) p = pt_ok m (Suc l) p"
      using p sub by (simp cong: conj_cong imp_cong)
    have 3: "leaf m' (Suc l) p va = leaf m (Suc l) p va"
      using p [OF PX_less] sub [OF PX_less] by simp
    show ?case using 1 2 3 by blast
  qed simp
  then show "pt_set m' l p = pt_set m l p" "pt_ok m' l p = pt_ok m l p"
      "leaf m' l p va = leaf m l p va" by blast+
  with assms leaf_in_set [of m l p va] show "entry m' l p va = entry m l p va"
    by (auto simp: entry_def split: option.splits)
qed

text \<open>Writing a lowest-level entry changes nothing else.\<close>

lemma leaf_store:
  assumes "pt_ok m l p" "leaf m l p va = Some (q, i)" "m' = store64 (pte_at q (of_nat i)) v m"
  shows "pt_set m' l p = pt_set m l p" "pt_ok m' l p" "leaf m' l p va' = leaf m l p va'"
proof -
  have al: "page_aligned q" "i < 512"
    using assms(1,2) leaf_in_set pt_ok_set by blast+
  have pte': "pte m' r j = (if r = q \<and> j = i then v else pte m r j)" if "page_aligned r" "j < 512" for r j
    using pte_store [OF al(1) that(1) al(2) that(2)] by (simp add: assms(3))
  have "pt_set m' l p = pt_set m l p \<and> pt_ok m' l p \<and> leaf m' l p va' = leaf m l p va'"
    using assms(1,2)
  proof (induction l arbitrary: p)
    case (Suc l)
    let ?k = "vpn (Suc l) va"
    have k: "valid (pte m p ?k)" "leaf m l (child m p ?k) va = Some (q, i)"
      using Suc.prems(2) by (auto split: if_splits)
    have "?k < 512" by (rule PX_less)
    have q: "q \<in> pt_set m l (child m p ?k)" using k leaf_in_set by blast
    have root: "page_aligned p" "p \<noteq> q" using Suc.prems(1) q k(1) PX_less by auto
    have p: "pte m' p j = pte m p j" if "j < 512" for j using pte' root that by simp
    have sub: "pt_set m' l (child m p j) = pt_set m l (child m p j) \<and> pt_ok m' l (child m p j) \<and>
        leaf m' l (child m p j) va' = leaf m l (child m p j) va'"
      if j: "j < 512" "valid (pte m p j)" for j
    proof (cases "j = ?k")
      case True
      with k Suc.prems(1) PX_less show ?thesis by (intro Suc.IH) auto
    next
      case False
      have ok: "pt_ok m l (child m p j)" using Suc.prems(1) j by simp
      have "q \<notin> pt_set m l (child m p j)"
        using Suc.prems(1) j False k(1) q \<open>?k < 512\<close> by (auto simp del: Int_iff)
      then have "pte m' r n = pte m r n" if "r \<in> pt_set m l (child m p j)" "n < 512" for r n
        using pte' [of r n] pt_ok_set [OF ok] that by auto
      from tree_cong [OF this] ok show ?thesis by blast
    qed
    have "pt_set m' (Suc l) p = pt_set m (Suc l) p" using p sub by auto
    moreover have "pt_ok m' (Suc l) p" using Suc.prems(1) p sub by simp
    moreover have "leaf m' (Suc l) p va' = leaf m (Suc l) p va'"
      using p [OF PX_less] sub [OF PX_less] by simp
    ultimately show ?case by blast
  qed simp
  then show "pt_set m' l p = pt_set m l p" "pt_ok m' l p" "leaf m' l p va' = leaf m l p va'" by blast+
qed

lemma entry_store:
  assumes "pt_ok m l p" "leaf m l p va = Some (q, i)"
  shows "entry (store64 (pte_at q (of_nat i)) v m) l p va' =
    (if leaf m l p va' = Some (q, i) then v else entry m l p va')"
proof -
  have al: "page_aligned q" "i < 512"
    using assms leaf_in_set pt_ok_set by blast+
  have "page_aligned r \<and> j < 512" if "leaf m l p va' = Some (r, j)" for r j
    using that assms(1) leaf_in_set pt_ok_set by blast
  then show ?thesis
    using pte_store [OF al(1) _ al(2)] leaf_store(3) [OF assms refl, of v va']
    by (auto simp: entry_def split: option.splits)
qed

text \<open>Different pages of the address space have different entries.\<close>

lemma leaf_inj:
  assumes "pt_ok m l p" "leaf m l p va = Some x" "leaf m l p va' = Some x" "k \<le> l"
  shows "PX k va = PX k va'"
  using assms
proof (induction l arbitrary: p)
  case 0
  then show ?case by (metis leaf.simps(1) le_zero_eq option.inject prod.inject word_unat_eq_iff)
next
  case (Suc l)
  let ?i = "vpn (Suc l) va" and ?j = "vpn (Suc l) va'"
  have i: "?i < 512" "valid (pte m p ?i)" "leaf m l (child m p ?i) va = Some x"
    and j: "?j < 512" "valid (pte m p ?j)" "leaf m l (child m p ?j) va' = Some x"
    using Suc.prems PX_less by (auto split: if_splits)
  have "fst x \<in> pt_set m l (child m p ?i)" "fst x \<in> pt_set m l (child m p ?j)"
    using i j leaf_in_set [of m l _ _ "fst x" "snd x"] by auto
  then have eq: "?i = ?j" using Suc.prems(1) i j by (auto simp del: Int_iff)
  show ?case
  proof (cases "k = Suc l")
    case True
    with eq show ?thesis by (simp add: word_unat_eq_iff)
  next
    case False
    then show ?thesis
      using Suc.IH [of "child m p ?i"] Suc.prems(1,4) i j eq by auto
  qed
qed

lemma bit_PX: "bit (PX k x) n \<longleftrightarrow> bit x (12 + 9 * k + n) \<and> n < 9"
proof -
  have m: "(0x1FF :: uint64) = mask 9" by (simp add: mask_eq_exp_minus_1)
  show ?thesis unfolding PX_def PXSHIFT_def PGSHIFT_def m bit_and_iff bit_drop_bit_eq bit_mask_iff
    by (auto dest: bit_imp_le_length)
qed

lemma PX_page:
  assumes "va < MAXVA" "va' < MAXVA" "\<And>k. k \<le> 2 \<Longrightarrow> PX k va = PX k va'"
  shows "PGROUNDDOWN va = PGROUNDDOWN va'"
proof -
  have high: "\<not> bit x n" if "x < MAXVA" "38 \<le> n" for x :: uint64 and n
  proof -
    have "take_bit 38 x = x" using that(1)
      by (simp add: take_bit_eq_mod word_unat_eq_iff unat_mod word_less_nat_alt)
    then show ?thesis using that(2) by (metis bit_take_bit_iff not_le)
  qed
  have "bit va n = bit va' n" if "12 \<le> n" for n
  proof (cases "n < 39")
    case True
    define k j where "k = (n - 12) div 9" and "j = (n - 12) mod 9"
    have kj: "n = 12 + 9 * k + j" "j < 9" "k \<le> 2"
      using True that by (auto simp: k_def j_def)
    then show ?thesis using bit_PX [of k va j] bit_PX [of k va' j] assms(3) [of k] by simp
  qed (use high assms in simp)
  then show ?thesis
    by (intro bit_word_eqI) (auto simp: round_down_push bit_simps)
qed

lemma PX_PGROUNDDOWN: "PX k (PGROUNDDOWN va) = PX k va"
proof (rule bit_word_eqI)
  fix n
  have "bit (PGROUNDDOWN va) (12 + 9 * k + n) = bit va (12 + 9 * k + n)"
    by (auto simp: round_down_push bit_push_bit_iff bit_drop_bit_eq add.assoc dest: bit_imp_le_length)
  then show "bit (PX k (PGROUNDDOWN va)) n = bit (PX k va) n" by (simp add: bit_PX)
qed

lemma leaf_page_cong:
  assumes "PGROUNDDOWN va = PGROUNDDOWN va'"
  shows "leaf m l p va = leaf m l p va'"
proof -
  have "PX k va = PX k va'" for k using assms PX_PGROUNDDOWN by metis
  then show ?thesis by (induction l arbitrary: p) simp_all
qed

lemma leaf_eq_iff:
  assumes "pt_ok m 2 p" "va < MAXVA" "va' < MAXVA" "leaf m 2 p va = Some x"
  shows "leaf m 2 p va' = Some x \<longleftrightarrow> PGROUNDDOWN va' = PGROUNDDOWN va"
proof
  assume "leaf m 2 p va' = Some x"
  then have "PX k va' = PX k va" if "k \<le> 2" for k
    using leaf_inj [OF assms(1) _ assms(4)] that by blast
  then show "PGROUNDDOWN va' = PGROUNDDOWN va" using assms PX_page by blast
qed (use assms(4) leaf_page_cong [of va' va m 2 p] in simp)

section \<open>Growing a tree\<close>

text \<open>A zeroed page is a tree with no mappings.\<close>

lemma zero_tree:
  assumes "page_aligned g" "g \<noteq> 0" "\<And>i. i < 512 \<Longrightarrow> pte m g i = 0"
  shows "pt_set m l g = {g}" "pt_ok m l g" "entry m l g va = 0"
proof -
  show "pt_set m l g = {g}" "pt_ok m l g" using assms by (cases l; auto)+
  show "entry m l g va = 0" using assms PX_less by (cases l) (auto simp: entry_def)
qed

text \<open>Changing the subtree below one entry.\<close>

lemma tree_lift:
  assumes ok: "pt_ok m (Suc l) p" and k: "k < 512" "valid (pte m p k)"
    and frame: "\<forall>x. (\<forall>q\<in>pt_set m l (child m p k) \<union> Q. \<not> in_page q x) \<longrightarrow> m' x = m x"
    and Q: "\<forall>q\<in>Q. page_aligned q" "Q \<inter> pt_set m (Suc l) p = {}"
    and sub: "pt_ok m' l (child m p k)" "pt_set m' l (child m p k) = pt_set m l (child m p k) \<union> Q"
  shows "\<And>i. i < 512 \<Longrightarrow> pte m' p i = pte m p i" "pt_ok m' (Suc l) p"
    "pt_set m' (Suc l) p = pt_set m (Suc l) p \<union> Q"
    "vpn (Suc l) va \<noteq> k \<Longrightarrow> entry m' (Suc l) p va = entry m (Suc l) p va"
    "vpn (Suc l) va = k \<Longrightarrow> leaf m' (Suc l) p va = leaf m' l (child m p k) va"
proof -
  let ?c = "child m p k"
  have al: "page_aligned q" if "q \<in> pt_set m (Suc l) p" for q using pt_ok_set [OF ok that] by blast
  have c_sub: "pt_set m l ?c \<subseteq> pt_set m (Suc l) p" using k by auto
  have same: "pte m' q i = pte m q i"
    if "q \<in> pt_set m (Suc l) p" "q \<notin> pt_set m l ?c" "i < 512" for q i
  proof (rule pte_cong)
    show "m' x = m x" if x: "in_page q x" for x
      using in_page_unique [of _ q x] x al \<open>q \<in> pt_set m (Suc l) p\<close> \<open>q \<notin> pt_set m l ?c\<close> Q c_sub
      by (intro frame [rule_format]) blast
  qed (use that al in auto)
  show p: "pte m' p i = pte m p i" if "i < 512" for i using same [of p i] ok k that by auto
  have others: "\<And>q n. q \<in> pt_set m l (child m p j) \<Longrightarrow> n < 512 \<Longrightarrow> pte m' q n = pte m q n"
    if "j < 512" "valid (pte m p j)" "j \<noteq> k" for j
  proof (rule same)
    fix q assume q: "q \<in> pt_set m l (child m p j)"
    then show "q \<in> pt_set m (Suc l) p" using that by auto
    have "pt_set m l (child m p j) \<inter> pt_set m l (child m p k) = {}" using ok k that by simp
    with q show "q \<notin> pt_set m l (child m p k)" by blast
  qed
  have set_j: "pt_set m' l (child m p j) = pt_set m l (child m p j) \<union> (if j = k then Q else {})"
    and ok_j: "pt_ok m' l (child m p j)" if "j < 512" "valid (pte m p j)" for j
    using tree_cong(1,2) [OF others [OF that]] sub ok that by (cases "j = k"; simp)+
  show set: "pt_set m' (Suc l) p = pt_set m (Suc l) p \<union> Q"
    using p set_j k by (auto split: if_splits)
  have disj: "pt_set m' l (child m p i) \<inter> pt_set m' l (child m p j) = {}"
    if "i < 512" "j < 512" "i \<noteq> j" "valid (pte m p i)" "valid (pte m p j)" for i j
  proof -
    have "pt_set m l (child m p i) \<inter> pt_set m l (child m p j) = {}" using ok that by simp
    moreover have "Q \<inter> pt_set m l (child m p n) = {}" if "n < 512" "valid (pte m p n)" for n
      using Q(2) that by auto
    ultimately show ?thesis using set_j that by (auto split: if_splits)
  qed
  have "p \<notin> pt_set m' l (child m p j)" if "j < 512" "valid (pte m p j)" for j
    using set_j [OF that] ok Q(2) that by auto
  then show "pt_ok m' (Suc l) p" using ok p ok_j disj by simp
  show "entry m' (Suc l) p va = entry m (Suc l) p va" if "vpn (Suc l) va \<noteq> k"
    using tree_cong(4) [OF others [OF PX_less _ that]] p [OF PX_less] by (simp add: entry_def)
  show "leaf m' (Suc l) p va = leaf m' l ?c va" if "vpn (Suc l) va = k"
    using that p [OF k(1)] k by simp
qed

text \<open>Installing a zeroed page below an invalid entry.\<close>

lemma tree_install:
  assumes ok: "pt_ok m (Suc l) p" and k: "k < 512" "\<not> valid (pte m p k)"
    and g: "page_aligned g" "g \<noteq> 0" "g \<notin> pt_set m (Suc l) p" "valid e" "PTE2PA e = g"
    and pte': "\<And>q i. page_aligned q \<Longrightarrow> i < 512 \<Longrightarrow> pte m' q i =
      (if q = p \<and> i = k then e else if q = g then 0 else pte m q i)"
  shows "pt_ok m' (Suc l) p" "pt_set m' (Suc l) p = insert g (pt_set m (Suc l) p)"
    "entry m' (Suc l) p va = entry m (Suc l) p va"
proof -
  have pa: "page_aligned p" "p \<noteq> g" using ok g(3) by auto
  have root: "pte m' p i = (if i = k then e else pte m p i)" if "i < 512" for i
    using pte' [OF pa(1) that] pa(2) by auto
  have new: "pt_set m' l g = {g}" "pt_ok m' l g" "entry m' l g va = 0" for va
    using zero_tree [OF g(1,2), of m' l] pte' [OF g(1)] pa(2) by auto
  have same: "pt_set m' l (child m p j) = pt_set m l (child m p j) \<and>
      pt_ok m' l (child m p j) = pt_ok m l (child m p j) \<and>
      entry m' l (child m p j) va = entry m l (child m p j) va"
    if j: "j < 512" "valid (pte m p j)" for j
  proof -
    have "pte m' q n = pte m q n" if q: "q \<in> pt_set m l (child m p j)" "n < 512" for q n
    proof -
      have "pt_ok m l (child m p j)" "q \<noteq> p" "q \<noteq> g" using ok j q g(3) by auto
      then show ?thesis using pte' [of q n] pt_ok_set q by auto
    qed
    from tree_cong [OF this] show ?thesis by blast
  qed
  have vk: "j \<noteq> k" if "valid (pte m p j)" for j using that k(2) by auto
  show set: "pt_set m' (Suc l) p = insert g (pt_set m (Suc l) p)"
    using root same new(1) k g(4,5) vk by (auto split: if_splits)
  have gj: "g \<notin> pt_set m l (child m p j)" if "j < 512" "valid (pte m p j)" for j
    using that g(3) by auto
  have old: "pt_ok m l (child m p j) \<and> p \<notin> pt_set m l (child m p j)" if "j < 512" "valid (pte m p j)" for j
    using ok that by simp
  have oldd: "pt_set m l (child m p i) \<inter> pt_set m l (child m p j) = {}"
    if "i < 512" "j < 512" "i \<noteq> j" "valid (pte m p i)" "valid (pte m p j)" for i j
    using ok that by simp
  have "pt_ok m' l (child m' p j) \<and> p \<notin> pt_set m' l (child m' p j)" if "j < 512" "valid (pte m' p j)" for j
    using that root same old new pa g by (cases "j = k") auto
  moreover have "pt_set m' l (child m' p i) \<inter> pt_set m' l (child m' p j) = {}"
    if "i < 512" "j < 512" "i \<noteq> j" "valid (pte m' p i)" "valid (pte m' p j)" for i j
    using that root same oldd new(1) gj g(5) by (cases "i = k"; cases "j = k") auto
  ultimately show "pt_ok m' (Suc l) p" using pa(1) ok by simp
  show "entry m' (Suc l) p va = entry m (Suc l) p va"
    using root [OF PX_less [of "Suc l" va]] same [OF PX_less [of "Suc l" va]] new(3) [of va] g(4,5) k(2)
    by (cases "vpn (Suc l) va = k") (auto simp: entry_def)
qed

section \<open>walk\<close>

text \<open>
  What the memory operations may change: the memory, the free list, and the meaningless part of
  the hart's record.
\<close>

definition mem_step :: "nat \<Rightarrow> 'a kmem_scheme \<Rightarrow> 'a kmem_scheme \<Rightarrow> bool" where
  "mem_step h s t \<longleftrightarrow> (\<exists>c m f. t = s\<lparr>cpus := (cpus s)(h := c), pmem := m, freelist := f\<rparr> \<and>
     (c = cpus s h \<or> c = settled (cpus s h)))"

lemma mem_step_refl [simp]: "mem_step h s s"
  unfolding mem_step_def by (rule exI [of _ "cpus s h"], rule exI [of _ "pmem s"], rule exI [of _ "freelist s"]) simp

lemma mem_step_pmem: "mem_step h s t \<Longrightarrow> mem_step h s (t\<lparr>pmem := m\<rparr>)"
  unfolding mem_step_def by (elim exE conjE, intro exI conjI) (auto simp: kmem_order)

lemma mem_step_trans:
  assumes "mem_step h s t" "mem_step h t u"
  shows "mem_step h s u"
proof -
  from assms(2) obtain c m f where u: "u = t\<lparr>cpus := (cpus t)(h := c), pmem := m, freelist := f\<rparr>"
    "c = cpus t h \<or> c = settled (cpus t h)" unfolding mem_step_def by blast
  with assms(1) have "u = s\<lparr>cpus := (cpus s)(h := c), pmem := m, freelist := f\<rparr>"
    "c = cpus s h \<or> c = settled (cpus s h)" unfolding mem_step_def by (auto simp: kmem_order)
  then show ?thesis unfolding mem_step_def by blast
qed

lemma mem_step_fields:
  "mem_step h s t \<Longrightarrow> kend t = kend s \<and> locks t = locks s \<and> procs t = procs s \<and> nextpid t = nextpid s"
  unfolding mem_step_def by auto

lemma kalloc_mem_step: "kmem_inv h ps s \<Longrightarrow> kalloc h s = Some (p, t) \<Longrightarrow> mem_step h s t"
  unfolding mem_step_def
  by (rule exI [of _ "settled (cpus s h)"], rule exI [of _ "pmem t"], rule exI [of _ "freelist t"])
    (auto simp: kalloc_eq kmem_inv_def upd_cpu_def split: if_splits)

lemma kfree_mem_step: "kmem_inv h ps s \<Longrightarrow> kfree h p s = Some t \<Longrightarrow> mem_step h s t"
  using kfree_eq [of p s h] kfree_panics [of p s h] unfolding mem_step_def
  by (intro exI [of _ "settled (cpus s h)"] exI [of _ "pmem t"] exI [of _ "freelist t"])
    (cases "heap_page p s"; auto simp: kmem_inv_def upd_cpu_def)

lemma kmem_inv_frame:
  assumes "kmem_inv h ps s" "\<And>p a. p \<in> set ps \<Longrightarrow> in_page p a \<Longrightarrow> m a = pmem s a"
  shows "kmem_inv h ps (s\<lparr>pmem := m\<rparr>)"
  using assms free_pages_frame [of ps s "s\<lparr>pmem := m\<rparr>"] by (simp add: kmem_inv_def lock_free_def)

lemma kmem_inv_pages:
  "kmem_inv h ps s \<Longrightarrow> p \<in> set ps \<Longrightarrow> page_aligned p \<and> p \<noteq> 0 \<and> p < PHYSTOP"
  using run_list_nonnull by (auto simp: kmem_inv_def free_pages_def heap_page_def)

lemma pte_at_nonzero: "page_aligned p \<Longrightarrow> p \<noteq> 0 \<Longrightarrow> i < 512 \<Longrightarrow> pte_at p (of_nat i) \<noteq> 0"
  using pte_in_page [of p i 0] in_page_unique [of p 0 0]
  by (auto simp: page_aligned_def in_page_def)

lemma pte_PX: "load64 m (pte_at p (PX l va)) = pte m p (vpn l va)"
  by (simp add: pte_def)

lemma walk_loop_look:
  assumes "pt_ok (pmem s) l p"
  shows "walk_loop h p va False l s = Some (leaf_addr (leaf (pmem s) l p va), s)"
  using assms
proof (induction l arbitrary: p)
  case (Suc l)
  then show ?case using PX_less by (simp add: leaf_addr_def pte_PX Let_def)
qed (simp add: leaf_addr_def)

lemma leaf_addr_eq_0:
  assumes "pt_ok m l p"
  shows "leaf_addr (leaf m l p va) = 0 \<longleftrightarrow> leaf m l p va = None"
  using assms leaf_in_set [of m l p va] pt_ok_set [of m l p] pte_at_nonzero
  by (auto simp: leaf_addr_def split: option.splits)

text \<open>
  \<open>walk\<close> with \<open>alloc\<close> set: it takes pages \<open>qs\<close> from the front of the free list into the tree,
  changes no mapping, and fails only when the free list is empty.
\<close>

definition grown :: "nat \<Rightarrow> nat \<Rightarrow> uint64 \<Rightarrow> uint64 list \<Rightarrow> uint64 list \<Rightarrow> 'a kmem_scheme \<Rightarrow> 'a kmem_scheme \<Rightarrow> bool" where
  "grown h l p qs ps s t \<longleftrightarrow> kmem_inv h ps t \<and> mem_step h s t \<and> pt_ok (pmem t) l p \<and>
     pt_set (pmem t) l p = pt_set (pmem s) l p \<union> set qs \<and>
     (\<forall>x. (\<forall>q\<in>pt_set (pmem s) l p \<union> set qs. \<not> in_page q x) \<longrightarrow> pmem t x = pmem s x)"

lemma walk_loop_install:
  assumes ok: "pt_ok (pmem s) (Suc l) p" and inv: "kmem_inv h (g # ps) s"
    and disj: "pt_set (pmem s) (Suc l) p \<inter> set (g # ps) = {}" and k: "k < 512" "\<not> valid (pte (pmem s) p k)"
    and al: "kalloc h s = Some (g, s1)"
    and s2: "s2 = s1\<lparr>pmem := store64 (pte_at p (of_nat k)) (PA2PTE g OR PTE_V) (memset g 0 (ucast PGSIZE) (pmem s1))\<rparr>"
  shows "grown h (Suc l) p [g] ps s s2" "entry (pmem s2) (Suc l) p va = entry (pmem s) (Suc l) p va"
    "pte (pmem s2) p k = PA2PTE g OR PTE_V" "PTE2PA (PA2PTE g OR PTE_V) = g"
    "pt_ok (pmem s2) l g" "pt_set (pmem s2) l g = {g}" "entry (pmem s2) l g va = 0"
proof -
  have g: "page_aligned g" "g \<noteq> 0" "g < PHYSTOP" using kmem_inv_pages [OF inv] by auto
  have p: "page_aligned p" "p \<noteq> g" using ok disj by auto
  have inv1: "kmem_inv h ps s1"
    using kmem.al_page [OF inv] al by auto
  have mem1: "pmem s1 x = (if in_page g x then 5 else pmem s x)" for x
    using kalloc_free_pages [of g ps s h] inv al by (fastforce simp: kmem_inv_def)
  have out: "pmem s2 x = pmem s x" if "\<not> in_page g x" "\<not> in_page p x" for x
    using that store_pte_other [OF p(1) k(1) that(2)] by (simp add: s2 memset_page mem1)
  have pte1: "pte (pmem s1) q i = pte (pmem s) q i" if "page_aligned q" "i < 512" "q \<noteq> g" for q i
    by (rule pte_cong) (use that g in_page_unique in \<open>auto simp: mem1\<close>)
  have pte2: "pte (pmem s2) q i = (if q = p \<and> i = k then PA2PTE g OR PTE_V
      else if q = g then 0 else pte (pmem s) q i)" if "page_aligned q" "i < 512" for q i
    by (cases "q = g") (simp_all add: s2 pte_store [OF p(1) that(1) k(1) that(2)]
        pte_store [OF p(1) g(1) k(1) that(2)] pte_memset_zero [OF g(1) that]
        pte_memset_zero [OF g(1) g(1) that(2)] pte1 [OF that])
  have "g < 2 ^ 56" using g(3) by (simp add: word_less_nat_alt)
  then show e: "PTE2PA (PA2PTE g OR PTE_V) = g" by (intro PTE2PA_PA2PTE) (use g in auto)
  have gn: "g \<notin> pt_set (pmem s) (Suc l) p" using disj by auto
  note inst = tree_install [OF ok k g(1,2) gn PA2PTE_V(2) e pte2]
  show "entry (pmem s2) (Suc l) p va = entry (pmem s) (Suc l) p va" by (rule inst(3))
  show "pte (pmem s2) p k = PA2PTE g OR PTE_V" using pte2 [OF p(1) k(1)] by simp
  have "kmem_inv h ps s2"
    unfolding s2
  proof (rule kmem_inv_frame [OF inv1])
    fix q a assume q: "q \<in> set ps" "in_page q a"
    have "q \<noteq> g" "q \<noteq> p" "page_aligned q"
      using q(1) kmem.inv_distinct [OF inv] disj kmem_inv_pages [OF inv1] by auto
    then have "\<not> in_page g a" "\<not> in_page p a" using in_page_unique q(2) g(1) p(1) by blast+
    then show "store64 (pte_at p (of_nat k)) (PA2PTE g OR PTE_V) (memset g 0 (ucast PGSIZE) (pmem s1)) a = pmem s1 a"
      using store_pte_other [OF p(1) k(1)] by (simp add: memset_page)
  qed
  moreover have "mem_step h s s2" unfolding s2 using kalloc_mem_step [OF inv al] by (rule mem_step_pmem)
  ultimately show "grown h (Suc l) p [g] ps s s2"
    using inst(1,2) out by (auto simp: grown_def simp del: pt_set.simps pt_ok.simps)
  show "pt_ok (pmem s2) l g" "pt_set (pmem s2) l g = {g}" "entry (pmem s2) l g va = 0"
    using zero_tree [OF g(1,2)] pte2 [OF g(1)] p(2) by auto
qed

lemma grown_trans:
  assumes "grown h l p qs (rs @ ps) s t" "grown h l p rs ps t u"
  shows "grown h l p (qs @ rs) ps s u"
  using assms unfolding grown_def by (auto intro: mem_step_trans)

lemma grown_lift:
  assumes ok: "pt_ok (pmem s) (Suc l) p" and k: "k < 512" "valid (pte (pmem s) p k)"
    and gr: "grown h l (child (pmem s) p k) qs ps s t"
    and inv: "kmem_inv h (qs @ ps) s" "pt_set (pmem s) (Suc l) p \<inter> set (qs @ ps) = {}"
    and ent: "\<And>va. entry (pmem t) l (child (pmem s) p k) va = entry (pmem s) l (child (pmem s) p k) va"
  shows "grown h (Suc l) p qs ps s t" "entry (pmem t) (Suc l) p va = entry (pmem s) (Suc l) p va"
    "vpn (Suc l) va = k \<Longrightarrow> leaf (pmem t) (Suc l) p va = leaf (pmem t) l (child (pmem s) p k) va"
proof -
  have al: "\<forall>q\<in>set qs. page_aligned q" using kmem_inv_pages [OF inv(1)] by auto
  have dj: "set qs \<inter> pt_set (pmem s) (Suc l) p = {}" using inv(2) by auto
  have fr: "\<forall>x. (\<forall>q\<in>pt_set (pmem s) l (child (pmem s) p k) \<union> set qs. \<not> in_page q x) \<longrightarrow> pmem t x = pmem s x"
    using gr unfolding grown_def by blast
  have sub: "pt_ok (pmem t) l (child (pmem s) p k)"
    "pt_set (pmem t) l (child (pmem s) p k) = pt_set (pmem s) l (child (pmem s) p k) \<union> set qs"
    using gr unfolding grown_def by blast+
  note lift = tree_lift [OF ok k fr al dj sub]
  have "pt_set (pmem s) l (child (pmem s) p k) \<subseteq> pt_set (pmem s) (Suc l) p" using k by auto
  then have "pmem t x = pmem s x" if "\<forall>q\<in>pt_set (pmem s) (Suc l) p \<union> set qs. \<not> in_page q x" for x
    using that by (intro fr [rule_format]) blast
  then show "grown h (Suc l) p qs ps s t"
    using gr lift(2,3) unfolding grown_def by (simp del: pt_set.simps pt_ok.simps)
  show "leaf (pmem t) (Suc l) p va = leaf (pmem t) l (child (pmem s) p k) va" if "vpn (Suc l) va = k"
    using lift(5) that .
  show "entry (pmem t) (Suc l) p va = entry (pmem s) (Suc l) p va"
  proof (cases "vpn (Suc l) va = k")
    case True
    then show ?thesis using lift(5) [OF True] ent [of va] k(2) by (simp add: entry_def)
  qed (use lift(4) in blast)
qed

lemma walk_loop_alloc:
  assumes "pt_ok (pmem s) l p" "kmem_inv h ps s" "pt_set (pmem s) l p \<inter> set ps = {}"
  shows "\<exists>a t qs ps'. walk_loop h p va True l s = Some (a, t) \<and> ps = qs @ ps' \<and> grown h l p qs ps' s t \<and>
    (\<forall>va'. entry (pmem t) l p va' = entry (pmem s) l p va') \<and>
    (a = 0 \<and> ps' = [] \<or> (\<exists>q i. leaf (pmem t) l p va = Some (q, i) \<and> a = pte_at q (of_nat i)))"
  using assms
proof (induction l arbitrary: p s ps)
  case 0
  then show ?case
    by (intro exI [of _ "pte_at p (PX 0 va)"] exI [of _ s] exI [of _ "[]"] exI [of _ ps]) (simp add: grown_def)
next
  case (Suc l)
  let ?k = "vpn (Suc l) va" and ?m = "pmem s"
  show ?case
  proof (cases "valid (pte ?m p ?k)")
    case True
    have c: "pt_ok ?m l (child ?m p ?k)" "pt_set ?m l (child ?m p ?k) \<inter> set ps = {}"
      using Suc.prems True PX_less by auto
    obtain a t qs ps' where w: "walk_loop h (child ?m p ?k) va True l s = Some (a, t)" "ps = qs @ ps'"
      "grown h l (child ?m p ?k) qs ps' s t"
      "\<And>va'. entry (pmem t) l (child ?m p ?k) va' = entry ?m l (child ?m p ?k) va'"
      "a = 0 \<and> ps' = [] \<or> (\<exists>q i. leaf (pmem t) l (child ?m p ?k) va = Some (q, i) \<and> a = pte_at q (of_nat i))"
      using Suc.IH [OF c(1) Suc.prems(2) c(2)] by blast
    note lift = grown_lift [OF Suc.prems(1) PX_less True w(3) _ _ w(4)]
    show ?thesis
      using w True lift Suc.prems(2,3) unfolding w(2)
      by (intro exI [of _ a] exI [of _ t] exI [of _ qs] exI [of _ ps'])
        (simp add: pte_PX Let_def del: pt_set.simps pt_ok.simps leaf.simps)
  next
    case False
    show ?thesis
    proof (cases ps)
      case Nil
      have al: "kalloc h s = Some (0, settle h s)"
        using Suc.prems(2) Nil by (intro kalloc_empty) (auto simp: kmem_inv_def)
      have "grown h (Suc l) p [] [] s (settle h s)"
        using Suc.prems Nil kmem_inv_settle kalloc_mem_step [OF Suc.prems(2) al]
        by (simp add: grown_def del: pt_set.simps pt_ok.simps)
      then show ?thesis
        using Nil al False
        by (intro exI [of _ 0] exI [of _ "settle h s"] exI [of _ "[]"]) (simp add: pte_PX Let_def del: leaf.simps)
    next
      case (Cons g ps1)
      note inv = Suc.prems(2) [unfolded Cons] and dj = Suc.prems(3) [unfolded Cons]
      obtain s1 where al: "kalloc h s = Some (g, s1)" using kmem.al_page [OF inv] by auto
      define s2 where "s2 = s1\<lparr>pmem := store64 (pte_at p (of_nat ?k)) (PA2PTE g OR PTE_V) (memset g 0 (ucast PGSIZE) (pmem s1))\<rparr>"
      note ins = walk_loop_install [OF Suc.prems(1) inv dj PX_less False al s2_def]
      have g: "g \<noteq> 0" using kmem_inv_pages [OF inv] by auto
      have inv2: "kmem_inv h ps1 s2" and ok2: "pt_ok (pmem s2) (Suc l) p"
        and set2: "pt_set (pmem s2) (Suc l) p = insert g (pt_set ?m (Suc l) p)"
        using ins(1) by (auto simp: grown_def simp del: pt_set.simps pt_ok.simps)
      have gd: "{g} \<inter> set ps1 = {}" using kmem.inv_distinct [OF inv] by simp
      obtain a t qs ps' where w: "walk_loop h g va True l s2 = Some (a, t)" "ps1 = qs @ ps'"
        "grown h l g qs ps' s2 t" "\<And>va'. entry (pmem t) l g va' = entry (pmem s2) l g va'"
        "a = 0 \<and> ps' = [] \<or> (\<exists>q i. leaf (pmem t) l g va = Some (q, i) \<and> a = pte_at q (of_nat i))"
        using Suc.IH [OF ins(5) inv2] ins(6) gd by metis
      have ch: "child (pmem s2) p ?k = g" using ins(3,4) by simp
      have val: "valid (pte (pmem s2) p ?k)" unfolding ins(3) by (rule PA2PTE_V)
      have d2: "pt_set (pmem s2) (Suc l) p \<inter> set (qs @ ps') = {}"
        using set2 dj gd w(2) by auto
      note lift = grown_lift [OF ok2 PX_less val _ _ d2, unfolded ch, OF w(3) _ w(4)]
      have "grown h (Suc l) p ([g] @ qs) ps' s t"
        using ins(1) lift(1) inv2 w(2) by (intro grown_trans [of h "Suc l" p "[g]" qs ps' s s2]) simp_all
      moreover have "entry (pmem t) (Suc l) p va' = entry ?m (Suc l) p va'" for va'
        using lift(2) inv2 w(2) ins(2) by simp
      moreover have "leaf (pmem t) (Suc l) p va = leaf (pmem t) l g va"
        using lift(3) inv2 w(2) by simp
      moreover have "walk_loop h p va True (Suc l) s = Some (a, t)"
        using False al g w(1) by (simp add: pte_PX Let_def s2_def)
      ultimately show ?thesis
        using w(2,5) Cons
        by (intro exI [of _ a] exI [of _ t] exI [of _ "g # qs"] exI [of _ ps']) (simp del: leaf.simps)
    qed
  qed
qed

lemma walk_alloc:
  assumes "va < MAXVA" "pt_ok (pmem s) 2 p" "kmem_inv h ps s" "pt_set (pmem s) 2 p \<inter> set ps = {}"
  obtains a t qs ps' where "walk h p va True s = Some (a, t)" "ps = qs @ ps'" "grown h 2 p qs ps' s t"
    "\<And>va'. entry (pmem t) 2 p va' = entry (pmem s) 2 p va'"
    "a = 0 \<and> ps' = [] \<or> a \<noteq> 0 \<and> (\<exists>q i. leaf (pmem t) 2 p va = Some (q, i) \<and> a = pte_at q (of_nat i))"
proof -
  obtain a t qs ps' where w: "walk_loop h p va True 2 s = Some (a, t)" "ps = qs @ ps'" "grown h 2 p qs ps' s t"
    "\<forall>va'. entry (pmem t) 2 p va' = entry (pmem s) 2 p va'"
    "a = 0 \<and> ps' = [] \<or> (\<exists>q i. leaf (pmem t) 2 p va = Some (q, i) \<and> a = pte_at q (of_nat i))"
    using walk_loop_alloc [OF assms(2-4), of va] by blast
  have "pt_ok (pmem t) 2 p" using w(3) by (simp add: grown_def)
  then have "pte_at q (of_nat i) \<noteq> 0" if "leaf (pmem t) 2 p va = Some (q, i)" for q i
    using leaf_addr_eq_0 [of "pmem t" 2 p va] that by (simp add: leaf_addr_def)
  then show ?thesis using that [of a t qs ps'] w assms(1) by (auto simp: walk_def)
qed

lemma walk_look:
  assumes "va < MAXVA" "pt_ok (pmem s) 2 p"
  shows "walk h p va False s = Some (leaf_addr (leaf (pmem s) 2 p va), s)"
  using assms walk_loop_look by (auto simp: walk_def not_le)

section \<open>mappages\<close>

text \<open>
  The mapping \<open>f\<close> with \<open>k\<close> pages from \<open>a\<close> on mapped to \<open>pa\<close>.
\<close>

definition map_range :: "uint64 \<Rightarrow> nat \<Rightarrow> uint64 \<Rightarrow> uint64 \<Rightarrow> (uint64 \<Rightarrow> uint64) \<Rightarrow> uint64 \<Rightarrow> uint64" where
  "map_range a k pa perm f va = (let d = PGROUNDDOWN va - a
     in if unat d < 4096 * k then PA2PTE (pa + d) OR perm OR PTE_V else f va)"

lemma map_range_0 [simp]: "map_range a 0 pa perm f = f"
  by (simp add: map_range_def fun_eq_iff)

lemma aligned_diff: "page_aligned a \<Longrightarrow> page_aligned b \<Longrightarrow> unat (a - b) mod 4096 = 0"
proof -
  assume "page_aligned a" "page_aligned b"
  then obtain k l where kl: "unat a = 4096 * k" "unat b = 4096 * l"
    by (auto simp: page_aligned_def elim!: dvdE dest!: mod_0_imp_dvd)
  have "l < 2 ^ 52" using kl unat_bound [of b] by simp
  then have "4096 * k + 2 ^ 64 - 4096 * l = 4096 * (k + (2 ^ 52 - l))" by (simp add: diff_mult_distrib2)
  then show ?thesis
    using unat_sub_if' [of a b] kl by (simp add: diff_mult_distrib2 [symmetric])
qed

lemma page_offset_Suc:
  assumes "page_aligned a" "4096 * Suc k < 2 ^ 64"
  shows "unat (PGROUNDDOWN va - a) < 4096 * Suc k \<longleftrightarrow>
    PGROUNDDOWN va = a \<or> unat (PGROUNDDOWN va - (a + PGSIZE)) < 4096 * k"
    "PGROUNDDOWN va = a \<Longrightarrow> \<not> unat (PGROUNDDOWN va - (a + PGSIZE)) < 4096 * k"
proof -
  define d where "d = PGROUNDDOWN va - a"
  have e: "PGROUNDDOWN va - (a + PGSIZE) = d - 4096" by (simp add: d_def PGSIZE_def)
  have dm: "unat d mod 4096 = 0" using aligned_diff [of "PGROUNDDOWN va" a] assms(1) by (simp add: d_def)
  have z: "d = 0 \<longleftrightarrow> PGROUNDDOWN va = a" by (simp add: d_def)
  have zero: "\<not> unat (d - 4096) < 4096 * k" if "d = 0"
  proof -
    have "unat (d - 4096) = 2 ^ 64 - 4096" using that unat_sub_if' [of 0 "4096 :: uint64"] by simp
    then show ?thesis using assms(2) by simp
  qed
  then show "PGROUNDDOWN va = a \<Longrightarrow> \<not> unat (PGROUNDDOWN va - (a + PGSIZE)) < 4096 * k"
    unfolding e z [symmetric] by blast
  have "unat (d - 4096) = unat d - 4096 \<and> 4096 \<le> unat d" if "d \<noteq> 0"
  proof -
    have "unat d \<noteq> 0" using that by (simp add: unsigned_eq_0_iff)
    with dm have "4096 \<le> unat d" by (metis dvd_imp_le mod_0_imp_dvd neq0_conv)
    then show ?thesis using unat_sub_if' [of d 4096] by simp
  qed
  then show "unat (PGROUNDDOWN va - a) < 4096 * Suc k \<longleftrightarrow>
      PGROUNDDOWN va = a \<or> unat (PGROUNDDOWN va - (a + PGSIZE)) < 4096 * k"
    unfolding e z [symmetric] d_def [symmetric] using zero by (cases "d = 0") auto
qed

lemma map_range_Suc:
  assumes "page_aligned a" "4096 * Suc k < 2 ^ 64"
  shows "map_range a (Suc k) pa perm f = map_range (a + PGSIZE) k (pa + PGSIZE) perm
    (\<lambda>va. if PGROUNDDOWN va = a then PA2PTE pa OR perm OR PTE_V else f va)"
proof
  fix va
  have "pa + PGSIZE + (PGROUNDDOWN va - (a + PGSIZE)) = pa + (PGROUNDDOWN va - a)" by simp
  then show "map_range a (Suc k) pa perm f va = map_range (a + PGSIZE) k (pa + PGSIZE) perm
      (\<lambda>va. if PGROUNDDOWN va = a then PA2PTE pa OR perm OR PTE_V else f va) va"
    using page_offset_Suc [OF assms, of va] by (auto simp: map_range_def Let_def)
qed

text \<open>One iteration: the entry of the page \<open>a\<close> is written.\<close>

lemma map_one:
  assumes ok: "pt_ok (pmem t) 2 pt" and inv: "kmem_inv h ps t" "pt_set (pmem t) 2 pt \<inter> set ps = {}"
    and a: "page_aligned a" "a < MAXVA" and lf: "leaf (pmem t) 2 pt a = Some (q, i)"
    and u: "u = t\<lparr>pmem := store64 (pte_at q (of_nat i)) v (pmem t)\<rparr>"
  shows "grown h 2 pt [] ps t u"
    "va < MAXVA \<Longrightarrow> entry (pmem u) 2 pt va = (if PGROUNDDOWN va = a then v else entry (pmem t) 2 pt va)"
proof -
  have q: "q \<in> pt_set (pmem t) 2 pt" "i < 512" "page_aligned q"
    using leaf_in_set [OF lf] pt_ok_set [OF ok] by auto
  have out: "pmem u x = pmem t x" if "\<not> in_page q x" for x
    using that store_pte_other [OF q(3,2) that] by (simp add: u)
  have "kmem_inv h ps u"
    unfolding u
  proof (rule kmem_inv_frame [OF inv(1)])
    fix p x assume p: "p \<in> set ps" "in_page p x"
    have "p \<noteq> q" "page_aligned p" using p(1) inv q(1) kmem_inv_pages [OF inv(1)] by auto
    then have "\<not> in_page q x" using in_page_unique [of p q x] p(2) q(3) by auto
    then show "store64 (pte_at q (of_nat i)) v (pmem t) x = pmem t x" using out by (simp add: u)
  qed
  moreover have "mem_step h t u" unfolding u by (rule mem_step_pmem) simp
  ultimately show "grown h 2 pt [] ps t u"
    using leaf_store(1,2) [OF ok lf, of "pmem u" v] out q(1) by (auto simp: grown_def u)
  show "entry (pmem u) 2 pt va = (if PGROUNDDOWN va = a then v else entry (pmem t) 2 pt va)"
    if "va < MAXVA"
    using entry_store [OF ok lf, of v va] leaf_eq_iff [OF ok a(2) that lf] a(1) by (simp add: u)
qed

lemma grown_ok: "grown h l p qs ps s t \<Longrightarrow> kmem_inv h ps t \<and> pt_ok (pmem t) l p \<and>
    pt_set (pmem t) l p = pt_set (pmem s) l p \<union> set qs"
  by (simp add: grown_def)

lemma mappages_step:
  assumes "pt_ok (pmem s) 2 pt" "kmem_inv h ps s" "pt_set (pmem s) 2 pt \<inter> set ps = {}"
    and "page_aligned a" "a < MAXVA" "\<not> valid (entry (pmem s) 2 pt a)"
  obtains (oom) t qs where "mappages_loop h pt a lst pa perm s = Some (-1, t)" "ps = qs"
      "grown h 2 pt qs [] s t" "\<And>va. entry (pmem t) 2 pt va = entry (pmem s) 2 pt va"
  | (mapped) u qs ps' where "mappages_loop h pt a lst pa perm s =
        (if a = lst then Some (0, u) else mappages_loop h pt (a + PGSIZE) lst (pa + PGSIZE) perm u)"
      "ps = qs @ ps'" "grown h 2 pt qs ps' s u"
      "\<And>va. va < MAXVA \<Longrightarrow> entry (pmem u) 2 pt va =
         (if PGROUNDDOWN va = a then PA2PTE pa OR perm OR PTE_V else entry (pmem s) 2 pt va)"
proof -
  obtain e t qs ps' where w: "walk h pt a True s = Some (e, t)" "ps = qs @ ps'" "grown h 2 pt qs ps' s t"
    "\<And>va. entry (pmem t) 2 pt va = entry (pmem s) 2 pt va"
    "e = 0 \<and> ps' = [] \<or> e \<noteq> 0 \<and> (\<exists>q i. leaf (pmem t) 2 pt a = Some (q, i) \<and> e = pte_at q (of_nat i))"
    using walk_alloc [OF assms(5,1,2,3)] by metis
  from w(5) show thesis
  proof
    assume e: "e = 0 \<and> ps' = []"
    then have "mappages_loop h pt a lst pa perm s = Some (-1, t)"
      using w(1) by (subst mappages_loop.simps) simp
    with e w show thesis by (intro oom [of t qs]) auto
  next
    assume "e \<noteq> 0 \<and> (\<exists>q i. leaf (pmem t) 2 pt a = Some (q, i) \<and> e = pte_at q (of_nat i))"
    then obtain q i where e: "e \<noteq> 0" "leaf (pmem t) 2 pt a = Some (q, i)" "e = pte_at q (of_nat i)" by blast
    define u where "u = t\<lparr>pmem := store64 (pte_at q (of_nat i)) (PA2PTE pa OR perm OR PTE_V) (pmem t)\<rparr>"
    have g: "kmem_inv h ps' t" "pt_ok (pmem t) 2 pt" "pt_set (pmem t) 2 pt = pt_set (pmem s) 2 pt \<union> set qs"
      using grown_ok [OF w(3)] by auto
    have dj: "pt_set (pmem t) 2 pt \<inter> set ps' = {}"
      using g(3) assms(3) kmem.inv_distinct [OF assms(2)] unfolding w(2) by auto
    note one = map_one [OF g(2,1) dj assms(4,5) e(2) u_def]
    have nv: "\<not> valid (pte (pmem t) q i)" using assms(6) w(4) [of a] e(2) by (simp add: entry_def)
    have "mappages_loop h pt a lst pa perm s =
        (if a = lst then Some (0, u) else mappages_loop h pt (a + PGSIZE) lst (pa + PGSIZE) perm u)"
      using w(1) e(1,3) nv by (subst mappages_loop.simps) (simp add: pte_def u_def Let_def)
    moreover have "grown h 2 pt (qs @ []) ps' s u"
      using w(3) one(1) by (intro grown_trans [of h 2 pt qs "[]" ps' s t u]) simp_all
    moreover have "entry (pmem u) 2 pt va =
         (if PGROUNDDOWN va = a then PA2PTE pa OR perm OR PTE_V else entry (pmem s) 2 pt va)" if "va < MAXVA" for va
      unfolding one(2) [OF that] w(4) ..
    ultimately show thesis using w(2) by (intro mapped [of u qs ps']) simp_all
  qed
qed

lemma mappages_loop_spec:
  assumes "pt_ok (pmem s) 2 pt" "kmem_inv h ps s" "pt_set (pmem s) 2 pt \<inter> set ps = {}"
    and "page_aligned a" "unat a + 4096 * n < unat MAXVA"
    and "\<And>i. i \<le> n \<Longrightarrow> \<not> valid (entry (pmem s) 2 pt (a + of_nat (4096 * i)))"
  shows "\<exists>r t qs ps' k. mappages_loop h pt a (a + of_nat (4096 * n)) pa perm s = Some (r, t) \<and> ps = qs @ ps' \<and>
    grown h 2 pt qs ps' s t \<and>
    (\<forall>va<MAXVA. entry (pmem t) 2 pt va = map_range a k pa perm (entry (pmem s) 2 pt) va) \<and>
    (r = 0 \<and> k = Suc n \<or> r = -1 \<and> ps' = [] \<and> k \<le> n)"
  using assms
proof (induction n arbitrary: a pa s ps)
  case (0 a pa s ps)
  have a: "a < MAXVA" using "0.prems"(5) by (simp add: word_less_nat_alt)
  have nv: "\<not> valid (entry (pmem s) 2 pt a)" using "0.prems"(6) [of 0] by simp
  have one: "map_range a (Suc 0) pa perm f va =
      (if PGROUNDDOWN va = a then PA2PTE pa OR perm OR PTE_V else f va)" for f va
    using map_range_Suc [OF "0.prems"(4), of 0 pa perm f] by simp
  from "0.prems"(1-4) a nv show ?case
  proof (cases rule: mappages_step [where lst = a and pa = pa and perm = perm])
    case (oom t qs)
    then show ?thesis by fastforce
  next
    case (mapped u qs ps')
    then show ?thesis
      by (intro exI [of _ 0] exI [of _ u] exI [of _ qs] exI [of _ ps'] exI [of _ "Suc 0"]) (simp add: one)
  qed
next
  case (Suc n a pa s ps)
  let ?lst = "a + of_nat (4096 * Suc n)"
  have a: "a < MAXVA" using Suc.prems(5) by (simp add: word_less_nat_alt)
  have nv: "\<not> valid (entry (pmem s) 2 pt a)" using Suc.prems(6) [of 0] by simp
  have up: "unat (a + PGSIZE) = unat a + 4096"
    using unat_add_small [of a 4096] Suc.prems(5) by (simp add: PGSIZE_def)
  have "unat ?lst = unat a + 4096 * Suc n" using Suc.prems(5) by (intro unat_add_small) simp
  then have "unat a \<noteq> unat ?lst" by simp
  then have ne: "a \<noteq> ?lst" by metis
  from Suc.prems(1-4) a nv show ?case
  proof (cases rule: mappages_step [where lst = ?lst and pa = pa and perm = perm])
    case (oom t qs)
    then show ?thesis
      by (intro exI [of _ "-1"] exI [of _ t] exI [of _ qs] exI [of _ "[]"] exI [of _ 0]) simp
  next
    case (mapped u qs ps')
    have g: "kmem_inv h ps' u" "pt_ok (pmem u) 2 pt" "pt_set (pmem u) 2 pt = pt_set (pmem s) 2 pt \<union> set qs"
      using grown_ok [OF mapped(3)] by auto
    have dj: "pt_set (pmem u) 2 pt \<inter> set ps' = {}"
      using g(3) Suc.prems(3) kmem.inv_distinct [OF Suc.prems(2)] unfolding mapped(2) by auto
    have al: "page_aligned (a + PGSIZE)" using Suc.prems(4) up by (simp add: page_aligned_def)
    have lim: "unat (a + PGSIZE) + 4096 * n < unat MAXVA" using Suc.prems(5) up by simp
    have free: "\<not> valid (entry (pmem u) 2 pt (a + PGSIZE + of_nat (4096 * i)))" if "i \<le> n" for i
    proof -
      let ?x = "a + of_nat (4096 * Suc i)"
      have eq: "a + PGSIZE + of_nat (4096 * i) = ?x" by (simp add: PGSIZE_def)
      have ux: "unat ?x = unat a + 4096 * Suc i" using Suc.prems(5) that by (intro unat_add_small) simp
      have "page_aligned ?x" using Suc.prems(4) unfolding page_aligned_def ux mod_mult_self2 .
      moreover have "?x \<noteq> a" using ux by (auto simp: word_unat_eq_iff)
      moreover have "?x < MAXVA" unfolding word_less_nat_alt ux using Suc.prems(5) that by simp
      moreover have "\<not> valid (entry (pmem s) 2 pt ?x)" using Suc.prems(6) [of "Suc i"] that by blast
      ultimately show ?thesis unfolding eq using mapped(4) [of ?x] by simp
    qed
    obtain r t qs2 ps2 k where t: "mappages_loop h pt (a + PGSIZE) (a + PGSIZE + of_nat (4096 * n)) (pa + PGSIZE) perm u = Some (r, t)"
      "ps' = qs2 @ ps2" "grown h 2 pt qs2 ps2 u t"
      "\<forall>va<MAXVA. entry (pmem t) 2 pt va = map_range (a + PGSIZE) k (pa + PGSIZE) perm (entry (pmem u) 2 pt) va"
      "r = 0 \<and> k = Suc n \<or> r = -1 \<and> ps2 = [] \<and> k \<le> n"
      using Suc.IH [OF g(2,1) dj al lim free, of "pa + PGSIZE"] by blast
    have eq: "a + PGSIZE + of_nat (4096 * n) = ?lst" by (simp add: PGSIZE_def)
    have "mappages_loop h pt a ?lst pa perm s = Some (r, t)"
      using mapped(1) ne t(1) unfolding eq by (simp only: if_False)
    moreover have "grown h 2 pt (qs @ qs2) ps2 s t"
      using mapped(2,3) t(2,3) by (intro grown_trans [of h 2 pt qs qs2 ps2 s u t]) simp_all
    moreover have "entry (pmem t) 2 pt va = map_range a (Suc k) pa perm (entry (pmem s) 2 pt) va"
      if "va < MAXVA" for va
    proof -
      have "k \<le> Suc n" using t(5) by auto
      then have "4096 * Suc k < 2 ^ 64" using Suc.prems(5) by simp
      note map_range_Suc [OF Suc.prems(4) this, of pa perm "entry (pmem s) 2 pt"]
      then show ?thesis using t(4) mapped(4) that by (simp add: map_range_def Let_def)
    qed
    ultimately show ?thesis
      using mapped(2) t(2,5)
      by (intro exI [of _ r] exI [of _ t] exI [of _ "qs @ qs2"] exI [of _ ps2] exI [of _ "Suc k"]) auto
  qed
qed

lemma range_pages:
  assumes "0 < len" "unat va + unat len \<le> unat MAXVA"
  defines "a \<equiv> PGROUNDDOWN va"
  obtains n where "PGROUNDDOWN (va + len - 1) = a + of_nat (4096 * n)" "unat a + 4096 * n < unat MAXVA"
    "\<And>x. unat (PGROUNDDOWN x - a) < 4096 * Suc n \<longleftrightarrow> a \<le> PGROUNDDOWN x \<and> PGROUNDDOWN x \<le> PGROUNDDOWN (va + len - 1)"
proof -
  define b where "b = PGROUNDDOWN (va + len - 1)"
  have l: "0 < unat len" using assms(1) by (simp add: word_less_nat_alt)
  have "unat (va + len) = unat va + unat len" using unat_add_small [of va "unat len"] assms(2) by simp
  moreover from this have "va + len \<noteq> 0" using l by auto
  ultimately have e: "unat (va + len - 1) = unat va + unat len - 1" using unat_minus_one [of "va + len"] by simp
  have ua: "unat a = unat va div 4096 * 4096" and ub: "unat b = (unat va + unat len - 1) div 4096 * 4096"
    by (simp_all add: a_def b_def unat_PGROUNDDOWN e)
  have le: "unat va div 4096 \<le> (unat va + unat len - 1) div 4096" using l by (intro div_le_mono) simp
  define n where "n = (unat va + unat len - 1) div 4096 - unat va div 4096"
  have bn: "unat b = unat a + 4096 * n" using le by (simp add: ua ub n_def diff_mult_distrib2)
  have blt: "unat b < unat MAXVA" using ub assms(2) l round_down_bounds(1) [of 4096 "unat va + unat len - 1"] by simp
  have b: "b = a + of_nat (4096 * n)" using bn unat_add_small [of a "4096 * n"] blt by (simp add: word_unat_eq_iff)
  have "unat (PGROUNDDOWN x - a) < 4096 * Suc n \<longleftrightarrow> a \<le> PGROUNDDOWN x \<and> PGROUNDDOWN x \<le> b" for x
  proof -
    define y where "y = PGROUNDDOWN x"
    obtain j k where jk: "unat y = 4096 * j" "unat a = 4096 * k" using unat_PGROUNDDOWN by (metis mult.commute y_def a_def)
    have bk: "unat b = 4096 * (k + n)" using jk bn by simp
    show ?thesis
    proof (cases "a \<le> y")
      case True
      then have "unat (y - a) = 4096 * (j - k)"
        using unat_sub [of a y] jk by (simp add: diff_mult_distrib2)
      moreover have "y \<le> b \<longleftrightarrow> j \<le> k + n" unfolding word_le_nat_alt jk bk nat_mult_le_cancel_disj by simp
      ultimately show ?thesis using True unfolding y_def [symmetric] by auto
    next
      case False
      then have "unat y < unat a" by (simp add: word_le_nat_alt)
      then have "unat (y - a) = unat y + 2 ^ 64 - unat a" using unat_sub_if' [of y a] by simp
      then have "\<not> unat (y - a) < 4096 * Suc n" using bn blt by simp
      with False show ?thesis by (simp add: y_def)
    qed
  qed
  then show thesis using that [of n] b bn blt by (simp add: b_def)
qed

lemma mappages_spec:
  assumes "pt_ok (pmem s) 2 pt" "kmem_inv h ps s" "pt_set (pmem s) 2 pt \<inter> set ps = {}"
    and "0 < len" "unat va + unat len \<le> unat MAXVA"
    and "\<And>x. x < MAXVA \<Longrightarrow> PGROUNDDOWN va \<le> PGROUNDDOWN x \<Longrightarrow> PGROUNDDOWN x \<le> PGROUNDDOWN (va + len - 1) \<Longrightarrow>
      \<not> valid (entry (pmem s) 2 pt x)"
  shows "\<exists>r t qs ps'. mappages h pt va len pa perm s = Some (r, t) \<and> ps = qs @ ps' \<and> grown h 2 pt qs ps' s t \<and>
    (r = 0 \<and> (\<forall>x<MAXVA. entry (pmem t) 2 pt x =
       (if PGROUNDDOWN va \<le> PGROUNDDOWN x \<and> PGROUNDDOWN x \<le> PGROUNDDOWN (va + len - 1)
        then PA2PTE (pa + (PGROUNDDOWN x - PGROUNDDOWN va)) OR perm OR PTE_V else entry (pmem s) 2 pt x)) \<or>
     r = -1 \<and> ps' = [] \<and> (\<exists>k. \<forall>x<MAXVA. entry (pmem t) 2 pt x =
        map_range (PGROUNDDOWN va) k pa perm (entry (pmem s) 2 pt) x))"
proof -
  let ?a = "PGROUNDDOWN va"
  obtain n where n: "PGROUNDDOWN (va + len - 1) = ?a + of_nat (4096 * n)" "unat ?a + 4096 * n < unat MAXVA"
    "\<And>x. unat (PGROUNDDOWN x - ?a) < 4096 * Suc n \<longleftrightarrow> ?a \<le> PGROUNDDOWN x \<and> PGROUNDDOWN x \<le> PGROUNDDOWN (va + len - 1)"
    using range_pages [OF assms(4,5)] by blast
  have free: "\<not> valid (entry (pmem s) 2 pt (?a + of_nat (4096 * i)))" if "i \<le> n" for i
  proof -
    let ?x = "?a + of_nat (4096 * i)"
    have ux: "unat ?x = unat ?a + 4096 * i" using that n(2) by (intro unat_add_small) simp
    have al: "page_aligned ?x" using page_aligned_PGROUNDDOWN [of va] unfolding page_aligned_def ux mod_mult_self2 .
    have "?x < MAXVA" unfolding word_less_nat_alt ux using that n(2) by simp
    moreover have "unat (PGROUNDDOWN ?x - ?a) < 4096 * Suc n"
      using al that n(2) unat_of_nat [of "4096 * i", where 'a = 64] by simp
    ultimately show ?thesis using assms(6) [of ?x] n(3) [of ?x] by blast
  qed
  have mp: "mappages h pt va len pa perm s = mappages_loop h pt ?a (?a + of_nat (4096 * n)) pa perm s"
    using assms(4) n(1) by (auto simp: mappages_def)
  obtain r t qs ps' k where t: "mappages_loop h pt ?a (?a + of_nat (4096 * n)) pa perm s = Some (r, t)"
    "ps = qs @ ps'" "grown h 2 pt qs ps' s t"
    "\<forall>x<MAXVA. entry (pmem t) 2 pt x = map_range ?a k pa perm (entry (pmem s) 2 pt) x"
    "r = 0 \<and> k = Suc n \<or> r = -1 \<and> ps' = [] \<and> k \<le> n"
    using mappages_loop_spec [OF assms(1-3) page_aligned_PGROUNDDOWN n(2) free, of pa perm] by blast
  have eq: "map_range ?a (Suc n) pa perm f x = (if ?a \<le> PGROUNDDOWN x \<and> PGROUNDDOWN x \<le> PGROUNDDOWN (va + len - 1)
     then PA2PTE (pa + (PGROUNDDOWN x - ?a)) OR perm OR PTE_V else f x)" for f x
    unfolding map_range_def Let_def n(3) ..
  show ?thesis
    unfolding mp
    by (intro exI [of _ r] exI [of _ t] exI [of _ qs] exI [of _ ps']) (use t eq in auto)
qed

lemma walk_loop_hit:
  "leaf (pmem s) l p va = Some (q, i) \<Longrightarrow> walk_loop h p va al l s = Some (pte_at q (of_nat i), s)"
  by (induction l arbitrary: p) (auto simp: pte_PX Let_def split: if_splits)

lemma entry_leaf: "valid (entry m l p va) \<Longrightarrow> \<exists>q i. leaf m l p va = Some (q, i) \<and> entry m l p va = pte m q i"
  by (auto simp: entry_def split: option.splits)

lemma entry_page: "entry m l p (PGROUNDDOWN va) = entry m l p va"
  using leaf_page_cong [of "PGROUNDDOWN va" va m l p] by (simp add: entry_def)

lemma PGROUNDDOWN_MAXVA: "va < MAXVA \<Longrightarrow> PGROUNDDOWN va < MAXVA"
  using round_down_bounds(1) [of 4096 "unat va"] by (simp add: word_less_nat_alt unat_PGROUNDDOWN)

lemma mappages_remap:
  assumes "pt_ok (pmem s) 2 pt" "va < MAXVA" "valid (entry (pmem s) 2 pt va)"
  shows "mappages h pt va len pa perm s = None"
proof -
  obtain q i where l: "leaf (pmem s) 2 pt (PGROUNDDOWN va) = Some (q, i)" "valid (pte (pmem s) q i)"
    using entry_leaf [of "pmem s" 2 pt "PGROUNDDOWN va"] assms(3) by (auto simp: entry_page)
  have "walk h pt (PGROUNDDOWN va) True s = Some (pte_at q (of_nat i), s)"
    using walk_loop_hit [OF l(1)] PGROUNDDOWN_MAXVA [OF assms(2)] by (auto simp: walk_def not_le)
  moreover have "pte_at q (of_nat i) \<noteq> 0"
    using leaf_addr_eq_0 [OF assms(1), of "PGROUNDDOWN va"] l(1) by (simp add: leaf_addr_def)
  ultimately show ?thesis
    using l(2) by (simp add: mappages_def) (subst mappages_loop.simps, simp add: pte_def)
qed

section \<open>Looking up user addresses\<close>

definition uentry :: "mem \<Rightarrow> uint64 \<Rightarrow> uint64 \<Rightarrow> uint64 option" where
  "uentry m pt va = (let e = entry m 2 pt va
     in if va < MAXVA \<and> valid e \<and> e AND PTE_U \<noteq> 0 then Some (PTE2PA e) else None)"

lemma walkaddr_eq:
  assumes "pt_ok (pmem s) 2 pt"
  shows "walkaddr h pt va s = Some (case uentry (pmem s) pt va of None \<Rightarrow> 0 | Some pa \<Rightarrow> pa)"
proof (cases "va < MAXVA")
  case True
  show ?thesis
  proof (cases "leaf (pmem s) 2 pt va")
    case None
    then show ?thesis
      using True walk_look [OF True assms] by (simp add: walkaddr_def uentry_def entry_def leaf_addr_def Let_def not_le)
  next
    case (Some x)
    obtain q i where x: "x = (q, i)" by (cases x)
    have "pte_at q (of_nat i) \<noteq> 0" using leaf_addr_eq_0 [OF assms, of va] Some x by (simp add: leaf_addr_def)
    then show ?thesis
      using True walk_look [OF True assms] Some x
      by (auto simp: walkaddr_def uentry_def entry_def leaf_addr_def Let_def not_le pte_def)
  qed
qed (auto simp: walkaddr_def uentry_def not_less Let_def)

section \<open>Unmapping\<close>

lemma uvmunmap_step:
  assumes ok: "pt_ok (pmem s) 2 pt" and inv: "kmem_inv h ps s" "pt_set (pmem s) 2 pt \<inter> set ps = {}"
    and a: "page_aligned a" "a < MAXVA" "a < lim"
    and e: "valid (entry (pmem s) 2 pt a)" "PTE_FLAGS (entry (pmem s) 2 pt a) \<noteq> PTE_V"
    and pg: "heap_page (PTE2PA (entry (pmem s) 2 pt a)) s" "PTE2PA (entry (pmem s) 2 pt a) \<noteq> 0"
      "PTE2PA (entry (pmem s) 2 pt a) \<notin> set ps \<union> pt_set (pmem s) 2 pt"
  shows "\<exists>u. uvmunmap_loop h pt a lim True s = uvmunmap_loop h pt (a + PGSIZE) lim True u \<and>
    kmem_inv h (PTE2PA (entry (pmem s) 2 pt a) # ps) u \<and> mem_step h s u \<and> pt_ok (pmem u) 2 pt \<and>
    pt_set (pmem u) 2 pt = pt_set (pmem s) 2 pt \<and>
    (\<forall>x<MAXVA. entry (pmem u) 2 pt x = (if PGROUNDDOWN x = a then 0 else entry (pmem s) 2 pt x))"
proof -
  let ?e = "entry (pmem s) 2 pt a" and ?g = "PTE2PA (entry (pmem s) 2 pt a)"
  obtain q i where l: "leaf (pmem s) 2 pt a = Some (q, i)" "?e = pte (pmem s) q i" using entry_leaf [OF e(1)] by blast
  have nz: "pte_at q (of_nat i) \<noteq> 0" using leaf_addr_eq_0 [OF ok, of a] l by (simp add: leaf_addr_def)
  have w: "walk h pt a False s = Some (pte_at q (of_nat i), s)"
    using walk_look [OF a(2) ok, of h] l by (simp add: leaf_addr_def)
  have gm: "?g \<in> kmem_managed s" using pg by (simp add: kmem_managed_def)
  obtain t where t: "kfree h ?g s = Some t" "free_pages (?g # ps) t" "kend t = kend s" "locks t = locks s"
    "cpus t = (cpus s)(h := settled (cpus s h))" "\<And>x. \<not> in_page ?g x \<Longrightarrow> pmem t x = pmem s x"
    by (rule kfree_free_pages [of ps s ?g h]) (use inv pg in \<open>auto simp: kmem_inv_def\<close>)
  have inv_t: "kmem_inv h (?g # ps) t" using t inv(1) by (simp add: kmem_inv_def lock_free_def)
  have same: "pte (pmem t) r j = pte (pmem s) r j" if "r \<in> pt_set (pmem s) 2 pt" "j < 512" for r j
  proof (rule pte_cong)
    show al: "page_aligned r" using that pt_ok_set [OF ok] by blast
    show "pmem t x = pmem s x" if "in_page r x" for x
      using in_page_unique [of r ?g x] al that pg \<open>r \<in> pt_set (pmem s) 2 pt\<close> heap_page_aligned by (intro t(6)) blast
  qed (use that in auto)
  note tc = tree_cong [OF same]
  have lt: "leaf (pmem t) 2 pt a = Some (q, i)" using tc(3) l(1) by simp
  have dj: "pt_set (pmem t) 2 pt \<inter> set (?g # ps) = {}" using tc(1) inv(2) pg(3) by auto
  have okt: "pt_ok (pmem t) 2 pt" using tc(2) ok by simp
  define u where "u = t\<lparr>pmem := store64 (pte_at q (of_nat i)) 0 (pmem t)\<rparr>"
  note one = map_one [OF okt inv_t dj a(1,2) lt u_def]
  have "uvmunmap_loop h pt a lim True s = uvmunmap_loop h pt (a + PGSIZE) lim True u"
    using a(3) w nz e l(2) t(1) by (subst uvmunmap_loop.simps) (simp add: u_def pte_def)
  moreover have "mem_step h s u"
    unfolding u_def by (rule mem_step_pmem) (rule kfree_mem_step [OF inv(1) t(1)])
  moreover have "\<forall>x<MAXVA. entry (pmem u) 2 pt x = (if PGROUNDDOWN x = a then 0 else entry (pmem s) 2 pt x)"
    using one(2) tc(4) by simp
  ultimately show ?thesis
    using grown_ok [OF one(1)] tc(1) by (intro exI [of _ u]) simp
qed

text \<open>The user pages behind \<open>n\<close> pages of addresses from \<open>a\<close> on.\<close>

definition range_frames :: "mem \<Rightarrow> uint64 \<Rightarrow> uint64 \<Rightarrow> nat \<Rightarrow> uint64 list" where
  "range_frames m pt a n = map (\<lambda>i. PTE2PA (entry m 2 pt (a + of_nat (4096 * i)))) [0..<n]"

text \<open>Every page of the range is mapped, to pages of its own.\<close>

definition range_owned :: "'a kmem_scheme \<Rightarrow> uint64 \<Rightarrow> uint64 \<Rightarrow> nat \<Rightarrow> uint64 list \<Rightarrow> bool" where
  "range_owned s pt a n ps \<longleftrightarrow> distinct (range_frames (pmem s) pt a n) \<and>
     (\<forall>g\<in>set (range_frames (pmem s) pt a n). heap_page g s \<and> g \<noteq> 0 \<and> g \<notin> set ps \<union> pt_set (pmem s) 2 pt) \<and>
     (\<forall>i<n. valid (entry (pmem s) 2 pt (a + of_nat (4096 * i))) \<and>
        PTE_FLAGS (entry (pmem s) 2 pt (a + of_nat (4096 * i))) \<noteq> PTE_V)"

lemma range_frames_Suc:
  "range_frames m pt a (Suc n) = PTE2PA (entry m 2 pt a) # range_frames m pt (a + PGSIZE) n"
proof -
  have eq: "a + of_nat (4096 * Suc i) = a + PGSIZE + of_nat (4096 * i)" for i by (simp add: PGSIZE_def)
  show ?thesis
    unfolding range_frames_def upt_conv_Cons [OF zero_less_Suc] map_Suc_upt [symmetric] list.map map_map comp_def eq
    by simp
qed

lemma uvmunmap_loop_spec:
  assumes "pt_ok (pmem s) 2 pt" "kmem_inv h ps s" "pt_set (pmem s) 2 pt \<inter> set ps = {}"
    and "page_aligned a" "unat a + 4096 * n \<le> unat MAXVA" "range_owned s pt a n ps"
  shows "\<exists>t. uvmunmap_loop h pt a (a + of_nat (4096 * n)) True s = Some t \<and>
    kmem_inv h (rev (range_frames (pmem s) pt a n) @ ps) t \<and> mem_step h s t \<and> pt_ok (pmem t) 2 pt \<and>
    pt_set (pmem t) 2 pt = pt_set (pmem s) 2 pt \<and>
    (\<forall>x<MAXVA. entry (pmem t) 2 pt x =
       (if unat (PGROUNDDOWN x - a) < 4096 * n then 0 else entry (pmem s) 2 pt x))"
  using assms
proof (induction n arbitrary: a s ps)
  case 0
  then show ?case by (subst uvmunmap_loop.simps) (simp add: range_frames_def)
next
  case (Suc n)
  let ?lim = "a + of_nat (4096 * Suc n)" and ?g = "PTE2PA (entry (pmem s) 2 pt a)"
  have ul: "unat ?lim = unat a + 4096 * Suc n" using Suc.prems(5) by (intro unat_add_small) simp
  have a: "a < MAXVA" "a < ?lim" using Suc.prems(5) ul by (simp_all only: word_less_nat_alt) simp_all
  have up: "unat (a + PGSIZE) = unat a + 4096"
    using unat_add_small [of a 4096] Suc.prems(5) by (simp add: PGSIZE_def)
  have own: "distinct (?g # range_frames (pmem s) pt (a + PGSIZE) n)"
    "\<And>g. g \<in> set (?g # range_frames (pmem s) pt (a + PGSIZE) n) \<Longrightarrow>
       heap_page g s \<and> g \<noteq> 0 \<and> g \<notin> set ps \<union> pt_set (pmem s) 2 pt"
    "\<And>i. i < Suc n \<Longrightarrow> valid (entry (pmem s) 2 pt (a + of_nat (4096 * i))) \<and>
        PTE_FLAGS (entry (pmem s) 2 pt (a + of_nat (4096 * i))) \<noteq> PTE_V"
    using Suc.prems(6) unfolding range_owned_def range_frames_Suc by blast+
  obtain u where u: "uvmunmap_loop h pt a ?lim True s = uvmunmap_loop h pt (a + PGSIZE) ?lim True u"
    "kmem_inv h (?g # ps) u" "mem_step h s u" "pt_ok (pmem u) 2 pt" "pt_set (pmem u) 2 pt = pt_set (pmem s) 2 pt"
    "\<And>x. x < MAXVA \<Longrightarrow> entry (pmem u) 2 pt x = (if PGROUNDDOWN x = a then 0 else entry (pmem s) 2 pt x)"
    using uvmunmap_step [OF Suc.prems(1-4) a] own(2) [of ?g] own(3) [of 0] by auto
  have x: "page_aligned (a + of_nat (4096 * Suc i)) \<and> a + of_nat (4096 * Suc i) < MAXVA \<and> a + of_nat (4096 * Suc i) \<noteq> a"
    if "i < n" for i
  proof -
    have ux: "unat (a + of_nat (4096 * Suc i)) = unat a + 4096 * Suc i"
      using Suc.prems(5) that by (intro unat_add_small) simp
    then have "a + of_nat (4096 * Suc i) \<noteq> a" by (auto simp: word_unat_eq_iff)
    moreover have "page_aligned (a + of_nat (4096 * Suc i))"
      using Suc.prems(4) unfolding page_aligned_def ux mod_mult_self2 .
    moreover have "a + of_nat (4096 * Suc i) < MAXVA"
      unfolding word_less_nat_alt ux using Suc.prems(5) that by simp
    ultimately show ?thesis by blast
  qed
  have sh: "a + PGSIZE + of_nat (4096 * i) = a + of_nat (4096 * Suc i)" for i by (simp add: PGSIZE_def)
  have ent: "entry (pmem u) 2 pt (a + PGSIZE + of_nat (4096 * i)) = entry (pmem s) 2 pt (a + PGSIZE + of_nat (4096 * i))"
    if "i < n" for i
    unfolding sh using u(6) [of "a + of_nat (4096 * Suc i)"] x [OF that] PGROUNDDOWN_aligned by presburger
  have rf: "range_frames (pmem u) pt (a + PGSIZE) n = range_frames (pmem s) pt (a + PGSIZE) n"
    unfolding range_frames_def using ent by (intro map_cong) auto
  have ke: "heap_page g u = heap_page g s" for g using mem_step_fields [OF u(3)] by (simp add: heap_page_def)
  have ro: "range_owned u pt (a + PGSIZE) n (?g # ps)"
    unfolding range_owned_def rf u(5) ke using own ent own(3) [of "Suc _"] by (auto simp only: sh [symmetric]) auto
  have dj: "pt_set (pmem u) 2 pt \<inter> set (?g # ps) = {}" using u(5) Suc.prems(3) own(2) [of ?g] by auto
  have al: "page_aligned (a + PGSIZE)" using Suc.prems(4) up by (simp add: page_aligned_def)
  have lim: "unat (a + PGSIZE) + 4096 * n \<le> unat MAXVA" using up Suc.prems(5) by simp
  obtain t where t: "uvmunmap_loop h pt (a + PGSIZE) (a + PGSIZE + of_nat (4096 * n)) True u = Some t"
    "kmem_inv h (rev (range_frames (pmem u) pt (a + PGSIZE) n) @ ?g # ps) t" "mem_step h u t" "pt_ok (pmem t) 2 pt"
    "pt_set (pmem t) 2 pt = pt_set (pmem u) 2 pt"
    "\<forall>x<MAXVA. entry (pmem t) 2 pt x =
       (if unat (PGROUNDDOWN x - (a + PGSIZE)) < 4096 * n then 0 else entry (pmem u) 2 pt x)"
    using Suc.IH [OF u(4,2) dj al lim ro] by blast
  have "entry (pmem t) 2 pt x = (if unat (PGROUNDDOWN x - a) < 4096 * Suc n then 0 else entry (pmem s) 2 pt x)"
    if "x < MAXVA" for x
  proof -
    have k: "4096 * Suc n < 2 ^ 64" using Suc.prems(5) by simp
    show ?thesis
      using t(6) u(6) that page_offset_Suc [OF Suc.prems(4) k, of x] by auto
  qed
  then show ?case
    using u(1,5) t mem_step_trans [OF u(3)] unfolding rf sh range_frames_Suc by (intro exI [of _ t]) simp
qed

section \<open>Freeing a tree\<close>

text \<open>A tree with no leaf mappings: what \<open>freewalk\<close> expects.\<close>

fun pt_empty :: "mem \<Rightarrow> nat \<Rightarrow> uint64 \<Rightarrow> bool" where
  "pt_empty m 0 p \<longleftrightarrow> (\<forall>i<512. \<not> valid (pte m p i))"
| "pt_empty m (Suc l) p \<longleftrightarrow>
     (\<forall>i<512. valid (pte m p i) \<longrightarrow> pte m p i AND (PTE_R OR PTE_W OR PTE_X) = 0 \<and> pt_empty m l (child m p i))"

lemma pt_empty_cong:
  assumes "\<And>q i. q \<in> pt_set m l p \<Longrightarrow> i < 512 \<Longrightarrow> pte m' q i = pte m q i"
  shows "pt_empty m' l p = pt_empty m l p"
  using assms
proof (induction l arbitrary: p)
  case (Suc l)
  have p: "pte m' p i = pte m p i" if "i < 512" for i using Suc.prems that by auto
  have "pt_empty m' l (child m p i) = pt_empty m l (child m p i)" if "i < 512" "valid (pte m p i)" for i
    using that Suc.prems by (intro Suc.IH) auto
  then show ?case using p by auto
qed simp

text \<open>What freeing the pages \<open>qs\<close> of a tree does to the rest of the memory.\<close>

definition pages_freed :: "nat \<Rightarrow> uint64 list \<Rightarrow> uint64 list \<Rightarrow> 'a kmem_scheme \<Rightarrow> 'a kmem_scheme \<Rightarrow> bool" where
  "pages_freed h qs ps s t \<longleftrightarrow> kmem_inv h (qs @ ps) t \<and> mem_step h s t \<and>
     (\<forall>x. (\<forall>q\<in>set qs. \<not> in_page q x) \<longrightarrow> pmem t x = pmem s x)"

text \<open>The subtrees below the entries \<open>i\<close> to 511 of a page.\<close>

definition sub_set :: "mem \<Rightarrow> nat \<Rightarrow> uint64 \<Rightarrow> nat \<Rightarrow> uint64 set" where
  "sub_set m l p i = (\<Union>j\<in>{j. i \<le> j \<and> j < 512 \<and> valid (pte m p j)}. pt_set m l (child m p j))"

lemma sub_set_0: "pt_set m (Suc l) p = insert p (sub_set m l p 0)"
  by (simp add: sub_set_def)

lemma sub_set_step:
  "i < 512 \<Longrightarrow> sub_set m l p i = (if valid (pte m p i) then pt_set m l (child m p i) else {}) \<union> sub_set m l p (Suc i)"
proof -
  assume i: "i < 512"
  have "i \<le> j \<longleftrightarrow> j = i \<or> Suc i \<le> j" for j by auto
  then have "{j. i \<le> j \<and> j < 512 \<and> valid (pte m p j)} =
      (if valid (pte m p i) then {i} else {}) \<union> {j. Suc i \<le> j \<and> j < 512 \<and> valid (pte m p j)}"
    using i by auto
  then show ?thesis by (simp add: sub_set_def)
qed

lemma kfree_page:
  assumes "kmem_inv h ps s" "heap_page p s" "p \<noteq> 0" "p \<notin> set ps"
  shows "\<exists>t. kfree h p s = Some t \<and> pages_freed h [p] ps s t"
proof -
  obtain t where t: "kfree h p s = Some t" "free_pages (p # ps) t" "kend t = kend s" "locks t = locks s"
    "cpus t = (cpus s)(h := settled (cpus s h))" "\<And>x. \<not> in_page p x \<Longrightarrow> pmem t x = pmem s x"
    by (rule kfree_free_pages [of ps s p h]) (use assms in \<open>auto simp: kmem_inv_def\<close>)
  have "kmem_inv h (p # ps) t" using t assms(1) by (simp add: kmem_inv_def lock_free_def)
  then show ?thesis
    using t kfree_mem_step [OF assms(1) t(1)] by (auto simp: pages_freed_def)
qed

lemma pages_freed_trans:
  assumes "pages_freed h qs ps s t" "pages_freed h rs (qs @ ps) t u"
  shows "pages_freed h (rs @ qs) ps s u"
  using assms unfolding pages_freed_def by (auto intro: mem_step_trans)

lemma pages_freed_store:
  assumes "pages_freed h qs ps s t" "page_aligned p" "i < 512" "p \<notin> set (qs @ ps)"
  shows "kmem_inv h (qs @ ps) (t\<lparr>pmem := store64 (pte_at p (of_nat i)) v (pmem t)\<rparr>)"
proof (rule kmem_inv_frame)
  show inv: "kmem_inv h (qs @ ps) t" using assms(1) by (simp add: pages_freed_def)
  fix q a assume q: "q \<in> set (qs @ ps)" "in_page q a"
  have "page_aligned q" "q \<noteq> p" using kmem_inv_pages [OF inv q(1)] q(1) assms(4) by auto
  then have "\<not> in_page p a" using in_page_unique [of p q a] assms(2) q(2) by auto
  then show "store64 (pte_at p (of_nat i)) v (pmem t) a = pmem t a"
    by (rule store_pte_other [OF assms(2,3)])
qed

text \<open>The part of a tree that \<open>freewalk\<close> still has to visit.\<close>

definition rest_ok :: "mem \<Rightarrow> nat \<Rightarrow> uint64 \<Rightarrow> nat \<Rightarrow> bool" where
  "rest_ok m l p i \<longleftrightarrow> page_aligned p \<and> p \<noteq> 0 \<and>
     (\<forall>j. i \<le> j \<and> j < 512 \<and> valid (pte m p j) \<longrightarrow> pte m p j AND (PTE_R OR PTE_W OR PTE_X) = 0 \<and>
        pt_ok m l (child m p j) \<and> pt_empty m l (child m p j) \<and> p \<notin> pt_set m l (child m p j)) \<and>
     (\<forall>j k. i \<le> j \<and> j < 512 \<and> i \<le> k \<and> k < 512 \<and> j \<noteq> k \<and> valid (pte m p j) \<and> valid (pte m p k) \<longrightarrow>
        pt_set m l (child m p j) \<inter> pt_set m l (child m p k) = {})"

lemma rest_ok_0: "pt_ok m (Suc l) p \<Longrightarrow> pt_empty m (Suc l) p \<Longrightarrow> rest_ok m l p 0"
  by (simp add: rest_ok_def)

lemma rest_ok_Suc: "rest_ok m l p i \<Longrightarrow> rest_ok m l p (Suc i)"
  unfolding rest_ok_def by (meson Suc_leD)

lemma rest_cong:
  assumes "\<And>j. i \<le> j \<Longrightarrow> j < 512 \<Longrightarrow> pte m' p j = pte m p j"
    and "\<And>q j. q \<in> sub_set m l p i \<Longrightarrow> j < 512 \<Longrightarrow> pte m' q j = pte m q j"
  shows "sub_set m' l p i = sub_set m l p i" "rest_ok m' l p i = rest_ok m l p i"
proof -
  have sub: "pt_set m' l (child m p j) = pt_set m l (child m p j)" "pt_ok m' l (child m p j) = pt_ok m l (child m p j)"
    "pt_empty m' l (child m p j) = pt_empty m l (child m p j)" if "i \<le> j" "j < 512" "valid (pte m p j)" for j
  proof -
    have "pt_set m l (child m p j) \<subseteq> sub_set m l p i" using that by (auto simp: sub_set_def)
    then have "pte m' q n = pte m q n" if "q \<in> pt_set m l (child m p j)" "n < 512" for q n
      using that assms(2) by blast
    from tree_cong(1,2) [OF this] pt_empty_cong [OF this]
    show "pt_set m' l (child m p j) = pt_set m l (child m p j)" "pt_ok m' l (child m p j) = pt_ok m l (child m p j)"
      "pt_empty m' l (child m p j) = pt_empty m l (child m p j)" by blast+
  qed
  show "sub_set m' l p i = sub_set m l p i" unfolding sub_set_def using assms(1) sub(1) by auto
  show "rest_ok m' l p i = rest_ok m l p i"
    unfolding rest_ok_def using assms(1) sub by (simp cong: conj_cong imp_cong)
qed

lemma freewalk_from_spec:
  fixes s :: "'a kmem_scheme"
  assumes rec: "\<And>c (s :: 'a kmem_scheme) ps. pt_ok (pmem s) l c \<Longrightarrow> pt_empty (pmem s) l c \<Longrightarrow> kmem_inv h ps s \<Longrightarrow>
      (\<forall>q\<in>pt_set (pmem s) l c. heap_page q s \<and> q \<notin> set ps) \<Longrightarrow>
      \<exists>t qs. freewalk_from h c 0 s = Some t \<and> set qs = pt_set (pmem s) l c \<and> pages_freed h qs ps s t"
    and "rest_ok (pmem s) l p i" "kmem_inv h ps s" "i \<le> 512"
    and "\<forall>q\<in>insert p (sub_set (pmem s) l p i). heap_page q s \<and> q \<notin> set ps"
  shows "\<exists>t qs. freewalk_from h p i s = Some t \<and> set qs = insert p (sub_set (pmem s) l p i) \<and> pages_freed h qs ps s t"
  using assms(2-)
proof (induction "512 - i" arbitrary: i s ps)
  case 0
  then have i: "i = 512" by simp
  obtain t where "kfree h p s = Some t" "pages_freed h [p] ps s t"
    using kfree_page [OF "0.prems"(2), of p] "0.prems" by (auto simp: rest_ok_def)
  then show ?case using i
    by (intro exI [of _ t] exI [of _ "[p]"]) (subst freewalk_from.simps, auto simp: sub_set_def)
next
  case (Suc n i s ps)
  have i: "i < 512" "n = 512 - Suc i" using Suc.hyps(2) by simp_all
  have pa: "page_aligned p" "p \<noteq> 0" using Suc.prems(1) by (simp_all add: rest_ok_def)
  have e: "load64 (pmem s) (pte_at p (of_nat i)) = pte (pmem s) p i" by (simp add: pte_def)
  show ?case
  proof (cases "valid (pte (pmem s) p i)")
    case False
    have ss: "sub_set (pmem s) l p i = sub_set (pmem s) l p (Suc i)" using sub_set_step [OF i(1)] False by simp
    have "freewalk_from h p i s = freewalk_from h p (Suc i) s"
      using False i(1) by (subst freewalk_from.simps) (simp add: e)
    then show ?thesis
      using Suc.hyps(1) [OF i(2) rest_ok_Suc [OF Suc.prems(1)] Suc.prems(2)] i(1) Suc.prems(4) ss by simp
  next
    case True
    let ?c = "child (pmem s) p i"
    have c: "pte (pmem s) p i AND (PTE_R OR PTE_W OR PTE_X) = 0" "pt_ok (pmem s) l ?c" "pt_empty (pmem s) l ?c"
      "p \<notin> pt_set (pmem s) l ?c" using Suc.prems(1) True i(1) unfolding rest_ok_def by blast+
    have ss: "sub_set (pmem s) l p i = pt_set (pmem s) l ?c \<union> sub_set (pmem s) l p (Suc i)"
      using sub_set_step [OF i(1)] True by simp
    have dj: "pt_set (pmem s) l ?c \<inter> sub_set (pmem s) l p (Suc i) = {}"
    proof -
      have "pt_set (pmem s) l ?c \<inter> pt_set (pmem s) l (child (pmem s) p j) = {}"
        if "Suc i \<le> j" "j < 512" "valid (pte (pmem s) p j)" for j
        using Suc.prems(1) True i(1) that unfolding rest_ok_def by (metis Suc_leD Suc_n_not_le_n order_refl)
      then show ?thesis by (auto simp: sub_set_def)
    qed
    obtain t qs where t: "freewalk_from h ?c 0 s = Some t" "set qs = pt_set (pmem s) l ?c" "pages_freed h qs ps s t"
      using rec [OF c(2,3) Suc.prems(2)] Suc.prems(4) ss by auto
    define u where "u = t\<lparr>pmem := store64 (pte_at p (of_nat i)) 0 (pmem t)\<rparr>"
    have pn: "p \<notin> set (qs @ ps)" using t(2) c(4) Suc.prems(4) by auto
    have inv_u: "kmem_inv h (qs @ ps) u" unfolding u_def by (rule pages_freed_store [OF t(3) pa(1) i(1) pn])
    have al: "page_aligned q" if "q \<in> insert p (sub_set (pmem s) l p i)" for q
      using that Suc.prems(4) heap_page_aligned by blast
    have pte_t: "pte (pmem t) q j = pte (pmem s) q j" if "q \<in> insert p (sub_set (pmem s) l p (Suc i))" "j < 512" for q j
    proof (rule pte_cong)
      show "page_aligned q" using al that ss by auto
      have "q \<notin> set qs" using that t(2) c(4) dj by auto
      then have "\<forall>r\<in>set qs. \<not> in_page r x" if "in_page q x" for x
        using that al [of q] al in_page_unique [of q _ x] t(2) ss \<open>q \<in> insert p _\<close> by blast
      then show "pmem t x = pmem s x" if "in_page q x" for x using t(3) that by (simp add: pages_freed_def)
    qed (use that in auto)
    have pte_u: "pte (pmem u) q j = pte (pmem s) q j"
      if "q \<in> insert p (sub_set (pmem s) l p (Suc i))" "j < 512" "q \<noteq> p \<or> j \<noteq> i" for q j
      using pte_store [OF pa(1) _ i(1) that(2), of q 0 "pmem t"] al [of q] pte_t [OF that(1,2)] that ss
      by (auto simp: u_def)
    have pns: "p \<notin> sub_set (pmem s) l p (Suc i)"
      using Suc.prems(1) unfolding rest_ok_def sub_set_def by auto
    have cong: "sub_set (pmem u) l p (Suc i) = sub_set (pmem s) l p (Suc i)"
      "rest_ok (pmem u) l p (Suc i) = rest_ok (pmem s) l p (Suc i)"
      by (rule rest_cong; use pte_u pns in \<open>auto\<close>)+
    have ms: "mem_step h s u" unfolding u_def using t(3) by (intro mem_step_pmem) (simp add: pages_freed_def)
    have hp: "heap_page q u = heap_page q s" for q using mem_step_fields [OF ms] by (simp add: heap_page_def)
    have hq: "\<forall>q\<in>insert p (sub_set (pmem u) l p (Suc i)). heap_page q u \<and> q \<notin> set (qs @ ps)"
      using Suc.prems(4) ss dj t(2) pn unfolding cong hp by auto
    have rk: "rest_ok (pmem u) l p (Suc i)" unfolding cong by (rule rest_ok_Suc [OF Suc.prems(1)])
    obtain v rs where v: "freewalk_from h p (Suc i) u = Some v"
      "set rs = insert p (sub_set (pmem s) l p (Suc i))" "pages_freed h rs (qs @ ps) u v"
      using Suc.hyps(1) [OF i(2) rk inv_u _ hq] i(1) unfolding cong(1) by auto
    have "freewalk_from h p i s = Some v"
      using True c(1) i(1) t(1) v(1) by (subst freewalk_from.simps) (simp add: e u_def)
    moreover have "pages_freed h (rs @ qs) ps s v"
    proof -
      have "pmem u x = pmem t x" if "\<not> in_page p x" for x
        using store_pte_other [OF pa(1) i(1) that] by (simp add: u_def)
      moreover have "p \<in> set rs" using v(2) by simp
      ultimately show ?thesis
        using t(3) v(3) mem_step_trans [OF ms] unfolding pages_freed_def by auto
    qed
    ultimately show ?thesis
      using v(2) t(2) ss by (intro exI [of _ v] exI [of _ "rs @ qs"]) auto
  qed
qed

lemma freewalk_from_none:
  assumes "\<And>j. i \<le> j \<Longrightarrow> j < 512 \<Longrightarrow> \<not> valid (pte (pmem s) p j)"
  shows "freewalk_from h p i s = kfree h p s"
  using assms
proof (induction "512 - i" arbitrary: i)
  case 0
  then show ?case by (subst freewalk_from.simps) simp
next
  case (Suc n)
  then have "freewalk_from h p (Suc i) s = kfree h p s" by (intro Suc.hyps(1)) auto
  moreover have "\<not> valid (pte (pmem s) p i)" using Suc.prems [of i] Suc.hyps(2) by simp
  ultimately show ?case using Suc.hyps(2) by (subst freewalk_from.simps) (simp add: pte_def [symmetric])
qed

lemma freewalk_frees:
  fixes s :: "'a kmem_scheme"
  assumes "pt_ok (pmem s) l p" "pt_empty (pmem s) l p" "kmem_inv h ps s"
    and "\<forall>q\<in>pt_set (pmem s) l p. heap_page q s \<and> q \<notin> set ps"
  shows "\<exists>t qs. freewalk_from h p 0 s = Some t \<and> set qs = pt_set (pmem s) l p \<and> pages_freed h qs ps s t"
  using assms
proof (induction l arbitrary: p s ps)
  case 0
  obtain t where "kfree h p s = Some t" "pages_freed h [p] ps s t"
    using kfree_page [OF "0.prems"(3), of p] "0.prems" by auto
  then show ?case using "0.prems"(2)
    by (intro exI [of _ t] exI [of _ "[p]"]) (simp add: freewalk_from_none)
next
  case (Suc l)
  show ?case
    unfolding sub_set_0
    by (rule freewalk_from_spec [OF Suc.IH rest_ok_0 [OF Suc.prems(1,2)] Suc.prems(3)])
      (use Suc.prems(4) in \<open>auto simp: sub_set_0 simp del: pt_set.simps\<close>)
qed

section \<open>Properties\<close>

text \<open>
  An example: the root page \<open>0x87FFF000\<close> is zeroed and the two pages below it are free.
\<close>

definition example_vm :: kmem where
  "example_vm = \<lparr>cpus = (\<lambda>h. idle_cpu), locks = (\<lambda>l. free_lock), procs = (\<lambda>p. unused_proc), nextpid = 1,
     initproc = None, ticks = 0, pmem = store64 0x87FFE000 0x87FFD000 (\<lambda>a. 0),
     freelist = 0x87FFE000, kend = 0x80001000\<rparr>"

lemma zero_page_pte:
  assumes "page_aligned p" "i < 512" "\<And>a. in_page p a \<Longrightarrow> m a = 0"
  shows "pte m p i = 0"
  unfolding pte_def using assms pte_in_page [OF assms(1,2)] by (intro load64_zero) blast

lemma example_vm_ok:
  "pt_ok (pmem example_vm) l 0x87FFF000" "pt_set (pmem example_vm) l 0x87FFF000 = {0x87FFF000}"
  "entry (pmem example_vm) l 0x87FFF000 va = 0"
  "kmem_inv h [0x87FFE000, 0x87FFD000] example_vm" "pt_empty (pmem example_vm) l 0x87FFF000"
proof -
  have al: "page_aligned 0x87FFF000" "page_aligned 0x87FFE000" "page_aligned 0x87FFD000" by (simp_all add: page_aligned_def)
  have z: "pmem example_vm a = 0" if "in_page 0x87FFF000 a \<or> in_page 0x87FFD000 a" for a
    using that store64_page [OF al(2,1), of a "0x87FFD000" "\<lambda>a. 0"] store64_page [OF al(2,3), of a "0x87FFD000" "\<lambda>a. 0"]
    by (auto simp: example_vm_def)
  have p: "pte (pmem example_vm) 0x87FFF000 i = 0" if "i < 512" for i
    using zero_page_pte [OF al(1) that] z by blast
  show "pt_ok (pmem example_vm) l 0x87FFF000" "pt_set (pmem example_vm) l 0x87FFF000 = {0x87FFF000}"
    "entry (pmem example_vm) l 0x87FFF000 va = 0"
    using zero_tree [OF al(1) _ p] by simp_all
  show "pt_empty (pmem example_vm) l 0x87FFF000" using p by (cases l) simp_all
  have "load64 (pmem example_vm) 0x87FFD000 = 0"
    using zero_page_pte [OF al(3), of 0] z by (simp add: pte_def pte_at_def)
  then show "kmem_inv h [0x87FFE000, 0x87FFD000] example_vm"
    using al by (simp add: kmem_inv_def free_pages_def heap_page_def lock_free_def cpu_ok_def free_lock_def
        idle_cpu_def) (simp add: example_vm_def lock_free_def free_lock_def idle_cpu_def cpu_ok_def)
qed

text \<open>A second example: one page of user memory, mapped at address 0.\<close>

definition mapped_mem :: mem where
  "mapped_mem =
     store64 (pte_at 0x87FFF000 (of_nat 0)) (PA2PTE 0x87FFE000 OR PTE_V)
       (store64 (pte_at 0x87FFE000 (of_nat 0)) (PA2PTE 0x87FFD000 OR PTE_V)
         (store64 (pte_at 0x87FFD000 (of_nat 0)) (PA2PTE 0x87FFC000 OR (PTE_W OR PTE_R OR PTE_U) OR PTE_V) (\<lambda>a. 0)))"

definition mapped_vm :: kmem where
  "mapped_vm = \<lparr>cpus = (\<lambda>h. idle_cpu), locks = (\<lambda>l. free_lock), procs = (\<lambda>p. unused_proc), nextpid = 1,
     initproc = None, ticks = 0, pmem = mapped_mem, freelist = 0, kend = 0x80001000\<rparr>"

lemma mapped_mem_pte:
  assumes "page_aligned q" "i < 512"
  shows "pte mapped_mem q i =
    (if q = 0x87FFF000 \<and> i = 0 then PA2PTE 0x87FFE000 OR PTE_V
     else if q = 0x87FFE000 \<and> i = 0 then PA2PTE 0x87FFD000 OR PTE_V
     else if q = 0x87FFD000 \<and> i = 0 then PA2PTE 0x87FFC000 OR (PTE_W OR PTE_R OR PTE_U) OR PTE_V else 0)"
proof -
  have al: "page_aligned 0x87FFF000" "page_aligned 0x87FFE000" "page_aligned 0x87FFD000" by (simp_all add: page_aligned_def)
  have z: "pte (\<lambda>a. 0) q i = 0" using assms by (intro zero_page_pte) auto
  show ?thesis
    unfolding mapped_mem_def
    by (subst pte_store [OF al(1) assms(1) _ assms(2)], simp, subst pte_store [OF al(2) assms(1) _ assms(2)], simp,
        subst pte_store [OF al(3) assms(1) _ assms(2)], simp, simp only: z)
qed

lemma mapped_mem_values:
  "PTE2PA (PA2PTE 0x87FFE000 OR PTE_V) = 0x87FFE000" "PTE2PA (PA2PTE 0x87FFD000 OR PTE_V) = 0x87FFD000"
  "PTE2PA (PA2PTE 0x87FFC000 OR (PTE_W OR PTE_R OR PTE_U) OR PTE_V) = 0x87FFC000"
  "valid (PA2PTE p OR PTE_V)" "valid (PA2PTE p OR f OR PTE_V)"
  by (rule PTE2PA_PA2PTE; auto simp: page_aligned_def bit_simps)+ (rule PA2PTE_V)+

text \<open>A page whose only valid entry is the first one.\<close>

lemma single_tree:
  assumes p: "\<forall>i<512. pte m p i = (if i = 0 then e else 0)" "valid e" "PTE2PA e = c"
    and c: "pt_ok m l c" "p \<notin> pt_set m l c" "page_aligned p" "p \<noteq> 0"
  shows "pt_ok m (Suc l) p" "pt_set m (Suc l) p = insert p (pt_set m l c)"
    "entry m (Suc l) p va = (if PX (Suc l) va = 0 then entry m l c va else 0)"
proof -
  have v: "valid (pte m p i) \<longleftrightarrow> i = 0" if "i < 512" for i using p that by simp
  have v0: "valid (pte m p 0)" using p by simp
  have "i < 512 \<and> valid (pte m p i) \<longleftrightarrow> i = 0" for i
    using v [of i] v0 by (cases "i = 0") simp_all
  then have "{i. i < 512 \<and> valid (pte m p i)} = {0}" by simp
  then show "pt_set m (Suc l) p = insert p (pt_set m l c)" using p by simp
  show "pt_ok m (Suc l) p" using p c v by auto
  have "vpn (Suc l) va = 0 \<longleftrightarrow> PX (Suc l) va = 0" by (rule unsigned_eq_0_iff)
  then show "entry m (Suc l) p va = (if PX (Suc l) va = 0 then entry m l c va else 0)"
    using v [OF PX_less] p PX_less by (simp add: entry_def)
qed

lemma mapped_vm_ok:
  "pt_ok mapped_mem 2 0x87FFF000" "pt_set mapped_mem 2 0x87FFF000 = {0x87FFF000, 0x87FFE000, 0x87FFD000}"
  "entry mapped_mem 2 0x87FFF000 va = (if PX 2 va = 0 \<and> PX 1 va = 0 \<and> PX 0 va = 0
     then PA2PTE 0x87FFC000 OR (PTE_W OR PTE_R OR PTE_U) OR PTE_V else 0)"
  "kmem_inv h [] mapped_vm"
proof -
  let ?m = mapped_mem
  have al: "page_aligned 0x87FFF000" "page_aligned 0x87FFE000" "page_aligned 0x87FFD000" by (simp_all add: page_aligned_def)
  have r: "\<forall>i<512. pte ?m 0x87FFF000 i = (if i = 0 then PA2PTE 0x87FFE000 OR PTE_V else 0)"
    "\<forall>i<512. pte ?m 0x87FFE000 i = (if i = 0 then PA2PTE 0x87FFD000 OR PTE_V else 0)"
    "\<forall>i<512. pte ?m 0x87FFD000 i = (if i = 0 then PA2PTE 0x87FFC000 OR (PTE_W OR PTE_R OR PTE_U) OR PTE_V else 0)"
    using mapped_mem_pte [OF al(1)] mapped_mem_pte [OF al(2)] mapped_mem_pte [OF al(3)] by simp_all
  have o0: "pt_ok ?m 0 0x87FFD000" "0x87FFE000 \<notin> pt_set ?m 0 0x87FFD000" using al by simp_all
  have nz: "(0x87FFF000 :: uint64) \<noteq> 0" "(0x87FFE000 :: uint64) \<noteq> 0" by simp_all
  note one = single_tree [OF r(2) mapped_mem_values(4,2) o0 al(2) nz(2)]
  have "0x87FFF000 \<notin> pt_set ?m (Suc 0) 0x87FFE000" unfolding one(2) by simp
  note two = single_tree [OF r(1) mapped_mem_values(4,1) one(1) this al(1) nz(1)]
  show "pt_ok ?m 2 0x87FFF000" "pt_set ?m 2 0x87FFF000 = {0x87FFF000, 0x87FFE000, 0x87FFD000}"
    unfolding numeral_2_eq_2 using two(1,2) one(2) by simp_all
  have z: "vpn 0 va = 0 \<longleftrightarrow> PX 0 va = 0" by (rule unsigned_eq_0_iff)
  have e0: "entry ?m 0 0x87FFD000 va = (if PX 0 va = 0
      then PA2PTE 0x87FFC000 OR (PTE_W OR PTE_R OR PTE_U) OR PTE_V else 0)"
    using r(3) PX_less [of 0 va] z by (simp add: entry_def)
  show "entry ?m 2 0x87FFF000 va = (if PX 2 va = 0 \<and> PX 1 va = 0 \<and> PX 0 va = 0
      then PA2PTE 0x87FFC000 OR (PTE_W OR PTE_R OR PTE_U) OR PTE_V else 0)"
    unfolding numeral_2_eq_2 One_nat_def two(3) one(3) e0 by simp
  show "kmem_inv h [] mapped_vm"
    by (simp add: kmem_inv_def free_pages_def mapped_vm_def lock_free_def free_lock_def idle_cpu_def cpu_ok_def)
qed



text \<open>
  C14: \<open>uvmunmap\<close> with \<open>do_free\<close>, on a range whose pages are all mapped, returns; it
  removes exactly the mappings of the range, keeps the page table and gives each of the user pages
  back to the allocator exactly once.
\<close>

theorem uvmunmap_correct:
  assumes "pt_ok (pmem s) 2 pt" "kmem_inv h ps s" "pt_set (pmem s) 2 pt \<inter> set ps = {}"
    and "page_aligned va" "unat va + 4096 * unat n \<le> unat MAXVA" "range_owned s pt va (unat n) ps"
  shows "\<exists>t. uvmunmap h pt va n True s = Some t \<and> pt_ok (pmem t) 2 pt \<and>
    kmem_inv h (rev (range_frames (pmem s) pt va (unat n)) @ ps) t \<and>
    (\<forall>x<MAXVA. entry (pmem t) 2 pt x =
       (if unat (PGROUNDDOWN x - va) < 4096 * unat n then 0 else entry (pmem s) 2 pt x))"
proof -
  have "of_nat (4096 * unat n) = n * PGSIZE" by (simp add: PGSIZE_def)
  moreover have "va mod PGSIZE = 0" using assms(4) by simp
  ultimately show ?thesis using uvmunmap_loop_spec [OF assms] by (auto simp: uvmunmap_def)
qed

lemma mapped_frames: "range_frames mapped_mem 0x87FFF000 0 (Suc 0) = [0x87FFC000]"
  using mapped_vm_ok(3) [of 0] mapped_mem_values(3) by (simp add: range_frames_def PX_def)

lemma mapped_flags: "PTE_FLAGS (PA2PTE p OR (PTE_W OR PTE_R OR PTE_U) OR PTE_V) \<noteq> PTE_V"
proof
  assume "PTE_FLAGS (PA2PTE p OR (PTE_W OR PTE_R OR PTE_U) OR PTE_V) = PTE_V"
  then have "bit (PTE_FLAGS (PA2PTE p OR (PTE_W OR PTE_R OR PTE_U) OR PTE_V)) 1 = bit PTE_V 1" by simp
  moreover have "bit (0x3FF :: uint64) 1" by simp
  ultimately show False by (simp add: PTE_FLAGS_def bit_and_iff bit_or_iff)
qed

theorem uvmunmap_correct_witness:
  "\<exists>t. uvmunmap 0 0x87FFF000 0 1 True mapped_vm = Some t \<and> pt_ok (pmem t) 2 0x87FFF000 \<and>
    kmem_inv 0 (rev (range_frames (pmem mapped_vm) 0x87FFF000 0 (unat (1 :: uint64))) @ []) t \<and>
    (\<forall>x<MAXVA. entry (pmem t) 2 0x87FFF000 x =
       (if unat (PGROUNDDOWN x - 0) < 4096 * unat (1 :: uint64) then 0 else entry (pmem mapped_vm) 2 0x87FFF000 x))"
proof (rule uvmunmap_correct)
  have m: "pmem mapped_vm = mapped_mem" by (simp add: mapped_vm_def)
  show "pt_ok (pmem mapped_vm) 2 0x87FFF000" unfolding m by (rule mapped_vm_ok)
  show "kmem_inv 0 [] mapped_vm" by (rule mapped_vm_ok)
  have "heap_page 0x87FFC000 mapped_vm" by (simp add: heap_page_def mapped_vm_def page_aligned_def)
  then show "range_owned mapped_vm 0x87FFF000 0 (unat (1 :: uint64)) []"
    using mapped_frames mapped_vm_ok(2) mapped_vm_ok(3) [of 0] mapped_flags mapped_mem_values(5)
    by (simp add: range_owned_def m PX_def)
qed (simp_all add: page_aligned_def)

text \<open>
  C33: \<open>freewalk\<close> on a page table without leaf mappings returns, and gives every
  page of the tree back to the allocator, each exactly once (the list of free pages is distinct),
  without touching any other page.
\<close>

theorem freewalk_returns_all:
  assumes "pt_ok (pmem s) 2 pt" "pt_empty (pmem s) 2 pt" "kmem_inv h ps s"
    and "\<forall>q\<in>pt_set (pmem s) 2 pt. heap_page q s \<and> q \<notin> set ps"
  shows "\<exists>t qs. freewalk h pt s = Some t \<and> set qs = pt_set (pmem s) 2 pt \<and> distinct qs \<and>
    kmem_inv h (qs @ ps) t \<and> (\<forall>x. (\<forall>q\<in>set qs. \<not> in_page q x) \<longrightarrow> pmem t x = pmem s x)"
proof -
  obtain t qs where t: "freewalk_from h pt 0 s = Some t" "set qs = pt_set (pmem s) 2 pt" "pages_freed h qs ps s t"
    using freewalk_frees [OF assms] by blast
  moreover have "distinct qs" using t(3) kmem.inv_distinct [of h "qs @ ps" t] by (simp add: pages_freed_def)
  ultimately show ?thesis unfolding freewalk_def pages_freed_def by blast
qed

theorem freewalk_returns_all_witness:
  "\<exists>t qs. freewalk 0 0x87FFF000 example_vm = Some t \<and> set qs = pt_set (pmem example_vm) 2 0x87FFF000 \<and> distinct qs \<and>
    kmem_inv 0 (qs @ [0x87FFE000, 0x87FFD000]) t \<and>
    (\<forall>x. (\<forall>q\<in>set qs. \<not> in_page q x) \<longrightarrow> pmem t x = pmem example_vm x)"
  by (rule freewalk_returns_all [OF example_vm_ok(1,5,4)])
    (simp_all add: example_vm_ok(2), simp_all add: heap_page_def example_vm_def page_aligned_def)

end
