(* ===== verification/UserCopy.thy ===== *)
theory UserCopy
  imports PageTable
begin

text \<open>
  What \<open>copyin\<close>, \<open>copyout\<close> and \<open>copyinstr\<close> promise: they access exactly the bytes of the user
  addresses given, through the page table, and fail when one of them is not mapped for the user.
\<close>

section \<open>User memory\<close>

text \<open>The physical address behind a user address, and the byte there.\<close>

definition uaddr :: "mem \<Rightarrow> uint64 \<Rightarrow> uint64 \<Rightarrow> uint64 option" where
  "uaddr m pt va = (case uentry m pt va of None \<Rightarrow> None
     | Some pa \<Rightarrow> if pa = 0 then None else Some (pa + (va - PGROUNDDOWN va)))"

definition ubyte :: "mem \<Rightarrow> uint64 \<Rightarrow> uint64 \<Rightarrow> uchar option" where
  "ubyte m pt va = map_option m (uaddr m pt va)"

lemma PGROUNDDOWN_le: "unat (PGROUNDDOWN va) \<le> unat va"
  using round_down_bounds(1) [of 4096 "unat va"] by (simp add: unat_PGROUNDDOWN)

text \<open>Addresses of one iteration of the copy loops lie in one page.\<close>

lemma chunk_page:
  assumes "k < unat (chunk va len)"
  shows "PGROUNDDOWN (va + of_nat k) = PGROUNDDOWN va"
    "va + of_nat k - PGROUNDDOWN (va + of_nat k) = (va - PGROUNDDOWN va) + of_nat k"
    "unat (va - PGROUNDDOWN va) + k < 4096"
proof -
  define q r where "q = unat va div 4096" and "r = unat va mod 4096"
  have qr: "unat va = 4096 * q + r" "r < 4096" by (simp_all add: q_def r_def)
  have k: "r + k < 4096" using assms qr(2) by (auto simp: unat_chunk r_def [symmetric])
  have "4096 * q < 2 ^ 64" using qr unat_bound [of va] by simp
  then have "q < 2 ^ 52" by simp
  then have "4096 * q + 4096 \<le> 2 ^ 64" by simp
  then have "unat va + k < 2 ^ 64" using qr k by linarith
  then have u: "unat (va + of_nat k) = unat va + k" by (intro unat_add_small) simp
  have "(unat va + k) div 4096 = q" by (rule div_nat_eqI) (use k qr in simp_all)
  then have "(unat va + k) div 4096 = unat va div 4096" by (simp only: q_def)
  then show eq: "PGROUNDDOWN (va + of_nat k) = PGROUNDDOWN va"
    by (simp add: word_unat_eq_iff unat_PGROUNDDOWN u)
  show "va + of_nat k - PGROUNDDOWN (va + of_nat k) = (va - PGROUNDDOWN va) + of_nat k"
    unfolding eq by simp
  show "unat (va - PGROUNDDOWN va) + k < 4096" using k by (simp add: unat_PGROUNDDOWN_offset r_def)
qed

lemma chunk_next:
  assumes "chunk va len \<noteq> len"
  shows "PGROUNDDOWN va + PGSIZE = va + of_nat (unat (chunk va len))"
proof -
  have "chunk va len = PGSIZE - (va - PGROUNDDOWN va)" using assms by (auto simp: chunk_def Let_def)
  then show ?thesis by simp
qed

lemma uentry_page: "uentry m pt (PGROUNDDOWN va) = uentry m pt va"
proof -
  have "PGROUNDDOWN va < MAXVA \<longleftrightarrow> va < MAXVA"
  proof
    assume "PGROUNDDOWN va < MAXVA"
    then have "unat va div 4096 * 4096 < 4096 * 0x4000000" by (simp add: word_less_nat_alt unat_PGROUNDDOWN)
    then have "unat va div 4096 < 0x4000000" by simp
    then have "unat va < 0x4000000 * 4096" by (simp only: div_less_iff_less_mult zero_less_numeral)
    then show "va < MAXVA" by (simp add: word_less_nat_alt)
  qed (rule PGROUNDDOWN_MAXVA)
  then show ?thesis by (simp add: uentry_def entry_page)
qed

lemma uaddr_chunk:
  assumes "k < unat (chunk va len)"
  shows "uaddr m pt (va + of_nat k) = map_option (\<lambda>a. a + of_nat k) (uaddr m pt va)"
proof -
  have "uentry m pt (va + of_nat k) = uentry m pt va"
    using uentry_page [of m pt "va + of_nat k"] uentry_page [of m pt va] chunk_page(1) [OF assms] by simp
  then show ?thesis
    using chunk_page(2) [OF assms] by (simp add: uaddr_def add.assoc split: option.splits)
qed

lemma chunk_pos: "0 < len \<Longrightarrow> 0 < unat (chunk va len)"
  by (simp add: unat_chunk word_less_nat_alt)

lemma chunk_le: "unat (chunk va len) \<le> unat len"
  by (simp add: unat_chunk)

lemma unat_chunk_diff: "unat (len - chunk va len) = unat len - unat (chunk va len)"
  using unat_sub [of "chunk va len" len] by (simp add: word_le_nat_alt chunk_le)

section \<open>copyin\<close>

text \<open>The first \<open>n\<close> bytes of a copy and the rest.\<close>

lemma copy_join:
  fixes f :: "uint64 \<Rightarrow> uchar option"
  assumes IH: "\<exists>r bs. rest = Some (r, bs) \<and>
      (r = 0 \<and> (\<forall>k<unat (len - chunk va len). f (PGROUNDDOWN va + PGSIZE + of_nat k) \<noteq> None) \<and>
         bs = map (\<lambda>k. the (f (PGROUNDDOWN va + PGSIZE + of_nat k))) [0..<unat (len - chunk va len)] \<or>
       r = (-1::int) \<and> (\<exists>k<unat (len - chunk va len). f (PGROUNDDOWN va + PGSIZE + of_nat k) = None))"
    and part: "\<forall>k<unat (chunk va len). f (va + of_nat k) = Some (m (a + of_nat k))"
  shows "\<exists>r bs. (case rest of None \<Rightarrow> None | Some (r, bs) \<Rightarrow> Some (r, load_bytes m a (unat (chunk va len)) @ bs)) = Some (r, bs) \<and>
    (r = 0 \<and> (\<forall>k<unat len. f (va + of_nat k) \<noteq> None) \<and> bs = map (\<lambda>k. the (f (va + of_nat k))) [0..<unat len] \<or>
     r = -1 \<and> (\<exists>k<unat len. f (va + of_nat k) = None))"
proof -
  define n j where "n = unat (chunk va len)" and "j = unat len - n"
  have nl: "unat len = n + j" using chunk_le [of va len] by (simp add: n_def j_def)
  have d: "unat (len - chunk va len) = j" by (simp add: unat_chunk_diff n_def j_def)
  have shift: "f (PGROUNDDOWN va + PGSIZE + of_nat k) = f (va + of_nat (n + k))" if "k < j" for k
  proof -
    have "chunk va len \<noteq> len" using that by (auto simp: j_def n_def)
    then show ?thesis using chunk_next [of va len] by (simp add: n_def add.assoc)
  qed
  have lb: "load_bytes m a n = map (\<lambda>k. the (f (va + of_nat k))) [0..<n]"
    using part by (simp add: load_bytes_map n_def)
  have all: "(\<forall>k<n + j. P k) \<longleftrightarrow> (\<forall>k<n. P k) \<and> (\<forall>k<j. P (n + k))" for P
  proof -
    have "P k" if "\<forall>k<n. P k" "\<forall>k<j. P (n + k)" "k < n + j" for k
      using that(1) that(2) [rule_format, of "k - n"] that(3) by (cases "k < n") auto
    then show ?thesis by auto
  qed
  have up: "[0..<n + j] = [0..<n] @ map (\<lambda>k. n + k) [0..<j]"
    using upt_add_eq_append [of 0 n j] map_add_upt [of n j] by (simp add: add.commute)
  from IH obtain r bs where r: "rest = Some (r, bs)"
    "r = 0 \<and> (\<forall>k<j. f (va + of_nat (n + k)) \<noteq> None) \<and> bs = map (\<lambda>k. the (f (va + of_nat (n + k)))) [0..<j] \<or>
     r = -1 \<and> (\<exists>k<j. f (va + of_nat (n + k)) = None)"
    unfolding d by (metis (no_types, lifting) atLeastLessThan_iff map_cong set_upt shift)
  have "\<forall>k<n. f (va + of_nat k) \<noteq> None" using part by (simp add: n_def)
  then have ok: "(\<forall>k<unat len. f (va + of_nat k) \<noteq> None) \<longleftrightarrow> (\<forall>k<j. f (va + of_nat (n + k)) \<noteq> None)"
    unfolding nl all by blast
  have "load_bytes m a n @ map (\<lambda>k. the (f (va + of_nat (n + k)))) [0..<j] = map (\<lambda>k. the (f (va + of_nat k))) [0..<unat len]"
    unfolding nl up lb by (simp add: comp_def)
  with r(2) ok have "r = 0 \<and> (\<forall>k<unat len. f (va + of_nat k) \<noteq> None) \<and>
      load_bytes m a n @ bs = map (\<lambda>k. the (f (va + of_nat k))) [0..<unat len] \<or>
     r = -1 \<and> (\<exists>k<unat len. f (va + of_nat k) = None)"
    by metis
  then show ?thesis using r(1) by (simp add: n_def)
qed

lemma copyin_spec:
  assumes "pt_ok (pmem s) 2 pt"
  shows "\<exists>r bs. copyin h pt va len s = Some (r, bs) \<and>
    (r = 0 \<and> (\<forall>k<unat len. ubyte (pmem s) pt (va + of_nat k) \<noteq> None) \<and>
       bs = map (\<lambda>k. the (ubyte (pmem s) pt (va + of_nat k))) [0..<unat len] \<or>
     r = -1 \<and> (\<exists>k<unat len. ubyte (pmem s) pt (va + of_nat k) = None))"
  using assms
proof (induction h pt va len s rule: copyin.induct)
  case (1 h pt va len s)
  let ?n = "chunk va len"
  show ?case
  proof (cases "len > 0")
    case False
    then have "unat len = 0" by (simp add: word_less_nat_alt)
    with False show ?thesis by (subst copyin.simps) simp
  next
    case len: True
    have wa: "walkaddr h pt (PGROUNDDOWN va) s = Some (case uentry (pmem s) pt va of None \<Rightarrow> 0 | Some pa \<Rightarrow> pa)"
      using walkaddr_eq [OF "1.prems", of h "PGROUNDDOWN va"] by (simp add: uentry_page)
    show ?thesis
    proof (cases "uaddr (pmem s) pt va")
      case None
      then have "walkaddr h pt (PGROUNDDOWN va) s = Some 0"
        using wa by (auto simp: uaddr_def split: option.splits if_splits)
      then have "copyin h pt va len s = Some (-1, [])" using len by (subst copyin.simps) simp
      moreover have "ubyte (pmem s) pt (va + of_nat 0) = None" using None by (simp add: ubyte_def)
      moreover have "0 < unat len" using len by (simp add: word_less_nat_alt)
      ultimately show ?thesis by blast
    next
      case (Some a)
      then obtain pa where pa: "uentry (pmem s) pt va = Some pa" "pa \<noteq> 0" "a = pa + (va - PGROUNDDOWN va)"
        by (auto simp: uaddr_def split: option.splits if_splits)
      let ?rest = "copyin h pt (PGROUNDDOWN va + PGSIZE) (len - ?n) s"
      have eq: "copyin h pt va len s = (case ?rest of None \<Rightarrow> None
          | Some (r, bs) \<Rightarrow> Some (r, load_bytes (pmem s) a (unat ?n) @ bs))"
        unfolding pa(3) using len wa pa(1,2) by (subst copyin.simps) (simp add: Let_def)
      have part: "\<forall>k<unat ?n. ubyte (pmem s) pt (va + of_nat k) = Some (pmem s (a + of_nat k))"
        using uaddr_chunk [of _ va len] Some by (simp add: ubyte_def)
      have IH: "\<exists>r bs. ?rest = Some (r, bs) \<and>
        (r = 0 \<and> (\<forall>k<unat (len - ?n). ubyte (pmem s) pt (PGROUNDDOWN va + PGSIZE + of_nat k) \<noteq> None) \<and>
           bs = map (\<lambda>k. the (ubyte (pmem s) pt (PGROUNDDOWN va + PGSIZE + of_nat k))) [0..<unat (len - ?n)] \<or>
         r = -1 \<and> (\<exists>k<unat (len - ?n). ubyte (pmem s) pt (PGROUNDDOWN va + PGSIZE + of_nat k) = None))"
        using len wa pa by (intro "1.IH") (auto simp: "1.prems")
      show ?thesis
        unfolding eq by (rule copy_join [OF IH part])
    qed
  qed
qed

section \<open>copyout\<close>

text \<open>
  The pages of a user address space: none of them is a page of the page table, and different
  addresses do not share a page.
\<close>

definition uvm_ok :: "mem \<Rightarrow> uint64 \<Rightarrow> bool" where
  "uvm_ok m pt \<longleftrightarrow> pt_ok m 2 pt \<and> (\<forall>va pa. uentry m pt va = Some pa \<longrightarrow> pa \<notin> pt_set m 2 pt) \<and>
     (\<forall>va va' pa. uentry m pt va = Some pa \<longrightarrow> uentry m pt va' = Some pa \<longrightarrow> PGROUNDDOWN va = PGROUNDDOWN va')"

lemma page_aligned_PTE2PA [simp]: "page_aligned (PTE2PA e)"
proof -
  have "PGROUNDDOWN (PTE2PA e) = PTE2PA e"
    by (rule bit_word_eqI) (auto simp: round_down_push PTE2PA_def bit_simps)
  then show ?thesis using page_aligned_PGROUNDDOWN [of "PTE2PA e"] by simp
qed

lemma uentry_aligned: "uentry m pt va = Some pa \<Longrightarrow> page_aligned pa"
  by (auto simp: uentry_def Let_def split: if_splits)

text \<open>A store into a user page changes neither the page table nor other user pages.\<close>

lemma user_store:
  assumes ok: "uvm_ok m pt" and pa: "uentry m pt va = Some pa"
    and same: "\<And>a. \<not> in_page pa a \<Longrightarrow> m' a = m a"
  shows "uvm_ok m' pt" "uentry m' pt x = uentry m pt x"
proof -
  have tree: "pte m' q i = pte m q i" if "q \<in> pt_set m 2 pt" "i < 512" for q i
  proof (rule pte_cong)
    show al: "page_aligned q" using that(1) ok pt_ok_set unfolding uvm_ok_def by blast
    have "q \<noteq> pa" using that(1) ok pa unfolding uvm_ok_def by blast
    then show "m' a = m a" if "in_page q a" for a
      using that same in_page_unique [OF al uentry_aligned [OF pa]] by blast
  qed (use that in auto)
  note tc = tree_cong [OF tree]
  show u: "uentry m' pt x = uentry m pt x" for x by (simp add: uentry_def tc(4))
  have e: "pt_set m' 2 pt = pt_set m 2 pt" "pt_ok m' 2 pt = pt_ok m 2 pt" using tc(1,2) by blast+
  show "uvm_ok m' pt" using ok unfolding uvm_ok_def u e .
qed

lemma copyout_chunk:
  assumes ok: "uvm_ok m pt" and a: "uaddr m pt va = Some a" and n: "n = unat (chunk va len)" "n \<le> length src"
    and m': "m' = store_bytes a (take n src) m"
  shows "uvm_ok m' pt" "uentry m' pt x = uentry m pt x"
    "ubyte m' pt x = (if unat (x - va) < n then Some (src ! unat (x - va)) else ubyte m pt x)"
    "(\<forall>y pa. uentry m pt y = Some pa \<longrightarrow> \<not> in_page pa b) \<Longrightarrow> m' b = m b"
proof -
  obtain pa where pa: "uentry m pt va = Some pa" "pa \<noteq> 0" "a = pa + (va - PGROUNDDOWN va)"
    using a by (auto simp: uaddr_def split: option.splits if_splits)
  have n4: "n \<le> 4096" by (simp add: n(1) unat_chunk)
  have st: "m' y = (if unat (y - a) < n then src ! unat (y - a) else m y)" for y
    using n(2) n4 by (simp add: m' store_bytes_apply min_absorb2)
  have out: "m' y = m y" if "\<not> in_page pa y" for y
  proof -
    have False if k: "unat (y - a) < n"
    proof -
      let ?k = "unat (y - a)"
      have "unat (va - PGROUNDDOWN va) + ?k < 4096" using chunk_page(3) [of ?k va len] k n(1) by simp
      then have "in_page pa (pa + of_nat (unat (va - PGROUNDDOWN va) + ?k))"
        using in_page_offset uentry_aligned [OF pa(1)] by blast
      moreover have "y = pa + of_nat (unat (va - PGROUNDDOWN va) + ?k)" by (simp add: pa(3))
      ultimately show False using that \<open>\<not> in_page pa y\<close> by metis
    qed
    then show ?thesis using st by auto
  qed
  note us = user_store [OF ok pa(1) out]
  show "uvm_ok m' pt" by (rule us(1))
  show ue: "uentry m' pt x = uentry m pt x" by (rule us(2))
  show "m' b = m b" if "\<forall>y pa. uentry m pt y = Some pa \<longrightarrow> \<not> in_page pa b" using that pa(1) out by blast
  have inside: "PGROUNDDOWN x = PGROUNDDOWN va" if "unat (x - va) < n"
    using chunk_page(1) [of "unat (x - va)" va len] that n(1) by simp
  show "ubyte m' pt x = (if unat (x - va) < n then Some (src ! unat (x - va)) else ubyte m pt x)"
  proof (cases "PGROUNDDOWN x = PGROUNDDOWN va")
    case True
    then have "uentry m pt x = Some pa" using uentry_page [of m pt x] uentry_page [of m pt va] pa(1) by simp
    moreover have off: "pa + (x - PGROUNDDOWN x) - a = x - va" by (simp add: pa(3) True)
    note st [of "pa + (x - PGROUNDDOWN x)", unfolded off]
    ultimately show ?thesis using ue pa(2) by (simp add: ubyte_def uaddr_def)
  next
    case False
    then have no: "\<not> unat (x - va) < n" using inside by blast
    have "m' y = m y" if y: "uaddr m pt x = Some y" for y
    proof -
      obtain pa' where pa': "uentry m pt x = Some pa'" "y = pa' + (x - PGROUNDDOWN x)"
        using y by (auto simp: uaddr_def split: option.splits if_splits)
      have "pa' \<noteq> pa" using False ok pa(1) pa'(1) unfolding uvm_ok_def by blast
      moreover have "in_page pa' y" by (simp add: in_page_def pa'(2) unat_PGROUNDDOWN_offset)
      ultimately show ?thesis using out in_page_unique uentry_aligned pa(1) pa'(1) by blast
    qed
    then show ?thesis using no ue by (simp add: ubyte_def uaddr_def split: option.splits)
  qed
qed

lemma word_split_offset:
  fixes x va len :: uint64
  assumes "n \<le> unat len"
  shows "unat (x - va) < unat len \<longleftrightarrow> unat (x - va) < n \<or> unat (x - (va + of_nat n)) < unat len - n"
    "\<not> unat (x - va) < n \<Longrightarrow> unat (x - (va + of_nat n)) = unat (x - va) - n"
    "unat (x - va) < n \<Longrightarrow> \<not> unat (x - (va + of_nat n)) < unat len - n"
proof -
  define d where "d = x - va"
  have eq: "x - (va + of_nat n) = d - of_nat n" by (simp add: d_def)
  have nn: "unat (of_nat n :: uint64) = n" using assms unat_bound [of len] by (simp add: unat_of_nat)
  have ge: "unat (d - of_nat n) = unat d - n" if "\<not> unat d < n" using unat_sub_if' [of d "of_nat n"] nn that by simp
  have lt: "\<not> unat (d - of_nat n) < unat len - n" if "unat d < n"
  proof -
    have "unat (d - of_nat n) = unat d + 2 ^ 64 - n" using unat_sub_if' [of d "of_nat n"] nn that by simp
    then show ?thesis using unat_bound [of len] that assms by simp
  qed
  show "\<not> unat (x - va) < n \<Longrightarrow> unat (x - (va + of_nat n)) = unat (x - va) - n"
    "unat (x - va) < n \<Longrightarrow> \<not> unat (x - (va + of_nat n)) < unat len - n"
    using ge lt by (simp_all add: eq d_def [symmetric])
  show "unat (x - va) < unat len \<longleftrightarrow> unat (x - va) < n \<or> unat (x - (va + of_nat n)) < unat len - n"
    unfolding eq d_def [symmetric] using ge lt assms by (cases "unat d < n") auto
qed

lemma copyout_join:
  assumes t: "r = 0 \<and> (\<forall>x. f' x = (if unat (x - (PGROUNDDOWN va + PGSIZE)) < unat len - unat (chunk va len)
        then Some (drop (unat (chunk va len)) src ! unat (x - (PGROUNDDOWN va + PGSIZE))) else f1 x)) \<or>
      r = (-1 :: int) \<and> (\<exists>k<unat len - unat (chunk va len). f1 (PGROUNDDOWN va + PGSIZE + of_nat k) = None)"
    and one: "\<And>x. f1 x = (if unat (x - va) < unat (chunk va len) then Some (src ! unat (x - va)) else f x)"
    and len: "unat len \<le> length src"
  shows "r = 0 \<and> (\<forall>x. f' x = (if unat (x - va) < unat len then Some (src ! unat (x - va)) else f x)) \<or>
     r = -1 \<and> (\<exists>k<unat len. f (va + of_nat k) = None)"
proof -
  define n where "n = unat (chunk va len)"
  have nl: "n \<le> unat len" using chunk_le by (simp add: n_def)
  have nx: "PGROUNDDOWN va + PGSIZE = va + of_nat n" if "n < unat len"
  proof -
    have "chunk va len \<noteq> len" using that by (auto simp: n_def)
    then show ?thesis using chunk_next [of va len] by (simp add: n_def)
  qed
  from t show ?thesis
  proof
    assume "r = 0 \<and> (\<forall>x. f' x = (if unat (x - (PGROUNDDOWN va + PGSIZE)) < unat len - unat (chunk va len)
        then Some (drop (unat (chunk va len)) src ! unat (x - (PGROUNDDOWN va + PGSIZE))) else f1 x))"
    then have r: "r = 0" and f': "f' x = (if unat (x - (va + of_nat n)) < unat len - n
        then Some (drop n src ! unat (x - (va + of_nat n))) else f1 x)" for x
      using nx by (cases "n < unat len"; simp add: n_def [symmetric])+
    have "f' x = (if unat (x - va) < unat len then Some (src ! unat (x - va)) else f x)" for x
      unfolding f' one n_def [symmetric]
      using word_split_offset [OF nl, of x va] len nl by (cases "unat (x - va) < n") auto
    with r show ?thesis by blast
  next
    assume r: "r = -1 \<and> (\<exists>k<unat len - unat (chunk va len). f1 (PGROUNDDOWN va + PGSIZE + of_nat k) = None)"
    then obtain k where k: "k < unat len - n" "f1 (va + of_nat (n + k)) = None"
    proof -
      from r obtain k where k: "k < unat len - n" "f1 (PGROUNDDOWN va + PGSIZE + of_nat k) = None" by (auto simp: n_def)
      then have "f1 (va + of_nat (n + k)) = None" using nx by (simp add: add.assoc)
      with k(1) that show thesis by blast
    qed
    have "f (va + of_nat (n + k)) = None" using k(2) one [of "va + of_nat (n + k)"] by (auto split: if_splits)
    moreover have "n + k < unat len" using k(1) by simp
    ultimately show ?thesis using r by blast
  qed
qed

lemma copyout_spec:
  assumes "uvm_ok (pmem s) pt" "unat len \<le> length src"
  shows "\<exists>r m'. copyout h pt va src len s = Some (r, s\<lparr>pmem := m'\<rparr>) \<and> uvm_ok m' pt \<and>
    (\<forall>x. uentry m' pt x = uentry (pmem s) pt x) \<and>
    (\<forall>b. (\<forall>y pa. uentry (pmem s) pt y = Some pa \<longrightarrow> \<not> in_page pa b) \<longrightarrow> m' b = pmem s b) \<and>
    (r = 0 \<and> (\<forall>x. ubyte m' pt x = (if unat (x - va) < unat len then Some (src ! unat (x - va)) else ubyte (pmem s) pt x)) \<or>
     r = -1 \<and> (\<exists>k<unat len. ubyte (pmem s) pt (va + of_nat k) = None))"
  using assms
proof (induction h pt va src len s rule: copyout.induct)
  case (1 h pt va src len s)
  let ?n = "chunk va len" and ?m = "pmem s"
  have ok: "pt_ok ?m 2 pt" using "1.prems"(1) by (simp add: uvm_ok_def)
  show ?case
  proof (cases "len > 0")
    case False
    then have "unat len = 0" by (simp add: word_less_nat_alt)
    with False "1.prems"(1) show ?thesis
      by (intro exI [of _ 0] exI [of _ ?m]) (subst copyout.simps, simp)
  next
    case len: True
    have wa: "walkaddr h pt (PGROUNDDOWN va) s = Some (case uentry ?m pt va of None \<Rightarrow> 0 | Some pa \<Rightarrow> pa)"
      using walkaddr_eq [OF ok, of h "PGROUNDDOWN va"] by (simp add: uentry_page)
    show ?thesis
    proof (cases "uaddr ?m pt va")
      case None
      then have "walkaddr h pt (PGROUNDDOWN va) s = Some 0"
        using wa by (auto simp: uaddr_def split: option.splits if_splits)
      then have "copyout h pt va src len s = Some (-1, s)" using len by (subst copyout.simps) simp
      moreover have "ubyte ?m pt (va + of_nat 0) = None" using None by (simp add: ubyte_def)
      moreover have "0 < unat len" using len by (simp add: word_less_nat_alt)
      ultimately show ?thesis using "1.prems"(1)
        by (intro exI [of _ "-1"] exI [of _ ?m]) auto
    next
      case (Some a)
      then obtain pa where pa: "uentry ?m pt va = Some pa" "pa \<noteq> 0" "a = pa + (va - PGROUNDDOWN va)"
        by (auto simp: uaddr_def split: option.splits if_splits)
      define m1 where "m1 = store_bytes a (take (unat ?n) src) ?m"
      have nl: "unat ?n \<le> length src" using "1.prems"(2) chunk_le [of va len] by simp
      note one = copyout_chunk [OF "1.prems"(1) Some refl nl m1_def]
      have eq: "copyout h pt va src len s =
          copyout h pt (PGROUNDDOWN va + PGSIZE) (drop (unat ?n) src) (len - ?n) (s\<lparr>pmem := m1\<rparr>)"
        unfolding m1_def pa(3) using len wa pa(1,2) nl by (subst copyout.simps) (simp add: Let_def)
      have IH: "\<exists>r m'. copyout h pt (PGROUNDDOWN va + PGSIZE) (drop (unat ?n) src) (len - ?n) (s\<lparr>pmem := m1\<rparr>) =
            Some (r, s\<lparr>pmem := m'\<rparr>) \<and> uvm_ok m' pt \<and> (\<forall>x. uentry m' pt x = uentry m1 pt x) \<and>
          (\<forall>b. (\<forall>y pa. uentry m1 pt y = Some pa \<longrightarrow> \<not> in_page pa b) \<longrightarrow> m' b = m1 b) \<and>
          (r = 0 \<and> (\<forall>x. ubyte m' pt x = (if unat (x - (PGROUNDDOWN va + PGSIZE)) < unat (len - ?n)
             then Some (drop (unat ?n) src ! unat (x - (PGROUNDDOWN va + PGSIZE))) else ubyte m1 pt x)) \<or>
           r = -1 \<and> (\<exists>k<unat (len - ?n). ubyte m1 pt (PGROUNDDOWN va + PGSIZE + of_nat k) = None))"
      proof -
        have l: "unat (len - ?n) \<le> length (drop (unat ?n) src)" using "1.prems"(2) by (simp add: unat_chunk_diff)
        have w: "walkaddr h pt (PGROUNDDOWN va) s = Some pa" using wa pa(1) by simp
        have m1: "store_bytes (pa + (va - PGROUNDDOWN va)) (take (unat ?n) src) ?m = m1" by (simp add: m1_def pa(3))
        have nn: "\<not> length src < unat ?n" using nl by simp
        have p: "pmem (s\<lparr>pmem := m1\<rparr>) = m1" "s\<lparr>pmem := m1, pmem := m\<rparr> = s\<lparr>pmem := m\<rparr>" for m by simp_all
        show ?thesis by (rule "1.IH" [OF len refl w pa(2) refl nn, unfolded m1 p, OF one(1) l])
      qed
      then obtain r m' where t: "copyout h pt va src len s = Some (r, s\<lparr>pmem := m'\<rparr>)" "uvm_ok m' pt"
        "\<And>x. uentry m' pt x = uentry ?m pt x"
        "\<And>b. (\<forall>y pa. uentry ?m pt y = Some pa \<longrightarrow> \<not> in_page pa b) \<Longrightarrow> m' b = ?m b"
        "r = 0 \<and> (\<forall>x. ubyte m' pt x = (if unat (x - (PGROUNDDOWN va + PGSIZE)) < unat len - unat ?n
             then Some (drop (unat ?n) src ! unat (x - (PGROUNDDOWN va + PGSIZE))) else ubyte m1 pt x)) \<or>
           r = -1 \<and> (\<exists>k<unat len - unat ?n. ubyte m1 pt (PGROUNDDOWN va + PGSIZE + of_nat k) = None)"
        unfolding eq one(2) unat_chunk_diff using one(4) by metis
      show ?thesis
        using t(1-4) copyout_join [OF t(5) one(3) "1.prems"(2)] by blast
    qed
  qed
qed

section \<open>copyinstr\<close>

lemma copyinstr_inner_eq:
  "copyinstr_inner m p n =
     (let bs = load_bytes m p n in if 0 \<in> set bs then (cstr bs @ [0], True) else (bs, False))"
  by (induction n arbitrary: p) (auto simp: Let_def)

text \<open>The string at a user address, if it ends within \<open>n\<close> bytes and all of it is mapped.\<close>

fun ustr :: "(uint64 \<Rightarrow> uchar option) \<Rightarrow> uint64 \<Rightarrow> nat \<Rightarrow> bytes option" where
  "ustr f va 0 = None"
| "ustr f va (Suc n) = (case f va of None \<Rightarrow> None
     | Some c \<Rightarrow> if c = 0 then Some [] else map_option (Cons c) (ustr f (va + 1) n))"

lemma ustr_chunk:
  "\<forall>k<n. f (va + of_nat k) = Some (m (a + of_nat k)) \<Longrightarrow>
    ustr f va (n + j) = (let bs = load_bytes m a n
      in if 0 \<in> set bs then Some (cstr bs) else map_option ((@) bs) (ustr f (va + of_nat n) j))"
proof (induction n arbitrary: va a)
  case (Suc n)
  have f: "f va = Some (m a)" using Suc.prems [rule_format, of 0] by simp
  have "\<forall>k<n. f (va + 1 + of_nat k) = Some (m (a + 1 + of_nat k))"
  proof (intro allI impI)
    fix k assume "k < n"
    then show "f (va + 1 + of_nat k) = Some (m (a + 1 + of_nat k))"
      using Suc.prems [rule_format, of "Suc k"] by (simp add: add.assoc)
  qed
  from Suc.IH [OF this] f show ?case
    by (cases "ustr f (va + of_nat (Suc n)) j") (auto simp: Let_def add.assoc)
next
  case (0 va)
  then show ?case by (cases "ustr f va j") simp_all
qed

lemma copyinstr_spec:
  assumes "pt_ok (pmem s) 2 pt"
  shows "\<exists>r bs. copyinstr h pt va mx s = Some (r, bs) \<and>
    (case ustr (ubyte (pmem s) pt) va (unat mx) of Some str \<Rightarrow> r = 0 \<and> bs = str @ [0] | None \<Rightarrow> r = -1)"
  using assms
proof (induction h pt va mx s rule: copyinstr.induct)
  case (1 h pt va mx s)
  let ?n = "chunk va mx" and ?f = "ubyte (pmem s) pt"
  show ?case
  proof (cases "mx > 0")
    case False
    then have "unat mx = 0" by (simp add: word_less_nat_alt)
    with False show ?thesis by (subst copyinstr.simps) simp
  next
    case mx: True
    have wa: "walkaddr h pt (PGROUNDDOWN va) s = Some (case uentry (pmem s) pt va of None \<Rightarrow> 0 | Some pa \<Rightarrow> pa)"
      using walkaddr_eq [OF "1.prems", of h "PGROUNDDOWN va"] by (simp add: uentry_page)
    obtain j where j: "unat mx = unat ?n + j" using chunk_le [of va mx] le_Suc_ex by blast
    show ?thesis
    proof (cases "uaddr (pmem s) pt va")
      case None
      then have "walkaddr h pt (PGROUNDDOWN va) s = Some 0"
        using wa by (auto simp: uaddr_def split: option.splits if_splits)
      then have "copyinstr h pt va mx s = Some (-1, [])" using mx by (subst copyinstr.simps) simp
      moreover have "ustr ?f va (unat mx) = None"
        using None mx by (cases "unat mx") (simp_all add: ubyte_def)
      ultimately show ?thesis by simp
    next
      case (Some a)
      then obtain pa where pa: "uentry (pmem s) pt va = Some pa" "pa \<noteq> 0" "a = pa + (va - PGROUNDDOWN va)"
        by (auto simp: uaddr_def split: option.splits if_splits)
      let ?bs = "load_bytes (pmem s) a (unat ?n)"
      have "\<forall>k<unat ?n. ?f (va + of_nat k) = Some (pmem s (a + of_nat k))"
        using uaddr_chunk [of _ va mx] Some by (simp add: ubyte_def)
      note us = ustr_chunk [OF this, of j, folded j]
      have w: "walkaddr h pt (PGROUNDDOWN va) s = Some pa" using wa pa(1) by simp
      have inn: "copyinstr_inner (pmem s) (pa + (va - PGROUNDDOWN va)) (unat ?n) =
          (if 0 \<in> set ?bs then (cstr ?bs @ [0], True) else (?bs, False))"
        by (simp add: copyinstr_inner_eq pa(3) Let_def)
      show ?thesis
      proof (cases "0 \<in> set ?bs")
        case True
        then have "copyinstr h pt va mx s = Some (0, cstr ?bs @ [0])"
          using mx w pa(2) inn by (subst copyinstr.simps) (simp add: Let_def)
        with us True show ?thesis by simp
      next
        case False
        have IH: "\<exists>r bs. copyinstr h pt (PGROUNDDOWN va + PGSIZE) (mx - ?n) s = Some (r, bs) \<and>
          (case ustr ?f (PGROUNDDOWN va + PGSIZE) (unat (mx - ?n)) of Some str \<Rightarrow> r = 0 \<and> bs = str @ [0] | None \<Rightarrow> r = -1)"
          using "1.IH" [OF mx refl w pa(2) refl] inn False "1.prems" by auto
        have dj: "unat (mx - ?n) = j" using j by (simp add: unat_chunk_diff)
        have nx: "ustr ?f (PGROUNDDOWN va + PGSIZE) j = ustr ?f (va + of_nat (unat ?n)) j"
        proof (cases "?n = mx")
          case True
          then have "j = 0" using j by simp
          then show ?thesis by simp
        qed (use chunk_next [of va mx] in simp)
        from IH obtain r bs where r: "copyinstr h pt (PGROUNDDOWN va + PGSIZE) (mx - ?n) s = Some (r, bs)"
          "case ustr ?f (va + of_nat (unat ?n)) j of Some str \<Rightarrow> r = 0 \<and> bs = str @ [0] | None \<Rightarrow> r = -1"
          unfolding dj nx by blast
        have "copyinstr h pt va mx s = Some (r, ?bs @ bs)"
          using mx w pa(2) inn False r(1) by (subst copyinstr.simps) (simp add: Let_def)
        with us False r(2) show ?thesis by (simp split: option.splits)
      qed
    qed
  qed
qed

section \<open>Properties\<close>

text \<open>
  C15: what \<open>copyout\<close> writes \<open>copyin\<close> reads back.  On a well-formed address space
  a \<open>copyout\<close> that returns 0 has stored exactly the source bytes at the given user addresses: a
  \<open>copyin\<close> of the same range then returns 0 with those bytes, the translation of every address is
  unchanged, and no byte outside the user's own pages has changed.
\<close>

theorem copyout_copyin_roundtrip:
  assumes "uvm_ok (pmem s) pt" "length src = unat len"
    and "copyout h pt va src len s = Some (0, t)"
  shows "copyin h pt va len t = Some (0, src) \<and> (\<forall>x. uentry (pmem t) pt x = uentry (pmem s) pt x) \<and>
    (\<forall>b. (\<forall>y pa. uentry (pmem s) pt y = Some pa \<longrightarrow> \<not> in_page pa b) \<longrightarrow> pmem t b = pmem s b)"
proof -
  obtain m' where t: "t = s\<lparr>pmem := m'\<rparr>" "uvm_ok m' pt" "\<forall>x. uentry m' pt x = uentry (pmem s) pt x"
    "\<forall>b. (\<forall>y pa. uentry (pmem s) pt y = Some pa \<longrightarrow> \<not> in_page pa b) \<longrightarrow> m' b = pmem s b"
    "\<forall>x. ubyte m' pt x = (if unat (x - va) < unat len then Some (src ! unat (x - va)) else ubyte (pmem s) pt x)"
    using copyout_spec [of s pt len src h va] assms by auto
  have b: "ubyte (pmem t) pt (va + of_nat k) = Some (src ! k)" if "k < unat len" for k
    using t(1,5) that unat_bound [of len] by (simp add: unat_of_nat)
  have ok: "pt_ok (pmem t) 2 pt" using t(1,2) by (simp add: uvm_ok_def)
  have "map (\<lambda>k. the (ubyte (pmem t) pt (va + of_nat k))) [0..<unat len] = src"
    using b assms(2) by (intro nth_equalityI) simp_all
  moreover have "\<forall>k<unat len. ubyte (pmem t) pt (va + of_nat k) \<noteq> None" using b by simp
  ultimately have "copyin h pt va len t = Some (0, src)"
    using copyin_spec [OF ok, of h va len] by metis
  then show ?thesis using t(1,3,4) by simp
qed

lemma mapped_uentry:
  "uentry mapped_mem 0x87FFF000 va = (if va < MAXVA \<and> PGROUNDDOWN va = 0 then Some 0x87FFC000 else None)"
proof -
  let ?e = "PA2PTE 0x87FFC000 OR (PTE_W OR PTE_R OR PTE_U) OR PTE_V"
  have px: "PX k 0 = 0" for k by (simp add: PX_def)
  have z: "PGROUNDDOWN 0 = 0" by (simp add: PGROUNDDOWN_def)
  have iff: "PX 2 va = 0 \<and> PX 1 va = 0 \<and> PX 0 va = 0 \<longleftrightarrow> PGROUNDDOWN va = 0" if "va < MAXVA"
  proof
    assume a: "PX 2 va = 0 \<and> PX 1 va = 0 \<and> PX 0 va = 0"
    have "PX k va = PX k 0" if "k \<le> 2" for k
    proof -
      have "k = 0 \<or> k = 1 \<or> k = 2" using that by auto
      then show ?thesis using a px by auto
    qed
    then show "PGROUNDDOWN va = 0" using PX_page [OF that, of 0] z by simp
  next
    assume "PGROUNDDOWN va = 0"
    then have "PX k va = 0" for k using PX_PGROUNDDOWN [of k va] px by metis
    then show "PX 2 va = 0 \<and> PX 1 va = 0 \<and> PX 0 va = 0" by blast
  qed
  have u: "bit ?e 4" by (simp add: bit_or_iff)
  then have "?e AND PTE_U \<noteq> 0"
    by (metis bit_PTE(5) bit_and_iff bit_0_eq bot_apply bot_bool_def)
  then show ?thesis
    using iff mapped_vm_ok(3) [of va] mapped_mem_values(3,5)
    by (cases "va < MAXVA") (simp_all add: uentry_def Let_def)
qed

lemma mapped_uvm_ok: "uvm_ok mapped_mem 0x87FFF000"
  unfolding uvm_ok_def mapped_uentry using mapped_vm_ok(1,2) by (auto split: if_splits)

lemma example_mapped:
  assumes "k < 4096"
  shows "ubyte mapped_mem 0x87FFF000 (of_nat k) \<noteq> None"
proof -
  have u: "unat (of_nat k :: uint64) = k" using assms by (simp add: unsigned_of_nat take_bit_nat_eq_self)
  then have "PGROUNDDOWN (of_nat k) = 0" using assms by (simp add: word_unat_eq_iff unat_PGROUNDDOWN)
  moreover have "of_nat k < MAXVA" using u assms by (simp add: word_less_nat_alt)
  ultimately show ?thesis by (simp add: ubyte_def uaddr_def mapped_uentry)
qed

theorem copyout_copyin_roundtrip_witness:
  "\<exists>t. copyout 0 0x87FFF000 0x10 [1, 2, 3] 3 mapped_vm = Some (0, t) \<and>
    copyin 0 0x87FFF000 0x10 3 t = Some (0, [1, 2, 3]) \<and>
    (\<forall>x. uentry (pmem t) 0x87FFF000 x = uentry (pmem mapped_vm) 0x87FFF000 x) \<and>
    (\<forall>b. (\<forall>y pa. uentry (pmem mapped_vm) 0x87FFF000 y = Some pa \<longrightarrow> \<not> in_page pa b) \<longrightarrow> pmem t b = pmem mapped_vm b)"
proof -
  have m: "pmem mapped_vm = mapped_mem" by (simp add: mapped_vm_def)
  have ok: "uvm_ok (pmem mapped_vm) 0x87FFF000" unfolding m by (rule mapped_uvm_ok)
  have "ubyte (pmem mapped_vm) 0x87FFF000 (0x10 + of_nat k) \<noteq> None" if "k < 3" for k :: nat
  proof -
    have u: "unat (0x10 + of_nat k :: uint64) = 16 + k" using unat_add_small [of "0x10 :: uint64" k] that by simp
    then have "PGROUNDDOWN (0x10 + of_nat k) = 0" using that by (simp add: word_unat_eq_iff unat_PGROUNDDOWN)
    moreover have "0x10 + of_nat k < MAXVA" using u that by (simp add: word_less_nat_alt)
    ultimately show ?thesis by (simp add: m ubyte_def uaddr_def mapped_uentry)
  qed
  then have all: "\<not> (\<exists>k<unat (3 :: uint64). ubyte (pmem mapped_vm) 0x87FFF000 (0x10 + of_nat k) = None)" by auto
  have l: "unat (3 :: uint64) \<le> length [1, 2, 3 :: uchar]" by simp
  obtain t where t: "copyout 0 0x87FFF000 0x10 [1, 2, 3] 3 mapped_vm = Some (0, t)"
    using copyout_spec [OF ok l, of 0 "0x10"] all by blast
  show ?thesis
    using t copyout_copyin_roundtrip [OF ok _ t] by (intro exI [of _ t]) simp
qed

text \<open>
  C16: \<open>copyinstr\<close> returns 0 exactly when a NUL-terminated string of fewer than
  \<open>max\<close> bytes, all of it mapped for the user, starts at the given address; the kernel's buffer then
  holds that string and its NUL.  In every other case it returns -1.
\<close>

theorem copyinstr_correct:
  assumes "pt_ok (pmem s) 2 pt"
  shows "\<exists>r bs. copyinstr h pt va mx s = Some (r, bs) \<and>
    (case ustr (ubyte (pmem s) pt) va (unat mx) of Some str \<Rightarrow> r = 0 \<and> bs = str @ [0] | None \<Rightarrow> r = -1)"
  by (rule copyinstr_spec [OF assms])

theorem copyinstr_correct_witness:
  "\<exists>r bs. copyinstr 0 0x87FFF000 0x10 0x20 mapped_vm = Some (r, bs) \<and>
    (case ustr (ubyte (pmem mapped_vm) 0x87FFF000) 0x10 (unat (0x20 :: uint64)) of
       Some str \<Rightarrow> r = 0 \<and> bs = str @ [0] | None \<Rightarrow> r = -1)"
  by (rule copyinstr_correct) (simp add: mapped_vm_def mapped_vm_ok(1))

end
