(* ===== verification/Fs.thy ===== *)
theory Fs
  imports Transaction UserCopy KString
begin

text \<open>
  The file system, \<^verbatim>\<open>kernel/fs.c\<close>: the block allocator, inodes, directories and path names, on top of the buffer
  cache and the log.  On-disk structures are the bytes of blocks, read and written at the offsets of the C structs.
  An in-memory inode is named by its index in \<open>itable\<close>, so the tests against the null pointer have no counterpart.  C strings are
  objects of bytes with their NUL; reading past the end of an object is a call that does not return.
\<close>

section \<open>Layout and state\<close>

definition FSMAGIC :: uint where "FSMAGIC = 0x10203040"
definition ROOTINO :: uint where "ROOTINO = 1"
definition ROOTDEV :: uint where "ROOTDEV = 1"
definition NINODE :: nat where "NINODE = 50"
definition NDIRECT :: nat where "NDIRECT = 12"
definition NINDIRECT :: nat where "NINDIRECT = BSIZE div 4"
definition MAXFILE :: nat where "MAXFILE = NDIRECT + NINDIRECT"
definition DIRSIZ :: nat where "DIRSIZ = 14"
definition T_DIR :: ushort where "T_DIR = 1"
definition T_FILE :: ushort where "T_FILE = 2"
definition T_DEVICE :: ushort where "T_DEVICE = 3"

definition sizeof_dinode :: nat where "sizeof_dinode = 64"
definition sizeof_dirent :: nat where "sizeof_dirent = 16"
definition IPB :: nat where "IPB = BSIZE div sizeof_dinode"
definition BPB :: nat where "BPB = BSIZE * 8"

definition IBLOCK :: "uint \<Rightarrow> superblock \<Rightarrow> uint" where
  "IBLOCK i b = i div of_nat IPB + inodestart b"

definition BBLOCK :: "uint \<Rightarrow> superblock \<Rightarrow> uint" where
  "BBLOCK b sp = b div of_nat BPB + bmapstart sp"

record inode =
  idev :: uint
  inum :: uint
  iref :: int
  ivalid :: bool
  itype :: ushort
  imajor :: ushort
  iminor :: ushort
  inlink :: ushort
  isize :: uint
  iaddrs :: "nat \<Rightarrow> uint"

record stat =
  st_dev :: uint
  st_ino :: uint
  st_type :: ushort
  st_nlink :: ushort
  st_size :: uint64

record kfs = klog +
  sb :: superblock
  itab :: "nat \<Rightarrow> inode"

definition upd_inode :: "nat \<Rightarrow> (inode \<Rightarrow> inode) \<Rightarrow> 'a kfs_scheme \<Rightarrow> 'a kfs_scheme" where
  "upd_inode i f s = s\<lparr>itab := (itab s)(i := f (itab s i))\<rparr>"

section \<open>The super block\<close>

definition superblock_of :: "bytes \<Rightarrow> superblock" where
  "superblock_of xs = \<lparr>magic = get32 0 xs, sbsize = get32 4 xs, nblocks = get32 8 xs, ninodes = get32 12 xs, nlog = get32 16 xs,
     logstart = get32 20 xs, inodestart = get32 24 xs, bmapstart = get32 28 xs\<rparr>"

definition readsb :: "nat \<Rightarrow> uint \<Rightarrow> 'a kfs_scheme \<Rightarrow> 'a kfs_scheme option" where
  "readsb h dev s = do {
     (bp, s) \<leftarrow> bread h dev 1 s;
     let s = s\<lparr>sb := superblock_of (bdata (bufs s bp))\<rparr>;
     brelse h bp s
   }"

definition fsinit :: "nat \<Rightarrow> uint \<Rightarrow> 'a kfs_scheme \<Rightarrow> 'a kfs_scheme option" where
  "fsinit h dev s = do {
     s \<leftarrow> readsb h dev s;
     (if magic (sb s) \<noteq> FSMAGIC then None else initlog h dev (sb s) s)
   }"

section \<open>Blocks\<close>

definition bzero :: "nat \<Rightarrow> uint \<Rightarrow> uint \<Rightarrow> 'a klog_scheme \<Rightarrow> 'a klog_scheme option" where
  "bzero h dev bno s = do {
     (bp, s) \<leftarrow> bread h dev bno s;
     let s = set_data bp (replicate BSIZE 0) s;
     s \<leftarrow> log_write h bp s;
     brelse h bp s
   }"

text \<open>The inner loop of \<open>balloc\<close>: the first \<open>bi\<close> whose bit is clear.\<close>

fun balloc_bit :: "bytes \<Rightarrow> nat \<Rightarrow> nat \<Rightarrow> nat \<Rightarrow> nat \<Rightarrow> nat option" where
  "balloc_bit data b n 0 bi = None"
| "balloc_bit data b n (Suc k) bi =
     (if \<not> b + bi < n then None
      else if data ! (bi div 8) AND push_bit (bi mod 8) 1 = 0 then Some bi
      else balloc_bit data b n k (Suc bi))"

text \<open>The outer loop, over the first block numbers \<open>b\<close> of the bitmap blocks.\<close>

fun balloc_loop :: "nat \<Rightarrow> uint \<Rightarrow> nat list \<Rightarrow> 'a kfs_scheme \<Rightarrow> (uint \<times> 'a kfs_scheme) option" where
  "balloc_loop h dev [] s = None"
| "balloc_loop h dev (b # bs) s = do {
     (bp, s) \<leftarrow> bread h dev (BBLOCK (of_nat b) (sb s)) s;
     let data = bdata (bufs s bp);
     (case balloc_bit data b (unat (sbsize (sb s))) BPB 0 of
        Some bi \<Rightarrow> do {
          let s = set_data bp (data[bi div 8 := data ! (bi div 8) OR push_bit (bi mod 8) 1]) s;
          s \<leftarrow> log_write h bp s;
          s \<leftarrow> brelse h bp s;
          s \<leftarrow> bzero h dev (of_nat (b + bi)) s;
          Some (of_nat (b + bi), s)
        }
      | None \<Rightarrow> do {
          s \<leftarrow> brelse h bp s;
          balloc_loop h dev bs s
        })
   }"

definition balloc :: "nat \<Rightarrow> uint \<Rightarrow> 'a kfs_scheme \<Rightarrow> (uint \<times> 'a kfs_scheme) option" where
  "balloc h dev s = balloc_loop h dev (map (\<lambda>i. i * BPB) [0..<(unat (sbsize (sb s)) + BPB - 1) div BPB]) s"

definition bfree :: "nat \<Rightarrow> uint \<Rightarrow> uint \<Rightarrow> 'a kfs_scheme \<Rightarrow> 'a kfs_scheme option" where
  "bfree h dev b s = do {
     (bp, s) \<leftarrow> bread h dev (BBLOCK b (sb s)) s;
     let bi = unat b mod BPB;
     let m = push_bit (bi mod 8) 1;
     let data = bdata (bufs s bp);
     (if data ! (bi div 8) AND m = 0 then None
      else do {
        let s = set_data bp (data[bi div 8 := data ! (bi div 8) AND NOT m]) s;
        s \<leftarrow> log_write h bp s;
        brelse h bp s
      })
   }"

section \<open>Inodes\<close>

text \<open>The \<open>struct dinode\<close> at the offset \<open>o\<close> of a block.\<close>

definition dinode_off :: "uint \<Rightarrow> nat" where
  "dinode_off i = sizeof_dinode * (unat i mod IPB)"

fun put_addrs :: "nat \<Rightarrow> (nat \<Rightarrow> uint) \<Rightarrow> nat \<Rightarrow> bytes \<Rightarrow> bytes" where
  "put_addrs off a 0 xs = xs"
| "put_addrs off a (Suc k) xs = put32 (off + 4 * k) (a k) (put_addrs off a k xs)"

definition put_dinode :: "nat \<Rightarrow> inode \<Rightarrow> bytes \<Rightarrow> bytes" where
  "put_dinode off ip xs =
     put_addrs (off + 12) (iaddrs ip) (NDIRECT + 1)
       (put32 (off + 8) (isize ip) (put16 (off + 6) (inlink ip) (put16 (off + 4) (iminor ip)
         (put16 (off + 2) (imajor ip) (put16 off (itype ip) xs)))))"

definition get_dinode :: "nat \<Rightarrow> bytes \<Rightarrow> inode \<Rightarrow> inode" where
  "get_dinode off xs ip = ip\<lparr>itype := get16 off xs, imajor := get16 (off + 2) xs, iminor := get16 (off + 4) xs,
     inlink := get16 (off + 6) xs, isize := get32 (off + 8) xs,
     iaddrs := (\<lambda>k. if k < NDIRECT + 1 then get32 (off + 12 + 4 * k) xs else iaddrs ip k)\<rparr>"

definition iinit :: "'a kfs_scheme \<Rightarrow> 'a kfs_scheme" where
  "iinit s = fold (\<lambda>i. initsleeplock (InodeLock i) ''inode'') [0..<NINODE] (initlock ItableLock ''itable'' s)"

fun iget_scan :: "(nat \<Rightarrow> inode) \<Rightarrow> uint \<Rightarrow> uint \<Rightarrow> nat list \<Rightarrow> nat option \<Rightarrow> nat option \<times> nat option" where
  "iget_scan T dev i [] em = (None, em)"
| "iget_scan T dev i (ip # ips) em =
     (if 0 < iref (T ip) \<and> idev (T ip) = dev \<and> inum (T ip) = i then (Some ip, em)
      else iget_scan T dev i ips (if em = None \<and> iref (T ip) = 0 then Some ip else em))"

definition iget :: "nat \<Rightarrow> uint \<Rightarrow> uint \<Rightarrow> 'a kfs_scheme \<Rightarrow> (nat \<times> 'a kfs_scheme) option" where
  "iget h dev i s = do {
     s \<leftarrow> acquire h ItableLock s;
     (case iget_scan (itab s) dev i [0..<NINODE] None of
        (Some ip, _) \<Rightarrow> do {
          let s = upd_inode ip (\<lambda>x. x\<lparr>iref := iref x + 1\<rparr>) s;
          s \<leftarrow> release h ItableLock s;
          Some (ip, s)
        }
      | (None, None) \<Rightarrow> None
      | (None, Some ip) \<Rightarrow> do {
          let s = upd_inode ip (\<lambda>x. x\<lparr>idev := dev, inum := i, iref := 1, ivalid := False\<rparr>) s;
          s \<leftarrow> release h ItableLock s;
          Some (ip, s)
        })
   }"

fun ialloc_loop :: "nat \<Rightarrow> uint \<Rightarrow> ushort \<Rightarrow> nat list \<Rightarrow> 'a kfs_scheme \<Rightarrow> (nat \<times> 'a kfs_scheme) option" where
  "ialloc_loop h dev ty [] s = None"
| "ialloc_loop h dev ty (i # is) s = do {
     (bp, s) \<leftarrow> bread h dev (IBLOCK (of_nat i) (sb s)) s;
     let data = bdata (bufs s bp);
     let off = dinode_off (of_nat i);
     (if get16 off data = 0
      then do {
        let s = set_data bp (put16 off ty (splice_at off (replicate sizeof_dinode 0) data)) s;
        s \<leftarrow> log_write h bp s;
        s \<leftarrow> brelse h bp s;
        iget h dev (of_nat i) s
      }
      else do {
        s \<leftarrow> brelse h bp s;
        ialloc_loop h dev ty is s
      })
   }"

definition ialloc :: "nat \<Rightarrow> uint \<Rightarrow> ushort \<Rightarrow> 'a kfs_scheme \<Rightarrow> (nat \<times> 'a kfs_scheme) option" where
  "ialloc h dev ty s = ialloc_loop h dev ty [1..<unat (ninodes (sb s))] s"

definition iupdate :: "nat \<Rightarrow> nat \<Rightarrow> 'a kfs_scheme \<Rightarrow> 'a kfs_scheme option" where
  "iupdate h ip s = do {
     (bp, s) \<leftarrow> bread h (idev (itab s ip)) (IBLOCK (inum (itab s ip)) (sb s)) s;
     let s = set_data bp (put_dinode (dinode_off (inum (itab s ip))) (itab s ip) (bdata (bufs s bp))) s;
     s \<leftarrow> log_write h bp s;
     brelse h bp s
   }"

definition idup :: "nat \<Rightarrow> nat \<Rightarrow> 'a kfs_scheme \<Rightarrow> (nat \<times> 'a kfs_scheme) option" where
  "idup h ip s = do {
     s \<leftarrow> acquire h ItableLock s;
     let s = upd_inode ip (\<lambda>x. x\<lparr>iref := iref x + 1\<rparr>) s;
     s \<leftarrow> release h ItableLock s;
     Some (ip, s)
   }"

definition ilock :: "nat \<Rightarrow> nat \<Rightarrow> 'a kfs_scheme \<Rightarrow> 'a kfs_scheme option" where
  "ilock h ip s =
     (if iref (itab s ip) < 1 then None
      else do {
        s \<leftarrow> acquiresleep h (InodeLock ip) s;
        (if \<not> ivalid (itab s ip)
         then do {
           (bp, s) \<leftarrow> bread h (idev (itab s ip)) (IBLOCK (inum (itab s ip)) (sb s)) s;
           let s = upd_inode ip (get_dinode (dinode_off (inum (itab s ip))) (bdata (bufs s bp))) s;
           s \<leftarrow> brelse h bp s;
           let s = upd_inode ip (\<lambda>x. x\<lparr>ivalid := True\<rparr>) s;
           (if itype (itab s ip) = 0 then None else Some s)
         }
         else Some s)
      })"

definition iunlock :: "nat \<Rightarrow> nat \<Rightarrow> 'a kfs_scheme \<Rightarrow> 'a kfs_scheme option" where
  "iunlock h ip s = do {
     (held, s) \<leftarrow> holdingsleep h (InodeLock ip) s;
     (if \<not> held \<or> iref (itab s ip) < 1 then None else releasesleep h (InodeLock ip) s)
   }"

section \<open>The contents of an inode\<close>

definition bmap :: "nat \<Rightarrow> nat \<Rightarrow> uint \<Rightarrow> 'a kfs_scheme \<Rightarrow> (uint \<times> 'a kfs_scheme) option" where
  "bmap h ip bn s =
     (if unat bn < NDIRECT
      then do {
        let addr = iaddrs (itab s ip) (unat bn);
        (if addr = 0
         then do {
           (addr, s) \<leftarrow> balloc h (idev (itab s ip)) s;
           Some (addr, upd_inode ip (\<lambda>x. x\<lparr>iaddrs := (iaddrs x)(unat bn := addr)\<rparr>) s)
         }
         else Some (addr, s))
      }
      else do {
        let n = unat bn - NDIRECT;
        if n < NINDIRECT
        then do {
          let addr = iaddrs (itab s ip) NDIRECT;
          (addr, s) \<leftarrow> (if addr = 0
             then do {
               (addr, s) \<leftarrow> balloc h (idev (itab s ip)) s;
               Some (addr, upd_inode ip (\<lambda>x. x\<lparr>iaddrs := (iaddrs x)(NDIRECT := addr)\<rparr>) s)
             }
             else Some (addr, s));
          (bp, s) \<leftarrow> bread h (idev (itab s ip)) addr s;
          let addr = get32 (4 * n) (bdata (bufs s bp));
          (addr, s) \<leftarrow> (if addr = 0
             then do {
               (addr, s) \<leftarrow> balloc h (idev (itab s ip)) s;
               let s = set_data bp (put32 (4 * n) addr (bdata (bufs s bp))) s;
               s \<leftarrow> log_write h bp s;
               Some (addr, s)
             }
             else Some (addr, s));
          s \<leftarrow> brelse h bp s;
          Some (addr, s)
        }
        else None
      })"

definition itrunc_direct :: "nat \<Rightarrow> nat \<Rightarrow> nat \<Rightarrow> 'a kfs_scheme \<Rightarrow> 'a kfs_scheme option" where
  "itrunc_direct h ip i s =
     (if iaddrs (itab s ip) i \<noteq> 0
      then do {
        s \<leftarrow> bfree h (idev (itab s ip)) (iaddrs (itab s ip) i) s;
        Some (upd_inode ip (\<lambda>x. x\<lparr>iaddrs := (iaddrs x)(i := 0)\<rparr>) s)
      }
      else Some s)"

definition itrunc_indirect :: "nat \<Rightarrow> nat \<Rightarrow> nat \<Rightarrow> nat \<Rightarrow> 'a kfs_scheme \<Rightarrow> 'a kfs_scheme option" where
  "itrunc_indirect h ip bp j s =
     (let a = get32 (4 * j) (bdata (bufs s bp))
      in if a \<noteq> 0 then bfree h (idev (itab s ip)) a s else Some s)"

definition itrunc :: "nat \<Rightarrow> nat \<Rightarrow> 'a kfs_scheme \<Rightarrow> 'a kfs_scheme option" where
  "itrunc h ip s = do {
     s \<leftarrow> for_each (itrunc_direct h ip) [0..<NDIRECT] s;
     s \<leftarrow> (if iaddrs (itab s ip) NDIRECT \<noteq> 0
       then do {
         (bp, s) \<leftarrow> bread h (idev (itab s ip)) (iaddrs (itab s ip) NDIRECT) s;
         s \<leftarrow> for_each (itrunc_indirect h ip bp) [0..<NINDIRECT] s;
         s \<leftarrow> brelse h bp s;
         s \<leftarrow> bfree h (idev (itab s ip)) (iaddrs (itab s ip) NDIRECT) s;
         Some (upd_inode ip (\<lambda>x. x\<lparr>iaddrs := (iaddrs x)(NDIRECT := 0)\<rparr>) s)
       }
       else Some s);
     iupdate h ip (upd_inode ip (\<lambda>x. x\<lparr>isize := 0\<rparr>) s)
   }"

definition iput :: "nat \<Rightarrow> nat \<Rightarrow> 'a kfs_scheme \<Rightarrow> 'a kfs_scheme option" where
  "iput h ip s = do {
     s \<leftarrow> acquire h ItableLock s;
     s \<leftarrow> (if iref (itab s ip) = 1 \<and> ivalid (itab s ip) \<and> inlink (itab s ip) = 0
       then do {
         s \<leftarrow> acquiresleep h (InodeLock ip) s;
         s \<leftarrow> release h ItableLock s;
         s \<leftarrow> itrunc h ip s;
         let s = upd_inode ip (\<lambda>x. x\<lparr>itype := 0\<rparr>) s;
         s \<leftarrow> iupdate h ip s;
         let s = upd_inode ip (\<lambda>x. x\<lparr>ivalid := False\<rparr>) s;
         s \<leftarrow> releasesleep h (InodeLock ip) s;
         acquire h ItableLock s
       }
       else Some s);
     let s = upd_inode ip (\<lambda>x. x\<lparr>iref := iref x - 1\<rparr>) s;
     release h ItableLock s
   }"

definition iunlockput :: "nat \<Rightarrow> nat \<Rightarrow> 'a kfs_scheme \<Rightarrow> 'a kfs_scheme option" where
  "iunlockput h ip s = do {
     s \<leftarrow> iunlock h ip s;
     iput h ip s
   }"

definition stati :: "nat \<Rightarrow> 'a kfs_scheme \<Rightarrow> stat" where
  "stati ip s = (let x = itab s ip in \<lparr>st_dev = idev x, st_ino = inum x, st_type = itype x, st_nlink = inlink x,
     st_size = ucast (isize x)\<rparr>)"

text \<open>
  \<open>either_copyout\<close> and \<open>either_copyin\<close> of \<^verbatim>\<open>kernel/proc.c\<close>.  A kernel address is an address of physical memory, which the
  kernel maps one to one.
\<close>

definition either_copyout ::
  "nat \<Rightarrow> bool \<Rightarrow> uint64 \<Rightarrow> bytes \<Rightarrow> uint64 \<Rightarrow> 'a kmem_scheme \<Rightarrow> (int \<times> 'a kmem_scheme) option" where
  "either_copyout h user_dst dst src len s = do {
     (me, s) \<leftarrow> myproc h s;
     (if user_dst then do { p \<leftarrow> me; copyout h (pagetable (procs s p)) dst src len s }
      else if length src < unat len then None
      else Some (0, s\<lparr>pmem := store_bytes dst (take (unat len) src) (pmem s)\<rparr>))
   }"

definition either_copyin ::
  "nat \<Rightarrow> bool \<Rightarrow> uint64 \<Rightarrow> uint64 \<Rightarrow> 'a kmem_scheme \<Rightarrow> (int \<times> bytes \<times> 'a kmem_scheme) option" where
  "either_copyin h user_src src len s = do {
     (me, s) \<leftarrow> myproc h s;
     (if user_src
      then do { p \<leftarrow> me; (r, bs) \<leftarrow> copyin h (pagetable (procs s p)) src len s; Some (r, bs, s) }
      else Some (0, load_bytes (pmem s) src (unat len), s))
   }"

text \<open>
  Where \<open>readi\<close> puts its data and where \<open>writei\<close> takes it from: memory, through the functions above, or an object on the
  kernel stack (the \<open>struct dirent\<close> of \<open>dirlookup\<close> and \<open>dirlink\<close>), which is the component \<open>'x\<close>.  The first argument is the
  distance from the start of the destination or source.
\<close>

type_synonym ('x, 's) sink = "nat \<Rightarrow> bytes \<Rightarrow> 'x \<Rightarrow> 's \<Rightarrow> (int \<times> 'x \<times> 's) option"
type_synonym 's source = "nat \<Rightarrow> nat \<Rightarrow> 's \<Rightarrow> (int \<times> bytes \<times> 's) option"

definition mem_sink :: "nat \<Rightarrow> bool \<Rightarrow> uint64 \<Rightarrow> (unit, 'a kmem_scheme) sink" where
  "mem_sink h user_dst dst = (\<lambda>k bs x s. do {
     (r, s) \<leftarrow> either_copyout h user_dst (dst + of_nat k) bs (of_nat (length bs)) s;
     Some (r, x, s)
   })"

definition object_sink :: "(bytes, 's) sink" where
  "object_sink = (\<lambda>k bs x s. if k + length bs \<le> length x then Some (0, splice_at k bs x, s) else None)"

definition mem_source :: "nat \<Rightarrow> bool \<Rightarrow> uint64 \<Rightarrow> ('a kmem_scheme) source" where
  "mem_source h user_src src = (\<lambda>k n s. either_copyin h user_src (src + of_nat k) (of_nat n) s)"

definition object_source :: "bytes \<Rightarrow> 's source" where
  "object_source x = (\<lambda>k n s. if k + n \<le> length x then Some (0, slice k n x, s) else None)"

text \<open>The loops of \<open>readi\<close> and \<open>writei\<close>, with \<open>rem\<close> the \<open>n - tot\<close> bytes that are left; they always make progress.\<close>

definition chunk_len :: "nat \<Rightarrow> uint \<Rightarrow> nat" where
  "chunk_len rem off = min rem (BSIZE - unat off mod BSIZE)"

lemma chunk_len_pos: "0 < rem \<Longrightarrow> rem - chunk_len rem off < rem"
  by (simp add: chunk_len_def BSIZE_def)

function readi_loop ::
  "nat \<Rightarrow> nat \<Rightarrow> ('x, 'a kfs_scheme) sink \<Rightarrow> nat \<Rightarrow> nat \<Rightarrow> uint \<Rightarrow> 'x \<Rightarrow> 'a kfs_scheme \<Rightarrow> (int \<times> 'x \<times> 'a kfs_scheme) option"
where
  "readi_loop h ip out rem tot off x s =
     (if rem = 0 then Some (int tot, x, s)
      else let m = chunk_len rem off
        in Option.bind (bmap h ip (off div of_nat BSIZE) s) (\<lambda>(addr, s).
          Option.bind (bread h (idev (itab s ip)) addr s) (\<lambda>(bp, s).
            Option.bind (out tot (slice (unat off mod BSIZE) m (bdata (bufs s bp))) x s) (\<lambda>(r, x, s).
              Option.bind (brelse h bp s) (\<lambda>s.
                if r = -1 then Some (-1, x, s)
                else readi_loop h ip out (rem - m) (tot + m) (off + of_nat m) x s)))))"
  by pat_completeness auto
termination by (relation "measure (\<lambda>(h, ip, out, rem, tot, off, x, s). rem)") (auto simp: chunk_len_pos)

declare readi_loop.simps [simp del]

definition readi ::
  "nat \<Rightarrow> nat \<Rightarrow> ('x, 'a kfs_scheme) sink \<Rightarrow> uint \<Rightarrow> uint \<Rightarrow> 'x \<Rightarrow> 'a kfs_scheme \<Rightarrow> (int \<times> 'x \<times> 'a kfs_scheme) option" where
  "readi h ip out off n x s =
     (let size = isize (itab s ip)
      in if size < off \<or> off + n < off then Some (0, x, s)
         else let n = (if size < off + n then size - off else n)
           in readi_loop h ip out (unat n) 0 off x s)"

text \<open>The result also has the final \<open>off\<close>.\<close>

function writei_loop ::
  "nat \<Rightarrow> nat \<Rightarrow> ('a kfs_scheme) source \<Rightarrow> nat \<Rightarrow> nat \<Rightarrow> uint \<Rightarrow> 'a kfs_scheme \<Rightarrow> (int \<times> uint \<times> 'a kfs_scheme) option"
where
  "writei_loop h ip src rem tot off s =
     (if rem = 0 then Some (int tot, off, s)
      else let m = chunk_len rem off
        in Option.bind (bmap h ip (off div of_nat BSIZE) s) (\<lambda>(addr, s).
          Option.bind (bread h (idev (itab s ip)) addr s) (\<lambda>(bp, s).
            Option.bind (src tot m s) (\<lambda>(r, bs, s).
              let s = set_data bp (splice_at (unat off mod BSIZE) bs (bdata (bufs s bp))) s
              in if r = -1
                 then Option.bind (brelse h bp s) (\<lambda>s. Some (int tot, off, s))
                 else Option.bind (log_write h bp s) (\<lambda>s.
                   Option.bind (brelse h bp s) (\<lambda>s.
                     writei_loop h ip src (rem - m) (tot + m) (off + of_nat m) s))))))"
  by pat_completeness auto
termination by (relation "measure (\<lambda>(h, ip, src, rem, tot, off, s). rem)") (auto simp: chunk_len_pos)

declare writei_loop.simps [simp del]

definition writei :: "nat \<Rightarrow> nat \<Rightarrow> ('a kfs_scheme) source \<Rightarrow> uint \<Rightarrow> uint \<Rightarrow> 'a kfs_scheme \<Rightarrow> (int \<times> 'a kfs_scheme) option" where
  "writei h ip src off n s =
     (if isize (itab s ip) < off \<or> off + n < off then Some (-1, s)
      else if MAXFILE * BSIZE < unat (off + n) then Some (-1, s)
      else do {
        (tot, off, s) \<leftarrow> writei_loop h ip src (unat n) 0 off s;
        let s = (if isize (itab s ip) < off then upd_inode ip (\<lambda>x. x\<lparr>isize := off\<rparr>) s else s);
        s \<leftarrow> iupdate h ip s;
        Some (tot, s)
      })"

section \<open>Directories\<close>

definition namecmp :: "bytes \<Rightarrow> bytes \<Rightarrow> int option" where
  "namecmp s t = strncmp s t DIRSIZ"

text \<open>The fields of a \<open>struct dirent\<close>.\<close>

definition de_inum :: "bytes \<Rightarrow> ushort" where "de_inum de = get16 0 de"
definition de_name :: "bytes \<Rightarrow> bytes" where "de_name de = slice 2 DIRSIZ de"

text \<open>\<open>de\<close> is the entry on the stack, with whatever it holds at first.\<close>

partial_function (option) dirlookup_loop ::
  "nat \<Rightarrow> nat \<Rightarrow> bytes \<Rightarrow> uint \<Rightarrow> bytes \<Rightarrow> 'a kfs_scheme \<Rightarrow> ((nat \<times> uint) option \<times> 'a kfs_scheme) option" where
  "dirlookup_loop h dp name off de s =
     (if off < isize (itab s dp)
      then Option.bind (readi h dp object_sink off (of_nat sizeof_dirent) de s) (\<lambda>(r, de, s).
        if r \<noteq> int sizeof_dirent then None
        else if de_inum de = 0 then dirlookup_loop h dp name (off + of_nat sizeof_dirent) de s
        else Option.bind (namecmp name (de_name de)) (\<lambda>c.
          if c = 0
          then Option.bind (iget h (idev (itab s dp)) (ucast (de_inum de)) s) (\<lambda>(ip, s). Some (Some (ip, off), s))
          else dirlookup_loop h dp name (off + of_nat sizeof_dirent) de s))
      else Some (None, s))"

definition dirlookup :: "nat \<Rightarrow> nat \<Rightarrow> bytes \<Rightarrow> bytes \<Rightarrow> 'a kfs_scheme \<Rightarrow> ((nat \<times> uint) option \<times> 'a kfs_scheme) option" where
  "dirlookup h dp name de s =
     (if itype (itab s dp) \<noteq> T_DIR then None else dirlookup_loop h dp name 0 de s)"

partial_function (option) dirlink_loop ::
  "nat \<Rightarrow> nat \<Rightarrow> uint \<Rightarrow> bytes \<Rightarrow> 'a kfs_scheme \<Rightarrow> (uint \<times> bytes \<times> 'a kfs_scheme) option" where
  "dirlink_loop h dp off de s =
     (if off < isize (itab s dp)
      then Option.bind (readi h dp object_sink off (of_nat sizeof_dirent) de s) (\<lambda>(r, de, s).
        if r \<noteq> int sizeof_dirent then None
        else if de_inum de = 0 then Some (off, de, s)
        else dirlink_loop h dp (off + of_nat sizeof_dirent) de s)
      else Some (off, de, s))"

definition dirlink :: "nat \<Rightarrow> nat \<Rightarrow> bytes \<Rightarrow> uint \<Rightarrow> bytes \<Rightarrow> 'a kfs_scheme \<Rightarrow> (int \<times> 'a kfs_scheme) option" where
  "dirlink h dp name i de s = do {
     (found, s) \<leftarrow> dirlookup h dp name de s;
     (case found of
        Some (ip, _) \<Rightarrow> do {
          s \<leftarrow> iput h ip s;
          Some (-1, s)
        }
      | None \<Rightarrow> do {
          (off, de, s) \<leftarrow> dirlink_loop h dp 0 de s;
          nm \<leftarrow> strncpy (de_name de) name (int DIRSIZ);
          let de = put16 0 (ucast i) (splice_at 2 nm de);
          (r, s) \<leftarrow> writei h dp (object_source de) off (of_nat sizeof_dirent) s;
          (if r \<noteq> int sizeof_dirent then None else Some (0, s))
        })
   }"

section \<open>Paths\<close>

definition slash :: uchar where "slash = 47"

text \<open>The loops of \<open>skipelem\<close>, on the rest of a path with its NUL.\<close>

fun skip_slashes :: "bytes \<Rightarrow> bytes option" where
  "skip_slashes [] = None"
| "skip_slashes (c # p) = (if c = slash then skip_slashes p else Some (c # p))"

fun take_elem :: "bytes \<Rightarrow> (bytes \<times> bytes) option" where
  "take_elem [] = None"
| "take_elem (c # p) =
     (if c \<noteq> slash \<and> c \<noteq> 0 then map_option (\<lambda>(e, p). (c # e, p)) (take_elem p) else Some ([], c # p))"

text \<open>\<open>Some None\<close> is the null pointer; otherwise the rest of the path and the buffer \<open>name\<close> of \<open>DIRSIZ\<close> bytes.\<close>

definition skipelem :: "bytes \<Rightarrow> bytes \<Rightarrow> (bytes \<times> bytes) option option" where
  "skipelem path name = do {
     path \<leftarrow> skip_slashes path;
     (if hd path = 0 then Some None
      else do {
        (e, path) \<leftarrow> take_elem path;
        let name = (if DIRSIZ \<le> length e then splice_at 0 (take DIRSIZ e) name
                    else splice_at 0 (e @ [0]) name);
        path \<leftarrow> skip_slashes path;
        Some (Some (path, name))
      })
   }"

lemma skip_slashes_length:
  "skip_slashes p = Some q \<Longrightarrow> length q \<le> length p" "skip_slashes p = Some q \<Longrightarrow> \<exists>c r. q = c # r \<and> c \<noteq> slash"
  by (induction p) (auto split: if_splits)

lemma take_elem_length: "take_elem p = Some (e, q) \<Longrightarrow> length p = length e + length q"
  by (induction p arbitrary: e) (auto split: if_splits)

lemma skipelem_shorter:
  assumes "skipelem path name = Some (Some (q, nm))"
  shows "length q < length path"
proof -
  from assms obtain p e r where p: "skip_slashes path = Some p" "hd p \<noteq> 0" "take_elem p = Some (e, r)" "skip_slashes r = Some q"
    by (auto simp: skipelem_def split: if_splits)
  obtain c p' where c: "p = c # p'" "c \<noteq> slash" using skip_slashes_length(2) [OF p(1)] by blast
  then have "e \<noteq> []" using p(2,3) by auto
  then show ?thesis
    using skip_slashes_length(1) [OF p(1)] skip_slashes_length(1) [OF p(4)] take_elem_length [OF p(3)] by (cases e) auto
qed

text \<open>
  The loop of \<open>namex\<close>.  Its results: the inode or the null pointer, and the buffer \<open>name\<close>.  \<open>de\<close> is the stack object of
  \<open>dirlookup\<close>.
\<close>

function namex_loop ::
  "nat \<Rightarrow> bool \<Rightarrow> bytes \<Rightarrow> nat \<Rightarrow> bytes \<Rightarrow> bytes \<Rightarrow> 'a kfs_scheme \<Rightarrow> (nat option \<times> bytes \<times> 'a kfs_scheme) option" where
  "namex_loop h par de ip path name s =
     (case skipelem path name of
        None \<Rightarrow> None
      | Some None \<Rightarrow>
          if par then Option.bind (iput h ip s) (\<lambda>s. Some (None, name, s)) else Some (Some ip, name, s)
      | Some (Some (path', name')) \<Rightarrow>
          Option.bind (ilock h ip s) (\<lambda>s.
            if itype (itab s ip) \<noteq> T_DIR then Option.bind (iunlockput h ip s) (\<lambda>s. Some (None, name', s))
            else if par \<and> hd path' = 0 then Option.bind (iunlock h ip s) (\<lambda>s. Some (Some ip, name', s))
            else Option.bind (dirlookup h ip name' de s) (\<lambda>(found, s).
              Option.bind (iunlockput h ip s) (\<lambda>s.
                case found of None \<Rightarrow> Some (None, name', s)
                | Some (nxt, _) \<Rightarrow> namex_loop h par de nxt path' name' s))))"
  by pat_completeness auto
termination
  by (relation "measure (\<lambda>(h, par, de, ip, path, name, s). length path)") (auto dest: skipelem_shorter)

declare namex_loop.simps [simp del]

definition namex :: "nat \<Rightarrow> bytes \<Rightarrow> bytes \<Rightarrow> bool \<Rightarrow> bytes \<Rightarrow> 'a kfs_scheme \<Rightarrow> (nat option \<times> bytes \<times> 'a kfs_scheme) option" where
  "namex h de path par name s =
     (if path = [] then None
      else do {
        (ip, s) \<leftarrow> (if hd path = slash then iget h ROOTDEV ROOTINO s
          else do {
            (me, s) \<leftarrow> myproc h s;
            p \<leftarrow> me;
            c \<leftarrow> cwd (procs s p);
            idup h c s
          });
        namex_loop h par de ip path name s
      })"

definition namei :: "nat \<Rightarrow> bytes \<Rightarrow> bytes \<Rightarrow> bytes \<Rightarrow> 'a kfs_scheme \<Rightarrow> (nat option \<times> 'a kfs_scheme) option" where
  "namei h de name path s = do {
     (ip, _, s) \<leftarrow> namex h de path False name s;
     Some (ip, s)
   }"

definition nameiparent :: "nat \<Rightarrow> bytes \<Rightarrow> bytes \<Rightarrow> bytes \<Rightarrow> 'a kfs_scheme \<Rightarrow> (nat option \<times> bytes \<times> 'a kfs_scheme) option" where
  "nameiparent h de path name s = namex h de path True name s"

end
