(* ===== verification/Console.thy ===== *)
theory Console
  imports Fs
begin

text \<open>
  The UART driver \<^verbatim>\<open>kernel/uart.c\<close>, kernel \<open>printf\<close> \<^verbatim>\<open>kernel/printf.c\<close>, and the console
  \<^verbatim>\<open>kernel/console.c\<close>.

  The UART itself is a parameter: \<open>uart_in\<close> gives the value that the device returns for each register read, one after the other,
  and \<open>uart_out\<close> collects the register writes.  A loop that waits for the device for ever does not return.  Code that may go
  to sleep returns where it does so: \<open>Inl\<close> the arguments with which it goes on after the wakeup, \<open>Inr\<close> the result.
\<close>

text \<open>\<open>devsw\<close> says which entries of the device table point to \<open>consoleread\<close> and \<open>consolewrite\<close>; the others are null.\<close>

section \<open>State\<close>

definition CONSOLE :: nat where "CONSOLE = 1"

definition UART_TX_BUF_SIZE :: nat where "UART_TX_BUF_SIZE = 32"
definition INPUT_BUF :: nat where "INPUT_BUF = 128"

definition RHR :: nat where "RHR = 0"
definition THR :: nat where "THR = 0"
definition IER :: nat where "IER = 1"
definition FCR :: nat where "FCR = 2"
definition LCR :: nat where "LCR = 3"
definition LSR :: nat where "LSR = 5"
definition IER_RX_ENABLE :: uchar where "IER_RX_ENABLE = push_bit 0 1"
definition IER_TX_ENABLE :: uchar where "IER_TX_ENABLE = push_bit 1 1"
definition FCR_FIFO_ENABLE :: uchar where "FCR_FIFO_ENABLE = push_bit 0 1"
definition FCR_FIFO_CLEAR :: uchar where "FCR_FIFO_CLEAR = push_bit 1 3"
definition LCR_EIGHT_BITS :: uchar where "LCR_EIGHT_BITS = push_bit 0 3"
definition LCR_BAUD_LATCH :: uchar where "LCR_BAUD_LATCH = push_bit 7 1"
definition LSR_TX_IDLE :: uchar where "LSR_TX_IDLE = push_bit 5 1"

record cons =
  cbuf :: bytes
  con_r :: uint
  con_w :: uint
  con_e :: uint

record kcons = kfs +
  uart_in :: "nat \<Rightarrow> uchar"
  uart_reads :: nat
  uart_out :: "(nat \<times> uchar) list"
  uart_tx_buf :: bytes
  uart_tx_w :: uint64
  uart_tx_r :: uint64
  panicked :: bool
  pr_locking :: bool
  cons :: cons
  devsw :: "nat \<Rightarrow> bool"

definition upd_cons :: "(cons \<Rightarrow> cons) \<Rightarrow> 'a kcons_scheme \<Rightarrow> 'a kcons_scheme" where
  "upd_cons f s = s\<lparr>cons := f (cons s)\<rparr>"

section \<open>The UART\<close>

definition ReadReg :: "nat \<Rightarrow> 'a kcons_scheme \<Rightarrow> uchar \<times> 'a kcons_scheme" where
  "ReadReg reg s = (uart_in s (uart_reads s), s\<lparr>uart_reads := uart_reads s + 1\<rparr>)"

definition WriteReg :: "nat \<Rightarrow> uchar \<Rightarrow> 'a kcons_scheme \<Rightarrow> 'a kcons_scheme" where
  "WriteReg reg v s = s\<lparr>uart_out := uart_out s @ [(reg, v)]\<rparr>"

definition uartinit :: "'a kcons_scheme \<Rightarrow> 'a kcons_scheme" where
  "uartinit s =
     (let s = WriteReg IER 0x00 s;
          s = WriteReg LCR LCR_BAUD_LATCH s;
          s = WriteReg 0 0x03 s;
          s = WriteReg 1 0x00 s;
          s = WriteReg LCR LCR_EIGHT_BITS s;
          s = WriteReg FCR (FCR_FIFO_ENABLE OR FCR_FIFO_CLEAR) s;
          s = WriteReg IER (IER_TX_ENABLE OR IER_RX_ENABLE) s
      in initlock UartTxLock ''uart'' s)"

partial_function (option) uartstart :: "nat \<Rightarrow> 'a kcons_scheme \<Rightarrow> 'a kcons_scheme option" where
  "uartstart h s =
     (if uart_tx_w s = uart_tx_r s then Some s
      else let (l, s) = ReadReg LSR s
        in if l AND LSR_TX_IDLE = 0 then Some s
           else let c = uart_tx_buf s ! (unat (uart_tx_r s) mod UART_TX_BUF_SIZE);
                    s = s\<lparr>uart_tx_r := uart_tx_r s + 1\<rparr>
             in Option.bind (wakeup h ChUartTx s) (\<lambda>s. uartstart h (WriteReg THR c s)))"

text \<open>The loop of \<open>uartputc\<close>, with \<open>uart_tx_lock\<close> held.\<close>

definition uartputc_from :: "nat \<Rightarrow> uchar \<Rightarrow> 'a kcons_scheme \<Rightarrow> ((bool + unit) \<times> 'a kcons_scheme) option" where
  "uartputc_from h c s =
     (if uart_tx_w s = uart_tx_r s + of_nat UART_TX_BUF_SIZE
      then do {
        (ie, s) \<leftarrow> sleep h ChUartTx UartTxLock s;
        Some (Inl ie, s)
      }
      else do {
        let s = s\<lparr>uart_tx_buf := (uart_tx_buf s)[unat (uart_tx_w s) mod UART_TX_BUF_SIZE := c]\<rparr>;
        let s = s\<lparr>uart_tx_w := uart_tx_w s + 1\<rparr>;
        s \<leftarrow> uartstart h s;
        s \<leftarrow> release h UartTxLock s;
        Some (Inr (), s)
      })"

definition uartputc :: "nat \<Rightarrow> uchar \<Rightarrow> 'a kcons_scheme \<Rightarrow> ((bool + unit) \<times> 'a kcons_scheme) option" where
  "uartputc h c s = do {
     s \<leftarrow> acquire h UartTxLock s;
     (if panicked s then None else uartputc_from h c s)
   }"

partial_function (option) uart_wait :: "'a kcons_scheme \<Rightarrow> 'a kcons_scheme option" where
  "uart_wait s = (let (l, s) = ReadReg LSR s in if l AND LSR_TX_IDLE = 0 then uart_wait s else Some s)"

definition uartputc_sync :: "nat \<Rightarrow> uchar \<Rightarrow> 'a kcons_scheme \<Rightarrow> 'a kcons_scheme option" where
  "uartputc_sync h c s = do {
     let s = push_off h s;
     (if panicked s then None
      else do {
        s \<leftarrow> uart_wait s;
        let s = WriteReg THR c s;
        pop_off h s
      })
   }"

text \<open>The result -1 is \<open>None\<close>.\<close>

definition uartgetc :: "'a kcons_scheme \<Rightarrow> uchar option \<times> 'a kcons_scheme" where
  "uartgetc s =
     (let (l, s) = ReadReg LSR s
      in if l AND 0x01 \<noteq> 0 then (let (c, s) = ReadReg RHR s in (Some c, s)) else (None, s))"

section \<open>Formatted output\<close>

definition BACKSPACE :: int where "BACKSPACE = 0x100"

definition consputc :: "nat \<Rightarrow> int \<Rightarrow> 'a kcons_scheme \<Rightarrow> 'a kcons_scheme option" where
  "consputc h c s =
     (if c = BACKSPACE
      then do {
        s \<leftarrow> uartputc_sync h 8 s;
        s \<leftarrow> uartputc_sync h 32 s;
        uartputc_sync h 8 s
      }
      else uartputc_sync h (word_of_int c) s)"

definition digits :: "bytes" where
  "digits = map (\<lambda>c. of_char c) ''0123456789abcdef''"

text \<open>The digits of \<open>x\<close>, last one first, as the \<open>do\<close> loop of \<open>printint\<close> stores them.\<close>

function printint_digits :: "uint \<Rightarrow> uint \<Rightarrow> bytes" where
  "printint_digits base x =
     (if base < 2 then []
      else digits ! unat (x mod base) # (if x div base \<noteq> 0 then printint_digits base (x div base) else []))"
  by pat_completeness auto
termination
proof (relation "measure (\<lambda>(base, x). unat x)", simp)
  fix base x :: uint
  assume "\<not> base < 2" "x div base \<noteq> 0"
  then have "2 \<le> unat base" "x \<noteq> 0" by (auto simp: word_less_nat_alt)
  then have "2 \<le> unat base" "unat x \<noteq> 0" by (simp_all add: unat_eq_zero)
  then have "unat x div unat base < unat x" by (intro div_less_dividend) auto
  then show "((base, x div base), (base, x)) \<in> measure (\<lambda>(base, x). unat x)" by (simp add: unat_div)
qed

declare printint_digits.simps [simp del]

text \<open>What \<open>printint\<close> sends to the console; the buffer has 16 bytes.\<close>

definition printint :: "int \<Rightarrow> uint \<Rightarrow> bool \<Rightarrow> bytes option" where
  "printint xx base sign =
     (let neg = (sign \<and> xx < 0);
          x = (if neg then word_of_int (- xx) else word_of_int xx) :: uint;
          buf = printint_digits base x @ (if neg then [45] else [])
      in if length buf \<le> 16 then Some (rev buf) else None)"

fun printptr_digits :: "nat \<Rightarrow> uint64 \<Rightarrow> bytes" where
  "printptr_digits 0 x = []"
| "printptr_digits (Suc k) x = digits ! unat (drop_bit 60 x) # printptr_digits k (push_bit 4 x)"

definition printptr :: "uint64 \<Rightarrow> bytes" where
  "printptr x = [48, 120] @ printptr_digits 16 x"

datatype parg = IntArg int | PtrArg uint64 | StrArg "bytes option"

text \<open>
  The loop of \<open>printf\<close>: the bytes that it sends.  An argument of another type than the conversion, or a string that is not
  terminated, is undefined behaviour.
\<close>

fun printf_out :: "bytes \<Rightarrow> parg list \<Rightarrow> bytes option" where
  "printf_out [] args = None"
| "printf_out (c # fmt) args =
     (if c = 0 then Some []
      else if c \<noteq> 37 then map_option (Cons c) (printf_out fmt args)
      else case fmt of
        [] \<Rightarrow> None
      | c # fmt \<Rightarrow>
          if c = 0 then Some []
          else if c = 100 then (case args of IntArg i # args \<Rightarrow>
              Option.bind (printint i 10 True) (\<lambda>out. map_option (append out) (printf_out fmt args)) | _ \<Rightarrow> None)
          else if c = 120 then (case args of IntArg i # args \<Rightarrow>
              Option.bind (printint i 16 True) (\<lambda>out. map_option (append out) (printf_out fmt args)) | _ \<Rightarrow> None)
          else if c = 112 then (case args of PtrArg x # args \<Rightarrow>
              map_option (append (printptr x)) (printf_out fmt args) | _ \<Rightarrow> None)
          else if c = 115 then (case args of
              StrArg None # args \<Rightarrow> map_option (append (map of_char ''(null)'')) (printf_out fmt args)
            | StrArg (Some str) # args \<Rightarrow>
                if 0 \<in> set str then map_option (append (takeWhile (\<lambda>c. c \<noteq> 0) str)) (printf_out fmt args) else None
            | _ \<Rightarrow> None)
          else if c = 37 then map_option (Cons 37) (printf_out fmt args)
          else map_option (append [37, c]) (printf_out fmt args))"

definition printf :: "nat \<Rightarrow> bytes \<Rightarrow> parg list \<Rightarrow> 'a kcons_scheme \<Rightarrow> 'a kcons_scheme option" where
  "printf h fmt args s = do {
     let locking = pr_locking s;
     s \<leftarrow> (if locking then acquire h PrLock s else Some s);
     out \<leftarrow> printf_out fmt args;
     s \<leftarrow> for_each (\<lambda>c. consputc h (uint c)) out s;
     (if locking then release h PrLock s else Some s)
   }"

definition printfinit :: "'a kcons_scheme \<Rightarrow> 'a kcons_scheme" where
  "printfinit s = (initlock PrLock ''pr'' s)\<lparr>pr_locking := True\<rparr>"

text \<open>\<open>procdump\<close> of \<^verbatim>\<open>kernel/proc.c\<close>: a line for every process in use.\<close>

definition cstring :: "string \<Rightarrow> bytes" where
  "cstring str = map of_char str @ [0]"

definition state_name :: "procstate \<Rightarrow> bytes" where
  "state_name st = cstring (case st of UNUSED \<Rightarrow> ''unused'' | USED \<Rightarrow> ''???'' | SLEEPING \<Rightarrow> ''sleep '' | RUNNABLE \<Rightarrow> ''runble''
     | RUNNING \<Rightarrow> ''run   '' | ZOMBIE \<Rightarrow> ''zombie'')"

definition procdump_line :: "nat \<Rightarrow> nat \<Rightarrow> 'a kcons_scheme \<Rightarrow> 'a kcons_scheme option" where
  "procdump_line h p s =
     (let q = procs s p
      in if pstate q = UNUSED then Some s
         else do {
           s \<leftarrow> printf h (cstring ''%d %s %s'')
             [IntArg (pid q), StrArg (Some (state_name (pstate q))), StrArg (Some (pname q))] s;
           printf h (cstring [CHR 0x0A]) [] s
         })"

definition procdump :: "nat \<Rightarrow> 'a kcons_scheme \<Rightarrow> 'a kcons_scheme option" where
  "procdump h s = do {
     s \<leftarrow> printf h (cstring [CHR 0x0A]) [] s;
     for_each (procdump_line h) [0..<NPROC] s
   }"

section \<open>The console\<close>

definition ctrl :: "char \<Rightarrow> int" where "ctrl c = of_char c - 64"

text \<open>\<open>consolewrite\<close> from the byte \<open>i\<close> on, with \<open>k\<close> bytes left; it may go to sleep in \<open>uartputc\<close>.\<close>

fun consolewrite_from ::
  "nat \<Rightarrow> bool \<Rightarrow> uint64 \<Rightarrow> nat \<Rightarrow> nat \<Rightarrow> 'a kcons_scheme \<Rightarrow> ((nat \<times> uchar \<times> bool + int) \<times> 'a kcons_scheme) option" where
  "consolewrite_from h user_src src 0 i s = Some (Inr (int i), s)"
| "consolewrite_from h user_src src (Suc k) i s = do {
     (r, bs, s) \<leftarrow> either_copyin h user_src (src + of_nat i) 1 s;
     (if r = -1 then Some (Inr (int i), s)
      else do {
        (w, s) \<leftarrow> uartputc h (hd bs) s;
        (case w of
           Inl ie \<Rightarrow> Some (Inl (i, hd bs, ie), s)
         | Inr _ \<Rightarrow> consolewrite_from h user_src src k (Suc i) s)
      })
   }"

definition consolewrite ::
  "nat \<Rightarrow> bool \<Rightarrow> uint64 \<Rightarrow> int \<Rightarrow> 'a kcons_scheme \<Rightarrow> ((nat \<times> uchar \<times> bool + int) \<times> 'a kcons_scheme) option" where
  "consolewrite h user_src src n s = consolewrite_from h user_src src (nat n) 0 s"

text \<open>
  \<open>consoleread\<close>, with \<open>cons.lock\<close> held, \<open>k\<close> bytes still wanted of \<open>target\<close>, and \<open>dst\<close> the next address.  At a sleep the result is
  where to go on.
\<close>

fun consoleread_from ::
  "nat \<Rightarrow> bool \<Rightarrow> nat \<Rightarrow> uint64 \<Rightarrow> nat \<Rightarrow> 'a kcons_scheme \<Rightarrow> ((uint64 \<times> nat \<times> bool + int) \<times> 'a kcons_scheme) option" where
  "consoleread_from h user_dst target dst 0 s = do {
     s \<leftarrow> release h ConsLock s;
     Some (Inr (int target), s)
   }"
| "consoleread_from h user_dst target dst (Suc k) s =
     (if con_r (cons s) = con_w (cons s)
      then do {
        (me, s) \<leftarrow> myproc h s;
        p \<leftarrow> me;
        (if killed (procs s p)
         then do {
           s \<leftarrow> release h ConsLock s;
           Some (Inr (-1), s)
         }
         else do {
           (ie, s) \<leftarrow> sleep h ChConsR ConsLock s;
           Some (Inl (dst, Suc k, ie), s)
         })
      }
      else do {
        let c = cbuf (cons s) ! (unat (con_r (cons s)) mod INPUT_BUF);
        let s = upd_cons (\<lambda>c. c\<lparr>con_r := con_r c + 1\<rparr>) s;
        (if uint c = ctrl CHR ''D''
         then do {
           let s = (if Suc k < target then upd_cons (\<lambda>c. c\<lparr>con_r := con_r c - 1\<rparr>) s else s);
           s \<leftarrow> release h ConsLock s;
           Some (Inr (int target - int (Suc k)), s)
         }
         else do {
           (r, s) \<leftarrow> either_copyout h user_dst dst [c] 1 s;
           (if r = -1
            then do {
              s \<leftarrow> release h ConsLock s;
              Some (Inr (int target - int (Suc k)), s)
            }
            else if c = 10
            then do {
              s \<leftarrow> release h ConsLock s;
              Some (Inr (int target - int k), s)
            }
            else consoleread_from h user_dst target (dst + 1) k s)
         })
      })"

definition consoleread ::
  "nat \<Rightarrow> bool \<Rightarrow> uint64 \<Rightarrow> int \<Rightarrow> 'a kcons_scheme \<Rightarrow> ((uint64 \<times> nat \<times> bool + int) \<times> 'a kcons_scheme) option" where
  "consoleread h user_dst dst n s = do {
     s \<leftarrow> acquire h ConsLock s;
     (if n \<le> 0
      then do {
        s \<leftarrow> release h ConsLock s;
        Some (Inr 0, s)
      }
      else consoleread_from h user_dst (nat n) dst (nat n) s)
   }"

text \<open>The loop of control-U.\<close>

partial_function (option) kill_line :: "nat \<Rightarrow> 'a kcons_scheme \<Rightarrow> 'a kcons_scheme option" where
  "kill_line h s =
     (if con_e (cons s) \<noteq> con_w (cons s) \<and> cbuf (cons s) ! (unat (con_e (cons s) - 1) mod INPUT_BUF) \<noteq> 10
      then Option.bind (consputc h BACKSPACE (upd_cons (\<lambda>c. c\<lparr>con_e := con_e c - 1\<rparr>) s)) (kill_line h)
      else Some s)"

definition consoleintr_char :: "nat \<Rightarrow> int \<Rightarrow> 'a kcons_scheme \<Rightarrow> 'a kcons_scheme option" where
  "consoleintr_char h c s =
     (if c \<noteq> 0 \<and> con_e (cons s) - con_r (cons s) < of_nat INPUT_BUF
      then do {
        let c = (if c = 13 then 10 else c);
        s \<leftarrow> consputc h c s;
        let s = upd_cons (\<lambda>k. k\<lparr>cbuf := (cbuf k)[unat (con_e k) mod INPUT_BUF := word_of_int c], con_e := con_e k + 1\<rparr>) s;
        (if c = 10 \<or> c = ctrl CHR ''D'' \<or> con_e (cons s) = con_r (cons s) + of_nat INPUT_BUF
         then do {
           let s = upd_cons (\<lambda>k. k\<lparr>con_w := con_e k\<rparr>) s;
           wakeup h ChConsR s
         }
         else Some s)
      }
      else Some s)"

definition consoleintr :: "nat \<Rightarrow> int \<Rightarrow> 'a kcons_scheme \<Rightarrow> 'a kcons_scheme option" where
  "consoleintr h c s = do {
     s \<leftarrow> acquire h ConsLock s;
     s \<leftarrow> (if c = ctrl CHR ''P'' then procdump h s
       else if c = ctrl CHR ''U'' then kill_line h s
       else if c = ctrl CHR ''H'' \<or> c = 0x7f
       then (if con_e (cons s) \<noteq> con_w (cons s)
             then consputc h BACKSPACE (upd_cons (\<lambda>c. c\<lparr>con_e := con_e c - 1\<rparr>) s) else Some s)
       else consoleintr_char h c s);
     release h ConsLock s
   }"

definition consoleinit :: "'a kcons_scheme \<Rightarrow> 'a kcons_scheme" where
  "consoleinit s =
     (let s = initlock ConsLock ''cons'' s;
          s = uartinit s
      in s\<lparr>devsw := (devsw s)(CONSOLE := True)\<rparr>)"

partial_function (option) uartintr_loop :: "nat \<Rightarrow> 'a kcons_scheme \<Rightarrow> 'a kcons_scheme option" where
  "uartintr_loop h s =
     (case uartgetc s of
        (None, s) \<Rightarrow> Some s
      | (Some c, s) \<Rightarrow> Option.bind (consoleintr h (uint c) s) (uartintr_loop h))"

definition uartintr :: "nat \<Rightarrow> 'a kcons_scheme \<Rightarrow> 'a kcons_scheme option" where
  "uartintr h s = do {
     s \<leftarrow> uartintr_loop h s;
     s \<leftarrow> acquire h UartTxLock s;
     s \<leftarrow> uartstart h s;
     release h UartTxLock s
   }"

end
