(* ===== verification/File.thy ===== *)
theory File
  imports Console
begin

text \<open>
  Open files \<^verbatim>\<open>kernel/file.c\<close> and pipes \<^verbatim>\<open>kernel/pipe.c\<close>.  A file is its index in \<open>ftable\<close>; the pipe in a page is
  named by the address of the page.  The contents of pipes are kept beside physical memory: \<open>pipes a\<close> is the struct in the
  page \<open>a\<close>.
\<close>

section \<open>State\<close>

definition PIPESIZE :: nat where "PIPESIZE = 512"
definition NFILE :: nat where "NFILE = 100"
definition NDEV :: nat where "NDEV = 10"

datatype fdtype = FD_NONE | FD_PIPE | FD_INODE | FD_DEVICE

record file_struct =
  ftype :: fdtype
  fref :: int
  freadable :: bool
  fwritable :: bool
  fpipe :: uint64
  fip :: nat
  foff :: uint
  fmajor :: ushort

record pipe =
  pdata :: bytes
  nread :: uint
  nwrite :: uint
  readopen :: bool
  writeopen :: bool

record kfile = kcons +
  ftab :: "nat \<Rightarrow> file_struct"
  pipes :: "uint64 \<Rightarrow> pipe"

definition upd_file :: "nat \<Rightarrow> (file_struct \<Rightarrow> file_struct) \<Rightarrow> 'a kfile_scheme \<Rightarrow> 'a kfile_scheme" where
  "upd_file f g s = s\<lparr>ftab := (ftab s)(f := g (ftab s f))\<rparr>"

definition upd_pipe :: "uint64 \<Rightarrow> (pipe \<Rightarrow> pipe) \<Rightarrow> 'a kfile_scheme \<Rightarrow> 'a kfile_scheme" where
  "upd_pipe p g s = s\<lparr>pipes := (pipes s)(p := g (pipes s p))\<rparr>"

text \<open>Where a read or a write stops to wait; the last component is what \<open>sched\<close> keeps on the stack.\<close>

datatype blocked =
    PipeWriteWait uint64 nat nat bool
  | PipeReadWait uint64 nat bool
  | ConsReadWait uint64 nat bool
  | ConsWriteWait nat uchar bool

section \<open>Pipes\<close>

definition pipeclose :: "nat \<Rightarrow> uint64 \<Rightarrow> bool \<Rightarrow> 'a kfile_scheme \<Rightarrow> 'a kfile_scheme option" where
  "pipeclose h pi writable s = do {
     s \<leftarrow> acquire h (PipeLock pi) s;
     s \<leftarrow> (if writable
       then wakeup h (ChPipeRead pi) (upd_pipe pi (\<lambda>p. p\<lparr>writeopen := False\<rparr>) s)
       else wakeup h (ChPipeWrite pi) (upd_pipe pi (\<lambda>p. p\<lparr>readopen := False\<rparr>) s));
     (if \<not> readopen (pipes s pi) \<and> \<not> writeopen (pipes s pi)
      then do {
        s \<leftarrow> release h (PipeLock pi) s;
        kfree h pi s
      }
      else release h (PipeLock pi) s)
   }"

text \<open>The loop of \<open>pipewrite\<close>, with the lock held, from the byte \<open>i\<close> on with \<open>k\<close> bytes left, for the process \<open>pr\<close>.\<close>

fun pipewrite_from ::
  "nat \<Rightarrow> nat \<Rightarrow> uint64 \<Rightarrow> uint64 \<Rightarrow> nat \<Rightarrow> nat \<Rightarrow> 'a kfile_scheme \<Rightarrow> ((blocked + int) \<times> 'a kfile_scheme) option" where
  "pipewrite_from h pr pi addr 0 i s = do {
     s \<leftarrow> wakeup h (ChPipeRead pi) s;
     s \<leftarrow> release h (PipeLock pi) s;
     Some (Inr (int i), s)
   }"
| "pipewrite_from h pr pi addr (Suc k) i s =
     (if \<not> readopen (pipes s pi) \<or> killed (procs s pr)
      then do {
        s \<leftarrow> release h (PipeLock pi) s;
        Some (Inr (-1), s)
      }
      else if nwrite (pipes s pi) = nread (pipes s pi) + of_nat PIPESIZE
      then do {
        s \<leftarrow> wakeup h (ChPipeRead pi) s;
        (ie, s) \<leftarrow> sleep h (ChPipeWrite pi) (PipeLock pi) s;
        Some (Inl (PipeWriteWait addr (Suc k) i ie), s)
      }
      else do {
        (r, bs) \<leftarrow> copyin h (pagetable (procs s pr)) (addr + of_nat i) 1 s;
        (if r = -1
         then do {
           s \<leftarrow> wakeup h (ChPipeRead pi) s;
           s \<leftarrow> release h (PipeLock pi) s;
           Some (Inr (int i), s)
         }
         else do {
           let s = upd_pipe pi (\<lambda>p. p\<lparr>pdata := (pdata p)[unat (nwrite p) mod PIPESIZE := hd bs], nwrite := nwrite p + 1\<rparr>) s;
           pipewrite_from h pr pi addr k (Suc i) s
         })
      })"

definition pipewrite ::
  "nat \<Rightarrow> uint64 \<Rightarrow> uint64 \<Rightarrow> int \<Rightarrow> 'a kfile_scheme \<Rightarrow> ((blocked + int) \<times> 'a kfile_scheme) option" where
  "pipewrite h pi addr n s = do {
     (me, s) \<leftarrow> myproc h s;
     pr \<leftarrow> me;
     s \<leftarrow> acquire h (PipeLock pi) s;
     pipewrite_from h pr pi addr (nat n) 0 s
   }"

text \<open>The copy loop of \<open>piperead\<close>.\<close>

fun piperead_copy ::
  "nat \<Rightarrow> nat \<Rightarrow> uint64 \<Rightarrow> uint64 \<Rightarrow> nat \<Rightarrow> nat \<Rightarrow> 'a kfile_scheme \<Rightarrow> (int \<times> 'a kfile_scheme) option" where
  "piperead_copy h pr pi addr 0 i s = Some (int i, s)"
| "piperead_copy h pr pi addr (Suc k) i s =
     (if nread (pipes s pi) = nwrite (pipes s pi) then Some (int i, s)
      else do {
        let ch = pdata (pipes s pi) ! (unat (nread (pipes s pi)) mod PIPESIZE);
        let s = upd_pipe pi (\<lambda>p. p\<lparr>nread := nread p + 1\<rparr>) s;
        (r, s) \<leftarrow> copyout h (pagetable (procs s pr)) (addr + of_nat i) [ch] 1 s;
        (if r = -1 then Some (int i, s) else piperead_copy h pr pi addr k (Suc i) s)
      })"

text \<open>\<open>piperead\<close> with the lock held: it goes to sleep on an empty pipe that somebody may still write to.\<close>

definition piperead_from ::
  "nat \<Rightarrow> nat \<Rightarrow> uint64 \<Rightarrow> uint64 \<Rightarrow> nat \<Rightarrow> 'a kfile_scheme \<Rightarrow> ((blocked + int) \<times> 'a kfile_scheme) option" where
  "piperead_from h pr pi addr n s =
     (if nread (pipes s pi) = nwrite (pipes s pi) \<and> writeopen (pipes s pi)
      then
        if killed (procs s pr)
        then do {
          s \<leftarrow> release h (PipeLock pi) s;
          Some (Inr (-1), s)
        }
        else do {
          (ie, s) \<leftarrow> sleep h (ChPipeRead pi) (PipeLock pi) s;
          Some (Inl (PipeReadWait addr n ie), s)
        }
      else do {
        (i, s) \<leftarrow> piperead_copy h pr pi addr n 0 s;
        s \<leftarrow> wakeup h (ChPipeWrite pi) s;
        s \<leftarrow> release h (PipeLock pi) s;
        Some (Inr i, s)
      })"

definition piperead ::
  "nat \<Rightarrow> uint64 \<Rightarrow> uint64 \<Rightarrow> int \<Rightarrow> 'a kfile_scheme \<Rightarrow> ((blocked + int) \<times> 'a kfile_scheme) option" where
  "piperead h pi addr n s = do {
     (me, s) \<leftarrow> myproc h s;
     pr \<leftarrow> me;
     s \<leftarrow> acquire h (PipeLock pi) s;
     piperead_from h pr pi addr (nat n) s
   }"

section \<open>The file table\<close>

definition fileinit :: "'a kfile_scheme \<Rightarrow> 'a kfile_scheme" where
  "fileinit s = initlock FtableLock ''ftable'' s"

definition filealloc :: "nat \<Rightarrow> 'a kfile_scheme \<Rightarrow> (nat option \<times> 'a kfile_scheme) option" where
  "filealloc h s = do {
     s \<leftarrow> acquire h FtableLock s;
     (case find (\<lambda>f. fref (ftab s f) = 0) [0..<NFILE] of
        Some f \<Rightarrow> do {
          let s = upd_file f (\<lambda>x. x\<lparr>fref := 1\<rparr>) s;
          s \<leftarrow> release h FtableLock s;
          Some (Some f, s)
        }
      | None \<Rightarrow> do {
          s \<leftarrow> release h FtableLock s;
          Some (None, s)
        })
   }"

definition filedup :: "nat \<Rightarrow> nat \<Rightarrow> 'a kfile_scheme \<Rightarrow> (nat \<times> 'a kfile_scheme) option" where
  "filedup h f s = do {
     s \<leftarrow> acquire h FtableLock s;
     (if fref (ftab s f) < 1 then None
      else do {
        let s = upd_file f (\<lambda>x. x\<lparr>fref := fref x + 1\<rparr>) s;
        s \<leftarrow> release h FtableLock s;
        Some (f, s)
      })
   }"

definition fileclose :: "nat \<Rightarrow> nat \<Rightarrow> 'a kfile_scheme \<Rightarrow> 'a kfile_scheme option" where
  "fileclose h f s = do {
     s \<leftarrow> acquire h FtableLock s;
     (if fref (ftab s f) < 1 then None
      else do {
        let s = upd_file f (\<lambda>x. x\<lparr>fref := fref x - 1\<rparr>) s;
        (if 0 < fref (ftab s f) then release h FtableLock s
         else do {
           let ff = ftab s f;
           let s = upd_file f (\<lambda>x. x\<lparr>fref := 0, ftype := FD_NONE\<rparr>) s;
           s \<leftarrow> release h FtableLock s;
           (case ftype ff of
              FD_PIPE \<Rightarrow> pipeclose h (fpipe ff) (fwritable ff) s
            | FD_NONE \<Rightarrow> Some s
            | _ \<Rightarrow> do {
                s \<leftarrow> begin_op h s;
                s \<leftarrow> iput h (fip ff) s;
                end_op h s
              })
         })
      })
   }"

text \<open>The error exit of \<open>pipealloc\<close>, and \<open>pipealloc\<close>: the two files on success.\<close>

definition pipealloc_bad ::
  "nat \<Rightarrow> uint64 \<Rightarrow> nat option \<Rightarrow> nat option \<Rightarrow> 'a kfile_scheme \<Rightarrow> ((nat \<times> nat) option \<times> 'a kfile_scheme) option" where
  "pipealloc_bad h pi f0 f1 s = do {
     s \<leftarrow> (if pi \<noteq> 0 then kfree h pi s else Some s);
     s \<leftarrow> (case f0 of Some f \<Rightarrow> fileclose h f s | None \<Rightarrow> Some s);
     s \<leftarrow> (case f1 of Some f \<Rightarrow> fileclose h f s | None \<Rightarrow> Some s);
     Some (None, s)
   }"

definition pipealloc :: "nat \<Rightarrow> 'a kfile_scheme \<Rightarrow> ((nat \<times> nat) option \<times> 'a kfile_scheme) option" where
  "pipealloc h s = do {
     (f0, s) \<leftarrow> filealloc h s;
     (case f0 of
        None \<Rightarrow> pipealloc_bad h 0 None None s
      | Some a \<Rightarrow> do {
          (f1, s) \<leftarrow> filealloc h s;
          (case f1 of
             None \<Rightarrow> pipealloc_bad h 0 (Some a) None s
           | Some b \<Rightarrow> do {
               (pi, s) \<leftarrow> kalloc h s;
               (if pi = 0 then pipealloc_bad h 0 (Some a) (Some b) s
                else do {
                  let s = upd_pipe pi (\<lambda>p. p\<lparr>readopen := True, writeopen := True, nwrite := 0, nread := 0\<rparr>) s;
                  let s = initlock (PipeLock pi) ''pipe'' s;
                  let s = upd_file a (\<lambda>x. x\<lparr>ftype := FD_PIPE, freadable := True, fwritable := False, fpipe := pi\<rparr>) s;
                  let s = upd_file b (\<lambda>x. x\<lparr>ftype := FD_PIPE, freadable := False, fwritable := True, fpipe := pi\<rparr>) s;
                  Some (Some (a, b), s)
                })
             })
        })
   }"

section \<open>Reading, writing and status\<close>

text \<open>
  The bytes of a struct stat; the four bytes between \<open>nlink\<close> and \<open>size\<close> are padding, left as the kernel stack has them
  (\<open>pad\<close>).
\<close>

definition stat_bytes :: "bytes \<Rightarrow> stat \<Rightarrow> bytes" where
  "stat_bytes pad st =
     enc_le 4 (st_dev st) @ enc_le 4 (st_ino st) @ enc_le 2 (st_type st) @
     enc_le 2 (st_nlink st) @ take 4 pad @ enc_le 8 (st_size st)"

definition filestat :: "nat \<Rightarrow> bytes \<Rightarrow> nat \<Rightarrow> uint64 \<Rightarrow> 'a kfile_scheme \<Rightarrow> (int \<times> 'a kfile_scheme) option" where
  "filestat h pad f addr s = do {
     (me, s) \<leftarrow> myproc h s;
     (case ftype (ftab s f) of
        FD_PIPE \<Rightarrow> Some (-1, s)
      | FD_NONE \<Rightarrow> Some (-1, s)
      | _ \<Rightarrow> do {
          let ip = fip (ftab s f);
          s \<leftarrow> ilock h ip s;
          let st = stati ip s;
          s \<leftarrow> iunlock h ip s;
          p \<leftarrow> me;
          (r, s) \<leftarrow> copyout h (pagetable (procs s p)) addr (stat_bytes pad st) 24 s;
          (if r < 0 then Some (-1, s) else Some (0, s))
        })
   }"

text \<open>A device number that names an entry of \<open>devsw\<close> with functions; only the console has them.\<close>

definition device_ok :: "ushort \<Rightarrow> 'a kfile_scheme \<Rightarrow> bool" where
  "device_ok m s \<longleftrightarrow> \<not> sint m < 0 \<and> \<not> int NDEV \<le> sint m \<and> devsw s (unat m)"

definition fileread ::
  "nat \<Rightarrow> nat \<Rightarrow> uint64 \<Rightarrow> int \<Rightarrow> 'a kfile_scheme \<Rightarrow> ((blocked + int) \<times> 'a kfile_scheme) option" where
  "fileread h f addr n s =
     (if \<not> freadable (ftab s f) then Some (Inr (-1), s)
      else case ftype (ftab s f) of
        FD_PIPE \<Rightarrow> piperead h (fpipe (ftab s f)) addr n s
      | FD_DEVICE \<Rightarrow>
          if \<not> device_ok (fmajor (ftab s f)) s then Some (Inr (-1), s)
          else do {
            (r, s) \<leftarrow> consoleread h True addr n s;
            Some (case r of Inl (dst, k, ie) \<Rightarrow> Inl (ConsReadWait dst k ie) | Inr v \<Rightarrow> Inr v, s)
          }
      | FD_INODE \<Rightarrow> do {
          let ip = fip (ftab s f);
          s \<leftarrow> ilock h ip s;
          (r, u, s) \<leftarrow> readi h ip (mem_sink h True addr) (foff (ftab s f)) (of_int n) () s;
          let s = (if 0 < r then upd_file f (\<lambda>x. x\<lparr>foff := foff x + of_int r\<rparr>) s else s);
          s \<leftarrow> iunlock h ip s;
          Some (Inr r, s)
        }
      | FD_NONE \<Rightarrow> None)"

definition filewrite_max :: nat where
  "filewrite_max = ((MAXOPBLOCKS - 1 - 1 - 2) div 2) * BSIZE"

text \<open>The loop of \<open>filewrite\<close> on an inode: \<open>rem\<close> is \<open>n - i\<close>; the result is \<open>i\<close> at its end.\<close>

function filewrite_loop ::
  "nat \<Rightarrow> nat \<Rightarrow> uint64 \<Rightarrow> nat \<Rightarrow> nat \<Rightarrow> 'a kfile_scheme \<Rightarrow> (nat \<times> 'a kfile_scheme) option" where
  "filewrite_loop h f addr rem i s =
     (if rem = 0 then Some (i, s)
      else do {
        let n1 = min rem filewrite_max;
        let ip = fip (ftab s f);
        s \<leftarrow> begin_op h s;
        s \<leftarrow> ilock h ip s;
        (r, s) \<leftarrow> writei h ip (mem_source h True (addr + of_nat i)) (foff (ftab s f)) (of_nat n1) s;
        let s = (if 0 < r then upd_file f (\<lambda>x. x\<lparr>foff := foff x + of_int r\<rparr>) s else s);
        s \<leftarrow> iunlock h ip s;
        s \<leftarrow> end_op h s;
        (if r \<noteq> int n1 then Some (i, s) else filewrite_loop h f addr (rem - n1) (i + n1) s)
      })"
  by pat_completeness auto
termination
  by (relation "measure (\<lambda>(h, f, addr, rem, i, s). rem)") (auto simp: filewrite_max_def MAXOPBLOCKS_def BSIZE_def)

declare filewrite_loop.simps [simp del]

definition filewrite ::
  "nat \<Rightarrow> nat \<Rightarrow> uint64 \<Rightarrow> int \<Rightarrow> 'a kfile_scheme \<Rightarrow> ((blocked + int) \<times> 'a kfile_scheme) option" where
  "filewrite h f addr n s =
     (if \<not> fwritable (ftab s f) then Some (Inr (-1), s)
      else case ftype (ftab s f) of
        FD_PIPE \<Rightarrow> pipewrite h (fpipe (ftab s f)) addr n s
      | FD_DEVICE \<Rightarrow>
          if \<not> device_ok (fmajor (ftab s f)) s then Some (Inr (-1), s)
          else do {
            (r, s) \<leftarrow> consolewrite h True addr n s;
            Some (case r of Inl (i, c, ie) \<Rightarrow> Inl (ConsWriteWait i c ie) | Inr v \<Rightarrow> Inr v, s)
          }
      | FD_INODE \<Rightarrow> do {
          (i, s) \<leftarrow> filewrite_loop h f addr (nat n) 0 s;
          Some (Inr (if int i = n then n else -1), s)
        }
      | FD_NONE \<Rightarrow> None)"

section \<open>An example state\<close>

text \<open>One process runs on hart 0, with one page of user memory, no open files and an empty file system.\<close>

definition example_inode :: inode where
  "example_inode = \<lparr>idev = 0, inum = 0, iref = 0, ivalid = False, itype = 0, imajor = 0, iminor = 0, inlink = 0, isize = 0,
     iaddrs = (\<lambda>i. 0)\<rparr>"

definition free_file :: file_struct where
  "free_file = \<lparr>ftype = FD_NONE, fref = 0, freadable = False, fwritable = False, fpipe = 0, fip = 0, foff = 0, fmajor = 0\<rparr>"

definition example_kfile :: kfile where
  "example_kfile = \<lparr>cpus = (\<lambda>h. idle_cpu\<lparr>cproc := Some 0\<rparr>), locks = (\<lambda>l. free_lock),
     procs = (\<lambda>p. unused_proc\<lparr>ofile := replicate NOFILE None\<rparr>)(0 := unused_proc\<lparr>pstate := RUNNING, pid := 1, pagetable := 0x87FFF000, sz := 4096,
       ofile := replicate NOFILE None, pname := replicate 16 0\<rparr>), nextpid = 2,
     initproc = Some 0, ticks = 0, pmem = mapped_mem, freelist = 0, kend = 0x80001000,
     slocks = (\<lambda>l. \<lparr>slocked = 0, slname = [], slpid = 0\<rparr>),
     bufs = (\<lambda>b. \<lparr>bvalid = False, bdisk = False, bdev = 0, blockno = 0, refcnt = 0, bprev = 0, bnext = 0, bdata = []\<rparr>),
     disk = (\<lambda>n. replicate BSIZE 0), history = [],
     lstart = 2, lsize = 30, outstanding = 0, committing = 0, ldev = 1, lhn = 0, lhblock = (\<lambda>i. 0),
     sb = example_sb, itab = (\<lambda>i. example_inode),
     uart_in = (\<lambda>n. 0), uart_reads = 0, uart_out = [], uart_tx_buf = replicate UART_TX_BUF_SIZE 0, uart_tx_w = 0, uart_tx_r = 0,
     panicked = False, pr_locking = True,
     cons = \<lparr>cbuf = replicate INPUT_BUF 0, con_r = 0, con_w = 0, con_e = 0\<rparr>, devsw = (\<lambda>d. d = CONSOLE),
     ftab = (\<lambda>f. free_file),
     pipes = (\<lambda>a. \<lparr>pdata = replicate PIPESIZE 7, nread = 0xFFFFFFFE, nwrite = 0xFFFFFFFE, readopen = True, writeopen = True\<rparr>)\<rparr>"

lemma example_quiet: "quiet h example_kfile"
  by (simp add: example_kfile_def quiet_def lock_free_def idle_cpu_def free_lock_def cpu_ok_def)

end
