(* ===== verification/Process.thy ===== *)
theory Process
  imports File
begin

text \<open>
  The life cycle of processes, the rest of \<^verbatim>\<open>kernel/proc.c\<close>: making and freeing a process, \<open>userinit\<close>, \<open>growproc\<close>, \<open>fork\<close>,
  \<open>exit\<close> and \<open>wait\<close>, with the kernel page table of \<^verbatim>\<open>kernel/vm.c\<close>.  A trapframe is a page of physical memory; its fields are
  read and written at their offsets.
\<close>

section \<open>State\<close>

text \<open>Addresses the linker gives, and what an uninitialised local of the kernel holds.\<close>

record kenv =
  trampoline :: uint64
  etext :: uint64
  uservec :: uint64
  userret :: uint64
  kernelvec :: uint64
  usertrap_addr :: uint64
  forkret_addr :: uint64
  stack_pad :: bytes

record kexec = kfile +
  kernel_pagetable :: uint64
  forkret_first :: bool

datatype tfreg =
    TF_kernel_satp | TF_kernel_sp | TF_kernel_trap | TF_epc | TF_kernel_hartid
  | TF_ra | TF_sp | TF_gp | TF_tp | TF_t0 | TF_t1 | TF_t2 | TF_s0 | TF_s1
  | TF_a0 | TF_a1 | TF_a2 | TF_a3 | TF_a4 | TF_a5 | TF_a6 | TF_a7
  | TF_s2 | TF_s3 | TF_s4 | TF_s5 | TF_s6 | TF_s7 | TF_s8 | TF_s9 | TF_s10 | TF_s11
  | TF_t3 | TF_t4 | TF_t5 | TF_t6

fun tf_offset :: "tfreg \<Rightarrow> uint64" where
  "tf_offset TF_kernel_satp = 0" | "tf_offset TF_kernel_sp = 8" | "tf_offset TF_kernel_trap = 16"
| "tf_offset TF_epc = 24" | "tf_offset TF_kernel_hartid = 32" | "tf_offset TF_ra = 40" | "tf_offset TF_sp = 48"
| "tf_offset TF_gp = 56" | "tf_offset TF_tp = 64" | "tf_offset TF_t0 = 72" | "tf_offset TF_t1 = 80"
| "tf_offset TF_t2 = 88" | "tf_offset TF_s0 = 96" | "tf_offset TF_s1 = 104" | "tf_offset TF_a0 = 112"
| "tf_offset TF_a1 = 120" | "tf_offset TF_a2 = 128" | "tf_offset TF_a3 = 136" | "tf_offset TF_a4 = 144"
| "tf_offset TF_a5 = 152" | "tf_offset TF_a6 = 160" | "tf_offset TF_a7 = 168" | "tf_offset TF_s2 = 176"
| "tf_offset TF_s3 = 184" | "tf_offset TF_s4 = 192" | "tf_offset TF_s5 = 200" | "tf_offset TF_s6 = 208"
| "tf_offset TF_s7 = 216" | "tf_offset TF_s8 = 224" | "tf_offset TF_s9 = 232" | "tf_offset TF_s10 = 240"
| "tf_offset TF_s11 = 248" | "tf_offset TF_t3 = 256" | "tf_offset TF_t4 = 264" | "tf_offset TF_t5 = 272"
| "tf_offset TF_t6 = 280"

definition sizeof_trapframe :: nat where "sizeof_trapframe = 288"

definition get_tf :: "nat \<Rightarrow> tfreg \<Rightarrow> 'a kmem_scheme \<Rightarrow> uint64" where
  "get_tf p r s = load64 (pmem s) (trapframe (procs s p) + tf_offset r)"

definition set_tf :: "nat \<Rightarrow> tfreg \<Rightarrow> uint64 \<Rightarrow> 'a kmem_scheme \<Rightarrow> 'a kmem_scheme" where
  "set_tf p r v s = s\<lparr>pmem := store64 (trapframe (procs s p) + tf_offset r) v (pmem s)\<rparr>"

section \<open>The kernel page table\<close>

definition UART0 :: uint64 where "UART0 = 0x10000000"
definition VIRTIO0 :: uint64 where "VIRTIO0 = 0x10001000"
definition PLIC :: uint64 where "PLIC = 0x0c000000"

definition proc_mapstacks :: "nat \<Rightarrow> uint64 \<Rightarrow> 'a kmem_scheme \<Rightarrow> 'a kmem_scheme option" where
  "proc_mapstacks h kpgtbl s = for_each (\<lambda>p s. do {
     (pa, s) \<leftarrow> kalloc h s;
     (if pa = 0 then None
      else kvmmap h kpgtbl (KSTACK (of_nat p)) pa PGSIZE (PTE_R OR PTE_W) s)
   }) [0..<NPROC] s"

definition kvmmake :: "nat \<Rightarrow> kenv \<Rightarrow> 'a kmem_scheme \<Rightarrow> (uint64 \<times> 'a kmem_scheme) option" where
  "kvmmake h K s = do {
     (kpgtbl, s) \<leftarrow> kalloc h s;
     let s = s\<lparr>pmem := memset kpgtbl 0 (ucast PGSIZE) (pmem s)\<rparr>;
     s \<leftarrow> kvmmap h kpgtbl UART0 UART0 PGSIZE (PTE_R OR PTE_W) s;
     s \<leftarrow> kvmmap h kpgtbl VIRTIO0 VIRTIO0 PGSIZE (PTE_R OR PTE_W) s;
     s \<leftarrow> kvmmap h kpgtbl PLIC PLIC 0x400000 (PTE_R OR PTE_W) s;
     s \<leftarrow> kvmmap h kpgtbl KERNBASE KERNBASE (etext K - KERNBASE) (PTE_R OR PTE_X) s;
     s \<leftarrow> kvmmap h kpgtbl (etext K) (etext K) (PHYSTOP - etext K) (PTE_R OR PTE_W) s;
     s \<leftarrow> kvmmap h kpgtbl TRAMPOLINE (trampoline K) PGSIZE (PTE_R OR PTE_X) s;
     s \<leftarrow> proc_mapstacks h kpgtbl s;
     Some (kpgtbl, s)
   }"

definition kvminit :: "nat \<Rightarrow> kenv \<Rightarrow> 'a kexec_scheme \<Rightarrow> 'a kexec_scheme option" where
  "kvminit h K s = do {
     (kpgtbl, s) \<leftarrow> kvmmake h K s;
     Some (s\<lparr>kernel_pagetable := kpgtbl\<rparr>)
   }"

section \<open>Making and freeing a process\<close>

definition procinit :: "'a kproc_scheme \<Rightarrow> 'a kproc_scheme" where
  "procinit s =
     (let s = initlock PidLock ''nextpid'' s;
          s = initlock WaitLock ''wait_lock'' s
      in fold (\<lambda>p s. upd_proc p (\<lambda>q. q\<lparr>kstack := KSTACK (of_nat p)\<rparr>) (initlock (ProcLock p) ''proc'' s)) [0..<NPROC] s)"

definition proc_pagetable :: "nat \<Rightarrow> kenv \<Rightarrow> nat \<Rightarrow> 'a kmem_scheme \<Rightarrow> (uint64 \<times> 'a kmem_scheme) option" where
  "proc_pagetable h K p s = do {
     (pt, s) \<leftarrow> uvmcreate h s;
     (if pt = 0 then Some (0, s)
      else do {
        (r, s) \<leftarrow> mappages h pt TRAMPOLINE PGSIZE (trampoline K) (PTE_R OR PTE_X) s;
        (if r < 0
         then do {
           s \<leftarrow> uvmfree h pt 0 s;
           Some (0, s)
         }
         else do {
           (r, s) \<leftarrow> mappages h pt TRAPFRAME PGSIZE (trapframe (procs s p)) (PTE_R OR PTE_W) s;
           (if r < 0
            then do {
              s \<leftarrow> uvmunmap h pt TRAMPOLINE 1 False s;
              s \<leftarrow> uvmfree h pt 0 s;
              Some (0, s)
            }
            else Some (pt, s))
         })
      })
   }"

definition proc_freepagetable :: "nat \<Rightarrow> uint64 \<Rightarrow> uint64 \<Rightarrow> 'a kmem_scheme \<Rightarrow> 'a kmem_scheme option" where
  "proc_freepagetable h pt usz s = do {
     s \<leftarrow> uvmunmap h pt TRAMPOLINE 1 False s;
     s \<leftarrow> uvmunmap h pt TRAPFRAME 1 False s;
     uvmfree h pt usz s
   }"

definition freeproc :: "nat \<Rightarrow> nat \<Rightarrow> 'a kmem_scheme \<Rightarrow> 'a kmem_scheme option" where
  "freeproc h p s = do {
     s \<leftarrow> (if trapframe (procs s p) \<noteq> 0 then kfree h (trapframe (procs s p)) s else Some s);
     let s = upd_proc p (\<lambda>q. q\<lparr>trapframe := 0\<rparr>) s;
     s \<leftarrow> (if pagetable (procs s p) \<noteq> 0
       then proc_freepagetable h (pagetable (procs s p)) (sz (procs s p)) s else Some s);
     Some (upd_proc p (\<lambda>q. q\<lparr>pagetable := 0, sz := 0, pid := 0, parent := None, pname := (pname q)[0 := 0],
       chan := None, killed := False, xstate := 0, pstate := UNUSED\<rparr>) s)
   }"

text \<open>The search of \<open>allocproc\<close>: the first unused process, with its lock held.\<close>

fun allocproc_find :: "nat \<Rightarrow> nat list \<Rightarrow> 'a kproc_scheme \<Rightarrow> (nat option \<times> 'a kproc_scheme) option" where
  "allocproc_find h [] s = Some (None, s)"
| "allocproc_find h (p # ps) s = do {
     s \<leftarrow> acquire h (ProcLock p) s;
     (if pstate (procs s p) = UNUSED then Some (Some p, s)
      else do {
        s \<leftarrow> release h (ProcLock p) s;
        allocproc_find h ps s
      })
   }"

definition allocproc_fail :: "nat \<Rightarrow> nat \<Rightarrow> 'a kmem_scheme \<Rightarrow> (nat option \<times> 'a kmem_scheme) option" where
  "allocproc_fail h p s = do {
     s \<leftarrow> freeproc h p s;
     s \<leftarrow> release h (ProcLock p) s;
     Some (None, s)
   }"

definition allocproc :: "nat \<Rightarrow> kenv \<Rightarrow> 'a kmem_scheme \<Rightarrow> (nat option \<times> 'a kmem_scheme) option" where
  "allocproc h K s = do {
     (found, s) \<leftarrow> allocproc_find h [0..<NPROC] s;
     (case found of
        None \<Rightarrow> Some (None, s)
      | Some p \<Rightarrow> do {
          (pd, s) \<leftarrow> allocpid h s;
          let s = upd_proc p (\<lambda>q. q\<lparr>pid := pd, pstate := USED\<rparr>) s;
          (tf, s) \<leftarrow> kalloc h s;
          let s = upd_proc p (\<lambda>q. q\<lparr>trapframe := tf\<rparr>) s;
          (if tf = 0 then allocproc_fail h p s
           else do {
             (pt, s) \<leftarrow> proc_pagetable h K p s;
             let s = upd_proc p (\<lambda>q. q\<lparr>pagetable := pt\<rparr>) s;
             (if pt = 0 then allocproc_fail h p s
              else Some (Some p, upd_proc p (\<lambda>q. q\<lparr>pcontext :=
                \<lparr>ctx_ra = forkret_addr K, ctx_sp = kstack q + PGSIZE, ctx_s = replicate 12 0\<rparr>\<rparr>) s))
           })
        })
   }"

section \<open>The first process\<close>

definition initcode :: bytes where
  "initcode = [
     0x17, 0x05, 0x00, 0x00, 0x13, 0x05, 0x45, 0x02,
     0x97, 0x05, 0x00, 0x00, 0x93, 0x85, 0x35, 0x02,
     0x93, 0x08, 0x70, 0x00, 0x73, 0x00, 0x00, 0x00,
     0x93, 0x08, 0x20, 0x00, 0x73, 0x00, 0x00, 0x00,
     0xef, 0xf0, 0x9f, 0xff, 0x2f, 0x69, 0x6e, 0x69,
     0x74, 0x00, 0x00, 0x24, 0x00, 0x00, 0x00, 0x00,
     0x00, 0x00, 0x00, 0x00]"

text \<open>
  Directory entries and path elements on the kernel stack.  Whatever is in these buffers at first, every byte the code looks at has been
  written before.
\<close>

definition stack_de :: bytes where "stack_de = replicate sizeof_dirent 0"
definition stack_name :: bytes where "stack_name = replicate DIRSIZ 0"

definition userinit :: "nat \<Rightarrow> kenv \<Rightarrow> 'a kfs_scheme \<Rightarrow> 'a kfs_scheme option" where
  "userinit h K s = do {
     (np, s) \<leftarrow> allocproc h K s;
     let s = s\<lparr>initproc := np\<rparr>;
     p \<leftarrow> np;
     s \<leftarrow> uvminit h (pagetable (procs s p)) initcode (of_nat (length initcode)) s;
     let s = upd_proc p (\<lambda>q. q\<lparr>sz := PGSIZE\<rparr>) s;
     let s = set_tf p TF_epc 0 s;
     let s = set_tf p TF_sp PGSIZE s;
     nm \<leftarrow> safestrcpy (pname (procs s p)) (map (of_nat \<circ> of_char) ''initcode'' @ [0]) 16;
     let s = upd_proc p (\<lambda>q. q\<lparr>pname := nm\<rparr>) s;
     (ip, s) \<leftarrow> namei h stack_de stack_name [slash, 0] s;
     let s = upd_proc p (\<lambda>q. q\<lparr>cwd := ip, pstate := RUNNABLE\<rparr>) s;
     release h (ProcLock p) s
   }"

section \<open>Memory, fork, exit and wait\<close>

text \<open>\<open>sz\<close> of \<open>growproc\<close> is a 32-bit unsigned integer.\<close>

definition growproc :: "nat \<Rightarrow> int \<Rightarrow> 'a kmem_scheme \<Rightarrow> (int \<times> 'a kmem_scheme) option" where
  "growproc h n s = do {
     (me, s) \<leftarrow> myproc h s;
     p \<leftarrow> me;
     let usz = (ucast (sz (procs s p)) :: uint);
     let pt = pagetable (procs s p);
     (if n > 0
      then do {
        (r, s) \<leftarrow> uvmalloc h pt (ucast usz) (ucast (usz + of_int n)) s;
        let usz = (ucast r :: uint);
        (if usz = 0 then Some (-1, s)
         else Some (0, upd_proc p (\<lambda>q. q\<lparr>sz := ucast usz\<rparr>) s))
      }
      else if n < 0
      then do {
        (r, s) \<leftarrow> uvmdealloc h pt (ucast usz) (ucast (usz + of_int n)) s;
        Some (0, upd_proc p (\<lambda>q. q\<lparr>sz := ucast (ucast r :: uint)\<rparr>) s)
      }
      else Some (0, upd_proc p (\<lambda>q. q\<lparr>sz := ucast usz\<rparr>) s))
   }"

definition fork_files :: "nat \<Rightarrow> nat \<Rightarrow> nat \<Rightarrow> 'a kfile_scheme \<Rightarrow> 'a kfile_scheme option" where
  "fork_files h p np s = for_each (\<lambda>i s.
     case ofile (procs s p) ! i of
       None \<Rightarrow> Some s
     | Some f \<Rightarrow> do {
         (f, s) \<leftarrow> filedup h f s;
         Some (upd_proc np (\<lambda>q. q\<lparr>ofile := (ofile q)[i := Some f]\<rparr>) s)
       }) [0..<NOFILE] s"

definition fork :: "nat \<Rightarrow> kenv \<Rightarrow> 'a kfile_scheme \<Rightarrow> (int \<times> 'a kfile_scheme) option" where
  "fork h K s = do {
     (me, s) \<leftarrow> myproc h s;
     p \<leftarrow> me;
     (new, s) \<leftarrow> allocproc h K s;
     (case new of
        None \<Rightarrow> Some (-1, s)
      | Some np \<Rightarrow> do {
          (r, s) \<leftarrow> uvmcopy h (pagetable (procs s p)) (pagetable (procs s np)) (sz (procs s p)) s;
          (if r < 0
           then do {
             s \<leftarrow> freeproc h np s;
             s \<leftarrow> release h (ProcLock np) s;
             Some (-1, s)
           }
           else do {
             let s = upd_proc np (\<lambda>q. q\<lparr>sz := sz (procs s p)\<rparr>) s;
             let s = s\<lparr>pmem := store_bytes (trapframe (procs s np))
               (load_bytes (pmem s) (trapframe (procs s p)) sizeof_trapframe) (pmem s)\<rparr>;
             let s = set_tf np TF_a0 0 s;
             s \<leftarrow> fork_files h p np s;
             c \<leftarrow> cwd (procs s p);
             (c, s) \<leftarrow> idup h c s;
             nm \<leftarrow> safestrcpy (pname (procs s np)) (pname (procs s p)) 16;
             let s = upd_proc np (\<lambda>q. q\<lparr>cwd := Some c, pname := nm\<rparr>) s;
             let pd = pid (procs s np);
             s \<leftarrow> release h (ProcLock np) s;
             s \<leftarrow> acquire h WaitLock s;
             let s = upd_proc np (\<lambda>q. q\<lparr>parent := Some p\<rparr>) s;
             s \<leftarrow> release h WaitLock s;
             s \<leftarrow> acquire h (ProcLock np) s;
             let s = upd_proc np (\<lambda>q. q\<lparr>pstate := RUNNABLE\<rparr>) s;
             s \<leftarrow> release h (ProcLock np) s;
             Some (pd, s)
           })
        })
   }"

text \<open>\<open>wakeup\<close> of a process pointer, which is the channel 0 when there is no process.\<close>

definition wakeup_null_body :: "nat \<Rightarrow> nat \<Rightarrow> 'a kproc_scheme \<Rightarrow> 'a kproc_scheme option" where
  "wakeup_null_body h p s = do {
     (me, s) \<leftarrow> myproc h s;
     (if me \<noteq> Some p
      then do {
        s \<leftarrow> acquire h (ProcLock p) s;
        let s = (if pstate (procs s p) = SLEEPING \<and> chan (procs s p) = None
                 then upd_proc p (\<lambda>q. q\<lparr>pstate := RUNNABLE\<rparr>) s else s);
        release h (ProcLock p) s
      }
      else Some s)
   }"

definition wakeup_proc :: "nat \<Rightarrow> nat option \<Rightarrow> 'a kproc_scheme \<Rightarrow> 'a kproc_scheme option" where
  "wakeup_proc h po s = (case po of
     Some p \<Rightarrow> wakeup h (ChProc p) s
   | None \<Rightarrow> for_each (wakeup_null_body h) [0..<NPROC] s)"

definition reparent :: "nat \<Rightarrow> nat \<Rightarrow> 'a kproc_scheme \<Rightarrow> 'a kproc_scheme option" where
  "reparent h p s = for_each (\<lambda>pp s.
     if parent (procs s pp) = Some p
     then wakeup_proc h (initproc s) (upd_proc pp (\<lambda>q. q\<lparr>parent := initproc s\<rparr>) s)
     else Some s) [0..<NPROC] s"

definition exit_files :: "nat \<Rightarrow> nat \<Rightarrow> 'a kfile_scheme \<Rightarrow> 'a kfile_scheme option" where
  "exit_files h p s = for_each (\<lambda>fd s.
     case ofile (procs s p) ! fd of
       None \<Rightarrow> Some s
     | Some f \<Rightarrow> do {
         s \<leftarrow> fileclose h f s;
         Some (upd_proc p (\<lambda>q. q\<lparr>ofile := (ofile q)[fd := None]\<rparr>) s)
       }) [0..<NOFILE] s"

text \<open>\<open>exit\<close>, up to the switch to the scheduler, from which it never comes back.\<close>

definition exit :: "nat \<Rightarrow> int \<Rightarrow> 'a kfile_scheme \<Rightarrow> (bool \<times> 'a kfile_scheme) option" where
  "exit h status s = do {
     (me, s) \<leftarrow> myproc h s;
     (if me = initproc s then None
      else do {
        p \<leftarrow> me;
        s \<leftarrow> exit_files h p s;
        s \<leftarrow> begin_op h s;
        c \<leftarrow> cwd (procs s p);
        s \<leftarrow> iput h c s;
        s \<leftarrow> end_op h s;
        let s = upd_proc p (\<lambda>q. q\<lparr>cwd := None\<rparr>) s;
        s \<leftarrow> acquire h WaitLock s;
        s \<leftarrow> reparent h p s;
        s \<leftarrow> wakeup_proc h (parent (procs s p)) s;
        s \<leftarrow> acquire h (ProcLock p) s;
        let s = upd_proc p (\<lambda>q. q\<lparr>xstate := status, pstate := ZOMBIE\<rparr>) s;
        s \<leftarrow> release h WaitLock s;
        sched h s
      })
   }"

text \<open>
  The scan of \<open>wait\<close> for the process \<open>p\<close>, with \<open>wait_lock\<close> held: the value that \<open>wait\<close> returns, with the locks released, or whether
  there are children.
\<close>

fun wait_scan ::
  "nat \<Rightarrow> nat \<Rightarrow> uint64 \<Rightarrow> nat list \<Rightarrow> bool \<Rightarrow> 'a kmem_scheme \<Rightarrow> ((bool + int) \<times> 'a kmem_scheme) option" where
  "wait_scan h p addr [] havekids s = Some (Inl havekids, s)"
| "wait_scan h p addr (np # nps) havekids s =
     (if parent (procs s np) = Some p
      then do {
        s \<leftarrow> acquire h (ProcLock np) s;
        (if pstate (procs s np) = ZOMBIE
         then do {
           let pd = pid (procs s np);
           (r, s) \<leftarrow> (if addr \<noteq> 0
             then copyout h (pagetable (procs s p)) addr (enc_le 4 (of_int (xstate (procs s np)) :: uint)) 4 s
             else Some (0, s));
           (if r < 0
            then do {
              s \<leftarrow> release h (ProcLock np) s;
              s \<leftarrow> release h WaitLock s;
              Some (Inr (-1), s)
            }
            else do {
              s \<leftarrow> freeproc h np s;
              s \<leftarrow> release h (ProcLock np) s;
              s \<leftarrow> release h WaitLock s;
              Some (Inr pd, s)
            })
         }
         else do {
           s \<leftarrow> release h (ProcLock np) s;
           wait_scan h p addr nps True s
         })
      }
      else wait_scan h p addr nps havekids s)"

text \<open>One round of the loop of \<open>wait\<close>: the result, or a sleep with what \<open>sched\<close> keeps on the stack.\<close>

definition wait_round :: "nat \<Rightarrow> nat \<Rightarrow> uint64 \<Rightarrow> 'a kmem_scheme \<Rightarrow> ((bool + int) \<times> 'a kmem_scheme) option" where
  "wait_round h p addr s = do {
     (r, s) \<leftarrow> wait_scan h p addr [0..<NPROC] False s;
     (case r of
        Inr v \<Rightarrow> Some (Inr v, s)
      | Inl havekids \<Rightarrow>
          if \<not> havekids \<or> killed (procs s p)
          then do {
            s \<leftarrow> release h WaitLock s;
            Some (Inr (-1), s)
          }
          else do {
            (ie, s) \<leftarrow> sleep h (ChProc p) WaitLock s;
            Some (Inl ie, s)
          })
   }"

definition wait :: "nat \<Rightarrow> uint64 \<Rightarrow> 'a kmem_scheme \<Rightarrow> ((bool + int) \<times> 'a kmem_scheme) option" where
  "wait h addr s = do {
     (me, s) \<leftarrow> myproc h s;
     p \<leftarrow> me;
     s \<leftarrow> acquire h WaitLock s;
     wait_round h p addr s
   }"

end
