(* ===== verification/Exec.thy ===== *)
theory Exec
  imports Process
begin

text \<open>
  \<open>exec\<close> of \<^verbatim>\<open>kernel/exec.c\<close>: an ELF file becomes a new page table, the arguments go to its stack, and the process commits to the new image.
  \<open>path\<close> is the buffer with the path, \<open>argv\<close> the array of the kernel addresses of the argument strings, each in a page of its own.
\<close>

definition MAXARG :: nat where "MAXARG = 32"
definition ELF_MAGIC :: uint where "ELF_MAGIC = 0x464C457F"
definition ELF_PROG_LOAD :: uint where "ELF_PROG_LOAD = 1"
definition sizeof_elfhdr :: nat where "sizeof_elfhdr = 64"
definition sizeof_proghdr :: nat where "sizeof_proghdr = 56"

definition get64 :: "nat \<Rightarrow> bytes \<Rightarrow> uint64" where
  "get64 k x = dec_le (slice k 8 x)"

record elfhdr =
  elf_magic :: uint
  elf_entry :: uint64
  elf_phoff :: uint64
  elf_phnum :: ushort

definition elfhdr_of :: "bytes \<Rightarrow> elfhdr" where
  "elfhdr_of x = \<lparr>elf_magic = get32 0 x, elf_entry = get64 24 x, elf_phoff = get64 32 x, elf_phnum = get16 56 x\<rparr>"

record proghdr =
  ph_type :: uint
  ph_off :: uint64
  ph_vaddr :: uint64
  ph_filesz :: uint64
  ph_memsz :: uint64

definition proghdr_of :: "bytes \<Rightarrow> proghdr" where
  "proghdr_of x = \<lparr>ph_type = get32 0 x, ph_off = get64 8 x, ph_vaddr = get64 16 x,
     ph_filesz = get64 32 x, ph_memsz = get64 40 x\<rparr>"

section \<open>Loading\<close>

text \<open>The loop of \<open>loadseg\<close> from \<open>i\<close> on: a 32-bit \<open>i\<close> that goes up by pages, so it may never reach \<open>sz\<close>.\<close>

partial_function (option) loadseg_loop ::
  "nat \<Rightarrow> uint64 \<Rightarrow> uint64 \<Rightarrow> nat \<Rightarrow> uint \<Rightarrow> uint \<Rightarrow> uint \<Rightarrow> 'a kfs_scheme \<Rightarrow> (int \<times> 'a kfs_scheme) option" where
  "loadseg_loop h pt va ip offset len i s =
     (if i < len
      then Option.bind (walkaddr h pt (va + ucast i) s) (\<lambda>pa.
        if pa = 0 then None
        else
          let n = (if len - i < ucast PGSIZE then len - i else ucast PGSIZE)
          in Option.bind (readi h ip (mem_sink h False pa) (offset + i) n () s) (\<lambda>(r, u, s).
            if of_int r \<noteq> n then Some (-1, s)
            else loadseg_loop h pt va ip offset len (i + ucast PGSIZE) s))
      else Some (0, s))"

definition loadseg ::
  "nat \<Rightarrow> uint64 \<Rightarrow> uint64 \<Rightarrow> nat \<Rightarrow> uint \<Rightarrow> uint \<Rightarrow> 'a kfs_scheme \<Rightarrow> (int \<times> 'a kfs_scheme) option" where
  "loadseg h pt va ip offset len s = loadseg_loop h pt va ip offset len 0 s"

text \<open>
  The loop over the program headers, with \<open>k\<close> of them left, at \<open>off\<close> of the file, for an image of \<open>usz\<close> bytes.  The result is whether all went
  well, and the size of the image.
\<close>

fun exec_load ::
  "nat \<Rightarrow> uint64 \<Rightarrow> nat \<Rightarrow> nat \<Rightarrow> uint \<Rightarrow> uint64 \<Rightarrow> 'a kfs_scheme \<Rightarrow> (bool \<times> uint64 \<times> 'a kfs_scheme) option" where
  "exec_load h pt ip 0 off usz s = Some (True, usz, s)"
| "exec_load h pt ip (Suc k) off usz s = do {
     (r, x, s) \<leftarrow> readi h ip object_sink off (of_nat sizeof_proghdr) (replicate sizeof_proghdr 0) s;
     (if r \<noteq> int sizeof_proghdr then Some (False, usz, s)
      else do {
        let ph = proghdr_of x;
        let nxt = off + of_nat sizeof_proghdr;
        (if ph_type ph \<noteq> ELF_PROG_LOAD then exec_load h pt ip k nxt usz s
         else if ph_memsz ph < ph_filesz ph then Some (False, usz, s)
         else if ph_vaddr ph + ph_memsz ph < ph_vaddr ph then Some (False, usz, s)
         else do {
           (sz1, s) \<leftarrow> uvmalloc h pt usz (ph_vaddr ph + ph_memsz ph) s;
           (if sz1 = 0 then Some (False, usz, s)
            else if ph_vaddr ph mod PGSIZE \<noteq> 0 then Some (False, sz1, s)
            else do {
              (r, s) \<leftarrow> loadseg h pt (ph_vaddr ph) ip (ucast (ph_off ph)) (ucast (ph_filesz ph)) s;
              (if r < 0 then Some (False, sz1, s) else exec_load h pt ip k nxt sz1 s)
            })
         })
      })
   }"

section \<open>Arguments\<close>

text \<open>
  The loop that pushes the argument strings: \<open>us\<close> is \<open>ustack[0..argc-1]\<close>.  The result is \<open>None\<close> after a failure, else the stack pointer and
  the addresses.  An \<open>argv\<close> with no null pointer is read past its end.
\<close>

fun exec_args ::
  "nat \<Rightarrow> uint64 \<Rightarrow> uint64 \<Rightarrow> uint64 list \<Rightarrow> uint64 \<Rightarrow> uint64 list \<Rightarrow> 'a kmem_scheme \<Rightarrow> ((uint64 \<times> uint64 list) option \<times> 'a kmem_scheme) option" where
  "exec_args h pt stackbase [] sp us s = None"
| "exec_args h pt stackbase (a # argv) sp us s =
     (if a = 0 then Some (Some (sp, us), s)
      else if MAXARG \<le> length us then Some (None, s)
      else do {
        let str = load_bytes (pmem s) a (unat PGSIZE);
        n \<leftarrow> strlen str;
        let sp = sp - of_nat (n + 1);
        let sp = sp - sp mod 16;
        (if sp < stackbase then Some (None, s)
         else do {
           (r, s) \<leftarrow> copyout h pt sp str (of_nat (n + 1)) s;
           (if r < 0 then Some (None, s) else exec_args h pt stackbase argv sp (us @ [sp]) s)
         })
      })"

text \<open>The last element of the path, which becomes the name of the process.\<close>

fun exec_last :: "bytes \<Rightarrow> bytes \<Rightarrow> bytes" where
  "exec_last l [] = l"
| "exec_last l (c # p) = (if c = 0 then l else exec_last (if c = slash then p else l) p)"

section \<open>exec\<close>

text \<open>The exit at the label \<open>bad\<close>: the page table, and the inode if it is still locked.\<close>

definition exec_bad ::
  "nat \<Rightarrow> uint64 \<Rightarrow> uint64 \<Rightarrow> nat option \<Rightarrow> 'a kfs_scheme \<Rightarrow> (int \<times> 'a kfs_scheme) option" where
  "exec_bad h pt usz ipo s = do {
     s \<leftarrow> (if pt \<noteq> 0 then proc_freepagetable h pt usz s else Some s);
     (case ipo of
        None \<Rightarrow> Some (-1, s)
      | Some ip \<Rightarrow> do {
          s \<leftarrow> iunlockput h ip s;
          s \<leftarrow> end_op h s;
          Some (-1, s)
        })
   }"

text \<open>The second half of \<open>exec\<close>, after the file is closed: the stack, the arguments and the commit.\<close>

definition exec_commit ::
  "nat \<Rightarrow> bytes \<Rightarrow> uint64 list \<Rightarrow> elfhdr \<Rightarrow> uint64 \<Rightarrow> uint64 \<Rightarrow> 'a kfs_scheme \<Rightarrow> (int \<times> 'a kfs_scheme) option" where
  "exec_commit h path argv elf pt usz s = do {
     (me, s) \<leftarrow> myproc h s;
     p \<leftarrow> me;
     let oldsz = sz (procs s p);
     let usz = PGROUNDUP usz;
     (sz1, s) \<leftarrow> uvmalloc h pt usz (usz + 2 * PGSIZE) s;
     (if sz1 = 0 then exec_bad h pt usz None s
      else do {
        s \<leftarrow> uvmclear h pt (sz1 - 2 * PGSIZE) s;
        let stackbase = sz1 - PGSIZE;
        (args, s) \<leftarrow> exec_args h pt stackbase argv sz1 [] s;
        (case args of
           None \<Rightarrow> exec_bad h pt sz1 None s
         | Some (sp, us) \<Rightarrow> do {
             let argc = length us;
             let sp = sp - of_nat ((argc + 1) * 8);
             let sp = sp - sp mod 16;
             (if sp < stackbase then exec_bad h pt sz1 None s
              else do {
                (r, s) \<leftarrow> copyout h pt sp (concat (map (enc_le 8) (us @ [0]))) (of_nat ((argc + 1) * 8)) s;
                (if r < 0 then exec_bad h pt sz1 None s
                 else do {
                   let s = set_tf p TF_a1 sp s;
                   nm \<leftarrow> safestrcpy (pname (procs s p)) (exec_last path path) 16;
                   let s = upd_proc p (\<lambda>q. q\<lparr>pname := nm\<rparr>) s;
                   let oldpagetable = pagetable (procs s p);
                   let s = upd_proc p (\<lambda>q. q\<lparr>pagetable := pt, sz := sz1\<rparr>) s;
                   let s = set_tf p TF_epc (elf_entry elf) s;
                   let s = set_tf p TF_sp sp s;
                   s \<leftarrow> proc_freepagetable h oldpagetable oldsz s;
                   Some (int argc, s)
                 })
              })
           })
      })
   }"

definition exec ::
  "nat \<Rightarrow> kenv \<Rightarrow> bytes \<Rightarrow> uint64 list \<Rightarrow> 'a kfs_scheme \<Rightarrow> (int \<times> 'a kfs_scheme) option" where
  "exec h K path argv s = do {
     (me, s) \<leftarrow> myproc h s;
     p \<leftarrow> me;
     s \<leftarrow> begin_op h s;
     (ipo, s) \<leftarrow> namei h stack_de stack_name path s;
     (case ipo of
        None \<Rightarrow> do {
          s \<leftarrow> end_op h s;
          Some (-1, s)
        }
      | Some ip \<Rightarrow> do {
          s \<leftarrow> ilock h ip s;
          (r, x, s) \<leftarrow> readi h ip object_sink 0 (of_nat sizeof_elfhdr) (replicate sizeof_elfhdr 0) s;
          (if r \<noteq> int sizeof_elfhdr \<or> elf_magic (elfhdr_of x) \<noteq> ELF_MAGIC then exec_bad h 0 0 (Some ip) s
           else do {
             (pt, s) \<leftarrow> proc_pagetable h K p s;
             (if pt = 0 then exec_bad h 0 0 (Some ip) s
              else do {
                (ok, usz, s) \<leftarrow> exec_load h pt ip (unat (elf_phnum (elfhdr_of x))) (ucast (elf_phoff (elfhdr_of x))) 0 s;
                (if \<not> ok then exec_bad h pt usz (Some ip) s
                 else do {
                   s \<leftarrow> iunlockput h ip s;
                   s \<leftarrow> end_op h s;
                   exec_commit h path argv (elfhdr_of x) pt usz s
                 })
              })
           })
        })
   }"

end
