(* ===== verification/Syscall.thy ===== *)
theory Syscall
  imports Exec
begin

text \<open>
  System call arguments (\<^verbatim>\<open>kernel/syscall.c\<close>) and the process system calls (\<^verbatim>\<open>kernel/sysproc.c\<close>).  A system call returns a value, goes to sleep at one
  of the places that \<open>sysret\<close> names, or gives up the process.
\<close>

section \<open>Arguments\<close>

definition fetchaddr :: "nat \<Rightarrow> uint64 \<Rightarrow> 'a kmem_scheme \<Rightarrow> (uint64 option \<times> 'a kmem_scheme) option" where
  "fetchaddr h addr s = do {
     (me, s) \<leftarrow> myproc h s;
     p \<leftarrow> me;
     (if sz (procs s p) \<le> addr \<or> sz (procs s p) < addr + 8 then Some (None, s)
      else do {
        (r, bs) \<leftarrow> copyin h (pagetable (procs s p)) addr 8 s;
        Some (if r \<noteq> 0 then None else Some (dec_le bs), s)
      })
   }"

text \<open>The string that is copied into \<open>buf\<close> comes with the result.\<close>

definition fetchstr :: "nat \<Rightarrow> uint64 \<Rightarrow> int \<Rightarrow> 'a kmem_scheme \<Rightarrow> (int \<times> bytes \<times> 'a kmem_scheme) option" where
  "fetchstr h addr mx s = do {
     (me, s) \<leftarrow> myproc h s;
     p \<leftarrow> me;
     (err, buf) \<leftarrow> copyinstr h (pagetable (procs s p)) addr (of_int mx) s;
     (if err < 0 then Some (err, buf, s)
      else do {
        n \<leftarrow> strlen buf;
        Some (int n, buf, s)
      })
   }"

fun arg_reg :: "nat \<Rightarrow> tfreg option" where
  "arg_reg n = (if n = 0 then Some TF_a0 else if n = 1 then Some TF_a1 else if n = 2 then Some TF_a2
     else if n = 3 then Some TF_a3 else if n = 4 then Some TF_a4 else if n = 5 then Some TF_a5 else None)"

definition argraw :: "nat \<Rightarrow> nat \<Rightarrow> 'a kmem_scheme \<Rightarrow> (uint64 \<times> 'a kmem_scheme) option" where
  "argraw h n s = do {
     (me, s) \<leftarrow> myproc h s;
     p \<leftarrow> me;
     r \<leftarrow> arg_reg n;
     Some (get_tf p r s, s)
   }"

text \<open>\<open>argint\<close> and \<open>argaddr\<close> always return 0, so their results are the values.\<close>

definition argint :: "nat \<Rightarrow> nat \<Rightarrow> 'a kmem_scheme \<Rightarrow> (int \<times> 'a kmem_scheme) option" where
  "argint h n s = do {
     (v, s) \<leftarrow> argraw h n s;
     Some (sint (ucast v :: uint), s)
   }"

definition argaddr :: "nat \<Rightarrow> nat \<Rightarrow> 'a kmem_scheme \<Rightarrow> (uint64 \<times> 'a kmem_scheme) option" where
  "argaddr h n s = argraw h n s"

definition argstr :: "nat \<Rightarrow> nat \<Rightarrow> int \<Rightarrow> 'a kmem_scheme \<Rightarrow> (int \<times> bytes \<times> 'a kmem_scheme) option" where
  "argstr h n mx s = do {
     (addr, s) \<leftarrow> argaddr h n s;
     fetchstr h addr mx s
   }"

section \<open>Process system calls\<close>

datatype sysret =
    Ret uint64
  | IoWait blocked
  | ChildWait uint64 bool
  | TicksWait uint int bool
  | Exited bool

definition ret_int :: "int \<Rightarrow> sysret" where
  "ret_int v = Ret (of_int v)"

definition sys_exit :: "nat \<Rightarrow> 'a kfile_scheme \<Rightarrow> (sysret \<times> 'a kfile_scheme) option" where
  "sys_exit h s = do {
     (n, s) \<leftarrow> argint h 0 s;
     (ie, s) \<leftarrow> exit h n s;
     Some (Exited ie, s)
   }"

definition sys_getpid :: "nat \<Rightarrow> 'a kproc_scheme \<Rightarrow> (sysret \<times> 'a kproc_scheme) option" where
  "sys_getpid h s = do {
     (me, s) \<leftarrow> myproc h s;
     p \<leftarrow> me;
     Some (ret_int (pid (procs s p)), s)
   }"

definition sys_fork :: "nat \<Rightarrow> kenv \<Rightarrow> 'a kfile_scheme \<Rightarrow> (sysret \<times> 'a kfile_scheme) option" where
  "sys_fork h K s = do {
     (r, s) \<leftarrow> fork h K s;
     Some (ret_int r, s)
   }"

definition sys_wait :: "nat \<Rightarrow> 'a kmem_scheme \<Rightarrow> (sysret \<times> 'a kmem_scheme) option" where
  "sys_wait h s = do {
     (p, s) \<leftarrow> argaddr h 0 s;
     (r, s) \<leftarrow> wait h p s;
     Some (case r of Inl ie \<Rightarrow> ChildWait p ie | Inr v \<Rightarrow> ret_int v, s)
   }"

text \<open>\<open>addr\<close> is a signed 32-bit integer.\<close>

definition sys_sbrk :: "nat \<Rightarrow> 'a kmem_scheme \<Rightarrow> (sysret \<times> 'a kmem_scheme) option" where
  "sys_sbrk h s = do {
     (n, s) \<leftarrow> argint h 0 s;
     (me, s) \<leftarrow> myproc h s;
     p \<leftarrow> me;
     let addr = sint (ucast (sz (procs s p)) :: uint);
     (r, s) \<leftarrow> growproc h n s;
     Some (ret_int (if r < 0 then -1 else addr), s)
   }"

text \<open>The loop of \<open>sys_sleep\<close> with \<open>tickslock\<close> held; the comparison is on unsigned integers.\<close>

definition sys_sleep_from :: "nat \<Rightarrow> uint \<Rightarrow> int \<Rightarrow> 'a kproc_scheme \<Rightarrow> (sysret \<times> 'a kproc_scheme) option" where
  "sys_sleep_from h ticks0 n s =
     (if ticks s - ticks0 < of_int n
      then do {
        (me, s) \<leftarrow> myproc h s;
        p \<leftarrow> me;
        (if killed (procs s p)
         then do {
           s \<leftarrow> release h TicksLock s;
           Some (ret_int (-1), s)
         }
         else do {
           (ie, s) \<leftarrow> sleep h ChTicks TicksLock s;
           Some (TicksWait ticks0 n ie, s)
         })
      }
      else do {
        s \<leftarrow> release h TicksLock s;
        Some (ret_int 0, s)
      })"

definition sys_sleep :: "nat \<Rightarrow> 'a kmem_scheme \<Rightarrow> (sysret \<times> 'a kmem_scheme) option" where
  "sys_sleep h s = do {
     (n, s) \<leftarrow> argint h 0 s;
     s \<leftarrow> acquire h TicksLock s;
     sys_sleep_from h (ticks s) n s
   }"

definition sys_kill :: "nat \<Rightarrow> 'a kmem_scheme \<Rightarrow> (sysret \<times> 'a kmem_scheme) option" where
  "sys_kill h s = do {
     (pd, s) \<leftarrow> argint h 0 s;
     (r, s) \<leftarrow> kill h pd s;
     Some (ret_int r, s)
   }"

definition sys_uptime :: "nat \<Rightarrow> 'a kproc_scheme \<Rightarrow> (sysret \<times> 'a kproc_scheme) option" where
  "sys_uptime h s = do {
     s \<leftarrow> acquire h TicksLock s;
     let xticks = ticks s;
     s \<leftarrow> release h TicksLock s;
     Some (Ret (ucast xticks), s)
   }"

end
