(* ===== verification/Sysfile.thy ===== *)
theory Sysfile
  imports Syscall
begin

text \<open>
  The file system calls of \<^verbatim>\<open>kernel/sysfile.c\<close> and the dispatch of \<^verbatim>\<open>kernel/syscall.c\<close>.
\<close>

definition MAXPATH :: int where "MAXPATH = 128"
definition O_RDONLY :: uint where "O_RDONLY = 0x000"
definition O_WRONLY :: uint where "O_WRONLY = 0x001"
definition O_RDWR :: uint where "O_RDWR = 0x002"
definition O_CREATE :: uint where "O_CREATE = 0x200"
definition O_TRUNC :: uint where "O_TRUNC = 0x400"

section \<open>Descriptors\<close>

definition argfd :: "nat \<Rightarrow> nat \<Rightarrow> 'a kmem_scheme \<Rightarrow> ((nat \<times> nat) option \<times> 'a kmem_scheme) option" where
  "argfd h n s = do {
     (fd, s) \<leftarrow> argint h n s;
     (if fd < 0 \<or> int NOFILE \<le> fd then Some (None, s)
      else do {
        (me, s) \<leftarrow> myproc h s;
        p \<leftarrow> me;
        Some (case ofile (procs s p) ! nat fd of None \<Rightarrow> None | Some f \<Rightarrow> Some (nat fd, f), s)
      })
   }"

definition fdalloc :: "nat \<Rightarrow> nat \<Rightarrow> 'a kproc_scheme \<Rightarrow> (nat option \<times> 'a kproc_scheme) option" where
  "fdalloc h f s = do {
     (me, s) \<leftarrow> myproc h s;
     p \<leftarrow> me;
     (case find (\<lambda>fd. ofile (procs s p) ! fd = None) [0..<NOFILE] of
        Some fd \<Rightarrow> Some (Some fd, upd_proc p (\<lambda>q. q\<lparr>ofile := (ofile q)[fd := Some f]\<rparr>) s)
      | None \<Rightarrow> Some (None, s))
   }"

text \<open>Clear a descriptor of the current process.\<close>

definition clear_fd :: "nat \<Rightarrow> nat \<Rightarrow> 'a kproc_scheme \<Rightarrow> 'a kproc_scheme" where
  "clear_fd p fd s = upd_proc p (\<lambda>q. q\<lparr>ofile := (ofile q)[fd := None]\<rparr>) s"

definition sys_dup :: "nat \<Rightarrow> 'a kfile_scheme \<Rightarrow> (sysret \<times> 'a kfile_scheme) option" where
  "sys_dup h s = do {
     (a, s) \<leftarrow> argfd h 0 s;
     (case a of
        None \<Rightarrow> Some (ret_int (-1), s)
      | Some (_, f) \<Rightarrow> do {
          (b, s) \<leftarrow> fdalloc h f s;
          (case b of
             None \<Rightarrow> Some (ret_int (-1), s)
           | Some fd \<Rightarrow> do {
               (_, s) \<leftarrow> filedup h f s;
               Some (ret_int (int fd), s)
             })
        })
   }"

definition io_ret :: "blocked + int \<Rightarrow> sysret" where
  "io_ret r = (case r of Inl b \<Rightarrow> IoWait b | Inr v \<Rightarrow> ret_int v)"

definition sys_read :: "nat \<Rightarrow> 'a kfile_scheme \<Rightarrow> (sysret \<times> 'a kfile_scheme) option" where
  "sys_read h s = do {
     (a, s) \<leftarrow> argfd h 0 s;
     (case a of
        None \<Rightarrow> Some (ret_int (-1), s)
      | Some (_, f) \<Rightarrow> do {
          (n, s) \<leftarrow> argint h 2 s;
          (p, s) \<leftarrow> argaddr h 1 s;
          (r, s) \<leftarrow> fileread h f p n s;
          Some (io_ret r, s)
        })
   }"

definition sys_write :: "nat \<Rightarrow> 'a kfile_scheme \<Rightarrow> (sysret \<times> 'a kfile_scheme) option" where
  "sys_write h s = do {
     (a, s) \<leftarrow> argfd h 0 s;
     (case a of
        None \<Rightarrow> Some (ret_int (-1), s)
      | Some (_, f) \<Rightarrow> do {
          (n, s) \<leftarrow> argint h 2 s;
          (p, s) \<leftarrow> argaddr h 1 s;
          (r, s) \<leftarrow> filewrite h f p n s;
          Some (io_ret r, s)
        })
   }"

definition sys_close :: "nat \<Rightarrow> 'a kfile_scheme \<Rightarrow> (sysret \<times> 'a kfile_scheme) option" where
  "sys_close h s = do {
     (a, s) \<leftarrow> argfd h 0 s;
     (case a of
        None \<Rightarrow> Some (ret_int (-1), s)
      | Some (fd, f) \<Rightarrow> do {
          (me, s) \<leftarrow> myproc h s;
          p \<leftarrow> me;
          let s = clear_fd p fd s;
          s \<leftarrow> fileclose h f s;
          Some (ret_int 0, s)
        })
   }"

definition sys_fstat :: "nat \<Rightarrow> kenv \<Rightarrow> 'a kfile_scheme \<Rightarrow> (sysret \<times> 'a kfile_scheme) option" where
  "sys_fstat h K s = do {
     (a, s) \<leftarrow> argfd h 0 s;
     (case a of
        None \<Rightarrow> Some (ret_int (-1), s)
      | Some (_, f) \<Rightarrow> do {
          (st, s) \<leftarrow> argaddr h 1 s;
          (r, s) \<leftarrow> filestat h (stack_pad K) f st s;
          Some (ret_int r, s)
        })
   }"

section \<open>Links\<close>

text \<open>A return of -1 that ends the transaction first.\<close>

definition op_fail :: "nat \<Rightarrow> 'a klog_scheme \<Rightarrow> (sysret \<times> 'a klog_scheme) option" where
  "op_fail h s = do {
     s \<leftarrow> end_op h s;
     Some (ret_int (-1), s)
   }"

definition sys_link_bad :: "nat \<Rightarrow> nat \<Rightarrow> 'a kfs_scheme \<Rightarrow> (sysret \<times> 'a kfs_scheme) option" where
  "sys_link_bad h ip s = do {
     s \<leftarrow> ilock h ip s;
     let s = upd_inode ip (\<lambda>x. x\<lparr>inlink := inlink x - 1\<rparr>) s;
     s \<leftarrow> iupdate h ip s;
     s \<leftarrow> iunlockput h ip s;
     op_fail h s
   }"

definition sys_link_run :: "nat \<Rightarrow> bytes \<Rightarrow> bytes \<Rightarrow> 'a kfs_scheme \<Rightarrow> (sysret \<times> 'a kfs_scheme) option" where
  "sys_link_run h old new s = do {
     s \<leftarrow> begin_op h s;
     (ipo, s) \<leftarrow> namei h stack_de stack_name old s;
     (case ipo of
        None \<Rightarrow> op_fail h s
      | Some ip \<Rightarrow> do {
          s \<leftarrow> ilock h ip s;
          (if itype (itab s ip) = T_DIR
           then do {
             s \<leftarrow> iunlockput h ip s;
             op_fail h s
           }
           else do {
             let s = upd_inode ip (\<lambda>x. x\<lparr>inlink := inlink x + 1\<rparr>) s;
             s \<leftarrow> iupdate h ip s;
             s \<leftarrow> iunlock h ip s;
             (dpo, name, s) \<leftarrow> nameiparent h stack_de new stack_name s;
             (case dpo of
                None \<Rightarrow> sys_link_bad h ip s
              | Some dp \<Rightarrow> do {
                  s \<leftarrow> ilock h dp s;
                  (r, s) \<leftarrow> (if idev (itab s dp) \<noteq> idev (itab s ip) then Some (-1, s)
                    else dirlink h dp name (inum (itab s ip)) stack_de s);
                  s \<leftarrow> iunlockput h dp s;
                  (if r < 0 then sys_link_bad h ip s
                   else do {
                     s \<leftarrow> iput h ip s;
                     s \<leftarrow> end_op h s;
                     Some (ret_int 0, s)
                   })
                })
           })
        })
   }"

definition sys_link :: "nat \<Rightarrow> 'a kfs_scheme \<Rightarrow> (sysret \<times> 'a kfs_scheme) option" where
  "sys_link h s = do {
     (r, old, s) \<leftarrow> argstr h 0 MAXPATH s;
     (if r < 0 then Some (ret_int (-1), s)
      else do {
        (r, new, s) \<leftarrow> argstr h 1 MAXPATH s;
        (if r < 0 then Some (ret_int (-1), s) else sys_link_run h old new s)
      })
   }"

text \<open>The loop of \<open>isdirempty\<close>; \<open>off\<close> is a 32-bit integer.\<close>

partial_function (option) isdirempty_loop :: "nat \<Rightarrow> nat \<Rightarrow> uint \<Rightarrow> 'a kfs_scheme \<Rightarrow> (bool \<times> 'a kfs_scheme) option" where
  "isdirempty_loop h dp off s =
     (if off < isize (itab s dp)
      then Option.bind (readi h dp object_sink off (of_nat sizeof_dirent) stack_de s) (\<lambda>(r, de, s).
        if r \<noteq> int sizeof_dirent then None
        else if de_inum de \<noteq> 0 then Some (False, s)
        else isdirempty_loop h dp (off + of_nat sizeof_dirent) s)
      else Some (True, s))"

definition isdirempty :: "nat \<Rightarrow> nat \<Rightarrow> 'a kfs_scheme \<Rightarrow> (bool \<times> 'a kfs_scheme) option" where
  "isdirempty h dp s = isdirempty_loop h dp (of_nat (2 * sizeof_dirent)) s"

definition dot :: bytes where "dot = [46, 0]"
definition dotdot :: bytes where "dotdot = [46, 46, 0]"

definition sys_unlink_bad :: "nat \<Rightarrow> nat \<Rightarrow> 'a kfs_scheme \<Rightarrow> (sysret \<times> 'a kfs_scheme) option" where
  "sys_unlink_bad h dp s = do {
     s \<leftarrow> iunlockput h dp s;
     op_fail h s
   }"

text \<open>The part of \<open>sys_unlink\<close> from the entry \<open>off\<close> of \<open>dp\<close> for \<open>ip\<close>, once \<open>ip\<close> is found.\<close>

definition sys_unlink_entry :: "nat \<Rightarrow> nat \<Rightarrow> nat \<Rightarrow> uint \<Rightarrow> 'a kfs_scheme \<Rightarrow> (sysret \<times> 'a kfs_scheme) option" where
  "sys_unlink_entry h dp ip off s = do {
     s \<leftarrow> ilock h ip s;
     (if sint (inlink (itab s ip)) < 1 then None
      else do {
        (busy, s) \<leftarrow> (if itype (itab s ip) = T_DIR
          then do {
            (e, s) \<leftarrow> isdirempty h ip s;
            Some (\<not> e, s)
          }
          else Some (False, s));
        (if busy
         then do {
           s \<leftarrow> iunlockput h ip s;
           sys_unlink_bad h dp s
         }
         else do {
           (r, s) \<leftarrow> writei h dp (object_source (replicate sizeof_dirent 0)) off (of_nat sizeof_dirent) s;
           (if r \<noteq> int sizeof_dirent then None
            else do {
              s \<leftarrow> (if itype (itab s ip) = T_DIR
                then iupdate h dp (upd_inode dp (\<lambda>x. x\<lparr>inlink := inlink x - 1\<rparr>) s)
                else Some s);
              s \<leftarrow> iunlockput h dp s;
              let s = upd_inode ip (\<lambda>x. x\<lparr>inlink := inlink x - 1\<rparr>) s;
              s \<leftarrow> iupdate h ip s;
              s \<leftarrow> iunlockput h ip s;
              s \<leftarrow> end_op h s;
              Some (ret_int 0, s)
            })
         })
      })
   }"

definition sys_unlink :: "nat \<Rightarrow> 'a kfs_scheme \<Rightarrow> (sysret \<times> 'a kfs_scheme) option" where
  "sys_unlink h s = do {
     (r, path, s) \<leftarrow> argstr h 0 MAXPATH s;
     (if r < 0 then Some (ret_int (-1), s)
      else do {
        s \<leftarrow> begin_op h s;
        (dpo, name, s) \<leftarrow> nameiparent h stack_de path stack_name s;
        (case dpo of
           None \<Rightarrow> op_fail h s
         | Some dp \<Rightarrow> do {
             s \<leftarrow> ilock h dp s;
             c \<leftarrow> namecmp name dot;
             d \<leftarrow> namecmp name dotdot;
             (if c = 0 \<or> d = 0 then sys_unlink_bad h dp s
              else do {
                (found, s) \<leftarrow> dirlookup h dp name stack_de s;
                (case found of
                   None \<Rightarrow> sys_unlink_bad h dp s
                 | Some (ip, off) \<Rightarrow> sys_unlink_entry h dp ip off s)
              })
           })
      })
   }"

section \<open>Creating and opening\<close>

text \<open>\<open>create\<close> once the parent \<open>dp\<close> is locked and has no entry \<open>name\<close>.\<close>

definition create_new ::
  "nat \<Rightarrow> nat \<Rightarrow> bytes \<Rightarrow> ushort \<Rightarrow> ushort \<Rightarrow> ushort \<Rightarrow> 'a kfs_scheme \<Rightarrow> (nat option \<times> 'a kfs_scheme) option" where
  "create_new h dp name ty mjr mnr s = do {
     (ip, s) \<leftarrow> ialloc h (idev (itab s dp)) ty s;
     s \<leftarrow> ilock h ip s;
     let s = upd_inode ip (\<lambda>x. x\<lparr>imajor := mjr, iminor := mnr, inlink := 1\<rparr>) s;
     s \<leftarrow> iupdate h ip s;
     s \<leftarrow> (if ty = T_DIR
       then do {
         let s = upd_inode dp (\<lambda>x. x\<lparr>inlink := inlink x + 1\<rparr>) s;
         s \<leftarrow> iupdate h dp s;
         (r, s) \<leftarrow> dirlink h ip dot (inum (itab s ip)) stack_de s;
         (if r < 0 then None
          else do {
            (r, s) \<leftarrow> dirlink h ip dotdot (inum (itab s dp)) stack_de s;
            (if r < 0 then None else Some s)
          })
       }
       else Some s);
     (r, s) \<leftarrow> dirlink h dp name (inum (itab s ip)) stack_de s;
     (if r < 0 then None
      else do {
        s \<leftarrow> iunlockput h dp s;
        Some (Some ip, s)
      })
   }"

definition create ::
  "nat \<Rightarrow> bytes \<Rightarrow> ushort \<Rightarrow> ushort \<Rightarrow> ushort \<Rightarrow> 'a kfs_scheme \<Rightarrow> (nat option \<times> 'a kfs_scheme) option" where
  "create h path ty mjr mnr s = do {
     (dpo, name, s) \<leftarrow> nameiparent h stack_de path stack_name s;
     (case dpo of
        None \<Rightarrow> Some (None, s)
      | Some dp \<Rightarrow> do {
          s \<leftarrow> ilock h dp s;
          (found, s) \<leftarrow> dirlookup h dp name stack_de s;
          (case found of
             Some (ip, _) \<Rightarrow> do {
               s \<leftarrow> iunlockput h dp s;
               s \<leftarrow> ilock h ip s;
               (if ty = T_FILE \<and> (itype (itab s ip) = T_FILE \<or> itype (itab s ip) = T_DEVICE) then Some (Some ip, s)
                else do {
                  s \<leftarrow> iunlockput h ip s;
                  Some (None, s)
                })
             }
           | None \<Rightarrow> create_new h dp name ty mjr mnr s)
        })
   }"

text \<open>How \<open>sys_open\<close> finds its inode, locked on success.\<close>

definition sys_open_inode :: "nat \<Rightarrow> bytes \<Rightarrow> uint \<Rightarrow> 'a kfs_scheme \<Rightarrow> (nat option \<times> 'a kfs_scheme) option" where
  "sys_open_inode h path omode s =
     (if omode AND O_CREATE \<noteq> 0 then create h path T_FILE 0 0 s
      else do {
        (ipo, s) \<leftarrow> namei h stack_de stack_name path s;
        (case ipo of
           None \<Rightarrow> Some (None, s)
         | Some ip \<Rightarrow> do {
             s \<leftarrow> ilock h ip s;
             (if itype (itab s ip) = T_DIR \<and> omode \<noteq> O_RDONLY
              then do {
                s \<leftarrow> iunlockput h ip s;
                Some (None, s)
              }
              else Some (Some ip, s))
           })
      })"

text \<open>The file and the descriptor for a locked inode.\<close>

definition sys_open_file :: "nat \<Rightarrow> nat \<Rightarrow> uint \<Rightarrow> 'a kfile_scheme \<Rightarrow> (sysret \<times> 'a kfile_scheme) option" where
  "sys_open_file h ip omode s = do {
     (fo, s) \<leftarrow> filealloc h s;
     (fdo, s) \<leftarrow> (case fo of None \<Rightarrow> Some (None, s) | Some f \<Rightarrow> fdalloc h f s);
     (case (fo, fdo) of
        (Some f, Some fd) \<Rightarrow> do {
          let s = (if itype (itab s ip) = T_DEVICE
            then upd_file f (\<lambda>x. x\<lparr>ftype := FD_DEVICE, fmajor := imajor (itab s ip)\<rparr>) s
            else upd_file f (\<lambda>x. x\<lparr>ftype := FD_INODE, foff := 0\<rparr>) s);
          let s = upd_file f (\<lambda>x. x\<lparr>fip := ip, freadable := (omode AND O_WRONLY = 0),
            fwritable := (omode AND O_WRONLY \<noteq> 0 \<or> omode AND O_RDWR \<noteq> 0)\<rparr>) s;
          s \<leftarrow> (if omode AND O_TRUNC \<noteq> 0 \<and> itype (itab s ip) = T_FILE then itrunc h ip s else Some s);
          s \<leftarrow> iunlock h ip s;
          s \<leftarrow> end_op h s;
          Some (ret_int (int fd), s)
        }
      | _ \<Rightarrow> do {
          s \<leftarrow> (case fo of None \<Rightarrow> Some s | Some f \<Rightarrow> fileclose h f s);
          s \<leftarrow> iunlockput h ip s;
          op_fail h s
        })
   }"

definition sys_open :: "nat \<Rightarrow> 'a kfile_scheme \<Rightarrow> (sysret \<times> 'a kfile_scheme) option" where
  "sys_open h s = do {
     (n, path, s) \<leftarrow> argstr h 0 MAXPATH s;
     (if n < 0 then Some (ret_int (-1), s)
      else do {
        (om, s) \<leftarrow> argint h 1 s;
        let omode = (of_int om :: uint);
        s \<leftarrow> begin_op h s;
        (ipo, s) \<leftarrow> sys_open_inode h path omode s;
        (case ipo of
           None \<Rightarrow> op_fail h s
         | Some ip \<Rightarrow>
             if itype (itab s ip) = T_DEVICE \<and> (sint (imajor (itab s ip)) < 0 \<or> int NDEV \<le> sint (imajor (itab s ip)))
             then do {
               s \<leftarrow> iunlockput h ip s;
               op_fail h s
             }
             else sys_open_file h ip omode s)
      })
   }"

text \<open>The common shape of \<open>sys_mkdir\<close> and \<open>sys_mknod\<close> once the arguments are there.\<close>

definition create_and_close ::
  "nat \<Rightarrow> bytes \<Rightarrow> ushort \<Rightarrow> ushort \<Rightarrow> ushort \<Rightarrow> 'a kfs_scheme \<Rightarrow> (sysret \<times> 'a kfs_scheme) option" where
  "create_and_close h path ty mjr mnr s = do {
     (ipo, s) \<leftarrow> create h path ty mjr mnr s;
     (case ipo of
        None \<Rightarrow> op_fail h s
      | Some ip \<Rightarrow> do {
          s \<leftarrow> iunlockput h ip s;
          s \<leftarrow> end_op h s;
          Some (ret_int 0, s)
        })
   }"

definition sys_mkdir :: "nat \<Rightarrow> 'a kfs_scheme \<Rightarrow> (sysret \<times> 'a kfs_scheme) option" where
  "sys_mkdir h s = do {
     s \<leftarrow> begin_op h s;
     (r, path, s) \<leftarrow> argstr h 0 MAXPATH s;
     (if r < 0 then op_fail h s else create_and_close h path T_DIR 0 0 s)
   }"

definition sys_mknod :: "nat \<Rightarrow> 'a kfs_scheme \<Rightarrow> (sysret \<times> 'a kfs_scheme) option" where
  "sys_mknod h s = do {
     s \<leftarrow> begin_op h s;
     (r, path, s) \<leftarrow> argstr h 0 MAXPATH s;
     (if r < 0 then op_fail h s
      else do {
        (mjr, s) \<leftarrow> argint h 1 s;
        (mnr, s) \<leftarrow> argint h 2 s;
        create_and_close h path T_DEVICE (of_int mjr) (of_int mnr) s
      })
   }"

definition sys_chdir :: "nat \<Rightarrow> 'a kfs_scheme \<Rightarrow> (sysret \<times> 'a kfs_scheme) option" where
  "sys_chdir h s = do {
     (me, s) \<leftarrow> myproc h s;
     p \<leftarrow> me;
     s \<leftarrow> begin_op h s;
     (r, path, s) \<leftarrow> argstr h 0 MAXPATH s;
     (ipo, s) \<leftarrow> (if r < 0 then Some (None, s) else namei h stack_de stack_name path s);
     (case ipo of
        None \<Rightarrow> op_fail h s
      | Some ip \<Rightarrow> do {
          s \<leftarrow> ilock h ip s;
          (if itype (itab s ip) \<noteq> T_DIR
           then do {
             s \<leftarrow> iunlockput h ip s;
             op_fail h s
           }
           else do {
             s \<leftarrow> iunlock h ip s;
             c \<leftarrow> cwd (procs s p);
             s \<leftarrow> iput h c s;
             s \<leftarrow> end_op h s;
             Some (ret_int 0, upd_proc p (\<lambda>q. q\<lparr>cwd := Some ip\<rparr>) s)
           })
        })
   }"

section \<open>exec and pipe\<close>

text \<open>
  The loop of \<open>sys_exec\<close> that fetches the arguments: \<open>k\<close> entries of \<open>argv\<close> are left and \<open>pages\<close> are the entries that are set.  The result
  says whether it ended at a null pointer.
\<close>

fun sys_exec_fetch ::
  "nat \<Rightarrow> uint64 \<Rightarrow> nat \<Rightarrow> uint64 list \<Rightarrow> 'a kmem_scheme \<Rightarrow> (bool \<times> uint64 list \<times> 'a kmem_scheme) option" where
  "sys_exec_fetch h uargv 0 pages s = Some (False, pages, s)"
| "sys_exec_fetch h uargv (Suc k) pages s = do {
     (u, s) \<leftarrow> fetchaddr h (uargv + of_nat (8 * length pages)) s;
     (case u of
        None \<Rightarrow> Some (False, pages, s)
      | Some uarg \<Rightarrow>
          if uarg = 0 then Some (True, pages, s)
          else do {
            (pg, s) \<leftarrow> kalloc h s;
            (if pg = 0 then Some (False, pages, s)
             else do {
               (r, buf, s) \<leftarrow> fetchstr h uarg (uint PGSIZE) s;
               let s = s\<lparr>pmem := store_bytes pg buf (pmem s)\<rparr>;
               (if r < 0 then Some (False, pages @ [pg], s)
                else sys_exec_fetch h uargv k (pages @ [pg]) s)
             })
          })
   }"

definition sys_exec :: "nat \<Rightarrow> kenv \<Rightarrow> 'a kfs_scheme \<Rightarrow> (sysret \<times> 'a kfs_scheme) option" where
  "sys_exec h K s = do {
     (r, path, s) \<leftarrow> argstr h 0 MAXPATH s;
     (if r < 0 then Some (ret_int (-1), s)
      else do {
        (uargv, s) \<leftarrow> argaddr h 1 s;
        (ok, pages, s) \<leftarrow> sys_exec_fetch h uargv MAXARG [] s;
        (ret, s) \<leftarrow> (if ok then exec h K path (pages @ replicate (MAXARG - length pages) 0) s else Some (-1, s));
        s \<leftarrow> for_each (kfree h) pages s;
        Some (ret_int ret, s)
      })
   }"

text \<open>The cleanup of \<open>sys_pipe\<close>: the descriptors that are set, and the two files.\<close>

definition sys_pipe_fail ::
  "nat \<Rightarrow> nat \<Rightarrow> nat list \<Rightarrow> nat \<Rightarrow> nat \<Rightarrow> 'a kfile_scheme \<Rightarrow> (sysret \<times> 'a kfile_scheme) option" where
  "sys_pipe_fail h p fds rfile wfile s = do {
     let s = fold (clear_fd p) fds s;
     s \<leftarrow> fileclose h rfile s;
     s \<leftarrow> fileclose h wfile s;
     Some (ret_int (-1), s)
   }"

definition sys_pipe :: "nat \<Rightarrow> 'a kfile_scheme \<Rightarrow> (sysret \<times> 'a kfile_scheme) option" where
  "sys_pipe h s = do {
     (me, s) \<leftarrow> myproc h s;
     p \<leftarrow> me;
     (fdarray, s) \<leftarrow> argaddr h 0 s;
     (fs, s) \<leftarrow> pipealloc h s;
     (case fs of
        None \<Rightarrow> Some (ret_int (-1), s)
      | Some (rfile, wfile) \<Rightarrow> do {
          (a, s) \<leftarrow> fdalloc h rfile s;
          (case a of
             None \<Rightarrow> sys_pipe_fail h p [] rfile wfile s
           | Some fd0 \<Rightarrow> do {
               (b, s) \<leftarrow> fdalloc h wfile s;
               (case b of
                  None \<Rightarrow> sys_pipe_fail h p [fd0] rfile wfile s
                | Some fd1 \<Rightarrow> do {
                    (r, s) \<leftarrow> copyout h (pagetable (procs s p)) fdarray (enc_le 4 (of_nat fd0 :: uint)) 4 s;
                    (if r < 0 then sys_pipe_fail h p [fd0, fd1] rfile wfile s
                     else do {
                       (r, s) \<leftarrow> copyout h (pagetable (procs s p)) (fdarray + 4) (enc_le 4 (of_nat fd1 :: uint)) 4 s;
                       (if r < 0 then sys_pipe_fail h p [fd0, fd1] rfile wfile s else Some (ret_int 0, s))
                     })
                  })
             })
        })
   }"

section \<open>The dispatch\<close>

text \<open>The table \<open>syscalls\<close>, indexed by the numbers of \<^verbatim>\<open>kernel/syscall.h\<close>; entry 0 is null.\<close>

definition syscalls :: "nat \<Rightarrow> kenv \<Rightarrow> ('a kfile_scheme \<Rightarrow> (sysret \<times> 'a kfile_scheme) option) list" where
  "syscalls h K = [
     sys_fork h K, sys_exit h, sys_wait h, sys_pipe h, sys_read h, sys_kill h, sys_exec h K, sys_fstat h K,
     sys_chdir h, sys_dup h, sys_getpid h, sys_sbrk h, sys_sleep h, sys_uptime h, sys_open h, sys_write h,
     sys_mknod h, sys_unlink h, sys_link h, sys_mkdir h, sys_close h]"

definition unknown_fmt :: bytes where
  "unknown_fmt = map (of_nat \<circ> of_char) ''%d %s: unknown sys call %d'' @ [10, 0]"

definition syscall :: "nat \<Rightarrow> kenv \<Rightarrow> 'a kfile_scheme \<Rightarrow> (sysret \<times> 'a kfile_scheme) option" where
  "syscall h K s = do {
     (me, s) \<leftarrow> myproc h s;
     p \<leftarrow> me;
     let num = sint (ucast (get_tf p TF_a7 s) :: uint);
     (if 0 < num \<and> num < 22
      then do {
        (r, s) \<leftarrow> (syscalls h K ! nat (num - 1)) s;
        Some (r, case r of Ret v \<Rightarrow> set_tf p TF_a0 v s | _ \<Rightarrow> s)
      }
      else do {
        s \<leftarrow> printf h unknown_fmt [IntArg (pid (procs s p)), StrArg (Some (pname (procs s p))), IntArg num] s;
        Some (ret_int (-1), set_tf p TF_a0 (-1) s)
      })
   }"

end
