(* ===== verification/Virtio.thy ===== *)
theory Virtio
  imports Process
begin

text \<open>
  The disk driver \<^verbatim>\<open>kernel/virtio_disk.c\<close>.  The descriptor table and the rings are the driver's and the device's shared memory.  A descriptor
  names the object whose address it holds.  The device's registers are read from an oracle, \<open>vio_in n r\<close> being what the \<open>n\<close>-th read finds at
  the register with offset \<open>r\<close>, and written to a list.
\<close>

section \<open>State\<close>

definition NUM :: nat where "NUM = 8"
definition VRING_DESC_F_NEXT :: ushort where "VRING_DESC_F_NEXT = 1"
definition VRING_DESC_F_WRITE :: ushort where "VRING_DESC_F_WRITE = 2"
definition VIRTIO_BLK_T_IN :: uint where "VIRTIO_BLK_T_IN = 0"
definition VIRTIO_BLK_T_OUT :: uint where "VIRTIO_BLK_T_OUT = 1"

text \<open>The registers of the device, and their offsets.\<close>

datatype virtio_mmio =
    VIRTIO_MMIO_MAGIC_VALUE | VIRTIO_MMIO_VERSION | VIRTIO_MMIO_DEVICE_ID | VIRTIO_MMIO_VENDOR_ID
  | VIRTIO_MMIO_DEVICE_FEATURES | VIRTIO_MMIO_DRIVER_FEATURES | VIRTIO_MMIO_GUEST_PAGE_SIZE | VIRTIO_MMIO_QUEUE_SEL
  | VIRTIO_MMIO_QUEUE_NUM_MAX | VIRTIO_MMIO_QUEUE_NUM | VIRTIO_MMIO_QUEUE_ALIGN | VIRTIO_MMIO_QUEUE_PFN | VIRTIO_MMIO_QUEUE_READY | VIRTIO_MMIO_QUEUE_NOTIFY
  | VIRTIO_MMIO_INTERRUPT_STATUS | VIRTIO_MMIO_INTERRUPT_ACK | VIRTIO_MMIO_STATUS

fun mmio_offset :: "virtio_mmio \<Rightarrow> uint" where
  "mmio_offset VIRTIO_MMIO_MAGIC_VALUE = 0x000"
| "mmio_offset VIRTIO_MMIO_VERSION = 0x004"
| "mmio_offset VIRTIO_MMIO_DEVICE_ID = 0x008"
| "mmio_offset VIRTIO_MMIO_VENDOR_ID = 0x00c"
| "mmio_offset VIRTIO_MMIO_DEVICE_FEATURES = 0x010"
| "mmio_offset VIRTIO_MMIO_DRIVER_FEATURES = 0x020"
| "mmio_offset VIRTIO_MMIO_GUEST_PAGE_SIZE = 0x028"
| "mmio_offset VIRTIO_MMIO_QUEUE_SEL = 0x030"
| "mmio_offset VIRTIO_MMIO_QUEUE_NUM_MAX = 0x034"
| "mmio_offset VIRTIO_MMIO_QUEUE_NUM = 0x038"
| "mmio_offset VIRTIO_MMIO_QUEUE_ALIGN = 0x03c"
| "mmio_offset VIRTIO_MMIO_QUEUE_PFN = 0x040"
| "mmio_offset VIRTIO_MMIO_QUEUE_READY = 0x044"
| "mmio_offset VIRTIO_MMIO_QUEUE_NOTIFY = 0x050"
| "mmio_offset VIRTIO_MMIO_INTERRUPT_STATUS = 0x060"
| "mmio_offset VIRTIO_MMIO_INTERRUPT_ACK = 0x064"
| "mmio_offset VIRTIO_MMIO_STATUS = 0x070"

datatype dma = DmaNull | DmaOp nat | DmaData nat | DmaStatus nat

record virtq_desc =
  vd_addr :: dma
  vd_len :: uint
  vd_flags :: ushort
  vd_next :: ushort

record virtio_blk_req =
  rq_type :: uint
  rq_reserved :: uint
  rq_sector :: uint64

record kvirt = kexec +
  vdesc :: "nat \<Rightarrow> virtq_desc"
  avail_idx :: ushort
  avail_ring :: "nat \<Rightarrow> ushort"
  dev_used_idx :: ushort
  used_ring :: "nat \<Rightarrow> uint"
  vfree :: "nat \<Rightarrow> bool"
  used_idx :: ushort
  info_b :: "nat \<Rightarrow> nat option"
  info_status :: "nat \<Rightarrow> uchar"
  vops :: "nat \<Rightarrow> virtio_blk_req"
  vpages :: uint64
  vio_in :: "nat \<Rightarrow> uint \<Rightarrow> uint"
  vio_reads :: nat
  vio_out :: "(uint \<times> uint) list"

definition vio_read :: "virtio_mmio \<Rightarrow> 'a kvirt_scheme \<Rightarrow> uint \<times> 'a kvirt_scheme" where
  "vio_read r s = (vio_in s (vio_reads s) (mmio_offset r), s\<lparr>vio_reads := vio_reads s + 1\<rparr>)"

definition vio_write :: "virtio_mmio \<Rightarrow> uint \<Rightarrow> 'a kvirt_scheme \<Rightarrow> 'a kvirt_scheme" where
  "vio_write r v s = s\<lparr>vio_out := vio_out s @ [(mmio_offset r, v)]\<rparr>"

definition upd_desc :: "nat \<Rightarrow> (virtq_desc \<Rightarrow> virtq_desc) \<Rightarrow> 'a kvirt_scheme \<Rightarrow> 'a kvirt_scheme" where
  "upd_desc i f s = s\<lparr>vdesc := (vdesc s)(i := f (vdesc s i))\<rparr>"

section \<open>Initialisation\<close>

definition virtio_features :: "uint \<Rightarrow> uint" where
  "virtio_features f = f AND NOT (push_bit 5 1) AND NOT (push_bit 7 1) AND NOT (push_bit 11 1) AND NOT (push_bit 12 1)
     AND NOT (push_bit 27 1) AND NOT (push_bit 29 1) AND NOT (push_bit 28 1)"

definition null_desc :: virtq_desc where
  "null_desc = \<lparr>vd_addr = DmaNull, vd_len = 0, vd_flags = 0, vd_next = 0\<rparr>"

text \<open>The four reads that identify the device; a later one is made only if the earlier ones are as expected.\<close>

fun virtio_probe :: "(virtio_mmio \<times> uint) list \<Rightarrow> 'a kvirt_scheme \<Rightarrow> bool \<times> 'a kvirt_scheme" where
  "virtio_probe [] s = (True, s)"
| "virtio_probe ((r, v) # rs) s = (case vio_read r s of (x, s) \<Rightarrow> if x \<noteq> v then (False, s) else virtio_probe rs s)"

definition virtio_disk_init :: "'a kvirt_scheme \<Rightarrow> 'a kvirt_scheme option" where
  "virtio_disk_init s =
     (let s = initlock VdiskLock ''virtio_disk'' s;
          (ok, s) = virtio_probe [(VIRTIO_MMIO_MAGIC_VALUE, 0x74726976), (VIRTIO_MMIO_VERSION, 1),
            (VIRTIO_MMIO_DEVICE_ID, 2), (VIRTIO_MMIO_VENDOR_ID, 0x554d4551)] s
      in if \<not> ok then None
         else
           let s = vio_write VIRTIO_MMIO_STATUS 1 s;
               s = vio_write VIRTIO_MMIO_STATUS 3 s;
               (features, s) = vio_read VIRTIO_MMIO_DEVICE_FEATURES s;
               s = vio_write VIRTIO_MMIO_DRIVER_FEATURES (virtio_features features) s;
               s = vio_write VIRTIO_MMIO_STATUS 11 s;
               s = vio_write VIRTIO_MMIO_STATUS 15 s;
               s = vio_write VIRTIO_MMIO_GUEST_PAGE_SIZE (ucast PGSIZE) s;
               s = vio_write VIRTIO_MMIO_QUEUE_SEL 0 s;
               (mx, s) = vio_read VIRTIO_MMIO_QUEUE_NUM_MAX s
           in if mx = 0 then None
              else if mx < of_nat NUM then None
              else
                let s = vio_write VIRTIO_MMIO_QUEUE_NUM (of_nat NUM) s;
                    s = s\<lparr>vdesc := (\<lambda>_. null_desc), avail_idx := 0, avail_ring := (\<lambda>_. 0), dev_used_idx := 0,
                      used_ring := (\<lambda>_. 0)\<rparr>;
                    s = vio_write VIRTIO_MMIO_QUEUE_PFN (ucast (drop_bit PGSHIFT (vpages s))) s
                in Some (s\<lparr>vfree := (\<lambda>i. i < NUM \<or> vfree s i)\<rparr>))"

section \<open>Descriptors\<close>

definition alloc_desc :: "'a kvirt_scheme \<Rightarrow> nat option \<times> 'a kvirt_scheme" where
  "alloc_desc s = (case find (vfree s) [0..<NUM] of
     Some i \<Rightarrow> (Some i, s\<lparr>vfree := (vfree s)(i := False)\<rparr>)
   | None \<Rightarrow> (None, s))"

definition free_desc :: "nat \<Rightarrow> nat \<Rightarrow> 'a kvirt_scheme \<Rightarrow> 'a kvirt_scheme option" where
  "free_desc h i s =
     (if NUM \<le> i then None
      else if vfree s i then None
      else do {
        let s = upd_desc i (\<lambda>_. null_desc) s;
        let s = s\<lparr>vfree := (vfree s)(i := True)\<rparr>;
        wakeup h ChDiskFree s
      })"

partial_function (option) free_chain :: "nat \<Rightarrow> nat \<Rightarrow> 'a kvirt_scheme \<Rightarrow> 'a kvirt_scheme option" where
  "free_chain h i s =
     Option.bind (if NUM \<le> i then None else Some (vdesc s i)) (\<lambda>d.
       Option.bind (free_desc h i s) (\<lambda>t.
         if vd_flags d AND VRING_DESC_F_NEXT \<noteq> 0 then free_chain h (unat (vd_next d)) t else Some t))"

text \<open>The loop of \<open>alloc3_desc\<close>: \<open>idx\<close> are the descriptors so far, \<open>k\<close> are to come.\<close>

fun alloc3_loop :: "nat \<Rightarrow> nat \<Rightarrow> nat list \<Rightarrow> 'a kvirt_scheme \<Rightarrow> (nat list option \<times> 'a kvirt_scheme) option" where
  "alloc3_loop h 0 idx s = Some (Some idx, s)"
| "alloc3_loop h (Suc k) idx s =
     (case alloc_desc s of
        (Some i, s) \<Rightarrow> alloc3_loop h k (idx @ [i]) s
      | (None, s) \<Rightarrow> do {
          s \<leftarrow> for_each (free_desc h) idx s;
          Some (None, s)
        })"

definition alloc3_desc :: "nat \<Rightarrow> 'a kvirt_scheme \<Rightarrow> (nat list option \<times> 'a kvirt_scheme) option" where
  "alloc3_desc h s = alloc3_loop h 3 [] s"

section \<open>Requests\<close>

text \<open>Format the three descriptors and hand the chain to the device: \<open>virtio_disk_rw\<close> from the allocation to the notification.\<close>

definition virtio_submit :: "nat \<Rightarrow> bool \<Rightarrow> nat list \<Rightarrow> 'a kvirt_scheme \<Rightarrow> 'a kvirt_scheme" where
  "virtio_submit b write idx s =
     (let sector = ucast (blockno (bufs s b) * of_nat (BSIZE div 512));
          i0 = idx ! 0; i1 = idx ! 1; i2 = idx ! 2;
          s = s\<lparr>vops := (vops s)(i0 := \<lparr>rq_type = (if write then VIRTIO_BLK_T_OUT else VIRTIO_BLK_T_IN), rq_reserved = 0,
            rq_sector = sector\<rparr>)\<rparr>;
          s = upd_desc i0 (\<lambda>_. \<lparr>vd_addr = DmaOp i0, vd_len = 16, vd_flags = VRING_DESC_F_NEXT, vd_next = of_nat i1\<rparr>) s;
          s = upd_desc i1 (\<lambda>_. \<lparr>vd_addr = DmaData b, vd_len = of_nat BSIZE,
            vd_flags = (if write then 0 else VRING_DESC_F_WRITE) OR VRING_DESC_F_NEXT, vd_next = of_nat i2\<rparr>) s;
          s = s\<lparr>info_status := (info_status s)(i0 := 0xff)\<rparr>;
          s = upd_desc i2 (\<lambda>_. \<lparr>vd_addr = DmaStatus i0, vd_len = 1, vd_flags = VRING_DESC_F_WRITE, vd_next = 0\<rparr>) s;
          s = upd_buf b (\<lambda>x. x\<lparr>bdisk := True\<rparr>) s;
          s = s\<lparr>info_b := (info_b s)(i0 := Some b)\<rparr>;
          s = s\<lparr>avail_ring := (avail_ring s)(unat (avail_idx s) mod NUM := of_nat i0)\<rparr>;
          s = s\<lparr>avail_idx := avail_idx s + 1\<rparr>
      in vio_write VIRTIO_MMIO_QUEUE_NOTIFY 0 s)"

text \<open>
  \<open>virtio_disk_rw\<close> with the lock held, up to its sleep: \<open>Inl\<close> for want of descriptors (it starts again from here), \<open>Inr\<close> for the completion
  of the request whose chain starts at the given descriptor.
\<close>

definition virtio_disk_rw_from ::
  "nat \<Rightarrow> nat \<Rightarrow> bool \<Rightarrow> 'a kvirt_scheme \<Rightarrow> ((bool + nat \<times> bool) \<times> 'a kvirt_scheme) option" where
  "virtio_disk_rw_from h b write s = do {
     (r, s) \<leftarrow> alloc3_desc h s;
     (case r of
        None \<Rightarrow> do {
          (ie, s) \<leftarrow> sleep h ChDiskFree VdiskLock s;
          Some (Inl ie, s)
        }
      | Some idx \<Rightarrow> do {
          let s = virtio_submit b write idx s;
          (ie, s) \<leftarrow> sleep h (ChBuf b) VdiskLock s;
          Some (Inr (idx ! 0, ie), s)
        })
   }"

definition virtio_disk_rw ::
  "nat \<Rightarrow> nat \<Rightarrow> bool \<Rightarrow> 'a kvirt_scheme \<Rightarrow> ((bool + nat \<times> bool) \<times> 'a kvirt_scheme) option" where
  "virtio_disk_rw h b write s = do {
     s \<leftarrow> acquire h VdiskLock s;
     virtio_disk_rw_from h b write s
   }"

text \<open>After a wakeup, with the lock held again: \<open>Inl\<close> if the request is not done, else the return.\<close>

definition virtio_disk_rw_finish ::
  "nat \<Rightarrow> nat \<Rightarrow> nat \<Rightarrow> 'a kvirt_scheme \<Rightarrow> ((bool + unit) \<times> 'a kvirt_scheme) option" where
  "virtio_disk_rw_finish h b i0 s =
     (if bdisk (bufs s b)
      then do {
        (ie, s) \<leftarrow> sleep h (ChBuf b) VdiskLock s;
        Some (Inl ie, s)
      }
      else do {
        let s = s\<lparr>info_b := (info_b s)(i0 := None)\<rparr>;
        s \<leftarrow> free_chain h i0 s;
        s \<leftarrow> release h VdiskLock s;
        Some (Inr (), s)
      })"

section \<open>Completions\<close>

partial_function (option) virtio_intr_loop :: "nat \<Rightarrow> 'a kvirt_scheme \<Rightarrow> 'a kvirt_scheme option" where
  "virtio_intr_loop h s =
     (if used_idx s \<noteq> dev_used_idx s
      then
        let i = unat (used_ring s (unat (used_idx s) mod NUM))
        in if NUM \<le> i \<or> info_status s i \<noteq> 0 then None
           else Option.bind (info_b s i) (\<lambda>b.
             Option.bind (wakeup h (ChBuf b) (upd_buf b (\<lambda>x. x\<lparr>bdisk := False\<rparr>) s)) (\<lambda>s.
               virtio_intr_loop h (s\<lparr>used_idx := used_idx s + 1\<rparr>)))
      else Some s)"

definition virtio_disk_intr :: "nat \<Rightarrow> 'a kvirt_scheme \<Rightarrow> 'a kvirt_scheme option" where
  "virtio_disk_intr h s = do {
     s \<leftarrow> acquire h VdiskLock s;
     let (st, s) = vio_read VIRTIO_MMIO_INTERRUPT_STATUS s;
     let s = vio_write VIRTIO_MMIO_INTERRUPT_ACK (st AND 0x3) s;
     s \<leftarrow> virtio_intr_loop h s;
     release h VdiskLock s
   }"

end
