(* ===== verification/Trap.thy ===== *)
theory Trap
  imports Sysfile Virtio
begin

text \<open>
  Traps, \<^verbatim>\<open>kernel/trap.c\<close>, with the interrupt controller of \<^verbatim>\<open>kernel/plic.c\<close> and \<open>forkret\<close> of \<^verbatim>\<open>kernel/proc.c\<close>.  The supervisor registers of a hart
  are a record; \<open>sstatus\<close> is with the CPU.  A trap from user space ends with the return to user space, a sleep in a system
  call, the end of the process, or a \<open>yield\<close> after which \<open>usertrapret\<close> is still to come.
\<close>

section \<open>State\<close>

definition SSTATUS_SPP :: uint64 where "SSTATUS_SPP = push_bit 8 1"
definition SSTATUS_SPIE :: uint64 where "SSTATUS_SPIE = push_bit 5 1"
definition SATP_SV39 :: uint64 where "SATP_SV39 = push_bit 60 8"

definition MAKE_SATP :: "uint64 \<Rightarrow> uint64" where
  "MAKE_SATP pt = SATP_SV39 OR drop_bit 12 pt"

definition UART0_IRQ :: int where "UART0_IRQ = 10"
definition VIRTIO0_IRQ :: int where "VIRTIO0_IRQ = 1"

record csrs =
  stvec :: uint64
  sepc :: uint64
  scause :: uint64
  stval :: uint64
  satp :: uint64
  sip :: uint64

record ktrap = kvirt +
  csr :: "nat \<Rightarrow> csrs"
  plic_in :: "nat \<Rightarrow> uint"
  plic_reads :: nat
  plic_out :: "(uint64 \<times> uint) list"

definition upd_csr :: "nat \<Rightarrow> (csrs \<Rightarrow> csrs) \<Rightarrow> 'a ktrap_scheme \<Rightarrow> 'a ktrap_scheme" where
  "upd_csr h f s = s\<lparr>csr := (csr s)(h := f (csr s h))\<rparr>"

section \<open>The interrupt controller\<close>

definition PLIC_SENABLE :: "nat \<Rightarrow> uint64" where "PLIC_SENABLE h = PLIC + 0x2080 + of_nat h * 0x100"
definition PLIC_SPRIORITY :: "nat \<Rightarrow> uint64" where "PLIC_SPRIORITY h = PLIC + 0x201000 + of_nat h * 0x2000"
definition PLIC_SCLAIM :: "nat \<Rightarrow> uint64" where "PLIC_SCLAIM h = PLIC + 0x201004 + of_nat h * 0x2000"

definition plic_write :: "uint64 \<Rightarrow> uint \<Rightarrow> 'a ktrap_scheme \<Rightarrow> 'a ktrap_scheme" where
  "plic_write a v s = s\<lparr>plic_out := plic_out s @ [(a, v)]\<rparr>"

definition plicinit :: "'a ktrap_scheme \<Rightarrow> 'a ktrap_scheme" where
  "plicinit s = plic_write (PLIC + of_int (VIRTIO0_IRQ * 4)) 1 (plic_write (PLIC + of_int (UART0_IRQ * 4)) 1 s)"

definition plicinithart :: "nat \<Rightarrow> 'a ktrap_scheme \<Rightarrow> 'a ktrap_scheme" where
  "plicinithart h s =
     plic_write (PLIC_SPRIORITY h) 0
       (plic_write (PLIC_SENABLE h) (push_bit (nat UART0_IRQ) 1 OR push_bit (nat VIRTIO0_IRQ) 1) s)"

definition plic_claim :: "nat \<Rightarrow> 'a ktrap_scheme \<Rightarrow> int \<times> 'a ktrap_scheme" where
  "plic_claim h s = (sint (plic_in s (plic_reads s)), s\<lparr>plic_reads := plic_reads s + 1\<rparr>)"

definition plic_complete :: "nat \<Rightarrow> int \<Rightarrow> 'a ktrap_scheme \<Rightarrow> 'a ktrap_scheme" where
  "plic_complete h irq s = plic_write (PLIC_SCLAIM h) (of_int irq) s"

section \<open>Device interrupts\<close>

definition kvminithart :: "nat \<Rightarrow> 'a ktrap_scheme \<Rightarrow> 'a ktrap_scheme" where
  "kvminithart h s = upd_csr h (\<lambda>c. c\<lparr>satp := MAKE_SATP (kernel_pagetable s)\<rparr>) s"

definition trapinit :: "'a mach_scheme \<Rightarrow> 'a mach_scheme" where
  "trapinit s = initlock TicksLock ''time'' s"

definition trapinithart :: "nat \<Rightarrow> kenv \<Rightarrow> 'a ktrap_scheme \<Rightarrow> 'a ktrap_scheme" where
  "trapinithart h K s = upd_csr h (\<lambda>c. c\<lparr>stvec := kernelvec K\<rparr>) s"

definition clockintr :: "nat \<Rightarrow> 'a kproc_scheme \<Rightarrow> 'a kproc_scheme option" where
  "clockintr h s = do {
     s \<leftarrow> acquire h TicksLock s;
     let s = s\<lparr>ticks := ticks s + 1\<rparr>;
     s \<leftarrow> wakeup h ChTicks s;
     release h TicksLock s
   }"

definition fmt_irq :: bytes where
  "fmt_irq = map (of_nat \<circ> of_char) ''unexpected interrupt irq=%d'' @ [10, 0]"

definition devintr :: "nat \<Rightarrow> 'a ktrap_scheme \<Rightarrow> (int \<times> 'a ktrap_scheme) option" where
  "devintr h s =
     (let cause = scause (csr s h)
      in if cause AND 0x8000000000000000 \<noteq> 0 \<and> cause AND 0xff = 9
         then do {
           let (irq, s) = plic_claim h s;
           s \<leftarrow> (if irq = UART0_IRQ then uartintr h s
             else if irq = VIRTIO0_IRQ then virtio_disk_intr h s
             else if irq \<noteq> 0 then printf h fmt_irq [IntArg irq] s
             else Some s);
           Some (1, if irq \<noteq> 0 then plic_complete h irq s else s)
         }
         else if cause = 0x8000000000000001
         then do {
           s \<leftarrow> (if h = 0 then clockintr h s else Some s);
           Some (2, upd_csr h (\<lambda>c. c\<lparr>sip := sip c AND NOT 2\<rparr>) s)
         }
         else Some (0, s))"

section \<open>Traps from user space\<close>

definition w_sstatus :: "nat \<Rightarrow> uint64 \<Rightarrow> 'a mach_scheme \<Rightarrow> 'a mach_scheme" where
  "w_sstatus h v s = upd_cpu h (\<lambda>c. c\<lparr>sstatus := v\<rparr>) s"

text \<open>
  \<open>usertrapret\<close> up to the jump to \<open>userret\<close>: the address jumped to and its two arguments.
\<close>

definition usertrapret :: "nat \<Rightarrow> kenv \<Rightarrow> 'a ktrap_scheme \<Rightarrow> ((uint64 \<times> uint64 \<times> uint64) \<times> 'a ktrap_scheme) option" where
  "usertrapret h K s = do {
     (me, s) \<leftarrow> myproc h s;
     p \<leftarrow> me;
     let s = intr_off h s;
     let s = upd_csr h (\<lambda>c. c\<lparr>stvec := TRAMPOLINE + (uservec K - trampoline K)\<rparr>) s;
     let s = set_tf p TF_kernel_satp (satp (csr s h)) s;
     let s = set_tf p TF_kernel_sp (kstack (procs s p) + PGSIZE) s;
     let s = set_tf p TF_kernel_trap (usertrap_addr K) s;
     let s = set_tf p TF_kernel_hartid (of_nat h) s;
     let s = w_sstatus h (sstatus (cpus s h) AND NOT SSTATUS_SPP OR SSTATUS_SPIE) s;
     let s = upd_csr h (\<lambda>c. c\<lparr>sepc := get_tf p TF_epc s\<rparr>) s;
     Some ((TRAMPOLINE + (userret K - trampoline K), TRAPFRAME, MAKE_SATP (pagetable (procs s p))), s)
   }"

datatype trapret =
    ToUser uint64 uint64 uint64
  | Sleeping sysret
  | Ended bool
  | Yielded bool

definition fmt_scause :: bytes where
  "fmt_scause = map (of_nat \<circ> of_char) ''usertrap(): unexpected scause %p pid=%d'' @ [10, 0]"

definition fmt_sepc :: bytes where
  "fmt_sepc = map (of_nat \<circ> of_char) ''            sepc=%p stval=%p'' @ [10, 0]"

text \<open>The end of \<open>usertrap\<close>, from the last check of \<open>killed\<close>.\<close>

definition usertrap_tail :: "nat \<Rightarrow> kenv \<Rightarrow> nat \<Rightarrow> int \<Rightarrow> 'a ktrap_scheme \<Rightarrow> (trapret \<times> 'a ktrap_scheme) option" where
  "usertrap_tail h K p which_dev s =
     (if killed (procs s p)
      then do {
        (ie, s) \<leftarrow> exit h (-1) s;
        Some (Ended ie, s)
      }
      else if which_dev = 2
      then do {
        (ie, s) \<leftarrow> yield h s;
        Some (Yielded ie, s)
      }
      else do {
        ((fn, a, b), s) \<leftarrow> usertrapret h K s;
        Some (ToUser fn a b, s)
      })"

definition usertrap :: "nat \<Rightarrow> kenv \<Rightarrow> 'a ktrap_scheme \<Rightarrow> (trapret \<times> 'a ktrap_scheme) option" where
  "usertrap h K s =
     (if sstatus (cpus s h) AND SSTATUS_SPP \<noteq> 0 then None
      else do {
        let s = upd_csr h (\<lambda>c. c\<lparr>stvec := kernelvec K\<rparr>) s;
        (me, s) \<leftarrow> myproc h s;
        p \<leftarrow> me;
        let s = set_tf p TF_epc (sepc (csr s h)) s;
        (if scause (csr s h) = 8
         then
           if killed (procs s p)
           then do {
             (ie, s) \<leftarrow> exit h (-1) s;
             Some (Ended ie, s)
           }
           else do {
             let s = set_tf p TF_epc (get_tf p TF_epc s + 4) s;
             let s = intr_on h s;
             (r, s) \<leftarrow> syscall h K s;
             (case r of
                Ret _ \<Rightarrow> usertrap_tail h K p 0 s
              | Exited ie \<Rightarrow> Some (Ended ie, s)
              | _ \<Rightarrow> Some (Sleeping r, s))
           }
         else do {
           (which_dev, s) \<leftarrow> devintr h s;
           (if which_dev \<noteq> 0 then usertrap_tail h K p which_dev s
            else do {
              s \<leftarrow> printf h fmt_scause [PtrArg (scause (csr s h)), IntArg (pid (procs s p))] s;
              s \<leftarrow> printf h fmt_sepc [PtrArg (sepc (csr s h)), PtrArg (stval (csr s h))] s;
              let s = upd_proc p (\<lambda>q. q\<lparr>killed := True\<rparr>) s;
              usertrap_tail h K p 0 s
            })
         })
      })"

section \<open>Traps from the kernel\<close>

text \<open>
  \<open>kerneltrap\<close>: \<open>Inl\<close> at a \<open>yield\<close>, after which the saved registers are still to be restored by \<open>kerneltrap_restore\<close>.
\<close>

definition kerneltrap_restore :: "nat \<Rightarrow> uint64 \<Rightarrow> uint64 \<Rightarrow> 'a ktrap_scheme \<Rightarrow> 'a ktrap_scheme" where
  "kerneltrap_restore h epc status s = w_sstatus h status (upd_csr h (\<lambda>c. c\<lparr>sepc := epc\<rparr>) s)"

definition kerneltrap :: "nat \<Rightarrow> 'a ktrap_scheme \<Rightarrow> ((uint64 \<times> uint64 \<times> bool + unit) \<times> 'a ktrap_scheme) option" where
  "kerneltrap h s =
     (let epc = sepc (csr s h); status = sstatus (cpus s h)
      in if status AND SSTATUS_SPP = 0 then None
         else if intr_get h s then None
         else do {
           (which_dev, s) \<leftarrow> devintr h s;
           (if which_dev = 0 then None
            else do {
              (me, s) \<leftarrow> (if which_dev = 2 then myproc h s else Some (None, s));
              (case me of
                 None \<Rightarrow> Some (Inr (), kerneltrap_restore h epc status s)
               | Some _ \<Rightarrow> do {
                   (me, s) \<leftarrow> myproc h s;
                   p \<leftarrow> me;
                   (if pstate (procs s p) = RUNNING
                    then do {
                      (ie, s) \<leftarrow> yield h s;
                      Some (Inl (epc, status, ie), s)
                    }
                    else Some (Inr (), kerneltrap_restore h epc status s))
                 })
            })
         })"

section \<open>The first run of a process\<close>

definition forkret :: "nat \<Rightarrow> kenv \<Rightarrow> 'a ktrap_scheme \<Rightarrow> ((uint64 \<times> uint64 \<times> uint64) \<times> 'a ktrap_scheme) option" where
  "forkret h K s = do {
     (me, s) \<leftarrow> myproc h s;
     p \<leftarrow> me;
     s \<leftarrow> release h (ProcLock p) s;
     s \<leftarrow> (if forkret_first s then fsinit h ROOTDEV (s\<lparr>forkret_first := False\<rparr>) else Some s);
     usertrapret h K s
   }"

end
