(* ===== verification/Boot.thy ===== *)
theory Boot
  imports Trap
begin

text \<open>
  How the kernel starts: \<^verbatim>\<open>kernel/start.c\<close>, which a hart runs in machine mode, and \<^verbatim>\<open>kernel/main.c\<close>.  The machine-mode registers of the hart are a
  record of their own; the timer and the scratch area of the hart are in it as well.
\<close>

section \<open>Machine mode\<close>

definition MSTATUS_MPP_MASK :: uint64 where "MSTATUS_MPP_MASK = push_bit 11 3"
definition MSTATUS_MPP_S :: uint64 where "MSTATUS_MPP_S = push_bit 11 1"
definition MSTATUS_MIE :: uint64 where "MSTATUS_MIE = push_bit 3 1"
definition SIE_BITS :: uint64 where "SIE_BITS = push_bit 9 1 OR push_bit 5 1 OR push_bit 1 1"
definition MIE_MTIE :: uint64 where "MIE_MTIE = push_bit 7 1"

definition CLINT_MTIMECMP :: "nat \<Rightarrow> uint64" where "CLINT_MTIMECMP hartid = 0x2000000 + 0x4000 + 8 * of_nat hartid"

datatype mode = UserMode | SupervisorMode | MachineMode

record mhart =
  mmode :: mode
  mpc :: uint64
  mstatus :: uint64
  mepc :: uint64
  msatp :: uint64
  medeleg :: uint64
  mideleg :: uint64
  msie :: uint64
  pmpaddr0 :: uint64
  pmpcfg0 :: uint64
  mscratch :: uint64
  mtvec :: uint64
  mie :: uint64
  mtp :: uint64
  mtime :: uint64
  mtimecmp :: uint64
  timer_scratch :: "nat \<Rightarrow> uint64"

text \<open>\<open>timerinit\<close> on the hart \<open>id\<close>, with the addresses of \<open>timervec\<close> and of the hart's scratch area.\<close>

definition timerinit :: "nat \<Rightarrow> uint64 \<Rightarrow> uint64 \<Rightarrow> mhart \<Rightarrow> mhart" where
  "timerinit hartid timervec scratch m =
     (let interval = 1000000;
          m = m\<lparr>mtimecmp := mtime m + interval\<rparr>;
          m = m\<lparr>timer_scratch := (timer_scratch m)(3 := CLINT_MTIMECMP hartid, 4 := interval)\<rparr>;
          m = m\<lparr>mscratch := scratch\<rparr>;
          m = m\<lparr>mtvec := timervec\<rparr>;
          m = m\<lparr>mstatus := mstatus m OR MSTATUS_MIE\<rparr>
      in m\<lparr>mie := mie m OR MIE_MTIE\<rparr>)"

text \<open>
  The instruction \<^verbatim>\<open>mret\<close>: it jumps to \<open>mepc\<close> in the mode of the field MPP, which it clears, and moves MPIE to MIE.
\<close>

definition mret :: "mhart \<Rightarrow> mhart" where
  "mret m =
     (let mpp = drop_bit 11 (mstatus m) AND 3;
          mpie = bit (mstatus m) 7;
          st = set_bit 7 (if mpie then set_bit 3 (mstatus m) else unset_bit 3 (mstatus m)) AND NOT MSTATUS_MPP_MASK
      in m\<lparr>mmode := (if mpp = 0 then UserMode else if mpp = 1 then SupervisorMode else MachineMode), mpc := mepc m, mstatus := st\<rparr>)"

definition start :: "nat \<Rightarrow> uint64 \<Rightarrow> uint64 \<Rightarrow> uint64 \<Rightarrow> mhart \<Rightarrow> mhart" where
  "start hartid main timervec scratch m =
     (let x = mstatus m;
          x = x AND NOT MSTATUS_MPP_MASK;
          x = x OR MSTATUS_MPP_S;
          m = m\<lparr>mstatus := x\<rparr>;
          m = m\<lparr>mepc := main\<rparr>;
          m = m\<lparr>msatp := 0\<rparr>;
          m = m\<lparr>medeleg := 0xffff\<rparr>;
          m = m\<lparr>mideleg := 0xffff\<rparr>;
          m = m\<lparr>msie := msie m OR SIE_BITS\<rparr>;
          m = m\<lparr>pmpaddr0 := 0x3fffffffffffff\<rparr>;
          m = m\<lparr>pmpcfg0 := 0xf\<rparr>;
          m = timerinit hartid timervec scratch m;
          m = m\<lparr>mtp := of_nat hartid\<rparr>
      in mret m)"

lemma mpp_supervisor: "drop_bit 11 (((x :: uint64) AND NOT MSTATUS_MPP_MASK OR MSTATUS_MPP_S) OR MSTATUS_MIE) AND 3 = 1"
proof -
  have "drop_bit 11 ((x AND NOT MSTATUS_MPP_MASK OR MSTATUS_MPP_S) OR MSTATUS_MIE) AND (mask 2 :: uint64) = 1"
  proof (rule bit_word_eqI)
    fix n :: nat
    show "bit (drop_bit 11 ((x AND NOT MSTATUS_MPP_MASK OR MSTATUS_MPP_S) OR MSTATUS_MIE) AND mask 2) n = bit (1 :: uint64) n"
    proof (cases "n < 2")
      case True
      then have "n = 0 \<or> n = 1" by auto
      then show ?thesis by (auto simp: MSTATUS_MPP_MASK_def MSTATUS_MPP_S_def MSTATUS_MIE_def bit_simps)
    next
      case False
      then show ?thesis by (simp add: bit_and_iff bit_mask_iff bit_1_iff)
    qed
  qed
  then show ?thesis by (simp add: mask_eq_exp_minus_1)
qed

text \<open>
  \<open>start\<close> leaves machine mode: the hart goes on at \<open>main\<close> in supervisor mode, without paging, with its number in \<open>tp\<close>, all
  traps delegated and its timer set.
\<close>

theorem start_enters_main:
  "let m' = start hartid main timervec scratch m
   in mmode m' = SupervisorMode \<and> mpc m' = main \<and> msatp m' = 0 \<and> mtp m' = of_nat hartid \<and> medeleg m' = 0xffff \<and> mideleg m' = 0xffff \<and>
     mtimecmp m' = mtime m + 1000000 \<and> mtvec m' = timervec \<and> mscratch m' = scratch \<and> timer_scratch m' 3 = CLINT_MTIMECMP hartid \<and>
     timer_scratch m' 4 = 1000000 \<and> bit (mie m') 7"
  using mpp_supervisor [of "mstatus m"]
  by (simp add: start_def timerinit_def mret_def Let_def MIE_MTIE_def bit_simps)

section \<open>main\<close>

definition fmt_line :: "string \<Rightarrow> bytes" where
  "fmt_line str = map of_char str @ [10, 0]"

text \<open>
  \<open>main\<close> up to the call of \<open>scheduler\<close>, with the variable \<open>started\<close>.  The other harts wait for the first one.
\<close>

definition kmain :: "nat \<Rightarrow> kenv \<Rightarrow> bool \<Rightarrow> 'a ktrap_scheme \<Rightarrow> (bool \<times> 'a ktrap_scheme) option" where
  "kmain h K started s =
     (if h = 0 then do {
        let s = consoleinit s;
        let s = printfinit s;
        s \<leftarrow> printf h (fmt_line '''') [] s;
        s \<leftarrow> printf h (fmt_line ''xv6 kernel is booting'') [] s;
        s \<leftarrow> printf h (fmt_line '''') [] s;
        s \<leftarrow> kinit h s;
        s \<leftarrow> kvminit h K s;
        let s = kvminithart h s;
        let s = procinit s;
        let s = trapinit s;
        let s = trapinithart h K s;
        let s = plicinit s;
        let s = plicinithart h s;
        let s = binit s;
        let s = iinit s;
        let s = fileinit s;
        s \<leftarrow> virtio_disk_init s;
        s \<leftarrow> userinit h K s;
        Some (True, s)
      }
      else if \<not> started then None
      else do {
        s \<leftarrow> printf h (fmt_line ''hart %d starting'') [IntArg (int h)] s;
        let s = kvminithart h s;
        let s = trapinithart h K s;
        let s = plicinithart h s;
        Some (started, s)
      })"

end
