(* ===== verification/Ring.thy ===== *)
theory Ring
  imports Prelude
begin

text \<open>
  Ring buffers with free-running indices, as the pipes, the console and the uart have them: a buffer of \<open>N\<close> elements, an index \<open>r\<close> of the next
  element to take and an index \<open>w\<close> of the next free place, both unsigned words that wrap around, used modulo \<open>N\<close>.  \<open>N\<close> divides the range of
  the word, so wrapping around does not disturb the order.
\<close>

definition ring :: "nat \<Rightarrow> 'b list \<Rightarrow> 'a::len word \<Rightarrow> 'a word \<Rightarrow> 'b list" where
  "ring N buf r w = map (\<lambda>k. buf ! (unat (r + of_nat k) mod N)) [0..<unat (w - r)]"

definition ring_ok :: "nat \<Rightarrow> 'b list \<Rightarrow> 'a::len word \<Rightarrow> 'a word \<Rightarrow> bool" where
  "ring_ok N buf r w \<longleftrightarrow> length buf = N \<and> unat (w - r) \<le> N"

definition ring_fits :: "nat \<Rightarrow> 'a::len itself \<Rightarrow> bool" where
  "ring_fits N T \<longleftrightarrow> 0 < N \<and> N < 2 ^ LENGTH('a) \<and> N dvd 2 ^ LENGTH('a)"

lemma length_ring [simp]: "length (ring N buf r w) = unat (w - r)"
  by (simp add: ring_def)

lemma ring_empty [simp]: "ring N buf r r = []"
  by (simp add: ring_def)

lemma ring_Nil: "ring N buf r w = [] \<longleftrightarrow> r = w"
proof -
  have "ring N buf r w = [] \<longleftrightarrow> unat (w - r) = 0" by (metis length_ring length_0_conv)
  also have "\<dots> \<longleftrightarrow> r = w" by (auto simp: unat_eq_0)
  finally show ?thesis .
qed

lemma ring_index:
  fixes r :: "'a::len word"
  assumes "ring_fits N TYPE('a)"
  shows "unat (r + of_nat k) mod N = (unat r + k) mod N"
proof -
  have d: "N dvd 2 ^ LENGTH('a)" using assms by (simp add: ring_fits_def)
  have "unat (r + of_nat k) = (unat r + k) mod 2 ^ LENGTH('a)"
    by (simp add: unat_word_ariths unsigned_of_nat take_bit_eq_mod mod_simps)
  then show ?thesis using d by (simp add: mod_mod_cancel)
qed

lemma ring_index_inj:
  assumes "i < N" "j < N" "(a + i) mod N = (a + j) mod N"
  shows "i = (j :: nat)"
  using assms
proof (induction i j rule: linorder_wlog)
  case (le i j)
  then have "(a + j - (a + i)) mod N = 0" by (metis add_le_cancel_left mod_eq_dvd_iff_nat dvd_imp_mod_0)
  then have "(j - i) mod N = 0" by simp
  moreover have "j - i < N" using le by simp
  ultimately show ?case using le(1) by simp
qed simp

lemma ring_full:
  fixes r w :: "'a::len word"
  assumes "ring_fits N TYPE('a)"
  shows "w = r + of_nat N \<longleftrightarrow> unat (w - r) = N"
proof -
  have n: "unat (of_nat N :: 'a word) = N" using assms by (simp add: ring_fits_def unsigned_of_nat take_bit_nat_eq_self)
  have "w = r + of_nat N \<longleftrightarrow> w - r = of_nat N" by (auto simp: algebra_simps)
  also have "\<dots> \<longleftrightarrow> unat (w - r) = N" using n by (metis word_unat_eq_iff)
  finally show ?thesis .
qed

lemma ring_push:
  fixes r w :: "'a::len word"
  assumes f: "ring_fits N TYPE('a)" and ok: "ring_ok N buf r w" and room: "unat (w - r) < N"
  shows "ring N (buf[unat w mod N := c]) r (w + 1) = ring N buf r w @ [c]"
    "ring_ok N (buf[unat w mod N := c]) r (w + 1)"
proof -
  let ?n = "unat (w - r)"
  have lt: "?n + 1 < 2 ^ LENGTH('a)" using room f by (simp add: ring_fits_def)
  have "unat (w - r + 1) = Suc ?n" using lt by (simp only: unat_word_ariths) simp
  then have n1: "unat (w + 1 - r) = Suc ?n" by (simp add: algebra_simps)
  have w: "unat w mod N = (unat r + ?n) mod N"
    using ring_index [OF f, of r ?n] by simp
  have other: "(unat r + k) mod N \<noteq> unat w mod N" if "k < ?n" for k
    using ring_index_inj [of k N ?n "unat r"] that room w by auto
  have len: "unat w mod N < length buf" using ok f by (simp add: ring_ok_def ring_fits_def)
  show "ring N (buf[unat w mod N := c]) r (w + 1) = ring N buf r w @ [c]"
    unfolding ring_def n1 using other [symmetric] len by (simp add: ring_index [OF f] w [symmetric])
  show "ring_ok N (buf[unat w mod N := c]) r (w + 1)" using ok room n1 by (simp add: ring_ok_def)
qed

lemma ring_pop:
  fixes r w :: "'a::len word"
  assumes f: "ring_fits N TYPE('a)" and ok: "ring_ok N buf r w" and ne: "r \<noteq> w"
  shows "ring N buf r w = buf ! (unat r mod N) # ring N buf (r + 1) w" "ring_ok N buf (r + 1) w"
proof -
  have pos: "0 < unat (w - r)" using ne by (simp add: unat_gt_0)
  have "unat (w - (r + 1)) = unat (w - r - 1)" by (simp add: algebra_simps)
  also have "\<dots> = unat (w - r) - 1" using pos by (intro unat_minus_one) (auto simp: ne)
  finally have n: "unat (w - r) = Suc (unat (w - (r + 1)))" using pos by simp
  have "[0..<Suc m] = 0 # map Suc [0..<m]" for m by (simp add: map_Suc_upt upt_conv_Cons)
  then show "ring N buf r w = buf ! (unat r mod N) # ring N buf (r + 1) w"
    unfolding ring_def n by (simp del: upt_Suc add: add.assoc)
  show "ring_ok N buf (r + 1) w" using ok n by (simp add: ring_ok_def)
qed

end
