(* ===== verification/Critical.thy ===== *)
theory Critical
  imports Sleeplock
begin

text \<open>
  Critical sections: what \<open>wakeup\<close>, \<open>sleep\<close> and \<open>release\<close> do to a state inside the critical section of a spin lock that was entered from a quiet
  state.
\<close>

definition inside :: "nat \<Rightarrow> lock_id \<Rightarrow> 'a kproc_scheme \<Rightarrow> 'a kproc_scheme \<Rightarrow> bool" where
  "inside h l s t \<longleftrightarrow> cpus t = cpus (taken h l s) \<and> locks t = locks (taken h l s)"

lemma inside_acquire:
  "quiet h s \<Longrightarrow> acquire h l s = Some (taken h l s)" "inside h l s (taken h l s)"
  by (simp_all add: acquire_free quiet_def inside_def)

lemma inside_cpu:
  assumes "quiet h s" "inside h l s t"
  shows "hart_ok h t" "cproc (cpus t h) = cproc (cpus s h)" "settle h t = t" "0 < noff (cpus t h)"
  using assms by (auto simp: inside_def quiet_def taken_def cpu_ok_def upd_cpu_id)

lemma inside_free:
  assumes "quiet h s" "inside h l s t" "k \<noteq> l"
  shows "lock_free k t"
  using assms by (auto simp: inside_def quiet_def taken_def lock_free_def)

lemma inside_myproc:
  "quiet h s \<Longrightarrow> inside h l s t \<Longrightarrow> myproc h t = Some (cproc (cpus s h), t)"
  by (simp add: myproc_eq inside_cpu)

lemma inside_wakeup:
  assumes "quiet h s" "inside h l s t" "\<forall>p. l \<noteq> ProcLock p"
  shows "wakeup h ch t = Some (t\<lparr>procs := woken_procs ch (cproc (cpus s h)) {..<NPROC} (procs t)\<rparr>)"
proof -
  have "proc_locks_free (cproc (cpus t h)) t"
    using assms(3) inside_free [OF assms(1,2)] unfolding proc_locks_free_def by metis
  then show ?thesis using wakeup_eq [where h = h and s = t and ch = ch] inside_cpu [OF assms(1,2)] by simp
qed

lemma inside_release:
  assumes "quiet h s" "inside h l s t"
  shows "release h l t = Some (t\<lparr>cpus := (cpus s)(h := settled (cpus s h)), locks := locks s\<rparr>)"
  using critical_release [of l s h t] assms by (simp add: quiet_def inside_def)

text \<open>Leaving the section, perhaps after a wakeup.\<close>

definition leave :: "nat \<Rightarrow> 'a kproc_scheme \<Rightarrow> 'a kproc_scheme \<Rightarrow> 'a kproc_scheme" where
  "leave h s t = t\<lparr>cpus := (cpus s)(h := settled (cpus s h)), locks := locks s\<rparr>"

lemma leave_fields [simp]:
  "procs (leave h s t) = procs t" "locks (leave h s t) = locks s" "nextpid (leave h s t) = nextpid t"
  "initproc (leave h s t) = initproc t" "ticks (leave h s t) = ticks t"
  by (simp_all add: leave_def)

lemma leave_quiet: "quiet h s \<Longrightarrow> quiet h (leave h s t)"
  by (simp add: leave_def quiet_def lock_free_def)

lemma inside_leave: "quiet h s \<Longrightarrow> inside h l s t \<Longrightarrow> release h l t = Some (leave h s t)"
  by (simp add: inside_release leave_def)

lemma inside_sleep:
  assumes "quiet h s" "inside h l s t" "cproc (cpus s h) = Some p" "l \<noteq> ProcLock p" "noff (cpus s h) = 0"
  shows "\<exists>ie u. sleep h ch l t = Some (ie, u) \<and>
    u = t\<lparr>locks := (locks t)(l := (locks t l)\<lparr>lkcpu := None, locked := 0\<rparr>,
        ProcLock p := (locks t (ProcLock p))\<lparr>locked := 1, lkcpu := Some h\<rparr>),
      procs := (procs t)(p := (procs t p)\<lparr>chan := Some ch, pstate := SLEEPING\<rparr>)\<rparr>"
proof -
  have held: "holding h l t" and one: "noff (cpus t h) = 1"
    using assms by (auto simp: inside_def taken_def holding_def)
  have me: "cproc (cpus t h) = Some p" using assms(3) inside_cpu(2) [OF assms(1,2)] by simp
  show ?thesis
    using sleep_eq [OF inside_cpu(1) [OF assms(1,2)] me inside_free [OF assms(1,2) assms(4) [symmetric]] held one] by blast
qed

end
