(* ===== verification/Pipe.thy ===== *)
theory Pipe
  imports File Ring Critical
begin

text \<open>
  Pipes are FIFO queues of at most \<open>PIPESIZE\<close> bytes: \<open>pipewrite\<close> appends the bytes of the user's buffer, \<open>piperead\<close> takes bytes from the
  front into the user's buffer, and both wake up the other side.
\<close>

section \<open>The queue in a pipe\<close>

definition pipe_bytes :: "pipe \<Rightarrow> bytes" where
  "pipe_bytes p = ring PIPESIZE (pdata p) (nread p) (nwrite p)"

definition pipe_ok :: "pipe \<Rightarrow> bool" where
  "pipe_ok p \<longleftrightarrow> ring_ok PIPESIZE (pdata p) (nread p) (nwrite p)"

lemma pipe_fits: "ring_fits PIPESIZE TYPE(32)"
  by (simp add: ring_fits_def PIPESIZE_def)

lemma pipe_ok_length: "pipe_ok p \<Longrightarrow> length (pipe_bytes p) \<le> PIPESIZE"
  by (simp add: pipe_ok_def ring_ok_def pipe_bytes_def)

lemma pipe_full: "nwrite p = nread p + of_nat PIPESIZE \<longleftrightarrow> length (pipe_bytes p) = PIPESIZE"
  by (simp add: ring_full [OF pipe_fits] pipe_bytes_def)

lemma pipe_empty: "nread p = nwrite p \<longleftrightarrow> pipe_bytes p = []"
  by (simp add: pipe_bytes_def ring_Nil)

definition pipe_put :: "uchar \<Rightarrow> pipe \<Rightarrow> pipe" where
  "pipe_put c p = p\<lparr>pdata := (pdata p)[unat (nwrite p) mod PIPESIZE := c], nwrite := nwrite p + 1\<rparr>"

lemma pipe_put:
  assumes "pipe_ok p" "length (pipe_bytes p) < PIPESIZE"
  shows "pipe_bytes (pipe_put c p) = pipe_bytes p @ [c]" "pipe_ok (pipe_put c p)"
    "readopen (pipe_put c p) = readopen p" "writeopen (pipe_put c p) = writeopen p"
  using ring_push [OF pipe_fits, of "pdata p" "nread p" "nwrite p" c] assms
  by (simp_all add: pipe_ok_def pipe_bytes_def pipe_put_def)

definition pipe_puts :: "bytes \<Rightarrow> pipe \<Rightarrow> pipe" where
  "pipe_puts bs p = fold pipe_put bs p"

lemma pipe_puts:
  assumes "pipe_ok p" "length (pipe_bytes p) + length bs \<le> PIPESIZE"
  shows "pipe_bytes (pipe_puts bs p) = pipe_bytes p @ bs \<and> pipe_ok (pipe_puts bs p) \<and>
    readopen (pipe_puts bs p) = readopen p \<and> writeopen (pipe_puts bs p) = writeopen p"
  using assms
proof (induction bs arbitrary: p)
  case (Cons c bs)
  then show ?case using Cons.IH [of "pipe_put c p"] pipe_put [of p c] by (simp add: pipe_puts_def)
qed (simp add: pipe_puts_def)

definition pipe_get :: "pipe \<Rightarrow> pipe" where
  "pipe_get p = p\<lparr>nread := nread p + 1\<rparr>"

lemma pipe_get:
  assumes "pipe_ok p" "nread p \<noteq> nwrite p"
  shows "pipe_bytes p = pdata p ! (unat (nread p) mod PIPESIZE) # pipe_bytes (pipe_get p)" "pipe_ok (pipe_get p)"
    "readopen (pipe_get p) = readopen p" "writeopen (pipe_get p) = writeopen p"
  using ring_pop [OF pipe_fits, of "pdata p" "nread p" "nwrite p"] assms
  by (simp_all add: pipe_ok_def pipe_bytes_def pipe_get_def)

lemma upd_pipe_simps [simp]:
  "pipes (upd_pipe p g s) = (pipes s)(p := g (pipes s p))" "pmem (upd_pipe p g s) = pmem s" "procs (upd_pipe p g s) = procs s"
  "cpus (upd_pipe p g s) = cpus s" "locks (upd_pipe p g s) = locks s"
  by (simp_all add: upd_pipe_def)

lemma upd_pipe_twice [simp]: "upd_pipe p f (upd_pipe p g s) = upd_pipe p (\<lambda>x. f (g x)) s"
  by (simp add: upd_pipe_def)

section \<open>Writing\<close>

lemma copyin_one:
  assumes "pt_ok (pmem s) 2 pt" "ubyte (pmem s) pt va = Some b"
  shows "copyin h pt va 1 s = Some (0, [b])"
proof -
  obtain r bs where r: "copyin h pt va 1 s = Some (r, bs)"
    "r = 0 \<and> bs = map (\<lambda>k. the (ubyte (pmem s) pt (va + of_nat k))) [0..<1] \<or> r = -1 \<and> (\<exists>k<1. ubyte (pmem s) pt (va + of_nat k) = None)"
    using copyin_spec [OF assms(1), of h va 1] by auto
  then show ?thesis using assms(2) by auto
qed

text \<open>As long as there is room, the loop of \<open>pipewrite\<close> appends.\<close>

lemma pipewrite_prefix:
  assumes "pt_ok (pmem t) 2 (pagetable (procs t pr))" "readopen (pipes t pi)" "\<not> killed (procs t pr)"
    and "pipe_ok (pipes t pi)" "length (pipe_bytes (pipes t pi)) + length bs \<le> PIPESIZE"
    and "\<forall>j<length bs. ubyte (pmem t) (pagetable (procs t pr)) (addr + of_nat (i + j)) = Some (bs ! j)"
  shows "pipewrite_from h pr pi addr (length bs + k) i t =
    pipewrite_from h pr pi addr k (i + length bs) (upd_pipe pi (pipe_puts bs) t)"
  using assms
proof (induction bs arbitrary: i t)
  case Nil
  then show ?case by (simp add: pipe_puts_def upd_pipe_def)
next
  case (Cons b bs)
  let ?t = "upd_pipe pi (pipe_put b) t"
  have room: "length (pipe_bytes (pipes t pi)) < PIPESIZE" using Cons.prems(5) by simp
  then have full: "nwrite (pipes t pi) \<noteq> nread (pipes t pi) + of_nat PIPESIZE" by (simp add: pipe_full)
  note put = pipe_put [OF Cons.prems(4) room, of b]
  have "ubyte (pmem t) (pagetable (procs t pr)) (addr + of_nat i) = Some b"
    using Cons.prems(6) [rule_format, of 0] by simp
  from copyin_one [OF Cons.prems(1) this]
  have one: "copyin h (pagetable (procs t pr)) (addr + of_nat i) 1 t = Some (0, [b])" .
  have "pipewrite_from h pr pi addr (length (b # bs) + k) i t = pipewrite_from h pr pi addr (length bs + k) (Suc i) ?t"
    using Cons.prems(2,3) full one by (simp add: pipe_put_def [abs_def])
  also have "\<dots> = pipewrite_from h pr pi addr k (Suc i + length bs) (upd_pipe pi (pipe_puts bs) ?t)"
  proof (rule Cons.IH)
    show "\<forall>j<length bs. ubyte (pmem ?t) (pagetable (procs ?t pr)) (addr + of_nat (Suc i + j)) = Some (bs ! j)"
    proof (intro allI impI)
      fix j assume "j < length bs"
      then show "ubyte (pmem ?t) (pagetable (procs ?t pr)) (addr + of_nat (Suc i + j)) = Some (bs ! j)"
        using Cons.prems(6) [rule_format, of "Suc j"] by simp
    qed
  qed (use Cons.prems put in simp_all)
  finally show ?case by (simp add: pipe_puts_def [abs_def])
qed


lemma taken_file [simp]:
  "pipes (taken h l s) = pipes s" "pmem (taken h l s) = pmem s" "ftab (taken h l s) = ftab s"
  by (simp_all add: taken_def upd_lock_def upd_cpu_def)

lemma leave_file [simp]:
  "pipes (leave h s t) = pipes t" "pmem (leave h s t) = pmem t" "ftab (leave h s t) = ftab t"
  by (simp_all add: leave_def)

lemma settle_file [simp]:
  "pipes (settle h s) = pipes s" "pmem (settle h s) = pmem s" "ftab (settle h s) = ftab s"
  by (simp_all add: upd_cpu_def)

text \<open>Every other process that sleeps on \<open>ch\<close> is runnable, and no other process is changed.\<close>

definition sleepers_woken :: "chan \<Rightarrow> nat \<Rightarrow> (nat \<Rightarrow> proc) \<Rightarrow> (nat \<Rightarrow> proc) \<Rightarrow> bool" where
  "sleepers_woken ch me P Q \<longleftrightarrow> (\<forall>p. p \<noteq> me \<longrightarrow> Q p = (if p < NPROC then woken ch (P p) else P p))"

lemma pipewrite_ends:
  assumes q: "quiet h s" and t: "inside h (PipeLock pi) s t" and me: "cproc (cpus s h) = Some pr"
  shows "\<exists>u. pipewrite_from h pr pi addr 0 i t = Some (Inr (int i), u) \<and> quiet h u \<and> pipes u = pipes t \<and> pmem u = pmem t \<and>
    sleepers_woken (ChPipeRead pi) pr (procs t) (procs u)"
proof -
  let ?w = "t\<lparr>procs := woken_procs (ChPipeRead pi) (cproc (cpus s h)) {..<NPROC} (procs t)\<rparr>"
  have w: "wakeup h (ChPipeRead pi) t = Some ?w" by (rule inside_wakeup [OF q t]) simp
  have "inside h (PipeLock pi) s ?w" using t by (simp add: inside_def)
  from inside_leave [OF q this] w
  have "pipewrite_from h pr pi addr 0 i t = Some (Inr (int i), leave h s ?w)" by simp
  then show ?thesis using leave_quiet [OF q] me by (auto simp: sleepers_woken_def woken_procs_def)
qed

lemma pipewrite_sleeps:
  assumes q: "quiet h s" and t: "inside h (PipeLock pi) s t" and me: "cproc (cpus s h) = Some pr" and n: "noff (cpus s h) = 0"
    and "readopen (pipes t pi)" "\<not> killed (procs t pr)" "length (pipe_bytes (pipes t pi)) = PIPESIZE"
  shows "\<exists>ie u. pipewrite_from h pr pi addr (Suc k) i t = Some (Inl (PipeWriteWait addr (Suc k) i ie), u) \<and>
    lock_free (PipeLock pi) u \<and> pipes u = pipes t \<and> pmem u = pmem t \<and> pstate (procs u pr) = SLEEPING \<and>
    chan (procs u pr) = Some (ChPipeWrite pi) \<and> sleepers_woken (ChPipeRead pi) pr (procs t) (procs u)"
proof -
  let ?w = "t\<lparr>procs := woken_procs (ChPipeRead pi) (cproc (cpus s h)) {..<NPROC} (procs t)\<rparr>"
  have w: "wakeup h (ChPipeRead pi) t = Some ?w" by (rule inside_wakeup [OF q t]) simp
  have i: "inside h (PipeLock pi) s ?w" using t by (simp add: inside_def)
  obtain ie u where u: "sleep h (ChPipeWrite pi) (PipeLock pi) ?w = Some (ie, u)"
    "u = ?w\<lparr>locks := (locks ?w)(PipeLock pi := (locks ?w (PipeLock pi))\<lparr>lkcpu := None, locked := 0\<rparr>,
        ProcLock pr := (locks ?w (ProcLock pr))\<lparr>locked := 1, lkcpu := Some h\<rparr>),
      procs := (procs ?w)(pr := (procs ?w pr)\<lparr>chan := Some (ChPipeWrite pi), pstate := SLEEPING\<rparr>)\<rparr>"
    using inside_sleep [OF q i me _ n, of "ChPipeWrite pi"] by auto
  have "pipewrite_from h pr pi addr (Suc k) i t = Some (Inl (PipeWriteWait addr (Suc k) i ie), u)"
    using assms(5-7) w u(1) by (simp add: pipe_full)
  then show ?thesis using me unfolding u(2) by (auto simp: sleepers_woken_def woken_procs_def lock_free_def)
qed



section \<open>Reading\<close>

text \<open>User memory with the bytes \<open>bs\<close> put at \<open>va\<close>.\<close>

definition user_put :: "uint64 \<Rightarrow> bytes \<Rightarrow> (uint64 \<Rightarrow> uchar option) \<Rightarrow> uint64 \<Rightarrow> uchar option" where
  "user_put va bs f x = (if unat (x - va) < length bs then Some (bs ! unat (x - va)) else f x)"

lemma user_put_Nil [simp]: "user_put va [] f = f"
  by (simp add: user_put_def fun_eq_iff)

lemma user_put_Cons:
  assumes "length bs < 2 ^ 64 - 1"
  shows "user_put va (b # bs) f = user_put (va + 1) bs (user_put va [b] f)"
proof
  fix x
  let ?d = "x - va"
  have s: "x - (va + 1) = ?d - 1" by simp
  show "user_put va (b # bs) f x = user_put (va + 1) bs (user_put va [b] f) x"
  proof (cases "?d = 0")
    case True
    then have "unat (x - (va + 1)) = 2 ^ 64 - 1" unfolding s True by (simp add: unsigned_minus_1_eq_mask mask_eq_exp_minus_1)
    then show ?thesis using True assms by (simp add: user_put_def)
  next
    case False
    then have d: "unat ?d = Suc (unat (x - (va + 1)))" unfolding s using unat_minus_one [of ?d] unat_gt_0 [of ?d] by simp
    then show ?thesis by (simp add: user_put_def)
  qed
qed

lemma copyout_one:
  assumes "uvm_ok (pmem s) pt" "ubyte (pmem s) pt va \<noteq> None"
  shows "\<exists>m'. copyout h pt va [c] 1 s = Some (0, s\<lparr>pmem := m'\<rparr>) \<and> uvm_ok m' pt \<and> ubyte m' pt = user_put va [c] (ubyte (pmem s) pt)"
proof -
  obtain r m' where r: "copyout h pt va [c] 1 s = Some (r, s\<lparr>pmem := m'\<rparr>)" "uvm_ok m' pt"
    "r = 0 \<and> (\<forall>x. ubyte m' pt x = (if unat (x - va) < unat (1 :: uint64) then Some ([c] ! unat (x - va)) else ubyte (pmem s) pt x)) \<or>
     r = -1 \<and> (\<exists>k<unat (1 :: uint64). ubyte (pmem s) pt (va + of_nat k) = None)"
    using copyout_spec [OF assms(1), of 1 "[c]" h va] by auto
  have "\<not> (\<exists>k<unat (1 :: uint64). ubyte (pmem s) pt (va + of_nat k) = None)" using assms(2) by simp
  with r(3) have "r = 0" "ubyte m' pt = user_put va [c] (ubyte (pmem s) pt)" by (auto simp: user_put_def fun_eq_iff)
  with r(1,2) show ?thesis by blast
qed

lemma piperead_copy_spec:
  assumes "uvm_ok (pmem t) (pagetable (procs t pr))" "pipe_ok (pipes t pi)"
    and "m = min n (length (pipe_bytes (pipes t pi)))"
    and "\<forall>j<m. ubyte (pmem t) (pagetable (procs t pr)) (addr + of_nat (i + j)) \<noteq> None"
  shows "\<exists>m' p'. piperead_copy h pr pi addr n i t = Some (int (i + m), t\<lparr>pmem := m', pipes := (pipes t)(pi := p')\<rparr>) \<and>
    uvm_ok m' (pagetable (procs t pr)) \<and>
    ubyte m' (pagetable (procs t pr)) = user_put (addr + of_nat i) (take m (pipe_bytes (pipes t pi))) (ubyte (pmem t) (pagetable (procs t pr))) \<and>
    pipe_bytes p' = drop m (pipe_bytes (pipes t pi)) \<and> pipe_ok p'"
  using assms
proof (induction n arbitrary: i m t)
  case 0
  then show ?case by (intro exI [of _ "pmem t"] exI [of _ "pipes t pi"]) simp
next
  case (Suc n)
  let ?p = "pipes t pi" and ?pt = "pagetable (procs t pr)"
  show ?case
  proof (cases "nread ?p = nwrite ?p")
    case True
    then have "pipe_bytes ?p = []" by (simp add: pipe_empty)
    then show ?thesis using Suc.prems True by (intro exI [of _ "pmem t"] exI [of _ ?p]) simp
  next
    case False
    define c where "c = pdata ?p ! (unat (nread ?p) mod PIPESIZE)"
    define cs where "cs = pipe_bytes (pipe_get ?p)"
    note get = pipe_get [OF Suc.prems(2) False, folded c_def cs_def]
    define j where "j = min n (length cs)"
    have m: "m = Suc j" using Suc.prems(3) get(1) by (simp add: j_def)
    let ?t = "upd_pipe pi pipe_get t"
    have "ubyte (pmem ?t) ?pt (addr + of_nat i) \<noteq> None" using Suc.prems(4) [rule_format, of 0] by (simp add: m)
    from copyout_one [OF _ this, of h c] Suc.prems(1) obtain m1
      where m1: "copyout h ?pt (addr + of_nat i) [c] 1 ?t = Some (0, ?t\<lparr>pmem := m1\<rparr>)" "uvm_ok m1 ?pt"
        "ubyte m1 ?pt = user_put (addr + of_nat i) [c] (ubyte (pmem t) ?pt)" by auto
    let ?u = "?t\<lparr>pmem := m1\<rparr>"
    have step: "piperead_copy h pr pi addr (Suc n) i t = piperead_copy h pr pi addr n (Suc i) ?u"
      using False m1(1) by (simp add: c_def pipe_get_def [abs_def])
    have "\<exists>m' p'. piperead_copy h pr pi addr n (Suc i) ?u = Some (int (Suc i + j), ?u\<lparr>pmem := m', pipes := (pipes ?u)(pi := p')\<rparr>) \<and>
      uvm_ok m' (pagetable (procs ?u pr)) \<and>
      ubyte m' (pagetable (procs ?u pr)) = user_put (addr + of_nat (Suc i)) (take j (pipe_bytes (pipes ?u pi))) (ubyte (pmem ?u) (pagetable (procs ?u pr))) \<and>
      pipe_bytes p' = drop j (pipe_bytes (pipes ?u pi)) \<and> pipe_ok p'"
    proof (rule Suc.IH)
      show "\<forall>k<j. ubyte (pmem ?u) (pagetable (procs ?u pr)) (addr + of_nat (Suc i + k)) \<noteq> None"
        using Suc.prems(4) [rule_format, of "Suc k" for k] by (simp add: m m1(3) user_put_def)
    qed (use m1(2) get(2) in \<open>simp_all add: j_def cs_def\<close>)
    then obtain m' p' where r: "piperead_copy h pr pi addr n (Suc i) ?u = Some (int (Suc i + j), ?u\<lparr>pmem := m', pipes := (pipes ?u)(pi := p')\<rparr>)"
      "uvm_ok m' ?pt" "ubyte m' ?pt = user_put (addr + of_nat (Suc i)) (take j cs) (ubyte m1 ?pt)"
      "pipe_bytes p' = drop j cs" "pipe_ok p'" by (auto simp: cs_def)
    have "length (take j cs) < 2 ^ 64 - 1" using pipe_ok_length [OF get(2)] by (simp add: cs_def PIPESIZE_def)
    from user_put_Cons [OF this, of "addr + of_nat i" c]
    have "ubyte m' ?pt = user_put (addr + of_nat i) (take m (pipe_bytes ?p)) (ubyte (pmem t) ?pt)"
      using r(3) m1(3) get(1) by (simp add: m algebra_simps)
    moreover have "?u\<lparr>pmem := m', pipes := (pipes ?u)(pi := p')\<rparr> = t\<lparr>pmem := m', pipes := (pipes t)(pi := p')\<rparr>"
      by (simp add: upd_pipe_def)
    ultimately show ?thesis
      using step r(1,2,4,5) get(1) by (intro exI [of _ m'] exI [of _ p']) (simp add: m fun_upd_def del: piperead_copy.simps)
  qed
qed

lemma piperead_sleeps:
  assumes q: "quiet h s" and t: "inside h (PipeLock pi) s t" and me: "cproc (cpus s h) = Some pr" and n: "noff (cpus s h) = 0"
  shows "\<exists>ie u. sleep h (ChPipeRead pi) (PipeLock pi) t = Some (ie, u) \<and> lock_free (PipeLock pi) u \<and> pipes u = pipes t \<and> pmem u = pmem t \<and>
    pstate (procs u pr) = SLEEPING \<and> chan (procs u pr) = Some (ChPipeRead pi)"
proof -
  obtain ie u where "sleep h (ChPipeRead pi) (PipeLock pi) t = Some (ie, u)"
    "u = t\<lparr>locks := (locks t)(PipeLock pi := (locks t (PipeLock pi))\<lparr>lkcpu := None, locked := 0\<rparr>,
        ProcLock pr := (locks t (ProcLock pr))\<lparr>locked := 1, lkcpu := Some h\<rparr>),
      procs := (procs t)(pr := (procs t pr)\<lparr>chan := Some (ChPipeRead pi), pstate := SLEEPING\<rparr>)\<rparr>"
    using inside_sleep [OF q t me _ n, of "ChPipeRead pi"] by auto
  then show ?thesis by (auto simp: lock_free_def)
qed

lemma piperead_start:
  assumes "quiet h s" "cproc (cpus s h) = Some pr"
  shows "piperead h pi addr n s = piperead_from h pr pi addr (nat n) (taken h (PipeLock pi) (settle h s))"
  using assms inside_acquire(1) [OF quiet_settle [OF assms(1)]] by (simp add: piperead_def myproc_eq quiet_def)

text \<open>
  C12: a \<open>piperead\<close> of \<open>n\<close> bytes into writable user memory takes the first \<open>n\<close> bytes of a non-empty pipe, or all if there are
  fewer, puts them in order into the user's buffer and nowhere else, returns how many they are, wakes up every sleeping writer and
  leaves all locks free.  On an empty pipe it returns 0 if the write side is closed, and otherwise goes to sleep on the pipe
  with the pipe unchanged and its lock released, unless the process has been killed: then it returns -1.
\<close>

theorem piperead_correct:
  fixes s :: "'a kfile_scheme"
  assumes "quiet h s" "cproc (cpus s h) = Some pr" "noff (cpus s h) = 0"
    and "uvm_ok (pmem s) (pagetable (procs s pr))" "pipe_ok (pipes s pi)"
    and "\<forall>j<n. ubyte (pmem s) (pagetable (procs s pr)) (addr + of_nat j) \<noteq> None"
  defines "c \<equiv> pipe_bytes (pipes s pi)"
  shows "\<exists>r t. piperead h pi addr (int n) s = Some (r, t) \<and>
    (if c = [] \<and> writeopen (pipes s pi)
     then pmem t = pmem s \<and> pipes t = pipes s \<and>
       (if killed (procs s pr) then r = Inr (-1) \<and> quiet h t
        else (\<exists>ie. r = Inl (PipeReadWait addr n ie)) \<and> lock_free (PipeLock pi) t \<and>
          pstate (procs t pr) = SLEEPING \<and> chan (procs t pr) = Some (ChPipeRead pi))
     else r = Inr (int (min n (length c))) \<and> quiet h t \<and> pipe_ok (pipes t pi) \<and> pipe_bytes (pipes t pi) = drop n c \<and>
       (\<forall>q. q \<noteq> pi \<longrightarrow> pipes t q = pipes s q) \<and>
       ubyte (pmem t) (pagetable (procs s pr)) = user_put addr (take n c) (ubyte (pmem s) (pagetable (procs s pr))) \<and>
       sleepers_woken (ChPipeWrite pi) pr (procs s) (procs t))"
proof -
  let ?s = "settle h s"
  let ?t = "taken h (PipeLock pi) ?s"
  have q: "quiet h ?s" by (rule quiet_settle [OF assms(1)])
  have me: "cproc (cpus ?s h) = Some pr" and nf: "noff (cpus ?s h) = 0" using assms(2,3) by simp_all
  have i: "inside h (PipeLock pi) ?s ?t" by (rule inside_acquire(2))
  note start = piperead_start [OF assms(1,2), of pi addr "int n", unfolded nat_int]
  have em: "nread (pipes s pi) = nwrite (pipes s pi) \<longleftrightarrow> c = []" by (simp add: pipe_empty c_def)
  show ?thesis
  proof (cases "c = [] \<and> writeopen (pipes s pi)")
    case True
    obtain ie u where u: "sleep h (ChPipeRead pi) (PipeLock pi) ?t = Some (ie, u)" "lock_free (PipeLock pi) u"
      "pipes u = pipes ?t" "pmem u = pmem ?t" "pstate (procs u pr) = SLEEPING" "chan (procs u pr) = Some (ChPipeRead pi)"
      using piperead_sleeps [OF q i me nf] by blast
    show ?thesis
      using True em start u inside_leave [OF q i] leave_quiet [OF q, of ?t] by (cases "killed (procs s pr)") (simp_all add: piperead_from_def)
  next
    case False
    define m where "m = min n (length c)"
    have "\<exists>m' p'. piperead_copy h pr pi addr n 0 ?t = Some (int (0 + m), ?t\<lparr>pmem := m', pipes := (pipes ?t)(pi := p')\<rparr>) \<and>
      uvm_ok m' (pagetable (procs ?t pr)) \<and>
      ubyte m' (pagetable (procs ?t pr)) = user_put (addr + of_nat 0) (take m (pipe_bytes (pipes ?t pi))) (ubyte (pmem ?t) (pagetable (procs ?t pr))) \<and>
      pipe_bytes p' = drop m (pipe_bytes (pipes ?t pi)) \<and> pipe_ok p'"
      by (rule piperead_copy_spec) (use assms(4-6) in \<open>simp_all add: m_def c_def\<close>)
    then obtain m' p' where cp: "piperead_copy h pr pi addr n 0 ?t = Some (int m, ?t\<lparr>pmem := m', pipes := (pipes s)(pi := p')\<rparr>)"
      "ubyte m' (pagetable (procs s pr)) = user_put addr (take m c) (ubyte (pmem s) (pagetable (procs s pr)))"
      "pipe_bytes p' = drop m c" "pipe_ok p'" by (auto simp: c_def)
    let ?u = "?t\<lparr>pmem := m', pipes := (pipes s)(pi := p')\<rparr>"
    let ?w = "?u\<lparr>procs := woken_procs (ChPipeWrite pi) (cproc (cpus ?s h)) {..<NPROC} (procs ?u)\<rparr>"
    have iu: "inside h (PipeLock pi) ?s ?u" and iw: "inside h (PipeLock pi) ?s ?w" using i by (simp_all add: inside_def)
    have w: "wakeup h (ChPipeWrite pi) ?u = Some ?w" by (rule inside_wakeup [OF q iu]) simp
    have "piperead h pi addr (int n) s = Some (Inr (int m), leave h ?s ?w)"
      using False em start cp(1) w inside_leave [OF q iw] by (auto simp: piperead_from_def)
    moreover have "take m c = take n c" "drop m c = drop n c" by (auto simp: m_def min_def)
    moreover have "sleepers_woken (ChPipeWrite pi) pr (procs s) (procs (leave h ?s ?w))"
      using me by (simp add: sleepers_woken_def woken_procs_def)
    ultimately show ?thesis using False cp leave_quiet [OF q] by (auto simp: m_def)
  qed
qed

theorem piperead_correct_witness:
  "\<exists>r t. piperead 0 0x87FFD000 0x10 5
      (upd_pipe 0x87FFD000 (\<lambda>p. p\<lparr>pdata := (pdata p)[510 := 1, 511 := 2, 0 := 3], nwrite := 1\<rparr>) example_kfile) = Some (r, t) \<and>
    r = Inr 3 \<and> quiet 0 t \<and> pipe_bytes (pipes t 0x87FFD000) = [] \<and>
    ubyte (pmem t) 0x87FFF000 = user_put 0x10 [1, 2, 3] (ubyte mapped_mem 0x87FFF000)"
proof -
  let ?s = "upd_pipe 0x87FFD000 (\<lambda>p. p\<lparr>pdata := (pdata p)[510 := 1, 511 := 2, 0 := 3], nwrite := 1\<rparr>) example_kfile"
  have m: "pmem ?s = mapped_mem" "pagetable (procs ?s 0) = 0x87FFF000"
    "killed (procs ?s 0) = False" "cproc (cpus ?s 0) = Some 0" "noff (cpus ?s 0) = 0"
    by (simp_all add: example_kfile_def unused_proc_def idle_cpu_def)
  have q: "quiet 0 ?s" using example_quiet [of 0] by (simp add: quiet_def lock_free_def)
  have "[0..<3] = [0, 1, 2 :: nat]" by (simp add: upt_rec)
  then have p: "pipe_ok (pipes ?s 0x87FFD000)" "pipe_bytes (pipes ?s 0x87FFD000) = [1, 2, 3]"
    by (simp_all add: example_kfile_def pipe_ok_def ring_ok_def pipe_bytes_def ring_def PIPESIZE_def)
  have ok: "uvm_ok (pmem ?s) (pagetable (procs ?s 0))" unfolding m by (rule mapped_uvm_ok)
  have "\<forall>j<5. ubyte (pmem ?s) (pagetable (procs ?s 0)) (0x10 + of_nat j) \<noteq> None"
  proof (intro allI impI)
    fix j :: nat assume "j < 5"
    then show "ubyte (pmem ?s) (pagetable (procs ?s 0)) (0x10 + of_nat j) \<noteq> None"
      using example_mapped [of "16 + j"] unfolding m by simp
  qed
  from piperead_correct [OF q m(4,5) ok p(1) this] show ?thesis by (auto simp: p(2) m simp del: upd_pipe_simps)
qed

end
