(* ===== verification/FileRefs.thy ===== *)
theory FileRefs
  imports Sysfile Pipe
begin

text \<open>
  Reference counts of open files: the count of a file is the number of descriptors, in all processes, that refer to it.
\<close>

definition refs :: "nat \<Rightarrow> (nat \<Rightarrow> proc) \<Rightarrow> nat" where
  "refs f P = (\<Sum>p<NPROC. count_list (ofile (P p)) (Some f))"

definition files_ok :: "'a kfile_scheme \<Rightarrow> bool" where
  "files_ok s \<longleftrightarrow> (\<forall>p<NPROC. length (ofile (procs s p)) = NOFILE \<and> (\<forall>f. Some f \<in> set (ofile (procs s p)) \<longrightarrow> f < NFILE)) \<and>
     (\<forall>f<NFILE. fref (ftab s f) = int (refs f (procs s)))"

lemma count_list_update:
  "k < length xs \<Longrightarrow> int (count_list (xs[k := y]) x) =
     int (count_list xs x) - (if xs ! k = x then 1 else 0) + (if y = x then 1 else 0)"
proof (induction xs arbitrary: k)
  case (Cons z xs)
  show ?case
  proof (cases k)
    case (Suc j)
    then show ?thesis using Cons.IH [of j] Cons.prems by (auto split: if_splits)
  qed (use Cons.prems in simp)
qed simp

lemma refs_update:
  assumes "p < NPROC" "k < length (ofile (P p))"
  shows "int (refs f (P(p := (P p)\<lparr>ofile := (ofile (P p))[k := y]\<rparr>))) =
    int (refs f P) - (if ofile (P p) ! k = Some f then 1 else 0) + (if y = Some f then 1 else 0)"
proof -
  let ?Q = "P(p := (P p)\<lparr>ofile := (ofile (P p))[k := y]\<rparr>)"
  have split: "(\<Sum>q<NPROC. g q) = g p + (\<Sum>q\<in>{..<NPROC} - {p}. g q)" for g :: "nat \<Rightarrow> nat"
    using assms(1) by (simp add: sum.remove)
  have "(\<Sum>q\<in>{..<NPROC} - {p}. count_list (ofile (?Q q)) (Some f)) = (\<Sum>q\<in>{..<NPROC} - {p}. count_list (ofile (P q)) (Some f))"
    by (rule sum.cong) auto
  then show ?thesis using count_list_update [OF assms(2), of y "Some f"] unfolding refs_def split by simp
qed

lemma refs_pos:
  assumes "p < NPROC" "k < length (ofile (P p))" "ofile (P p) ! k = Some f"
  shows "0 < refs f P"
proof -
  have "Some f \<in> set (ofile (P p))" using assms(2,3) nth_mem by metis
  then have "0 < count_list (ofile (P p)) (Some f)" using count_list_0_iff by fastforce
  then show ?thesis using assms(1) unfolding refs_def by (intro sum_pos2 [of _ p]) auto
qed

lemma find_first:
  "find P [0..<n] = Some k \<longleftrightarrow> k < n \<and> P k \<and> (\<forall>j<k. \<not> P j)"
  by (auto simp: find_Some_iff)

lemma files_ok_cong: "procs t = procs s \<Longrightarrow> ftab t = ftab s \<Longrightarrow> files_ok t = files_ok s"
  by (simp add: files_ok_def)

text \<open>A critical section of \<open>ftable.lock\<close>.\<close>

lemma upd_file_simps [simp]:
  "ftab (upd_file f g s) = (ftab s)(f := g (ftab s f))" "procs (upd_file f g s) = procs s" "pmem (upd_file f g s) = pmem s"
  "cpus (upd_file f g s) = cpus s" "locks (upd_file f g s) = locks s" "pipes (upd_file f g s) = pipes s"
  by (simp_all add: upd_file_def)

lemma filedup_eq:
  assumes "hart_ok h s" "lock_free FtableLock s" "1 \<le> fref (ftab s f)"
  shows "filedup h f s = Some (f, upd_file f (\<lambda>x. x\<lparr>fref := fref x + 1\<rparr>) (settle h s))"
proof -
  let ?t = "upd_file f (\<lambda>x. x\<lparr>fref := fref x + 1\<rparr>) (taken h FtableLock s)"
  have "release h FtableLock ?t = Some (?t\<lparr>cpus := (cpus s)(h := settled (cpus s h)), locks := locks s\<rparr>)"
    by (rule critical_release [OF assms(2,1)]) simp_all
  moreover have "?t\<lparr>cpus := (cpus s)(h := settled (cpus s h)), locks := locks s\<rparr> = upd_file f (\<lambda>x. x\<lparr>fref := fref x + 1\<rparr>) (settle h s)"
    by (simp add: upd_file_def taken_def upd_lock_def upd_cpu_def)
  ultimately show ?thesis using assms by (simp add: filedup_def acquire_free)
qed

text \<open>One more reference to a file that has one.\<close>

lemma files_ok_share:
  assumes ok: "files_ok s" and p: "p < NPROC" "k < NOFILE" "ofile (procs s p) ! k = None" and f: "f < NFILE"
    and t: "procs t = (procs s)(p := (procs s p)\<lparr>ofile := (ofile (procs s p))[k := Some f]\<rparr>)"
      "ftab t = (ftab s)(f := (ftab s f)\<lparr>fref := fref (ftab s f) + 1\<rparr>)"
  shows "files_ok t"
proof -
  have len: "k < length (ofile (procs s p))" using ok p by (simp add: files_ok_def)
  have "int (refs g (procs t)) = int (refs g (procs s)) + (if f = g then 1 else 0)" for g
    using refs_update [OF p(1), of k "procs s" g "Some f"] len p(3) by (simp add: t(1))
  moreover have "\<forall>q<NPROC. length (ofile (procs t q)) = NOFILE \<and> (\<forall>g. Some g \<in> set (ofile (procs t q)) \<longrightarrow> g < NFILE)"
    using ok f by (auto simp: t(1) files_ok_def dest: set_update_subset_insert [THEN subsetD])
  ultimately show ?thesis using ok by (auto simp: files_ok_def t(2))
qed

section \<open>dup\<close>

lemma settle_twice [simp]: "upd_cpu h settled (upd_cpu h settled s) = upd_cpu h settled s"
  by (simp add: upd_cpu_twice)

lemma get_tf_settle [simp]: "get_tf p r (settle h s) = get_tf p r s"
  by (simp add: get_tf_def upd_cpu_def)

text \<open>The descriptor that a system call gets as its argument \<open>n\<close>.\<close>

definition arg_fd :: "nat \<Rightarrow> tfreg \<Rightarrow> 'a kfile_scheme \<Rightarrow> (nat \<times> nat) option" where
  "arg_fd p r s =
     (let fd = sint (ucast (get_tf p r s) :: uint)
      in if fd < 0 \<or> int NOFILE \<le> fd then None
         else case ofile (procs s p) ! nat fd of None \<Rightarrow> None | Some f \<Rightarrow> Some (nat fd, f))"

lemma argfd_eq:
  assumes "quiet h s" "cproc (cpus s h) = Some p" "arg_reg n = Some r"
  shows "argfd h n s = Some (arg_fd p r s, settle h s)"
  using assms by (simp add: argfd_def argint_def argraw_def myproc_eq quiet_def arg_fd_def Let_def del: arg_reg.simps)

lemma arg_fd_bounds:
  assumes "arg_fd p r s = Some (fd, f)" "files_ok s" "p < NPROC"
  shows "fd < NOFILE" "ofile (procs s p) ! fd = Some f" "f < NFILE" "1 \<le> fref (ftab s f)"
proof -
  show fd: "fd < NOFILE" "ofile (procs s p) ! fd = Some f"
    using assms(1) by (auto simp: arg_fd_def Let_def split: if_splits option.splits)
  then have l: "fd < length (ofile (procs s p))" using assms(2,3) by (simp add: files_ok_def)
  then have "Some f \<in> set (ofile (procs s p))" using fd(2) nth_mem by metis
  then show f: "f < NFILE" using assms(2,3) by (simp add: files_ok_def)
  show "1 \<le> fref (ftab s f)" using refs_pos [of p fd "procs s" f] l fd(2) assms(2,3) f by (simp add: files_ok_def)
qed

lemma fdalloc_eq:
  assumes "quiet h s" "cproc (cpus s h) = Some p"
  shows "fdalloc h f s = Some (case find (\<lambda>fd. ofile (procs s p) ! fd = None) [0..<NOFILE] of
     Some fd \<Rightarrow> (Some fd, upd_proc p (\<lambda>q. q\<lparr>ofile := (ofile q)[fd := Some f]\<rparr>) (settle h s))
   | None \<Rightarrow> (None, settle h s))"
  using assms by (simp add: fdalloc_def myproc_eq quiet_def split: option.split)

lemma upd_proc_file [simp]:
  "ftab (upd_proc p g s) = ftab s" "pmem (upd_proc p g s) = pmem s" "pipes (upd_proc p g s) = pipes s"
  by (simp_all add: upd_proc_def)

text \<open>
  C18: with reference counts in order, \<open>sys_dup\<close> returns, and keeps them in order.  Given an open descriptor of a file and
  room for another, it returns the lowest free descriptor and makes it refer to the same file, whose count goes up by one; in every other
  case it returns -1 and changes no descriptor and no file.
\<close>

theorem sys_dup_correct:
  fixes s :: "'a kfile_scheme"
  assumes "quiet h s" "cproc (cpus s h) = Some p" "p < NPROC" "files_ok s"
  shows "\<exists>r t. sys_dup h s = Some (r, t) \<and> files_ok t \<and> quiet h t \<and> pmem t = pmem s \<and>
    (case (arg_fd p TF_a0 s, find (\<lambda>fd. ofile (procs s p) ! fd = None) [0..<NOFILE]) of
       (Some (_, f), Some fd) \<Rightarrow> r = Ret (of_nat fd) \<and>
         procs t = (procs s)(p := (procs s p)\<lparr>ofile := (ofile (procs s p))[fd := Some f]\<rparr>) \<and>
         ftab t = (ftab s)(f := (ftab s f)\<lparr>fref := fref (ftab s f) + 1\<rparr>)
     | _ \<Rightarrow> r = Ret (-1) \<and> procs t = procs s \<and> ftab t = ftab s)"
proof -
  let ?s = "settle h s"
  have q: "quiet h ?s" by (rule quiet_settle [OF assms(1)])
  have me: "cproc (cpus ?s h) = Some p" using assms(2) by simp
  have ok: "files_ok ?s" using assms(4) files_ok_cong [of ?s s] by simp
  have a: "argfd h 0 s = Some (arg_fd p TF_a0 s, ?s)" using argfd_eq [OF assms(1,2)] by simp
  note b = fdalloc_eq [OF q me, simplified]
  show ?thesis
  proof (cases "arg_fd p TF_a0 s")
    case None
    then show ?thesis using a q ok by (simp add: sys_dup_def ret_int_def)
  next
    case (Some x)
    then obtain fd f where x: "arg_fd p TF_a0 s = Some (fd, f)" by (cases x) auto
    note f = arg_fd_bounds [OF x assms(4,3)]
    show ?thesis
    proof (cases "find (\<lambda>fd. ofile (procs s p) ! fd = None) [0..<NOFILE]")
      case None
      then show ?thesis using a b x q ok by (simp add: sys_dup_def ret_int_def)
    next
      case (Some k)
      let ?t = "upd_proc p (\<lambda>q. q\<lparr>ofile := (ofile q)[k := Some f]\<rparr>) ?s"
      let ?u = "upd_file f (\<lambda>x. x\<lparr>fref := fref x + 1\<rparr>) ?t"
      have k: "k < NOFILE" "ofile (procs s p) ! k = None" using Some by (auto simp: find_first)
      have "quiet h ?t" using q by (simp add: quiet_def lock_free_def)
      moreover have "settle h ?t = ?t" by (simp add: upd_cpu_id)
      ultimately have "filedup h f ?t = Some (f, ?u)" using filedup_eq [where h = h and s = ?t and f = f] f(4) by (simp add: quiet_def)
      then have "sys_dup h s = Some (Ret (of_nat k), ?u)" using a b x Some by (simp add: sys_dup_def ret_int_def)
      moreover have "files_ok ?u" by (rule files_ok_share [OF assms(4,3) k f(3)]) simp_all
      moreover have "quiet h ?u" using q by (simp add: quiet_def lock_free_def)
      ultimately show ?thesis using x Some by simp
    qed
  qed
qed

lemma example_files_ok: "files_ok example_kfile"
proof -
  have o: "ofile (procs example_kfile p) = replicate NOFILE None" for p by (simp add: example_kfile_def)
  have c: "count_list (replicate n None) (Some f) = 0" for n and f :: nat by (induction n) simp_all
  show ?thesis using o c by (simp add: files_ok_def refs_def) (simp add: example_kfile_def free_file_def)
qed

theorem sys_dup_correct_witness:
  "\<exists>s :: kfile. arg_fd 0 TF_a0 s = Some (0, 3) \<and> (\<exists>t. sys_dup 0 s = Some (Ret 1, t) \<and> files_ok t \<and> quiet 0 t)"
proof -
  let ?s = "upd_proc 0 (\<lambda>q. q\<lparr>ofile := (ofile q)[0 := Some 3]\<rparr>) (upd_file 3 (\<lambda>x. x\<lparr>fref := fref x + 1\<rparr>)
    (example_kfile\<lparr>pmem := (\<lambda>a. 0)\<rparr>))"
  have o: "ofile (procs example_kfile 0) = replicate NOFILE None" by (simp add: example_kfile_def)
  have q: "quiet 0 ?s" using example_quiet [of 0] by (simp add: quiet_def lock_free_def)
  have me: "cproc (cpus ?s 0) = Some 0" by (simp add: example_kfile_def)
  have ok: "files_ok ?s"
    by (rule files_ok_share [OF example_files_ok, of 0 0 3]) (simp_all add: o NPROC_def NOFILE_def NFILE_def)
  have "load64 (\<lambda>a. 0) x = 0" for x by (simp add: load64_def numeral_eq_Suc)
  then have a: "arg_fd 0 TF_a0 ?s = Some (0, 3)" by (simp add: arg_fd_def get_tf_def o NOFILE_def)
  have f: "find (\<lambda>fd. ofile (procs ?s 0) ! fd = None) [0..<NOFILE] = Some 1" by (auto simp: find_first o NOFILE_def)
  from sys_dup_correct [OF q me _ ok, unfolded a f] obtain t
    where "sys_dup 0 ?s = Some (Ret (of_nat 1), t)" "files_ok t" "quiet 0 t" by (auto simp: NPROC_def)
  with a show ?thesis by (intro exI [of _ ?s]) simp
qed

section \<open>fork\<close>

text \<open>The files of a child after the first \<open>k\<close> descriptors.\<close>

definition inherited :: "nat \<Rightarrow> nat \<Rightarrow> nat \<Rightarrow> nat \<Rightarrow> 'a kfile_scheme \<Rightarrow> 'a kfile_scheme \<Rightarrow> bool" where
  "inherited h p np k s t \<longleftrightarrow> hart_ok h t \<and> locks t = locks s \<and> files_ok t \<and>
     procs t = (procs s)(np := (procs s np)\<lparr>ofile := take k (ofile (procs s p)) @ replicate (NOFILE - k) None\<rparr>)"

lemma fork_files_step:
  assumes I: "inherited h p np k s t" and k: "k < NOFILE" and p: "p < NPROC" "np < NPROC" "p \<noteq> np"
    and free: "lock_free FtableLock s" and len: "length (ofile (procs s p)) = NOFILE"
  shows "\<exists>u. (case ofile (procs t p) ! k of None \<Rightarrow> Some t
      | Some f \<Rightarrow> Option.bind (filedup h f t) (\<lambda>(f, s). Some (upd_proc np (\<lambda>q. q\<lparr>ofile := (ofile q)[k := Some f]\<rparr>) s))) = Some u \<and>
    inherited h p np (Suc k) s u"
proof -
  let ?F = "ofile (procs s p)"
  have pt: "procs t p = procs s p" and ont: "ofile (procs t np) = take k ?F @ replicate (NOFILE - k) None"
    using I p(3) by (simp_all add: inherited_def)
  have rep: "replicate (NOFILE - k) None = None # replicate (NOFILE - Suc k) None" using k by (simp add: Suc_diff_Suc flip: replicate_Suc)
  have upd: "(take k ?F @ replicate (NOFILE - k) None)[k := x] = take k ?F @ x # replicate (NOFILE - Suc k) None" for x
    using k len by (simp add: rep list_update_append)
  have take: "take (Suc k) ?F = take k ?F @ [?F ! k]" using k len by (simp add: take_Suc_conv_app_nth)
  show ?thesis
  proof (cases "?F ! k")
    case None
    then show ?thesis using I pt by (simp add: inherited_def take rep)
  next
    case (Some f)
    let ?t = "upd_file f (\<lambda>x. x\<lparr>fref := fref x + 1\<rparr>) (settle h t)"
    let ?u = "upd_proc np (\<lambda>q. q\<lparr>ofile := (ofile q)[k := Some f]\<rparr>) ?t"
    have ok: "files_ok t" "hart_ok h t" "lock_free FtableLock t" using I free lock_free_cong [of t s] by (simp_all add: inherited_def)
    have kl: "k < length (ofile (procs t p))" using pt len k by simp
    have "Some f \<in> set (ofile (procs t p))" using Some kl pt nth_mem by metis
    then have f: "f < NFILE" using ok(1) p(1) by (simp add: files_ok_def)
    have "1 \<le> fref (ftab t f)" using refs_pos [of p k "procs t" f] p(1) kl Some pt ok(1) f by (simp add: files_ok_def)
    then have dup: "filedup h f t = Some (f, ?t)" using filedup_eq [OF ok(2,3)] by blast
    have "ofile (procs t np) ! k = None" using k len by (simp add: ont nth_append)
    then have "files_ok ?u" by (intro files_ok_share [OF ok(1) p(2) k _ f]) simp_all
    then have "inherited h p np (Suc k) s ?u" using I ok(2) by (simp add: inherited_def ont upd take Some)
    then show ?thesis using dup Some pt by auto
  qed
qed

text \<open>
  C19: the loop of \<open>fork\<close> over the open files returns, leaves the child with exactly the descriptors of the parent, and keeps
  the reference counts in order: every file counts its new descriptors.
\<close>

theorem fork_shares_files:
  fixes s :: "'a kfile_scheme"
  assumes "hart_ok h s" "lock_free FtableLock s" "files_ok s" "p < NPROC" "np < NPROC" "p \<noteq> np"
    and "ofile (procs s np) = replicate NOFILE None"
  shows "\<exists>t. fork_files h p np s = Some t \<and> files_ok t \<and>
    procs t = (procs s)(np := (procs s np)\<lparr>ofile := ofile (procs s p)\<rparr>) \<and>
    (\<forall>f<NFILE. fref (ftab t f) = fref (ftab s f) + int (count_list (ofile (procs s p)) (Some f)))"
proof -
  have len: "length (ofile (procs s p)) = NOFILE" using assms(3,4) by (simp add: files_ok_def)
  have "\<exists>t. fork_files h p np s = Some t \<and> inherited h p np (length [0..<NOFILE]) s t"
    unfolding fork_files_def
  proof (rule for_each_inv)
    show "inherited h p np 0 s s" using assms by (simp add: inherited_def) (simp flip: assms(7))
    show "\<exists>u. (case ofile (procs t p) ! ([0..<NOFILE] ! k) of None \<Rightarrow> Some t
        | Some f \<Rightarrow> filedup h f t \<bind> (\<lambda>(f, s). Some (upd_proc np (\<lambda>q. q\<lparr>ofile := (ofile q)[[0..<NOFILE] ! k := Some f]\<rparr>) s))) = Some u \<and>
      inherited h p np (Suc k) s u" if "k < length [0..<NOFILE]" "inherited h p np k s t" for k t
    proof -
      have k: "[0..<NOFILE] ! k = k" "k < NOFILE" using that(1) by simp_all
      show ?thesis unfolding k(1) by (rule fork_files_step [OF that(2) k(2) assms(4,5,6,2) len])
    qed
  qed
  then obtain t where t: "fork_files h p np s = Some t" "files_ok t"
    "procs t = (procs s)(np := (procs s np)\<lparr>ofile := ofile (procs s p)\<rparr>)"
    using len by (auto simp: inherited_def)
  have "refs f (procs t) = refs f (procs s) + count_list (ofile (procs s p)) (Some f)" for f
  proof -
    have z: "count_list (replicate n None) (Some f) = 0" for n by (induction n) simp_all
    have split: "(\<Sum>q<NPROC. g q) = g np + (\<Sum>q\<in>{..<NPROC} - {np}. g q)" for g :: "nat \<Rightarrow> nat"
      using assms(5) by (simp add: sum.remove)
    have "(\<Sum>q\<in>{..<NPROC} - {np}. count_list (ofile (procs t q)) (Some f)) = (\<Sum>q\<in>{..<NPROC} - {np}. count_list (ofile (procs s q)) (Some f))"
      by (rule sum.cong) (auto simp: t(3))
    then show ?thesis unfolding refs_def split by (simp add: t(3) assms(7) z)
  qed
  then show ?thesis using t assms(3) by (auto simp: files_ok_def)
qed

theorem fork_shares_files_witness:
  "\<exists>s t :: kfile. ofile (procs s 0) ! 0 = Some 3 \<and> fork_files 0 0 1 s = Some t \<and> files_ok t \<and> ofile (procs t 1) = ofile (procs s 0) \<and>
    fref (ftab t 3) = 2"
proof -
  let ?s = "upd_proc 0 (\<lambda>q. q\<lparr>ofile := (ofile q)[0 := Some 3]\<rparr>) (upd_file 3 (\<lambda>x. x\<lparr>fref := fref x + 1\<rparr>) example_kfile)"
  have o: "ofile (procs example_kfile p) = replicate NOFILE None" for p by (simp add: example_kfile_def)
  have q: "hart_ok 0 ?s" "lock_free FtableLock ?s" using example_quiet [of 0] by (simp_all add: quiet_def lock_free_def)
  have ok: "files_ok ?s"
    by (rule files_ok_share [OF example_files_ok, of 0 0 3]) (simp_all add: o NPROC_def NOFILE_def NFILE_def)
  have z: "count_list (replicate n None) (Some 3) = 0" for n by (induction n) simp_all
  have r: "fref (ftab ?s 3) = 1" by (simp add: example_kfile_def free_file_def)
  have c: "count_list (ofile (procs ?s 0)) (Some 3) = 1"
    using count_list_update [of 0 "replicate NOFILE None" "Some 3" "Some 3"] by (simp add: o z NOFILE_def)
  from fork_shares_files [OF q ok, of 0 1] obtain t where "fork_files 0 0 1 ?s = Some t" "files_ok t"
    "procs t = (procs ?s)(1 := (procs ?s 1)\<lparr>ofile := ofile (procs ?s 0)\<rparr>)"
    "fref (ftab t 3) = fref (ftab ?s 3) + int (count_list (ofile (procs ?s 0)) (Some 3))"
    by (auto simp: NPROC_def NFILE_def o)
  then show ?thesis using r c by (intro exI [of _ ?s] exI [of _ t]) (simp add: o NOFILE_def)
qed

end
