(* ===== verification/FsPaths.thy ===== *)
theory FsPaths
  imports Fs
begin

text \<open>
  Paths and names of \<^verbatim>\<open>kernel/fs.c\<close>: the elements of a path, and that \<open>skipelem\<close> takes them off one by one; names in a
  directory, and that \<open>namecmp\<close> decides whether the name that \<open>dirlink\<close> stored is the one that is looked for.
\<close>

section \<open>The elements of a path\<close>

text \<open>The non-empty pieces between slashes.\<close>

function elems :: "bytes \<Rightarrow> bytes list" where
  "elems [] = []"
| "elems (c # p) =
     (if c = slash then elems p
      else (c # takeWhile (\<lambda>c. c \<noteq> slash) p) # elems (dropWhile (\<lambda>c. c \<noteq> slash) p))"
  by pat_completeness auto
termination
  by (relation "measure length") (auto simp: less_Suc_eq_le length_dropWhile_le)

declare elems.simps [simp del]

text \<open>The string in a buffer of \<open>DIRSIZ\<close> bytes, which need not end in NUL.\<close>

abbreviation dirname :: "bytes \<Rightarrow> bytes" where
  "dirname \<equiv> cstrn DIRSIZ"

lemma elems_slashes: "elems (dropWhile (\<lambda>c. c = slash) p) = elems p"
  by (induction p) (simp_all add: elems.simps)

lemma elems_hd:
  "(q \<noteq> [] \<Longrightarrow> hd q \<noteq> slash) \<Longrightarrow> 0 \<notin> set q \<Longrightarrow> (hd (q @ 0 # r) = 0 \<longleftrightarrow> elems q = []) \<and> hd (q @ 0 # r) \<noteq> slash"
  by (cases q) (auto simp: elems.simps slash_def)

lemma skip_slashes_eq:
  "skip_slashes (p @ 0 # r) = Some (dropWhile (\<lambda>c. c = slash) p @ 0 # r)"
  by (induction p) (simp_all add: slash_def)

lemma take_elem_eq:
  "0 \<notin> set p \<Longrightarrow> take_elem (p @ 0 # r) = Some (takeWhile (\<lambda>c. c \<noteq> slash) p, dropWhile (\<lambda>c. c \<noteq> slash) p @ 0 # r)"
  by (induction p) auto

lemma cstrn_splice:
  assumes "0 \<notin> set e" "length name = DIRSIZ"
  shows "dirname (if DIRSIZ \<le> length e then splice_at 0 (take DIRSIZ e) name else splice_at 0 (e @ [0]) name) = take DIRSIZ e"
proof (cases "DIRSIZ \<le> length e")
  case True
  have "takeWhile (\<lambda>c. c \<noteq> 0) (take DIRSIZ e) = take DIRSIZ e"
    using assms(1) by (auto simp: takeWhile_eq_all_conv dest: in_set_takeD)
  then show ?thesis using True by (simp add: cstrn_def splice_at_def)
next
  case False
  then show ?thesis using assms(1) by (auto simp: cstrn_def splice_at_def takeWhile_append takeWhile_tail take_Cons')
qed

text \<open>
  C35: on a NUL-terminated path, \<open>skipelem\<close> reports the end exactly when the path has no element left.  Otherwise
  it puts the first element into \<open>name\<close>, cut to \<open>DIRSIZ\<close> bytes, and the path that it returns has the other elements, starts with
  no slash, and is empty exactly when there are none (which is how \<open>nameiparent\<close> knows that it has the last element).
\<close>

theorem skipelem_correct:
  assumes "0 \<notin> set p" and "length name = DIRSIZ"
  shows "case elems p of
      [] \<Rightarrow> skipelem (p @ 0 # r) name = Some None
    | e # es \<Rightarrow> \<exists>q name'. skipelem (p @ 0 # r) name = Some (Some (q @ 0 # r, name')) \<and>
        elems q = es \<and> (hd (q @ 0 # r) = 0 \<longleftrightarrow> es = []) \<and> hd (q @ 0 # r) \<noteq> slash \<and> 0 \<notin> set q \<and>
        length name' = DIRSIZ \<and> dirname name' = take DIRSIZ e"
proof -
  define p' where p': "p' = dropWhile (\<lambda>c. c = slash) p"
  have p: "elems p' = elems p" "0 \<notin> set p'" using assms(1) unfolding p' by (auto simp: elems_slashes dest: set_dropWhileD)
  have s: "skip_slashes (p @ 0 # r) = Some (p' @ 0 # r)" by (simp add: p' skip_slashes_eq)
  show ?thesis
  proof (cases p')
    case Nil
    then have "elems p = []" using p(1) by (simp add: elems.simps)
    then show ?thesis using Nil s by (simp add: skipelem_def)
  next
    case (Cons c t)
    then have c: "c \<noteq> slash" "c \<noteq> 0" "0 \<notin> set t" using hd_dropWhile [of "\<lambda>c. c = slash" p] p(2) p' by auto
    let ?e = "c # takeWhile (\<lambda>c. c \<noteq> slash) t" and ?q = "dropWhile (\<lambda>c. c \<noteq> slash) t"
    let ?q' = "dropWhile (\<lambda>c. c = slash) ?q"
    let ?n = "if DIRSIZ \<le> length ?e then splice_at 0 (take DIRSIZ ?e) name else splice_at 0 (?e @ [0]) name"
    have e: "elems p = ?e # elems ?q'" using p(1) Cons c(1) by (simp add: elems.simps elems_slashes)
    have e0: "0 \<notin> set ?e" using c by (auto dest: set_takeWhileD)
    have n: "dirname ?n = take DIRSIZ ?e" by (rule cstrn_splice [OF e0 assms(2)])
    have "length ?n = DIRSIZ" using assms(2) by auto
    moreover have "take_elem (p' @ 0 # r) = Some (?e, ?q @ 0 # r)" using take_elem_eq [OF p(2), of r] Cons c(1) by simp
    then have "skipelem (p @ 0 # r) name = Some (Some (?q' @ 0 # r, ?n))"
      using Cons c(2) s by (simp add: skipelem_def skip_slashes_eq)
    moreover have "0 \<notin> set ?q'" using c(3) by (auto dest!: set_dropWhileD)
    moreover have "(hd (?q' @ 0 # r) = 0 \<longleftrightarrow> elems ?q' = []) \<and> hd (?q' @ 0 # r) \<noteq> slash"
      by (rule elems_hd [OF _ \<open>0 \<notin> set ?q'\<close>]) (rule hd_dropWhile)
    ultimately show ?thesis using n unfolding e list.case
      by (intro exI [where x = ?q'] exI [where x = ?n]) (simp only: simp_thms)
  qed
qed

theorem skipelem_correct_witness:
  "\<exists>q name'. skipelem ([47, 97, 47, 47, 98, 98] @ 0 # []) (replicate DIRSIZ 0) = Some (Some (q @ 0 # [], name')) \<and>
    elems q = [[98, 98]] \<and> dirname name' = [97]"
  using skipelem_correct [of "[47, 97, 47, 47, 98, 98]" "replicate DIRSIZ 0" "[]"]
  by (auto simp: elems.simps slash_def DIRSIZ_def)

text \<open>
  C36: after \<open>dirlink\<close> has copied a name into a directory entry with \<open>strncpy\<close>, \<open>namecmp\<close> of another name with the
  entry gives 0 exactly when the two names agree in their first \<open>DIRSIZ\<close> bytes, whatever the entry held before.
\<close>

theorem stored_name_found:
  assumes "length old = DIRSIZ" "readable DIRSIZ name" "readable DIRSIZ name'"
  shows "\<exists>nm r. strncpy old name (int DIRSIZ) = Some nm \<and> length nm = DIRSIZ \<and>
    namecmp name' nm = Some r \<and> (r = 0 \<longleftrightarrow> dirname name' = dirname name)"
proof -
  let ?nm = "dirname name @ replicate (DIRSIZ - length (dirname name)) 0"
  have len: "length ?nm = DIRSIZ" using cstrn_length [of DIRSIZ name] by simp
  have "strncpy old name (int DIRSIZ) = Some ?nm"
    using strncpy_loop_spec [of DIRSIZ old name] assms(1,2) by (simp add: strncpy_def)
  moreover have "dirname ?nm = dirname name"
    using cstrn_no_nul [of DIRSIZ name] len unfolding cstrn_def
    by (simp add: takeWhile_append takeWhile_replicate)
  moreover have "readable DIRSIZ ?nm" using len by (simp add: readable_def)
  ultimately show ?thesis using strncmp_total [OF assms(3), of ?nm] len by (auto simp: namecmp_def)
qed

theorem stored_name_found_witness:
  "\<exists>nm r. strncpy (replicate DIRSIZ 7) [97, 98, 0] (int DIRSIZ) = Some nm \<and> namecmp [97, 98, 0, 5] nm = Some r \<and> r = 0"
proof -
  have "dirname [97, 98, 0, 5] = dirname [97, 98, 0]" by (simp add: cstrn_def DIRSIZ_def)
  then show ?thesis
    using stored_name_found [of "replicate DIRSIZ 7" "[97, 98, 0]" "[97, 98, 0, 5]"] unfolding readable_def by simp blast
qed

end
