(* ===== verification/FsBlocks.thy ===== *)
theory FsBlocks
  imports Fs
begin

text \<open>
  The block layer of the file system inside a transaction: \<open>bzero\<close>, \<open>balloc\<close>, \<open>bfree\<close> and \<open>iupdate\<close> in terms of the contents of blocks that the
  cache shows, \<open>view\<close>.
\<close>

section \<open>Steps of a transaction\<close>

abbreviation view :: "uint \<Rightarrow> 'a bio_scheme \<Rightarrow> uint \<Rightarrow> bytes" where
  "view d s \<equiv> cview (abs_cache d s)"

text \<open>A transaction is open and has room for \<open>k\<close> more blocks, while the blocks \<open>H\<close> are locked.\<close>

definition in_op_with :: "nat \<Rightarrow> uint \<Rightarrow> uint set \<Rightarrow> nat \<Rightarrow> 'a klog_scheme \<Rightarrow> bool" where
  "in_op_with h d H k s \<longleftrightarrow> tx_inv h d H s \<and> finite H \<and> 1 \<le> outstanding s \<and> lhn s + int k + int (card H) < int NBUF \<and>
     lhn s + int k < lsize s"

abbreviation in_op :: "nat \<Rightarrow> uint \<Rightarrow> nat \<Rightarrow> 'a klog_scheme \<Rightarrow> bool" where
  "in_op h d \<equiv> in_op_with h d {}"

lemma in_op_def: "in_op h d k s \<longleftrightarrow> tx_inv h d {} s \<and> 1 \<le> outstanding s \<and> lhn s + int k < int NBUF \<and> lhn s + int k < lsize s"
  by (simp add: in_op_with_def)

text \<open>
  From \<open>s\<close> to \<open>t\<close> at most \<open>j\<close> blocks join the transaction, the contents of blocks become \<open>V\<close>, and the blocks \<open>H\<close> are locked at the
  end.
\<close>

definition op_step_with :: "nat \<Rightarrow> uint \<Rightarrow> uint set \<Rightarrow> nat \<Rightarrow> 'a klog_scheme \<Rightarrow> 'a klog_scheme \<Rightarrow> (uint \<Rightarrow> bytes) \<Rightarrow> bool" where
  "op_step_with h d H j s t V \<longleftrightarrow> tx_inv h d H t \<and> quiet_step h s t \<and> klog_frame s t \<and> lstart t = lstart s \<and> lsize t = lsize s \<and>
     outstanding t = outstanding s \<and> committing t = committing s \<and> lhn t \<le> lhn s + int j \<and> view d t = V \<and> disk t = disk s \<and>
     history t = history s \<and> pins s \<subseteq> pins t \<and> (\<forall>m\<in>H. \<forall>c. mine h d s m c \<longrightarrow> mine h d t m c)"

abbreviation op_step :: "nat \<Rightarrow> uint \<Rightarrow> nat \<Rightarrow> 'a klog_scheme \<Rightarrow> 'a klog_scheme \<Rightarrow> (uint \<Rightarrow> bytes) \<Rightarrow> bool" where
  "op_step h d \<equiv> op_step_with h d {}"

lemma op_step_in_op: "op_step_with h d H j s t V \<Longrightarrow> in_op_with h d H (j + k) s \<Longrightarrow> in_op_with h d H k t"
  by (auto simp: op_step_with_def in_op_with_def)

lemma op_step_view: "op_step_with h d H j s t V \<Longrightarrow> view d t = V"
  by (simp add: op_step_with_def)

lemma op_step_trans:
  "op_step_with h d H i s t V \<Longrightarrow> op_step_with h d H' j t u W \<Longrightarrow> H' \<subseteq> H \<Longrightarrow> op_step_with h d H' (i + j) s u W"
  unfolding op_step_with_def by (auto intro: quiet_step_trans klog_frame_trans)

lemma op_step_more: "op_step_with h d H i s t V \<Longrightarrow> i \<le> j \<Longrightarrow> op_step_with h d H j s t V"
  by (auto simp: op_step_with_def)

lemma op_step_kfs:
  fixes s :: "'a kfs_scheme"
  assumes "op_step_with h d H j s t V"
  shows "sb t = sb s" "itab t = itab s" "lstart t = lstart s" "lsize t = lsize s"
proof -
  have "klog_frame s t" using assms by (simp add: op_step_with_def)
  from arg_cong [OF this [unfolded klog_frame_def], of sb] arg_cong [OF this [unfolded klog_frame_def], of itab]
  show "sb t = sb s" "itab t = itab s" by simp_all
  show "lstart t = lstart s" "lsize t = lsize s" using assms by (simp_all add: op_step_with_def)
qed

text \<open>Reading a block locks it; a block that is in the transaction, or was not changed, may be released.\<close>

lemma op_read:
  fixes s :: "'a klog_scheme"
  assumes op: "in_op_with h d H (Suc k) s" and n: "n \<notin> H"
  obtains b t where "bread h d n s = Some (b, t)" "bdata (bufs t b) = view d s n" "mine h d t n b"
    "op_step_with h d (insert n H) 0 s t (view d s)" "in_op_with h d (insert n H) k t" "n \<in> pins t \<or> view d t n = disk t n"
proof -
  have tx: "tx_inv h d H s" and cap: "finite H" "lhn s + int (Suc k) + int (card H) < int NBUF" "1 \<le> outstanding s" "lhn s + int (Suc k) < lsize s"
    using op by (auto simp: in_op_with_def)
  have "0 \<le> lhn s" using committableD(3) [OF tx_invD(4) [OF tx]] by simp
  then have "card (pins s \<union> H) < NBUF"
    using card_Un_le [of "pins s" H] card_pins [OF tx] cap(2) by linarith
  with tx_bread [OF tx n] obtain b t where t: "bread h d n s = Some (b, t)" "mine h d t n b" "bdata (bufs t b) = view d s n"
    "tx_inv h d (insert n H) t" "pins t = pins s" "quiet_step h s t" "bio_frame s t"
    "view d t = view d s" "disk t = disk s" "history t = history s" "\<forall>m c. mine h d s m c \<longrightarrow> mine h d t m c" by blast
  note f = bio_frame_klog [OF t(7)]
  have "op_step_with h d (insert n H) 0 s t (view d s)"
    using t f klog_frame_bio [OF t(7)] by (simp add: op_step_with_def)
  moreover have "in_op_with h d (insert n H) k t" using t(4) cap f n by (simp add: in_op_with_def)
  moreover have "view d t n = disk t n" if "n \<notin> pins t"
  proof -
    have "crefs (abs_cache d s) n = 0" using that t(5) n tx_invD(8) [OF tx, of n] by simp
    then show ?thesis using clean_abs [OF tx_invD(2) [OF tx]] t(8,9) by auto
  qed
  ultimately show thesis using that t(1,2,3) by blast
qed

lemma op_log:
  fixes s :: "'a klog_scheme"
  assumes tx: "tx_inv h d H s" and cap: "lhn s + 1 < int NBUF" "1 \<le> outstanding s" "lhn s < lsize s - 1"
    and m: "mine h d s n b" and home: "n \<notin> log_area (lstart s) (nat (lsize s))"
  obtains t where "log_write h b (set_data b v s) = Some t" "op_step_with h d H 1 s t ((view d s)(n := v))" "n \<in> pins t" "mine h d t n b"
proof -
  let ?u = "set_data b v s"
  note u = tx_set [OF tx m, where v = v] and fu = bio_frame_klog [OF tx_set(4) [OF tx m, where v = v]]
  have LN: "int LOGSIZE = int NBUF" by (simp add: LOGSIZE_def NBUF_def)
  have "\<exists>w. log_write h b ?u = Some w \<and> tx_inv h d H w \<and> pins w = insert n (pins ?u) \<and> quiet_step h ?u w \<and> klog_frame ?u w \<and>
    lstart w = lstart ?u \<and> lsize w = lsize ?u \<and> outstanding w = outstanding ?u \<and> committing w = committing ?u \<and>
    lhn w = (if n \<in> pins ?u then lhn ?u else lhn ?u + 1) \<and>
    view d w = view d ?u \<and> disk w = disk ?u \<and> history w = history ?u \<and> (\<forall>m c. mine h d ?u m c \<longrightarrow> mine h d w m c)"
    by (rule tx_log_write [OF u(1) u(8) [OF m]]) (use home cap LN in \<open>auto simp: fu\<close>)
  then obtain w where w: "log_write h b ?u = Some w" "tx_inv h d H w" "pins w = insert n (pins ?u)" "quiet_step h ?u w"
    "klog_frame ?u w" "lstart w = lstart ?u" "lsize w = lsize ?u" "outstanding w = outstanding ?u" "committing w = committing ?u"
    "lhn w = (if n \<in> pins ?u then lhn ?u else lhn ?u + 1)"
    "view d w = view d ?u" "disk w = disk ?u" "history w = history ?u" "\<forall>m c. mine h d ?u m c \<longrightarrow> mine h d w m c" by blast
  have "quiet_step h s w" "klog_frame s w"
    using quiet_step_trans [OF u(3) w(4)] klog_frame_trans [OF klog_frame_bio [OF u(4)] w(5)] by auto
  then have "op_step_with h d H 1 s w ((view d s)(n := v))" using w u fu by (auto simp: op_step_with_def)
  then show thesis using that w u(8) [OF m] by blast
qed

lemma op_release:
  fixes s :: "'a klog_scheme"
  assumes tx: "tx_inv h d H s" and m: "mine h d s n b" and cl: "n \<in> pins s \<or> view d s n = disk s n"
  obtains t where "brelse h b s = Some t" "op_step_with h d (H - {n}) 0 s t (view d s)"
proof -
  from tx_brelse [OF tx m cl] obtain t where t: "brelse h b s = Some t" "tx_inv h d (H - {n}) t" "pins t = pins s" "quiet_step h s t"
    "bio_frame s t" "view d t = view d s" "disk t = disk s" "history t = history s"
    "\<forall>m c. mine h d s m c \<longrightarrow> m \<noteq> n \<longrightarrow> mine h d t m c" by blast
  then have "op_step_with h d (H - {n}) 0 s t (view d s)"
    using bio_frame_klog [OF t(5)] klog_frame_bio [OF t(5)] by (simp add: op_step_with_def)
  then show thesis using that t(1) by blast
qed

text \<open>Reading a block, and then either writing it or not.\<close>

lemma op_write:
  fixes s :: "'a klog_scheme"
  assumes op: "in_op_with h d H (Suc k) s" and n: "n \<notin> H" and home: "n \<notin> log_area (lstart s) (nat (lsize s))"
  obtains b t u where "bread h d n s = Some (b, t)" "bdata (bufs t b) = view d s n" "klog_frame s t"
    "\<And>v. \<exists>u. (do { s \<leftarrow> log_write h b (set_data b v t); brelse h b s }) = Some u \<and> op_step_with h d H 1 s u ((view d s)(n := v))"
    "brelse h b t = Some u" "op_step_with h d H 0 s u (view d s)"
proof -
  from op_read [OF op n] obtain b t where t: "bread h d n s = Some (b, t)" "bdata (bufs t b) = view d s n" "mine h d t n b"
    "op_step_with h d (insert n H) 0 s t (view d s)" "in_op_with h d (insert n H) k t" "n \<in> pins t \<or> view d t n = disk t n" by blast
  have vt: "view d t = view d s" and lt: "lstart t = lstart s" "lsize t = lsize s" and tx: "tx_inv h d (insert n H) t"
    using t(4) by (auto simp: op_step_with_def)
  have H: "insert n H - {n} = H" using n by blast
  have w: "\<exists>u. (do { s \<leftarrow> log_write h b (set_data b v t); brelse h b s }) = Some u \<and> op_step_with h d H 1 s u ((view d s)(n := v))" for v
  proof -
    have cap: "lhn t + 1 < int NBUF" "1 \<le> outstanding t" "lhn t < lsize t - 1"
      using t(4) op by (auto simp: op_step_with_def in_op_with_def)
    from op_log [OF tx cap t(3)] home lt obtain w where w: "log_write h b (set_data b v t) = Some w"
      "op_step_with h d (insert n H) 1 t w ((view d t)(n := v))" "n \<in> pins w" "mine h d w n b" by metis
    have "tx_inv h d (insert n H) w" "view d w = (view d s)(n := v)" using w(2) vt by (auto simp: op_step_with_def)
    with op_release [OF _ w(4)] w(3) obtain u where u: "brelse h b w = Some u" "op_step_with h d (insert n H - {n}) 0 w u (view d w)" by blast
    have "op_step_with h d H (0 + 1 + 0) s u (view d w)"
      using op_step_trans [OF op_step_trans [OF t(4) w(2)] u(2)] unfolding H by blast
    then show ?thesis using w(1) u(1) \<open>view d w = _\<close> by simp
  qed
  obtain u where u: "brelse h b t = Some u" "op_step_with h d (insert n H - {n}) 0 t u (view d t)"
    using op_release [OF tx t(3,6)] by blast
  have "op_step_with h d H (0 + 0) s u (view d t)" using op_step_trans [OF t(4) u(2)] unfolding H by blast
  moreover have "klog_frame s t" using t(4) by (simp add: op_step_with_def)
  ultimately show thesis using that [OF t(1,2) _ w u(1)] vt by simp
qed

section \<open>The bitmap\<close>

text \<open>Block \<open>b\<close> is marked in the bitmap.\<close>

definition blk_used :: "superblock \<Rightarrow> (uint \<Rightarrow> bytes) \<Rightarrow> uint \<Rightarrow> bool" where
  "blk_used sp V b = bit (V (BBLOCK b sp) ! (unat b mod BPB div 8)) (unat b mod BPB mod 8)"

lemma BPB_pos [simp]: "0 < BPB" "BPB = 8192"
  by (simp_all add: BPB_def BSIZE_def)

lemma BBLOCK_eq_iff: "BBLOCK b sp = BBLOCK c sp \<longleftrightarrow> unat b div BPB = unat c div BPB"
proof -
  have "BBLOCK b sp = BBLOCK c sp \<longleftrightarrow> b div 8192 = c div 8192" by (simp add: BBLOCK_def)
  also have "\<dots> \<longleftrightarrow> unat b div 8192 = unat c div 8192" by (simp add: word_unat_eq_iff unat_div)
  finally show ?thesis by simp
qed

lemma bit_of_list:
  assumes "i div 8 < length xs" "j div 8 < length xs"
  shows "bit (xs[i div 8 := xs ! (i div 8) OR push_bit (i mod 8) 1] ! (j div 8)) (j mod 8) \<longleftrightarrow>
      bit (xs ! (j div 8) :: uchar) (j mod 8) \<or> i = (j :: nat)"
    "bit (xs[i div 8 := xs ! (i div 8) AND NOT (push_bit (i mod 8) 1)] ! (j div 8)) (j mod 8) \<longleftrightarrow>
      bit (xs ! (j div 8) :: uchar) (j mod 8) \<and> i \<noteq> j"
proof -
  have "i = j \<longleftrightarrow> i div 8 = j div 8 \<and> i mod 8 = j mod 8" by (metis div_mult_mod_eq)
  moreover have "j mod 8 < 8" "i mod 8 < 8" by simp_all
  ultimately show
    "bit (xs[i div 8 := xs ! (i div 8) OR push_bit (i mod 8) 1] ! (j div 8)) (j mod 8) \<longleftrightarrow> bit (xs ! (j div 8)) (j mod 8) \<or> i = j"
    "bit (xs[i div 8 := xs ! (i div 8) AND NOT (push_bit (i mod 8) 1)] ! (j div 8)) (j mod 8) \<longleftrightarrow> bit (xs ! (j div 8)) (j mod 8) \<and> i \<noteq> j"
    using assms by (auto simp: nth_list_update bit_simps bit_1_iff)
qed

text \<open>Setting and clearing the bit of \<open>b\<close>.\<close>

definition bitmap_set :: "superblock \<Rightarrow> uint \<Rightarrow> bool \<Rightarrow> (uint \<Rightarrow> bytes) \<Rightarrow> bytes" where
  "bitmap_set sp b v V =
     (let i = unat b mod BPB; data = V (BBLOCK b sp); m = push_bit (i mod 8) 1
      in data[i div 8 := (if v then data ! (i div 8) OR m else data ! (i div 8) AND NOT m)])"

lemma blk_used_set:
  assumes "length (V (BBLOCK b sp)) = BSIZE"
  shows "blk_used sp (V(BBLOCK b sp := bitmap_set sp b v V)) c = (if c = b then v else blk_used sp V c)"
proof (cases "BBLOCK c sp = BBLOCK b sp")
  case True
  then have d: "unat c div BPB = unat b div BPB" by (simp add: BBLOCK_eq_iff)
  have cb: "unat b mod BPB = unat c mod BPB \<longleftrightarrow> c = b"
    using d by (metis word_unat_eq_iff div_mult_mod_eq)
  have l: "unat x mod BPB div 8 < length (V (BBLOCK b sp))" for x :: uint
  proof -
    have "unat x mod 8192 < 8 * 1024" by simp
    then show ?thesis by (simp only: assms BSIZE_def BPB_pos less_mult_imp_div_less mult.commute)
  qed
  show ?thesis
    using bit_of_list [OF l [of b] l [of c]] cb True by (auto simp: blk_used_def bitmap_set_def Let_def)
qed (auto simp: blk_used_def)

section \<open>Zeroing, freeing and allocating\<close>

lemma bzero_spec:
  fixes s :: "'a kfs_scheme"
  assumes op: "in_op_with h d H (Suc k) s" and nH: "n \<notin> H" and home: "n \<notin> log_area (lstart s) (nat (lsize s))"
  shows "\<exists>t. bzero h d n s = Some t \<and> op_step_with h d H 1 s t ((view d s)(n := replicate BSIZE 0))"
proof -
  from op_write [OF op nH home] obtain b t where t: "bread h d n s = Some (b, t)"
    "\<And>v. \<exists>u. (do { s \<leftarrow> log_write h b (set_data b v t); brelse h b s }) = Some u \<and> op_step_with h d H 1 s u ((view d s)(n := v))" by metis
  obtain u where "(do { s \<leftarrow> log_write h b (set_data b (replicate BSIZE 0) t); brelse h b s }) = Some u"
    "op_step_with h d H 1 s u ((view d s)(n := replicate BSIZE 0))" using t(2) by blast
  then show ?thesis using t(1) by (auto simp: bzero_def)
qed

lemma bfree_spec:
  fixes s :: "'a kfs_scheme"
  assumes op: "in_op h d (Suc k) s" and home: "BBLOCK b (sb s) \<notin> log_area (lstart s) (nat (lsize s))"
  shows "if blk_used (sb s) (view d s) b
    then \<exists>t. bfree h d b s = Some t \<and> op_step h d 1 s t ((view d s)(BBLOCK b (sb s) := bitmap_set (sb s) b False (view d s)))
    else bfree h d b s = None"
proof -
  let ?n = "BBLOCK b (sb s)"
  from op_write [OF op _ home] obtain bp t where t: "bread h d ?n s = Some (bp, t)" "bdata (bufs t bp) = view d s ?n"
    "\<And>v. \<exists>u. (do { s \<leftarrow> log_write h bp (set_data bp v t); brelse h bp s }) = Some u \<and> op_step h d 1 s u ((view d s)(?n := v))"
    by (metis empty_iff)
  obtain u where "(do { s \<leftarrow> log_write h bp (set_data bp (bitmap_set (sb s) b False (view d s)) t); brelse h bp s }) = Some u"
    "op_step h d 1 s u ((view d s)(?n := bitmap_set (sb s) b False (view d s)))" using t(3) by blast
  then show ?thesis
    using t(1,2) by (auto simp: bfree_def bitmap_set_def Let_def blk_used_def bit_iff_and_push_bit_not_eq_0)
qed

lemma balloc_bit_eq:
  "balloc_bit data b n k bi = find (\<lambda>i. \<not> bit (data ! (i div 8)) (i mod 8)) [bi..<min (bi + k) (n - b)]"
proof (induction k arbitrary: bi)
  case (Suc k)
  show ?case
  proof (cases "b + bi < n")
    case True
    then have "[bi..<min (bi + Suc k) (n - b)] = bi # [Suc bi..<min (Suc bi + k) (n - b)]" by (simp add: upt_conv_Cons)
    then show ?thesis using True Suc by (simp add: bit_iff_and_push_bit_not_eq_0)
  qed simp
qed simp


lemma find_append: "find P (xs @ ys) = (case find P xs of None \<Rightarrow> find P ys | Some x \<Rightarrow> Some x)"
  by (induction xs) auto

lemma find_shift: "find P (map ((+) (b :: nat)) xs) = map_option ((+) b) (find (\<lambda>i. P (b + i)) xs)"
  by (induction xs) auto

text \<open>What \<open>balloc\<close> does to the blocks when it takes the block \<open>n\<close>.\<close>

definition taken_block :: "superblock \<Rightarrow> uint \<Rightarrow> (uint \<Rightarrow> bytes) \<Rightarrow> uint \<Rightarrow> bytes" where
  "taken_block sp n V = (V(BBLOCK n sp := bitmap_set sp n True V))(n := replicate BSIZE 0)"

lemma balloc_loop_spec:
  fixes s :: "'a kfs_scheme"
  assumes "in_op_with h d H (Suc (Suc k)) s"
    and "\<forall>n<unat (sbsize (sb s)). \<not> blk_used (sb s) (view d s) (of_nat n) \<longrightarrow> of_nat n \<notin> log_area (lstart s) (nat (lsize s)) \<union> H"
    and "\<forall>i\<in>set is. BBLOCK (of_nat (i * BPB)) (sb s) \<notin> log_area (lstart s) (nat (lsize s)) \<union> H \<and> i * BPB < 2 ^ 32"
  shows "case find (\<lambda>n. \<not> blk_used (sb s) (view d s) (of_nat n)) (concat (map (\<lambda>i. [i * BPB..<min (i * BPB + BPB) (unat (sbsize (sb s)))]) is)) of
      None \<Rightarrow> balloc_loop h d (map (\<lambda>i. i * BPB) is) s = None
    | Some n \<Rightarrow> \<exists>t. balloc_loop h d (map (\<lambda>i. i * BPB) is) s = Some (of_nat n, t) \<and>
        op_step_with h d H 2 s t (taken_block (sb s) (of_nat n) (view d s))"
  using assms
proof (induction "is" arbitrary: s)
  case (Cons i "is")
  let ?b = "i * BPB" and ?size = "unat (sbsize (sb s))"
  let ?n = "BBLOCK (of_nat ?b) (sb s)"
  let ?free = "\<lambda>n. \<not> blk_used (sb s) (view d s) (of_nat n)"
  let ?bits = "find (\<lambda>i. \<not> bit (view d s ?n ! (i div 8)) (i mod 8)) [0..<min BPB (?size - ?b)]"
  have home: "?n \<notin> H" "?n \<notin> log_area (lstart s) (nat (lsize s))" and b32: "?b < 2 ^ 32" using Cons.prems(3) by simp_all
  obtain bp t u where t: "bread h d ?n s = Some (bp, t)" "bdata (bufs t bp) = view d s ?n" "klog_frame s t"
    "\<And>v. \<exists>u. (do { s \<leftarrow> log_write h bp (set_data bp v t); brelse h bp s }) = Some u \<and> op_step_with h d H 1 s u ((view d s)(?n := v))"
    "brelse h bp t = Some u" "op_step_with h d H 0 s u (view d s)" using op_write [OF Cons.prems(1) home] by metis
  have sbt: "sb t = sb s" using arg_cong [OF t(3) [unfolded klog_frame_def], of sb] by simp
  have iv: "[?b..<min (?b + BPB) ?size] = map ((+) ?b) [0..<min BPB (?size - ?b)]"
  proof -
    have "map ((+) m) [0..<k] = [m..<m + k]" for m k :: nat by (induction k) auto
    moreover have "min (?b + BPB) ?size = ?b + min BPB (?size - ?b) \<or> [?b..<min (?b + BPB) ?size] = [] \<and> min BPB (?size - ?b) = 0"
      by (auto simp: min_def)
    ultimately show ?thesis by auto
  qed
  have small: "?b + j < ?size" if "j < min BPB (?size - ?b)" for j using that by auto
  have ofn: "unat (of_nat (?b + j) :: uint) = ?b + j" if "j < min BPB (?size - ?b)" for j
    using small [OF that] unat_bound [of "sbsize (sb s)"]
    by (simp add: unsigned_of_nat take_bit_nat_eq_self del: of_nat_add of_nat_mult)
  have ofb: "unat (of_nat ?b :: uint) = ?b" using b32 by (simp add: unsigned_of_nat take_bit_nat_eq_self del: of_nat_mult)
  have BB: "BBLOCK (of_nat (?b + j)) (sb s) = ?n" "unat (of_nat (?b + j) :: uint) mod BPB = j" if "j < min BPB (?size - ?b)" for j
    using that unfolding BBLOCK_eq_iff ofn [OF that] ofb by simp_all
  have "find (\<lambda>j. ?free (?b + j)) [0..<min BPB (?size - ?b)] = ?bits"
    by (rule find_cong [OF refl]) (simp only: blk_used_def BB set_upt atLeastLessThan_iff)
  then have first: "find ?free [?b..<min (?b + BPB) ?size] = map_option ((+) ?b) ?bits" by (simp only: iv find_shift)
  have bb: "balloc_bit (view d s ?n) ?b ?size BPB 0 = ?bits" by (simp add: balloc_bit_eq)
  show ?case
  proof (cases ?bits)
    case None
    have f: "sb u = sb s" "view d u = view d s" "lstart u = lstart s" "lsize u = lsize s"
      using op_step_kfs [OF t(6)] op_step_view [OF t(6)] by simp_all
    have "in_op_with h d H (Suc (Suc k)) u" using op_step_in_op [OF t(6)] Cons.prems(1) by simp
    note IH = Cons.IH [OF this] 
    have rec: "balloc_loop h d (map (\<lambda>i. i * BPB) (i # is)) s = balloc_loop h d (map (\<lambda>i. i * BPB) is) u"
      using t(1,2,5) None bb sbt by simp
    have comb: "op_step_with h d H 2 s w V" if "op_step_with h d H 2 u w V" for w V using op_step_trans [OF t(6) that order_refl] by (simp add: numeral_2_eq_2)
    show ?thesis
      using IH Cons.prems(2,3) None first comb unfolding rec by (auto simp: f find_append split: option.splits)
  next
    case (Some j)
    then have j: "j < min BPB (?size - ?b)" "\<not> bit (view d s ?n ! (j div 8)) (j mod 8)" by (auto simp: find_Some_iff)
    let ?w = "of_nat (?b + j) :: uint"
    have v: "(view d s ?n)[j div 8 := view d s ?n ! (j div 8) OR push_bit (j mod 8) 1] = bitmap_set (sb s) ?w True (view d s)"
      unfolding bitmap_set_def BB [OF j(1)] by (simp add: Let_def)
    obtain u where u: "(do { s \<leftarrow> log_write h bp (set_data bp (bitmap_set (sb s) ?w True (view d s)) t); brelse h bp s }) = Some u"
      "op_step_with h d H 1 s u ((view d s)(?n := bitmap_set (sb s) ?w True (view d s)))" using t(4) by blast
    have "in_op_with h d H (Suc k) u" using op_step_in_op [OF u(2), of "Suc k"] Cons.prems(1) by simp
    moreover have "?w \<notin> H" "?w \<notin> log_area (lstart u) (nat (lsize u))"
    proof -
      have "?free (?b + j)" using j(2) by (simp only: blk_used_def BB [OF j(1)] not_False_eq_True)
      then show "?w \<notin> H" "?w \<notin> log_area (lstart u) (nat (lsize u))"
        using Cons.prems(2) [rule_format, OF small [OF j(1)]] op_step_kfs [OF u(2)] by simp_all
    qed
    ultimately obtain x where x: "bzero h d ?w u = Some x" "op_step_with h d H 1 u x ((view d u)(?w := replicate BSIZE 0))"
      using bzero_spec by blast
    have "op_step_with h d H 2 s x (taken_block (sb s) ?w (view d s))"
      using op_step_trans [OF u(2) x(2) order_refl] op_step_view [OF u(2)] unfolding taken_block_def BB [OF j(1)] by (simp add: numeral_2_eq_2)
    moreover obtain y where y: "log_write h bp (set_data bp (bitmap_set (sb s) ?w True (view d s)) t) = Some y" "brelse h bp y = Some u"
      using u(1) by auto
    have "balloc_loop h d (map (\<lambda>i. i * BPB) (i # is)) s = Some (?w, x)"
      using t(1,2) Some bb sbt v x(1) y by simp
    ultimately show ?thesis using Some first by (simp add: find_append del: balloc_loop.simps)
  qed
qed simp

lemma concat_intervals:
  "0 < N \<Longrightarrow> concat (map (\<lambda>i. [i * N..<min (i * N + N) M]) [0..<k]) = [0..<min (k * N) M]"
proof (induction k)
  case (Suc k)
  have "[0..<min (k * N) M] @ [k * N..<min (k * N + N) M] = [0..<min (k * N + N) M]"
  proof (cases "k * N \<le> M")
    case True
    then have "min (k * N) M = k * N" "k * N \<le> min (k * N + N) M" by auto
    then show ?thesis using upt_add_eq_append [of 0 "k * N" "min (k * N + N) M - k * N"] by simp
  qed (simp add: min_def)
  then show ?case using Suc by (simp add: add.commute)
qed simp

lemma round_up_covers: "0 < N \<Longrightarrow> M \<le> (M + N - 1) div N * (N :: nat)"
  using div_mult_mod_eq [of "M + N - 1" N] mod_less_divisor [of N "M + N - 1"] by linarith

lemma balloc_spec:
  fixes s :: "'a kfs_scheme"
  assumes op: "in_op_with h d H (Suc (Suc k)) s"
    and free: "\<forall>n<unat (sbsize (sb s)). \<not> blk_used (sb s) (view d s) (of_nat n) \<longrightarrow> of_nat n \<notin> log_area (lstart s) (nat (lsize s)) \<union> H"
    and bm: "\<forall>n<unat (sbsize (sb s)). BBLOCK (of_nat n) (sb s) \<notin> log_area (lstart s) (nat (lsize s)) \<union> H"
  shows "case find (\<lambda>n. \<not> blk_used (sb s) (view d s) (of_nat n)) [0..<unat (sbsize (sb s))] of
      None \<Rightarrow> balloc h d s = None
    | Some n \<Rightarrow> \<exists>t. balloc h d s = Some (of_nat n, t) \<and> op_step_with h d H 2 s t (taken_block (sb s) (of_nat n) (view d s))"
proof -
  let ?size = "unat (sbsize (sb s))" and ?k = "(unat (sbsize (sb s)) + BPB - 1) div BPB"
  have "i * BPB < ?size" if "i < ?k" for i
  proof -
    have "Suc i * BPB \<le> ?k * BPB" using that by (intro mult_le_mono1) simp
    also have "\<dots> \<le> ?size + BPB - 1" by simp
    finally show ?thesis by simp
  qed
  then have lt: "\<forall>i<?k. i * BPB < ?size" by blast
  have "?size < 2 ^ 32" using unat_bound [of "sbsize (sb s)"] by simp
  have "\<forall>i\<in>set [0..<?k]. BBLOCK (of_nat (i * BPB)) (sb s) \<notin> log_area (lstart s) (nat (lsize s)) \<union> H \<and> i * BPB < 2 ^ 32"
  proof (intro ballI conjI)
    fix i assume "i \<in> set [0..<?k]"
    then have "i * BPB < ?size" using lt by (simp only: set_upt atLeastLessThan_iff)
    then show "BBLOCK (of_nat (i * BPB)) (sb s) \<notin> log_area (lstart s) (nat (lsize s)) \<union> H" "i * BPB < 2 ^ 32"
      using bm \<open>?size < 2 ^ 32\<close> by (blast, simp only: less_trans)
  qed
  note loop = balloc_loop_spec [OF op free this]
  have "concat (map (\<lambda>i. [i * BPB..<min (i * BPB + BPB) ?size]) [0..<?k]) = [0..<?size]"
    using concat_intervals [of BPB ?size ?k] round_up_covers [of BPB ?size] BPB_pos(1) by (simp only: min_absorb2)
  with loop show ?thesis by (simp only: balloc_def)
qed

section \<open>Allocating and freeing blocks\<close>

text \<open>
  The bitmap describes the file system: its blocks are whole, they and the log are marked, and neither is part of the other.
\<close>

definition bitmap_ok :: "uint set \<Rightarrow> superblock \<Rightarrow> (uint \<Rightarrow> bytes) \<Rightarrow> bool" where
  "bitmap_ok L sp V \<longleftrightarrow> (\<forall>n<unat (sbsize sp). let b = BBLOCK (of_nat n) sp in
      length (V b) = BSIZE \<and> b \<notin> L \<and> unat b < unat (sbsize sp) \<and> blk_used sp V b) \<and>
     (\<forall>b\<in>L. blk_used sp V b)"

lemma bitmap_okD:
  assumes "bitmap_ok L sp V" "n < unat (sbsize sp)"
  shows "length (V (BBLOCK (of_nat n) sp)) = BSIZE" "BBLOCK (of_nat n) sp \<notin> L" "blk_used sp V (BBLOCK (of_nat n) sp)"
    "\<not> blk_used sp V (of_nat n) \<Longrightarrow> of_nat n \<notin> L"
  using assms by (auto simp: bitmap_ok_def Let_def)

lemma taken_block_used:
  assumes ok: "bitmap_ok L sp V" and n: "n < unat (sbsize sp)" "\<not> blk_used sp V (of_nat n)" and c: "c < unat (sbsize sp)"
  shows "blk_used sp (taken_block sp (of_nat n) V) (of_nat c) \<longleftrightarrow> blk_used sp V (of_nat c) \<or> c = n"
proof -
  let ?n = "of_nat n :: uint" and ?c = "of_nat c :: uint"
  let ?V = "V(BBLOCK ?n sp := bitmap_set sp ?n True V)"
  have "BBLOCK ?c sp \<noteq> ?n" using bitmap_okD(3) [OF ok c] n(2) by auto
  then have "blk_used sp (taken_block sp ?n V) ?c = blk_used sp ?V ?c" by (simp add: taken_block_def blk_used_def)
  also have "\<dots> \<longleftrightarrow> blk_used sp V ?c \<or> ?c = ?n" using blk_used_set [where V = V and b = ?n and sp = sp and v = True and c = ?c] bitmap_okD(1) [OF ok n(1)] by auto
  also have "?c = ?n \<longleftrightarrow> c = n"
    using n(1) c unat_bound [of "sbsize sp"] by (subst of_nat_word_eq_iff) auto
  finally show ?thesis .
qed

text \<open>
  C10: inside a transaction with room for two blocks, on a file system whose bitmap is in order, \<open>balloc\<close> returns the lowest block
  that is free, marks it and nothing else in the bitmap, fills it with zeros, and changes no other block; the bitmap stays in
  order.  With no free block it panics.
\<close>

theorem balloc_correct:
  fixes s :: "'a kfs_scheme"
  assumes "in_op h d 2 s" "bitmap_ok (log_area (lstart s) (nat (lsize s))) (sb s) (view d s)"
  shows "case find (\<lambda>n. \<not> blk_used (sb s) (view d s) (of_nat n)) [0..<unat (sbsize (sb s))] of
      None \<Rightarrow> balloc h d s = None
    | Some n \<Rightarrow> \<exists>t. balloc h d s = Some (of_nat n, t) \<and> in_op h d 0 t \<and> sb t = sb s \<and> itab t = itab s \<and>
        view d t (of_nat n) = replicate BSIZE 0 \<and>
        (\<forall>c<unat (sbsize (sb s)). blk_used (sb s) (view d t) (of_nat c) = (blk_used (sb s) (view d s) (of_nat c) \<or> c = n)) \<and>
        (\<forall>m. m \<noteq> of_nat n \<and> m \<noteq> BBLOCK (of_nat n) (sb s) \<longrightarrow> view d t m = view d s m)"
proof -
  let ?f = "find (\<lambda>n. \<not> blk_used (sb s) (view d s) (of_nat n)) [0..<unat (sbsize (sb s))]"
  have op: "in_op h d (Suc (Suc 0)) s" using assms(1) by (simp add: numeral_2_eq_2)
  have "\<forall>n<unat (sbsize (sb s)). \<not> blk_used (sb s) (view d s) (of_nat n) \<longrightarrow> of_nat n \<notin> log_area (lstart s) (nat (lsize s)) \<union> {}"
    "\<forall>n<unat (sbsize (sb s)). BBLOCK (of_nat n) (sb s) \<notin> log_area (lstart s) (nat (lsize s)) \<union> {}"
    using bitmap_okD [OF assms(2)] by auto
  note spec = balloc_spec [OF op this]
  show ?thesis
  proof (cases ?f)
    case (Some n)
    then have n: "n < unat (sbsize (sb s))" "\<not> blk_used (sb s) (view d s) (of_nat n)" by (auto simp: find_Some_iff)
    from spec Some obtain t where t: "balloc h d s = Some (of_nat n, t)" "op_step h d 2 s t (taken_block (sb s) (of_nat n) (view d s))"
      by auto
    note v = op_step_view [OF t(2)] and f = op_step_kfs [OF t(2)]
    have "in_op h d 0 t" using op_step_in_op [OF t(2), of 0] assms(1) by simp
    moreover have "view d t (of_nat n) = replicate BSIZE 0" by (simp add: v taken_block_def)
    moreover have "\<forall>c<unat (sbsize (sb s)). blk_used (sb s) (view d t) (of_nat c) = (blk_used (sb s) (view d s) (of_nat c) \<or> c = n)"
      using taken_block_used [OF assms(2) n] by (simp add: v)
    moreover have "\<forall>m. m \<noteq> of_nat n \<and> m \<noteq> BBLOCK (of_nat n) (sb s) \<longrightarrow> view d t m = view d s m"
      by (simp add: v taken_block_def)
    ultimately show ?thesis using Some t(1) f by simp
  qed (use spec in simp)
qed

text \<open>
  C32: inside a transaction with room for a block, \<open>bfree\<close> of a marked block clears its bit and nothing else in the bitmap and
  changes no other block; freeing a block that is free panics.
\<close>

theorem bfree_correct:
  fixes s :: "'a kfs_scheme"
  assumes "in_op h d 1 s" "bitmap_ok (log_area (lstart s) (nat (lsize s))) (sb s) (view d s)" "n < unat (sbsize (sb s))"
  shows "if blk_used (sb s) (view d s) (of_nat n)
    then \<exists>t. bfree h d (of_nat n) s = Some t \<and> in_op h d 0 t \<and> sb t = sb s \<and> itab t = itab s \<and>
      (\<forall>c. blk_used (sb s) (view d t) c = (blk_used (sb s) (view d s) c \<and> c \<noteq> of_nat n)) \<and>
      (\<forall>m. m \<noteq> BBLOCK (of_nat n) (sb s) \<longrightarrow> view d t m = view d s m)
    else bfree h d (of_nat n) s = None"
proof -
  let ?n = "of_nat n :: uint"
  have op: "in_op h d (Suc 0) s" using assms(1) by simp
  note spec = bfree_spec [OF op bitmap_okD(2) [OF assms(2,3)]]
  show ?thesis
  proof (cases "blk_used (sb s) (view d s) ?n")
    case True
    with spec obtain t where t: "bfree h d ?n s = Some t"
      "op_step h d 1 s t ((view d s)(BBLOCK ?n (sb s) := bitmap_set (sb s) ?n False (view d s)))" by auto
    note v = op_step_view [OF t(2)] and f = op_step_kfs [OF t(2)]
    have "in_op h d 0 t" using op_step_in_op [OF t(2), of 0] assms(1) by simp
    moreover have "\<forall>c. blk_used (sb s) (view d t) c = (blk_used (sb s) (view d s) c \<and> c \<noteq> ?n)"
      using blk_used_set [where V = "view d s" and b = ?n and sp = "sb s" and v = False] bitmap_okD(1) [OF assms(2,3)] by (simp add: v)
    ultimately show ?thesis using True t(1) f v by simp
  qed (use spec in simp)
qed

section \<open>An example file system\<close>

text \<open>A freshly made cache inside an operation, on a disk whose first 46 blocks are marked.\<close>

definition example_bitmap :: bytes where
  "example_bitmap = replicate 5 0xff @ [0x3f] @ replicate 1018 0"

definition example_fs :: kfs where
  "example_fs = binit (klog.extend (boot_klog\<lparr>disk := (\<lambda>n. replicate BSIZE 0)(45 := example_bitmap), lstart := 2, lsize := 30, ldev := 1,
     outstanding := 1\<rparr>) \<lparr>sb = example_sb, itab = (\<lambda>i. \<lparr>idev = 0, inum = 0, iref = 0, ivalid = False, itype = 0, imajor = 0, iminor = 0,
       inlink = 0, isize = 0, iaddrs = (\<lambda>k. 0)\<rparr>)\<rparr>)"

lemma binit_fields:
  fixes s :: "'a kfs_scheme"
  shows "sb (binit s) = sb s" "itab (binit s) = itab s" "lstart (binit s) = lstart s" "lsize (binit s) = lsize s" "ldev (binit s) = ldev s"
    "lhn (binit s) = lhn s" "lhblock (binit s) = lhblock s"
proof -
  have loop: "sb (binit_loop k s) = sb s \<and> itab (binit_loop k s) = itab s \<and> lstart (binit_loop k s) = lstart s \<and>
    lsize (binit_loop k s) = lsize s \<and> ldev (binit_loop k s) = ldev s \<and> lhn (binit_loop k s) = lhn s \<and>
    lhblock (binit_loop k s) = lhblock s" for k and s :: "'a kfs_scheme"
    by (induction k) (auto simp: binit_body_def initsleeplock_def initlock_def upd_slock_def upd_lock_def upd_buf_def Let_def)
  show "sb (binit s) = sb s" "itab (binit s) = itab s" "lstart (binit s) = lstart s" "lsize (binit s) = lsize s" "ldev (binit s) = ldev s"
    "lhn (binit s) = lhn s" "lhblock (binit s) = lhblock s"
    by (simp_all add: binit_def Let_def loop) (simp_all add: initlock_def upd_lock_def upd_buf_def)
qed

lemma example_fs_fields:
  "sb example_fs = example_sb" "lstart example_fs = 2" "lsize example_fs = 30" "lhn example_fs = 0" "outstanding example_fs = 1" "ldev example_fs = 1"
  by (simp_all add: example_fs_def binit_fields binit_klog) (simp_all add: klog.extend_def boot_klog_def boot_bio_def bio.extend_def)

lemma example_fs_tx: "tx_inv 0 1 {} example_fs" "view 1 example_fs = (\<lambda>n. replicate BSIZE 0)(45 := example_bitmap)"
proof -
  let ?D = "(\<lambda>n. replicate BSIZE 0)(45 := example_bitmap) :: uint \<Rightarrow> bytes"
  let ?s = "klog.extend (boot_klog\<lparr>disk := ?D, lstart := 2, lsize := 30, ldev := 1, outstanding := 1\<rparr>)
    \<lparr>sb = example_sb, itab = (\<lambda>i. \<lparr>idev = 0, inum = 0, iref = 0, ivalid = False, itype = 0, imajor = 0, iminor = 0,
       inlink = 0, isize = 0, iaddrs = (\<lambda>k. 0)\<rparr>)\<rparr>"
  have f: "disk ?s = ?D" "history ?s = []" by (simp_all add: klog.extend_def boot_klog_def boot_bio_def bio.extend_def)
  have q: "quiet 0 ?s"
    by (simp add: klog.extend_def boot_klog_def boot_bio_def bio.extend_def quiet_def lock_free_def idle_cpu_def free_lock_def cpu_ok_def)
  have z: "bdev (bufs ?s b) = 0 \<and> refcnt (bufs ?s b) = 0" for b by (simp add: klog.extend_def boot_klog_def boot_bio_def bio.extend_def)
  note b = binit_ok [of ?s 1, OF z]
  have a: "abs_cache 1 example_fs = \<lparr>cview = ?D, crefs = (\<lambda>n. 0), clocks = (\<lambda>n. None), cdisk = ?D, chist = []\<rparr>"
    using b(2) f by (simp add: example_fs_def)
  then show "view 1 example_fs = ?D" by simp
  have d: "disk example_fs = ?D" using arg_cong [OF a, of cdisk] by simp
  have "committable 2 30 0 blk ?D" for blk
    by (simp add: committable_def log_disk_ok_def BSIZE_def hdr_n_def get32_zeros LOGSIZE_def example_bitmap_def)
  moreover have "quiet 0 example_fs" using quiet_binit [OF q] by (simp add: example_fs_def)
  moreover have "cache_ok 1 example_fs" using b(1) by (simp add: example_fs_def)
  ultimately show "tx_inv 0 1 {} example_fs"
    by (simp add: tx_inv_def example_fs_fields pins_def a d NBUF_def MAXOPBLOCKS_def)
qed

lemma example_in_op: "k < 30 \<Longrightarrow> in_op 0 1 k example_fs"
  by (simp add: in_op_def example_fs_tx example_fs_fields NBUF_def MAXOPBLOCKS_def)

lemma example_BBLOCK: "n < 1000 \<Longrightarrow> BBLOCK (of_nat n) example_sb = 45"
proof -
  assume n: "n < 1000"
  have "unat (of_nat n div 8192 :: uint) = 0" using n by (simp add: unat_div unsigned_of_nat take_bit_nat_eq_self)
  then have "(of_nat n div 8192 :: uint) = 0" by (simp add: word_unat_eq_iff)
  then show ?thesis by (simp add: BBLOCK_def example_sb_def)
qed

lemma example_used:
  assumes "n < 1000"
  shows "blk_used example_sb (view 1 example_fs) (of_nat n) \<longleftrightarrow> n < 46"
proof -
  have u: "unat (of_nat n :: uint) = n" using assms by (simp add: unsigned_of_nat take_bit_nat_eq_self)
  have "blk_used example_sb (view 1 example_fs) (of_nat n) \<longleftrightarrow> bit (example_bitmap ! (n div 8)) (n mod 8)"
    using assms by (simp add: blk_used_def example_BBLOCK example_fs_tx(2) u)
  also have "\<dots> \<longleftrightarrow> n < 46"
  proof -
    have m: "n mod 8 < 8" "n = 8 * (n div 8) + n mod 8" by simp_all
    consider "n div 8 < 5" | "n div 8 = 5" | "5 < n div 8" by linarith
    then show ?thesis
    proof cases
      case 1
      have "(0xff :: uchar) = mask 8" by (simp add: mask_eq_exp_minus_1)
      then have "bit (0xff :: uchar) (n mod 8)" using m(1) by (simp only: bit_mask_iff) simp
      then show ?thesis using 1 m by (auto simp: example_bitmap_def nth_append)
    next
      case 2
      have "(0x3f :: uchar) = mask 6" by (simp add: mask_eq_exp_minus_1)
      then have "bit (0x3f :: uchar) (n mod 8) \<longleftrightarrow> n mod 8 < 6" using m(1) by (simp only: bit_mask_iff) auto
      then show ?thesis using 2 m by (auto simp: example_bitmap_def nth_append)
    next
      case 3
      then have "n div 8 - 6 < 1018" using assms by simp
      then show ?thesis using 3 m by (simp add: example_bitmap_def nth_append nth_Cons')
    qed
  qed
  finally show ?thesis .
qed

lemma example_log_area: "b \<in> log_area 2 30 \<Longrightarrow> \<exists>n<46. b = of_nat n \<and> n < 32"
proof -
  assume "b \<in> log_area 2 30"
  then obtain i where "i < 30" "b = 2 + of_nat i" by (auto simp: log_area_def)
  then show ?thesis by (intro exI [of _ "2 + i"]) simp
qed

lemma example_bitmap_ok: "bitmap_ok (log_area 2 30) example_sb (view 1 example_fs)"
proof -
  have "b \<noteq> 45" if "b \<in> log_area 2 30" for b :: uint
  proof
    assume "b = 45"
    from example_log_area [OF that] obtain n where "n < 32" "b = of_nat n" by blast
    then have "unat b = n" by (simp add: unsigned_of_nat take_bit_nat_eq_self)
    then show False using \<open>b = 45\<close> \<open>n < 32\<close> by simp
  qed
  moreover have "blk_used example_sb (view 1 example_fs) b" if "b \<in> log_area 2 30" for b
    using example_log_area [OF that] example_used by fastforce
  moreover have "blk_used example_sb (view 1 example_fs) 45" using example_used [of 45] by simp
  moreover have "length (view 1 example_fs 45) = BSIZE" by (simp add: example_fs_tx(2) example_bitmap_def BSIZE_def)
  moreover have "unat (sbsize example_sb) = 1000" by (simp add: example_sb_def)
  ultimately show ?thesis by (auto simp: bitmap_ok_def example_BBLOCK)
qed

lemma example_first_free:
  "find (\<lambda>n. \<not> blk_used example_sb (view 1 example_fs) (of_nat n)) [0..<unat (sbsize example_sb)] = Some 46"
proof -
  have "unat (sbsize example_sb) = 1000" by (simp add: example_sb_def)
  moreover have "find (\<lambda>n. \<not> blk_used example_sb (view 1 example_fs) (of_nat n)) [0..<1000] = find (\<lambda>n. \<not> n < 46) [0..<1000]"
    by (rule find_cong [OF refl]) (simp add: example_used)
  moreover have "find (\<lambda>n. \<not> n < 46) [0..<1000] = Some 46" by (auto simp: find_Some_iff intro!: exI [of _ 46])
  ultimately show ?thesis by simp
qed

theorem balloc_correct_witness:
  "\<exists>t. balloc 0 1 example_fs = Some (46, t) \<and> view 1 t 46 = replicate BSIZE 0 \<and>
    (\<forall>c. c < 1000 \<longrightarrow> blk_used example_sb (view 1 t) (of_nat c) = (c < 47))"
proof -
  have "unat (sbsize example_sb) = 1000" by (simp add: example_sb_def)
  then obtain t where t: "balloc 0 1 example_fs = Some (46, t)" "view 1 t 46 = replicate BSIZE 0"
    "\<forall>c<1000. blk_used example_sb (view 1 t) (of_nat c) = (blk_used example_sb (view 1 example_fs) (of_nat c) \<or> c = 46)"
    using balloc_correct [OF example_in_op [of 2]] example_bitmap_ok example_first_free by (auto simp: example_fs_fields)
  moreover have "(c < 46 \<or> c = 46) = (c < 47)" for c :: nat by auto
  ultimately show ?thesis using example_used by auto
qed

theorem bfree_correct_witness:
  "(\<exists>t. bfree 0 1 40 example_fs = Some t \<and> (\<forall>c. blk_used example_sb (view 1 t) c = (blk_used example_sb (view 1 example_fs) c \<and> c \<noteq> 40))) \<and>
   bfree 0 1 46 example_fs = None"
proof -
  have s: "unat (sbsize (sb example_fs)) = 1000" by (simp add: example_fs_fields example_sb_def)
  have ok: "bitmap_ok (log_area (lstart example_fs) (nat (lsize example_fs))) (sb example_fs) (view 1 example_fs)"
    using example_bitmap_ok by (simp add: example_fs_fields)
  have lt: "40 < unat (sbsize (sb example_fs))" "46 < unat (sbsize (sb example_fs))" by (simp_all add: s)
  have op: "in_op 0 1 1 example_fs" by (rule example_in_op) simp
  have u: "blk_used (sb example_fs) (view 1 example_fs) (of_nat 40)" "\<not> blk_used (sb example_fs) (view 1 example_fs) (of_nat 46)"
    using example_used [of 40] example_used [of 46] by (simp_all add: example_fs_fields)
  note a = bfree_correct [OF op ok lt(1), unfolded if_P [OF u(1)]] and b = bfree_correct [OF op ok lt(2), unfolded if_not_P [OF u(2)]]
  have e: "(of_nat 40 :: uint) = 40" "(of_nat 46 :: uint) = 46" by simp_all
  show ?thesis using a b unfolding e example_fs_fields by blast
qed

end
