(* ===== verification/FsInodes.thy ===== *)
theory FsInodes
  imports FsBlocks
begin

text \<open>
  Inodes on the disk and in memory: \<open>iupdate\<close> writes an inode, \<open>ilock\<close> reads it back.
\<close>

section \<open>The inode on the disk\<close>

lemma length_put_addrs [simp]: "off + 4 * n \<le> length xs \<Longrightarrow> length (put_addrs off a n xs) = length xs"
  by (induction n) simp_all

lemma get_put_addrs:
  "off + 4 * n \<le> length xs \<Longrightarrow> k < n \<Longrightarrow> get32 (off + 4 * k) (put_addrs off a n xs) = a k"
  by (induction n) (auto simp: get_put_other less_Suc_eq)

lemma get_put_addrs_before:
  "off + 4 * n \<le> length xs \<Longrightarrow> i + 4 \<le> off \<Longrightarrow> get32 i (put_addrs off a n xs) = get32 i xs"
  "off + 4 * n \<le> length xs \<Longrightarrow> j + 2 \<le> off \<Longrightarrow> get16 j (put_addrs off a n xs) = get16 j xs"
  by (induction n) (auto simp: get_put_other)

lemma length_put_dinode: "off + sizeof_dinode \<le> length xs \<Longrightarrow> length (put_dinode off ip xs) = length xs"
  by (simp add: put_dinode_def sizeof_dinode_def NDIRECT_def)

text \<open>The part of an inode that is on the disk.\<close>

definition same_dinode :: "inode \<Rightarrow> inode \<Rightarrow> bool" where
  "same_dinode x y \<longleftrightarrow> itype x = itype y \<and> imajor x = imajor y \<and> iminor x = iminor y \<and> inlink x = inlink y \<and>
     isize x = isize y \<and> (\<forall>k<NDIRECT + 1. iaddrs x k = iaddrs y k)"

lemma get_put_dinode:
  assumes "off + sizeof_dinode \<le> length xs"
  shows "same_dinode (get_dinode off (put_dinode off ip xs) jp) ip"
proof -
  have l: "off + 64 \<le> length xs" using assms by (simp add: sizeof_dinode_def NDIRECT_def)
  define ys where "ys = put32 (off + 8) (isize ip) (put16 (off + 6) (inlink ip) (put16 (off + 4) (iminor ip)
         (put16 (off + 2) (imajor ip) (put16 off (itype ip) xs))))"
  have ly: "length ys = length xs" using l by (simp add: ys_def)
  have p: "put_dinode off ip xs = put_addrs (off + 12) (iaddrs ip) 13 ys" by (simp add: put_dinode_def ys_def NDIRECT_def)
  have room: "off + 12 + 4 * 13 \<le> length ys" using l ly by simp
  have "get32 (off + 12 + 4 * k) (put_dinode off ip xs) = iaddrs ip k" if "k < 13" for k
    unfolding p using get_put_addrs [OF room that] by simp
  moreover have "get16 off ys = itype ip" "get16 (off + 2) ys = imajor ip" "get16 (off + 4) ys = iminor ip"
    "get16 (off + 6) ys = inlink ip" "get32 (off + 8) ys = isize ip"
    using l by (simp_all add: ys_def get_put_other)
  ultimately show ?thesis
    using get_put_addrs_before [OF room] by (simp add: same_dinode_def get_dinode_def p NDIRECT_def)
qed

lemma nth_put:
  "off + 4 \<le> length xs \<Longrightarrow> i < length xs \<Longrightarrow> i < off \<or> off + 4 \<le> i \<Longrightarrow> put32 off v xs ! i = xs ! i"
  "off + 2 \<le> length xs \<Longrightarrow> i < length xs \<Longrightarrow> i < off \<or> off + 2 \<le> i \<Longrightarrow> put16 off u xs ! i = xs ! i"
  by (auto simp: put32_def put16_def nth_splice_at)

lemma nth_put_addrs:
  "off + 4 * n \<le> length xs \<Longrightarrow> i < length xs \<Longrightarrow> i < off \<or> off + 4 * n \<le> i \<Longrightarrow> put_addrs off a n xs ! i = xs ! i"
  by (induction n) (auto simp: nth_put)

lemma slice_put_dinode_other:
  assumes "off + sizeof_dinode \<le> length xs" "j + k \<le> length xs" "j + k \<le> off \<or> off + sizeof_dinode \<le> j"
  shows "slice j k (put_dinode off ip xs) = slice j k xs"
proof (rule nth_equalityI)
  fix i assume "i < length (slice j k (put_dinode off ip xs))"
  then have i: "i < k" using assms(2) by (simp add: length_put_dinode [OF assms(1)])
  have "put_dinode off ip xs ! (j + i) = xs ! (j + i)"
    using assms i by (auto simp: put_dinode_def sizeof_dinode_def NDIRECT_def nth_put_addrs nth_put)
  then show "slice j k (put_dinode off ip xs) ! i = slice j k xs ! i"
    using i assms(2) by (simp add: nth_slice length_put_dinode [OF assms(1)])
qed (use assms in \<open>simp add: length_put_dinode\<close>)

text \<open>The bytes of the inode \<open>i\<close>.\<close>

definition dinode_bytes :: "superblock \<Rightarrow> (uint \<Rightarrow> bytes) \<Rightarrow> uint \<Rightarrow> bytes" where
  "dinode_bytes sp V i = slice (dinode_off i) sizeof_dinode (V (IBLOCK i sp))"

lemma dinode_off_bound: "dinode_off i + sizeof_dinode \<le> BSIZE"
proof -
  have "unat i mod 16 < 16" by simp
  then have "unat i mod 16 \<le> 15" by linarith
  then show ?thesis by (simp add: dinode_off_def sizeof_dinode_def NDIRECT_def IPB_def BSIZE_def)
qed

lemma IBLOCK_other:
  assumes "i \<noteq> j" "IBLOCK i sp = IBLOCK j sp"
  shows "dinode_off i + sizeof_dinode \<le> dinode_off j \<or> dinode_off j + sizeof_dinode \<le> dinode_off i"
proof -
  have "i div 16 = j div 16" using assms(2) by (simp add: IBLOCK_def IPB_def BSIZE_def sizeof_dinode_def NDIRECT_def)
  then have "unat i div 16 = unat j div 16" by (simp add: word_unat_eq_iff unat_div)
  moreover have "unat i \<noteq> unat j" using assms(1) by (simp add: word_unat_eq_iff)
  ultimately have "unat i mod 16 \<noteq> unat j mod 16" by (metis div_mult_mod_eq)
  then show ?thesis by (auto simp: dinode_off_def IPB_def BSIZE_def sizeof_dinode_def NDIRECT_def neq_iff)
qed

section \<open>Writing and reading an inode\<close>

lemma iupdate_spec:
  fixes s :: "'a kfs_scheme"
  assumes op: "in_op h d (Suc k) s" and dev: "idev (itab s ip) = d"
    and home: "IBLOCK (inum (itab s ip)) (sb s) \<notin> log_area (lstart s) (nat (lsize s))"
  shows "\<exists>t. iupdate h ip s = Some t \<and> op_step h d 1 s t ((view d s)(IBLOCK (inum (itab s ip)) (sb s) :=
    put_dinode (dinode_off (inum (itab s ip))) (itab s ip) (view d s (IBLOCK (inum (itab s ip)) (sb s)))))"
proof -
  let ?n = "IBLOCK (inum (itab s ip)) (sb s)"
  from op_write [OF op _ home] obtain b t where t: "bread h d ?n s = Some (b, t)" "bdata (bufs t b) = view d s ?n" "klog_frame s t"
    "\<And>v. \<exists>u. (do { s \<leftarrow> log_write h b (set_data b v t); brelse h b s }) = Some u \<and> op_step h d 1 s u ((view d s)(?n := v))" by (metis empty_iff)
  have "itab t = itab s" using arg_cong [OF t(3) [unfolded klog_frame_def], of itab] by simp
  moreover obtain u where "(do { s \<leftarrow> log_write h b (set_data b (put_dinode (dinode_off (inum (itab s ip))) (itab s ip) (view d s ?n)) t); brelse h b s }) = Some u"
    "op_step h d 1 s u ((view d s)(?n := put_dinode (dinode_off (inum (itab s ip))) (itab s ip) (view d s ?n)))" using t(4) by blast
  ultimately show ?thesis using t(1,2) dev by (auto simp: iupdate_def)
qed

text \<open>Parts of the state that a transaction does not depend on.\<close>

lemma abs_cache_cong':
  assumes "bufs t = bufs s" "\<forall>b. slocks t (BufLock b) = slocks s (BufLock b)" "disk t = disk s" "history t = history s"
  shows "abs_cache d t = abs_cache d s" "cache_ok d t = cache_ok d s"
  using assms by (simp_all add: abs_cache_def cache_ok_def cong: option.case_cong if_cong)

lemma tx_inv_cong:
  fixes s t :: "'a klog_scheme"
  assumes "bufs t = bufs s" "\<forall>b. slocks t (BufLock b) = slocks s (BufLock b)" "disk t = disk s" "history t = history s"
    and "lstart t = lstart s" "lsize t = lsize s" "ldev t = ldev s" "lhn t = lhn s" "lhblock t = lhblock s"
    and "quiet h t = quiet h s" "me_pid h t = me_pid h s"
  shows "tx_inv h d H t = tx_inv h d H s"
  unfolding tx_inv_def pins_def abs_cache_cong' [OF assms(1-4)] using assms(3-) by simp

lemma upd_inode_simps [simp]:
  "itab (upd_inode i f s) = (itab s)(i := f (itab s i))" "sb (upd_inode i f s) = sb s" "bufs (upd_inode i f s) = bufs s"
  "slocks (upd_inode i f s) = slocks s" "disk (upd_inode i f s) = disk s" "history (upd_inode i f s) = history s"
  "lstart (upd_inode i f s) = lstart s" "lsize (upd_inode i f s) = lsize s" "ldev (upd_inode i f s) = ldev s"
  "lhn (upd_inode i f s) = lhn s" "lhblock (upd_inode i f s) = lhblock s" "cpus (upd_inode i f s) = cpus s" "locks (upd_inode i f s) = locks s"
  "procs (upd_inode i f s) = procs s" "outstanding (upd_inode i f s) = outstanding s"
  by (simp_all add: upd_inode_def)

lemma upd_inode_tx: "tx_inv h d H (upd_inode i f s) = tx_inv h d H s" "abs_cache d (upd_inode i f s) = abs_cache d s"
  by (rule tx_inv_cong, simp_all add: quiet_def lock_free_def me_pid_def) (rule abs_cache_cong'(1), simp_all)

text \<open>The buffer cache leaves the locks of inodes alone.\<close>

lemma slocks_basic:
  "acquire h l s = Some t \<Longrightarrow> slocks t = slocks s" "release h l s = Some t \<Longrightarrow> slocks t = slocks s"
  "myproc h s = Some (me, t) \<Longrightarrow> slocks t = slocks s" "slocks (upd_buf b f v) = slocks v" "slocks (disk_rw b w v) = slocks v"
  by (auto dest!: acquire_Some simp: taken_def upd_lock_def upd_cpu_def release_eq myproc_def push_off_eq pop_off_eq upd_buf_def disk_rw_def
      Let_def split: if_splits)

lemma slocks_wakeup: "wakeup h ch s = Some t \<Longrightarrow> slocks t = slocks s"
proof -
  have body: "slocks u = slocks v" if "wakeup_body h ch p v = Some u" for p and u v :: "'a kslk_scheme"
    using that by (auto simp: wakeup_body_def Let_def upd_proc_def dest!: slocks_basic(1-3) split: if_splits)
  have "slocks u = slocks v" if "for_each (wakeup_body h ch) ps v = Some u" for ps and u v :: "'a kslk_scheme"
    using that by (induction ps arbitrary: v) (auto dest!: body)
  then show "wakeup h ch s = Some t \<Longrightarrow> slocks t = slocks s" by (simp add: wakeup_def)
qed

lemma slocks_sleeplock:
  "acquiresleep h l s = Some t \<Longrightarrow> k \<noteq> l \<Longrightarrow> slocks t k = slocks s k"
  "releasesleep h l s = Some t \<Longrightarrow> k \<noteq> l \<Longrightarrow> slocks t k = slocks s k"
  "holdingsleep h l s = Some (r, t) \<Longrightarrow> slocks t k = slocks s k"
  by (auto simp: acquiresleep_def releasesleep_def holdingsleep_def upd_slock_def Let_def dest!: slocks_basic(1-3) slocks_wakeup split: if_splits)

lemma slocks_bio:
  "bread h d n s = Some (b, t) \<Longrightarrow> slocks t (InodeLock i) = slocks s (InodeLock i)"
  "brelse h b s = Some t \<Longrightarrow> slocks t (InodeLock i) = slocks s (InodeLock i)"
  by (auto simp: bread_def bget_def brelse_def Let_def slocks_basic(4,5) dest!: slocks_basic(1-3) slocks_sleeplock(1,2) [where k = "InodeLock i"]
      slocks_sleeplock(3) [where k = "InodeLock i"] split: if_splits option.splits)

lemma bio_frame_kfs:
  fixes s :: "'a kfs_scheme"
  assumes "bio_frame s t"
  shows "itab t = itab s" "sb t = sb s"
  using assms by (auto simp: bio_frame_def)

text \<open>Reading a block, changing only an inode in memory, and releasing the block.\<close>

lemma tx_peek:
  fixes s :: "'a kfs_scheme"
  assumes tx: "tx_inv h d {} s"
  obtains b t where "bread h d n s = Some (b, t)" "bdata (bufs t b) = view d s n" "itab t = itab s" "sb t = sb s"
    "\<And>i f. \<exists>w. brelse h b (upd_inode i f t) = Some w \<and> tx_inv h d {} w \<and> view d w = view d s \<and> itab w = (itab s)(i := f (itab s i)) \<and> sb w = sb s \<and>
      lstart w = lstart s \<and> lsize w = lsize s \<and> lhn w = lhn s \<and> outstanding w = outstanding s \<and>
      (\<forall>j. slocks w (InodeLock j) = slocks s (InodeLock j))"
proof -
  have "card (pins s \<union> {}) < NBUF" using card_pins [OF tx] tx_invD(6) [OF tx] by (simp add: NBUF_def MAXOPBLOCKS_def)
  with tx_bread [OF tx, of n] obtain b t where t: "bread h d n s = Some (b, t)" "mine h d t n b" "bdata (bufs t b) = view d s n"
    "tx_inv h d {n} t" "pins t = pins s" "bio_frame s t" "view d t = view d s" "disk t = disk s" by auto
  note ft = bio_frame_kfs [OF t(6)] bio_frame_klog [OF t(6)]
  have "\<exists>w. brelse h b (upd_inode i f t) = Some w \<and> tx_inv h d {} w \<and> view d w = view d s \<and> itab w = (itab s)(i := f (itab s i)) \<and> sb w = sb s \<and>
      lstart w = lstart s \<and> lsize w = lsize s \<and> lhn w = lhn s \<and> outstanding w = outstanding s \<and>
      (\<forall>j. slocks w (InodeLock j) = slocks s (InodeLock j))" for i f
  proof -
    let ?u = "upd_inode i f t"
    have tu: "tx_inv h d {n} ?u" using t(4) by (simp add: upd_inode_tx)
    have mu: "mine h d ?u n b" using t(2) by (simp add: mine_def upd_inode_tx me_pid_def)
    have pu: "pins ?u = pins s" using t(5) by (simp add: pins_def)
    have "n \<in> pins ?u \<or> view d ?u n = disk ?u n"
    proof (cases "n \<in> pins s")
      case False
      then have "crefs (abs_cache d s) n = 0" using tx_invD(8) [OF tx, of n] by simp
      then show ?thesis using clean_abs [OF tx_invD(2) [OF tx]] t(7,8) by (auto simp: upd_inode_tx)
    qed (simp add: pu)
    from tx_brelse [OF tu mu this] obtain w where w: "brelse h b ?u = Some w" "tx_inv h d ({n} - {n}) w" "bio_frame ?u w" "view d w = view d ?u"
      by blast
    note fw = bio_frame_kfs [OF w(3)] bio_frame_klog [OF w(3)]
    show ?thesis
      using w t(7) ft fw slocks_bio(1) [OF t(1)] slocks_bio(2) [OF w(1)] by (intro exI [of _ w]) (simp add: upd_inode_tx)
  qed
  then show thesis using that [OF t(1,3)] ft by blast
qed

lemma ilock_spec:
  fixes s :: "'a kfs_scheme"
  assumes op: "in_op h d k s" and free: "slocked (slocks s (InodeLock ip)) = 0" and ref: "1 \<le> iref (itab s ip)"
    and inv: "\<not> ivalid (itab s ip)" and dev: "idev (itab s ip) = d"
    and ty: "get16 (dinode_off (inum (itab s ip))) (view d s (IBLOCK (inum (itab s ip)) (sb s))) \<noteq> 0"
  shows "\<exists>t. ilock h ip s = Some t \<and> in_op h d k t \<and> view d t = view d s \<and> sb t = sb s \<and> lstart t = lstart s \<and> lsize t = lsize s \<and>
    slocked (slocks t (InodeLock ip)) = 1 \<and> slpid (slocks t (InodeLock ip)) = me_pid h s \<and>
    itab t = (itab s)(ip := (get_dinode (dinode_off (inum (itab s ip))) (view d s (IBLOCK (inum (itab s ip)) (sb s))) (itab s ip))\<lparr>ivalid := True\<rparr>)"
proof -
  have tx: "tx_inv h d {} s" using op by (simp add: in_op_def)
  let ?n = "IBLOCK (inum (itab s ip)) (sb s)" and ?L = "(slocks s)(InodeLock ip := (slocks s (InodeLock ip))\<lparr>slocked := 1, slpid := me_pid h s\<rparr>)"
  let ?a = "(settle h s)\<lparr>slocks := ?L\<rparr>" and ?g = "get_dinode (dinode_off (inum (itab s ip))) (view d s (IBLOCK (inum (itab s ip)) (sb s)))"
  have acq: "acquiresleep h (InodeLock ip) s = Some ?a" by (rule acquiresleep_eq [OF tx_invD(1) [OF tx] free])
  have fa: "itab ?a = itab s" "sb ?a = sb s" "bufs ?a = bufs s" "disk ?a = disk s" "history ?a = history s" "outstanding ?a = outstanding s"
    "lhn ?a = lhn s" "lsize ?a = lsize s" "lstart ?a = lstart s" by (simp_all add: upd_cpu_def)
  have ta: "tx_inv h d {} ?a" using tx quiet_step_quiet [OF quiet_step_settle tx_invD(1) [OF tx]]
    by (subst tx_inv_cong [where s = s]) (simp_all add: quiet_def lock_free_def me_pid_def fa tx_invD(1) [OF tx, unfolded quiet_def])
  have aa: "abs_cache d ?a = abs_cache d s" by (rule abs_cache_cong'(1)) (simp_all add: fa)
  obtain b t where t: "bread h d ?n ?a = Some (b, t)" "bdata (bufs t b) = view d s ?n" "itab t = itab s" "sb t = sb s"
    "\<And>i f. \<exists>w. brelse h b (upd_inode i f t) = Some w \<and> tx_inv h d {} w \<and> view d w = view d s \<and> itab w = (itab s)(i := f (itab s i)) \<and> sb w = sb s \<and>
      lstart w = lstart s \<and> lsize w = lsize s \<and> lhn w = lhn s \<and> outstanding w = outstanding s \<and>
      (\<forall>j. slocks w (InodeLock j) = slocks ?a (InodeLock j))"
    using tx_peek [OF ta, of ?n] unfolding aa fa by metis
  obtain w where w: "brelse h b (upd_inode ip ?g t) = Some w" "tx_inv h d {} w" "view d w = view d s" "itab w = (itab s)(ip := ?g (itab s ip))"
    "sb w = sb s" "lsize w = lsize s" "lhn w = lhn s" "outstanding w = outstanding s" "lstart w = lstart s"
    "slocks w (InodeLock ip) = slocks ?a (InodeLock ip)" using t(5) [of ip ?g] by blast
  let ?w = "upd_inode ip (\<lambda>x. x\<lparr>ivalid := True\<rparr>) w"
  have "itype (itab ?w ip) \<noteq> 0" using ty w(4) by (simp add: get_dinode_def)
  then have "ilock h ip s = Some ?w" using acq ref inv dev t(1-4) w(1) fa by (simp add: ilock_def)
  moreover have "in_op h d k ?w" using op w by (simp add: in_op_def upd_inode_tx)
  ultimately show ?thesis using w by (simp add: upd_inode_tx)
qed

lemma slocks_iupdate: "iupdate h ip s = Some t \<Longrightarrow> slocks t (InodeLock i) = slocks s (InodeLock i)"
  by (auto simp: iupdate_def log_write_def bpin_def set_data_def slocks_basic(4) Let_def
      dest!: slocks_basic(1-3) slocks_bio [where i = i] split: if_splits)

text \<open>
  C31: inside a transaction, \<open>iupdate\<close> of an inode returns and changes the bytes of no other inode on the disk; and
  \<open>ilock\<close> of any entry of the inode table for the same inode whose contents are not there yet then returns with the lock held and
  the type, device numbers, link count, size and block addresses that were written.
\<close>

theorem iupdate_ilock_roundtrip:
  fixes s :: "'a kfs_scheme"
  assumes "in_op h d 1 s" "idev (itab s ip) = d" "itype (itab s ip) \<noteq> 0"
    and "IBLOCK (inum (itab s ip)) (sb s) \<notin> log_area (lstart s) (nat (lsize s))"
    and "length (view d s (IBLOCK (inum (itab s ip)) (sb s))) = BSIZE"
  shows "\<exists>t. iupdate h ip s = Some t \<and> itab t = itab s \<and>
    (\<forall>j. slocks t (InodeLock j) = slocks s (InodeLock j)) \<and>
    (\<forall>j. j \<noteq> inum (itab s ip) \<longrightarrow> dinode_bytes (sb s) (view d t) j = dinode_bytes (sb s) (view d s) j) \<and>
    (\<forall>jp x. slocked (slocks t (InodeLock jp)) = 0 \<and> 1 \<le> iref x \<and> \<not> ivalid x \<and> idev x = d \<and> inum x = inum (itab s ip) \<longrightarrow>
      (\<exists>u. ilock h jp (upd_inode jp (\<lambda>_. x) t) = Some u \<and> same_dinode (itab u jp) (itab s ip) \<and> ivalid (itab u jp) \<and>
        slocked (slocks u (InodeLock jp)) = 1 \<and> slpid (slocks u (InodeLock jp)) = me_pid h t))"
proof -
  let ?i = "inum (itab s ip)"
  let ?n = "IBLOCK ?i (sb s)" and ?off = "dinode_off ?i"
  let ?v = "put_dinode ?off (itab s ip) (view d s ?n)"
  have op: "in_op h d (Suc 0) s" using assms(1) by simp
  obtain t where t: "iupdate h ip s = Some t" "op_step h d 1 s t ((view d s)(?n := ?v))"
    using iupdate_spec [OF op assms(2,4)] by blast
  note v = op_step_view [OF t(2)] and f = op_step_kfs [OF t(2)]
  have t0: "in_op h d 0 t" using op_step_in_op [OF t(2), of 0] assms(1) by simp
  have room: "?off + sizeof_dinode \<le> length (view d s ?n)" using dinode_off_bound assms(5) by simp
  have dt: "same_dinode (get_dinode ?off (view d t ?n) x) (itab s ip)" for x
    using get_put_dinode [OF room] by (simp add: v)
  have "dinode_bytes (sb s) (view d t) j = dinode_bytes (sb s) (view d s) j" if "j \<noteq> ?i" for j
  proof (cases "IBLOCK j (sb s) = ?n")
    case True
    then show ?thesis
      using IBLOCK_other [OF that True] slice_put_dinode_other [OF room] dinode_off_bound [of j] assms(5)
      by (auto simp: dinode_bytes_def v)
  qed (simp add: dinode_bytes_def v)
  moreover have "\<exists>u. ilock h jp (upd_inode jp (\<lambda>_. x) t) = Some u \<and> same_dinode (itab u jp) (itab s ip) \<and> ivalid (itab u jp) \<and>
        slocked (slocks u (InodeLock jp)) = 1 \<and> slpid (slocks u (InodeLock jp)) = me_pid h t"
    if x: "slocked (slocks t (InodeLock jp)) = 0 \<and> 1 \<le> iref x \<and> \<not> ivalid x \<and> idev x = d \<and> inum x = ?i" for jp x
  proof -
    let ?t = "upd_inode jp (\<lambda>_. x) t"
    have "in_op h d 0 ?t" using t0 by (simp add: in_op_def upd_inode_tx)
    moreover have "get16 ?off (view d t ?n) = itype (itab s ip)" using dt [of x] by (simp add: same_dinode_def get_dinode_def)
    moreover have "me_pid h ?t = me_pid h t" by (simp add: me_pid_def)
    ultimately obtain u where "ilock h jp ?t = Some u" "slocked (slocks u (InodeLock jp)) = 1" "slpid (slocks u (InodeLock jp)) = me_pid h t"
      "itab u = (itab ?t)(jp := (get_dinode ?off (view d t ?n) x)\<lparr>ivalid := True\<rparr>)"
      using ilock_spec [of h d 0 ?t jp] x f assms(3) by (auto simp: upd_inode_tx)
    then show ?thesis using dt [of x] by (auto simp: same_dinode_def)
  qed
  ultimately show ?thesis using t(1) f slocks_iupdate [OF t(1)] by blast
qed

theorem iupdate_ilock_roundtrip_witness:
  "\<exists>t u. iupdate 0 3 (upd_inode 3 (\<lambda>x. x\<lparr>idev := 1, inum := 21, itype := T_FILE, isize := 0x12345\<rparr>) example_fs) = Some t \<and>
    ilock 0 7 (upd_inode 7 (\<lambda>_. \<lparr>idev = 1, inum = 21, iref = 1, ivalid = False, itype = 9, imajor = 9, iminor = 9, inlink = 9, isize = 9,
      iaddrs = (\<lambda>k. 9)\<rparr>) t) = Some u \<and> itype (itab u 7) = T_FILE \<and> isize (itab u 7) = 0x12345 \<and> ivalid (itab u 7)"
proof -
  let ?s = "upd_inode 3 (\<lambda>x. x\<lparr>idev := 1, inum := 21, itype := T_FILE, isize := 0x12345\<rparr>) example_fs"
  let ?x = "\<lparr>idev = 1, inum = 21, iref = 1, ivalid = False, itype = 9, imajor = 9, iminor = 9, inlink = 9, isize = 9, iaddrs = (\<lambda>k. 9 :: uint)\<rparr>"
  have op: "in_op 0 1 2 ?s" using example_in_op [of 2] by (simp add: in_op_def upd_inode_tx)
  have n: "IBLOCK 21 example_sb = 33" by (simp add: IBLOCK_def example_sb_def IPB_def BSIZE_def sizeof_dinode_def NDIRECT_def)
  have home: "(33 :: uint) \<notin> log_area 2 30"
  proof
    assume "(33 :: uint) \<in> log_area 2 30"
    from example_log_area [OF this] obtain k where "k < 32" "(33 :: uint) = of_nat k" by blast
    then have "unat (33 :: uint) = k" by (simp only: unsigned_of_nat take_bit_nat_eq_self) (simp add: take_bit_nat_eq_self)
    then show False using \<open>k < 32\<close> by simp
  qed
  have v: "view 1 ?s 33 = replicate BSIZE 0" by (simp add: upd_inode_tx example_fs_tx(2))
  have fr: "slocked (slocks example_fs (InodeLock j)) = 0" for j
  proof -
    have loop: "slocks (binit_loop k s) (InodeLock j) = slocks s (InodeLock j)" for k and s :: kfs
      by (induction k) (auto simp: binit_body_def initsleeplock_def initlock_def upd_slock_def upd_lock_def upd_buf_def Let_def)
    show ?thesis
      by (simp add: example_fs_def binit_def Let_def loop)
        (simp add: initlock_def upd_lock_def upd_buf_def klog.extend_def boot_klog_def boot_bio_def bio.extend_def)
  qed
  have op1: "in_op 0 1 1 ?s" using op by (auto simp: in_op_def)
  have i: "itab ?s 3 = (itab example_fs 3)\<lparr>idev := 1, inum := 21, itype := T_FILE, isize := 0x12345\<rparr>" "sb ?s = example_sb"
    "lstart ?s = 2" "lsize ?s = 30" by (simp_all add: example_fs_fields)
  have "\<exists>t. iupdate 0 3 ?s = Some t \<and> itab t = itab ?s \<and> (\<forall>j. slocks t (InodeLock j) = slocks ?s (InodeLock j)) \<and>
    (\<forall>j. j \<noteq> inum (itab ?s 3) \<longrightarrow> dinode_bytes (sb ?s) (view 1 t) j = dinode_bytes (sb ?s) (view 1 ?s) j) \<and>
    (\<forall>jp x. slocked (slocks t (InodeLock jp)) = 0 \<and> 1 \<le> iref x \<and> \<not> ivalid x \<and> idev x = 1 \<and> inum x = inum (itab ?s 3) \<longrightarrow>
      (\<exists>u. ilock 0 jp (upd_inode jp (\<lambda>_. x) t) = Some u \<and> same_dinode (itab u jp) (itab ?s 3) \<and> ivalid (itab u jp) \<and>
        slocked (slocks u (InodeLock jp)) = 1 \<and> slpid (slocks u (InodeLock jp)) = me_pid 0 t))"
    by (rule iupdate_ilock_roundtrip [OF op1]) (use home v n in \<open>simp_all add: example_fs_fields T_FILE_def\<close>)
  then obtain t where t: "iupdate 0 3 ?s = Some t" "slocks t (InodeLock 7) = slocks ?s (InodeLock 7)"
    "\<forall>jp x. slocked (slocks t (InodeLock jp)) = 0 \<and> 1 \<le> iref x \<and> \<not> ivalid x \<and> idev x = 1 \<and> inum x = inum (itab ?s 3) \<longrightarrow>
      (\<exists>u. ilock 0 jp (upd_inode jp (\<lambda>_. x) t) = Some u \<and> same_dinode (itab u jp) (itab ?s 3) \<and> ivalid (itab u jp) \<and>
        slocked (slocks u (InodeLock jp)) = 1 \<and> slpid (slocks u (InodeLock jp)) = me_pid 0 t)" by blast
  have "slocked (slocks t (InodeLock 7)) = 0 \<and> 1 \<le> iref ?x \<and> \<not> ivalid ?x \<and> idev ?x = 1 \<and> inum ?x = inum (itab ?s 3)"
    using t(2) fr by simp
  with t(3) obtain u where "ilock 0 7 (upd_inode 7 (\<lambda>_. ?x) t) = Some u" "same_dinode (itab u 7) (itab ?s 3)" "ivalid (itab u 7)" by blast
  then show ?thesis using t(1) by (auto simp: same_dinode_def i(1))
qed

end
