(* ===== verification/FsFiles.thy ===== *)
theory FsFiles
  imports FsInodes
begin

text \<open>
  The contents of files in \<^verbatim>\<open>kernel/fs.c\<close>: which block holds which part of a file, what it means that an inode's blocks are its own,
  and that \<open>bmap\<close>, \<open>readi\<close> and \<open>writei\<close> read and write the bytes of the file and no others.
\<close>

section \<open>The blocks of a file\<close>

text \<open>The address of block \<open>bn\<close> of a file, 0 when there is none, and a byte of the file (a hole reads as 0 here).\<close>

definition block_of :: "(uint \<Rightarrow> bytes) \<Rightarrow> inode \<Rightarrow> nat \<Rightarrow> uint" where
  "block_of V x bn =
     (if bn < NDIRECT then iaddrs x bn
      else if iaddrs x NDIRECT = 0 then 0
      else get32 (4 * (bn - NDIRECT)) (V (iaddrs x NDIRECT)))"

definition file_byte :: "(uint \<Rightarrow> bytes) \<Rightarrow> inode \<Rightarrow> nat \<Rightarrow> uchar" where
  "file_byte V x i = (let a = block_of V x (i div BSIZE) in if a = 0 then 0 else V a ! (i mod BSIZE))"

definition bitmap_blocks :: "superblock \<Rightarrow> uint set" where
  "bitmap_blocks sp = (\<lambda>n. BBLOCK (of_nat n) sp) ` {..<unat (sbsize sp)}"

text \<open>A block for data: marked, and neither in the log, nor in the bitmap, nor the block of the inode \<open>i\<close>.\<close>

definition data_block :: "uint set \<Rightarrow> superblock \<Rightarrow> uint \<Rightarrow> (uint \<Rightarrow> bytes) \<Rightarrow> uint \<Rightarrow> bool" where
  "data_block L sp i V a \<longleftrightarrow> unat a < unat (sbsize sp) \<and> blk_used sp V a \<and> a \<notin> L \<and> a \<notin> bitmap_blocks sp \<and> a \<noteq> IBLOCK i sp"

text \<open>
  The layout of the file system around the inode \<open>x\<close>, whose log occupies the blocks \<open>L\<close>: all blocks are whole, the bitmap is in order,
  and the blocks of the inode are data blocks, different from each other.
\<close>

definition layout_ok :: "uint set \<Rightarrow> superblock \<Rightarrow> uint \<Rightarrow> (uint \<Rightarrow> bytes) \<Rightarrow> bool" where
  "layout_ok L sp i V \<longleftrightarrow> bitmap_ok L sp V \<and> (\<forall>b. length (V b) = BSIZE) \<and> (\<forall>b\<in>L. unat b < unat (sbsize sp)) \<and>
     0 < unat (sbsize sp) \<and> blk_used sp V 0 \<and>
     unat (IBLOCK i sp) < unat (sbsize sp) \<and> blk_used sp V (IBLOCK i sp) \<and> IBLOCK i sp \<notin> L \<and> IBLOCK i sp \<notin> bitmap_blocks sp \<and>
     IBLOCK i sp \<noteq> 0"

definition file_ok :: "uint set \<Rightarrow> superblock \<Rightarrow> (uint \<Rightarrow> bytes) \<Rightarrow> inode \<Rightarrow> bool" where
  "file_ok L sp V x \<longleftrightarrow> layout_ok L sp (inum x) V \<and>
     (iaddrs x NDIRECT \<noteq> 0 \<longrightarrow> data_block L sp (inum x) V (iaddrs x NDIRECT)) \<and>
     (\<forall>bn<MAXFILE. block_of V x bn \<noteq> 0 \<longrightarrow> data_block L sp (inum x) V (block_of V x bn) \<and> block_of V x bn \<noteq> iaddrs x NDIRECT) \<and>
     inj_on (block_of V x) {bn. bn < MAXFILE \<and> block_of V x bn \<noteq> 0}"

text \<open>A block that was just allocated, and is not yet part of the file.\<close>

definition fresh_block :: "uint set \<Rightarrow> superblock \<Rightarrow> (uint \<Rightarrow> bytes) \<Rightarrow> inode \<Rightarrow> uint \<Rightarrow> bool" where
  "fresh_block L sp V x n \<longleftrightarrow> n \<noteq> 0 \<and> data_block L sp (inum x) V n \<and> V n = replicate BSIZE 0 \<and>
     n \<noteq> iaddrs x NDIRECT \<and> (\<forall>bn<MAXFILE. block_of V x bn \<noteq> n)"

definition free_blocks :: "superblock \<Rightarrow> (uint \<Rightarrow> bytes) \<Rightarrow> nat set" where
  "free_blocks sp V = {n. n < unat (sbsize sp) \<and> \<not> blk_used sp V (of_nat n)}"

lemma file_okD:
  assumes "file_ok L sp V x"
  shows "layout_ok L sp (inum x) V" "iaddrs x NDIRECT \<noteq> 0 \<Longrightarrow> data_block L sp (inum x) V (iaddrs x NDIRECT)"
    "bn < MAXFILE \<Longrightarrow> block_of V x bn \<noteq> 0 \<Longrightarrow> data_block L sp (inum x) V (block_of V x bn) \<and> block_of V x bn \<noteq> iaddrs x NDIRECT"
    "bn < MAXFILE \<Longrightarrow> bn' < MAXFILE \<Longrightarrow> block_of V x bn \<noteq> 0 \<Longrightarrow> block_of V x bn' = block_of V x bn \<Longrightarrow> bn' = bn"
  using assms by (auto simp: file_ok_def dest: inj_onD)

lemma layout_okD:
  assumes "layout_ok L sp i V"
  shows "bitmap_ok L sp V" "length (V b) = BSIZE" "b \<in> L \<Longrightarrow> unat b < unat (sbsize sp)" "blk_used sp V 0" "0 < unat (sbsize sp)"
    "unat (IBLOCK i sp) < unat (sbsize sp)" "blk_used sp V (IBLOCK i sp)" "IBLOCK i sp \<notin> L" "IBLOCK i sp \<notin> bitmap_blocks sp" "IBLOCK i sp \<noteq> 0"
  using assms by (auto simp: layout_ok_def)

subsection \<open>Changes that leave the layout alone\<close>

lemma BBLOCK_bitmap: "unat b < unat (sbsize sp) \<Longrightarrow> BBLOCK b sp \<in> bitmap_blocks sp"
  unfolding bitmap_blocks_def by (rule image_eqI [of _ _ "unat b"]) simp_all

lemma blk_used_cong:
  "(\<And>b. b \<in> bitmap_blocks sp \<Longrightarrow> V' b = V b) \<Longrightarrow> unat b < unat (sbsize sp) \<Longrightarrow> blk_used sp V' b = blk_used sp V b"
  by (simp add: blk_used_def BBLOCK_bitmap)

lemma free_cong: "(\<And>b. b \<in> bitmap_blocks sp \<Longrightarrow> V' b = V b) \<Longrightarrow> free_blocks sp V' = free_blocks sp V"
proof -
  assume same: "\<And>b. b \<in> bitmap_blocks sp \<Longrightarrow> V' b = V b"
  have "blk_used sp V' (of_nat k) = blk_used sp V (of_nat k)" if "k < unat (sbsize sp)" for k
    using that unat_bound [of "sbsize sp"] by (intro blk_used_cong [OF same]) (simp_all add: unsigned_of_nat take_bit_nat_eq_self)
  then show ?thesis by (auto simp: free_blocks_def)
qed

lemma layout_cong:
  assumes ok: "layout_ok L sp i V" and same: "\<And>b. b \<in> bitmap_blocks sp \<Longrightarrow> V' b = V b" and len: "\<And>b. length (V' b) = BSIZE"
  shows "layout_ok L sp i V'"
proof -
  note o = layout_okD [OF ok]
  have u: "blk_used sp V' b = blk_used sp V b" if "unat b < unat (sbsize sp)" for b by (rule blk_used_cong [OF same that])
  have "bitmap_ok L sp V'"
    using o(1,3) u len by (fastforce simp: bitmap_ok_def Let_def)
  then show ?thesis using o u len by (auto simp: layout_ok_def)
qed

lemma block_of_cong: "V' (iaddrs x NDIRECT) = V (iaddrs x NDIRECT) \<Longrightarrow> block_of V' x = block_of V x"
  by (rule ext) (simp add: block_of_def)

lemma file_ok_cong:
  assumes ok: "file_ok L sp V x" and same: "\<And>b. b \<in> bitmap_blocks sp \<Longrightarrow> V' b = V b"
    and ind: "iaddrs x NDIRECT \<noteq> 0 \<Longrightarrow> V' (iaddrs x NDIRECT) = V (iaddrs x NDIRECT)" and len: "\<And>b. length (V' b) = BSIZE"
  shows "file_ok L sp V' x" "block_of V' x = block_of V x"
proof -
  show b: "block_of V' x = block_of V x" using ind by (auto simp: block_of_def)
  have "data_block L sp i V' a = data_block L sp i V a" for i a
    using blk_used_cong [of sp V' V, OF same] by (auto simp: data_block_def)
  then show "file_ok L sp V' x"
    using ok layout_cong [OF file_okD(1) [OF ok] same len] by (simp add: file_ok_def b)
qed

lemma data_not_bitmap: "data_block L sp i V a \<Longrightarrow> b \<in> bitmap_blocks sp \<Longrightarrow> b \<noteq> a"
  by (auto simp: data_block_def)

text \<open>Writing a block of the file, or the block of the inode.\<close>

lemma file_ok_write:
  assumes ok: "file_ok L sp V x" and len: "length v = BSIZE"
    and a: "a = IBLOCK (inum x) sp \<or> (\<exists>bn<MAXFILE. a = block_of V x bn \<and> a \<noteq> 0)"
  shows "file_ok L sp (V(a := v)) x" "block_of (V(a := v)) x = block_of V x"
proof -
  note o = file_okD [OF ok] and l = layout_okD [OF file_okD(1) [OF ok]]
  have a': "a \<notin> bitmap_blocks sp" "iaddrs x NDIRECT \<noteq> 0 \<longrightarrow> a \<noteq> iaddrs x NDIRECT"
    using a o(3) l(9) by (auto simp: data_block_def) (use o(2) in \<open>auto simp: data_block_def\<close>)
  show "file_ok L sp (V(a := v)) x" by (rule file_ok_cong(1) [OF ok]) (use a' l(2) len in auto)
  show "block_of (V(a := v)) x = block_of V x" by (rule file_ok_cong(2) [OF ok]) (use a' l(2) len in auto)
qed

subsection \<open>Adding a block to a file\<close>

lemma taken_block_other: "b \<noteq> n \<Longrightarrow> b \<noteq> BBLOCK n sp \<Longrightarrow> taken_block sp n V b = V b"
  by (simp add: taken_block_def)

lemma taken_used:
  assumes "bitmap_ok L sp V" "unat n < unat (sbsize sp)" "\<not> blk_used sp V n" "unat b < unat (sbsize sp)"
  shows "blk_used sp (taken_block sp n V) b \<longleftrightarrow> blk_used sp V b \<or> b = n"
  using taken_block_used [OF assms(1), of "unat n" "unat b"] assms(2-) by (auto simp: word_unat_eq_iff)

lemma length_taken:
  assumes "layout_ok L sp i V" shows "length (taken_block sp n V b) = BSIZE"
  using layout_okD(2) [OF assms] by (auto simp: taken_block_def bitmap_set_def Let_def)

lemma layout_taken:
  assumes ok: "layout_ok L sp i V" and n: "unat n < unat (sbsize sp)" "\<not> blk_used sp V n"
  shows "layout_ok L sp i (taken_block sp n V)"
proof -
  note o = layout_okD [OF ok]
  have u: "blk_used sp (taken_block sp n V) b \<longleftrightarrow> blk_used sp V b \<or> b = n" if "unat b < unat (sbsize sp)" for b
    by (rule taken_used [OF o(1) n that])
  have "bitmap_ok L sp (taken_block sp n V)"
    using o(1,3) u length_taken [OF ok] by (fastforce simp: bitmap_ok_def Let_def)
  then show ?thesis using o u length_taken [OF ok] by (auto simp: layout_ok_def)
qed

text \<open>After \<open>balloc\<close> the file is what it was, and the new block is fresh.\<close>

lemma file_taken:
  assumes ok: "file_ok L sp V x" and n: "unat n < unat (sbsize sp)" "\<not> blk_used sp V n"
  shows "file_ok L sp (taken_block sp n V) x" "block_of (taken_block sp n V) x = block_of V x" "fresh_block L sp (taken_block sp n V) x n"
proof -
  let ?W = "taken_block sp n V"
  note o = file_okD [OF ok] and l = layout_okD [OF file_okD(1) [OF ok]]
  have u: "blk_used sp ?W b \<longleftrightarrow> blk_used sp V b \<or> b = n" if "unat b < unat (sbsize sp)" for b
    by (rule taken_used [OF l(1) n that])
  have nb: "n \<notin> bitmap_blocks sp" "n \<notin> L" using l(1) n unfolding bitmap_ok_def bitmap_blocks_def Let_def by auto
  have ind: "?W (iaddrs x NDIRECT) = V (iaddrs x NDIRECT)" if "iaddrs x NDIRECT \<noteq> 0"
    using o(2) [OF that] n BBLOCK_bitmap [OF n(1)] by (intro taken_block_other) (auto simp: data_block_def)
  show b: "block_of ?W x = block_of V x" using ind by (auto simp: block_of_def)
  have d: "data_block L sp i ?W a" if "data_block L sp i V a" for i a using that u by (simp add: data_block_def)
  show "file_ok L sp ?W x"
    using ok d layout_taken [OF o(1) n] by (simp add: file_ok_def b)
  have "?W n = replicate BSIZE 0" by (simp add: taken_block_def)
  moreover have "n \<noteq> 0" "n \<noteq> IBLOCK (inum x) sp" using n l by auto
  moreover have "n \<noteq> iaddrs x NDIRECT" using o(2) n \<open>n \<noteq> 0\<close> by (auto simp: data_block_def)
  moreover have "\<forall>bn<MAXFILE. block_of V x bn \<noteq> n" using o(3) n \<open>n \<noteq> 0\<close> by (fastforce simp: data_block_def)
  ultimately show "fresh_block L sp ?W x n" using n nb u [OF n(1)] by (simp add: fresh_block_def data_block_def b)
qed

lemma free_taken:
  assumes "bitmap_ok L sp V" "unat n < unat (sbsize sp)" "\<not> blk_used sp V n"
  shows "free_blocks sp (taken_block sp n V) = free_blocks sp V - {unat n}"
proof -
  have "unat (of_nat k :: uint) = k" if "k < unat (sbsize sp)" for k
    using that unat_bound [of "sbsize sp"] by (simp add: unsigned_of_nat take_bit_nat_eq_self)
  then show ?thesis using taken_used [OF assms] by (auto simp: free_blocks_def)
qed

text \<open>The three places where \<open>bmap\<close> puts the new address.\<close>

lemma file_add:
  assumes ok: "file_ok L sp V x" and new: "fresh_block L sp V x n" and bn: "bn < MAXFILE" "block_of V x bn = 0"
    and y: "inum y = inum x" "iaddrs y NDIRECT = iaddrs x NDIRECT" and b: "\<And>k. k < MAXFILE \<Longrightarrow> block_of W y k = (if k = bn then n else block_of V x k)"
    and W: "layout_ok L sp (inum x) W" "\<And>b. b \<in> bitmap_blocks sp \<Longrightarrow> W b = V b"
  shows "file_ok L sp W y"
proof -
  note o = file_okD [OF ok]
  have d: "data_block L sp i W a = data_block L sp i V a" for i a
    using blk_used_cong [of sp W V, OF W(2)] by (auto simp: data_block_def)
  have f: "n \<noteq> 0" "data_block L sp (inum x) V n" "n \<noteq> iaddrs x NDIRECT" "\<And>bn. bn < MAXFILE \<Longrightarrow> block_of V x bn \<noteq> n"
    using new by (auto simp: fresh_block_def)
  have "inj_on (block_of W y) {k. k < MAXFILE \<and> block_of W y k \<noteq> 0}"
    using o(4) f(4) by (auto simp: inj_on_def b split: if_splits)
  then show ?thesis using o f W(1) by (auto simp: file_ok_def d y b)
qed

lemma file_add_direct:
  assumes ok: "file_ok L sp V x" and new: "fresh_block L sp V x n" and bn: "bn < NDIRECT" "iaddrs x bn = 0"
  defines "y \<equiv> x\<lparr>iaddrs := (iaddrs x)(bn := n)\<rparr>"
  shows "file_ok L sp V y" "\<And>k. block_of V y k = (if k = bn then n else block_of V x k)"
proof -
  show b: "block_of V y k = (if k = bn then n else block_of V x k)" for k using bn by (auto simp: block_of_def y_def)
  show "file_ok L sp V y"
    by (rule file_add [OF ok new]) (use bn file_okD(1) [OF ok] b in \<open>simp_all add: y_def block_of_def MAXFILE_def\<close>)
qed

lemma file_add_indirect:
  assumes ok: "file_ok L sp V x" and new: "fresh_block L sp V x n" and z: "iaddrs x NDIRECT = 0"
  defines "y \<equiv> x\<lparr>iaddrs := (iaddrs x)(NDIRECT := n)\<rparr>"
  shows "file_ok L sp V y" "\<And>bn. bn < MAXFILE \<Longrightarrow> block_of V y bn = block_of V x bn"
proof -
  have f: "n \<noteq> 0" "data_block L sp (inum x) V n" "V n = replicate BSIZE 0" "\<And>bn. bn < MAXFILE \<Longrightarrow> block_of V x bn \<noteq> n"
    using new by (auto simp: fresh_block_def)
  show b: "block_of V y bn = block_of V x bn" if "bn < MAXFILE" for bn
    using that z f by (auto simp: block_of_def y_def get32_zeros MAXFILE_def NINDIRECT_def BSIZE_def)
  have i: "iaddrs y NDIRECT = n" "inum y = inum x" by (simp_all add: y_def)
  have "inj_on (block_of V y) {bn. bn < MAXFILE \<and> block_of V y bn \<noteq> 0}"
    using file_okD(4) [OF ok] b by (auto simp: inj_on_def)
  then show "file_ok L sp V y" using ok f b by (auto simp: file_ok_def i)
qed

lemma file_add_entry:
  assumes ok: "file_ok L sp V x" and new: "fresh_block L sp V x n" and bn: "NDIRECT \<le> bn" "bn < MAXFILE" "block_of V x bn = 0"
    and ind: "iaddrs x NDIRECT \<noteq> 0"
  defines "W \<equiv> V(iaddrs x NDIRECT := put32 (4 * (bn - NDIRECT)) n (V (iaddrs x NDIRECT)))"
  shows "file_ok L sp W x" "\<And>k. k < MAXFILE \<Longrightarrow> block_of W x k = (if k = bn then n else block_of V x k)"
proof -
  note l = layout_okD [OF file_okD(1) [OF ok]]
  have len: "4 * (k - NDIRECT) + 4 \<le> length (V (iaddrs x NDIRECT))" if "k < MAXFILE" for k
    using l(2) that by (simp add: MAXFILE_def NINDIRECT_def BSIZE_def NDIRECT_def)
  show b: "block_of W x k = (if k = bn then n else block_of V x k)" if "k < MAXFILE" for k
  proof (cases "k < NDIRECT \<or> k = bn")
    case True
    then show ?thesis using bn ind len [OF bn(2)] by (auto simp: block_of_def W_def)
  next
    case False
    then have "4 * (k - NDIRECT) + 4 \<le> 4 * (bn - NDIRECT) \<or> 4 * (bn - NDIRECT) + 4 \<le> 4 * (k - NDIRECT)" using bn(1) by linarith
    then show ?thesis using False bn ind get_put_other(1) [OF len [OF bn(2)] len [OF that]] by (simp add: block_of_def W_def)
  qed
  have "W b = V b" if "b \<in> bitmap_blocks sp" for b
    using that file_okD(2) [OF ok ind] by (auto simp: W_def data_block_def)
  moreover have "layout_ok L sp (inum x) W"
    by (rule layout_cong [OF file_okD(1) [OF ok]]) (use calculation l(2) len [OF bn(2)] in \<open>auto simp: W_def\<close>)
  ultimately show "file_ok L sp W x" by (intro file_add [OF ok new bn(2,3) refl refl b])
qed

end
