(* ===== verification/FsBmap.thy ===== *)
theory FsBmap
  imports FsFiles
begin

text \<open>
  \<open>bmap\<close> of \<^verbatim>\<open>kernel/fs.c\<close>: it finds the block of a part of a file, or adds one, and changes nothing that belongs to anyone else.
\<close>

section \<open>Steps that also change an inode in memory\<close>

lemma op_step_upd:
  fixes s :: "'a kfs_scheme"
  assumes "op_step_with h d H j s t V"
  shows "op_step_with h d H j (upd_inode ip f s) (upd_inode ip f t) V"
proof -
  note a = assms [unfolded op_step_with_def]
  have i: "itab t = itab s" by (rule op_step_kfs(2) [OF assms])
  have "klog_frame (upd_inode ip f s) (upd_inode ip f t)"
    using conjunct1 [OF conjunct2 [OF conjunct2 [OF a]]] i by (cases s; cases t) (simp add: klog_frame_def upd_inode_def)
  moreover have "quiet_step h (upd_inode ip f s) (upd_inode ip f t)"
    using a by (simp add: quiet_step_def upd_inode_def)
  moreover have "mine h d (upd_inode ip f v) m c = mine h d v m c" for m c and v :: "'a kfs_scheme"
    by (simp add: mine_def upd_inode_tx me_pid_def)
  moreover have "pins (upd_inode ip f v) = pins v" "committing (upd_inode ip f v) = committing v" for v :: "'a kfs_scheme"
    by (simp_all add: pins_def) (simp add: upd_inode_def)
  ultimately show ?thesis using a by (simp add: op_step_with_def upd_inode_tx)
qed

text \<open>From \<open>s\<close> to \<open>t\<close> the blocks become \<open>V\<close> and the inode at \<open>ip\<close> becomes \<open>x\<close>.\<close>

definition fs_step :: "nat \<Rightarrow> uint \<Rightarrow> nat \<Rightarrow> nat \<Rightarrow> 'a kfs_scheme \<Rightarrow> 'a kfs_scheme \<Rightarrow> (uint \<Rightarrow> bytes) \<Rightarrow> inode \<Rightarrow> bool" where
  "fs_step h d ip j s t V x \<longleftrightarrow> op_step h d j s (upd_inode ip (\<lambda>_. itab s ip) t) V \<and> itab t ip = x"

lemma upd_inode_upd: "upd_inode ip f (upd_inode ip g s) = upd_inode ip (\<lambda>x. f (g x)) s"
  by (simp add: upd_inode_def)

lemma upd_inode_same: "f (itab s ip) = itab s ip \<Longrightarrow> upd_inode ip f s = s"
  by (simp add: upd_inode_def)

lemma fs_step_op: "op_step h d j s t V \<Longrightarrow> fs_step h d ip j s t V (itab s ip)" for s :: "'a kfs_scheme"
  using op_step_kfs(2) [of h d "{}" j s t V] by (simp add: fs_step_def upd_inode_same)

lemma op_step_refl: "tx_inv h d H s \<Longrightarrow> op_step_with h d H 0 s s (view d s)"
  by (simp add: op_step_with_def)

lemma fs_step_upd: "tx_inv h d {} s \<Longrightarrow> fs_step h d ip 0 s (upd_inode ip f s) (view d s) (f (itab s ip))"
  by (simp add: fs_step_def upd_inode_upd upd_inode_same op_step_refl)

lemma fs_step_trans:
  assumes "fs_step h d ip i s t V x" "fs_step h d ip j t u W y"
  shows "fs_step h d ip (i + j) s u W y"
proof -
  have "op_step h d j (upd_inode ip (\<lambda>_. itab s ip) t) (upd_inode ip (\<lambda>_. itab s ip) (upd_inode ip (\<lambda>_. itab t ip) u)) W"
    using assms(2) by (intro op_step_upd) (simp add: fs_step_def)
  then have u: "op_step h d j (upd_inode ip (\<lambda>_. itab s ip) t) (upd_inode ip (\<lambda>_. itab s ip) u) W" by (simp only: upd_inode_upd)
  have "op_step h d i s (upd_inode ip (\<lambda>_. itab s ip) t) V" using assms(1) by (simp add: fs_step_def)
  from op_step_trans [OF this u order_refl] show ?thesis using assms(2) by (simp add: fs_step_def)
qed

lemma fs_step_more: "fs_step h d ip i s t V x \<Longrightarrow> i \<le> j \<Longrightarrow> fs_step h d ip j s t V x"
  by (auto simp: fs_step_def intro: op_step_more)

lemma fs_stepD:
  fixes s :: "'a kfs_scheme"
  assumes "fs_step h d ip j s t V x"
  shows "view d t = V" "itab t = (itab s)(ip := x)" "sb t = sb s" "lstart t = lstart s" "lsize t = lsize s"
    "in_op h d (j + k) s \<Longrightarrow> in_op h d k t"
proof -
  note a = assms [unfolded fs_step_def]
  note f = op_step_kfs [OF conjunct1 [OF a]]
  show "view d t = V" using op_step_view [OF conjunct1 [OF a]] by (simp add: upd_inode_tx)
  show "itab t = (itab s)(ip := x)" using f(2) a by (auto simp: fun_eq_iff split: if_splits)
  show "sb t = sb s" "lstart t = lstart s" "lsize t = lsize s" using f by simp_all
  show "in_op h d (j + k) s \<Longrightarrow> in_op h d k t"
    using op_step_in_op [OF conjunct1 [OF a], of k] by (simp add: in_op_def upd_inode_tx)
qed

section \<open>What may change\<close>

text \<open>
  From \<open>V\<close> to \<open>W\<close> blocks may be added to the file of \<open>x\<close>; every marked block keeps its mark, and its contents unless it is in the
  bitmap or is the indirect block of the file.
\<close>

definition grows :: "superblock \<Rightarrow> inode \<Rightarrow> (uint \<Rightarrow> bytes) \<Rightarrow> (uint \<Rightarrow> bytes) \<Rightarrow> bool" where
  "grows sp x V W \<longleftrightarrow> (\<forall>b. unat b < unat (sbsize sp) \<longrightarrow> blk_used sp V b \<longrightarrow> blk_used sp W b \<and>
     (b \<notin> bitmap_blocks sp \<longrightarrow> b \<noteq> iaddrs x NDIRECT \<longrightarrow> W b = V b))"

lemma grows_refl [simp]: "grows sp x V V"
  by (simp add: grows_def)

lemma grows_trans: "grows sp x V W \<Longrightarrow> grows sp y W U \<Longrightarrow>
    iaddrs y NDIRECT = iaddrs x NDIRECT \<or> \<not> blk_used sp V (iaddrs y NDIRECT) \<Longrightarrow> grows sp x V U"
  by (auto simp: grows_def)

lemma grows_taken:
  assumes "bitmap_ok L sp V" "unat n < unat (sbsize sp)" "\<not> blk_used sp V n"
  shows "grows sp x V (taken_block sp n V)"
  unfolding grows_def
proof (intro allI impI conjI)
  fix b assume b: "unat b < unat (sbsize sp)" "blk_used sp V b"
  show "blk_used sp (taken_block sp n V) b" using taken_used [OF assms b(1)] b(2) by simp
  assume "b \<notin> bitmap_blocks sp"
  then show "taken_block sp n V b = V b" using BBLOCK_bitmap [OF assms(2)] b(2) assms(3) by (intro taken_block_other) auto
qed

section \<open>Allocation\<close>

lemma free_blocks_find:
  assumes "free_blocks sp V \<noteq> {}"
  obtains n where "find (\<lambda>n. \<not> blk_used sp V (of_nat n)) [0..<unat (sbsize sp)] = Some n" "n < unat (sbsize sp)" "\<not> blk_used sp V (of_nat n)"
proof -
  have "find (\<lambda>n. \<not> blk_used sp V (of_nat n)) [0..<unat (sbsize sp)] \<noteq> None"
    using assms by (auto simp: find_None_iff free_blocks_def)
  then obtain n where n: "find (\<lambda>n. \<not> blk_used sp V (of_nat n)) [0..<unat (sbsize sp)] = Some n" by blast
  then have "n \<in> set [0..<unat (sbsize sp)] \<and> \<not> blk_used sp V (of_nat n)" unfolding find_Some_iff by auto
  then show thesis using that n by simp
qed

lemma balloc_file:
  fixes s :: "'a kfs_scheme"
  assumes op: "in_op_with h d H (Suc (Suc k)) s" and ok: "file_ok (log_area (lstart s) (nat (lsize s))) (sb s) (view d s) x"
    and H: "\<And>b. b \<in> H \<Longrightarrow> data_block (log_area (lstart s) (nat (lsize s))) (sb s) (inum x) (view d s) b"
    and free: "free_blocks (sb s) (view d s) \<noteq> {}"
  obtains n t where "balloc h d s = Some (n, t)" "op_step_with h d H 2 s t (taken_block (sb s) n (view d s))"
    "unat n < unat (sbsize (sb s))" "\<not> blk_used (sb s) (view d s) n"
proof -
  let ?L = "log_area (lstart s) (nat (lsize s))" and ?V = "view d s"
  obtain n where n: "find (\<lambda>n. \<not> blk_used (sb s) ?V (of_nat n)) [0..<unat (sbsize (sb s))] = Some n" "n < unat (sbsize (sb s))"
    "\<not> blk_used (sb s) ?V (of_nat n)" using free_blocks_find [OF free] by blast
  have bm: "bitmap_ok ?L (sb s) ?V" by (rule layout_okD(1) [OF file_okD(1) [OF ok]])
  have "\<forall>n<unat (sbsize (sb s)). \<not> blk_used (sb s) ?V (of_nat n) \<longrightarrow> of_nat n \<notin> ?L \<union> H"
    using bitmap_okD(4) [OF bm] H by (auto simp: data_block_def)
  moreover have "\<forall>n<unat (sbsize (sb s)). BBLOCK (of_nat n) (sb s) \<notin> ?L \<union> H"
    using bitmap_okD(2) [OF bm] H by (auto simp: data_block_def bitmap_blocks_def)
  ultimately obtain t where "balloc h d s = Some (of_nat n, t)" "op_step_with h d H 2 s t (taken_block (sb s) (of_nat n) ?V)"
    using balloc_spec [OF op] unfolding n(1) by auto
  moreover have "unat (of_nat n :: uint) = n"
    using n(2) unat_bound [of "sbsize (sb s)"] by (simp add: unsigned_of_nat take_bit_nat_eq_self)
  ultimately show thesis using that n by simp
qed

section \<open>bmap\<close>

text \<open>
  What \<open>bmap\<close> achieves: \<open>addr\<close> is now block \<open>bn\<close> of the file, a free block filled with zeros if there was none, and the other blocks
  of the file are where they were.
\<close>

definition bmapped :: "uint set \<Rightarrow> superblock \<Rightarrow> (uint \<Rightarrow> bytes) \<Rightarrow> inode \<Rightarrow> nat \<Rightarrow> uint \<Rightarrow> (uint \<Rightarrow> bytes) \<Rightarrow> inode \<Rightarrow> bool" where
  "bmapped L sp V x bn addr W y \<longleftrightarrow> file_ok L sp W y \<and> (\<forall>k<MAXFILE. block_of W y k = (if k = bn then addr else block_of V x k)) \<and>
     addr \<noteq> 0 \<and> (block_of V x bn \<noteq> 0 \<longrightarrow> addr = block_of V x bn) \<and>
     (block_of V x bn = 0 \<longrightarrow> W addr = replicate BSIZE 0 \<and> \<not> blk_used sp V addr) \<and> y = x\<lparr>iaddrs := iaddrs y\<rparr> \<and> grows sp x V W \<and>
     (iaddrs y NDIRECT = iaddrs x NDIRECT \<or> \<not> blk_used sp V (iaddrs y NDIRECT)) \<and>
     card (free_blocks sp V) \<le> card (free_blocks sp W) + 2"

abbreviation log_blocks :: "'a klog_scheme \<Rightarrow> uint set" where
  "log_blocks s \<equiv> log_area (lstart s) (nat (lsize s))"

text \<open>The indirect block of the file, with its entry for \<open>bn\<close>.\<close>

definition bmap_entry :: "nat \<Rightarrow> nat \<Rightarrow> nat \<Rightarrow> uint \<Rightarrow> 'a kfs_scheme \<Rightarrow> (uint \<times> 'a kfs_scheme) option" where
  "bmap_entry h ip n addr s = do {
     (bp, s) \<leftarrow> bread h (idev (itab s ip)) addr s;
     let addr = get32 (4 * n) (bdata (bufs s bp));
     (addr, s) \<leftarrow> (if addr = 0
        then do {
          (addr, s) \<leftarrow> balloc h (idev (itab s ip)) s;
          let s = set_data bp (put32 (4 * n) addr (bdata (bufs s bp))) s;
          s \<leftarrow> log_write h bp s;
          Some (addr, s)
        }
        else Some (addr, s));
     s \<leftarrow> brelse h bp s;
     Some (addr, s)
   }"

lemma bmap_indirect_eq:
  assumes "NDIRECT \<le> unat bn" "unat bn < MAXFILE"
  shows "bmap h ip bn s = (if iaddrs (itab s ip) NDIRECT = 0
    then do {
      (addr, s) \<leftarrow> balloc h (idev (itab s ip)) s;
      bmap_entry h ip (unat bn - NDIRECT) addr (upd_inode ip (\<lambda>x. x\<lparr>iaddrs := (iaddrs x)(NDIRECT := addr)\<rparr>) s)
    }
    else bmap_entry h ip (unat bn - NDIRECT) (iaddrs (itab s ip) NDIRECT) s)"
proof -
  have "\<not> unat bn < NDIRECT" "unat bn - NDIRECT < NINDIRECT" using assms by (simp_all add: MAXFILE_def)
  then show ?thesis by (simp add: bmap_def bmap_entry_def Let_def case_prod_unfold cong: if_cong)
qed

lemma bmap_entry_found:
  fixes s :: "'a kfs_scheme"
  assumes op: "in_op h d (Suc k) s" and dev: "idev (itab s ip) = d" and a: "get32 (4 * n) (view d s addr) \<noteq> 0"
  obtains t where "bmap_entry h ip n addr s = Some (get32 (4 * n) (view d s addr), t)" "op_step h d 0 s t (view d s)"
proof -
  from op_read [OF op] obtain b t where t: "bread h d addr s = Some (b, t)" "bdata (bufs t b) = view d s addr" "mine h d t addr b"
    "op_step_with h d {addr} 0 s t (view d s)" "addr \<in> pins t \<or> view d t addr = disk t addr" by (metis empty_iff)
  have tx: "tx_inv h d {addr} t" and vt: "view d t = view d s" using t(4) by (auto simp: op_step_with_def)
  obtain u where u: "brelse h b t = Some u" "op_step_with h d ({addr} - {addr}) 0 t u (view d t)"
    using op_release [OF tx t(3,5)] by blast
  have "op_step h d (0 + 0) s u (view d s)" using op_step_trans [OF t(4) u(2)] vt by simp
  moreover have "bmap_entry h ip n addr s = Some (get32 (4 * n) (view d s addr), u)"
    using t(1,2) u(1) a dev by (simp add: bmap_entry_def)
  ultimately show thesis using that by simp
qed

lemma bmap_entry_new:
  fixes s :: "'a kfs_scheme"
  assumes op: "in_op h d 4 s" and dev: "idev (itab s ip) = d" and ok: "file_ok (log_blocks s) (sb s) (view d s) (itab s ip)"
    and ind: "iaddrs (itab s ip) NDIRECT = addr" "addr \<noteq> 0" and bn: "NDIRECT \<le> bn" "bn < MAXFILE" "block_of (view d s) (itab s ip) bn = 0"
    and free: "free_blocks (sb s) (view d s) \<noteq> {}"
  obtains n t where "bmap_entry h ip (bn - NDIRECT) addr s = Some (n, t)" "unat n < unat (sbsize (sb s))" "\<not> blk_used (sb s) (view d s) n"
    "op_step h d 3 s t ((taken_block (sb s) n (view d s))(addr := put32 (4 * (bn - NDIRECT)) n (view d s addr)))"
proof -
  let ?x = "itab s ip" and ?L = "log_blocks s" and ?V = "view d s"
  have op': "in_op h d (Suc 3) s" using op by simp
  have data: "data_block ?L (sb s) (inum ?x) ?V addr" using file_okD(2) [OF ok] ind by simp
  from op_read [OF op'] obtain b t where t: "bread h d addr s = Some (b, t)" "bdata (bufs t b) = view d s addr" "mine h d t addr b"
    "op_step_with h d {addr} 0 s t (view d s)" "in_op_with h d {addr} 3 t" by (metis empty_iff)
  note ft = op_step_kfs [OF t(4)] and vt = op_step_view [OF t(4)]
  obtain n u where u: "balloc h d t = Some (n, u)" "op_step_with h d {addr} 2 t u (taken_block (sb s) n ?V)"
    "unat n < unat (sbsize (sb s))" "\<not> blk_used (sb s) ?V n"
    using balloc_file [of h d "{addr}" 1 t ?x] t(5) ok data free by (metis One_nat_def Suc_1 ft numeral_3_eq_3 singletonD vt)
  have mu: "mine h d u addr b" and txu: "tx_inv h d {addr} u" using t(3) u(2) by (auto simp: op_step_with_def)
  have same: "taken_block (sb s) n ?V addr = ?V addr"
    using data u(3,4) BBLOCK_bitmap [OF u(3)] by (intro taken_block_other) (auto simp: data_block_def)
  have du: "bdata (bufs u b) = ?V addr" using tx_mine(2) [OF txu mu] op_step_view [OF u(2)] same by simp
  have cap: "lhn u + 1 < int NBUF" "1 \<le> outstanding u" "lhn u < lsize u - 1"
    using op_step_in_op [OF u(2), of 1] t(5) by (auto simp: in_op_with_def)
  have home: "addr \<notin> log_area (lstart u) (nat (lsize u))" using data op_step_kfs [OF u(2)] ft by (simp add: data_block_def)
  let ?v = "put32 (4 * (bn - NDIRECT)) n (?V addr)"
  obtain w where w: "log_write h b (set_data b ?v u) = Some w" "op_step_with h d {addr} 1 u w ((view d u)(addr := ?v))" "addr \<in> pins w" "mine h d w addr b"
    using op_log [OF txu cap mu home] by blast
  obtain y where y: "brelse h b w = Some y" "op_step_with h d ({addr} - {addr}) 0 w y (view d w)"
    using op_release [OF _ w(4)] w(2,3) unfolding op_step_with_def by blast
  have "op_step h d 3 s y (view d w)"
    using op_step_trans [OF op_step_trans [OF op_step_trans [OF t(4) u(2) order_refl] w(2) order_refl] y(2)] by (simp add: numeral_3_eq_3)
  moreover have "view d w = (taken_block (sb s) n ?V)(addr := ?v)" using op_step_view [OF w(2)] op_step_view [OF u(2)] by simp
  moreover have "get32 (4 * (bn - NDIRECT)) (?V addr) = 0" using bn ind by (simp add: block_of_def)
  then have "bmap_entry h ip (bn - NDIRECT) addr s = Some (n, y)"
    using t(1,2) u(1) w(1) y(1) dev du ft by (simp add: bmap_entry_def)
  ultimately show thesis using that u(3,4) by metis
qed

lemma bmap_found:
  fixes s :: "'a kfs_scheme"
  assumes op: "in_op h d (Suc k) s" and dev: "idev (itab s ip) = d" and bn: "unat bn < MAXFILE"
    and a: "block_of (view d s) (itab s ip) (unat bn) \<noteq> 0"
  obtains t where "bmap h ip bn s = Some (block_of (view d s) (itab s ip) (unat bn), t)" "op_step h d 0 s t (view d s)"
proof (cases "unat bn < NDIRECT")
  case True
  then have "bmap h ip bn s = Some (block_of (view d s) (itab s ip) (unat bn), s)" using a by (simp add: bmap_def block_of_def)
  moreover have "op_step h d 0 s s (view d s)" using op by (simp add: in_op_def op_step_refl)
  ultimately show thesis by (rule that)
next
  case False
  let ?i = "iaddrs (itab s ip) NDIRECT"
  have i: "?i \<noteq> 0" "block_of (view d s) (itab s ip) (unat bn) = get32 (4 * (unat bn - NDIRECT)) (view d s ?i)"
    using False a by (auto simp: block_of_def split: if_splits)
  obtain t where "bmap_entry h ip (unat bn - NDIRECT) ?i s = Some (block_of (view d s) (itab s ip) (unat bn), t)" "op_step h d 0 s t (view d s)"
    using bmap_entry_found [OF op dev] a i(2) by metis
  then show thesis using that False bn i(1) by (simp add: bmap_indirect_eq)
qed

lemma bmapped_same:
  assumes "file_ok L sp V x" "block_of V x bn \<noteq> 0"
  shows "bmapped L sp V x bn (block_of V x bn) V x"
  using assms by (simp add: bmapped_def)

lemma card_free_taken:
  assumes "bitmap_ok L sp V" "unat n < unat (sbsize sp)" "\<not> blk_used sp V n"
  shows "card (free_blocks sp V) = Suc (card (free_blocks sp (taken_block sp n V)))"
proof -
  have "unat n \<in> free_blocks sp V" "finite (free_blocks sp V)" using assms(2,3) by (auto simp: free_blocks_def)
  then show ?thesis unfolding free_taken [OF assms] by (rule card.remove [rotated])
qed

text \<open>The three ways to add a block, in terms of the blocks only.\<close>

lemma bmapped_direct:
  assumes ok: "file_ok L sp V x" and n: "unat n < unat (sbsize sp)" "\<not> blk_used sp V n" and bn: "bn < NDIRECT" "iaddrs x bn = 0"
  shows "bmapped L sp V x bn n (taken_block sp n V) (x\<lparr>iaddrs := (iaddrs x)(bn := n)\<rparr>)"
proof -
  note bm = layout_okD(1) [OF file_okD(1) [OF ok]] and tk = file_taken [OF ok n]
  note add = file_add_direct [OF tk(1,3) bn]
  have "n \<noteq> 0" "taken_block sp n V n = replicate BSIZE 0" using tk(3) by (auto simp: fresh_block_def)
  then show ?thesis
    using add tk(2) grows_taken [OF bm n] card_free_taken [OF bm n] bn n(2) by (simp add: bmapped_def block_of_def)
qed

lemma bmapped_entry:
  assumes ok: "file_ok L sp V x" and n: "unat n < unat (sbsize sp)" "\<not> blk_used sp V n" and ind: "iaddrs x NDIRECT \<noteq> 0"
    and bn: "NDIRECT \<le> bn" "bn < MAXFILE" "block_of V x bn = 0"
  defines "W \<equiv> (taken_block sp n V)(iaddrs x NDIRECT := put32 (4 * (bn - NDIRECT)) n (V (iaddrs x NDIRECT)))"
  shows "bmapped L sp V x bn n W x" "card (free_blocks sp V) = Suc (card (free_blocks sp W))" "taken_block sp n V (iaddrs x NDIRECT) = V (iaddrs x NDIRECT)"
proof -
  let ?i = "iaddrs x NDIRECT" and ?T = "taken_block sp n V"
  note bm = layout_okD(1) [OF file_okD(1) [OF ok]] and tk = file_taken [OF ok n]
  have data: "data_block L sp (inum x) V ?i" using file_okD(2) [OF ok ind] .
  show same: "?T ?i = V ?i"
    using data n BBLOCK_bitmap [OF n(1)] by (intro taken_block_other) (auto simp: data_block_def)
  have b0: "block_of ?T x bn = 0" using tk(2) bn(3) by simp
  note add = file_add_entry [OF tk(1,3) bn(1,2) b0 ind, unfolded same, folded W_def]
  have fr: "n \<noteq> 0" "n \<noteq> ?i" "?T n = replicate BSIZE 0" using tk(3) by (auto simp: fresh_block_def)
  have bmap: "W b = ?T b" if "b \<in> bitmap_blocks sp" for b using that data by (auto simp: data_block_def W_def)
  have used: "blk_used sp W b = blk_used sp ?T b" if "unat b < unat (sbsize sp)" for b
    by (rule blk_used_cong [OF bmap that])
  have "grows sp x V W" using grows_taken [OF bm n, of x] used by (simp add: grows_def W_def)
  moreover show c: "card (free_blocks sp V) = Suc (card (free_blocks sp W))" using free_cong [OF bmap] card_free_taken [OF bm n] by simp
  moreover have "\<forall>k<MAXFILE. block_of W x k = (if k = bn then n else block_of V x k)" using add(2) tk(2) by simp
  moreover have "W n = replicate BSIZE 0" using fr by (simp add: W_def)
  ultimately show "bmapped L sp V x bn n W x" using add(1) fr(1) n(2) bn(3) by (simp add: bmapped_def)
qed

lemma bmapped_first:
  assumes ok: "file_ok L sp V x" and n: "unat n < unat (sbsize sp)" "\<not> blk_used sp V n" and ind: "iaddrs x NDIRECT = 0" and bn: "NDIRECT \<le> bn" "bn < MAXFILE"
  defines "T \<equiv> taken_block sp n V" and "y \<equiv> x\<lparr>iaddrs := (iaddrs x)(NDIRECT := n)\<rparr>"
  assumes a: "unat a < unat (sbsize sp)" "\<not> blk_used sp T a"
  shows "bmapped L sp V x bn a ((taken_block sp a T)(n := put32 (4 * (bn - NDIRECT)) a (T n))) y"
proof -
  note bm = layout_okD(1) [OF file_okD(1) [OF ok]] and tk = file_taken [OF ok n, folded T_def]
  note add = file_add_indirect [OF tk(1,3) ind, folded y_def]
  have y: "iaddrs y NDIRECT = n" "n \<noteq> 0" using tk(3) by (simp_all add: y_def fresh_block_def)
  have b0: "block_of V x bn = 0" using ind bn(1) by (simp add: block_of_def)
  have b0': "block_of T y bn = 0" using add(2) [OF bn(2)] tk(2) b0 by simp
  have i: "iaddrs y NDIRECT \<noteq> 0" using y by simp
  note e = bmapped_entry [OF add(1) a i bn b0', unfolded y(1)]
  note E = e(1) [unfolded bmapped_def]
  have "\<not> blk_used sp V a" using a taken_used [OF bm n a(1)] by (simp add: T_def)
  moreover have "grows sp x V ((taken_block sp a T)(n := put32 (4 * (bn - NDIRECT)) a (T n)))"
    using grows_trans [OF grows_taken [OF bm n], folded T_def, of y] E n(2) y(1) by simp
  moreover have "card (free_blocks sp V) = Suc (card (free_blocks sp T))" using card_free_taken [OF bm n] by (simp add: T_def)
  ultimately show ?thesis
    using E e(2) add(2) tk(2) b0 b0' y n(2) unfolding bmapped_def by (simp add: y_def)
qed

lemma bmap_new_direct:
  fixes s :: "'a kfs_scheme"
  assumes op: "in_op h d 2 s" and dev: "idev (itab s ip) = d" and ok: "file_ok (log_blocks s) (sb s) (view d s) (itab s ip)"
    and bn: "unat bn < NDIRECT" "block_of (view d s) (itab s ip) (unat bn) = 0" and free: "free_blocks (sb s) (view d s) \<noteq> {}"
  obtains addr t W y where "bmap h ip bn s = Some (addr, t)" "fs_step h d ip 2 s t W y"
    "bmapped (log_blocks s) (sb s) (view d s) (itab s ip) (unat bn) addr W y"
proof -
  let ?x = "itab s ip" and ?V = "view d s"
  have op': "in_op_with h d {} (Suc (Suc 0)) s" using op by (simp add: numeral_2_eq_2)
  obtain n t where n: "balloc h d s = Some (n, t)" "op_step h d 2 s t (taken_block (sb s) n ?V)"
    "unat n < unat (sbsize (sb s))" "\<not> blk_used (sb s) ?V n"
    using balloc_file [OF op' ok _ free] by blast
  let ?W = "taken_block (sb s) n ?V" and ?y = "?x\<lparr>iaddrs := (iaddrs ?x)(unat bn := n)\<rparr>"
  have z: "iaddrs ?x (unat bn) = 0" using bn by (simp add: block_of_def)
  let ?u = "upd_inode ip (\<lambda>x. x\<lparr>iaddrs := (iaddrs x)(unat bn := n)\<rparr>) t"
  have tx: "tx_inv h d {} t" and vt: "view d t = ?W" using n(2) by (auto simp: op_step_with_def)
  have "fs_step h d ip (2 + 0) s ?u ?W ?y"
    using fs_step_trans [OF fs_step_op [OF n(2)] fs_step_upd [OF tx]] op_step_kfs(2) [OF n(2)] vt by simp
  moreover have "bmap h ip bn s = Some (n, ?u)" using n(1) bn z dev by (simp add: bmap_def)
  ultimately show thesis using that bmapped_direct [OF ok n(3,4) bn(1) z] by simp
qed

lemma bmap_new_indirect:
  fixes s :: "'a kfs_scheme"
  assumes op: "in_op h d 4 s" and dev: "idev (itab s ip) = d" and ok: "file_ok (log_blocks s) (sb s) (view d s) (itab s ip)"
    and ind: "iaddrs (itab s ip) NDIRECT \<noteq> 0" and bn: "NDIRECT \<le> unat bn" "unat bn < MAXFILE" "block_of (view d s) (itab s ip) (unat bn) = 0"
    and free: "free_blocks (sb s) (view d s) \<noteq> {}"
  obtains addr t W y where "bmap h ip bn s = Some (addr, t)" "fs_step h d ip 3 s t W y"
    "bmapped (log_blocks s) (sb s) (view d s) (itab s ip) (unat bn) addr W y"
proof -
  let ?x = "itab s ip" and ?V = "view d s"
  let ?i = "iaddrs ?x NDIRECT"
  obtain n t where n: "bmap_entry h ip (unat bn - NDIRECT) ?i s = Some (n, t)" "unat n < unat (sbsize (sb s))" "\<not> blk_used (sb s) ?V n"
    "op_step h d 3 s t ((taken_block (sb s) n ?V)(?i := put32 (4 * (unat bn - NDIRECT)) n (?V ?i)))"
    using bmap_entry_new [OF op dev ok refl ind bn free] by blast
  have "bmap h ip bn s = Some (n, t)" using bn ind n(1) by (simp add: bmap_indirect_eq)
  then show thesis using that fs_step_op [OF n(4)] bmapped_entry(1) [OF ok n(2,3) ind bn] by blast
qed

lemma bmap_first_indirect:
  fixes s :: "'a kfs_scheme"
  assumes op: "in_op h d 6 s" and dev: "idev (itab s ip) = d" and ok: "file_ok (log_blocks s) (sb s) (view d s) (itab s ip)"
    and ind: "iaddrs (itab s ip) NDIRECT = 0" and bn: "NDIRECT \<le> unat bn" "unat bn < MAXFILE"
    and free: "2 \<le> card (free_blocks (sb s) (view d s))"
  obtains addr t W y where "bmap h ip bn s = Some (addr, t)" "fs_step h d ip 5 s t W y"
    "bmapped (log_blocks s) (sb s) (view d s) (itab s ip) (unat bn) addr W y"
proof -
  let ?x = "itab s ip" and ?V = "view d s" and ?L = "log_blocks s"
  have op': "in_op_with h d {} (Suc (Suc 4)) s" using op by simp
  have "free_blocks (sb s) ?V \<noteq> {}" using free by (intro notI) simp
  from balloc_file [OF op' ok _ this] obtain n t where n: "balloc h d s = Some (n, t)" "op_step h d 2 s t (taken_block (sb s) n ?V)"
    "unat n < unat (sbsize (sb s))" "\<not> blk_used (sb s) ?V n" by blast
  let ?T = "taken_block (sb s) n ?V" and ?y = "?x\<lparr>iaddrs := (iaddrs ?x)(NDIRECT := n)\<rparr>"
  let ?u = "upd_inode ip (\<lambda>x. x\<lparr>iaddrs := (iaddrs x)(NDIRECT := n)\<rparr>) t"
  note bm = layout_okD(1) [OF file_okD(1) [OF ok]] and tk = file_taken [OF ok n(3,4)]
  note add = file_add_indirect [OF tk(1,3) ind]
  have tx: "tx_inv h d {} t" and vt: "view d t = ?T" using n(2) by (auto simp: op_step_with_def)
  have u: "fs_step h d ip (2 + 0) s ?u ?T ?y"
    using fs_step_trans [OF fs_step_op [OF n(2)] fs_step_upd [OF tx]] op_step_kfs(2) [OF n(2)] vt by simp
  have fu: "view d ?u = ?T" "itab ?u ip = ?y" "sb ?u = sb s" "log_blocks ?u = ?L" and opu: "in_op h d 4 ?u"
    using fs_stepD [OF u] op by simp_all
  have n0: "n \<noteq> 0" using tk(3) by (simp add: fresh_block_def)
  have b0: "block_of ?T ?y (unat bn) = 0" using add(2) [OF bn(2)] tk(2) ind bn(1) by (simp add: block_of_def)
  have fT: "free_blocks (sb s) ?T \<noteq> {}" using free card_free_taken [OF bm n(3,4)] by (intro notI) simp
  obtain a v where v: "bmap_entry h ip (unat bn - NDIRECT) n ?u = Some (a, v)" "unat a < unat (sbsize (sb s))" "\<not> blk_used (sb s) ?T a"
    "op_step h d 3 ?u v ((taken_block (sb s) a ?T)(n := put32 (4 * (unat bn - NDIRECT)) a (?T n)))"
    using bmap_entry_new [OF opu _ _ _ n0 bn, of ip] dev add(1) b0 fT unfolding fu by auto
  have "fs_step h d ip (2 + 0 + 3) s v ((taken_block (sb s) a ?T)(n := put32 (4 * (unat bn - NDIRECT)) a (?T n))) ?y"
    using fs_step_trans [OF u fs_step_op [OF v(4)]] fu by simp
  moreover have "bmap h ip bn s = Some (a, v)" using bn ind n(1) v(1) dev by (simp add: bmap_indirect_eq)
  ultimately show thesis using that bmapped_first [OF ok n(3,4) ind bn v(2,3)] by simp
qed

text \<open>Together: whatever part of the file is asked for.\<close>

lemma bmap_spec:
  fixes s :: "'a kfs_scheme"
  assumes op: "in_op h d 6 s" and dev: "idev (itab s ip) = d" and ok: "file_ok (log_blocks s) (sb s) (view d s) (itab s ip)"
    and bn: "unat bn < MAXFILE" and free: "2 \<le> card (free_blocks (sb s) (view d s))"
  obtains addr t W y where "bmap h ip bn s = Some (addr, t)" "fs_step h d ip 5 s t W y"
    "bmapped (log_blocks s) (sb s) (view d s) (itab s ip) (unat bn) addr W y"
proof -
  let ?x = "itab s ip" and ?V = "view d s" and ?L = "log_blocks s"
  have ne: "free_blocks (sb s) ?V \<noteq> {}" using free by (intro notI) simp
  have ops: "in_op h d 2 s" "in_op h d 4 s" "in_op h d (Suc 5) s" using op by (auto simp: in_op_def)
  consider (found) "block_of ?V ?x (unat bn) \<noteq> 0" | (direct) "block_of ?V ?x (unat bn) = 0" "unat bn < NDIRECT"
    | (first) "NDIRECT \<le> unat bn" "iaddrs ?x NDIRECT = 0" | (more) "NDIRECT \<le> unat bn" "iaddrs ?x NDIRECT \<noteq> 0" "block_of ?V ?x (unat bn) = 0"
    by linarith
  then show thesis
  proof cases
    case found
    obtain t where "bmap h ip bn s = Some (block_of ?V ?x (unat bn), t)" "op_step h d 0 s t ?V"
      using bmap_found [OF ops(3) dev bn found] by blast
    then show thesis using that bmapped_same [OF ok found] fs_step_more [OF fs_step_op] by blast
  next
    case direct
    show thesis by (rule bmap_new_direct [OF ops(1) dev ok direct(2,1) ne]) (rule that, assumption, erule fs_step_more, simp, assumption)
  next
    case first
    show thesis by (rule bmap_first_indirect [OF op dev ok first(2,1) bn free]) (rule that)
  next
    case more
    show thesis by (rule bmap_new_indirect [OF ops(2) dev ok more(2,1) bn more(3) ne]) (rule that, assumption, erule fs_step_more, simp, assumption)
  qed
qed

end
