(* ===== verification/FsWrite.thy ===== *)
theory FsWrite
  imports FsBmap
begin

text \<open>
  Reading and writing files, \<open>readi\<close> and \<open>writei\<close> of \<^verbatim>\<open>kernel/fs.c\<close>.  Where \<open>writei\<close> gets its data is an interface, the locale
  \<open>byte_source\<close>; it is provided by an object of the kernel and by the memory of the calling process.
\<close>

section \<open>Changing a part of a file\<close>

text \<open>
  From \<open>V\<close> and \<open>x\<close> to \<open>W\<close> and \<open>y\<close> the bytes \<open>bs\<close> are written into the file at \<open>off\<close>: they and nothing else of the file change, blocks of
  the file stay where they are, new ones were free, and no marked block that is not the file's changes, but for the bitmap.
\<close>

definition file_written ::
  "uint set \<Rightarrow> superblock \<Rightarrow> (uint \<Rightarrow> bytes) \<Rightarrow> inode \<Rightarrow> nat \<Rightarrow> bytes \<Rightarrow> (uint \<Rightarrow> bytes) \<Rightarrow> inode \<Rightarrow> bool" where
  "file_written L sp V x off bs W y \<longleftrightarrow> file_ok L sp W y \<and> y = x\<lparr>iaddrs := iaddrs y\<rparr> \<and>
     (\<forall>i<MAXFILE * BSIZE. file_byte W y i = (if off \<le> i \<and> i < off + length bs then bs ! (i - off) else file_byte V x i)) \<and>
     (\<forall>k<MAXFILE. block_of W y k = block_of V x k \<or> block_of V x k = 0 \<and> \<not> blk_used sp V (block_of W y k)) \<and>
     (\<forall>i. off \<le> i \<longrightarrow> i < off + length bs \<longrightarrow> block_of W y (i div BSIZE) \<noteq> 0) \<and>
     (iaddrs y NDIRECT = iaddrs x NDIRECT \<or> \<not> blk_used sp V (iaddrs y NDIRECT)) \<and>
     (\<forall>b. unat b < unat (sbsize sp) \<longrightarrow> blk_used sp V b \<longrightarrow> blk_used sp W b \<and>
       (b \<notin> bitmap_blocks sp \<longrightarrow> b \<noteq> iaddrs x NDIRECT \<longrightarrow> b \<notin> block_of V x ` {..<MAXFILE} \<longrightarrow> W b = V b))"

lemma file_written_refl: "file_ok L sp V x \<Longrightarrow> file_written L sp V x off [] V x"
  by (auto simp: file_written_def)

lemma file_writtenD:
  assumes "file_written L sp V x off bs W y"
  shows "file_ok L sp W y" "y = x\<lparr>iaddrs := iaddrs y\<rparr>"
    "i < MAXFILE * BSIZE \<Longrightarrow> file_byte W y i = (if off \<le> i \<and> i < off + length bs then bs ! (i - off) else file_byte V x i)"
    "k < MAXFILE \<Longrightarrow> block_of W y k = block_of V x k \<or> block_of V x k = 0 \<and> \<not> blk_used sp V (block_of W y k)"
    "off \<le> i \<Longrightarrow> i < off + length bs \<Longrightarrow> block_of W y (i div BSIZE) \<noteq> 0"
    "iaddrs y NDIRECT = iaddrs x NDIRECT \<or> \<not> blk_used sp V (iaddrs y NDIRECT)"
    "unat b < unat (sbsize sp) \<Longrightarrow> blk_used sp V b \<Longrightarrow> blk_used sp W b"
    "unat b < unat (sbsize sp) \<Longrightarrow> blk_used sp V b \<Longrightarrow> b \<notin> bitmap_blocks sp \<Longrightarrow> b \<noteq> iaddrs x NDIRECT \<Longrightarrow>
      b \<notin> block_of V x ` {..<MAXFILE} \<Longrightarrow> W b = V b"
  using assms by (simp_all add: file_written_def)

lemma iaddrs_trans: "y = x\<lparr>iaddrs := a\<rparr> \<Longrightarrow> z = y\<lparr>iaddrs := c\<rparr> \<Longrightarrow> z = x\<lparr>iaddrs := c\<rparr>"
  by simp

lemma file_written_trans:
  assumes a: "file_written L sp V x off bs W y" and b: "file_written L sp W y (off + length bs) bs' U z"
    and ok: "file_ok L sp V x" and len: "off + length bs \<le> MAXFILE * BSIZE"
  shows "file_written L sp V x off (bs @ bs') U z"
proof -
  note A = file_writtenD [OF a] and B = file_writtenD [OF b]
  have pos: "0 < unat (sbsize sp)" by (rule layout_okD(5) [OF file_okD(1) [OF B(1)]])
  have zin: "unat (block_of U z k) < unat (sbsize sp)" if "k < MAXFILE" for k
    using file_okD(3) [OF B(1) that] pos by (cases "block_of U z k = 0") (simp_all add: data_block_def)
  have zin': "unat (iaddrs z NDIRECT) < unat (sbsize sp)"
    using file_okD(2) [OF B(1)] pos by (cases "iaddrs z NDIRECT = 0") (simp_all add: data_block_def)
  have bytes: "file_byte U z i = (if off \<le> i \<and> i < off + length (bs @ bs') then (bs @ bs') ! (i - off) else file_byte V x i)"
    if "i < MAXFILE * BSIZE" for i
    using A(3) [OF that] B(3) [OF that] by (auto simp: nth_append)
  have blocks: "block_of U z k = block_of V x k \<or> block_of V x k = 0 \<and> \<not> blk_used sp V (block_of U z k)" if k: "k < MAXFILE" for k
    using A(4) [OF k] B(4) [OF k] A(7) [OF zin [OF k]] by auto
  have holes: "block_of U z (i div BSIZE) \<noteq> 0" if i: "off \<le> i" "i < off + length (bs @ bs')" for i
  proof (cases "i < off + length bs")
    case True
    have "i div BSIZE < MAXFILE" using True len by (simp add: less_mult_imp_div_less)
    from B(4) [OF this] show ?thesis using A(5) [OF i(1) True] by auto
  qed (use B(5) i in auto)
  have ind: "iaddrs z NDIRECT = iaddrs x NDIRECT \<or> \<not> blk_used sp V (iaddrs z NDIRECT)"
    using A(6) B(6) A(7) [OF zin'] by auto
  have other: "U c = V c" if c: "unat c < unat (sbsize sp)" "blk_used sp V c"
    and n: "c \<notin> bitmap_blocks sp" "c \<noteq> iaddrs x NDIRECT" "c \<notin> block_of V x ` {..<MAXFILE}" for c
  proof -
    have "c \<noteq> iaddrs y NDIRECT" using A(6) c n by auto
    moreover have "c \<notin> block_of W y ` {..<MAXFILE}" using A(4) c n by fastforce
    ultimately show ?thesis using B(8) [OF c(1) A(7) [OF c] n(1)] A(8) [OF c n] by simp
  qed
  show ?thesis
    unfolding file_written_def using B(1,7) A(7) iaddrs_trans [OF A(2) B(2)] bytes blocks holes ind other by simp
qed

text \<open>Writing into the block that \<open>bmap\<close> gave.\<close>

lemma bmapped_content:
  assumes ok: "file_ok L sp V x" and m: "bmapped L sp V x bn addr W y" and bn: "bn < MAXFILE" and k: "k < MAXFILE" "block_of V x k \<noteq> 0"
  shows "W (block_of V x k) = V (block_of V x k)"
  using file_okD(3) [OF ok k] m by (auto simp: bmapped_def grows_def data_block_def)

lemma bmapped_byte:
  assumes ok: "file_ok L sp V x" and m: "bmapped L sp V x bn addr W y" and bn: "bn < MAXFILE" and i: "i < MAXFILE * BSIZE"
  shows "file_byte W y i = file_byte V x i"
proof -
  let ?k = "i div BSIZE"
  have k: "?k < MAXFILE" using i by (simp add: less_mult_imp_div_less)
  have b: "block_of W y ?k = (if ?k = bn then addr else block_of V x ?k)" using m k by (simp add: bmapped_def)
  show ?thesis
  proof (cases "block_of V x ?k = 0")
    case True
    then have "file_byte W y i = 0"
      using m b by (auto simp: file_byte_def Let_def bmapped_def BSIZE_def)
    then show ?thesis using True by (simp add: file_byte_def)
  next
    case False
    then have "block_of W y ?k = block_of V x ?k" using m b by (auto simp: bmapped_def)
    then show ?thesis using bmapped_content [OF ok m bn k False] by (simp add: file_byte_def Let_def)
  qed
qed

lemma file_byte_write:
  assumes ok: "file_ok L sp W y" and bn: "bn < MAXFILE" "block_of W y bn \<noteq> 0" and off: "off + length bs \<le> BSIZE" and i: "i < MAXFILE * BSIZE"
  defines "W' \<equiv> W(block_of W y bn := splice_at off bs (W (block_of W y bn)))"
  shows "file_byte W' y i = (if bn * BSIZE + off \<le> i \<and> i < bn * BSIZE + off + length bs then bs ! (i - (bn * BSIZE + off)) else file_byte W y i)"
proof -
  let ?a = "block_of W y bn" and ?k = "i div BSIZE" and ?j = "i mod BSIZE"
  have len: "length (W ?a) = BSIZE" by (rule layout_okD(2) [OF file_okD(1) [OF ok]])
  have b: "block_of W' y = block_of W y"
    unfolding W'_def by (rule file_ok_write(2) [OF ok]) (use len off bn in auto)
  have i': "i = ?k * BSIZE + ?j" "?j < BSIZE" "?k < MAXFILE" using i by (simp_all add: less_mult_imp_div_less BSIZE_def)
  show ?thesis
  proof (cases "?k = bn")
    case True
    have ii: "i = bn * BSIZE + ?j" using i'(1) unfolding True .
    have "file_byte W' y i = splice_at off bs (W ?a) ! ?j" using True bn b by (simp add: file_byte_def W'_def)
    also have "\<dots> = (if off \<le> ?j \<and> ?j < off + length bs then bs ! (?j - off) else W ?a ! ?j)"
      using len off i'(2) by (simp add: nth_splice_at)
    also have "W ?a ! ?j = file_byte W y i" using True bn by (simp add: file_byte_def)
    also have "off \<le> ?j \<and> ?j < off + length bs \<longleftrightarrow> bn * BSIZE + off \<le> i \<and> i < bn * BSIZE + off + length bs"
      using ii by linarith
    also have "?j - off = i - (bn * BSIZE + off)" using ii by linarith
    finally show ?thesis .
  next
    case False
    have "?k < bn \<or> bn < ?k" using False by linarith
    then have "?k * BSIZE + BSIZE \<le> bn * BSIZE \<or> bn * BSIZE + BSIZE \<le> ?k * BSIZE"
      using mult_le_mono1 [of "Suc ?k" bn BSIZE] mult_le_mono1 [of "Suc bn" ?k BSIZE] by auto
    then have out: "\<not> (bn * BSIZE + off \<le> i \<and> i < bn * BSIZE + off + length bs)" using i' off by linarith
    have "block_of W y ?k \<noteq> ?a \<or> block_of W y ?k = 0" using file_okD(4) [OF ok bn(1) i'(3) bn(2)] False by auto
    then have "file_byte W' y i = file_byte W y i" using b bn(2) by (auto simp: file_byte_def Let_def W'_def)
    then show ?thesis using out by (simp only: if_False)
  qed
qed

lemma file_written_block:
  assumes ok: "file_ok L sp V x" and m: "bmapped L sp V x bn addr W y" and bn: "bn < MAXFILE" and off: "off + length bs \<le> BSIZE"
  shows "file_written L sp V x (bn * BSIZE + off) bs (W(addr := splice_at off bs (W addr))) y"
proof -
  let ?W = "W(addr := splice_at off bs (W addr))"
  note M = m [unfolded bmapped_def]
  have oky: "file_ok L sp W y" and a: "block_of W y bn = addr" "addr \<noteq> 0" using M bn by auto
  have len: "length (splice_at off bs (W addr)) = BSIZE" using layout_okD(2) [OF file_okD(1) [OF oky]] off by simp
  have w: "file_ok L sp ?W y" "block_of ?W y = block_of W y" using file_ok_write [OF oky len, of addr] a bn by auto
  have bytes: "file_byte ?W y i = (if bn * BSIZE + off \<le> i \<and> i < bn * BSIZE + off + length bs then bs ! (i - (bn * BSIZE + off)) else file_byte V x i)"
    if "i < MAXFILE * BSIZE" for i
    using file_byte_write [OF oky bn _ off that] a bmapped_byte [OF ok m bn that] by simp
  have addr: "data_block L sp (inum y) W addr" using file_okD(3) [OF oky bn] a by simp
  have used: "blk_used sp ?W b = blk_used sp W b" if "unat b < unat (sbsize sp)" for b
    by (rule blk_used_cong [OF _ that]) (use addr in \<open>auto simp: data_block_def\<close>)
  have "blk_used sp ?W b \<and> (b \<notin> bitmap_blocks sp \<longrightarrow> b \<noteq> iaddrs x NDIRECT \<longrightarrow> b \<notin> block_of V x ` {..<MAXFILE} \<longrightarrow> ?W b = V b)"
    if b: "unat b < unat (sbsize sp)" "blk_used sp V b" for b
  proof -
    have "b \<noteq> addr" if "b \<notin> block_of V x ` {..<MAXFILE}" using M bn that b(2) by (metis image_eqI lessThan_iff)
    then show ?thesis using M b used [OF b(1)] by (auto simp: grows_def)
  qed
  moreover have "\<forall>k<MAXFILE. block_of ?W y k = block_of V x k \<or> block_of V x k = 0 \<and> \<not> blk_used sp V (block_of ?W y k)"
    using M w(2) by auto
  moreover have "block_of ?W y (i div BSIZE) \<noteq> 0" if i: "bn * BSIZE + off \<le> i" "i < bn * BSIZE + off + length bs" for i
  proof -
    have "i div BSIZE = bn" using i off by (intro div_nat_eqI) (auto simp: mult.commute)
    then show ?thesis using w(2) a by simp
  qed
  ultimately show ?thesis using w(1) bytes M by (simp add: file_written_def)
qed

section \<open>Where the data comes from\<close>

text \<open>What \<open>writei\<close> relies on: the source gives the asked part of \<open>data\<close>, and the operations of the file system leave it alone.\<close>

locale byte_source =
  fixes h :: nat and d :: uint and src :: "'a kfs_scheme source" and data :: bytes and avail :: "'a kfs_scheme \<Rightarrow> bool"
  assumes fetch: "avail s \<Longrightarrow> tx_inv h d H s \<Longrightarrow> k + n \<le> length data \<Longrightarrow>
      \<exists>t. src k n s = Some (0, slice k n data, t) \<and> op_step_with h d H 0 s t (view d s)"
    and avail_step: "avail s \<Longrightarrow> op_step_with h d H j s t V \<Longrightarrow> avail t"
    and avail_inode: "avail s \<Longrightarrow> avail (upd_inode ip f s)"
begin

lemma avail_fs_step:
  assumes "avail s" "fs_step h d ip j s t V x"
  shows "avail t"
proof -
  have "avail (upd_inode ip (\<lambda>_. itab s ip) t)" using assms avail_step by (auto simp: fs_step_def)
  from avail_inode [OF this, of ip "\<lambda>_. itab t ip"] show ?thesis by (simp add: upd_inode_upd upd_inode_same)
qed

text \<open>Fetching a part and writing it into a block.\<close>

lemma write_part:
  assumes av: "avail s" and op: "in_op h d (Suc k) s" and home: "a \<notin> log_blocks s" and part: "tot + m \<le> length data"
  obtains b t u w y where "bread h d a s = Some (b, t)" "src tot m t = Some (0, slice tot m data, u)" "bdata (bufs u b) = view d s a"
    "log_write h b (set_data b v u) = Some w" "brelse h b w = Some y" "op_step h d 1 s y ((view d s)(a := v))"
proof -
  from op_read [OF op] obtain b t where t: "bread h d a s = Some (b, t)" "bdata (bufs t b) = view d s a" "mine h d t a b"
    "op_step_with h d {a} 0 s t (view d s)" by (metis empty_iff)
  have "avail t" "tx_inv h d {a} t" using avail_step [OF av t(4)] t(4) by (auto simp: op_step_with_def)
  from fetch [OF this part] obtain u where u: "src tot m t = Some (0, slice tot m data, u)" "op_step_with h d {a} 0 t u (view d t)" by blast
  note su = op_step_trans [OF t(4) u(2) order_refl]
  have mu: "mine h d u a b" and txu: "tx_inv h d {a} u" using t(3) u(2) by (auto simp: op_step_with_def)
  have vu: "view d u = view d s" using op_step_view [OF su] op_step_view [OF t(4)] by simp
  have cap: "lhn u + 1 < int NBUF" "1 \<le> outstanding u" "lhn u < lsize u - 1"
    using su op by (auto simp: op_step_with_def in_op_def)
  have "a \<notin> log_area (lstart u) (nat (lsize u))" using home op_step_kfs [OF su] by simp
  from op_log [OF txu cap mu this, where v = v] obtain w where w: "log_write h b (set_data b v u) = Some w"
    "op_step_with h d {a} 1 u w ((view d u)(a := v))" "a \<in> pins w" "mine h d w a b" .
  obtain y where y: "brelse h b w = Some y" "op_step_with h d ({a} - {a}) 0 w y (view d w)"
    using op_release [OF _ w(4)] w(2,3) unfolding op_step_with_def by blast
  have "op_step h d 1 s y ((view d s)(a := v))"
    using op_step_trans [OF op_step_trans [OF su w(2) order_refl] y(2)] op_step_view [OF w(2)] vu by simp
  moreover have "bdata (bufs u b) = view d s a" using tx_mine(2) [OF txu mu] vu by simp
  ultimately show thesis using that t(1) u(1) w(1) y(1) by blast
qed

end

section \<open>The loop of writei\<close>

text \<open>The number of blocks that \<open>n\<close> bytes from \<open>off\<close> on touch.\<close>

definition spans :: "nat \<Rightarrow> nat \<Rightarrow> nat" where
  "spans off n = (if n = 0 then 0 else Suc ((off mod BSIZE + n - 1) div BSIZE))"

lemma spans_chunk:
  assumes "0 < n" "m = chunk_len n off"
  shows "spans (unat off) n = Suc (spans (unat off + m) (n - m))" "0 < m" "m \<le> n" "unat off mod BSIZE + m \<le> BSIZE"
proof -
  have B: "0 < BSIZE" by (simp add: BSIZE_def)
  let ?o = "unat off mod BSIZE"
  have o: "?o < BSIZE" using B by simp
  show m: "0 < m" "m \<le> n" "?o + m \<le> BSIZE" using assms o by (simp_all add: chunk_len_def)
  show "spans (unat off) n = Suc (spans (unat off + m) (n - m))"
  proof (cases "n \<le> BSIZE - ?o")
    case True
    then have "m = n" using assms by (simp add: chunk_len_def)
    moreover have "?o + n - 1 < BSIZE" using True o assms(1) by linarith
    ultimately show ?thesis using assms(1) by (simp add: spans_def)
  next
    case False
    then have mo: "m + ?o = BSIZE" "m < n" using assms o by (simp_all add: chunk_len_def)
    have "(unat off + m) mod BSIZE = (?o + m) mod BSIZE" by (simp add: mod_add_left_eq)
    then have "(unat off + m) mod BSIZE = 0" using mo by (simp add: add.commute)
    moreover have "?o + n - 1 = (n - m - 1) + BSIZE" using mo by linarith
    then have "(?o + n - 1) div BSIZE = Suc ((n - m - 1) div BSIZE)" using B by (simp only: div_add_self2 Suc_eq_plus1)
    ultimately show ?thesis using mo by (simp add: spans_def)
  qed
qed

context byte_source
begin

lemma writei_loop_spec:
  fixes s :: "'a kfs_scheme"
  assumes "avail s" "in_op h d (6 * spans (unat off) rem + k) s" "idev (itab s ip) = d"
    and "file_ok (log_blocks s) (sb s) (view d s) (itab s ip)" "unat off + rem \<le> MAXFILE * BSIZE"
    and "tot + rem \<le> length data" "2 * spans (unat off) rem \<le> card (free_blocks (sb s) (view d s))"
  shows "\<exists>t W y. writei_loop h ip src rem tot off s = Some (int (tot + rem), off + of_nat rem, t) \<and>
    fs_step h d ip (6 * spans (unat off) rem) s t W y \<and>
    file_written (log_blocks s) (sb s) (view d s) (itab s ip) (unat off) (slice tot rem data) W y"
  using assms
proof (induction rem arbitrary: tot off s rule: less_induct)
  case (less rem)
  let ?L = "log_blocks s" and ?V = "view d s" and ?x = "itab s ip"
  note av = less.prems(1) and op = less.prems(2) and dev = less.prems(3) and ok = less.prems(4) and small = less.prems(5)
  show ?case
  proof (cases "rem = 0")
    case True
    have "fs_step h d ip 0 s s ?V ?x" using op by (intro fs_step_op op_step_refl) (simp add: in_op_def)
    then show ?thesis
      using True file_written_refl [OF ok] by (subst writei_loop.simps) (auto simp: spans_def slice_def)
  next
    case False
    define m where "m = chunk_len rem off"
    define bn where "bn = unat off div BSIZE"
    have pos: "0 < rem" using False by simp
    note sp = spans_chunk [OF pos m_def]
    have bn: "bn < MAXFILE" using small pos by (simp add: bn_def less_mult_imp_div_less)
    have ub: "unat (off div of_nat BSIZE) = bn" by (simp add: bn_def unat_div BSIZE_def)
    have op6: "in_op h d 6 s" and fr: "2 \<le> card (free_blocks (sb s) ?V)" using op less.prems(7) sp(1) by (auto simp: in_op_def)
    obtain addr t W y where t: "bmap h ip (off div of_nat BSIZE) s = Some (addr, t)" "fs_step h d ip 5 s t W y"
      "bmapped ?L (sb s) ?V ?x bn addr W y"
      using bmap_spec [OF op6 dev ok _ fr] bn unfolding ub [symmetric] by blast
    note ft = fs_stepD [OF t(2)]
    let ?v = "splice_at (unat off mod BSIZE) (slice tot m data) (W addr)"
    have opt: "in_op h d (Suc (6 * spans (unat off + m) (rem - m) + k)) t"
      using op sp(1) ft(6) [of "Suc (6 * spans (unat off + m) (rem - m) + k)"] by (simp add: ac_simps)
    have home: "addr \<notin> log_blocks t"
      using t(3) bn ft file_okD(3) [of ?L "sb s" W y bn] by (auto simp: bmapped_def data_block_def)
    have part: "tot + m \<le> length data" using less.prems(6) sp(3) by linarith
    obtain b u v w z where z: "bread h d addr t = Some (b, u)" "src tot m u = Some (0, slice tot m data, v)" "bdata (bufs v b) = W addr"
      "log_write h b (set_data b ?v v) = Some w" "brelse h b w = Some z" "op_step h d 1 t z (W(addr := ?v))"
      using write_part [OF avail_fs_step [OF av t(2)] opt home part, where v = ?v] unfolding ft(1) by metis
    have sz: "fs_step h d ip (5 + 1) s z (W(addr := ?v)) y" using fs_step_trans [OF t(2) fs_step_op [OF z(6)]] ft(2) by simp
    note fz = fs_stepD [OF sz]
    have iz: "itab z ip = y" using fz(2) by simp
    have "bn * BSIZE + unat off mod BSIZE = unat off" by (simp add: bn_def)
    then have wr: "file_written ?L (sb s) ?V ?x (unat off) (slice tot m data) (W(addr := ?v)) y"
      using file_written_block [OF ok t(3) bn, of "unat off mod BSIZE" "slice tot m data"] part sp(4) by simp
    have uo: "unat (off + of_nat m) = unat off + m"
      using small sp(3) by (intro unat_add_small) (simp_all add: MAXFILE_def NDIRECT_def NINDIRECT_def BSIZE_def)
    have "addr \<notin> bitmap_blocks (sb s)" using t(3) bn file_okD(3) [of ?L "sb s" W y bn] by (auto simp: bmapped_def data_block_def)
    then have "free_blocks (sb s) (W(addr := ?v)) = free_blocks (sb s) W" by (intro free_cong) auto
    then have fz': "2 * spans (unat off + m) (rem - m) \<le> card (free_blocks (sb s) (W(addr := ?v)))"
      using less.prems(7) sp(1) t(3) by (simp add: bmapped_def)
    have "idev y = d" using wr dev unfolding file_written_def by (metis inode.ext_inject inode.surjective inode.update_convs(10))
    moreover have "file_ok ?L (sb s) (W(addr := ?v)) y" using wr by (simp add: file_written_def)
    moreover have "in_op h d (6 * spans (unat off + m) (rem - m) + k) z"
      using op sp(1) fz(6) [of "6 * spans (unat off + m) (rem - m) + k"] by (simp add: ac_simps)
    ultimately obtain t' W' y' where t': "writei_loop h ip src (rem - m) (tot + m) (off + of_nat m) z =
        Some (int (tot + m + (rem - m)), off + of_nat m + of_nat (rem - m), t')"
      "fs_step h d ip (6 * spans (unat off + m) (rem - m)) z t' W' y'"
      "file_written ?L (sb s) (W(addr := ?v)) y (unat off + m) (slice (tot + m) (rem - m) data) W' y'"
      using less.IH [of "rem - m" z "off + of_nat m" "tot + m"] avail_fs_step [OF av sz] fz' uo sp(2,3) small less.prems(6)
      by (auto simp: fz(1,3-5) iz simp del: fun_upd_apply)
    have "slice tot rem data = slice tot m data @ slice (tot + m) (rem - m) data"
      using sp(3) take_add [of m "rem - m" "drop tot data"] by (simp add: slice_def add.commute)
    moreover have "file_written ?L (sb s) ?V ?x (unat off) (slice tot m data @ slice (tot + m) (rem - m) data) W' y'"
      by (rule file_written_trans [OF wr _ ok]) (use t'(3) part small sp(3) in simp_all)
    ultimately have "file_written ?L (sb s) ?V ?x (unat off) (slice tot rem data) W' y'" by simp
    moreover have "fs_step h d ip (6 * spans (unat off) rem) s t' W' y'"
      using fs_step_trans [OF sz t'(2)] sp(1) by simp
    moreover have "writei_loop h ip src rem tot off s = Some (int (tot + rem), off + of_nat rem, t')"
      using t(1) z t'(1) sp(3) False ft(2) \<open>idev y = d\<close> by (subst writei_loop.simps) (simp add: m_def [symmetric] Let_def flip: of_nat_add)
    ultimately show ?thesis by blast
  qed
qed

lemma writei_spec:
  fixes s :: "'a kfs_scheme"
  assumes av: "avail s" and op: "in_op h d (6 * spans (unat off) (unat n) + Suc k) s" and dev: "idev (itab s ip) = d"
    and ok: "file_ok (log_blocks s) (sb s) (view d s) (itab s ip)" and off: "unat off \<le> unat (isize (itab s ip))"
    and max: "unat off + unat n \<le> MAXFILE * BSIZE" and len: "unat n \<le> length data"
    and free: "2 * spans (unat off) (unat n) \<le> card (free_blocks (sb s) (view d s))"
  obtains t U y where "writei h ip src off n s = Some (int (unat n), t)" "in_op h d k t"
    "file_written (log_blocks s) (sb s) (view d s) (itab s ip) (unat off) (slice 0 (unat n) data) U y"
    "itab t = (itab s)(ip := y\<lparr>isize := max (isize (itab s ip)) (off + n)\<rparr>)" "sb t = sb s" "log_blocks t = log_blocks s"
    "view d t = U(IBLOCK (inum (itab s ip)) (sb s) := put_dinode (dinode_off (inum (itab s ip))) (itab t ip) (U (IBLOCK (inum (itab s ip)) (sb s))))"
proof -
  let ?x = "itab s ip" and ?L = "log_blocks s" and ?N = "spans (unat off) (unat n)"
  obtain t U y where t: "writei_loop h ip src (unat n) 0 off s = Some (int (unat n), off + n, t)" "fs_step h d ip (6 * ?N) s t U y"
    "file_written ?L (sb s) (view d s) ?x (unat off) (slice 0 (unat n) data) U y"
    using writei_loop_spec [OF av op dev ok max, of 0] len free by auto
  note ft = fs_stepD [OF t(2)]
  have y: "y = ?x\<lparr>iaddrs := iaddrs y\<rparr>" and oky: "file_ok ?L (sb s) U y" using t(3) by (simp_all add: file_written_def)
  have yf: "isize y = isize ?x" "inum y = inum ?x" "idev y = d" using dev by (subst y, simp)+
  have uon: "unat (off + n) = unat off + unat n"
    using max unat_add_small [of off "unat n"] by (simp add: MAXFILE_def NDIRECT_def NINDIRECT_def BSIZE_def)
  let ?z = "y\<lparr>isize := max (isize ?x) (off + n)\<rparr>"
  let ?u = "if isize (itab t ip) < off + n then upd_inode ip (\<lambda>x. x\<lparr>isize := off + n\<rparr>) t else t"
  have u: "itab ?u = (itab s)(ip := ?z)" "sb ?u = sb s" "log_blocks ?u = ?L" "view d ?u = U" "in_op h d (Suc k) ?u"
    using ft(1-5) ft(6) [of "Suc k"] op yf by (auto simp: max_def upd_inode_tx in_op_def)
  have "IBLOCK (inum ?x) (sb s) \<notin> ?L" using layout_okD(8) [OF file_okD(1) [OF ok]] .
  then obtain v where v: "iupdate h ip ?u = Some v" "op_step h d 1 ?u v (U(IBLOCK (inum ?x) (sb s) :=
      put_dinode (dinode_off (inum ?x)) ?z (U (IBLOCK (inum ?x) (sb s)))))"
    using iupdate_spec [OF u(5), of ip] u yf by auto
  have "\<not> isize ?x < off" "\<not> off + n < off" "\<not> MAXFILE * BSIZE < unat (off + n)" using off max uon by (auto simp: word_less_nat_alt)
  then have "writei h ip src off n s = Some (int (unat n), v)" using t(1) v(1) by (simp add: writei_def Let_def)
  moreover have "in_op h d k v" using op_step_in_op [OF v(2), of k] u(5) by simp
  ultimately show thesis using that t(3) op_step_kfs [OF v(2)] op_step_view [OF v(2)] u by simp
qed

end

text \<open>Two providers: an object in the kernel, and the memory of the process that runs.\<close>

interpretation kernel_object: byte_source h d "object_source data" data "\<lambda>_. True" for h d data
  by unfold_locales (auto simp: object_source_def op_step_refl)

definition user_data :: "nat \<Rightarrow> uint64 \<Rightarrow> bytes \<Rightarrow> 'a kmem_scheme \<Rightarrow> bool" where
  "user_data h va data s \<longleftrightarrow> (let pt = pagetable (procs s (the (cproc (cpus s h)))) in length data < 2 ^ 64 \<and> pt_ok (pmem s) 2 pt \<and>
     (\<forall>k<length data. ubyte (pmem s) pt (va + of_nat k) = Some (data ! k)))"

lemma user_data_cong:
  fixes s t :: "'a kmem_scheme"
  assumes "pmem t = pmem s" "quiet_step h s t"
  shows "user_data h va data t = user_data h va data s"
proof -
  have "cproc (cpus t h) = cproc (cpus s h)" using assms(2) by (auto simp: quiet_step_def settled_fields)
  moreover have "pagetable (procs t p) = pagetable (procs s p)" for p
  proof -
    have "procs t p = procs s p \<or> procs t p = (procs s p)\<lparr>pstate := RUNNABLE\<rparr>" using assms(2) by (auto simp: quiet_step_def wakes_def)
    then show ?thesis by auto
  qed
  ultimately show ?thesis by (simp add: user_data_def assms(1))
qed

lemma op_step_pmem: "op_step_with h d H j s t V \<Longrightarrow> pmem t = pmem s" for s :: "'a klog_scheme"
  unfolding op_step_with_def klog_frame_def by (elim conjE) (erule ssubst [where P = "\<lambda>x. pmem x = pmem s"], simp)

lemma op_step_settle: "tx_inv h d H s \<Longrightarrow> op_step_with h d H 0 s (settle h s) (view d s)" for s :: "'a klog_scheme"
  by (simp add: op_step_with_def tx_inv_def pins_def klog_frame_settle mine_def quiet_step_settle)

lemma copyin_user:
  assumes "user_data h va data s" "k + n \<le> length data"
  shows "copyin h (pagetable (procs s (the (cproc (cpus s h))))) (va + of_nat k) (of_nat n) s = Some (0, slice k n data)"
proof -
  let ?pt = "pagetable (procs s (the (cproc (cpus s h))))"
  have u: "pt_ok (pmem s) 2 ?pt" "\<forall>k<length data. ubyte (pmem s) ?pt (va + of_nat k) = Some (data ! k)" "length data < 2 ^ 64"
    using assms(1) by (simp_all add: user_data_def Let_def)
  have un: "unat (of_nat n :: uint64) = n" using u(3) assms(2) by (simp add: unsigned_of_nat take_bit_nat_eq_self)
  have b: "ubyte (pmem s) ?pt (va + of_nat k + of_nat i) = Some (data ! (k + i))" if "i < n" for i
    using u(2) [rule_format, of "k + i"] that assms(2) by (simp add: add.assoc)
  have "map (\<lambda>i. the (ubyte (pmem s) ?pt (va + of_nat k + of_nat i))) [0..<n] = slice k n data"
    using b assms(2) by (intro nth_equalityI) (simp_all add: nth_slice)
  then show ?thesis using copyin_spec [OF u(1), of h "va + of_nat k" "of_nat n"] b unfolding un by auto
qed

interpretation user_memory: byte_source h d "mem_source h True va" data "user_data h va data" for h d va data
proof (unfold_locales, goal_cases)
  case (1 s H k n)
  have q: "quiet h s" using 1(2) by (simp add: tx_inv_def)
  then obtain p where p: "cproc (cpus s h) = Some p" by (auto simp: quiet_def)
  have st: "op_step_with h d H 0 s (settle h s) (view d s)" by (rule op_step_settle [OF 1(2)])
  have "quiet_step h s (settle h s)" "pmem (settle h s) = pmem s" using st op_step_pmem [OF st] by (simp_all add: op_step_with_def)
  then have ud: "user_data h va data (settle h s)" using user_data_cong 1(1) by blast
  have "pagetable (procs (settle h s) (the (cproc (cpus (settle h s) h)))) = pagetable (procs s p)" using p by simp
  with copyin_user [OF ud 1(3)]
  have "mem_source h True va k n s = Some (0, slice k n data, settle h s)"
    using q p by (simp add: mem_source_def either_copyin_def myproc_eq quiet_def)
  then show ?case using st by blast
next
  case (2 s H j t V)
  then show ?case using user_data_cong op_step_pmem by (metis op_step_with_def)
next
  case (3 s ip f)
  then show ?case by (simp add: user_data_def upd_inode_def)
qed

section \<open>writei\<close>

text \<open>The blocks of a file, its indirect block included.\<close>

definition file_blocks :: "(uint \<Rightarrow> bytes) \<Rightarrow> inode \<Rightarrow> uint set" where
  "file_blocks V x = insert (iaddrs x NDIRECT) (block_of V x ` {..<MAXFILE})"

text \<open>After \<open>iupdate\<close> the file is what it was, and the inode on the disk is the one in memory.\<close>

lemma file_after_iupdate:
  assumes w: "file_written L sp V x off bs U y" and ok: "file_ok L sp V x" and i: "i = inum x" and z: "z = y\<lparr>isize := n\<rparr>"
    and W: "W = U(IBLOCK i sp := put_dinode (dinode_off i) z (U (IBLOCK i sp)))"
  shows "file_ok L sp W z" "block_of W z = block_of U y" "k < MAXFILE * BSIZE \<Longrightarrow> file_byte W z k = file_byte U y k"
    "same_dinode (get_dinode (dinode_off i) (W (IBLOCK i sp)) x) z"
    "j \<noteq> i \<Longrightarrow> IBLOCK j sp = IBLOCK i sp \<Longrightarrow> dinode_bytes sp W j = dinode_bytes sp V j"
proof -
  note w' = w [unfolded file_written_def]
  have y: "y = x\<lparr>iaddrs := iaddrs y\<rparr>" and oky: "file_ok L sp U y" using w' by simp_all
  have iy: "inum y = i" using arg_cong [OF y, of inum] i by simp
  have bz: "block_of X z = block_of X y" for X by (rule ext) (simp add: block_of_def z)
  then have zz: "file_ok L sp X z = file_ok L sp X y" for X by (simp add: file_ok_def z)
  note l = layout_okD [OF file_okD(1) [OF oky]] and lV = layout_okD [OF file_okD(1) [OF ok], folded i]
  have room: "dinode_off i + sizeof_dinode \<le> length (U (IBLOCK i sp))" using dinode_off_bound l(2) by simp
  have len: "length (put_dinode (dinode_off i) z (U (IBLOCK i sp))) = BSIZE" using length_put_dinode [OF room] l(2) by simp
  note wr = file_ok_write [OF oky len, of "IBLOCK i sp", unfolded iy, folded W]
  show "file_ok L sp W z" using wr(1) zz by simp
  show b: "block_of W z = block_of U y" using wr(2) bz by simp
  have "block_of U y c \<noteq> IBLOCK i sp" if "c < MAXFILE" "block_of U y c \<noteq> 0" for c
    using file_okD(3) [OF oky that] iy by (simp add: data_block_def)
  then show "file_byte W z k = file_byte U y k" if "k < MAXFILE * BSIZE"
    using less_mult_imp_div_less [OF that] unfolding file_byte_def Let_def b by (auto simp: W)
  show "same_dinode (get_dinode (dinode_off i) (W (IBLOCK i sp)) x) z" using get_put_dinode [OF room] by (simp add: W)
  have "IBLOCK i sp \<noteq> iaddrs x NDIRECT" "IBLOCK i sp \<notin> block_of V x ` {..<MAXFILE}"
    using file_okD(2) [OF ok] file_okD(3) [OF ok] lV(10) i by (auto simp: data_block_def) (metis+)
  then have UV: "U (IBLOCK i sp) = V (IBLOCK i sp)" using w' lV by metis
  show "dinode_bytes sp W j = dinode_bytes sp V j" if "j \<noteq> i" "IBLOCK j sp = IBLOCK i sp"
  proof -
    have "slice (dinode_off j) sizeof_dinode (put_dinode (dinode_off i) z (U (IBLOCK i sp))) = slice (dinode_off j) sizeof_dinode (U (IBLOCK i sp))"
      by (rule slice_put_dinode_other [OF room]) (use IBLOCK_other [OF that] dinode_off_bound [of j] l(2) in auto)
    then show ?thesis using that(2) UV by (simp add: dinode_bytes_def W)
  qed
qed

text \<open>
  C2: \<open>writei\<close> of \<open>n\<close> bytes from the memory of the calling process, at an offset not beyond the end of the file, inside a
  transaction with enough room and with enough free blocks.  It returns \<open>n\<close>; the bytes are then in the file at that offset, whether they
  replaced others or blocks (and the indirect block) had to be allocated for them, and no other byte of the file changed; the size grew if need
  be; the inode on the disk is the one in memory; the file is still well formed and has no new holes; and no block that was in use changed,
  other than the blocks of this file, of the bitmap and of its inode.
\<close>

theorem writei_correct:
  fixes s :: "'a kfs_scheme" and ip :: nat
  assumes "user_data h va data s" "unat n = length data" "in_op h d (6 * spans (unat off) (unat n) + 1) s" "idev (itab s ip) = d"
    and "file_ok (log_blocks s) (sb s) (view d s) (itab s ip)" "unat off \<le> unat (isize (itab s ip))"
    and "unat off + unat n \<le> MAXFILE * BSIZE" "2 * spans (unat off) (unat n) \<le> card (free_blocks (sb s) (view d s))"
  shows "\<exists>t. writei h ip (mem_source h True va) off n s = Some (int (unat n), t) \<and> in_op h d 0 t \<and> sb t = sb s \<and>
    (\<forall>j. j \<noteq> ip \<longrightarrow> itab t j = itab s j) \<and> isize (itab t ip) = max (isize (itab s ip)) (off + n) \<and>
    file_ok (log_blocks s) (sb s) (view d t) (itab t ip) \<and>
    (\<forall>i<MAXFILE * BSIZE. file_byte (view d t) (itab t ip) i =
      (if unat off \<le> i \<and> i < unat off + unat n then data ! (i - unat off) else file_byte (view d s) (itab s ip) i)) \<and>
    (\<forall>i<MAXFILE * BSIZE. block_of (view d t) (itab t ip) (i div BSIZE) = 0 \<longrightarrow>
      block_of (view d s) (itab s ip) (i div BSIZE) = 0 \<and> \<not> (unat off \<le> i \<and> i < unat off + unat n)) \<and>
    same_dinode (get_dinode (dinode_off (inum (itab s ip))) (view d t (IBLOCK (inum (itab s ip)) (sb s))) (itab s ip)) (itab t ip) \<and>
    (\<forall>j. j \<noteq> inum (itab s ip) \<and> IBLOCK j (sb s) = IBLOCK (inum (itab s ip)) (sb s) \<longrightarrow>
      dinode_bytes (sb s) (view d t) j = dinode_bytes (sb s) (view d s) j) \<and>
    (\<forall>b. unat b < unat (sbsize (sb s)) \<and> blk_used (sb s) (view d s) b \<longrightarrow> blk_used (sb s) (view d t) b \<and>
      (b \<notin> file_blocks (view d s) (itab s ip) \<union> bitmap_blocks (sb s) \<union> {IBLOCK (inum (itab s ip)) (sb s)} \<longrightarrow> view d t b = view d s b))"
proof -
  let ?x = "itab s ip" and ?L = "log_blocks s" and ?V = "view d s"
  let ?I = "IBLOCK (inum ?x) (sb s)" and ?N = "spans (unat off) (unat n)"
  have op: "in_op h d (6 * ?N + Suc 0) s" using assms(3) by simp
  obtain t U y where t: "writei h ip (mem_source h True va) off n s = Some (int (unat n), t)" "in_op h d 0 t"
    "file_written ?L (sb s) ?V ?x (unat off) (slice 0 (unat n) data) U y"
    "itab t = (itab s)(ip := y\<lparr>isize := max (isize ?x) (off + n)\<rparr>)" "sb t = sb s" "log_blocks t = log_blocks s"
    "view d t = U(?I := put_dinode (dinode_off (inum ?x)) (itab t ip) (U ?I))"
    using user_memory.writei_spec [OF assms(1) op assms(4-7) _ assms(8)] assms(2) by auto
  let ?W = "view d t" and ?z = "itab t ip"
  note w = file_writtenD [OF t(3)]
  have z: "?z = y\<lparr>isize := max (isize ?x) (off + n)\<rparr>" using t(4) by simp
  note f = file_after_iupdate [OF t(3) assms(5) refl z t(7)]
  have bs: "length (slice 0 (unat n) data) = unat n" "slice 0 (unat n) data = data" using assms(2) by (simp_all add: slice_def)
  have bytes: "\<forall>i<MAXFILE * BSIZE. file_byte ?W ?z i =
      (if unat off \<le> i \<and> i < unat off + unat n then data ! (i - unat off) else file_byte ?V ?x i)"
    using w(3) f(3) bs by simp
  have holes: "\<forall>i<MAXFILE * BSIZE. block_of ?W ?z (i div BSIZE) = 0 \<longrightarrow>
      block_of ?V ?x (i div BSIZE) = 0 \<and> \<not> (unat off \<le> i \<and> i < unat off + unat n)"
  proof (intro allI impI conjI)
    fix i assume "i < MAXFILE * BSIZE" "block_of ?W ?z (i div BSIZE) = 0"
    then have i: "i div BSIZE < MAXFILE" "block_of U y (i div BSIZE) = 0" using f(2) by (simp_all add: less_mult_imp_div_less)
    show "block_of ?V ?x (i div BSIZE) = 0" using w(4) [OF i(1)] i(2) by auto
    show "\<not> (unat off \<le> i \<and> i < unat off + unat n)" using w(5) [of i] i(2) bs(1) by auto
  qed
  have other: "blk_used (sb s) ?W b \<and> (b \<notin> file_blocks ?V ?x \<union> bitmap_blocks (sb s) \<union> {?I} \<longrightarrow> ?W b = ?V b)"
    if b: "unat b < unat (sbsize (sb s))" "blk_used (sb s) ?V b" for b
  proof -
    have "?I \<notin> bitmap_blocks (sb s)" by (rule layout_okD(9) [OF file_okD(1) [OF assms(5)]])
    then have "blk_used (sb s) ?W b = blk_used (sb s) U b" unfolding t(7) by (intro blk_used_cong [OF _ b(1)]) auto
    then show ?thesis using w(7,8) [OF b] by (auto simp: t(7) file_blocks_def)
  qed
  have "\<forall>j. j \<noteq> ip \<longrightarrow> itab t j = itab s j" "isize ?z = max (isize ?x) (off + n)" using t(4) by simp_all
  then show ?thesis using t(1,2,5) f(1,4,5) bytes holes other by (intro exI [of _ t]) simp
qed

text \<open>The example file system with an empty file, and a process that has a page of memory.\<close>

definition example_file_fs :: kfs where
  "example_file_fs = (upd_inode 3 (\<lambda>x. x\<lparr>idev := 1, inum := 21\<rparr>) example_fs)
     \<lparr>procs := (procs example_fs)(0 := (procs example_fs 0)\<lparr>pagetable := 0x87FFF000\<rparr>), pmem := mapped_mem\<rparr>"

lemma binit_cpus: "cpus (binit s) = cpus s" "procs (binit s) = procs s" for s :: "'a kfs_scheme"
proof -
  have loop: "cpus (binit_loop k s) = cpus s \<and> procs (binit_loop k s) = procs s" for k and s :: "'a kfs_scheme"
    by (induction k) (auto simp: binit_body_def initsleeplock_def initlock_def upd_slock_def upd_lock_def upd_buf_def Let_def)
  show "cpus (binit s) = cpus s" "procs (binit s) = procs s"
    by (simp_all add: binit_def Let_def loop) (simp_all add: initlock_def upd_lock_def upd_buf_def)
qed

lemma example_file_fields:
  "sb example_file_fs = example_sb" "lstart example_file_fs = 2" "lsize example_file_fs = 30" "pmem example_file_fs = mapped_mem"
  "cproc (cpus example_file_fs 0) = Some 0" "pagetable (procs example_file_fs 0) = 0x87FFF000"
  "itab example_file_fs 3 = \<lparr>idev = 1, inum = 21, iref = 0, ivalid = False, itype = 0, imajor = 0, iminor = 0, inlink = 0, isize = 0,
    iaddrs = (\<lambda>k. 0)\<rparr>" "view 1 example_file_fs = view 1 example_fs"
proof -
  have "cproc (cpus example_fs 0) = Some 0"
    by (simp add: example_fs_def binit_cpus) (simp add: klog.extend_def boot_klog_def boot_bio_def bio.extend_def)
  moreover have "itab example_fs 3 = \<lparr>idev = 0, inum = 0, iref = 0, ivalid = False, itype = 0, imajor = 0, iminor = 0, inlink = 0, isize = 0,
    iaddrs = (\<lambda>k. 0)\<rparr>"
    by (simp add: example_fs_def binit_fields) (simp add: klog.extend_def)
  moreover have "abs_cache 1 example_file_fs = abs_cache 1 example_fs"
    by (rule abs_cache_cong'(1)) (simp_all add: example_file_fs_def)
  ultimately show "sb example_file_fs = example_sb" "lstart example_file_fs = 2" "lsize example_file_fs = 30" "pmem example_file_fs = mapped_mem"
    "cproc (cpus example_file_fs 0) = Some 0" "pagetable (procs example_file_fs 0) = 0x87FFF000"
    "itab example_file_fs 3 = \<lparr>idev = 1, inum = 21, iref = 0, ivalid = False, itype = 0, imajor = 0, iminor = 0, inlink = 0, isize = 0,
      iaddrs = (\<lambda>k. 0)\<rparr>" "view 1 example_file_fs = view 1 example_fs"
    by (simp_all add: example_file_fs_def example_fs_fields)
qed

lemma example_file_in_op: "k < 30 \<Longrightarrow> in_op 0 1 k example_file_fs"
proof -
  assume k: "k < 30"
  have q: "quiet 0 example_fs" "cproc (cpus example_fs 0) = Some 0"
    using example_fs_tx(1) example_file_fields(5) by (simp_all add: tx_inv_def) (simp add: example_file_fs_def)
  have "tx_inv 0 1 {} example_file_fs = tx_inv 0 1 {} example_fs"
    using q by (intro tx_inv_cong) (simp_all add: example_file_fs_def quiet_def lock_free_def me_pid_def)
  then show ?thesis
    using example_in_op [OF k] by (simp add: in_op_def) (simp add: example_file_fs_def)
qed

lemma example_home: "32 \<le> n \<Longrightarrow> n < 1000 \<Longrightarrow> of_nat n \<notin> log_area 2 30"
proof
  assume n: "32 \<le> n" "n < 1000" and "(of_nat n :: uint) \<in> log_area 2 30"
  then obtain k where "k < 32" "(of_nat n :: uint) = of_nat k" using example_log_area by blast
  then have "n = k" using n by (subst (asm) of_nat_word_eq_iff) auto
  then show False using n \<open>k < 32\<close> by simp
qed

lemma example_file_ok: "file_ok (log_area 2 30) example_sb (view 1 example_fs) (itab example_file_fs 3)"
proof -
  have n: "IBLOCK 21 example_sb = 33" by (simp add: IBLOCK_def example_sb_def IPB_def BSIZE_def sizeof_dinode_def NDIRECT_def)
  have bm: "bitmap_blocks example_sb = {45}" using example_BBLOCK by (auto simp: bitmap_blocks_def image_iff example_sb_def) (metis less_numeral_extra(1) of_nat_0 zero_less_numeral)
  have size: "unat (sbsize example_sb) = 1000" by (simp add: example_sb_def)
  have "unat b < 1000" if "b \<in> log_area 2 30" for b
    using example_log_area [OF that] by (auto simp: unsigned_of_nat take_bit_nat_eq_self)
  moreover have "length (view 1 example_fs b) = BSIZE" for b by (simp add: example_fs_tx(2) example_bitmap_def BSIZE_def)
  ultimately have "layout_ok (log_area 2 30) example_sb 21 (view 1 example_fs)"
    unfolding layout_ok_def n bm size
    using example_bitmap_ok example_used [of 0] example_used [of 33] example_home [of 33] by simp
  then show ?thesis by (simp add: file_ok_def example_file_fields block_of_def)
qed

lemma example_free: "2 \<le> card (free_blocks example_sb (view 1 example_fs))"
proof -
  have size: "unat (sbsize example_sb) = 1000" by (simp add: example_sb_def)
  have "{46, 47} \<subseteq> free_blocks example_sb (view 1 example_fs)" 
    using example_used [of 46] example_used [of 47] size by (simp add: free_blocks_def)
  moreover have "finite (free_blocks example_sb (view 1 example_fs))" by (simp add: free_blocks_def)
  ultimately have "card {46, 47 :: nat} \<le> card (free_blocks example_sb (view 1 example_fs))" by (rule card_mono [rotated])
  then show ?thesis by simp
qed

theorem writei_correct_witness:
  "\<exists>data t. length data = 2 \<and> user_data 0 0x10 data example_file_fs \<and> writei 0 3 (mem_source 0 True 0x10) 0 2 example_file_fs = Some (2, t) \<and>
    isize (itab t 3) = 2 \<and> file_byte (view 1 t) (itab t 3) 0 = data ! 0 \<and> file_byte (view 1 t) (itab t 3) 1 = data ! 1"
proof -
  let ?s = example_file_fs
  let ?data = "map (\<lambda>k. the (ubyte mapped_mem 0x87FFF000 (0x10 + of_nat k))) [0..<2]"
  have "ubyte mapped_mem 0x87FFF000 (0x10 + of_nat k) \<noteq> None" if "k < 2" for k
    using example_mapped [of "16 + k"] that by simp
  then have ud: "user_data 0 0x10 ?data ?s"
    using mapped_uvm_ok by (auto simp: user_data_def Let_def example_file_fields uvm_ok_def)
  have sp: "spans 0 2 = 1" by (simp add: spans_def BSIZE_def)
  have max: "2 \<le> MAXFILE * BSIZE" by (simp add: MAXFILE_def NDIRECT_def NINDIRECT_def BSIZE_def)
  have lb: "log_blocks ?s = log_area 2 30" by (simp add: example_file_fields)
  have "\<exists>t. writei 0 3 (mem_source 0 True 0x10) 0 2 ?s = Some (int (unat (2 :: uint)), t) \<and> in_op 0 1 0 t \<and> sb t = sb ?s \<and>
    (\<forall>j. j \<noteq> 3 \<longrightarrow> itab t j = itab ?s j) \<and> isize (itab t 3) = max (isize (itab ?s 3)) (0 + 2) \<and>
    file_ok (log_blocks ?s) (sb ?s) (view 1 t) (itab t 3) \<and>
    (\<forall>i<MAXFILE * BSIZE. file_byte (view 1 t) (itab t 3) i =
      (if unat (0 :: uint) \<le> i \<and> i < unat (0 :: uint) + unat (2 :: uint) then ?data ! (i - unat (0 :: uint)) else file_byte (view 1 ?s) (itab ?s 3) i)) \<and>
    (\<forall>i<MAXFILE * BSIZE. block_of (view 1 t) (itab t 3) (i div BSIZE) = 0 \<longrightarrow>
      block_of (view 1 ?s) (itab ?s 3) (i div BSIZE) = 0 \<and> \<not> (unat (0 :: uint) \<le> i \<and> i < unat (0 :: uint) + unat (2 :: uint))) \<and>
    same_dinode (get_dinode (dinode_off (inum (itab ?s 3))) (view 1 t (IBLOCK (inum (itab ?s 3)) (sb ?s))) (itab ?s 3)) (itab t 3) \<and>
    (\<forall>j. j \<noteq> inum (itab ?s 3) \<and> IBLOCK j (sb ?s) = IBLOCK (inum (itab ?s 3)) (sb ?s) \<longrightarrow>
      dinode_bytes (sb ?s) (view 1 t) j = dinode_bytes (sb ?s) (view 1 ?s) j) \<and>
    (\<forall>b. unat b < unat (sbsize (sb ?s)) \<and> blk_used (sb ?s) (view 1 ?s) b \<longrightarrow> blk_used (sb ?s) (view 1 t) b \<and>
      (b \<notin> file_blocks (view 1 ?s) (itab ?s 3) \<union> bitmap_blocks (sb ?s) \<union> {IBLOCK (inum (itab ?s 3)) (sb ?s)} \<longrightarrow> view 1 t b = view 1 ?s b))"
    by (rule writei_correct [OF ud]) (use example_file_in_op [of 7] example_file_ok example_free lb max in \<open>simp_all add: sp example_file_fields\<close>)
  then obtain t where t: "writei 0 3 (mem_source 0 True 0x10) 0 2 ?s = Some (int (unat (2 :: uint)), t)"
    "isize (itab t 3) = max (isize (itab ?s 3)) (0 + 2)"
    "\<forall>i<MAXFILE * BSIZE. file_byte (view 1 t) (itab t 3) i =
      (if unat (0 :: uint) \<le> i \<and> i < unat (0 :: uint) + unat (2 :: uint) then ?data ! (i - unat (0 :: uint)) else file_byte (view 1 ?s) (itab ?s 3) i)"
    by blast
  have "0 < MAXFILE * BSIZE" "1 < MAXFILE * BSIZE" by (simp_all add: MAXFILE_def NDIRECT_def NINDIRECT_def BSIZE_def)
  from t(3) [rule_format, OF this(1)] t(3) [rule_format, OF this(2)]
  have "file_byte (view 1 t) (itab t 3) 0 = ?data ! 0" "file_byte (view 1 t) (itab t 3) 1 = ?data ! 1" by simp_all
  moreover have "isize (itab t 3) = 2" using t(2) by (simp add: example_file_fields)
  ultimately show ?thesis using t(1) ud by (intro exI [of _ ?data] exI [of _ t]) simp
qed

end
