(* ===== verification/FsRead.thy ===== *)
theory FsRead
  imports FsWrite
begin

text \<open>
  Reading a file with \<open>readi\<close> of \<^verbatim>\<open>kernel/fs.c\<close> into an object of the kernel, as \<open>dirlookup\<close>, \<open>dirlink\<close> and \<open>exec\<close> do; and
  that what \<open>writei\<close> wrote is read back.
\<close>

abbreviation file_part :: "(uint \<Rightarrow> bytes) \<Rightarrow> inode \<Rightarrow> nat \<Rightarrow> nat \<Rightarrow> bytes" where
  "file_part V x off n \<equiv> map (file_byte V x) [off..<off + n]"

lemma file_part_add: "file_part V x off (m + k) = file_part V x off m @ file_part V x (off + m) k"
  using upt_add_eq_append [of off "off + m" k] by (simp add: add.assoc flip: map_append)

text \<open>The file has no holes below its size, and is not too large.\<close>

definition no_holes :: "(uint \<Rightarrow> bytes) \<Rightarrow> inode \<Rightarrow> bool" where
  "no_holes V x \<longleftrightarrow> unat (isize x) \<le> MAXFILE * BSIZE \<and> (\<forall>i<unat (isize x). block_of V x (i div BSIZE) \<noteq> 0)"

lemma splice_twice:
  assumes "off + length xs + length ys \<le> length zs"
  shows "splice_at (off + length xs) ys (splice_at off xs zs) = splice_at off (xs @ ys) zs"
  using assms by (simp add: splice_at_def ac_simps)

lemma block_part:
  assumes "length (V (block_of V x (off div BSIZE))) = BSIZE" "block_of V x (off div BSIZE) \<noteq> 0" "off mod BSIZE + m \<le> BSIZE"
  shows "slice (off mod BSIZE) m (V (block_of V x (off div BSIZE))) = file_part V x off m"
proof (rule nth_equalityI)
  fix i assume "i < length (slice (off mod BSIZE) m (V (block_of V x (off div BSIZE))))"
  then have i: "i < m" using assms by simp
  have lt: "off mod BSIZE + i < BSIZE" "BSIZE \<noteq> 0" using i assms(3) by linarith+
  have e: "off + i = (off mod BSIZE + i) + off div BSIZE * BSIZE" by simp
  have "(off + i) div BSIZE = off div BSIZE" using lt by (subst e) (simp only: div_mult_self1 div_less add_0_right not_False_eq_True)
  moreover have "(off + i) mod BSIZE = off mod BSIZE + i" using lt by (subst e) (simp only: mod_mult_self1 mod_less)
  ultimately show "slice (off mod BSIZE) m (V (block_of V x (off div BSIZE))) ! i = file_part V x off m ! i"
    using assms i by (simp add: nth_slice file_byte_def Let_def)
qed (use assms in simp)

lemma readi_loop_spec:
  fixes s :: "'a kfs_scheme"
  assumes "in_op h d (Suc k) s" "idev (itab s ip) = d" "file_ok (log_blocks s) (sb s) (view d s) (itab s ip)"
    and "unat off + rem \<le> MAXFILE * BSIZE" "\<forall>i. unat off \<le> i \<longrightarrow> i < unat off + rem \<longrightarrow> block_of (view d s) (itab s ip) (i div BSIZE) \<noteq> 0"
    and "tot + rem \<le> length x"
  shows "\<exists>t. readi_loop h ip object_sink rem tot off x s =
      Some (int (tot + rem), splice_at tot (file_part (view d s) (itab s ip) (unat off) rem) x, t) \<and> op_step h d 0 s t (view d s)"
  using assms
proof (induction rem arbitrary: tot off x s rule: less_induct)
  case (less rem)
  let ?V = "view d s" and ?x = "itab s ip"
  note op = less.prems(1) and dev = less.prems(2) and ok = less.prems(3) and small = less.prems(4) and full = less.prems(5)
  show ?case
  proof (cases "rem = 0")
    case True
    have "op_step h d 0 s s ?V" using op by (intro op_step_refl) (simp add: in_op_def)
    then show ?thesis using True by (subst readi_loop.simps) (simp add: splice_at_def)
  next
    case False
    define m where "m = chunk_len rem off"
    have pos: "0 < rem" using False by simp
    note sp = spans_chunk [OF pos m_def]
    define a where "a = block_of ?V ?x (unat off div BSIZE)"
    have a: "a \<noteq> 0" "unat off div BSIZE < MAXFILE" using full pos small by (simp_all add: a_def less_mult_imp_div_less)
    have ub: "unat (off div of_nat BSIZE) = unat off div BSIZE" by (simp add: unat_div BSIZE_def)
    obtain t where t: "bmap h ip (off div of_nat BSIZE) s = Some (a, t)" "op_step h d 0 s t ?V"
      using bmap_found [OF op dev, of "off div of_nat BSIZE"] a unfolding ub a_def by blast
    have opt: "in_op h d (Suc k) t" using op_step_in_op [OF t(2)] op by simp
    from op_read [OF opt, of a] obtain b u where u: "bread h d a t = Some (b, u)" "bdata (bufs u b) = view d t a" "mine h d u a b"
      "op_step_with h d {a} 0 t u (view d t)" "a \<in> pins u \<or> view d u a = disk u a" by blast
    have txu: "tx_inv h d {a} u" and vu: "view d u = ?V" using u(4) op_step_view [OF t(2)] by (auto simp: op_step_with_def)
    from op_release [OF txu u(3,5)] obtain w where w: "brelse h b u = Some w" "op_step_with h d ({a} - {a}) 0 u w (view d u)" by blast
    have sw: "op_step h d 0 s w ?V"
      using op_step_trans [OF t(2) op_step_trans [OF u(4) w(2)]] vu by simp
    note fw = op_step_kfs [OF sw] and vw = op_step_view [OF sw]
    have uo: "unat (off + of_nat m) = unat off + m"
      using small sp(3) by (intro unat_add_small) (simp add: MAXFILE_def NDIRECT_def NINDIRECT_def BSIZE_def)
    let ?part = "file_part ?V ?x (unat off) m" and ?x' = "splice_at tot (file_part ?V ?x (unat off) m) x"
    have part: "slice (unat off mod BSIZE) m (view d t a) = ?part"
      using block_part [of ?V ?x "unat off" m] a(1) sp(4) layout_okD(2) [OF file_okD(1) [OF ok]] op_step_view [OF t(2)] by (simp add: a_def)
    have room: "tot + m \<le> length x" using less.prems(6) sp(3) by linarith
    have "in_op h d (Suc k) w" using op_step_in_op [OF sw] op by simp
    then obtain v where v: "readi_loop h ip object_sink (rem - m) (tot + m) (off + of_nat m) ?x' w =
        Some (int (tot + m + (rem - m)), splice_at (tot + m) (file_part ?V ?x (unat off + m) (rem - m)) ?x', v)" "op_step h d 0 w v ?V"
      using less.IH [of "rem - m" w "off + of_nat m" "tot + m" ?x'] dev ok fw vw uo sp(2,3) small full less.prems(6) room by auto
    have "file_part ?V ?x (unat off) rem = ?part @ file_part ?V ?x (unat off + m) (rem - m)"
      using sp(3) file_part_add [of ?V ?x "unat off" m "rem - m"] by simp
    then have "splice_at (tot + m) (file_part ?V ?x (unat off + m) (rem - m)) ?x' = splice_at tot (file_part ?V ?x (unat off) rem) x"
      using splice_twice [of tot ?part "file_part ?V ?x (unat off + m) (rem - m)" x] less.prems(6) sp(3) by simp
    moreover have "op_step h d 0 s v ?V" using op_step_trans [OF sw v(2)] by simp
    moreover have "readi_loop h ip object_sink rem tot off x s = readi_loop h ip object_sink (rem - m) (tot + m) (off + of_nat m) ?x' w"
      using t(1) u(1,2) w(1) part room False dev op_step_kfs(2) [OF t(2)]
      by (subst readi_loop.simps) (simp add: m_def [symmetric] Let_def object_sink_def)
    ultimately show ?thesis using v(1) sp(3) by auto
  qed
qed

lemma readi_spec:
  fixes s :: "'a kfs_scheme" and x :: bytes
  assumes "in_op h d 1 s" "idev (itab s ip) = d" "file_ok (log_blocks s) (sb s) (view d s) (itab s ip)"
    and "no_holes (view d s) (itab s ip)" "unat n \<le> length x"
  shows "\<exists>t. readi h ip object_sink off n x s =
      (let size = unat (isize (itab s ip));
           m = (if size < unat off \<or> 2 ^ 32 \<le> unat off + unat n then 0 else min (unat n) (size - unat off))
       in Some (int m, splice_at 0 (file_part (view d s) (itab s ip) (unat off) m) x, t)) \<and>
    op_step h d 0 s t (view d s)"
proof -
  let ?x = "itab s ip" and ?V = "view d s"
  let ?size = "isize ?x"
  have op: "in_op h d (Suc 0) s" using assms(1) by simp
  have refl: "op_step h d 0 s s ?V" using op by (intro op_step_refl) (simp add: in_op_def)
  have wrap: "off + n < off \<longleftrightarrow> 2 ^ 32 \<le> unat off + unat n"
    using unat_bound [of off] unat_bound [of n] by (auto simp: word_less_nat_alt unat_word_ariths mod_if)
  show ?thesis
  proof (cases "?size < off \<or> off + n < off")
    case True
    then have "readi h ip object_sink off n x s = Some (0, x, s)" by (simp add: readi_def)
    then show ?thesis using True refl wrap by (intro exI [of _ s]) (auto simp: Let_def splice_at_def word_less_nat_alt)
  next
    case False
    define m where "m = min (unat n) (unat ?size - unat off)"
    have sum: "unat (off + n) = unat off + unat n" using False wrap by (simp add: unat_word_ariths)
    have off: "unat off \<le> unat ?size" using False by (simp add: word_less_nat_alt)
    have m: "unat (if ?size < off + n then ?size - off else n) = m"
      using off sum by (auto simp: m_def word_less_nat_alt unat_sub word_le_nat_alt)
    have lim: "unat off + m \<le> unat ?size" using off by (simp add: m_def)
    have nh: "unat off + m \<le> MAXFILE * BSIZE" "\<forall>i. unat off \<le> i \<longrightarrow> i < unat off + m \<longrightarrow> block_of ?V ?x (i div BSIZE) \<noteq> 0"
      using assms(4) lim by (simp_all add: no_holes_def)
    have mx: "m \<le> length x" using assms(5) by (simp add: m_def)
    obtain t where t: "readi_loop h ip object_sink m 0 off x s = Some (int m, splice_at 0 (file_part ?V ?x (unat off) m) x, t)" "op_step h d 0 s t ?V"
      using readi_loop_spec [OF op assms(2,3), of off m 0 x] nh mx by auto
    have "readi h ip object_sink off n x s = Some (int m, splice_at 0 (file_part ?V ?x (unat off) m) x, t)"
      using False t(1) m by (simp add: readi_def Let_def)
    moreover have "\<not> (unat ?size < unat off \<or> 2 ^ 32 \<le> unat off + unat n)" using False wrap off by simp
    ultimately show ?thesis unfolding Let_def m_def [symmetric] using t(2) by (intro exI [of _ t]) (simp only: if_False simp_thms)
  qed
qed

text \<open>
  C3: \<open>readi\<close> into an object of the kernel reads the bytes of the file from the offset on, as many as asked for but not
  beyond the end of the file, puts them at the start of the object, returns their number, and changes no block and no inode.  It
  returns 0 when the offset is beyond the end, or when \<open>off + n\<close> does not fit into 32 bits.
\<close>

theorem readi_correct:
  fixes s :: "'a kfs_scheme" and x :: bytes
  assumes "in_op h d 1 s" "idev (itab s ip) = d" "file_ok (log_blocks s) (sb s) (view d s) (itab s ip)"
    and "no_holes (view d s) (itab s ip)" "unat n \<le> length x"
  shows "\<exists>t. readi h ip object_sink off n x s =
      (let size = unat (isize (itab s ip));
           m = (if size < unat off \<or> 2 ^ 32 \<le> unat off + unat n then 0 else min (unat n) (size - unat off))
       in Some (int m, splice_at 0 (file_part (view d s) (itab s ip) (unat off) m) x, t)) \<and>
    in_op h d 1 t \<and> view d t = view d s \<and> itab t = itab s \<and> sb t = sb s"
proof -
  have "in_op h d 1 t \<and> view d t = view d s \<and> itab t = itab s \<and> sb t = sb s" if "op_step h d 0 s t (view d s)" for t
    using op_step_in_op [OF that, of 1] op_step_view [OF that] op_step_kfs(1,2) [OF that] assms(1) by simp
  then show ?thesis using readi_spec [OF assms, of off] by blast
qed

text \<open>A file of one block in the example file system.\<close>

definition example_read_fs :: kfs where
  "example_read_fs = upd_inode 3 (\<lambda>x. x\<lparr>isize := 700, iaddrs := (\<lambda>k. 0)(0 := 40)\<rparr>) example_file_fs"

lemma example_read_ok:
  "file_ok (log_blocks example_read_fs) (sb example_read_fs) (view 1 example_read_fs) (itab example_read_fs 3)"
  "no_holes (view 1 example_read_fs) (itab example_read_fs 3)"
proof -
  let ?x = "itab example_read_fs 3"
  have f: "log_blocks example_read_fs = log_area 2 30" "sb example_read_fs = example_sb" "view 1 example_read_fs = view 1 example_fs"
    "inum ?x = 21" "isize ?x = 700" "iaddrs ?x = (\<lambda>k. 0)(0 := 40)"
    by (simp_all add: example_read_fs_def example_file_fields upd_inode_tx)
  have n: "IBLOCK 21 example_sb = 33" by (simp add: IBLOCK_def example_sb_def IPB_def BSIZE_def sizeof_dinode_def NDIRECT_def)
  have lay: "layout_ok (log_area 2 30) example_sb 21 (view 1 example_fs)"
    using file_okD(1) [OF example_file_ok] by (simp add: example_file_fields)
  have b: "block_of V ?x bn = (if bn = 0 then 40 else 0)" for V bn by (simp add: block_of_def f NDIRECT_def)
  have "(40 :: uint) \<notin> bitmap_blocks example_sb"
  proof -
    have "unat (sbsize example_sb) = 1000" by (simp add: example_sb_def)
    then have "BBLOCK (of_nat k) example_sb = 45" if "k < unat (sbsize example_sb)" for k using example_BBLOCK that by simp
    then show ?thesis by (auto simp: bitmap_blocks_def)
  qed
  then have "data_block (log_area 2 30) example_sb 21 (view 1 example_fs) 40"
    using example_used [of 40] example_home [of 40] by (simp add: data_block_def n) (simp add: example_sb_def)
  then show "file_ok (log_blocks example_read_fs) (sb example_read_fs) (view 1 example_read_fs) ?x"
    using lay unfolding f file_ok_def b by (simp add: f NDIRECT_def inj_on_def)
  show "no_holes (view 1 example_read_fs) ?x"
    by (simp add: no_holes_def b f MAXFILE_def NDIRECT_def NINDIRECT_def BSIZE_def)
qed

theorem readi_correct_witness:
  "\<exists>t. readi 0 3 object_sink 690 64 (replicate 64 7) example_read_fs = Some (10, replicate 10 0 @ replicate 54 7, t)"
proof -
  let ?s = example_read_fs
  have op: "in_op 0 1 1 ?s" using example_file_in_op [of 1] by (simp add: example_read_fs_def in_op_def upd_inode_tx)
  have dev: "idev (itab ?s 3) = 1" and sz: "isize (itab ?s 3) = 700"
    by (simp_all add: example_read_fs_def example_file_fields)
  have "block_of V (itab ?s 3) bn = (if bn = 0 then 40 else 0)" for V bn
    by (simp add: block_of_def example_read_fs_def example_file_fields NDIRECT_def)
  then have z: "file_byte (view 1 ?s) (itab ?s 3) i = 0" if "i < 1024" for i
    using that by (simp add: file_byte_def Let_def example_read_fs_def upd_inode_tx example_file_fields example_fs_tx(2) BSIZE_def)
  have part: "file_part (view 1 ?s) (itab ?s 3) 690 10 = replicate 10 0"
    using z by (intro replicate_eqI) auto
  obtain t where "readi 0 3 object_sink 690 64 (replicate 64 7) ?s =
      (let size = unat (isize (itab ?s 3));
           m = (if size < unat (690 :: uint) \<or> 2 ^ 32 \<le> unat (690 :: uint) + unat (64 :: uint) then 0 else min (unat (64 :: uint)) (size - unat (690 :: uint)))
       in Some (int m, splice_at 0 (file_part (view 1 ?s) (itab ?s 3) (unat (690 :: uint)) m) (replicate 64 7), t))"
    using readi_correct [OF op dev example_read_ok, of 64 "replicate 64 7" 690] by auto
  then have "readi 0 3 object_sink 690 64 (replicate 64 7) ?s = Some (10, splice_at 0 (file_part (view 1 ?s) (itab ?s 3) 690 10) (replicate 64 7), t)"
    by (simp add: sz)
  then show ?thesis unfolding part by (simp add: splice_at_def)
qed

end
