(* ===== verification/Numbers.thy ===== *)
theory Numbers
  imports Console
begin

text \<open>
  The numbers that \<open>printint\<close> and \<open>printptr\<close> of \<^verbatim>\<open>kernel/printf.c\<close> print: read back as a numeral, the text is the number.
\<close>

section \<open>Numerals\<close>

definition digit_value :: "uchar \<Rightarrow> nat" where
  "digit_value c = (if 97 \<le> c then unat c - 87 else unat c - 48)"

text \<open>The value of a numeral, first digit first, and of one with a sign.\<close>

definition numeral_value :: "nat \<Rightarrow> bytes \<Rightarrow> nat" where
  "numeral_value base ds = foldl (\<lambda>a c. a * base + digit_value c) 0 ds"

definition signed_value :: "nat \<Rightarrow> bytes \<Rightarrow> int" where
  "signed_value base ds = (if hd ds = 45 then - int (numeral_value base (tl ds)) else int (numeral_value base ds))"

lemma numeral_value_snoc: "numeral_value base (ds @ [c]) = numeral_value base ds * base + digit_value c"
  by (simp add: numeral_value_def)

lemma digits_eq: "digits = [48, 49, 50, 51, 52, 53, 54, 55, 56, 57, 97, 98, 99, 100, 101, 102]"
  by (simp add: digits_def)

lemma below_16: "(\<forall>n < 16. P n) \<longleftrightarrow> P 0 \<and> P 1 \<and> P 2 \<and> P 3 \<and> P 4 \<and> P 5 \<and> P 6 \<and> P 7 \<and> P 8 \<and> P 9 \<and> P 10 \<and> P 11 \<and> P 12 \<and>
    P 13 \<and> P 14 \<and> P (15::nat)"
  by (simp add: numeral_eq_Suc All_less_Suc conj_ac)

lemma digit: "n < 16 \<Longrightarrow> digit_value (digits ! n) = n \<and> digits ! n \<noteq> 45 \<and> (digits ! n = 48 \<longrightarrow> n = 0)"
proof -
  have "\<forall>n < 16. digit_value (digits ! n) = n \<and> digits ! n \<noteq> 45 \<and> (digits ! n = 48 \<longrightarrow> n = 0)"
    unfolding below_16 digits_eq by (simp add: digit_value_def)
  then show "n < 16 \<Longrightarrow> ?thesis" by blast
qed

section \<open>printint\<close>

text \<open>The text of a number: its value, no leading zero, no sign among the digits.\<close>

lemma printint_digits_spec:
  assumes "2 \<le> base" "base \<le> 16"
  shows "numeral_value (unat base) (rev (printint_digits base x)) = unat x \<and> 45 \<notin> set (printint_digits base x) \<and>
    printint_digits base x \<noteq> [] \<and> (last (printint_digits base x) = 48 \<longrightarrow> x = 0)"
  using assms
proof (induction base x rule: printint_digits.induct)
  case (1 base x)
  have b: "\<not> base < 2" "unat base \<le> 16" "0 < unat base"
    using 1(2,3) by (auto simp: word_le_nat_alt word_less_nat_alt)
  have m: "unat (x mod base) < 16" using b mod_less_divisor [OF b(3), of "unat x"] by (simp add: unat_mod)
  have eq: "unat x div unat base * unat base + unat (x mod base) = unat x" by (simp add: unat_mod)
  show ?case
  proof (cases "x div base = 0")
    case True
    then have "unat (x div base) = 0" by simp
    then have x: "unat (x mod base) = unat x" using eq by (simp add: unat_div)
    have r: "printint_digits base x = [digits ! unat (x mod base)]" using b(1) True by (subst printint_digits.simps) simp
    show ?thesis unfolding r x using digit [OF m] unfolding x by (auto simp: numeral_value_def unat_eq_zero)
  next
    case False
    have ih: "numeral_value (unat base) (rev (printint_digits base (x div base))) = unat (x div base) \<and>
      45 \<notin> set (printint_digits base (x div base)) \<and> printint_digits base (x div base) \<noteq> [] \<and>
      (last (printint_digits base (x div base)) = 48 \<longrightarrow> x div base = 0)"
      using 1(1) [OF b(1) False] 1(2,3) by blast
    have r: "printint_digits base x = digits ! unat (x mod base) # printint_digits base (x div base)"
      using b(1) False by (subst printint_digits.simps) simp
    show ?thesis unfolding r using ih False digit [OF m] eq by (simp add: numeral_value_snoc unat_div)
  qed
qed

lemma printint_digits_length:
  assumes "2 \<le> base"
  shows "unat x < unat base ^ Suc k \<Longrightarrow> length (printint_digits base x) \<le> Suc k"
proof (induction k arbitrary: x)
  case 0
  then have "x div base = 0" by (simp add: unat_eq_zero [symmetric] unat_div del: unat_eq_zero)
  then show ?case by (subst printint_digits.simps) simp
next
  case (Suc k)
  have "0 < unat base" using assms by (auto simp: word_le_nat_alt)
  then have "unat (x div base) < unat base ^ Suc k"
    using Suc.prems by (simp add: unat_div less_mult_imp_div_less mult.commute)
  then show ?case using Suc.IH by (subst printint_digits.simps) simp
qed

text \<open>
  C38: in every base from 10 to 16 and for every \<open>int\<close>, the smallest one included, \<open>printint\<close> stays inside its buffer
  of 16 bytes, and the text that it sends, read as a signed numeral, is the number; it has no leading zero unless it is \<open>0\<close>.
\<close>

theorem printint_correct:
  assumes "10 \<le> base" "base \<le> 16" "- (2 ^ 31) \<le> xx" "xx < 2 ^ 31"
  shows "\<exists>out. printint xx base True = Some out \<and> length out \<le> 11 \<and> signed_value (unat base) out = xx \<and>
    (hd (if xx < 0 then tl out else out) = 48 \<longrightarrow> xx = 0)"
proof -
  define x :: uint where "x = (if xx < 0 then word_of_int (- xx) else word_of_int xx)"
  have x': "uint x = (if xx < 0 then - xx else xx)"
    using assms(3,4) by (simp add: x_def unsigned_of_int take_bit_int_eq_self del: of_int_minus)
  have x: "unat x = nat (if xx < 0 then - xx else xx)" by (simp add: unat_eq_nat_uint x')
  have base: "2 \<le> base" using assms(1) by (rule order_trans [rotated]) simp
  have "10 \<le> unat base" using assms(1) by (simp add: word_le_nat_alt)
  then have "(10::nat) ^ 10 \<le> unat base ^ 10" by (rule power_mono) simp
  moreover have "unat x < 10 ^ 10" using x assms(3,4) by (simp split: if_splits)
  ultimately have len: "length (printint_digits base x) \<le> 10"
    using printint_digits_length [OF base, of x 9] by simp
  note d = printint_digits_spec [OF base assms(2), of x]
  have buf: "(if True \<and> xx < 0 then word_of_int (- xx) else word_of_int xx) = x" by (simp only: x_def simp_thms)
  have out: "printint xx base True = Some (rev (printint_digits base x @ (if xx < 0 then [45] else [])))"
    unfolding printint_def Let_def buf using len by auto
  have "x = 0 \<longleftrightarrow> xx = 0" using x' uint_eq_iff_word [of x 0] by (auto split: if_splits)
  moreover have "hd (rev (printint_digits base x)) \<noteq> 45" using d by (metis hd_in_set rev_is_Nil_conv set_rev)
  ultimately show ?thesis unfolding out using d len x by (auto simp: signed_value_def hd_rev)
qed

theorem printint_correct_witness:
  "\<exists>out. printint (- (2 ^ 31)) 10 True = Some out \<and> length out \<le> 11 \<and> signed_value (unat (10::uint)) out = - (2 ^ 31)"
proof -
  have "(10::uint) \<le> 10" "(10::uint) \<le> 16" "- (2 ^ 31) \<le> (- (2 ^ 31) :: int)" "- (2 ^ 31) < (2 ^ 31 :: int)" by simp_all
  from printint_correct [OF this] show ?thesis by (elim exE conjE) (intro exI conjI)
qed

end
