(* ===== verification/ULib.thy ===== *)
theory ULib
  imports Numbers
begin

text \<open>
  The C library of user programs: \<^verbatim>\<open>user/ulib.c\<close> and \<^verbatim>\<open>user/printf.c\<close>.  As in \<open>KString\<close> the \<open>mem\<close> functions work on memory and
  the \<open>str\<close> functions on objects given by their bytes, with \<open>None\<close> for an access past the end.  Names that the kernel also has get
  the prefix \<open>u_\<close>.  What a function writes to a file descriptor is the list of bytes that it writes.
\<close>

section \<open>Strings and memory\<close>

fun strcpy :: "bytes \<Rightarrow> bytes \<Rightarrow> bytes option" where
  "strcpy (x # s) (c # t) = (if c = 0 then Some (0 # s) else map_option (Cons c) (strcpy s t))"
| "strcpy s t = None"

fun strcmp :: "bytes \<Rightarrow> bytes \<Rightarrow> int option" where
  "strcmp (a # p) (b # q) = (if a \<noteq> 0 \<and> a = b then strcmp p q else Some (uint a - uint b))"
| "strcmp p q = None"

fun u_strlen :: "bytes \<Rightarrow> nat option" where
  "u_strlen [] = None"
| "u_strlen (c # s) = (if c = 0 then Some 0 else map_option Suc (u_strlen s))"

text \<open>The result is the distance from the start; \<open>Some None\<close> is the null pointer.  The NUL itself is never found.\<close>

fun strchr :: "bytes \<Rightarrow> uchar \<Rightarrow> nat option option" where
  "strchr [] c = None"
| "strchr (a # s) c = (if a = 0 then Some None else if a = c then Some (Some 0) else map_option (map_option Suc) (strchr s c))"

fun u_memset_loop :: "uint64 \<Rightarrow> uchar \<Rightarrow> nat \<Rightarrow> nat \<Rightarrow> mem \<Rightarrow> mem" where
  "u_memset_loop dst c 0 i m = m"
| "u_memset_loop dst c (Suc k) i m = u_memset_loop dst c k (Suc i) (m(dst + of_nat i := c))"

definition u_memset :: "uint64 \<Rightarrow> uint \<Rightarrow> uint \<Rightarrow> mem \<Rightarrow> mem" where
  "u_memset dst c n m = u_memset_loop dst (ucast c) (unat n) 0 m"

fun u_memmove_up :: "nat \<Rightarrow> uint64 \<Rightarrow> uint64 \<Rightarrow> mem \<Rightarrow> mem" where
  "u_memmove_up 0 dst src m = m"
| "u_memmove_up (Suc n) dst src m = u_memmove_up n (dst + 1) (src + 1) (m(dst := m src))"

fun u_memmove_down :: "nat \<Rightarrow> uint64 \<Rightarrow> uint64 \<Rightarrow> mem \<Rightarrow> mem" where
  "u_memmove_down 0 dst src m = m"
| "u_memmove_down (Suc n) dst src m = u_memmove_down n (dst - 1) (src - 1) (m(dst - 1 := m (src - 1)))"

definition u_memmove :: "uint64 \<Rightarrow> uint64 \<Rightarrow> int \<Rightarrow> mem \<Rightarrow> mem" where
  "u_memmove dst src n m =
     (if src > dst then u_memmove_up (nat n) dst src m
      else u_memmove_down (nat n) (dst + of_int n) (src + of_int n) m)"

fun u_memcmp_loop :: "nat \<Rightarrow> uint64 \<Rightarrow> uint64 \<Rightarrow> mem \<Rightarrow> int" where
  "u_memcmp_loop 0 p1 p2 m = 0"
| "u_memcmp_loop (Suc n) p1 p2 m =
     (if m p1 \<noteq> m p2 then uint (m p1) - uint (m p2) else u_memcmp_loop n (p1 + 1) (p2 + 1) m)"

definition u_memcmp :: "uint64 \<Rightarrow> uint64 \<Rightarrow> uint \<Rightarrow> mem \<Rightarrow> int" where
  "u_memcmp s1 s2 n m = u_memcmp_loop (unat n) s1 s2 m"

definition u_memcpy :: "uint64 \<Rightarrow> uint64 \<Rightarrow> uint \<Rightarrow> mem \<Rightarrow> mem" where
  "u_memcpy dst src n m = u_memmove dst src (sint n) m"

text \<open>\<open>atoi\<close>: the accumulator wraps around at 32 bits; its type in C is \<open>int\<close>.\<close>

fun atoi_loop :: "uint \<Rightarrow> bytes \<Rightarrow> int option" where
  "atoi_loop n [] = None"
| "atoi_loop n (c # s) = (if 48 \<le> c \<and> c \<le> 57 then atoi_loop (n * 10 + ucast c - 48) s else Some (sint n))"

definition atoi :: "bytes \<Rightarrow> int option" where
  "atoi s = atoi_loop 0 s"

section \<open>Reading\<close>

text \<open>
  The system call \<open>read\<close> of a program is a parameter: from a state and the number of bytes wanted to the result, the bytes, and the
  next state.
\<close>

type_synonym 's read = "'s \<Rightarrow> nat \<Rightarrow> int \<times> bytes \<times> 's"

text \<open>The loop of \<open>gets\<close> with \<open>k\<close> bytes of room for characters; the final NUL is then in the buffer.\<close>

definition put_at :: "nat \<Rightarrow> 'a \<Rightarrow> 'a list \<Rightarrow> 'a list option" where
  "put_at i c xs = (if i < length xs then Some (xs[i := c]) else None)"

fun gets_loop :: "'s read \<Rightarrow> nat \<Rightarrow> nat \<Rightarrow> bytes \<Rightarrow> 's \<Rightarrow> (bytes \<times> 's) option" where
  "gets_loop rd 0 i buf s = map_option (\<lambda>buf. (buf, s)) (put_at i 0 buf)"
| "gets_loop rd (Suc k) i buf s =
     (let (cc, bs, s) = rd s 1
      in if cc < 1 then map_option (\<lambda>buf. (buf, s)) (put_at i 0 buf)
         else Option.bind (put_at i (hd bs) buf) (\<lambda>buf.
           if hd bs = 10 \<or> hd bs = 13 then map_option (\<lambda>buf. (buf, s)) (put_at (Suc i) 0 buf)
           else gets_loop rd k (Suc i) buf s))"

definition gets :: "'s read \<Rightarrow> bytes \<Rightarrow> int \<Rightarrow> 's \<Rightarrow> (bytes \<times> 's) option" where
  "gets rd buf mx s = gets_loop rd (nat (mx - 1)) 0 buf s"

section \<open>Formatted output\<close>

definition u_digits :: bytes where
  "u_digits = map (\<lambda>c. of_char c) ''0123456789ABCDEF''"

function u_printint_digits :: "uint \<Rightarrow> uint \<Rightarrow> bytes" where
  "u_printint_digits base x =
     (if base < 2 then []
      else u_digits ! unat (x mod base) # (if x div base \<noteq> 0 then u_printint_digits base (x div base) else []))"
  by pat_completeness auto
termination
proof (relation "measure (\<lambda>(base, x). unat x)", simp)
  fix base x :: uint
  assume "\<not> base < 2" "x div base \<noteq> 0"
  then have "2 \<le> unat base" "x \<noteq> 0" by (auto simp: word_less_nat_alt)
  then have "2 \<le> unat base" "unat x \<noteq> 0" by (simp_all add: unat_eq_zero)
  then have "unat x div unat base < unat x" by (intro div_less_dividend) auto
  then show "((base, x div base), (base, x)) \<in> measure (\<lambda>(base, x). unat x)" by (simp add: unat_div)
qed

declare u_printint_digits.simps [simp del]

text \<open>The buffer has 16 bytes.\<close>

definition u_printint :: "int \<Rightarrow> uint \<Rightarrow> bool \<Rightarrow> bytes option" where
  "u_printint xx base sign =
     (let neg = (sign \<and> xx < 0);
          x = (if neg then word_of_int (- xx) else word_of_int xx) :: uint;
          buf = u_printint_digits base x @ (if neg then [45] else [])
      in if length buf \<le> 16 then Some (rev buf) else None)"

fun u_printptr_digits :: "nat \<Rightarrow> uint64 \<Rightarrow> bytes" where
  "u_printptr_digits 0 x = []"
| "u_printptr_digits (Suc k) x = u_digits ! unat (drop_bit 60 x) # u_printptr_digits k (push_bit 4 x)"

definition u_printptr :: "uint64 \<Rightarrow> bytes" where
  "u_printptr x = [48, 120] @ u_printptr_digits 16 x"

text \<open>
  The conversion \<open>c\<close> of \<open>vprintf\<close>: its output and the arguments that are left.  \<^verbatim>\<open>%l\<close> passes a 64-bit argument to \<open>printint\<close>, which takes an
  \<open>int\<close>.  An argument of another type, or a string that is not terminated, is undefined behaviour.
\<close>

fun vprintf_conv :: "uchar \<Rightarrow> parg list \<Rightarrow> (bytes \<times> parg list) option" where
  "vprintf_conv c args =
     (if c = 100 then (case args of IntArg i # args \<Rightarrow> map_option (\<lambda>out. (out, args)) (u_printint i 10 True) | _ \<Rightarrow> None)
      else if c = 108 then (case args of PtrArg x # args \<Rightarrow> map_option (\<lambda>out. (out, args)) (u_printint (sint (ucast x :: uint)) 10 False) | _ \<Rightarrow> None)
      else if c = 120 then (case args of IntArg i # args \<Rightarrow> map_option (\<lambda>out. (out, args)) (u_printint i 16 False) | _ \<Rightarrow> None)
      else if c = 112 then (case args of PtrArg x # args \<Rightarrow> Some (u_printptr x, args) | _ \<Rightarrow> None)
      else if c = 115 then (case args of
          StrArg None # args \<Rightarrow> Some (map of_char ''(null)'', args)
        | StrArg (Some str) # args \<Rightarrow> if 0 \<in> set str then Some (takeWhile (\<lambda>c. c \<noteq> 0) str, args) else None
        | _ \<Rightarrow> None)
      else if c = 99 then (case args of IntArg i # args \<Rightarrow> Some ([word_of_int i], args) | _ \<Rightarrow> None)
      else if c = 37 then Some ([c], args)
      else Some ([37, c], args))"

text \<open>The loop over the format, with the variable \<open>state\<close>: is the character after a percent sign?\<close>

fun vprintf_loop :: "bool \<Rightarrow> bytes \<Rightarrow> parg list \<Rightarrow> bytes option" where
  "vprintf_loop state [] args = None"
| "vprintf_loop state (c # fmt) args =
     (if c = 0 then Some []
      else if \<not> state
      then if c = 37 then vprintf_loop True fmt args else map_option (Cons c) (vprintf_loop False fmt args)
      else Option.bind (vprintf_conv c args) (\<lambda>(out, args). map_option (append out) (vprintf_loop False fmt args)))"

definition vprintf :: "bytes \<Rightarrow> parg list \<Rightarrow> bytes option" where
  "vprintf fmt args = vprintf_loop False fmt args"

section \<open>Correctness\<close>

lemma u_strlen_eq: "u_strlen s = (if 0 \<in> set s then Some (length (cstr s)) else None)"
  by (induction s) auto

lemma strcmp_eq:
  "0 \<in> set p \<Longrightarrow> 0 \<in> set q \<Longrightarrow> \<exists>r. strcmp p q = Some r \<and> (r = 0 \<longleftrightarrow> cstr p = cstr q)"
  by (induction p q rule: strcmp.induct) (auto simp: uint_eq_iff_word)

lemma strcpy_eq:
  "0 \<in> set t \<Longrightarrow> length (cstr t) < length s \<Longrightarrow> strcpy s t = Some (cstr t @ 0 # drop (Suc (length (cstr t))) s)"
  by (induction s t rule: strcpy.induct) auto

lemma strchr_eq:
  assumes "0 \<in> set s" "c \<noteq> 0"
  shows "strchr s c = Some (if c \<in> set (cstr s) then Some (length (takeWhile (\<lambda>a. a \<noteq> c) s)) else None)"
  using assms by (induction s) auto

text \<open>In base 10 the digits are those that the kernel prints.\<close>

lemma u_digits_eq: "u_digits = [48, 49, 50, 51, 52, 53, 54, 55, 56, 57, 65, 66, 67, 68, 69, 70]"
  by (simp add: u_digits_def)

lemma decimal_digit:
  assumes "n < 10"
  shows "u_digits ! n = digits ! n" "digits ! n = of_nat n + 48"
proof -
  have "\<forall>n < 10. u_digits ! n = digits ! n \<and> digits ! n = of_nat n + 48"
    unfolding digits_eq u_digits_eq by (simp add: numeral_eq_Suc All_less_Suc)
  then show "u_digits ! n = digits ! n" "digits ! n = of_nat n + 48" using assms by auto
qed

lemma u_printint_decimal:
  "u_printint_digits 10 x = printint_digits 10 x \<and> (\<forall>c\<in>set (printint_digits 10 x). 48 \<le> c \<and> c \<le> 57)"
proof (induction "10 :: uint" x rule: printint_digits.induct)
  case (1 x)
  have m: "unat (x mod 10) < 10" by (simp add: unat_mod)
  have "48 \<le> digits ! unat (x mod 10) \<and> digits ! unat (x mod 10) \<le> 57"
    using decimal_digit(2) [OF m] m by (simp add: word_le_nat_alt unat_word_ariths unsigned_of_nat take_bit_nat_eq_self)
  then show ?case
    using 1 decimal_digit(1) [OF m] by (subst u_printint_digits.simps, subst (1 2) printint_digits.simps) auto
qed

lemma atoi_loop_digits:
  assumes "\<forall>c\<in>set ds. 48 \<le> c \<and> c \<le> 57"
  shows "atoi_loop (of_nat a) (ds @ 0 # r) = Some (sint (of_nat (foldl (\<lambda>a c. a * 10 + digit_value c) a ds) :: uint))"
  using assms
proof (induction ds arbitrary: a)
  case (Cons c ds)
  then have c: "48 \<le> c" "c \<le> 57" by simp_all
  then have "digit_value c = unat c - 48" by (auto simp: digit_value_def word_le_nat_alt)
  then have "(of_nat (a * 10 + digit_value c) :: uint) = of_nat a * 10 + ucast c - 48"
    using c(1) by (simp add: of_nat_diff word_le_nat_alt)
  then show ?case using Cons.IH [of "a * 10 + digit_value c"] Cons.prems by (simp add: diff_add_eq add_diff_eq)
qed simp

text \<open>
  C39: reading back what \<open>printf("%d")\<close> printed gives the number, for every \<open>int\<close> that is not negative; the text may be
  followed by anything after its NUL.
\<close>

theorem atoi_printint:
  assumes "0 \<le> n" "n < 2 ^ 31"
  shows "\<exists>out. vprintf [37, 100, 0] [IntArg n] = Some out \<and> atoi (out @ 0 # r) = Some n"
proof -
  let ?x = "word_of_int n :: uint" and ?ds = "printint_digits 10 (word_of_int n)"
  have x: "unat ?x = nat n" using assms by (simp add: unat_eq_nat_uint unsigned_of_int take_bit_int_eq_self)
  have len: "length ?ds \<le> 10" using printint_digits_length [of 10 ?x 9] x assms by simp
  have out: "vprintf [37, 100, 0] [IntArg n] = Some (rev ?ds)"
    using assms len u_printint_decimal [of ?x] by (simp add: vprintf_def u_printint_def)
  have val: "foldl (\<lambda>a c. a * 10 + digit_value c) 0 (rev ?ds) = nat n"
    using printint_digits_spec [of 10 ?x] x by (simp add: numeral_value_def)
  have "atoi (rev ?ds @ 0 # r) = Some (sint (of_nat (nat n) :: uint))"
    using atoi_loop_digits [of "rev ?ds" 0 r] u_printint_decimal [of ?x] val by (simp add: atoi_def)
  also have "sint (of_nat (nat n) :: uint) = n"
    using assms by (simp add: signed_of_int signed_take_bit_int_eq_self)
  finally show ?thesis using out by blast
qed

theorem atoi_printint_witness:
  "\<exists>out. vprintf [37, 100, 0] [IntArg 2147483647] = Some out \<and> atoi (out @ 0 # [1, 2]) = Some 2147483647"
  by (rule atoi_printint) simp_all

end
