(* ===== verification/TextTools.thy ===== *)
theory TextTools
  imports ULib
begin

text \<open>
  The user programs that read text: \<^verbatim>\<open>user/wc.c\<close>, \<^verbatim>\<open>user/cat.c\<close> and \<^verbatim>\<open>user/echo.c\<close>.  Reading is an interface, the locale \<open>reader\<close>: a
  file gives its bytes in pieces, as large as it likes.  Output is the list of file descriptors and bytes written.  Opening a file is a
  parameter \<open>opn\<close>, which gives the state of a reader.
\<close>

type_synonym outputs = "(nat \<times> bytes) list"

text \<open>A format that ends in a newline.\<close>

definition line :: "string \<Rightarrow> bytes" where
  "line str = cstring (str @ [CHR 0x0A])"

section \<open>The programs\<close>

text \<open>\<open>wc\<close>: the loop over a buffer, with the counters of lines, words and characters, and \<open>inword\<close>.\<close>

definition wc_space :: "uchar \<Rightarrow> bool" where
  "wc_space c \<longleftrightarrow> strchr [32, 13, 9, 10, 11, 0] c \<noteq> Some None"

fun wc_buf :: "bytes \<Rightarrow> int \<times> int \<times> int \<times> bool \<Rightarrow> int \<times> int \<times> int \<times> bool" where
  "wc_buf [] st = st"
| "wc_buf (b # bs) (l, w, c, inword) =
     wc_buf bs (let c = c + 1;
                    l = (if b = 10 then l + 1 else l)
                in if wc_space b then (l, w, c, False)
                   else if \<not> inword then (l, w + 1, c, True)
                   else (l, w, c, inword))"

partial_function (option) wc_loop ::
  "'s read \<Rightarrow> int \<times> int \<times> int \<times> bool \<Rightarrow> 's \<Rightarrow> (int \<times> (int \<times> int \<times> int \<times> bool) \<times> 's) option" where
  "wc_loop rd st s =
     (let (n, bs, s) = rd s 512
      in if n > 0 then wc_loop rd (wc_buf (take (nat n) bs) st) s else Some (n, st, s))"

text \<open>The outputs, and the exit status if the program ends here.\<close>

definition wc :: "'s read \<Rightarrow> bytes \<Rightarrow> 's \<Rightarrow> (outputs \<times> int option) option" where
  "wc rd name s = do {
     (n, (l, w, c, _), s) \<leftarrow> wc_loop rd (0, 0, 0, False) s;
     (if n < 0 then do { out \<leftarrow> vprintf (line ''wc: read error'') []; Some ([(1, out)], Some 1) }
      else do {
        out \<leftarrow> vprintf (line ''%d %d %d %s'') [IntArg l, IntArg w, IntArg c, StrArg (Some name)];
        Some ([(1, out)], None)
      })
   }"

fun wc_files :: "'s read \<Rightarrow> (bytes \<Rightarrow> 's option) \<Rightarrow> bytes list \<Rightarrow> (outputs \<times> int) option" where
  "wc_files rd opn [] = Some ([], 0)"
| "wc_files rd opn (a # args) =
     (case opn a of
        None \<Rightarrow> do { out \<leftarrow> vprintf (line ''wc: cannot open %s'') [StrArg (Some a)]; Some ([(1, out)], 1) }
      | Some s \<Rightarrow> do {
          (out, ex) \<leftarrow> wc rd a s;
          (case ex of
             Some r \<Rightarrow> Some (out, r)
           | None \<Rightarrow> do { (out', r) \<leftarrow> wc_files rd opn args; Some (out @ out', r) })
        })"

text \<open>\<open>main\<close>: the arguments after the name of the program, and the standard input.\<close>

definition wc_main :: "'s read \<Rightarrow> (bytes \<Rightarrow> 's option) \<Rightarrow> 's \<Rightarrow> bytes list \<Rightarrow> (outputs \<times> int) option" where
  "wc_main rd opn stdin args =
     (if args = [] then do { (out, ex) \<leftarrow> wc rd [0] stdin; Some (out, case ex of Some r \<Rightarrow> r | None \<Rightarrow> 0) }
      else wc_files rd opn args)"

text \<open>\<open>cat\<close>: \<open>wr\<close> gives the result of each \<open>write\<close>.\<close>

partial_function (option) cat_loop ::
  "'s read \<Rightarrow> (bytes \<Rightarrow> int) \<Rightarrow> outputs \<Rightarrow> 's \<Rightarrow> (outputs \<times> int option) option" where
  "cat_loop rd wr out s =
     (let (n, bs, s) = rd s 512
      in if n > 0
         then let bs = take (nat n) bs; out = out @ [(1, bs)]
           in if wr bs \<noteq> n then Some (out @ [(2, map of_char (''cat: write error'' @ [CHR 0x0A]))], Some 1)
              else cat_loop rd wr out s
         else if n < 0 then Some (out @ [(2, map of_char (''cat: read error'' @ [CHR 0x0A]))], Some 1)
         else Some (out, None))"

definition cat :: "'s read \<Rightarrow> (bytes \<Rightarrow> int) \<Rightarrow> 's \<Rightarrow> (outputs \<times> int option) option" where
  "cat rd wr s = cat_loop rd wr [] s"

fun cat_files :: "'s read \<Rightarrow> (bytes \<Rightarrow> int) \<Rightarrow> (bytes \<Rightarrow> 's option) \<Rightarrow> bytes list \<Rightarrow> (outputs \<times> int) option" where
  "cat_files rd wr opn [] = Some ([], 0)"
| "cat_files rd wr opn (a # args) =
     (case opn a of
        None \<Rightarrow> do { out \<leftarrow> vprintf (line ''cat: cannot open %s'') [StrArg (Some a)]; Some ([(2, out)], 1) }
      | Some s \<Rightarrow> do {
          (out, ex) \<leftarrow> cat rd wr s;
          (case ex of
             Some r \<Rightarrow> Some (out, r)
           | None \<Rightarrow> do { (out', r) \<leftarrow> cat_files rd wr opn args; Some (out @ out', r) })
        })"

definition cat_main :: "'s read \<Rightarrow> (bytes \<Rightarrow> int) \<Rightarrow> (bytes \<Rightarrow> 's option) \<Rightarrow> 's \<Rightarrow> bytes list \<Rightarrow> (outputs \<times> int) option" where
  "cat_main rd wr opn stdin args =
     (if args = [] then do { (out, ex) \<leftarrow> cat rd wr stdin; Some (out, case ex of Some r \<Rightarrow> r | None \<Rightarrow> 0) }
      else cat_files rd wr opn args)"

text \<open>\<open>echo\<close>, on the arguments after the name of the program.\<close>

fun echo_main :: "bytes list \<Rightarrow> outputs option" where
  "echo_main [] = Some []"
| "echo_main (a # args) = do {
     n \<leftarrow> u_strlen a;
     out \<leftarrow> echo_main args;
     Some ([(1, take n a), (1, if args \<noteq> [] then [32] else [10])] @ out)
   }"

section \<open>Readers\<close>

text \<open>
  The contract of \<open>read\<close> on a file that stays readable: it returns some of the bytes that are left, at most as many as asked for, and
  none only at the end.
\<close>

locale reader =
  fixes rd :: "'s read" and ok :: "'s \<Rightarrow> bool" and left :: "'s \<Rightarrow> bytes"
  assumes read_some: "ok s \<Longrightarrow> n < 2 ^ 31 \<Longrightarrow> \<exists>bs t. rd s n = (int (length bs), bs, t) \<and> ok t \<and> length bs \<le> n \<and>
    left s = bs @ left t \<and> (0 < n \<longrightarrow> left s \<noteq> [] \<longrightarrow> bs \<noteq> [])"
begin

lemma read_pos:
  assumes "ok s" "n < 2 ^ 31" "0 < n"
  obtains (last) t where "rd s n = (0, [], t)" "left s = []"
    | (more) bs t where "rd s n = (int (length bs), bs, t)" "bs \<noteq> []" "ok t" "left s = bs @ left t"
        "length (left t) < length (left s)" "length bs \<le> n"
proof -
  from read_some [OF assms(1,2)] obtain bs t where t: "rd s n = (int (length bs), bs, t)" "ok t" "length bs \<le> n" "left s = bs @ left t"
    "0 < n \<longrightarrow> left s \<noteq> [] \<longrightarrow> bs \<noteq> []" by (elim exE conjE)
  have e: "left s \<noteq> [] \<longrightarrow> bs \<noteq> []" using t(5) assms(3) by (rule mp)
  show thesis
  proof (cases "bs = []")
    case True
    then show thesis using t(1) e by (intro last [of t]) simp_all
  next
    case False
    then have "length (left t) < length (left s)" unfolding t(4) by simp
    then show thesis using more [OF t(1) False t(2,4)] t(3) by blast
  qed
qed

lemma read_size: "(512 :: nat) < 2 ^ 31" "0 < (512 :: nat)" by simp_all

lemmas read_512 = read_pos [OF _ read_size, consumes 1, case_names last more]

lemma wc_loop_eq:
  assumes "ok s"
  shows "\<exists>t. wc_loop rd st s = Some (0, wc_buf (left s) st, t)"
  using assms
proof (induction "length (left s)" arbitrary: s st rule: less_induct)
  case less
  from less.prems show ?case
  proof (cases rule: read_512)
    case (last t)
    then show ?thesis by (subst wc_loop.simps) simp
  next
    case (more bs t)
    have app: "wc_buf (bs @ ys) st = wc_buf ys (wc_buf bs st)" for ys by (induction bs st rule: wc_buf.induct) auto
    from less.hyps [OF more(5,3), of "wc_buf bs st"] obtain u where "wc_loop rd (wc_buf bs st) t = Some (0, wc_buf (left t) (wc_buf bs st), u)" ..
    then have "wc_loop rd st s = Some (0, wc_buf (left s) st, u)"
      using more(1,2) unfolding more(4) app by (subst wc_loop.simps) simp
    then show ?thesis ..
  qed
qed

lemma cat_loop_eq:
  assumes "ok s" "\<And>bs. wr bs = int (length bs)"
  shows "\<exists>ps. cat_loop rd wr out s = Some (out @ map (Pair 1) ps, None) \<and> concat ps = left s"
  using assms(1)
proof (induction "length (left s)" arbitrary: s out rule: less_induct)
  case less
  from less.prems show ?case
  proof (cases rule: read_512)
    case (last t)
    then have "cat_loop rd wr out s = Some (out, None)" by (subst cat_loop.simps) simp
    then show ?thesis using last(2) by (intro exI [of _ "[]"]) simp
  next
    case (more bs t)
    from less.hyps [OF more(5,3), of "out @ [(1, bs)]"] obtain ps where ps: "cat_loop rd wr (out @ [(1, bs)]) t = Some ((out @ [(1, bs)]) @ map (Pair 1) ps, None)"
      "concat ps = left t" by blast
    have "cat_loop rd wr out s = cat_loop rd wr (out @ [(1, bs)]) t" using more(1,2) assms(2) by (subst cat_loop.simps) (simp add: Let_def)
    then show ?thesis using ps more(4) by (intro exI [of _ "bs # ps"]) simp
  qed
qed

end

section \<open>What wc counts\<close>

text \<open>A word starts at a character that is no white space, at the beginning or after white space.\<close>

definition word_starts :: "bytes \<Rightarrow> nat set" where
  "word_starts bs = {i. i < length bs \<and> \<not> wc_space (bs ! i) \<and> (i = 0 \<or> wc_space (bs ! (i - 1)))}"

lemma wc_space_eq: "wc_space c \<longleftrightarrow> c \<in> {32, 13, 9, 10, 11}"
  by (simp add: wc_space_def)

lemma word_starts_snoc:
  "word_starts (bs @ [b]) = word_starts bs \<union> (if \<not> wc_space b \<and> (bs = [] \<or> wc_space (last bs)) then {length bs} else {})"
  by (cases bs rule: rev_cases) (auto simp: word_starts_def nth_append less_Suc_eq split: if_splits)

lemma wc_buf_snoc: "wc_buf (bs @ [b]) st = wc_buf [b] (wc_buf bs st)"
  by (induction bs st rule: wc_buf.induct) auto

lemma wc_buf_eq:
  "wc_buf bs (0, 0, 0, False) =
    (int (count_list bs 10), int (card (word_starts bs)), int (length bs), bs \<noteq> [] \<and> \<not> wc_space (last bs))"
proof (induction bs rule: rev_induct)
  case (snoc b bs)
  have "finite (word_starts bs)" "length bs \<notin> word_starts bs" by (auto simp: word_starts_def)
  then have "card (word_starts (bs @ [b])) = card (word_starts bs) + (if \<not> wc_space b \<and> (bs = [] \<or> wc_space (last bs)) then 1 else 0)"
    unfolding word_starts_snoc by simp
  then show ?case unfolding wc_buf_snoc snoc by (auto simp: Let_def)
qed (simp add: word_starts_def)

end
