(* ===== verification/Grep.thy ===== *)
theory Grep
  imports TextTools
begin

text \<open>
  \<^verbatim>\<open>user/grep.c\<close>: the matcher for patterns with \<open>^\<close>, \<open>$\<close>, \<open>.\<close> and \<open>*\<close>, and the loop over the lines of a file.
\<close>

section \<open>The program\<close>

text \<open>\<open>matchhere\<close> and \<open>matchstar\<close>, on objects that hold a pattern and a text.\<close>

function matchhere :: "bytes \<Rightarrow> bytes \<Rightarrow> bool option" and matchstar :: "uchar \<Rightarrow> bytes \<Rightarrow> bytes \<Rightarrow> bool option" where
  "matchhere re text =
     (case re of
        [] \<Rightarrow> None
      | r0 # re1 \<Rightarrow>
          if r0 = 0 then Some True
          else case re1 of
            [] \<Rightarrow> None
          | r1 # re2 \<Rightarrow>
              if r1 = 42 then matchstar r0 re2 text
              else case text of
                [] \<Rightarrow> None
              | t # ts \<Rightarrow>
                  if r0 = 36 \<and> r1 = 0 then Some (t = 0)
                  else if t \<noteq> 0 \<and> (r0 = 46 \<or> r0 = t) then matchhere re1 ts
                  else Some False)"
| "matchstar c re text =
     Option.bind (matchhere re text) (\<lambda>b.
       if b then Some True
       else case text of
         [] \<Rightarrow> None
       | t # ts \<Rightarrow> if t \<noteq> 0 \<and> (t = c \<or> c = 46) then matchstar c re ts else Some False)"
  by pat_completeness auto
termination
  by (relation "inv_image (less_than <*lex*> less_than)
      (case_sum (\<lambda>(re, text). (2 * length re, length text)) (\<lambda>(c, re, text). (2 * length re + 1, length text)))") auto

declare matchhere.simps [simp del] matchstar.simps [simp del]

text \<open>The loop of \<open>match\<close>.\<close>

fun match_loop :: "bytes \<Rightarrow> bytes \<Rightarrow> bool option" where
  "match_loop re text =
     Option.bind (matchhere re text) (\<lambda>b.
       if b then Some True
       else case text of [] \<Rightarrow> None | t # ts \<Rightarrow> if t \<noteq> 0 then match_loop re ts else Some False)"

declare match_loop.simps [simp del]

definition match :: "bytes \<Rightarrow> bytes \<Rightarrow> bool option" where
  "match re text =
     (case re of [] \<Rightarrow> None | r0 # re1 \<Rightarrow> if r0 = 94 then matchhere re1 text else match_loop re text)"

text \<open>The inner loop of \<open>grep\<close>, from \<open>p\<close> on: the output, the buffer and the final \<open>p\<close>.\<close>

lemma strchr_less: "strchr s c = Some (Some k) \<Longrightarrow> k < length s"
  by (induction s arbitrary: k) (auto split: if_splits)

function grep_lines :: "bytes \<Rightarrow> bytes \<Rightarrow> nat \<Rightarrow> (outputs \<times> bytes \<times> nat) option" where
  "grep_lines pattern buf p =
     (case strchr (drop p buf) 10 of
        None \<Rightarrow> None
      | Some None \<Rightarrow> Some ([], buf, p)
      | Some (Some k) \<Rightarrow>
          Option.bind (match pattern (drop p (buf[p + k := 0]))) (\<lambda>b.
            Option.bind (grep_lines pattern (if b then buf[p + k := 10] else buf[p + k := 0]) (p + k + 1)) (\<lambda>(out, buf', p').
              Some ((if b then [(1, slice p (k + 1) (buf[p + k := 10]))] else []) @ out, buf', p'))))"
  by pat_completeness auto
termination
  by (relation "measure (\<lambda>(pattern, buf, p). length buf - p)") (auto dest!: strchr_less)

declare grep_lines.simps [simp del]

partial_function (option) grep_loop ::
  "'s read \<Rightarrow> bytes \<Rightarrow> bytes \<Rightarrow> nat \<Rightarrow> outputs \<Rightarrow> 's \<Rightarrow> (outputs \<times> bytes) option" where
  "grep_loop rd pattern buf m out s =
     (let (n, bs, s) = rd s (1024 - m - 1)
      in if n > 0
         then let buf = splice_at m (take (nat n) bs) buf;
                  m = m + nat n;
                  buf = buf[m := 0]
           in Option.bind (grep_lines pattern buf 0) (\<lambda>(out', buf, p).
                if m > 0
                then grep_loop rd pattern (splice_at 0 (slice p (m - p) buf) buf) (m - p) (out @ out') s
                else grep_loop rd pattern buf m (out @ out') s)
         else Some (out, buf))"

definition grep :: "'s read \<Rightarrow> bytes \<Rightarrow> bytes \<Rightarrow> 's \<Rightarrow> (outputs \<times> bytes) option" where
  "grep rd pattern buf s = grep_loop rd pattern buf 0 [] s"

text \<open>\<open>main\<close>, on the arguments after the name; the buffer is a global variable.\<close>

fun grep_files :: "'s read \<Rightarrow> (bytes \<Rightarrow> 's option) \<Rightarrow> bytes \<Rightarrow> bytes \<Rightarrow> bytes list \<Rightarrow> (outputs \<times> int) option" where
  "grep_files rd opn pattern buf [] = Some ([], 0)"
| "grep_files rd opn pattern buf (a # args) =
     (case opn a of
        None \<Rightarrow> do { out \<leftarrow> vprintf (line ''grep: cannot open %s'') [StrArg (Some a)]; Some ([(1, out)], 1) }
      | Some s \<Rightarrow> do {
          (out, buf) \<leftarrow> grep rd pattern buf s;
          (out', r) \<leftarrow> grep_files rd opn pattern buf args;
          Some (out @ out', r)
        })"

definition grep_main :: "'s read \<Rightarrow> (bytes \<Rightarrow> 's option) \<Rightarrow> bytes \<Rightarrow> 's \<Rightarrow> bytes list \<Rightarrow> (outputs \<times> int) option" where
  "grep_main rd opn buf stdin args =
     (case args of
        [] \<Rightarrow> do { out \<leftarrow> vprintf (line ''usage: grep pattern [file ...]'') []; Some ([(2, out)], 1) }
      | pattern # files \<Rightarrow>
          if files = [] then map_option (\<lambda>(out, buf). (out, 0)) (grep rd pattern buf stdin)
          else grep_files rd opn pattern buf files)"

section \<open>What a pattern means\<close>

datatype item = Char uchar | Dot | Star uchar

definition single :: "uchar \<Rightarrow> item" where
  "single c = (if c = 46 then Dot else Char c)"

fun items :: "bytes \<Rightarrow> item list" where
  "items [] = []"
| "items [c] = (if c = 36 then [] else [single c])"
| "items (c # d # re) = (if d = 42 then Star c # items re else single c # items (d # re))"

text \<open>Does the pattern end in \<open>$\<close>, as an operator?\<close>

fun dollar :: "bytes \<Rightarrow> bool" where
  "dollar [] = False"
| "dollar [c] = (c = 36)"
| "dollar (c # d # re) = (if d = 42 then dollar re else dollar (d # re))"

fun item_lang :: "item \<Rightarrow> bytes set" where
  "item_lang (Char c) = {[c]}"
| "item_lang Dot = {[c] |c. True}"
| "item_lang (Star c) = {u. \<forall>a\<in>set u. a = c \<or> c = 46}"

fun lang :: "item list \<Rightarrow> bytes set" where
  "lang [] = {[]}"
| "lang (i # is) = {u @ v |u v. u \<in> item_lang i \<and> v \<in> lang is}"

text \<open>The pattern matches at the start of the text.\<close>

definition here :: "bytes \<Rightarrow> bytes \<Rightarrow> bool" where
  "here re text \<longleftrightarrow> (\<exists>v w. text = v @ w \<and> v \<in> lang (items re) \<and> (dollar re \<longrightarrow> w = []))"

lemma here_split:
  assumes "items re = i # is" "items re' = is" "dollar re = dollar re'"
  shows "here re text \<longleftrightarrow> (\<exists>u v. text = u @ v \<and> u \<in> item_lang i \<and> here re' v)"
proof
  assume "here re text"
  then obtain u v w where "text = u @ (v @ w)" "u \<in> item_lang i" "v \<in> lang is" "dollar re \<longrightarrow> w = []"
    unfolding here_def assms(1) lang.simps mem_Collect_eq by (metis append_assoc)
  then show "\<exists>u v. text = u @ v \<and> u \<in> item_lang i \<and> here re' v"
    unfolding here_def assms(2) assms(3) by blast
next
  assume "\<exists>u v. text = u @ v \<and> u \<in> item_lang i \<and> here re' v"
  then obtain u v w where a: "text = u @ (v @ w)" "u \<in> item_lang i" "v \<in> lang is" "dollar re \<longrightarrow> w = []"
    unfolding here_def assms(2) assms(3) by blast
  have "u @ v \<in> lang (items re)" unfolding assms(1) lang.simps using a(2,3) by blast
  then show "here re text" unfolding here_def using a(1,4) by (metis append_assoc)
qed

lemma here_star:
  "here (c # 42 # re) text \<longleftrightarrow> here re text \<or> (\<exists>t ts. text = t # ts \<and> (t = c \<or> c = 46) \<and> here (c # 42 # re) ts)"
proof -
  have eq: "here (c # 42 # re) x \<longleftrightarrow> (\<exists>u v. x = u @ v \<and> u \<in> item_lang (Star c) \<and> here re v)" for x
    by (rule here_split) simp_all
  have cons: "t # u \<in> item_lang (Star c) \<longleftrightarrow> (t = c \<or> c = 46) \<and> u \<in> item_lang (Star c)" for t u by auto
  have nil: "[] \<in> item_lang (Star c)" by simp
  show ?thesis (is "?l \<longleftrightarrow> ?r")
  proof
    assume ?l
    then obtain u v where a: "text = u @ v" "u \<in> item_lang (Star c)" "here re v" unfolding eq by blast
    show ?r
    proof (cases u)
      case Nil
      then show ?thesis using a by simp
    next
      case (Cons t u')
      then have "here (c # 42 # re) (u' @ v)" using a cons unfolding eq by blast
      then show ?thesis using a(1,2) Cons cons by (metis append_Cons)
    qed
  next
    assume ?r
    then show ?l
    proof
      assume "here re text"
      then show ?l unfolding eq using nil by (metis append_Nil)
    next
      assume "\<exists>t ts. text = t # ts \<and> (t = c \<or> c = 46) \<and> here (c # 42 # re) ts"
      then show ?l unfolding eq using cons by (metis append_Cons)
    qed
  qed
qed

lemma here_single:
  assumes "items (c # re) = single c # items re" "dollar (c # re) = dollar re"
  shows "here (c # re) text \<longleftrightarrow> (\<exists>t ts. text = t # ts \<and> (c = 46 \<or> c = t) \<and> here re ts)"
proof -
  have "here (c # re) text \<longleftrightarrow> (\<exists>u v. text = u @ v \<and> u \<in> item_lang (single c) \<and> here re v)"
    by (rule here_split [OF assms(1) refl assms(2)])
  moreover have "u \<in> item_lang (single c) \<longleftrightarrow> (\<exists>t. u = [t] \<and> (c = 46 \<or> c = t))" for u
    by (auto simp: single_def)
  ultimately show ?thesis by (metis append_Cons append_Nil)
qed

lemma here_nil [simp]: "here [] text" by (auto simp: here_def)

lemma here_dollar [simp]: "here [36] text \<longleftrightarrow> text = []" by (auto simp: here_def)

lemma matchstar_eq:
  assumes "\<And>text. 0 \<notin> set text \<Longrightarrow> matchhere re' (text @ 0 # q) = Some (here re text)"
  shows "0 \<notin> set text \<Longrightarrow> matchstar c re' (text @ 0 # q) = Some (here (c # 42 # re) text)"
proof (induction "text")
  case Nil
  have "matchstar c re' ([] @ 0 # q) = Some (here re [])"
    by (subst matchstar.simps) (use assms [of "[]"] in simp)
  then show ?case by (subst here_star) simp
next
  case (Cons t ts)
  then have "matchstar c re' ((t # ts) @ 0 # q) = Some (here re (t # ts) \<or> (t = c \<or> c = 46) \<and> here (c # 42 # re) ts)"
    by (subst matchstar.simps) (use assms [of "t # ts"] in auto)
  then show ?case by (subst here_star) simp
qed

lemma matchhere_eq:
  "0 \<notin> set re \<Longrightarrow> 0 \<notin> set text \<Longrightarrow> matchhere (re @ 0 # r) (text @ 0 # q) = Some (here re text)"
proof (induction re arbitrary: "text" rule: items.induct)
  case 1
  then show ?case by (simp add: matchhere.simps)
next
  case (2 c)
  have nil: "matchhere (0 # r) x = Some True" for x by (simp add: matchhere.simps)
  show ?case
  proof (cases "c = 36")
    case True
    then show ?thesis using 2 by (subst matchhere.simps) (cases "text"; simp)
  next
    case False
    then have "here [c] text \<longleftrightarrow> (\<exists>t ts. text = t # ts \<and> (c = 46 \<or> c = t))"
      using here_single [of c "[]" "text"] by simp
    then show ?thesis using 2 False nil by (subst matchhere.simps) (cases "text"; auto)
  qed
next
  case (3 c d re)
  show ?case
  proof (cases "d = 42")
    case True
    then have "matchstar c (re @ 0 # r) (text @ 0 # q) = Some (here (c # 42 # re) text)"
      using 3 by (intro matchstar_eq) auto
    then show ?thesis using 3 True by (subst matchhere.simps) simp
  next
    case False
    then have "here (c # d # re) text \<longleftrightarrow> (\<exists>t ts. text = t # ts \<and> (c = 46 \<or> c = t) \<and> here (d # re) ts)"
      using here_single [of c "d # re" "text"] by simp
    then show ?thesis using 3 False by (subst matchhere.simps) (cases "text"; auto)
  qed
qed

text \<open>A text matches when one of its parts is in the language of the pattern, at its start for \<open>^\<close> and at its end for \<open>$\<close>.\<close>

definition matches :: "bytes \<Rightarrow> bytes \<Rightarrow> bool" where
  "matches re text =
     (let caret = (re \<noteq> [] \<and> hd re = 94); re' = (if caret then tl re else re)
      in \<exists>u v w. text = u @ v @ w \<and> v \<in> lang (items re') \<and> (caret \<longrightarrow> u = []) \<and> (dollar re' \<longrightarrow> w = []))"

lemma match_loop_eq:
  assumes "0 \<notin> set re"
  shows "0 \<notin> set text \<Longrightarrow> match_loop (re @ 0 # r) (text @ 0 # q) = Some (\<exists>u v. text = u @ v \<and> here re v)"
proof (induction "text")
  case Nil
  show ?case by (subst match_loop.simps) (simp add: matchhere_eq [OF assms, of "[]", simplified])
next
  case (Cons t ts)
  have "(\<exists>u v. t # ts = u @ v \<and> here re v) \<longleftrightarrow> here re (t # ts) \<or> (\<exists>u v. ts = u @ v \<and> here re v)"
    by (auto simp: Cons_eq_append_conv)
  then show ?case using Cons matchhere_eq [OF assms, of "t # ts"] by (subst match_loop.simps) auto
qed

lemma match_eq:
  assumes "0 \<notin> set re" "0 \<notin> set text"
  shows "match (re @ 0 # r) (text @ 0 # q) = Some (matches re text)"
proof (cases "re \<noteq> [] \<and> hd re = 94")
  case True
  then obtain re' where re: "re = 94 # re'" by (cases re) auto
  have "matches re text = here re' text" by (simp add: re matches_def here_def)
  then show ?thesis using matchhere_eq [of re' "text" r q] assms re by (simp add: match_def)
next
  case False
  have "matches re text = (\<exists>u v. text = u @ v \<and> here re v)"
    unfolding matches_def here_def using False by (simp only: Let_def if_False) blast
  moreover have "match (re @ 0 # r) (text @ 0 # q) = match_loop (re @ 0 # r) (text @ 0 # q)"
    using False by (cases re) (simp_all add: match_def)
  ultimately show ?thesis using match_loop_eq [OF assms] by simp
qed

section \<open>The lines of a file\<close>

text \<open>The lines that end in a newline, without it, and the rest.\<close>

fun split_lines :: "bytes \<Rightarrow> bytes list \<times> bytes" where
  "split_lines [] = ([], [])"
| "split_lines (b # bs) =
     (case split_lines bs of
        (ls, r) \<Rightarrow> if b = 10 then ([] # ls, r) else case ls of [] \<Rightarrow> ([], b # r) | l # ls' \<Rightarrow> ((b # l) # ls', r))"

lemma split_lines_rest: "10 \<notin> set xs \<Longrightarrow> split_lines xs = ([], xs)"
  by (induction xs) auto

lemma split_lines_line: "10 \<notin> set l \<Longrightarrow> split_lines (l @ 10 # xs) = (l # fst (split_lines xs), snd (split_lines xs))"
  by (induction l) (auto split: prod.splits)

lemma split_lines_snd: "10 \<notin> set (snd (split_lines xs))"
  by (induction xs) (auto split: prod.splits list.splits)

lemma split_lines_append:
  "split_lines (xs @ ys) =
    (fst (split_lines xs) @ fst (split_lines (snd (split_lines xs) @ ys)), snd (split_lines (snd (split_lines xs) @ ys)))"
proof (induction "length xs" arbitrary: xs rule: less_induct)
  case less
  show ?case
  proof (cases "10 \<in> set xs")
    case False
    then show ?thesis by (simp add: split_lines_rest)
  next
    case True
    then obtain l xs' where xs: "xs = l @ 10 # xs'" "10 \<notin> set l" using split_list_first by metis
    then show ?thesis using less.hyps [of xs'] by (simp add: split_lines_line)
  qed
qed

lemma strchr_first: "0 \<notin> set l \<Longrightarrow> c \<notin> set l \<Longrightarrow> c \<noteq> 0 \<Longrightarrow> strchr (l @ c # ys) c = Some (Some (length l))"
  by (induction l) auto

text \<open>The output for the lines of a text: those that match, with their newlines.\<close>

definition matching :: "bytes \<Rightarrow> bytes \<Rightarrow> bytes list" where
  "matching re xs = map (\<lambda>l. l @ [10]) (filter (matches re) (fst (split_lines xs)))"

lemma grep_lines_eq:
  assumes "0 \<notin> set xs" "0 \<notin> set re"
  shows "\<exists>pre'. grep_lines (re @ 0 # r) (pre @ xs @ 0 # post) (length pre) =
      Some (map (Pair 1) (matching re xs), pre' @ snd (split_lines xs) @ 0 # post, length pre') \<and>
    length pre' + length (snd (split_lines xs)) = length pre + length xs"
  using assms(1)
proof (induction "length xs" arbitrary: xs pre rule: less_induct)
  case less
  have c: "cstr (xs @ 0 # post) = xs" using less.prems by (subst takeWhile_append2) auto
  show ?case
  proof (cases "10 \<in> set xs")
    case False
    then have "strchr (xs @ 0 # post) 10 = Some None" by (subst strchr_eq) (auto simp: c)
    then show ?thesis using False by (intro exI [of _ pre]) (simp add: grep_lines.simps split_lines_rest matching_def)
  next
    case True
    then obtain l xs' where xs: "xs = l @ 10 # xs'" "10 \<notin> set l" using split_list_first by metis
    have chr: "strchr (xs @ 0 # post) 10 = Some (Some (length l))"
      using xs less.prems by (simp add: strchr_first)
    have m: "match (re @ 0 # r) (l @ 0 # xs' @ 0 # post) = Some (matches re l)"
      using less.prems assms(2) by (intro match_eq) (auto simp: xs(1))
    define b where "b = (if matches re l then 10 else (0 :: uchar))"
    obtain pre' where ih: "grep_lines (re @ 0 # r) ((pre @ l @ [b]) @ xs' @ 0 # post) (length (pre @ l @ [b])) =
        Some (map (Pair 1) (matching re xs'), pre' @ snd (split_lines xs') @ 0 # post, length pre')"
      "length pre' + length (snd (split_lines xs')) = length (pre @ l @ [b]) + length xs'"
      using less.hyps [of xs' "pre @ l @ [b]"] less.prems by (auto simp: xs(1))
    have out: "matching re xs = (if matches re l then [l @ [10]] else []) @ matching re xs'"
      by (simp add: matching_def xs split_lines_line)
    have sl: "slice (length pre) (length l + 1) (pre @ l @ 10 # y) = l @ [10]" for y by (simp add: slice_def)
    have "grep_lines (re @ 0 # r) (pre @ xs @ 0 # post) (length pre) =
        Some (map (Pair 1) (matching re xs), pre' @ snd (split_lines xs) @ 0 # post, length pre')"
      using chr m ih(1) sl unfolding out
      by (subst grep_lines.simps) (simp add: xs split_lines_line list_update_append b_def split: if_splits)
    then show ?thesis using ih(2) by (intro exI [of _ pre']) (simp add: xs split_lines_line)
  qed
qed

text \<open>Every line fits in the buffer, with its newline or with the byte that ends the text.\<close>

definition lines_fit :: "bytes \<Rightarrow> bool" where
  "lines_fit xs \<longleftrightarrow> (\<forall>l \<in> set (snd (split_lines xs) # fst (split_lines xs)). length l < 1023)"

lemma lines_fit_prefix:
  assumes "lines_fit (xs @ ys)" "10 \<notin> set xs"
  shows "length xs < 1023"
proof (cases "10 \<in> set ys")
  case False
  then show ?thesis using assms by (simp add: lines_fit_def split_lines_rest)
next
  case True
  then obtain l ys' where ys: "ys = l @ 10 # ys'" "10 \<notin> set l" using split_list_first by metis
  then have "split_lines (xs @ ys) = ((xs @ l) # fst (split_lines ys'), snd (split_lines ys'))"
    using split_lines_line [of "xs @ l" ys'] assms(2) by simp
  then show ?thesis using assms by (simp add: lines_fit_def)
qed

lemma lines_fit_rest: "lines_fit (xs @ ys) \<Longrightarrow> lines_fit (snd (split_lines xs) @ ys)"
  using split_lines_append [of xs ys] by (auto simp: lines_fit_def)

lemma matching_append: "matching re (xs @ ys) = matching re xs @ matching re (snd (split_lines xs) @ ys)"
  unfolding matching_def by (subst split_lines_append) simp

lemma split_lines_subset: "set (snd (split_lines xs)) \<subseteq> set xs"
  by (induction xs) (auto split: prod.splits list.splits)

lemma grep_fill:
  assumes "take m buf = xs" "length xs = m" "m + length bs < length buf"
  shows "(splice_at m bs buf)[m + length bs := 0] = (xs @ bs) @ 0 # drop (Suc (m + length bs)) buf"
proof -
  have "splice_at m bs buf = (xs @ bs) @ drop (m + length bs) buf" by (simp add: splice_at_def assms)
  moreover have "drop (m + length bs) buf = buf ! (m + length bs) # drop (Suc (m + length bs)) buf"
    using assms(3) by (simp add: Cons_nth_drop_Suc)
  ultimately show ?thesis using assms(2) by (simp add: list_update_append)
qed

context reader
begin

lemma grep_loop_eq:
  assumes "0 \<notin> set re"
  assumes "ok s" "0 \<notin> set (left s)" "length buf = 1024" "take m buf = xs" "length xs = m" "0 \<notin> set xs" "10 \<notin> set xs"
    "lines_fit (xs @ left s)"
  shows "\<exists>buf'. grep_loop rd (re @ 0 # r) buf m out s = Some (out @ map (Pair 1) (matching re (xs @ left s)), buf')"
  using assms(2-)
proof (induction "length (left s)" arbitrary: s buf m xs out rule: less_induct)
  case less
  have m: "m < 1023" using lines_fit_prefix [OF less.prems(8,7)] less.prems(5) by simp
  have n: "1024 - m - 1 < 2 ^ 31" "0 < 1024 - m - 1" using m by simp_all
  from less.prems(1) n show ?case
  proof (cases rule: read_pos)
    case (last t)
    have "matching re xs = []" using less.prems(7) by (simp add: matching_def split_lines_rest)
    then show ?thesis using last by (subst grep_loop.simps) simp
  next
    case (more bs t)
    define rest where "rest = snd (split_lines (xs @ bs))"
    have len: "m + length bs < length buf" using more(6) m less.prems(3) by simp
    have z: "0 \<notin> set (xs @ bs)" using less.prems(2,6) more(4) by auto
    obtain pre' where g: "grep_lines (re @ 0 # r) ([] @ (xs @ bs) @ 0 # drop (Suc (m + length bs)) buf) (length []) =
        Some (map (Pair 1) (matching re (xs @ bs)), pre' @ rest @ 0 # drop (Suc (m + length bs)) buf, length pre')"
      "length pre' + length rest = m + length bs"
      using grep_lines_eq [OF z assms(1), of r "[]" "drop (Suc (m + length bs)) buf"] less.prems(5) by (auto simp: rest_def)
    define buf1 where "buf1 = pre' @ rest @ 0 # drop (Suc (m + length bs)) buf"
    have sl: "slice (length pre') (m + length bs - length pre') buf1 = rest" using g(2) by (simp add: buf1_def slice_def)
    have diff: "m + length bs - length pre' = length rest" using g(2) by simp
    have buf1: "length buf1 = 1024" using g(2) len less.prems(3) by (simp add: buf1_def)
    have step: "grep_loop rd (re @ 0 # r) buf m out s =
        grep_loop rd (re @ 0 # r) (splice_at 0 rest buf1) (length rest) (out @ map (Pair 1) (matching re (xs @ bs))) t"
      using more(1,2) g(1) [folded buf1_def] grep_fill [OF less.prems(4,5) len] sl diff
      by (subst grep_loop.simps) (simp add: Let_def)
    have left: "xs @ left s = (xs @ bs) @ left t" by (simp add: more(4))
    have "\<exists>buf'. grep_loop rd (re @ 0 # r) (splice_at 0 rest buf1) (length rest) (out @ map (Pair 1) (matching re (xs @ bs))) t =
        Some ((out @ map (Pair 1) (matching re (xs @ bs))) @ map (Pair 1) (matching re (rest @ left t)), buf')"
    proof (rule less.hyps [OF more(5,3)])
      show "0 \<notin> set (left t)" using less.prems(2) more(4) by simp
      show "length (splice_at 0 rest buf1) = 1024" using buf1 g(2) len less.prems(3) by simp
      show "0 \<notin> set rest" using z split_lines_subset unfolding rest_def by blast
      show "lines_fit (rest @ left t)" using lines_fit_rest [of "xs @ bs" "left t"] less.prems(8) unfolding left rest_def by simp
      show "10 \<notin> set rest" unfolding rest_def by (rule split_lines_snd)
    qed (simp_all add: splice_at_def)
    then show ?thesis unfolding step left matching_append [of re "xs @ bs"] rest_def by simp
  qed
qed

end

section \<open>The matcher\<close>

text \<open>
  C28: the recursive matcher of \<open>grep\<close> decides the language of its patterns: it finds a match exactly when the text has a part
  that is the concatenation of texts for the items of the pattern -- one character for a literal and for \<open>.\<close>, any number of them for
  an item with \<open>*\<close> -- where the part is at the start of the text if the pattern begins with \<open>^\<close>, and at its end if the pattern ends
  with \<open>$\<close>.  It never reads beyond the NUL of the pattern or of the text.
\<close>

theorem match_correct:
  assumes "0 \<notin> set re" "0 \<notin> set str"
  shows "match (re @ 0 # r) (str @ 0 # q) = Some
    (let caret = (re \<noteq> [] \<and> hd re = 94); re' = (if caret then tl re else re)
     in \<exists>u v w. str = u @ v @ w \<and> v \<in> lang (items re') \<and> (caret \<longrightarrow> u = []) \<and> (dollar re' \<longrightarrow> w = []))"
  using match_eq [OF assms] unfolding matches_def by simp

theorem match_correct_witness:
  "\<exists>u v. [104, 97, 97, 98] = u @ v \<and> v \<in> lang (items [97, 42, 98, 36])"
proof -
  have m: "match ([97, 42, 98, 36] @ 0 # []) ([104, 97, 97, 98] @ 0 # []) = Some True" by code_simp
  have d: "dollar [97, 42, 98, 36]" by simp
  show ?thesis
    using match_correct [of "[97, 42, 98, 36]" "[104, 97, 97, 98]" "[]" "[]"] d unfolding m by (auto simp: Let_def simp del: items.simps dollar.simps lang.simps)
qed

end
