(* ===== verification/FileReader.thy ===== *)
theory FileReader
  imports FsRead Grep
begin

text \<open>
  The files of the kernel as readers: \<open>readi\<close> at the offset of an open file, as \<open>fileread\<close> uses it, meets the contract that the text
  programs rely on.  With it, what \<open>wc\<close> and \<open>grep\<close> print is stated over the blocks of the disk.
\<close>

section \<open>Inodes are readers\<close>

text \<open>The state is that of the kernel and the offset.\<close>

definition inode_read :: "nat \<Rightarrow> nat \<Rightarrow> ('a kfs_scheme \<times> uint) read" where
  "inode_read h ip = (\<lambda>(s, off) n.
     case readi h ip object_sink off (of_nat n) (replicate n 0) s of
       None \<Rightarrow> (-1, [], (s, off))
     | Some (r, x, s) \<Rightarrow> (r, take (nat r) x, (s, if 0 < r then off + of_int r else off)))"

definition inode_ok :: "nat \<Rightarrow> uint \<Rightarrow> nat \<Rightarrow> 'a kfs_scheme \<times> uint \<Rightarrow> bool" where
  "inode_ok h d ip = (\<lambda>(s, off).
     in_op h d 1 s \<and> idev (itab s ip) = d \<and> file_ok (log_blocks s) (sb s) (view d s) (itab s ip) \<and>
     no_holes (view d s) (itab s ip) \<and> off \<le> isize (itab s ip))"

definition inode_left :: "uint \<Rightarrow> nat \<Rightarrow> 'a kfs_scheme \<times> uint \<Rightarrow> bytes" where
  "inode_left d ip = (\<lambda>(s, off). file_part (view d s) (itab s ip) (unat off) (unat (isize (itab s ip)) - unat off))"

text \<open>The bytes of a file.\<close>

abbreviation file_bytes :: "(uint \<Rightarrow> bytes) \<Rightarrow> inode \<Rightarrow> bytes" where
  "file_bytes V x \<equiv> map (file_byte V x) [0..<unat (isize x)]"

interpretation inode_file: reader "inode_read h ip" "inode_ok h d ip" "inode_left d ip" for h d ip
proof
  fix s :: "'a kfs_scheme \<times> uint" and n :: nat
  assume ok: "inode_ok h d ip s" and n: "n < 2 ^ 31"
  obtain k off where s: "s = (k, off)" by (cases s)
  let ?V = "view d k" and ?x = "itab k ip"
  define size where "size = unat (isize ?x)"
  define m where "m = min n (size - unat off)"
  have o: "in_op h d 1 k" "idev ?x = d" "file_ok (log_blocks k) (sb k) ?V ?x" "no_holes ?V ?x" "unat off \<le> size"
    using ok by (simp_all add: inode_ok_def s size_def word_le_nat_alt)
  have un: "unat (of_nat n :: uint) = n" using n by (simp add: unat_of_nat)
  have small: "size \<le> MAXFILE * BSIZE" using o(4) by (simp add: no_holes_def size_def)
  have fits: "unat off + n < 2 ^ 32" using small o(5) n by (simp add: MAXFILE_def NDIRECT_def NINDIRECT_def BSIZE_def)
  obtain t where t: "readi h ip object_sink off (of_nat n) (replicate n 0) k = Some (int m, splice_at 0 (file_part ?V ?x (unat off) m) (replicate n 0), t)"
    "op_step h d 0 k t ?V"
    using readi_spec [OF o(1-4), of "of_nat n" "replicate n 0" off] o(5) fits unfolding un size_def [symmetric] m_def by (auto simp: Let_def)
  have same: "view d t = ?V" "itab t = itab k" "sb t = sb k" "log_blocks t = log_blocks k" "in_op h d 1 t"
    using op_step_view [OF t(2)] op_step_kfs [OF t(2)] op_step_in_op [OF t(2), of 1] o(1) by simp_all
  let ?part = "file_part ?V ?x (unat off) m"
  define off' where "off' = (if 0 < m then off + of_nat m else off)"
  have off': "unat off' = unat off + m"
    using fits by (auto simp: off'_def m_def intro!: unat_add_small)
  have "off' \<le> isize ?x" using o(5) by (simp add: word_le_nat_alt off' m_def size_def [symmetric])
  then have okt: "inode_ok h d ip (t, off')" using o same by (simp add: inode_ok_def)
  have "size - unat off = m + (size - (unat off + m))" using o(5) by (simp add: m_def)
  then have "inode_left d ip s = ?part @ inode_left d ip (t, off')"
    using file_part_add [of ?V ?x "unat off" m "size - (unat off + m)"] by (simp add: inode_left_def s same off' size_def [symmetric])
  moreover have "inode_read h ip s n = (int (length ?part), ?part, (t, off'))"
    using t(1) by (simp add: inode_read_def s off'_def splice_at_def m_def)
  moreover have "?part \<noteq> []" if "0 < n" "inode_left d ip s \<noteq> []"
    using that by (auto simp: inode_left_def s size_def [symmetric] m_def)
  moreover have "length ?part \<le> n" by (simp add: m_def)
  ultimately show "\<exists>bs t. inode_read h ip s n = (int (length bs), bs, t) \<and> inode_ok h d ip t \<and> length bs \<le> n \<and>
    inode_left d ip s = bs @ inode_left d ip t \<and> (0 < n \<longrightarrow> inode_left d ip s \<noteq> [] \<longrightarrow> bs \<noteq> [])"
    using okt by blast
qed

lemma inode_left_all: "inode_left d ip (s, 0) = file_bytes (view d s) (itab s ip)"
  by (simp add: inode_left_def)

text \<open>A file that was written in one piece has the bytes that were written.\<close>

lemma written_file:
  fixes s :: "'a kfs_scheme"
  assumes "in_op h d (6 * spans 0 (length data) + 2) s" "idev (itab s ip) = d" "file_ok (log_blocks s) (sb s) (view d s) (itab s ip)"
    and "isize (itab s ip) = 0" "length data \<le> MAXFILE * BSIZE" "2 * spans 0 (length data) \<le> card (free_blocks (sb s) (view d s))"
  obtains t where "writei h ip (object_source data) 0 (of_nat (length data)) s = Some (int (length data), t)" "inode_ok h d ip (t, 0)"
    "file_bytes (view d t) (itab t ip) = data"
proof -
  let ?n = "of_nat (length data) :: uint" and ?x = "itab s ip" and ?V = "view d s"
  have un: "unat ?n = length data" using assms(5) by (simp add: unat_of_nat MAXFILE_def NDIRECT_def NINDIRECT_def BSIZE_def)
  have all: "slice 0 (length data) data = data" by (simp add: slice_def)
  obtain t U y where t: "writei h ip (object_source data) 0 ?n s = Some (int (length data), t)" "in_op h d 1 t"
    "file_written (log_blocks s) (sb s) ?V ?x 0 data U y"
    "itab t = (itab s)(ip := y\<lparr>isize := max (isize ?x) ?n\<rparr>)" "sb t = sb s" "log_blocks t = log_blocks s"
    "view d t = U(IBLOCK (inum ?x) (sb s) := put_dinode (dinode_off (inum ?x)) (itab t ip) (U (IBLOCK (inum ?x) (sb s))))"
    using kernel_object.writei_spec [where s = s and h = h and d = d and off = 0 and n = ?n and k = 1 and ip = ip and data = data] assms un all by (auto simp: numeral_2_eq_2)
  have z: "itab t ip = y\<lparr>isize := ?n\<rparr>" using t(4) assms(4) by simp
  note after = file_after_iupdate [OF t(3) assms(3) refl z t(7)]
  have size: "unat (isize (itab t ip)) = length data" using z un by simp
  have "block_of (view d t) (itab t ip) (i div BSIZE) \<noteq> 0" if "i < length data" for i
    using file_writtenD(5) [OF t(3), of i] that by (simp add: after(2))
  then have nh: "no_holes (view d t) (itab t ip)" using size assms(5) by (simp add: no_holes_def)
  have dev: "idev (itab t ip) = d" using file_writtenD(2) [OF t(3)] assms(2) z by (metis inode.select_convs(1) inode.surjective inode.update_convs(9,10))
  have "file_byte (view d t) (itab t ip) i = data ! i" if "i < length data" for i
    using after(3) [of i] file_writtenD(3) [OF t(3), of i] that assms(5) by simp
  then have "file_bytes (view d t) (itab t ip) = data" using size by (intro nth_equalityI) simp_all
  moreover have "inode_ok h d ip (t, 0)" using t(2,5,6) nh dev after(1) by (simp add: inode_ok_def)
  ultimately show thesis using that t(1) by blast
qed

section \<open>wc and grep on a file\<close>

lemma u_printint_value:
  assumes "0 \<le> n" "n < 2 ^ 31"
  shows "\<exists>ds. u_printint n 10 True = Some ds \<and> numeral_value 10 ds = nat n"
proof -
  let ?x = "word_of_int n :: uint" and ?ds = "printint_digits 10 (word_of_int n)"
  have x: "unat ?x = nat n" using assms by (simp add: unat_eq_nat_uint unsigned_of_int take_bit_int_eq_self)
  have len: "length ?ds \<le> 10" using printint_digits_length [of 10 ?x 9] x assms by simp
  have "u_printint n 10 True = Some (rev ?ds)" using assms len u_printint_decimal [of ?x] by (simp add: u_printint_def)
  moreover have "numeral_value 10 (rev ?ds) = nat n" using printint_digits_spec [of 10 ?x] x by simp
  ultimately show ?thesis by blast
qed


text \<open>A file of two lines.\<close>

lemma example_text_file:
  obtains t where "writei 0 3 (object_source [104, 105, 10, 98, 121, 101, 10]) 0 7 example_file_fs = Some (7, t)" "inode_ok 0 1 3 (t, 0)"
    "file_bytes (view 1 t) (itab t 3) = [104, 105, 10, 98, 121, 101, 10]"
proof -
  have sp: "spans 0 7 = 1" by (simp add: spans_def BSIZE_def)
  have max: "7 \<le> MAXFILE * BSIZE" by (simp add: MAXFILE_def NDIRECT_def NINDIRECT_def BSIZE_def)
  have len: "length [104, 105, 10, 98, 121, 101, 10 :: uchar] = 7" by simp
  show thesis
    by (rule written_file [where data = "[104, 105, 10, 98, 121, 101, 10]" and s = example_file_fs and h = 0 and d = 1 and ip = 3, unfolded len sp])
      (use that example_file_in_op [of 8] example_file_ok example_free max in \<open>simp_all add: example_file_fields\<close>)
qed




end
