(* ===== verification/Sh.thy ===== *)
theory Sh
  imports ULib Sysfile
begin

text \<open>
  The parser of the shell, \<^verbatim>\<open>user/sh.c\<close>.  A pointer into the command line is the rest of the line from there on, so that
  \<open>s < es\<close> compares lengths.  A command is a tree over its pairs of pointers \<open>q\<close> and \<open>eq\<close>; \<open>malloc\<close> is taken to succeed.  The four functions
  that call each other get a bound on the depth of their calls.
\<close>

section \<open>Commands\<close>

definition MAXARGS :: nat where
  "MAXARGS = 10"

datatype 'w cmd =
    ExecCmd "'w list"
  | RedirCmd "'w cmd" 'w int int
  | PipeCmd "'w cmd" "'w cmd"
  | ListCmd "'w cmd" "'w cmd"
  | BackCmd "'w cmd"

type_synonym ptrs = "bytes \<times> bytes"

text \<open>
  What parsing gives: a panic with its message ends the program, as do leftovers, a rest of the line that is no part of a command; an access
  outside the line; the depth was not enough.
\<close>

datatype 'a parsed = Parsed 'a | Panic string | Leftovers bytes | Undef | Deep

fun bindp :: "'a parsed \<Rightarrow> ('a \<Rightarrow> 'b parsed) \<Rightarrow> 'b parsed" where
  "bindp (Parsed a) f = f a"
| "bindp (Panic msg) f = Panic msg"
| "bindp (Leftovers ps) f = Leftovers ps"
| "bindp Undef f = Undef"
| "bindp Deep f = Deep"

lemma bindp_Parsed: "bindp r f = Parsed b \<longleftrightarrow> (\<exists>a. r = Parsed a \<and> f a = Parsed b)"
  by (cases r) auto

lemma bindp_Deep: "bindp r f = Deep \<longleftrightarrow> r = Deep \<or> (\<exists>a. r = Parsed a \<and> f a = Deep)"
  by (cases r) auto

lemma bindp_Undef: "bindp r f = Undef \<longleftrightarrow> r = Undef \<or> (\<exists>a. r = Parsed a \<and> f a = Undef)"
  by (cases r) auto

lemma bindp_cong [fundef_cong]: "r = r' \<Longrightarrow> (\<And>a. r' = Parsed a \<Longrightarrow> f a = g a) \<Longrightarrow> bindp r f = bindp r' g"
  by (cases r') auto

definition deref :: "bytes \<Rightarrow> uchar parsed" where
  "deref p = (case p of [] \<Rightarrow> Undef | c # _ \<Rightarrow> Parsed c)"

section \<open>Tokens\<close>

definition whitespace :: bytes where
  "whitespace = [32, 9, 13, 10, 11, 0]"

definition symbols :: bytes where
  "symbols = cstring ''<|>&;()''"

definition in_str :: "bytes \<Rightarrow> uchar \<Rightarrow> bool" where
  "in_str str c = (case strchr str c of Some (Some _) \<Rightarrow> True | _ \<Rightarrow> False)"

fun skip_white :: "bytes \<Rightarrow> bytes \<Rightarrow> bytes" where
  "skip_white [] es = []"
| "skip_white (c # s) es = (if length es < length (c # s) \<and> in_str whitespace c then skip_white s es else c # s)"

fun skip_word :: "bytes \<Rightarrow> bytes \<Rightarrow> bytes" where
  "skip_word [] es = []"
| "skip_word (c # s) es =
     (if length es < length (c # s) \<and> \<not> in_str whitespace c \<and> \<not> in_str symbols c then skip_word s es else c # s)"

text \<open>The \<open>switch\<close> of \<open>gettoken\<close> at \<open>q\<close>: its result and \<open>eq\<close>.\<close>

definition token_at :: "bytes \<Rightarrow> bytes \<Rightarrow> (uchar \<times> bytes) parsed" where
  "token_at q es = bindp (deref q) (\<lambda>c.
     if c = 0 then Parsed (c, q)
     else if c \<in> {124, 40, 41, 59, 38, 60} then Parsed (c, tl q)
     else if c = 62 then bindp (deref (tl q)) (\<lambda>c'. if c' = 62 then Parsed (43, tl (tl q)) else Parsed (c, tl q))
     else Parsed (97, skip_word q es))"

text \<open>The result, \<open>q\<close>, \<open>eq\<close> and the final \<open>s\<close>.\<close>

definition gettoken :: "bytes \<Rightarrow> bytes \<Rightarrow> (uchar \<times> bytes \<times> bytes \<times> bytes) parsed" where
  "gettoken ps es =
     (let q = skip_white ps es in bindp (token_at q es) (\<lambda>(ret, eq). Parsed (ret, q, eq, skip_white eq es)))"

definition peek :: "bytes \<Rightarrow> bytes \<Rightarrow> string \<Rightarrow> (bool \<times> bytes) parsed" where
  "peek ps es toks =
     (let s = skip_white ps es in bindp (deref s) (\<lambda>c. Parsed (c \<noteq> 0 \<and> in_str (cstring toks) c, s)))"

lemma skip_white_length: "length (skip_white s es) \<le> length s"
  by (induction s) auto

lemma skip_word_length: "length (skip_word s es) \<le> length s"
  by (induction s) auto

lemma skip_white_idem: "skip_white (skip_white s es) es = skip_white s es"
  by (induction s) auto

lemma token_at_le:
  assumes "token_at q es = Parsed (ret, eq)"
  shows "length eq \<le> length q"
  using assms skip_word_length [of q es]
  by (auto simp: token_at_def bindp_Parsed deref_def split: if_splits list.splits)

lemma token_at_less:
  assumes "token_at (c # q) es = Parsed (ret, eq)" "c \<in> {124, 40, 41, 59, 38, 60, 62}"
  shows "length eq < length (c # q)"
  using assms by (auto simp: token_at_def bindp_Parsed deref_def split: if_splits list.splits)

lemma gettoken_Parsed:
  "gettoken ps es = Parsed (ret, q, eq, s) \<longleftrightarrow> q = skip_white ps es \<and> token_at q es = Parsed (ret, eq) \<and> s = skip_white eq es"
  by (auto simp: gettoken_def Let_def bindp_Parsed)

lemma gettoken_le: "gettoken ps es = Parsed (ret, q, eq, s) \<Longrightarrow> length s \<le> length ps"
  using token_at_le [of "skip_white ps es" es ret eq] skip_white_length [of ps es] skip_white_length [of eq es] unfolding gettoken_Parsed by auto

lemma peek_Parsed:
  "peek ps es toks = Parsed (b, s) \<longleftrightarrow> s = skip_white ps es \<and> (\<exists>c r. s = c # r \<and> b = (c \<noteq> 0 \<and> in_str (cstring toks) c))"
  by (auto simp: peek_def Let_def bindp_Parsed deref_def split: list.splits)

lemma in_str_Cons: "in_str (a # str) c \<longleftrightarrow> a \<noteq> 0 \<and> (a = c \<or> in_str str c)"
  by (auto simp: in_str_def split: option.splits)

lemma in_str_simps [simp]:
  "in_str (cstring ''<>'') c \<longleftrightarrow> c = 60 \<or> c = 62" "in_str (cstring ''&'') c \<longleftrightarrow> c = 38" "in_str (cstring '';'') c \<longleftrightarrow> c = 59"
  "in_str (cstring ''|'') c \<longleftrightarrow> c = 124" "in_str (cstring ''('') c \<longleftrightarrow> c = 40" "in_str (cstring '')'') c \<longleftrightarrow> c = 41"
  "in_str (cstring ''|)&;'') c \<longleftrightarrow> c \<in> {124, 41, 38, 59}" "in_str (cstring []) c \<longleftrightarrow> False"
  by (auto simp: in_str_Cons cstring_def)

lemma white_iff: "in_str whitespace c \<longleftrightarrow> c \<in> {32, 9, 13, 10, 11}"
  by (auto simp: in_str_Cons whitespace_def)

lemma symbol_iff: "in_str symbols c \<longleftrightarrow> c \<in> {124, 40, 41, 59, 38, 60, 62}"
  by (auto simp: in_str_Cons cstring_def symbols_def)

lemma white_nul: "\<not> in_str whitespace 0"
  by (simp add: white_iff)

lemma symbol_progress:
  assumes "peek ps es toks = Parsed (True, s)" "gettoken s es = Parsed (ret, q, eq, s')"
    "\<And>c. in_str (cstring toks) c \<Longrightarrow> c \<in> {124, 40, 41, 59, 38, 60, 62}"
  shows "length s' < length s" "length s \<le> length ps"
proof -
  obtain c r where s: "s = skip_white ps es" "s = c # r" "in_str (cstring toks) c" using assms(1) by (auto simp: peek_Parsed)
  have q: "q = s" "token_at s es = Parsed (ret, eq)" "s' = skip_white eq es"
    using assms(2) s(1) skip_white_idem by (auto simp: gettoken_Parsed)
  have "length eq < length s" using token_at_less [of c r es ret eq] q(2) s(2) assms(3) [OF s(3)] by simp
  then show "length s' < length s" "length s \<le> length ps" using q(3) s(1) skip_white_length by (auto intro: le_less_trans)
qed

lemma redirs_progress:
  assumes "peek ps es ''<>'' = Parsed (True, s)" "gettoken s es = Parsed (tok, q, eq, t)" "gettoken t es = Parsed (tok', q', eq', u)"
  shows "length u < length ps"
  using symbol_progress [OF assms(1,2)] gettoken_le [OF assms(3)] by auto

lemma back_progress:
  assumes "peek ps es ''&'' = Parsed (True, s)" "gettoken s es = Parsed (tok, q, eq, t)"
  shows "length t < length ps"
  using symbol_progress [OF assms] by auto

section \<open>Parsing\<close>

text \<open>The mode and the file descriptor of a redirection.\<close>

definition redir_of :: "uchar \<Rightarrow> (int \<times> int) option" where
  "redir_of tok =
     (if tok = 60 then Some (uint O_RDONLY, 0)
      else if tok = 62 then Some (uint (O_WRONLY OR O_CREATE OR O_TRUNC), 1)
      else if tok = 43 then Some (uint (O_WRONLY OR O_CREATE), 1)
      else None)"

function parseredirs :: "ptrs cmd \<Rightarrow> bytes \<Rightarrow> bytes \<Rightarrow> (ptrs cmd \<times> bytes) parsed" where
  "parseredirs cmd ps es =
     bindp (peek ps es ''<>'') (\<lambda>(b, ps).
       if b
       then bindp (gettoken ps es) (\<lambda>(tok, _, _, ps).
         bindp (gettoken ps es) (\<lambda>(tok', q, eq, ps).
           if tok' \<noteq> 97 then Panic ''missing file for redirection''
           else parseredirs (case redir_of tok of Some (mode, fd) \<Rightarrow> RedirCmd cmd (q, eq) mode fd | None \<Rightarrow> cmd) ps es))
       else Parsed (cmd, ps))"
  by pat_completeness auto
termination
  by (relation "measure (\<lambda>(cmd, ps, es). length ps)") (auto dest: redirs_progress)

declare parseredirs.simps [simp del]

text \<open>\<open>parseexec\<close> fills in the arguments of the command it made, which redirections may enclose by then.\<close>

fun set_argv :: "'w list \<Rightarrow> 'w cmd \<Rightarrow> 'w cmd" where
  "set_argv args (ExecCmd _) = ExecCmd args"
| "set_argv args (RedirCmd c w mode fd) = RedirCmd (set_argv args c) w mode fd"
| "set_argv args c = c"

text \<open>The loop of \<open>parseexec\<close>, with \<open>argc\<close> the number of arguments so far.\<close>

function parseargs :: "ptrs list \<Rightarrow> ptrs cmd \<Rightarrow> bytes \<Rightarrow> bytes \<Rightarrow> (ptrs cmd \<times> bytes) parsed" where
  "parseargs args ret ps es =
     bindp (peek ps es ''|)&;'') (\<lambda>(b, ps).
       if b then Parsed (set_argv args ret, ps)
       else bindp (gettoken ps es) (\<lambda>(tok, q, eq, ps).
         if tok = 0 then Parsed (set_argv args ret, ps)
         else if tok \<noteq> 97 then Panic ''syntax''
         else if MAXARGS \<le> length args + 1 then Panic ''too many args''
         else bindp (parseredirs ret ps es) (\<lambda>(ret, ps). parseargs (args @ [(q, eq)]) ret ps es)))"
  by pat_completeness auto
termination
  by (relation "measure (\<lambda>(args, ret, ps, es). MAXARGS - length args)") auto

declare parseargs.simps [simp del]

text \<open>The loop of \<open>parseline\<close>.\<close>

function parseback :: "ptrs cmd \<Rightarrow> bytes \<Rightarrow> bytes \<Rightarrow> (ptrs cmd \<times> bytes) parsed" where
  "parseback cmd ps es =
     bindp (peek ps es ''&'') (\<lambda>(b, ps).
       if b then bindp (gettoken ps es) (\<lambda>(_, _, _, ps). parseback (BackCmd cmd) ps es)
       else Parsed (cmd, ps))"
  by pat_completeness auto
termination
  by (relation "measure (\<lambda>(cmd, ps, es). length ps)") (auto dest: back_progress)

declare parseback.simps [simp del]

function (sequential) parseline :: "nat \<Rightarrow> bytes \<Rightarrow> bytes \<Rightarrow> (ptrs cmd \<times> bytes) parsed"
  and parsepipe :: "nat \<Rightarrow> bytes \<Rightarrow> bytes \<Rightarrow> (ptrs cmd \<times> bytes) parsed"
  and parseexec :: "nat \<Rightarrow> bytes \<Rightarrow> bytes \<Rightarrow> (ptrs cmd \<times> bytes) parsed"
  and parseblock :: "nat \<Rightarrow> bytes \<Rightarrow> bytes \<Rightarrow> (ptrs cmd \<times> bytes) parsed" where
  "parseline 0 ps es = Deep"
| "parseline (Suc n) ps es =
     bindp (parsepipe n ps es) (\<lambda>(cmd, ps).
     bindp (parseback cmd ps es) (\<lambda>(cmd, ps).
     bindp (peek ps es '';'') (\<lambda>(b, ps).
       if b
       then bindp (gettoken ps es) (\<lambda>(_, _, _, ps).
            bindp (parseline n ps es) (\<lambda>(right, ps). Parsed (ListCmd cmd right, ps)))
       else Parsed (cmd, ps))))"
| "parsepipe 0 ps es = Deep"
| "parsepipe (Suc n) ps es =
     bindp (parseexec n ps es) (\<lambda>(cmd, ps).
     bindp (peek ps es ''|'') (\<lambda>(b, ps).
       if b
       then bindp (gettoken ps es) (\<lambda>(_, _, _, ps).
            bindp (parsepipe n ps es) (\<lambda>(right, ps). Parsed (PipeCmd cmd right, ps)))
       else Parsed (cmd, ps)))"
| "parseexec 0 ps es = Deep"
| "parseexec (Suc n) ps es =
     bindp (peek ps es ''('') (\<lambda>(b, ps).
       if b then parseblock n ps es
       else bindp (parseredirs (ExecCmd []) ps es) (\<lambda>(ret, ps). parseargs [] ret ps es))"
| "parseblock 0 ps es = Deep"
| "parseblock (Suc n) ps es =
     bindp (peek ps es ''('') (\<lambda>(b, ps).
       if \<not> b then Panic ''parseblock''
       else bindp (gettoken ps es) (\<lambda>(_, _, _, ps).
            bindp (parseline n ps es) (\<lambda>(cmd, ps).
            bindp (peek ps es '')'') (\<lambda>(b, ps).
              if \<not> b then Panic ''syntax - missing )''
              else bindp (gettoken ps es) (\<lambda>(_, _, _, ps). parseredirs cmd ps es)))))"

  by pat_completeness auto
termination
  by (relation "measure (case_sum (case_sum fst fst) (case_sum fst fst))") auto

text \<open>\<open>nulterminate\<close>: the line after it.  A pointer is outside the line when it is longer.\<close>

definition nul_at :: "bytes \<Rightarrow> bytes \<Rightarrow> bytes" where
  "nul_at p buf = buf[length buf - length p := 0]"

fun nulterminate :: "ptrs cmd \<Rightarrow> bytes \<Rightarrow> bytes" where
  "nulterminate (ExecCmd args) buf = fold (\<lambda>(q, eq). nul_at eq) args buf"
| "nulterminate (RedirCmd c (q, eq) mode fd) buf = nul_at eq (nulterminate c buf)"
| "nulterminate (PipeCmd l r) buf = nulterminate r (nulterminate l buf)"
| "nulterminate (ListCmd l r) buf = nulterminate r (nulterminate l buf)"
| "nulterminate (BackCmd c) buf = nulterminate c buf"

text \<open>
  \<open>parsecmd\<close>: the command and the line that its pointers lead into, on the object that holds the line.  Every four nested calls take a
  symbol from the line, so that the depth is enough.
\<close>

definition parsecmd :: "bytes \<Rightarrow> (ptrs cmd \<times> bytes) parsed" where
  "parsecmd s =
     (case u_strlen s of
        None \<Rightarrow> Undef
      | Some n \<Rightarrow>
          let es = drop n s
          in bindp (parseline (4 * n + 4) s es) (\<lambda>(cmd, ps).
             bindp (peek ps es []) (\<lambda>(_, ps).
               if ps \<noteq> es then Leftovers ps else Parsed (cmd, nulterminate cmd s))))"

section \<open>Parsing always ends\<close>

text \<open>The line \<open>l\<close> ends at the NUL that \<open>es\<close> points to; the pointer \<open>ps\<close> leads into it.\<close>

definition within :: "bytes \<Rightarrow> bytes \<Rightarrow> bytes \<Rightarrow> bool" where
  "within l es ps \<longleftrightarrow> 0 \<notin> set l \<and> (\<exists>r. es = 0 # r) \<and> (\<exists>p w. l = p @ w \<and> ps = w @ es)"

definition special :: "uchar \<Rightarrow> bool" where
  "special c \<longleftrightarrow> c = 0 \<or> in_str whitespace c \<or> in_str symbols c"

text \<open>The pointers \<open>q\<close> and \<open>eq\<close> enclose a word of the line.\<close>

definition word_at :: "bytes \<Rightarrow> bytes \<Rightarrow> ptrs \<Rightarrow> bool" where
  "word_at l es = (\<lambda>(q, eq). within l es q \<and> within l es eq \<and> special (hd eq) \<and> (\<exists>w. q = w @ eq \<and> w \<noteq> [] \<and> (\<forall>c\<in>set w. \<not> special c)))"

text \<open>The commands that the parser may give.\<close>

fun wf_cmd :: "('w \<Rightarrow> bool) \<Rightarrow> 'w cmd \<Rightarrow> bool" where
  "wf_cmd P (ExecCmd args) \<longleftrightarrow> length args < MAXARGS \<and> (\<forall>w\<in>set args. P w)"
| "wf_cmd P (RedirCmd c w mode fd) \<longleftrightarrow> wf_cmd P c \<and> P w \<and> Some (mode, fd) \<in> {redir_of 60, redir_of 62, redir_of 43}"
| "wf_cmd P (PipeCmd l r) \<longleftrightarrow> wf_cmd P l \<and> wf_cmd P r"
| "wf_cmd P (ListCmd l r) \<longleftrightarrow> wf_cmd P l \<and> wf_cmd P r"
| "wf_cmd P (BackCmd c) \<longleftrightarrow> wf_cmd P c"

text \<open>A result that satisfies \<open>P\<close>, or a panic.\<close>

fun fine :: "('a \<Rightarrow> bool) \<Rightarrow> 'a parsed \<Rightarrow> bool" where
  "fine P (Parsed a) \<longleftrightarrow> P a"
| "fine P (Panic msg) \<longleftrightarrow> True"
| "fine P (Leftovers ps) \<longleftrightarrow> True"
| "fine P Undef \<longleftrightarrow> False"
| "fine P Deep \<longleftrightarrow> False"

lemma fine_bindp: "fine P r \<Longrightarrow> (\<And>a. P a \<Longrightarrow> r = Parsed a \<Longrightarrow> fine Q (f a)) \<Longrightarrow> fine Q (bindp r f)"
  by (cases r) auto

lemma fine_mono: "fine P r \<Longrightarrow> (\<And>a. P a \<Longrightarrow> Q a) \<Longrightarrow> fine Q r"
  by (cases r) auto

lemma withinE:
  assumes "within l es ps"
  obtains (last) r where "ps = 0 # r" "ps = es" | (more) c s where "ps = c # s" "c \<noteq> 0" "length es < length ps" "within l es s"
proof -
  obtain p w r where a: "0 \<notin> set l" "es = 0 # r" "l = p @ w" "ps = w @ es" using assms by (auto simp: within_def)
  show thesis
  proof (cases w)
    case Nil
    then show ?thesis using a last by simp
  next
    case (Cons c w')
    moreover have "l = (p @ [c]) @ w'" using a Cons by simp
    then have "within l es (w' @ es)" unfolding within_def using a(1,2) by blast
    ultimately show ?thesis using a more [of c "w' @ es"] by auto
  qed
qed

lemma within_length: "within l es ps \<Longrightarrow> length es \<le> length ps"
  by (auto simp: within_def)

lemma skip_white_within: "within l es ps \<Longrightarrow> within l es (skip_white ps es)"
proof (induction ps)
  case (Cons c s)
  from Cons.prems show ?case by (cases rule: withinE) (use Cons in auto)
qed simp

lemma skip_word_within:
  assumes "within l es ps"
  shows "\<exists>w. ps = w @ skip_word ps es \<and> (\<forall>c\<in>set w. \<not> special c) \<and> within l es (skip_word ps es) \<and> special (hd (skip_word ps es))"
  using assms
proof (induction ps)
  case (Cons c s)
  from Cons.prems show ?case
  proof (cases rule: withinE)
    case (last r)
    then show ?thesis using Cons.prems by (auto simp: special_def)
  next
    case (more c' s')
    show ?thesis
    proof (cases "special c")
      case True
      then show ?thesis using more Cons.prems by (auto simp: special_def)
    next
      case False
      then have "skip_word (c # s) es = skip_word s es" using more by (auto simp: special_def)
      moreover obtain w where "s = w @ skip_word s es" "\<forall>c\<in>set w. \<not> special c" "within l es (skip_word s es)" "special (hd (skip_word s es))"
        using Cons.IH more by auto
      ultimately show ?thesis using False by (intro exI [of _ "c # w"]) auto
    qed
  qed
qed (auto simp: within_def)

lemma token_at_symbol:
  assumes "in_str symbols c"
  shows "token_at (c # d # t) es = (if c = 62 \<and> d = 62 then Parsed (43, t) else Parsed (c, d # t))"
  using assms by (auto simp: symbol_iff token_at_def deref_def)

lemma token_at_word:
  assumes "\<not> in_str symbols c" "c \<noteq> 0"
  shows "token_at (c # s) es = Parsed (97, skip_word (c # s) es)"
  using assms by (simp add: symbol_iff token_at_def deref_def)

definition token_ok :: "bytes \<Rightarrow> bytes \<Rightarrow> bytes \<Rightarrow> uchar \<times> bytes \<Rightarrow> bool" where
  "token_ok l es q = (\<lambda>(ret, eq). within l es eq \<and> length eq \<le> length q \<and> (ret = 0 \<longleftrightarrow> q = es) \<and>
    (in_str symbols (hd q) \<longrightarrow> length eq < length q) \<and> (ret = 97 \<longrightarrow> \<not> in_str whitespace (hd q) \<longrightarrow> word_at l es (q, eq)))"

lemma token_at_fine:
  assumes "within l es q"
  shows "fine (token_ok l es q) (token_at q es)"
  using assms
proof (cases rule: withinE)
  case (last r)
  then have "token_at q es = Parsed (0, q)" by (simp add: token_at_def deref_def)
  then show ?thesis using assms last by (simp add: token_ok_def symbol_iff)
next
  case (more c s)
  show ?thesis
  proof (cases "in_str symbols c")
    case True
    obtain d t where t: "s = d # t" "d \<noteq> 0 \<Longrightarrow> within l es t" using more(4) by (cases rule: withinE) auto
    have "c \<noteq> 97" using True by (auto simp: symbol_iff)
    then show ?thesis using token_at_symbol [OF True, of d t es] more t by (auto simp: token_ok_def)
  next
    case False
    obtain w where w: "q = w @ skip_word q es" "\<forall>c\<in>set w. \<not> special c" "within l es (skip_word q es)" "special (hd (skip_word q es))"
      using skip_word_within [OF assms] by blast
    have "word_at l es (q, skip_word q es)" if "\<not> in_str whitespace c"
    proof -
      have "w \<noteq> []"
      proof
        assume "w = []"
        then have "hd (skip_word q es) = c" using w(1) more(1) by (metis append_Nil list.sel(1))
        then show False using w(4) that False more(2) by (simp add: special_def)
      qed
      then show ?thesis using w assms by (auto simp: word_at_def)
    qed
    moreover have "q \<noteq> es" using more(3) by auto
    ultimately show ?thesis using token_at_word [OF False more(2), of s es] more(1) False w(3) skip_word_length [of q es] by (simp add: token_ok_def)
  qed
qed

lemma skip_white_hd: "within l es ps \<Longrightarrow> \<not> in_str whitespace (hd (skip_white ps es))"
proof (induction ps)
  case Nil
  then show ?case by (auto simp: within_def)
next
  case (Cons c s)
  from Cons.prems show ?case by (cases rule: withinE) (use Cons white_nul in auto)
qed

definition next_ok :: "bytes \<Rightarrow> bytes \<Rightarrow> bytes \<Rightarrow> uchar \<times> bytes \<times> bytes \<times> bytes \<Rightarrow> bool" where
  "next_ok l es ps = (\<lambda>(ret, q, eq, s). within l es s \<and> length s \<le> length ps \<and> q = skip_white ps es \<and> (ret = 0 \<longleftrightarrow> q = es) \<and>
    (in_str symbols (hd q) \<longrightarrow> length s < length ps) \<and> (ret = 97 \<longrightarrow> word_at l es (q, eq)))"

lemma gettoken_fine:
  assumes "within l es ps"
  shows "fine (next_ok l es ps) (gettoken ps es)"
proof -
  let ?q = "skip_white ps es"
  have "next_ok l es ps (ret, ?q, eq, skip_white eq es)" if "token_ok l es ?q (ret, eq)" for ret eq
    using that skip_white_within [of l es eq] skip_white_length [of eq es] skip_white_length [of ps es] skip_white_hd [OF assms]
    by (auto simp: next_ok_def token_ok_def)
  then have "fine (next_ok l es ps) (bindp (token_at ?q es) (\<lambda>(ret, eq). Parsed (ret, ?q, eq, skip_white eq es)))"
    by (intro fine_bindp [OF token_at_fine [OF skip_white_within [OF assms]]]) auto
  then show ?thesis by (simp add: gettoken_def Let_def)
qed

definition peek_ok :: "bytes \<Rightarrow> bytes \<Rightarrow> bytes \<Rightarrow> string \<Rightarrow> bool \<times> bytes \<Rightarrow> bool" where
  "peek_ok l es ps toks = (\<lambda>(b, s). within l es s \<and> length s \<le> length ps \<and> s = skip_white s es \<and> (b \<longrightarrow> in_str (cstring toks) (hd s)))"

lemma peek_fine:
  assumes "within l es ps"
  shows "fine (peek_ok l es ps toks) (peek ps es toks)"
proof -
  let ?s = "skip_white ps es"
  have s: "within l es ?s" using skip_white_within [OF assms] .
  then obtain c r where c: "?s = c # r" by (cases rule: withinE) auto
  then have "peek ps es toks = Parsed (c \<noteq> 0 \<and> in_str (cstring toks) c, ?s)" by (simp add: peek_def deref_def)
  then show ?thesis using s c skip_white_length [of ps es] skip_white_idem [of ps es] by (simp add: peek_ok_def)
qed

definition cmd_ok :: "bytes \<Rightarrow> bytes \<Rightarrow> bytes \<Rightarrow> ptrs cmd \<times> bytes \<Rightarrow> bool" where
  "cmd_ok l es ps = (\<lambda>(c, s). within l es s \<and> length s \<le> length ps \<and> wf_cmd (word_at l es) c)"

lemma cmd_ok_mono: "fine (cmd_ok l es s) r \<Longrightarrow> length s \<le> length ps \<Longrightarrow> fine (cmd_ok l es ps) r"
  by (erule fine_mono) (auto simp: cmd_ok_def)

lemma wf_set_argv: "wf_cmd P c \<Longrightarrow> length args < MAXARGS \<Longrightarrow> \<forall>w\<in>set args. P w \<Longrightarrow> wf_cmd P (set_argv args c)"
  by (induction c) auto

lemma redir_of_Some: "redir_of tok = Some r \<Longrightarrow> Some r \<in> {redir_of 60, redir_of 62, redir_of 43}"
  by (simp add: redir_of_def split: if_splits)

text \<open>A symbol that \<open>peek\<close> has found is taken by \<open>gettoken\<close>.\<close>

lemma taken_fine:
  assumes "peek_ok l es ps toks (True, s)" "\<And>c. in_str (cstring toks) c \<Longrightarrow> in_str symbols c"
  shows "fine (\<lambda>(ret, q, eq, t). within l es t \<and> length t < length ps) (gettoken s es)"
  by (rule fine_mono [OF gettoken_fine [of l es s]]) (use assms in \<open>auto simp: peek_ok_def next_ok_def\<close>)

lemma parseredirs_fine:
  "within l es ps \<Longrightarrow> wf_cmd (word_at l es) cmd \<Longrightarrow> fine (cmd_ok l es ps) (parseredirs cmd ps es)"
proof (induction "length ps" arbitrary: cmd ps rule: less_induct)
  case less
  have rec: "fine (cmd_ok l es ps) (bindp (gettoken s es) (\<lambda>(tok, _, _, ps).
      bindp (gettoken ps es) (\<lambda>(tok', q, eq, ps).
        if tok' \<noteq> 97 then Panic ''missing file for redirection''
        else parseredirs (case redir_of tok of Some (mode, fd) \<Rightarrow> RedirCmd cmd (q, eq) mode fd | None \<Rightarrow> cmd) ps es)))"
    if s: "peek_ok l es ps ''<>'' (True, s)" for s
  proof (rule fine_bindp [OF taken_fine [OF s]]; clarify?)
    fix tok q eq t
    assume t: "within l es t" "length t < length ps"
    show "fine (cmd_ok l es ps) (bindp (gettoken t es) (\<lambda>(tok', q, eq, ps).
        if tok' \<noteq> 97 then Panic ''missing file for redirection''
        else parseredirs (case redir_of tok of Some (mode, fd) \<Rightarrow> RedirCmd cmd (q, eq) mode fd | None \<Rightarrow> cmd) ps es))"
    proof (rule fine_bindp [OF gettoken_fine [OF t(1)]]; clarify)
      fix tok' q eq u
      assume u: "next_ok l es t (tok', q, eq, u)"
      then have wu: "within l es u" "length u < length ps" using t by (auto simp: next_ok_def)
      have wf: "wf_cmd (word_at l es) (case redir_of tok of Some (mode, fd) \<Rightarrow> RedirCmd cmd (q, eq) mode fd | None \<Rightarrow> cmd)" if "tok' = 97"
        using u that less.prems(2) redir_of_Some by (auto simp: next_ok_def simp del: insert_iff split: option.splits)
      show "fine (cmd_ok l es ps) (if tok' \<noteq> 97 then Panic ''missing file for redirection''
          else parseredirs (case redir_of tok of Some (mode, fd) \<Rightarrow> RedirCmd cmd (q, eq) mode fd | None \<Rightarrow> cmd) u es)"
        using cmd_ok_mono [OF less.hyps [OF wu(2,1) wf], of ps] wu(2) by simp
    qed
  qed (auto simp: symbol_iff)
  show ?case
    by (subst parseredirs.simps, rule fine_bindp [OF peek_fine [OF less.prems(1)]])
      (use rec less.prems in \<open>auto simp: peek_ok_def cmd_ok_def\<close>)
qed

lemma parseargs_fine:
  "within l es ps \<Longrightarrow> wf_cmd (word_at l es) ret \<Longrightarrow> length args < MAXARGS \<Longrightarrow> \<forall>w\<in>set args. word_at l es w \<Longrightarrow>
    fine (cmd_ok l es ps) (parseargs args ret ps es)"
proof (induction "MAXARGS - length args" arbitrary: args ret ps rule: less_induct)
  case less
  have last: "fine (cmd_ok l es ps) (Parsed (set_argv args ret, s))" if "within l es s" "length s \<le> length ps" for s
    using that less.prems wf_set_argv [of _ ret args] by (simp add: cmd_ok_def)
  have rec: "fine (cmd_ok l es ps) (bindp (gettoken s es) (\<lambda>(tok, q, eq, ps).
      if tok = 0 then Parsed (set_argv args ret, ps)
      else if tok \<noteq> 97 then Panic ''syntax''
      else if MAXARGS \<le> length args + 1 then Panic ''too many args''
      else bindp (parseredirs ret ps es) (\<lambda>(ret, ps). parseargs (args @ [(q, eq)]) ret ps es)))"
    if s: "within l es s" "length s \<le> length ps" for s
  proof (rule fine_bindp [OF gettoken_fine [OF s(1)]]; clarify)
    fix tok q eq t
    assume t: "next_ok l es s (tok, q, eq, t)"
    then have wt: "within l es t" "length t \<le> length ps" using s(2) by (auto simp: next_ok_def)
    have "fine (cmd_ok l es ps) (bindp (parseredirs ret t es) (\<lambda>(ret, ps). parseargs (args @ [(q, eq)]) ret ps es))"
      if "tok = 97" "length args + 1 < MAXARGS"
    proof (rule fine_bindp [OF parseredirs_fine [OF wt(1) less.prems(2)]]; clarify)
      fix ret' u
      assume u: "cmd_ok l es t (ret', u)"
      have "fine (cmd_ok l es u) (parseargs (args @ [(q, eq)]) ret' u es)"
        using u that less.prems(4) t by (intro less.hyps) (auto simp: cmd_ok_def next_ok_def)
      then show "fine (cmd_ok l es ps) (parseargs (args @ [(q, eq)]) ret' u es)"
        using u wt(2) by (auto simp: cmd_ok_def elim!: fine_mono)
    qed
    then show "fine (cmd_ok l es ps) (if tok = 0 then Parsed (set_argv args ret, t)
        else if tok \<noteq> 97 then Panic ''syntax''
        else if MAXARGS \<le> length args + 1 then Panic ''too many args''
        else bindp (parseredirs ret t es) (\<lambda>(ret, ps). parseargs (args @ [(q, eq)]) ret ps es))"
      using last [OF wt] by simp
  qed
  show ?case
    by (subst parseargs.simps, rule fine_bindp [OF peek_fine [OF less.prems(1)]])
      (use rec last in \<open>auto simp: peek_ok_def\<close>)
qed

lemma parseback_fine:
  "within l es ps \<Longrightarrow> wf_cmd (word_at l es) cmd \<Longrightarrow> fine (cmd_ok l es ps) (parseback cmd ps es)"
proof (induction "length ps" arbitrary: cmd ps rule: less_induct)
  case less
  have rec: "fine (cmd_ok l es ps) (bindp (gettoken s es) (\<lambda>(_, _, _, ps). parseback (BackCmd cmd) ps es))"
    if s: "peek_ok l es ps ''&'' (True, s)" for s
  proof (rule fine_bindp [OF taken_fine [OF s]])
    show "fine (cmd_ok l es ps) (case a of (_, _, _, ps) \<Rightarrow> parseback (BackCmd cmd) ps es)"
      if "case a of (ret, q, eq, t) \<Rightarrow> within l es t \<and> length t < length ps" for a
      using that less.hyps [of "snd (snd (snd a))" "BackCmd cmd"] less.prems(2) by (auto intro: cmd_ok_mono)
  qed (auto simp: symbol_iff)
  show ?case
    by (subst parseback.simps, rule fine_bindp [OF peek_fine [OF less.prems(1)]])
      (use rec less.prems in \<open>auto simp: peek_ok_def cmd_ok_def\<close>)
qed

text \<open>The common end of \<open>parseline\<close> and \<open>parsepipe\<close>: a symbol, and then another command.\<close>

lemma right_fine:
  assumes "within l es ps" "wf_cmd (word_at l es) cmd" "\<And>c. in_str (cstring toks) c \<Longrightarrow> in_str symbols c"
    and "\<And>t. within l es t \<Longrightarrow> length t < length ps \<Longrightarrow> fine (cmd_ok l es t) (right t)"
    and "\<And>c. wf_cmd (word_at l es) c \<Longrightarrow> wf_cmd (word_at l es) (join cmd c)"
  shows "fine (cmd_ok l es ps) (bindp (peek ps es toks) (\<lambda>(b, ps).
    if b then bindp (gettoken ps es) (\<lambda>(_, _, _, ps). bindp (right ps) (\<lambda>(c, ps). Parsed (join cmd c, ps)))
    else Parsed (cmd, ps)))"
proof -
  have "fine (cmd_ok l es ps) (bindp (gettoken s es) (\<lambda>(_, _, _, ps). bindp (right ps) (\<lambda>(c, ps). Parsed (join cmd c, ps))))"
    if s: "peek_ok l es ps toks (True, s)" for s
  proof (rule fine_bindp [OF taken_fine [OF s assms(3)]]; clarify?)
    fix tok q eq t
    assume t: "within l es t" "length t < length ps"
    show "fine (cmd_ok l es ps) (bindp (right t) (\<lambda>(c, ps). Parsed (join cmd c, ps)))"
      by (rule fine_bindp [OF assms(4) [OF t]]) (use t assms(5) in \<open>auto simp: cmd_ok_def\<close>)
  qed
  then show ?thesis
    by (intro fine_bindp [OF peek_fine [OF assms(1)]]) (use assms(1,2) in \<open>auto simp: peek_ok_def cmd_ok_def\<close>)
qed

lemma back_right_fine:
  assumes "cmd_ok l es ps (cmd, s)" "\<And>t. within l es t \<Longrightarrow> length t < length ps \<Longrightarrow> fine (cmd_ok l es t) (right t)"
  shows "fine (cmd_ok l es ps) (bindp (parseback cmd s es) (\<lambda>(cmd, ps). bindp (peek ps es '';'') (\<lambda>(b, ps).
    if b then bindp (gettoken ps es) (\<lambda>(_, _, _, ps). bindp (right ps) (\<lambda>(c, ps). Parsed (ListCmd cmd c, ps)))
    else Parsed (cmd, ps))))"
proof (rule fine_bindp [OF parseback_fine [of l es s]]; clarify?)
  fix c t
  assume t: "cmd_ok l es s (c, t)"
  then have "length t \<le> length ps" using assms(1) by (simp add: cmd_ok_def)
  then show "fine (cmd_ok l es ps) (bindp (peek t es '';'') (\<lambda>(b, ps).
      if b then bindp (gettoken ps es) (\<lambda>(_, _, _, ps). bindp (right ps) (\<lambda>(c', ps). Parsed (ListCmd c c', ps)))
      else Parsed (c, ps)))"
    using t assms(2) by (intro cmd_ok_mono [where s = t, OF right_fine]) (auto simp: cmd_ok_def symbol_iff)
qed (use assms(1) in \<open>simp_all add: cmd_ok_def\<close>)

lemma redirs_args_fine:
  assumes "within l es s"
  shows "fine (cmd_ok l es s) (bindp (parseredirs (ExecCmd []) s es) (\<lambda>(ret, ps). parseargs [] ret ps es))"
proof (rule fine_bindp [OF parseredirs_fine [OF assms, of "ExecCmd []"]]; clarify?)
  fix ret t
  assume t: "cmd_ok l es s (ret, t)"
  then show "fine (cmd_ok l es s) (parseargs [] ret t es)"
    by (intro cmd_ok_mono [OF parseargs_fine [of l es t ret "[]"]]) (auto simp: cmd_ok_def MAXARGS_def)
qed (simp add: MAXARGS_def)

lemma close_fine:
  assumes "within l es s" "wf_cmd (word_at l es) cmd"
  shows "fine (cmd_ok l es s) (bindp (peek s es '')'') (\<lambda>(b, ps).
    if \<not> b then Panic ''syntax - missing )'' else bindp (gettoken ps es) (\<lambda>(_, _, _, ps). parseredirs cmd ps es)))"
proof -
  have "fine (cmd_ok l es s) (bindp (gettoken t es) (\<lambda>(_, _, _, ps). parseredirs cmd ps es))" if t: "peek_ok l es s '')'' (True, t)" for t
    by (rule fine_bindp [OF taken_fine [OF t]])
      (use assms(2) in \<open>auto simp: symbol_iff intro: cmd_ok_mono [OF parseredirs_fine]\<close>)
  then show ?thesis by (intro fine_bindp [OF peek_fine [OF assms(1)]]) auto
qed

lemma parse_fine:
  "within l es ps \<Longrightarrow> 4 * (length ps - length es) + 4 \<le> n \<Longrightarrow> fine (cmd_ok l es ps) (parseline n ps es)"
  "within l es ps \<Longrightarrow> 4 * (length ps - length es) + 3 \<le> n \<Longrightarrow> fine (cmd_ok l es ps) (parsepipe n ps es)"
  "within l es ps \<Longrightarrow> 4 * (length ps - length es) + 2 \<le> n \<Longrightarrow> fine (cmd_ok l es ps) (parseexec n ps es)"
  "within l es ps \<Longrightarrow> 4 * (length ps - length es) + 1 \<le> n \<Longrightarrow> fine (cmd_ok l es ps) (parseblock n ps es)"
proof (induction n arbitrary: ps)
  case (Suc n)
  {
    case 1
    have "fine (cmd_ok l es t) (parseline n t es)" if "within l es t" "length t < length ps" for t
      using Suc.IH(1) that 1(2) within_length [OF that(1)] by simp
    then show ?case
      unfolding parseline.simps by (intro fine_bindp [OF Suc.IH(2) [OF 1(1)]]) (use 1(2) back_right_fine in auto)
  next
    case 2
    have right: "fine (cmd_ok l es t) (parsepipe n t es)" if "within l es t" "length t < length ps" for t
      using Suc.IH(2) that 2(2) within_length [OF that(1)] by simp
    have "fine (cmd_ok l es ps) (bindp (peek s es ''|'') (\<lambda>(b, ps).
        if b then bindp (gettoken ps es) (\<lambda>(_, _, _, ps). bindp (parsepipe n ps es) (\<lambda>(right, ps). Parsed (PipeCmd cmd right, ps)))
        else Parsed (cmd, ps)))" if s: "cmd_ok l es ps (cmd, s)" for cmd s
      using s right by (intro cmd_ok_mono [where s = s, OF right_fine]) (auto simp: cmd_ok_def symbol_iff)
    then show ?case
      unfolding parsepipe.simps by (intro fine_bindp [OF Suc.IH(3) [OF 2(1)]]) (use 2(2) in auto)
  next
    case 3
    have block: "fine (cmd_ok l es ps) (parseblock n s es)" if "within l es s" "length s \<le> length ps" for s
      by (rule cmd_ok_mono [OF Suc.IH(4) [OF that(1)] that(2)]) (use that(2) 3(2) in linarith)
    show ?case
      unfolding parseexec.simps by (intro fine_bindp [OF peek_fine [OF 3(1)]])
        (use block cmd_ok_mono [OF redirs_args_fine] in \<open>auto simp: peek_ok_def\<close>)
  next
    case 4
    have inner: "fine (cmd_ok l es ps) (bindp (parseline n t es) (\<lambda>(cmd, ps). bindp (peek ps es '')'') (\<lambda>(b, ps).
        if \<not> b then Panic ''syntax - missing )'' else bindp (gettoken ps es) (\<lambda>(_, _, _, ps). parseredirs cmd ps es))))"
      if t: "within l es t" "length t < length ps" for t
      by (rule fine_bindp [OF Suc.IH(1) [OF t(1)]])
        (use t 4(2) within_length [OF t(1)] in \<open>auto simp: cmd_ok_def [of l es t] intro!: cmd_ok_mono [OF close_fine]\<close>)
    have "fine (cmd_ok l es ps) (bindp (gettoken s es) (\<lambda>(_, _, _, ps). bindp (parseline n ps es) (\<lambda>(cmd, ps). bindp (peek ps es '')'') (\<lambda>(b, ps).
        if \<not> b then Panic ''syntax - missing )'' else bindp (gettoken ps es) (\<lambda>(_, _, _, ps). parseredirs cmd ps es)))))"
      if s: "peek_ok l es ps ''('' (True, s)" for s
      by (rule fine_bindp [OF taken_fine [OF s]]) (use inner in \<open>auto simp: symbol_iff\<close>)
    then show ?case unfolding parseblock.simps by (intro fine_bindp [OF peek_fine [OF 4(1)]]) auto
  }
qed simp_all

lemma within_line: "0 \<in> set s \<Longrightarrow> within (cstr s) (drop (length (cstr s)) s) s"
proof -
  assume z: "0 \<in> set s"
  let ?l = "cstr s" and ?es = "dropWhile (\<lambda>c. c \<noteq> 0) s"
  have "?es \<noteq> []" "hd ?es = 0" using z hd_dropWhile [of "\<lambda>c. c \<noteq> 0" s] by auto
  then have "\<exists>r. ?es = 0 # r" by (cases ?es) auto
  moreover have "0 \<notin> set ?l" by (auto dest: set_takeWhileD)
  moreover have "s = ?l @ ?es" by simp
  ultimately show ?thesis unfolding within_def dropWhile_eq_drop [symmetric] by (metis append_Nil)
qed

lemma parsecmd_fine:
  assumes "0 \<in> set s"
  shows "fine (\<lambda>(c, buf). wf_cmd (word_at (cstr s) (drop (length (cstr s)) s)) c \<and> buf = nulterminate c s) (parsecmd s)"
proof -
  let ?n = "length (cstr s)" and ?es = "drop (length (cstr s)) s"
  have n: "u_strlen s = Some ?n" "length s - length ?es = ?n" using assms length_takeWhile_le [of _ s] by (simp_all add: u_strlen_eq)
  have line: "fine (cmd_ok (cstr s) ?es s) (parseline (4 * ?n + 4) s ?es)"
    by (rule parse_fine(1) [OF within_line [OF assms]]) (simp only: n(2))
  have "fine (\<lambda>(c, buf). wf_cmd (word_at (cstr s) ?es) c \<and> buf = nulterminate c s)
      (bindp (peek ps ?es []) (\<lambda>(_, ps). if ps \<noteq> ?es then Leftovers ps else Parsed (c, nulterminate c s)))"
    if "cmd_ok (cstr s) ?es s (c, ps)" for c ps
    by (rule fine_bindp [OF peek_fine]) (use that in \<open>auto simp: cmd_ok_def\<close>)
  then show ?thesis
    unfolding parsecmd_def n(1) option.case Let_def by (intro fine_bindp [OF line]) (auto split: prod.splits)
qed

text \<open>
  C24: on every command line \<open>parsecmd\<close> returns a command or panics, or stops at leftovers: it reads no byte outside of the line and its NUL, and its
  calls nest no deeper than four levels for each character of the line and four more.
\<close>

theorem parsecmd_total:
  assumes "0 \<in> set s"
  shows "(\<exists>msg. parsecmd s = Panic msg) \<or> (\<exists>ps. parsecmd s = Leftovers ps) \<or> (\<exists>c buf. parsecmd s = Parsed (c, buf))"
  using parsecmd_fine [OF assms] by (cases "parsecmd s") auto

theorem parsecmd_total_witness:
  "(\<exists>msg. parsecmd (replicate 50 40 @ [0]) = Panic msg) \<or> (\<exists>ps. parsecmd (replicate 50 40 @ [0]) = Leftovers ps) \<or>
    (\<exists>c buf. parsecmd (replicate 50 40 @ [0]) = Parsed (c, buf))"
  by (rule parsecmd_total) simp

section \<open>The words of a command\<close>

lemma nth_update_if: "i < length xs \<Longrightarrow> xs[j := v] ! i = (if i = j then v else xs ! i)"
  by (simp add: nth_list_update)

lemma nulterminate_nth:
  "length (nulterminate c buf) = length buf \<and>
   (\<forall>i<length buf. nulterminate c buf ! i = (if i \<in> (\<lambda>(q, eq). length buf - length eq) ` set_cmd c then 0 else buf ! i))"
proof (induction c arbitrary: buf)
  case (ExecCmd args)
  show ?case by (induction args arbitrary: buf) (auto simp: nul_at_def nth_update_if)
next
  case (RedirCmd c w mode fd)
  then show ?case by (cases w) (auto simp: nul_at_def nth_update_if)
qed auto

text \<open>The string that a pointer leads to, in the line after \<open>nulterminate\<close>.\<close>

definition str_at :: "bytes \<Rightarrow> bytes \<Rightarrow> bytes" where
  "str_at buf q = cstr (drop (length buf - length q) buf)"

lemma cstr_eqI:
  assumes "n < length xs" "take n xs = w" "xs ! n = 0" "0 \<notin> set w"
  shows "cstr xs = w"
proof -
  have "xs = w @ 0 # drop (Suc n) xs" using id_take_nth_drop [OF assms(1)] assms(2,3) by simp
  then show ?thesis using assms(4) by (metis (mono_tags, lifting) append_Nil2 takeWhile.simps(2) takeWhile_append2)
qed

lemma wf_cmd_set: "wf_cmd P c \<Longrightarrow> w \<in> set_cmd c \<Longrightarrow> P w"
  by (induction c) auto

lemma wf_cmd_mono: "wf_cmd P c \<Longrightarrow> (\<And>w. w \<in> set_cmd c \<Longrightarrow> P w \<Longrightarrow> Q w) \<Longrightarrow> wf_cmd Q c"
  by (induction c) auto

lemma word_atE:
  assumes "word_at l es (q, eq)" "s = l @ es"
  obtains p w where "s = p @ w @ eq" "q = w @ eq" "w \<noteq> []" "\<forall>c\<in>set w. \<not> special c" "special (hd eq)" "eq \<noteq> []"
proof -
  obtain w where w: "q = w @ eq" "w \<noteq> []" "\<forall>c\<in>set w. \<not> special c" "special (hd eq)" using assms(1) by (auto simp: word_at_def)
  obtain p v where "l = p @ v" "q = v @ es" using assms(1) by (auto simp: word_at_def within_def)
  then have "s = p @ w @ eq" using w(1) assms(2) by simp
  moreover have "eq \<noteq> []" using assms(1) by (auto simp: word_at_def within_def)
  ultimately show thesis using that w by blast
qed

lemma nulterminate_word:
  assumes wf: "\<And>w. w \<in> set_cmd c \<Longrightarrow> word_at l es w" and s: "s = l @ es" and w: "(q, eq) \<in> set_cmd c"
  obtains p w where "s = p @ w @ eq" "q = w @ eq" "w \<noteq> []" "\<forall>c\<in>set w. \<not> special c" "str_at (nulterminate c s) q = w"
proof -
  obtain p w where pw: "s = p @ w @ eq" "q = w @ eq" "w \<noteq> []" "\<forall>c\<in>set w. \<not> special c" "eq \<noteq> []"
    using word_atE [OF wf [OF w] s] by metis
  let ?t = "nulterminate c s" and ?N = "(\<lambda>(q, eq). length s - length eq) ` set_cmd c"
  note t = conjunct1 [OF nulterminate_nth [of c s]] conjunct2 [OF nulterminate_nth [of c s], rule_format]
  have off: "length ?t - length q = length p" using t(1) pw(1,2) by simp
  have N: "special (s ! i)" if i: "i \<in> ?N" for i
  proof -
    obtain q' e' where e: "(q', e') \<in> set_cmd c" "i = length s - length e'" using i by auto
    obtain p' w' where "s = p' @ w' @ e'" "special (hd e')" "e' \<noteq> []" using word_atE [OF wf [OF e(1)] s] by metis
    then show ?thesis using e(2) by (simp add: nth_append hd_conv_nth)
  qed
  have "?t ! (length p + i) = w ! i" if "i < length w" for i
  proof -
    have "s ! (length p + i) = w ! i" "length p + i < length s" using pw(1) that by (simp_all add: nth_append)
    moreover from this(1) have "length p + i \<notin> ?N" using N [of "length p + i"] pw(4) that by fastforce
    ultimately show ?thesis using t(2) [of "length p + i"] by simp
  qed
  then have tk: "take (length w) (drop (length p) ?t) = w" using t(1) pw(1) by (intro nth_equalityI) simp_all
  have "length p + length w \<in> ?N" using w pw(1) by force
  then have "?t ! (length p + length w) = 0" using t(2) [of "length p + length w"] pw(1,5) by simp
  moreover have "0 \<notin> set w" using pw(4) by (auto simp: special_def)
  ultimately have "cstr (drop (length p) ?t) = w" using tk t(1) pw(1,5) by (intro cstr_eqI [of "length w"]) simp_all
  then show thesis using that [OF pw(1-4)] off by (simp add: str_at_def)
qed

text \<open>
  C23: the command that \<open>parsecmd\<close> returns is well formed: every argument and file name is a word of the line, without white
  space or symbols, which is a string of its own after \<open>nulterminate\<close>; fewer than ten arguments, so that the list of pointers is
  terminated; and redirections only in the three modes.
\<close>

theorem parsecmd_words:
  assumes "0 \<in> set s" "parsecmd s = Parsed (c, buf)"
  shows "wf_cmd (\<lambda>(q, eq). \<exists>p w. s = p @ w @ eq \<and> q = w @ eq \<and> w \<noteq> [] \<and>
    (\<forall>ch\<in>set w. \<not> in_str whitespace ch \<and> \<not> in_str symbols ch) \<and> str_at buf q = w) c"
proof -
  have wf: "wf_cmd (word_at (cstr s) (drop (length (cstr s)) s)) c" and buf: "buf = nulterminate c s"
    using parsecmd_fine [OF assms(1)] unfolding assms(2) by simp_all
  have s: "s = cstr s @ drop (length (cstr s)) s" by (simp flip: dropWhile_eq_drop)
  show ?thesis
    by (rule wf_cmd_mono [OF wf], clarify, rule nulterminate_word [OF wf_cmd_set [OF wf] s], assumption+)
      (auto simp: special_def buf intro!: exI)
qed

theorem parsecmd_words_witness:
  "\<exists>c buf. parsecmd (cstring ''a b>c'') = Parsed (c, buf) \<and> wf_cmd (\<lambda>(q, eq). \<exists>p w. cstring ''a b>c'' = p @ w @ eq \<and> q = w @ eq \<and> w \<noteq> [] \<and>
    (\<forall>ch\<in>set w. \<not> in_str whitespace ch \<and> \<not> in_str symbols ch) \<and> str_at buf q = w) c"
proof -
  obtain c buf where p: "parsecmd (cstring ''a b>c'') = Parsed (c, buf)"
  proof -
    have "(case parsecmd (cstring ''a b>c'') of Parsed _ \<Rightarrow> True | _ \<Rightarrow> False)" by code_simp
    then show thesis using that by (cases "parsecmd (cstring ''a b>c'')") auto
  qed
  have "0 \<in> set (cstring ''a b>c'')" by (simp add: cstring_def)
  from parsecmd_words [OF this p] p show ?thesis by blast
qed

end
