(* ===== verification/ShPrint.thy ===== *)
theory ShPrint
  imports Sh
begin

text \<open>
  Commands as text: a printer for the commands of the shell, with parentheses where the grammar needs them, and the proof that the parser
  of \<^verbatim>\<open>user/sh.c\<close> reads every printed command back.
\<close>

section \<open>Printing\<close>

text \<open>A line of tokens, each followed by a space.\<close>

definition render :: "bytes list \<Rightarrow> bytes" where
  "render ts = concat (map (\<lambda>t. t @ [32]) ts)"

definition redir_toks :: "bytes \<Rightarrow> int \<Rightarrow> int \<Rightarrow> bytes list" where
  "redir_toks f mode fd =
     [if Some (mode, fd) = redir_of 60 then [60] else if Some (mode, fd) = redir_of 62 then [62] else [62, 62], f]"

text \<open>The tokens of a command, and whether it is for \<open>parseexec\<close> (0), \<open>parsepipe\<close> (1) or \<open>parseline\<close> (2 with \<open>&\<close> at its end, 3 with \<open>;\<close>).\<close>

definition at_level :: "nat \<Rightarrow> nat \<times> bytes list \<Rightarrow> bytes list" where
  "at_level k = (\<lambda>(n, ts). if n \<le> k then ts else [40] # ts @ [[41]])"

lemma at_level_pair: "at_level k (n, ts) = (if n \<le> k then ts else [40] # ts @ [[41]])"
  by (simp add: at_level_def)

primrec print_cmd :: "bytes cmd \<Rightarrow> nat \<times> bytes list" where
  "print_cmd (ExecCmd args) = (0, args)"
| "print_cmd (RedirCmd c f mode fd) = (0, at_level 0 (print_cmd c) @ redir_toks f mode fd)"
| "print_cmd (PipeCmd l r) = (1, at_level 0 (print_cmd l) @ [124] # at_level 1 (print_cmd r))"
| "print_cmd (BackCmd c) = (2, at_level 2 (print_cmd c) @ [[38]])"
| "print_cmd (ListCmd l r) = (3, at_level 2 (print_cmd l) @ [59] # at_level 3 (print_cmd r))"

definition print_line :: "bytes cmd \<Rightarrow> bytes" where
  "print_line c = render (at_level 3 (print_cmd c))"

section \<open>Tokens\<close>

definition word :: "bytes \<Rightarrow> bool" where
  "word w \<longleftrightarrow> w \<noteq> [] \<and> (\<forall>c\<in>set w. \<not> special c)"

definition symbol :: "bytes \<Rightarrow> bool" where
  "symbol t \<longleftrightarrow> t = [62, 62] \<or> (\<exists>c. t = [c] \<and> in_str symbols c)"

definition token :: "bytes \<Rightarrow> bool" where
  "token t \<longleftrightarrow> word t \<or> symbol t"

lemma symbols_not_white: "in_str symbols c \<Longrightarrow> c \<noteq> 0 \<and> \<not> in_str whitespace c"
  by (auto simp: symbol_iff white_iff)

lemma token_hd: "token t \<Longrightarrow> \<exists>c w. t = c # w \<and> c \<noteq> 0 \<and> \<not> in_str whitespace c"
  by (cases t) (auto simp: token_def word_def symbol_def special_def dest: symbols_not_white simp: white_iff [of 62])

text \<open>The rest of a line of which the tokens are left.\<close>

definition rest :: "bytes list \<Rightarrow> bytes" where
  "rest ts = render ts @ [0]"

lemma rest_simps [simp]: "rest [] = [0]" "rest (t # ts) = t @ 32 # rest ts"
  by (simp_all add: rest_def render_def)

lemma rest_length: "0 < length (rest ts)"
  by (simp add: rest_def)

lemma skip_white_rest:
  assumes "\<forall>t\<in>set ts. token t"
  shows "skip_white (rest ts) [0] = rest ts"
proof (cases ts)
  case Nil
  then show ?thesis by (simp add: white_nul)
next
  case (Cons t ts')
  then have "token t" using assms by simp
  then obtain c w where t: "t = c # w" "\<not> in_str whitespace c" using token_hd by blast
  then show ?thesis by (simp add: Cons)
qed

lemma skip_white_space: "\<forall>t\<in>set ts. token t \<Longrightarrow> skip_white (32 # rest ts) [0] = rest ts"
  using skip_white_rest [of ts] rest_length [of ts] by (simp add: white_iff [of 32])

lemma skip_word_append:
  "\<forall>c\<in>set w. \<not> special c \<Longrightarrow> skip_word (w @ 32 # x) [0] = 32 # x"
  by (induction w) (auto simp: special_def white_iff [of 32])

lemma gettoken_word:
  assumes "word w" "\<forall>t\<in>set ts. token t"
  shows "gettoken (rest (w # ts)) [0] = Parsed (97, rest (w # ts), 32 # rest ts, rest ts)"
proof -
  have sw: "skip_white (rest (w # ts)) [0] = rest (w # ts)" using assms by (intro skip_white_rest) (auto simp: token_def)
  obtain c w' where w: "w = c # w'" "\<not> special c" using assms(1) by (cases w) (auto simp: word_def)
  have "token_at (rest (w # ts)) [0] = Parsed (97, skip_word (rest (w # ts)) [0])"
    using token_at_word [of c "w' @ 32 # rest ts" "[0]"] w by (simp add: special_def)
  moreover have "skip_word (rest (w # ts)) [0] = 32 # rest ts" using assms(1) skip_word_append [of w "rest ts"] by (simp add: word_def)
  ultimately show ?thesis using skip_white_space [OF assms(2)] by (simp only: gettoken_def sw Let_def bindp.simps prod.case)
qed

definition sym_code :: "bytes \<Rightarrow> uchar" where
  "sym_code t = (if t = [62, 62] then 43 else hd t)"

lemma gettoken_symbol:
  assumes "symbol t" "\<forall>t\<in>set ts. token t"
  shows "\<exists>eq. gettoken (rest (t # ts)) [0] = Parsed (sym_code t, rest (t # ts), eq, rest ts)"
proof -
  have sw: "skip_white (rest (t # ts)) [0] = rest (t # ts)" using assms by (intro skip_white_rest) (auto simp: token_def)
  have "token_at (rest (t # ts)) [0] = Parsed (sym_code t, 32 # rest ts)"
  proof (cases "t = [62, 62]")
    case True
    then show ?thesis using token_at_symbol [of 62 62 "32 # rest ts" "[0]"] by (simp add: symbol_iff sym_code_def)
  next
    case False
    then obtain c where "t = [c]" "in_str symbols c" using assms(1) by (auto simp: symbol_def)
    then show ?thesis using token_at_symbol [of c 32 "rest ts" "[0]"] by (simp add: sym_code_def)
  qed
  then show ?thesis using skip_white_space [OF assms(2)] by (simp only: gettoken_def sw Let_def bindp.simps prod.case) blast
qed

lemma peek_rest:
  assumes "\<forall>t\<in>set ts. token t"
  shows "peek (rest ts) [0] toks = Parsed (ts \<noteq> [] \<and> in_str (cstring toks) (hd (hd ts)), rest ts)"
proof (cases ts)
  case Nil
  then show ?thesis by (simp add: peek_def white_nul deref_def)
next
  case (Cons t ts')
  then have "token t" using assms by simp
  then obtain c w where t: "t = c # w" "c \<noteq> 0" using token_hd by blast
  then show ?thesis unfolding peek_def skip_white_rest [OF assms] by (simp add: Cons deref_def)
qed

section \<open>Parsing tokens\<close>

text \<open>The word between two pointers; a parse gives the command \<open>t\<close> and leaves the tokens \<open>ts\<close>, unless its depth was not enough.\<close>

definition ptr_word :: "ptrs \<Rightarrow> bytes" where
  "ptr_word = (\<lambda>(q, eq). take (length q - length eq) q)"

definition reads :: "(ptrs cmd \<times> bytes) parsed \<Rightarrow> bytes cmd \<Rightarrow> bytes list \<Rightarrow> bool" where
  "reads r t ts \<longleftrightarrow> r = Deep \<or> (\<exists>c. r = Parsed (c, rest ts) \<and> map_cmd ptr_word c = t)"

lemma reads_bindp:
  "reads r t ts \<Longrightarrow> (\<And>c. map_cmd ptr_word c = t \<Longrightarrow> reads (f (c, rest ts)) t' ts') \<Longrightarrow> reads (bindp r f) t' ts'"
  by (auto simp: reads_def) metis

lemma reads_Parsed: "map_cmd ptr_word c = t \<Longrightarrow> reads (Parsed (c, rest ts)) t ts"
  by (simp add: reads_def)

definition starts :: "bytes list \<Rightarrow> bytes set \<Rightarrow> bool" where
  "starts ts S \<longleftrightarrow> (\<forall>t\<in>set ts. token t) \<and> (ts = [] \<or> hd ts \<in> S)"

text \<open>Redirections.\<close>

definition redirect :: "bytes cmd \<Rightarrow> (bytes \<times> int \<times> int) list \<Rightarrow> bytes cmd" where
  "redirect = foldl (\<lambda>c (f, mode, fd). RedirCmd c f mode fd)"

definition redirs_toks :: "(bytes \<times> int \<times> int) list \<Rightarrow> bytes list" where
  "redirs_toks rs = concat (map (\<lambda>(f, mode, fd). redir_toks f mode fd) rs)"

definition redir_ok :: "bytes \<times> int \<times> int \<Rightarrow> bool" where
  "redir_ok = (\<lambda>(f, mode, fd). word f \<and> Some (mode, fd) \<in> {redir_of 60, redir_of 62, redir_of 43})"

lemma redirect_simps [simp]: "redirect c [] = c" "redirect c ((f, mode, fd) # rs) = redirect (RedirCmd c f mode fd) rs"
  by (simp_all add: redirect_def)

lemma redir_toks_ok:
  assumes "redir_ok (f, mode, fd)"
  obtains t where "redir_toks f mode fd = [t, f]" "symbol t" "hd t \<in> {60, 62}" "redir_of (sym_code t) = Some (mode, fd)"
proof -
  have "\<exists>t. redir_toks f mode fd = [t, f] \<and> t \<in> {[60], [62], [62, 62]} \<and> redir_of (sym_code t) = Some (mode, fd)"
    using assms by (auto simp: redir_ok_def redir_toks_def sym_code_def)
  moreover have "symbol t \<and> hd t \<in> {60, 62}" if "t \<in> {[60], [62], [62, 62]}" for t :: bytes
    using that by (auto simp: symbol_def symbol_iff)
  ultimately show thesis using that by blast
qed

lemma redirs_token: "\<forall>r\<in>set rs. redir_ok r \<Longrightarrow> t \<in> set (redirs_toks rs) \<Longrightarrow> token t"
proof (induction rs)
  case (Cons r rs)
  obtain f mode fd where r: "r = (f, mode, fd)" by (cases r)
  obtain t' where "redir_toks f mode fd = [t', f]" "symbol t'" using Cons.prems(1) redir_toks_ok [of f mode fd] unfolding r by force
  then show ?case using Cons by (auto simp: redirs_toks_def r token_def redir_ok_def)
qed (simp add: redirs_toks_def)

lemma parseredirs_none:
  assumes "\<forall>t\<in>set ts. token t" "ts = [] \<or> \<not> hd (hd ts) \<in> {60, 62}"
  shows "parseredirs c (rest ts) [0] = Parsed (c, rest ts)"
  using assms by (subst parseredirs.simps) (auto simp: peek_rest)

lemma parseredirs_reads:
  assumes "\<forall>r\<in>set rs. redir_ok r" "\<forall>t\<in>set ts. token t" "ts = [] \<or> \<not> hd (hd ts) \<in> {60, 62}"
  shows "\<exists>c'. parseredirs c (rest (redirs_toks rs @ ts)) [0] = Parsed (c', rest ts) \<and> map_cmd ptr_word c' = redirect (map_cmd ptr_word c) rs"
  using assms(1)
proof (induction rs arbitrary: c)
  case Nil
  then show ?case using parseredirs_none [OF assms(2,3)] by (simp add: redirs_toks_def)
next
  case (Cons r rs)
  obtain f mode fd where r: "r = (f, mode, fd)" by (cases r)
  have ok: "redir_ok (f, mode, fd)" "\<forall>r\<in>set rs. redir_ok r" using Cons.prems unfolding r by simp_all
  obtain t where t: "redir_toks f mode fd = [t, f]" "symbol t" "hd t \<in> {60, 62}" "redir_of (sym_code t) = Some (mode, fd)"
    by (rule redir_toks_ok [OF ok(1)])
  let ?us = "redirs_toks rs @ ts"
  have us: "\<forall>t\<in>set ?us. token t" using redirs_token [OF ok(2)] assms(2) by auto
  have w: "word f" using ok(1) by (simp add: redir_ok_def)
  then have fus: "\<forall>t\<in>set (f # ?us). token t" "\<forall>u\<in>set (t # f # ?us). token u" using us t(2) by (auto simp: token_def)
  obtain eq where g: "gettoken (rest (t # f # ?us)) [0] = Parsed (sym_code t, rest (t # f # ?us), eq, rest (f # ?us))"
    using gettoken_symbol [OF t(2) fus(1)] by blast
  have toks: "redirs_toks (r # rs) @ ts = t # f # ?us" by (simp add: redirs_toks_def r t(1))
  have pk: "peek (rest (t # f # ?us)) [0] ''<>'' = Parsed (True, rest (t # f # ?us))" using peek_rest [OF fus(2), of "''<>''"] t(3) by auto
  have "parseredirs c (rest (t # f # ?us)) [0] = parseredirs (RedirCmd c (rest (f # ?us), 32 # rest ?us) mode fd) (rest ?us) [0]"
    by (subst parseredirs.simps) (simp only: pk g gettoken_word [OF w us] bindp.simps prod.case t(4) option.case simp_thms if_True if_False)
  moreover have "ptr_word (rest (f # ?us), 32 # rest ?us) = f" by (simp add: ptr_word_def)
  ultimately show ?case using Cons.IH [OF ok(2), of "RedirCmd c (rest (f # ?us), 32 # rest ?us) mode fd"] unfolding toks unfolding r by simp
qed

lemma map_set_argv: "map_cmd f (set_argv args c) = set_argv (map f args) (map_cmd f c)"
  by (induction c) auto

lemma set_argv_redirect: "set_argv args (redirect (ExecCmd as) rs) = redirect (ExecCmd args) rs"
proof -
  have "set_argv args (redirect c rs) = redirect (set_argv args c) rs" for c
    by (induction rs arbitrary: c) auto
  then show ?thesis by simp
qed

lemma redirect_redirect: "redirect (redirect c rs) rs' = redirect c (rs @ rs')"
  by (simp add: redirect_def)

definition exec_end :: "bytes set" where
  "exec_end = {[124], [38], [59], [41]}"

lemma starts_exec:
  assumes "starts ts exec_end"
  shows "\<forall>t\<in>set ts. token t" "ts = [] \<or> in_str (cstring ''|)&;'') (hd (hd ts))" "ts = [] \<or> hd (hd ts) \<notin> {60, 62}" 
  using assms by (auto simp: starts_def exec_end_def)

lemma word_hd: "word w \<Longrightarrow> \<not> in_str symbols (hd w)"
  by (cases w) (auto simp: word_def special_def)

lemma parseargs_end:
  assumes "starts ts exec_end"
  shows "parseargs args ret (rest ts) [0] = Parsed (set_argv args ret, rest ts)"
proof (cases ts)
  case Nil
  have "gettoken [0] [0] = Parsed (0, [0], [0], [0])" by (simp add: gettoken_def token_at_def deref_def Let_def)
  then show ?thesis using Nil peek_rest [of "[]"] by (subst parseargs.simps) simp
next
  case (Cons t ts')
  then show ?thesis using peek_rest [OF starts_exec(1) [OF assms]] starts_exec(2) [OF assms] by (subst parseargs.simps) simp
qed

lemma parseargs_reads:
  assumes "starts ts exec_end" "\<forall>r\<in>set rs. redir_ok r" "\<forall>w\<in>set ws. word w" "length args + length ws < MAXARGS" "ws = [] \<longrightarrow> rs = []"
  shows "\<exists>c'. parseargs args ret (rest (ws @ redirs_toks rs @ ts)) [0] = Parsed (c', rest ts) \<and>
    map_cmd ptr_word c' = set_argv (map ptr_word args @ ws) (redirect (map_cmd ptr_word ret) rs)"
  using assms(2-)
proof (induction ws arbitrary: args ret rs)
  case Nil
  then show ?case using parseargs_end [OF assms(1)] by (simp add: redirs_toks_def map_set_argv)
next
  case (Cons w ws)
  let ?us = "ws @ redirs_toks rs @ ts"
  have tok: "\<forall>t\<in>set ?us. token t"
    using Cons.prems(1,2) redirs_token [of rs] starts_exec(1) [OF assms(1)] by (auto simp: token_def)
  have w: "word w" using Cons.prems(2) by simp
  have all: "\<forall>t\<in>set (w # ?us). token t" using tok w by (simp add: token_def)
  have pk: "peek (rest (w # ?us)) [0] ''|)&;'' = Parsed (False, rest (w # ?us))"
    using peek_rest [OF all, of "''|)&;''"] word_hd [OF w] by (simp add: symbol_iff)
  have room: "\<not> MAXARGS \<le> length args + 1" using Cons.prems(3) by simp
  have ptr: "ptr_word (rest (w # ?us), 32 # rest ?us) = w" by (simp add: ptr_word_def)
  have step: "parseargs args ret (rest (w # ?us)) [0] = bindp (parseredirs ret (rest ?us) [0])
      (\<lambda>(ret, ps). parseargs (args @ [(rest (w # ?us), 32 # rest ?us)]) ret ps [0])"
    by (subst parseargs.simps) (simp only: pk gettoken_word [OF w tok] bindp.simps prod.case room simp_thms if_True if_False, simp)
  show ?case
  proof (cases ws)
    case Nil
    obtain c' where c': "parseredirs ret (rest ?us) [0] = Parsed (c', rest ts)" "map_cmd ptr_word c' = redirect (map_cmd ptr_word ret) rs"
      using parseredirs_reads [OF Cons.prems(1) starts_exec(1,3) [OF assms(1)], of ret] unfolding Nil by auto
    then show ?thesis using step parseargs_end [OF assms(1)] ptr unfolding Nil by (simp add: map_set_argv)
  next
    case (Cons v vs)
    have "hd v \<notin> {60, 62}" using word_hd [of v] Cons.prems(2) unfolding Cons by (auto simp: symbol_iff)
    then have "parseredirs ret (rest ?us) [0] = Parsed (ret, rest ?us)" using tok unfolding Cons by (intro parseredirs_none) simp_all
    then show ?thesis
      using step Cons.IH [of rs "args @ [(rest (w # ?us), 32 # rest ?us)]" ret] Cons.prems ptr unfolding Cons by simp
  qed
qed

section \<open>Parsing commands\<close>

lemma symbol_tokens [simp]: "token [40]" "token [41]" "token [59]" "token [38]" "token [124]"
  by (simp_all add: token_def symbol_def symbol_iff)

lemma word_token: "word w \<Longrightarrow> token w"
  by (simp add: token_def)

lemma token_nul: "token t \<Longrightarrow> 0 \<notin> set t"
  by (auto simp: token_def word_def symbol_def special_def dest: symbols_not_white)

lemma at_level_tokens: "\<forall>t\<in>set (snd p). token t \<Longrightarrow> \<forall>t\<in>set (at_level k p). token t"
  by (cases p) (auto simp: at_level_def)

lemma print_tokens: "wf_cmd word c \<Longrightarrow> \<forall>t\<in>set (snd (print_cmd c)). token t"
proof (induction c)
  case (RedirCmd c f mode fd)
  then have "redir_ok (f, mode, fd)" by (simp add: redir_ok_def)
  then have "\<forall>t\<in>set (redir_toks f mode fd). token t" using redirs_token [of "[(f, mode, fd)]"] by (simp add: redirs_toks_def)
  then show ?case using RedirCmd at_level_tokens [of "print_cmd c" 0] by auto
qed (auto dest: at_level_tokens word_token)

lemmas print_level_tokens = at_level_tokens [OF print_tokens]

lemma level_le: "fst (print_cmd c) \<le> 3"
  by (cases c) auto

lemma unredir:
  obtains core rs where "c = redirect core rs" "\<And>d f mode fd. core \<noteq> RedirCmd d f mode fd"
    "at_level 0 (print_cmd c) = at_level 0 (print_cmd core) @ redirs_toks rs"
    "wf_cmd word c \<Longrightarrow> wf_cmd word core \<and> (\<forall>r\<in>set rs. redir_ok r)"
proof (induction c arbitrary: thesis)
  case (RedirCmd c f mode fd)
  obtain core rs where c: "c = redirect core rs" "\<And>d f mode fd. core \<noteq> RedirCmd d f mode fd"
    "at_level 0 (print_cmd c) = at_level 0 (print_cmd core) @ redirs_toks rs" "wf_cmd word c \<Longrightarrow> wf_cmd word core \<and> (\<forall>r\<in>set rs. redir_ok r)"
    using RedirCmd.IH by blast
  have "RedirCmd c f mode fd = redirect core (rs @ [(f, mode, fd)])" using c(1) by (simp flip: redirect_redirect)
  moreover have "at_level 0 (print_cmd (RedirCmd c f mode fd)) = at_level 0 (print_cmd core) @ redirs_toks (rs @ [(f, mode, fd)])"
    using c(3) by (simp add: redirs_toks_def at_level_pair)
  moreover have "wf_cmd word core \<and> (\<forall>r\<in>set (rs @ [(f, mode, fd)]). redir_ok r)" if "wf_cmd word (RedirCmd c f mode fd)"
    using c(4) that by (auto simp: redir_ok_def)
  ultimately show ?case using RedirCmd.prems [of core "rs @ [(f, mode, fd)]"] c(2) by blast
next
  case (ExecCmd args)
  show ?case by (rule ExecCmd [of "ExecCmd args" "[]"]) (simp_all add: redirs_toks_def)
next
  case (PipeCmd l r)
  show ?case by (rule PipeCmd.prems [of "PipeCmd l r" "[]"]) (simp_all add: redirs_toks_def)
next
  case (ListCmd l r)
  show ?case by (rule ListCmd.prems [of "ListCmd l r" "[]"]) (simp_all add: redirs_toks_def)
next
  case (BackCmd c)
  show ?case by (rule BackCmd.prems [of "BackCmd c" "[]"]) (simp_all add: redirs_toks_def)
qed

lemma unback:
  obtains core k where "c = (BackCmd ^^ k) core" "\<And>d. core \<noteq> BackCmd d" "at_level 2 (print_cmd c) = at_level 2 (print_cmd core) @ replicate k [38]"
    "wf_cmd word c \<Longrightarrow> wf_cmd word core"
proof (induction c arbitrary: thesis)
  case (BackCmd c)
  obtain core k where c: "c = (BackCmd ^^ k) core" "\<And>d. core \<noteq> BackCmd d" "at_level 2 (print_cmd c) = at_level 2 (print_cmd core) @ replicate k [38]"
    "wf_cmd word c \<Longrightarrow> wf_cmd word core" using BackCmd.IH by blast
  have "at_level 2 (print_cmd (BackCmd c)) = at_level 2 (print_cmd core) @ replicate (Suc k) [38]"
    using c(3) by (simp add: at_level_pair flip: replicate_append_same)
  then show ?case by (intro BackCmd.prems [of "Suc k" core]) (use c in simp_all)
next
  case (ExecCmd args)
  show ?case by (rule ExecCmd [of 0 "ExecCmd args"]) simp_all
next
  case (PipeCmd l r)
  show ?case by (rule PipeCmd.prems [of 0 "PipeCmd l r"]) simp_all
next
  case (ListCmd l r)
  show ?case by (rule ListCmd.prems [of 0 "ListCmd l r"]) simp_all
next
  case (RedirCmd c f mode fd)
  show ?case by (rule RedirCmd.prems [of 0 "RedirCmd c f mode fd"]) simp_all
qed

lemma map_back: "map_cmd f ((BackCmd ^^ k) c) = (BackCmd ^^ k) (map_cmd f c)"
  by (induction k) auto

lemma parseback_reads:
  assumes "\<forall>t\<in>set ts. token t" "ts = [] \<or> hd (hd ts) \<noteq> 38"
  shows "parseback c (rest (replicate k [38] @ ts)) [0] = Parsed ((BackCmd ^^ k) c, rest ts)"
proof (induction k arbitrary: c)
  case 0
  then show ?case using peek_rest [OF assms(1)] assms(2) by (subst parseback.simps) auto
next
  case (Suc k)
  let ?us = "replicate k [38] @ ts"
  have tok: "\<forall>t\<in>set ?us. token t" "\<forall>t\<in>set ([38] # ?us). token t" using assms(1) by auto
  obtain eq where "gettoken (rest ([38] # ?us)) [0] = Parsed (sym_code [38], rest ([38] # ?us), eq, rest ?us)"
    using gettoken_symbol [OF _ tok(1), of "[38]"] by (auto simp: symbol_def symbol_iff)
  then have "parseback c (rest ([38] # ?us)) [0] = parseback (BackCmd c) (rest ?us) [0]"
    using peek_rest [OF tok(2), of "''&''"] by (subst parseback.simps) simp
  then show ?case using Suc [of "BackCmd c"] by (simp add: funpow_swap1)
qed

lemma level_eq:
  "\<nexists>l r. c = PipeCmd l r \<Longrightarrow> at_level 1 (print_cmd c) = at_level 0 (print_cmd c)"
  "\<nexists>d. c = BackCmd d \<Longrightarrow> at_level 2 (print_cmd c) = at_level 1 (print_cmd c)"
  "\<nexists>l r. c = ListCmd l r \<Longrightarrow> at_level 3 (print_cmd c) = at_level 2 (print_cmd c)"
  by (cases c; simp add: at_level_pair)+

lemma peek_first: "token t \<Longrightarrow> \<forall>u\<in>set ts. token u \<Longrightarrow> peek (rest (t # ts)) [0] toks = Parsed (in_str (cstring toks) (hd t), rest (t # ts))"
  using peek_rest [of "t # ts"] by simp

lemma symbol_taken:
  assumes "symbol t" "\<forall>u\<in>set ts. token u"
  shows "bindp (gettoken (rest (t # ts)) [0]) (\<lambda>(_, _, _, ps). f ps) = f (rest ts)"
  using gettoken_symbol [OF assms] by auto

lemma pipe_reads:
  assumes exec: "\<And>c ts. wf_cmd word c \<Longrightarrow> starts ts exec_end \<Longrightarrow> reads (parseexec n (rest (at_level 0 (print_cmd c) @ ts)) [0]) c ts"
    and pipe: "\<And>c ts. wf_cmd word c \<Longrightarrow> starts ts {[38], [59], [41]} \<Longrightarrow> reads (parsepipe n (rest (at_level 1 (print_cmd c) @ ts)) [0]) c ts"
    and c: "wf_cmd word c" and ts: "starts ts {[38], [59], [41]}"
  shows "reads (parsepipe (Suc n) (rest (at_level 1 (print_cmd c) @ ts)) [0]) c ts"
proof -
  have tok: "\<forall>t\<in>set ts. token t" and sub: "starts ts exec_end" and bar: "ts = [] \<or> hd (hd ts) \<noteq> 124"
    using ts by (auto simp: starts_def exec_end_def)
  show ?thesis
  proof (cases "\<exists>l r. c = PipeCmd l r")
    case True
    then obtain l r where lr: "c = PipeCmd l r" by blast
    let ?us = "at_level 1 (print_cmd r) @ ts"
    have us: "\<forall>t\<in>set ?us. token t" using print_level_tokens [of r] c tok by (auto simp: lr)
    have toks: "at_level 1 (print_cmd c) @ ts = at_level 0 (print_cmd l) @ [124] # ?us" by (simp add: lr at_level_pair)
    have "starts ([124] # ?us) exec_end" using us by (simp add: starts_def exec_end_def)
    then have left: "reads (parseexec n (rest (at_level 0 (print_cmd l) @ [124] # ?us)) [0]) l ([124] # ?us)"
      using exec c by (simp only: lr wf_cmd.simps)
    have right: "reads (parsepipe n (rest ?us) [0]) r ts" using pipe c ts by (simp only: lr wf_cmd.simps)
    have pk: "peek (rest ([124] # ?us)) [0] ''|'' = Parsed (True, rest ([124] # ?us))" using peek_first [OF _ us, of "[124]" "''|''"] by simp
    have sy: "symbol [124]" by (simp add: symbol_def symbol_iff)
    show ?thesis
      unfolding toks parsepipe.simps
    proof (rule reads_bindp [OF left], unfold prod.case pk bindp.simps if_True, subst symbol_taken [OF sy us])
      show "reads (bindp (parsepipe n (rest ?us) [0]) (\<lambda>(right, ps). Parsed (PipeCmd d right, ps))) c ts" if "map_cmd ptr_word d = l" for d
        by (rule reads_bindp [OF right]) (use that in \<open>simp add: lr reads_Parsed\<close>)
    qed
  next
    case False
    show ?thesis
      unfolding level_eq(1) [OF False] parsepipe.simps
      by (rule reads_bindp [OF exec [OF c sub]]) (use peek_rest [OF tok] bar in \<open>auto simp: reads_Parsed\<close>)
  qed
qed

lemma back_reads:
  assumes pipe: "\<And>c ts. wf_cmd word c \<Longrightarrow> starts ts {[38], [59], [41]} \<Longrightarrow> reads (parsepipe n (rest (at_level 1 (print_cmd c) @ ts)) [0]) c ts"
    and c: "wf_cmd word c" and ts: "starts ts {[59], [41]}"
  shows "reads (bindp (parsepipe n (rest (at_level 2 (print_cmd c) @ ts)) [0]) (\<lambda>(cmd, ps). parseback cmd ps [0])) c ts"
proof -
  obtain core k where k: "c = (BackCmd ^^ k) core" "\<nexists>d. core = BackCmd d"
    "at_level 2 (print_cmd c) = at_level 1 (print_cmd core) @ replicate k [38]" "wf_cmd word core"
    using unback [of c] level_eq(2) c by metis
  let ?us = "replicate k [38] @ ts"
  have "starts ?us {[38], [59], [41]}" using ts by (cases k) (auto simp: starts_def)
  then have core: "reads (parsepipe n (rest (at_level 1 (print_cmd core) @ ?us)) [0]) core ?us" using pipe k(4) by blast
  have "\<forall>t\<in>set ts. token t" "ts = [] \<or> hd (hd ts) \<noteq> 38" using ts by (auto simp: starts_def)
  then have pb: "parseback d (rest ?us) [0] = Parsed ((BackCmd ^^ k) d, rest ts)" for d using parseback_reads by blast
  show ?thesis
    unfolding k(3) append_assoc by (rule reads_bindp [OF core]) (simp add: pb reads_Parsed map_back k(1))
qed

lemma line_reads:
  assumes pipe: "\<And>c ts. wf_cmd word c \<Longrightarrow> starts ts {[38], [59], [41]} \<Longrightarrow> reads (parsepipe n (rest (at_level 1 (print_cmd c) @ ts)) [0]) c ts"
    and lin: "\<And>c ts. wf_cmd word c \<Longrightarrow> starts ts {[41]} \<Longrightarrow> reads (parseline n (rest (at_level 3 (print_cmd c) @ ts)) [0]) c ts"
    and c: "wf_cmd word c" and ts: "starts ts {[41]}"
  shows "reads (parseline (Suc n) (rest (at_level 3 (print_cmd c) @ ts)) [0]) c ts"
proof -
  have tok: "\<forall>t\<in>set ts. token t" and sub: "starts ts {[59], [41]}" and semi: "ts = [] \<or> hd (hd ts) \<noteq> 59"
    using ts by (auto simp: starts_def)
  have alt: "parseline (Suc n) ps es = bindp (bindp (parsepipe n ps es) (\<lambda>(cmd, ps). parseback cmd ps es))
      (\<lambda>(cmd, ps). bindp (peek ps es '';'') (\<lambda>(b, ps).
         if b then bindp (gettoken ps es) (\<lambda>(_, _, _, ps). bindp (parseline n ps es) (\<lambda>(right, ps). Parsed (ListCmd cmd right, ps)))
         else Parsed (cmd, ps)))" for ps es
    by (cases "parsepipe n ps es") (auto split: prod.splits)
  show ?thesis
  proof (cases "\<exists>l r. c = ListCmd l r")
    case True
    then obtain l r where lr: "c = ListCmd l r" by blast
    let ?us = "at_level 3 (print_cmd r) @ ts"
    have us: "\<forall>t\<in>set ?us. token t" using print_level_tokens [of r] c tok by (auto simp: lr)
    have toks: "at_level 3 (print_cmd c) @ ts = at_level 2 (print_cmd l) @ [59] # ?us" by (simp add: lr at_level_pair)
    have "starts ([59] # ?us) {[59], [41]}" using us by (simp add: starts_def)
    then have left: "reads (bindp (parsepipe n (rest (at_level 2 (print_cmd l) @ [59] # ?us)) [0]) (\<lambda>(cmd, ps). parseback cmd ps [0])) l ([59] # ?us)"
      using back_reads [OF pipe, of l] c by (simp only: lr wf_cmd.simps)
    have right: "reads (parseline n (rest ?us) [0]) r ts" using lin c ts by (simp only: lr wf_cmd.simps)
    have pk: "peek (rest ([59] # ?us)) [0] '';'' = Parsed (True, rest ([59] # ?us))" using peek_first [OF _ us, of "[59]" "'';''"] by simp
    have sy: "symbol [59]" by (simp add: symbol_def symbol_iff)
    show ?thesis
      unfolding toks alt
    proof (rule reads_bindp [OF left], unfold prod.case pk bindp.simps if_True, subst symbol_taken [OF sy us])
      show "reads (bindp (parseline n (rest ?us) [0]) (\<lambda>(right, ps). Parsed (ListCmd d right, ps))) c ts" if "map_cmd ptr_word d = l" for d
        by (rule reads_bindp [OF right]) (use that in \<open>simp add: lr reads_Parsed\<close>)
    qed
  next
    case False
    show ?thesis
      unfolding level_eq(3) [OF False] alt
      by (rule reads_bindp [OF back_reads [OF pipe c sub]]) (use peek_rest [OF tok] semi in \<open>auto simp: reads_Parsed\<close>)
  qed
qed

lemma block_reads:
  assumes lin: "\<And>c ts. wf_cmd word c \<Longrightarrow> starts ts {[41]} \<Longrightarrow> reads (parseline n (rest (at_level 3 (print_cmd c) @ ts)) [0]) c ts"
    and c: "wf_cmd word c" and ts: "starts ts exec_end" and rs: "\<forall>r\<in>set rs. redir_ok r"
  shows "reads (parseblock (Suc n) (rest ([40] # at_level 3 (print_cmd c) @ [41] # redirs_toks rs @ ts)) [0]) (redirect c rs) ts"
proof -
  let ?vs = "redirs_toks rs @ ts"
  let ?us = "at_level 3 (print_cmd c) @ [41] # ?vs"
  have vs: "\<forall>t\<in>set ?vs. token t" using redirs_token [OF rs] starts_exec(1) [OF ts] by auto
  then have us: "\<forall>t\<in>set ?us. token t" using print_level_tokens [OF c, of 3] by auto
  have inner: "reads (parseline n (rest ?us) [0]) c ([41] # ?vs)" using lin [OF c] vs by (simp add: starts_def)
  have pk: "peek (rest ([40] # ?us)) [0] ''('' = Parsed (True, rest ([40] # ?us))" "peek (rest ([41] # ?vs)) [0] '')'' = Parsed (True, rest ([41] # ?vs))"
    using peek_first [OF _ us, of "[40]" "''(''"] peek_first [OF _ vs, of "[41]" "'')''"] by simp_all
  have sy: "symbol [40]" "symbol [41]" by (simp_all add: symbol_def symbol_iff)
  have fin: "reads (parseredirs d (rest ?vs) [0]) (redirect c rs) ts" if "map_cmd ptr_word d = c" for d
    using parseredirs_reads [OF rs starts_exec(1,3) [OF ts], of d] that by (auto simp: reads_def)
  show ?thesis
    unfolding parseblock.simps pk(1) bindp.simps prod.case not_True_eq_False if_False
  proof (subst symbol_taken [OF sy(1) us], rule reads_bindp [OF inner], unfold prod.case pk(2) bindp.simps not_True_eq_False if_False)
    show "reads (bindp (gettoken (rest ([41] # ?vs)) [0]) (\<lambda>(_, _, _, ps). parseredirs d ps [0])) (redirect c rs) ts" if "map_cmd ptr_word d = c" for d
      using fin [OF that] by (subst symbol_taken [OF sy(2) vs])
  qed
qed

lemma exec_args_reads:
  assumes ws: "\<forall>w\<in>set ws. word w" "length ws < MAXARGS" and rs: "\<forall>r\<in>set rs. redir_ok r" and ts: "starts ts exec_end"
  shows "reads (bindp (parseredirs (ExecCmd []) (rest (ws @ redirs_toks rs @ ts)) [0]) (\<lambda>(ret, ps). parseargs [] ret ps [0])) (redirect (ExecCmd ws) rs) ts"
proof (cases ws)
  case Nil
  obtain d where "parseredirs (ExecCmd []) (rest (redirs_toks rs @ ts)) [0] = Parsed (d, rest ts)" "map_cmd ptr_word d = redirect (ExecCmd []) rs"
    using parseredirs_reads [OF rs starts_exec(1,3) [OF ts], of "ExecCmd []"] by auto
  then show ?thesis using parseargs_end [OF ts, of "[]" d] by (simp add: Nil reads_Parsed map_set_argv set_argv_redirect)
next
  case (Cons w ws')
  let ?us = "ws @ redirs_toks rs @ ts"
  have tok: "\<forall>t\<in>set ?us. token t" using ws(1) redirs_token [OF rs] starts_exec(1) [OF ts] word_token by auto
  have "hd w \<notin> {60, 62}" using word_hd [of w] ws(1) by (auto simp: Cons symbol_iff)
  then have "parseredirs (ExecCmd []) (rest ?us) [0] = Parsed (ExecCmd [], rest ?us)" using tok by (intro parseredirs_none) (simp_all add: Cons)
  moreover obtain d where "parseargs [] (ExecCmd []) (rest ?us) [0] = Parsed (d, rest ts)" "map_cmd ptr_word d = set_argv ws (redirect (ExecCmd []) rs)"
    using parseargs_reads [OF ts rs ws(1), of "[]" "ExecCmd []"] ws(2) Cons by auto
  ultimately show ?thesis by (simp add: reads_Parsed set_argv_redirect)
qed

lemma exec_reads:
  assumes block: "\<And>c ts rs. wf_cmd word c \<Longrightarrow> starts ts exec_end \<Longrightarrow> \<forall>r\<in>set rs. redir_ok r \<Longrightarrow>
      reads (parseblock n (rest ([40] # at_level 3 (print_cmd c) @ [41] # redirs_toks rs @ ts)) [0]) (redirect c rs) ts"
    and c: "wf_cmd word c" and ts: "starts ts exec_end"
  shows "reads (parseexec (Suc n) (rest (at_level 0 (print_cmd c) @ ts)) [0]) c ts"
proof -
  obtain core rs where core: "c = redirect core rs" "\<nexists>d f mode fd. core = RedirCmd d f mode fd"
    "at_level 0 (print_cmd c) = at_level 0 (print_cmd core) @ redirs_toks rs" "wf_cmd word core" "\<forall>r\<in>set rs. redir_ok r"
    using unredir [of c] c by metis
  show ?thesis
  proof (cases "\<exists>ws. core = ExecCmd ws")
    case True
    then obtain ws where ws: "core = ExecCmd ws" by blast
    let ?us = "ws @ redirs_toks rs @ ts"
    have w: "\<forall>w\<in>set ws. word w" "length ws < MAXARGS" using core(4) by (simp_all add: ws)
    have tok: "\<forall>t\<in>set ?us. token t" using w(1) redirs_token [OF core(5)] starts_exec(1) [OF ts] word_token by auto
    have toks: "at_level 0 (print_cmd c) @ ts = ?us" by (simp add: core(3) ws at_level_pair)
    have "hd (hd ?us) \<noteq> 40" if "?us \<noteq> []"
    proof (cases "ws = [] \<and> rs = []")
      case True
      then show ?thesis using starts_exec(2) [OF ts] that by (auto simp: redirs_toks_def)
    next
      case False
      then show ?thesis
        using word_hd [of "hd ws"] w(1) core(5) by (cases ws; cases rs) (auto simp: symbol_iff redirs_toks_def elim: redir_toks_ok)
    qed
    then have "peek (rest ?us) [0] ''('' = Parsed (False, rest ?us)" using peek_rest [OF tok, of "''(''"] by auto
    then show ?thesis using exec_args_reads [OF w core(5) ts] unfolding toks unfolding core(1) ws by simp
  next
    case False
    have toks: "at_level 0 (print_cmd c) @ ts = [40] # at_level 3 (print_cmd core) @ [41] # redirs_toks rs @ ts"
      using False core(2) unfolding core(3) by (cases core) (auto simp: at_level_pair)
    have "\<forall>t\<in>set (at_level 3 (print_cmd core) @ [41] # redirs_toks rs @ ts). token t"
      using print_level_tokens [OF core(4), of 3] redirs_token [OF core(5)] starts_exec(1) [OF ts] by auto
    then have pk: "peek (rest (at_level 0 (print_cmd c) @ ts)) [0] ''('' = Parsed (True, rest (at_level 0 (print_cmd c) @ ts))"
      unfolding toks by (subst peek_first) simp_all
    show ?thesis
      unfolding parseexec.simps pk bindp.simps prod.case if_True unfolding toks unfolding core(1) using block [OF core(4) ts core(5)] .
  qed
qed

lemma parse_reads:
  "wf_cmd word c \<Longrightarrow> starts ts {[41]} \<Longrightarrow> reads (parseline n (rest (at_level 3 (print_cmd c) @ ts)) [0]) c ts"
  "wf_cmd word c \<Longrightarrow> starts ts {[38], [59], [41]} \<Longrightarrow> reads (parsepipe n (rest (at_level 1 (print_cmd c) @ ts)) [0]) c ts"
  "wf_cmd word c \<Longrightarrow> starts ts exec_end \<Longrightarrow> reads (parseexec n (rest (at_level 0 (print_cmd c) @ ts)) [0]) c ts"
  "wf_cmd word c \<Longrightarrow> starts ts exec_end \<Longrightarrow> \<forall>r\<in>set rs. redir_ok r \<Longrightarrow>
    reads (parseblock n (rest ([40] # at_level 3 (print_cmd c) @ [41] # redirs_toks rs @ ts)) [0]) (redirect c rs) ts"
proof (induction n arbitrary: c ts rs)
  case (Suc n)
  {
    case 1
    then show ?case using line_reads [OF Suc.IH(2,1)] by blast
  next
    case 2
    then show ?case using pipe_reads [OF Suc.IH(3,2)] by blast
  next
    case 3
    then show ?case using exec_reads [OF Suc.IH(4)] by blast
  next
    case 4
    then show ?case using block_reads [OF Suc.IH(1)] by blast
  }
qed (simp_all add: reads_def)

section \<open>Reading back what was printed\<close>

lemma print_line_reads:
  assumes "wf_cmd word c"
  shows "\<exists>d buf. parsecmd (print_line c @ [0]) = Parsed (d, buf) \<and> map_cmd ptr_word d = c \<and> buf = nulterminate d (print_line c @ [0]) \<and>
    wf_cmd (word_at (print_line c) [0]) d"
proof -
  let ?s = "print_line c @ [0]"
  have s: "?s = rest (at_level 3 (print_cmd c) @ [])" by (simp add: print_line_def rest_def)
  have nz: "0 \<notin> set (print_line c)"
    using print_level_tokens [OF assms, of 3] token_nul by (auto simp: print_line_def render_def)
  then have cs: "cstr ?s = print_line c" by (subst takeWhile_append2) auto
  have fine: "fine (\<lambda>(d, buf). wf_cmd (word_at (print_line c) [0]) d \<and> buf = nulterminate d ?s) (parsecmd ?s)"
    using parsecmd_fine [of ?s] unfolding cs by simp
  have "reads (parseline (4 * length (print_line c) + 4) ?s [0]) c []"
    unfolding s by (rule parse_reads(1) [OF assms]) (simp add: starts_def)
  moreover have "parsecmd ?s = bindp (parseline (4 * length (print_line c) + 4) ?s [0]) (\<lambda>(cmd, ps).
      bindp (peek ps [0] []) (\<lambda>(_, ps). if ps \<noteq> [0] then Leftovers ps else Parsed (cmd, nulterminate cmd ?s)))"
    using cs by (simp add: parsecmd_def u_strlen_eq Let_def)
  moreover have "peek (rest []) [0] [] = Parsed (False, rest [])" using peek_rest [of "[]" "[]"] by simp
  ultimately have "parsecmd ?s = Deep \<or> (\<exists>d. parsecmd ?s = Parsed (d, nulterminate d ?s) \<and> map_cmd ptr_word d = c)"
    by (auto simp: reads_def)
  then show ?thesis using fine by auto
qed

text \<open>
  C22: the parser of the shell reads back every command that is printed: for every well-formed tree of lists, background
  commands, pipes, redirections and simple commands, with parentheses printed where the precedence needs them, \<open>parsecmd\<close> returns
  that tree, and its pointers lead to strings that are the words of the tree.
\<close>

theorem parsecmd_print:
  assumes "wf_cmd word c"
  shows "\<exists>d buf. parsecmd (print_line c @ [0]) = Parsed (d, buf) \<and> map_cmd (\<lambda>(q, eq). str_at buf q) d = c"
proof -
  let ?s = "print_line c @ [0]"
  obtain d buf where d: "parsecmd ?s = Parsed (d, buf)" "map_cmd ptr_word d = c" "buf = nulterminate d ?s" "wf_cmd (word_at (print_line c) [0]) d"
    using print_line_reads [OF assms] by blast
  have "str_at buf q = ptr_word (q, eq)" if "(q, eq) \<in> set_cmd d" for q eq
    by (rule nulterminate_word [OF wf_cmd_set [OF d(4)] refl that]) (auto simp: d(3) ptr_word_def)
  then have "map_cmd (\<lambda>(q, eq). str_at buf q) d = map_cmd ptr_word d" by (intro cmd.map_cong) auto
  then show ?thesis using d(1,2) by auto
qed

theorem parsecmd_print_witness:
  "\<exists>d buf. parsecmd (print_line (PipeCmd (BackCmd (ExecCmd [[97]])) (RedirCmd (ExecCmd [[98], [99]]) [102] 0 0)) @ [0]) = Parsed (d, buf) \<and>
    map_cmd (\<lambda>(q, eq). str_at buf q) d = PipeCmd (BackCmd (ExecCmd [[97]])) (RedirCmd (ExecCmd [[98], [99]]) [102] 0 0)"
  by (rule parsecmd_print) (simp add: word_def special_def white_iff symbol_iff MAXARGS_def redir_of_def O_RDONLY_def)

end
