(* ===== verification/UserProgs.thy ===== *)
theory UserProgs
  imports Sysfile TextTools
begin

text \<open>
  The user programs that work with processes, pipes and directories: the lab programs \<^verbatim>\<open>user/sleep.c\<close>, \<^verbatim>\<open>user/pingpong.c\<close>,
  \<^verbatim>\<open>user/primes.c\<close>, \<^verbatim>\<open>user/find.c\<close> and \<^verbatim>\<open>user/xargs.c\<close>, the commands of the shell \<^verbatim>\<open>user/sh.c\<close>, and \<^verbatim>\<open>init\<close>, \<^verbatim>\<open>ls\<close>, \<^verbatim>\<open>mkdir\<close>, \<^verbatim>\<open>rm\<close>,
  \<^verbatim>\<open>ln\<close>, \<^verbatim>\<open>kill\<close> and \<^verbatim>\<open>zombie\<close>.  A run is the run of one process: the system is a parameter \<open>os\<close> that answers the calls of this process, and
  \<open>fork\<close> gives 0 or another number as the process is the child or the parent.  \<open>None\<close> is a run that does not end, or that leaves the
  bounds of an object.  A pointer to a string is the rest of its object from there on.
\<close>

section \<open>System calls\<close>

datatype ucall =
    SysFork | SysWait | SysPipe
  | SysWrite int bytes | SysRead int nat | SysClose int | SysKill int
  | SysExec bytes "bytes list" | SysOpen bytes uint | SysMknod bytes nat nat | SysUnlink bytes
  | SysFstat int | SysLink bytes bytes | SysMkdir bytes | SysChdir bytes | SysDup int
  | SysGetpid | SysSbrk int | SysSleep int | SysUptime

text \<open>The answer to a call: its result, the bytes that \<open>read\<close> stored, and what is in the objects for \<open>pipe\<close> and \<open>fstat\<close> afterwards.\<close>

record uans =
  uret :: int
  udata :: bytes
  ufds :: "int \<times> int"
  ustat :: stat

type_synonym 's os = "ucall \<Rightarrow> 's \<Rightarrow> (uans \<times> 's) option"

text \<open>How the run of a program ends: with \<open>exit\<close>, or with an \<open>exec\<close> that succeeds.\<close>

datatype stop = Ended int | Became bytes "bytes list"

definition call :: "'s os \<Rightarrow> ucall \<Rightarrow> 's \<Rightarrow> (int \<times> 's) option" where
  "call os c s = do { (a, s) \<leftarrow> os c s; Some (uret a, s) }"

definition doing :: "'s os \<Rightarrow> ucall \<Rightarrow> 's \<Rightarrow> 's option" where
  "doing os c s = do { (a, s) \<leftarrow> os c s; Some s }"

definition exec_or :: "'s os \<Rightarrow> bytes \<Rightarrow> bytes list \<Rightarrow> ('s \<Rightarrow> (stop \<times> 's) option) \<Rightarrow> 's \<Rightarrow> (stop \<times> 's) option" where
  "exec_or os path argv k s = do {
     (r, s) \<leftarrow> call os (SysExec path argv) s;
     (if 0 \<le> r then Some (Became path argv, s) else k s)
   }"

text \<open>A loop over the elements of a list.\<close>

fun each :: "('b \<Rightarrow> 's \<Rightarrow> 's option) \<Rightarrow> 'b list \<Rightarrow> 's \<Rightarrow> 's option" where
  "each f [] s = Some s"
| "each f (x # xs) s = do { s \<leftarrow> f x s; each f xs s }"

text \<open>\<open>vprintf\<close> prints with \<open>putc\<close>, which makes a \<open>write\<close> for each byte.\<close>

definition putc :: "'s os \<Rightarrow> int \<Rightarrow> uchar \<Rightarrow> 's \<Rightarrow> 's option" where
  "putc os fd c s = doing os (SysWrite fd [c]) s"

definition fprintf :: "'s os \<Rightarrow> int \<Rightarrow> bytes \<Rightarrow> parg list \<Rightarrow> 's \<Rightarrow> 's option" where
  "fprintf os fd fmt args s = do { out \<leftarrow> vprintf fmt args; each (putc os fd) out s }"

definition u_printf :: "'s os \<Rightarrow> bytes \<Rightarrow> parg list \<Rightarrow> 's \<Rightarrow> 's option" where
  "u_printf os fmt args s = fprintf os 1 fmt args s"

definition u_stat :: "'s os \<Rightarrow> bytes \<Rightarrow> stat \<Rightarrow> 's \<Rightarrow> (int \<times> stat \<times> 's) option" where
  "u_stat os n st s = do {
     (fd, s) \<leftarrow> call os (SysOpen n O_RDONLY) s;
     (if fd < 0 then Some (-1, st, s)
      else do {
        (a, s) \<leftarrow> os (SysFstat fd) s;
        s \<leftarrow> doing os (SysClose fd) s;
        Some (uret a, ustat a, s)
      })
   }"

section \<open>sleep, pingpong, zombie, ln and kill\<close>

definition sleep_main :: "'s os \<Rightarrow> bytes list \<Rightarrow> 's \<Rightarrow> (stop \<times> 's) option" where
  "sleep_main os argv s =
     (if length argv \<noteq> 2 then do { s \<leftarrow> u_printf os (line ''sleep: missing argument'') [] s; Some (Ended 0, s) }
      else do { sec \<leftarrow> atoi (argv ! 1); s \<leftarrow> doing os (SysSleep sec) s; Some (Ended 0, s) })"

text \<open>The variable \<open>c\<close> after a \<open>read\<close> of one byte.\<close>

definition got :: "uans \<Rightarrow> uchar \<Rightarrow> uchar" where
  "got a c = (case udata a of [] \<Rightarrow> c | b # _ \<Rightarrow> b)"

definition pingpong_main :: "'s os \<Rightarrow> 's \<Rightarrow> (stop \<times> 's) option" where
  "pingpong_main os s = do {
     (a, s) \<leftarrow> os SysPipe s;
     let pipe_1 = ufds a;
     (a, s) \<leftarrow> os SysPipe s;
     let pipe_2 = ufds a;
     let c = of_char CHR ''a'';
     (r, s) \<leftarrow> call os SysFork s;
     (if r = 0 then do {
        (mypid, s) \<leftarrow> call os SysGetpid s;
        (a, s) \<leftarrow> os (SysRead (fst pipe_1) 1) s;
        let c = got a c;
        s \<leftarrow> u_printf os (line ''%d: received ping'') [IntArg mypid] s;
        s \<leftarrow> doing os (SysWrite (snd pipe_2) [c]) s;
        Some (Ended 0, s)
      }
      else do {
        (mypid, s) \<leftarrow> call os SysGetpid s;
        s \<leftarrow> doing os (SysWrite (snd pipe_1) [c]) s;
        (a, s) \<leftarrow> os (SysRead (fst pipe_2) 1) s;
        s \<leftarrow> u_printf os (line ''%d: received pong'') [IntArg mypid] s;
        Some (Ended 0, s)
      })
   }"

definition zombie_main :: "'s os \<Rightarrow> 's \<Rightarrow> (stop \<times> 's) option" where
  "zombie_main os s = do {
     (r, s) \<leftarrow> call os SysFork s;
     s \<leftarrow> (if r > 0 then doing os (SysSleep 5) s else Some s);
     Some (Ended 0, s)
   }"

definition ln_main :: "'s os \<Rightarrow> bytes list \<Rightarrow> 's \<Rightarrow> (stop \<times> 's) option" where
  "ln_main os argv s =
     (if length argv \<noteq> 3 then do { s \<leftarrow> fprintf os 2 (line ''Usage: ln old new'') [] s; Some (Ended 1, s) }
      else do {
        (r, s) \<leftarrow> call os (SysLink (argv ! 1) (argv ! 2)) s;
        s \<leftarrow> (if r < 0 then fprintf os 2 (line ''link %s %s: failed'') [StrArg (Some (argv ! 1)), StrArg (Some (argv ! 2))] s
              else Some s);
        Some (Ended 0, s)
      })"

definition kill_main :: "'s os \<Rightarrow> bytes list \<Rightarrow> 's \<Rightarrow> (stop \<times> 's) option" where
  "kill_main os argv s =
     (if length argv < 2 then do { s \<leftarrow> fprintf os 2 (line ''usage: kill pid...'') [] s; Some (Ended 1, s) }
      else do {
        s \<leftarrow> each (\<lambda>a s. do { n \<leftarrow> atoi a; doing os (SysKill n) s }) (tl argv) s;
        Some (Ended 0, s)
      })"

section \<open>mkdir and rm\<close>

text \<open>Their loop, which ends at the first argument whose call fails.\<close>

fun files_loop :: "'s os \<Rightarrow> (bytes \<Rightarrow> ucall) \<Rightarrow> bytes \<Rightarrow> bytes list \<Rightarrow> 's \<Rightarrow> 's option" where
  "files_loop os c fmt [] s = Some s"
| "files_loop os c fmt (a # argv) s = do {
     (r, s) \<leftarrow> call os (c a) s;
     (if r < 0 then fprintf os 2 fmt [StrArg (Some a)] s else files_loop os c fmt argv s)
   }"

definition mkdir_main :: "'s os \<Rightarrow> bytes list \<Rightarrow> 's \<Rightarrow> (stop \<times> 's) option" where
  "mkdir_main os argv s =
     (if length argv < 2 then do { s \<leftarrow> fprintf os 2 (line ''Usage: mkdir files...'') [] s; Some (Ended 1, s) }
      else do { s \<leftarrow> files_loop os SysMkdir (line ''mkdir: %s failed to create'') (tl argv) s; Some (Ended 0, s) })"

definition rm_main :: "'s os \<Rightarrow> bytes list \<Rightarrow> 's \<Rightarrow> (stop \<times> 's) option" where
  "rm_main os argv s =
     (if length argv < 2 then do { s \<leftarrow> fprintf os 2 (line ''Usage: rm files...'') [] s; Some (Ended 1, s) }
      else do { s \<leftarrow> files_loop os SysUnlink (line ''rm: %s failed to delete'') (tl argv) s; Some (Ended 0, s) })"

section \<open>primes\<close>

definition write_int :: "'s os \<Rightarrow> int \<Rightarrow> int \<Rightarrow> 's \<Rightarrow> (int \<times> 's) option" where
  "write_int os fd num s = call os (SysWrite fd (enc_le 4 (word_of_int num :: uint))) s"

text \<open>The result, and the variable after the bytes that were read are stored over it.\<close>

definition read_int :: "'s os \<Rightarrow> int \<Rightarrow> int \<Rightarrow> 's \<Rightarrow> (int \<times> int \<times> 's) option" where
  "read_int os fd num s = do {
     (a, s) \<leftarrow> os (SysRead fd 4) s;
     Some (uret a, sint (dec_le (splice_at 0 (udata a) (enc_le 4 (word_of_int num :: uint))) :: uint), s)
   }"

text \<open>
  The inner loop, from \<open>num_2\<close> and \<open>num_count\<close>.  The remainder is that of the division that rounds towards zero, and the dividend when the
  divisor is zero.
\<close>

definition c_rem :: "int \<Rightarrow> int \<Rightarrow> int" where
  "c_rem a b = (if b = 0 then a else sgn a * (\<bar>a\<bar> mod \<bar>b\<bar>))"

partial_function (option) primes_filter :: "'s os \<Rightarrow> int \<Rightarrow> int \<Rightarrow> int \<Rightarrow> int \<Rightarrow> int \<Rightarrow> 's \<Rightarrow> (int \<times> int \<times> 's) option" where
  "primes_filter os rfd wfd num_1 num_2 num_count s = do {
     (read_ret, num_2, s) \<leftarrow> read_int os rfd num_2 s;
     (if read_ret > 0 then do {
        s \<leftarrow> (if c_rem num_2 num_1 \<noteq> 0 then map_option snd (write_int os wfd num_2 s) else Some s);
        primes_filter os rfd wfd num_1 num_2 (num_count + 1) s
      }
      else Some (num_2, num_count, s))
   }"

text \<open>The outer loop, \<open>chld_num\<close> being its value after the increment.\<close>

partial_function (option) primes_loop ::
  "'s os \<Rightarrow> int \<Rightarrow> (int \<Rightarrow> int \<times> int) \<Rightarrow> int \<Rightarrow> int \<Rightarrow> 's \<Rightarrow> (stop \<times> 's) option" where
  "primes_loop os chld_num mypipe num_1 num_2 s = do {
     let read_p = chld_num mod 2;
     let write_p = (chld_num + 1) mod 2;
     (a, s) \<leftarrow> os SysPipe s;
     let mypipe = mypipe(write_p := ufds a);
     (_, num_1, s) \<leftarrow> read_int os (fst (mypipe read_p)) num_1 s;
     s \<leftarrow> u_printf os (line ''prime %d'') [IntArg num_1] s;
     (num_2, num_count, s) \<leftarrow> primes_filter os (fst (mypipe read_p)) (snd (mypipe write_p)) num_1 num_2 1 s;
     s \<leftarrow> doing os (SysClose (fst (mypipe read_p))) s;
     s \<leftarrow> doing os (SysClose (snd (mypipe write_p))) s;
     (if num_count = 1 then Some (Ended 0, s)
      else do {
        (r, s) \<leftarrow> call os SysFork s;
        (if r > 0 then do {
           s \<leftarrow> doing os (SysClose (fst (mypipe write_p))) s;
           s \<leftarrow> doing os SysWait s;
           Some (Ended 0, s)
         }
         else primes_loop os (chld_num + 1) mypipe num_1 num_2 s)
      })
   }"

text \<open>
  \<open>main\<close>: the first process, which writes the numbers, and its child.  The variables that are not initialised hold \<open>num_1\<close> and
  \<open>num_2\<close>.
\<close>

definition primes_child :: "'s os \<Rightarrow> (int \<Rightarrow> int \<times> int) \<Rightarrow> int \<Rightarrow> int \<Rightarrow> 's \<Rightarrow> (stop \<times> 's) option" where
  "primes_child os mypipe num_1 num_2 s = do {
     s \<leftarrow> doing os (SysClose (snd (mypipe 0))) s;
     primes_loop os 0 mypipe num_1 num_2 s
   }"

definition primes_main :: "'s os \<Rightarrow> (int \<Rightarrow> int \<times> int) \<Rightarrow> int \<Rightarrow> int \<Rightarrow> 's \<Rightarrow> (stop \<times> 's) option" where
  "primes_main os mypipe num_1 num_2 s = do {
     (a, s) \<leftarrow> os SysPipe s;
     let mypipe = mypipe(0 := ufds a);
     (r, s) \<leftarrow> call os SysFork s;
     (if r > 0 then do {
        s \<leftarrow> doing os (SysClose (fst (mypipe 0))) s;
        s \<leftarrow> each (\<lambda>num s. map_option snd (write_int os (snd (mypipe 0)) num s)) [2..35] s;
        s \<leftarrow> doing os (SysClose (snd (mypipe 0))) s;
        s \<leftarrow> doing os SysWait s;
        Some (Ended 0, s)
      }
      else primes_child os mypipe num_1 num_2 s)
   }"

section \<open>find and ls\<close>

text \<open>The first position after the last slash, looking backwards from position \<open>i\<close>.\<close>

fun after_slash :: "bytes \<Rightarrow> nat \<Rightarrow> nat" where
  "after_slash path 0 = (if path ! 0 = 47 then 1 else 0)"
| "after_slash path (Suc i) = (if path ! Suc i = 47 then Suc (Suc i) else after_slash path i)"

definition fname_cmp :: "bytes \<Rightarrow> bytes \<Rightarrow> int option" where
  "fname_cmp path filename = do { n \<leftarrow> u_strlen path; strcmp (drop (after_slash path n) path) filename }"

text \<open>
  \<open>find\<close>, in one definition with its loop over a directory: \<open>FindPath\<close> is a call, and \<open>FindDir\<close> the loop with the descriptor, the buffer and
  the position \<open>p\<close> in it.
\<close>

datatype find_at = FindPath bytes | FindDir int bytes nat

definition find_open :: "'s os \<Rightarrow> bytes \<Rightarrow> bytes \<Rightarrow> 's \<Rightarrow> ((int \<times> bytes \<times> nat) option \<times> 's) option" where
  "find_open os filename path s = do {
     buf \<leftarrow> strcpy (replicate 512 0) path;
     n \<leftarrow> u_strlen buf;
     (fd, s) \<leftarrow> call os (SysOpen buf O_RDONLY) s;
     (if fd < 0 then do {
        s \<leftarrow> fprintf os 2 (line ''find: cannot open %s, fd=%d'') [StrArg (Some path), IntArg fd] s;
        Some (None, s)
      }
      else do {
        (a, s) \<leftarrow> os (SysFstat fd) s;
        (if uret a < 0 then do {
           s \<leftarrow> fprintf os 2 (line ''find: cannot stat %s'') [StrArg (Some path)] s;
           s \<leftarrow> doing os (SysClose fd) s;
           Some (None, s)
         }
         else if st_type (ustat a) = T_FILE then do {
           r \<leftarrow> fname_cmp path filename;
           s \<leftarrow> (if r = 0 then u_printf os (line ''%s'') [StrArg (Some path)] s else Some s);
           s \<leftarrow> doing os (SysClose fd) s;
           Some (None, s)
         }
         else if st_type (ustat a) = T_DIR then
           (if n = 0 then None
            else do {
              (p, buf) \<leftarrow> (if buf ! (n - 1) \<noteq> 47 then map_option (Pair (Suc n)) (put_at n 47 buf) else Some (n, buf));
              k \<leftarrow> u_strlen path;
              (if k + DIRSIZ + 1 > 512 then do {
                 s \<leftarrow> u_printf os (line ''find: path too long'') [] s;
                 s \<leftarrow> doing os (SysClose fd) s;
                 Some (None, s)
               }
               else Some (Some (fd, buf, p), s))
            })
         else do { s \<leftarrow> doing os (SysClose fd) s; Some (None, s) })
      })
   }"

partial_function (option) find_run :: "'s os \<Rightarrow> bytes \<Rightarrow> find_at \<Rightarrow> 's \<Rightarrow> 's option" where
  "find_run os filename at s =
     (case at of
        FindPath path \<Rightarrow> do {
          (d, s) \<leftarrow> find_open os filename path s;
          (case d of None \<Rightarrow> Some s | Some (fd, buf, p) \<Rightarrow> find_run os filename (FindDir fd buf p) s)
        }
      | FindDir fd buf p \<Rightarrow> do {
          (a, s) \<leftarrow> os (SysRead fd 16) s;
          (if uret a \<noteq> 16 then doing os (SysClose fd) s
           else if get16 0 (udata a) = 0 then find_run os filename (FindDir fd buf p) s
           else do {
             r \<leftarrow> strcmp (de_name (udata a)) (cstring ''.'');
             (if r = 0 then find_run os filename (FindDir fd buf p) s
              else do {
                r \<leftarrow> strcmp (de_name (udata a)) (cstring ''..'');
                (if r = 0 then find_run os filename (FindDir fd buf p) s
                 else do {
                   str \<leftarrow> strcpy (drop p buf) (de_name (udata a));
                   let buf = take p buf @ str;
                   s \<leftarrow> find_run os filename (FindPath buf) s;
                   find_run os filename (FindDir fd buf p) s
                 })
              })
           })
        })"

definition find_main :: "'s os \<Rightarrow> bytes list \<Rightarrow> 's \<Rightarrow> (stop \<times> 's) option" where
  "find_main os argv s =
     (if length argv < 3 then Some (Ended 0, s)
      else do { s \<leftarrow> find_run os (argv ! 2) (FindPath (argv ! 1)) s; Some (Ended 0, s) })"

text \<open>\<open>fmtname\<close>: the static buffer has \<open>DIRSIZ + 1\<close> bytes, the last of which stays 0.\<close>

definition fmtname :: "bytes \<Rightarrow> bytes option" where
  "fmtname path = do {
     n \<leftarrow> u_strlen path;
     let p = drop (after_slash path n) path;
     k \<leftarrow> u_strlen p;
     Some (if DIRSIZ \<le> k then p else take k p @ replicate (DIRSIZ - k) 32 @ [0])
   }"

partial_function (option) ls_loop :: "'s os \<Rightarrow> int \<Rightarrow> bytes \<Rightarrow> nat \<Rightarrow> stat \<Rightarrow> 's \<Rightarrow> 's option" where
  "ls_loop os fd buf p st s = do {
     (a, s) \<leftarrow> os (SysRead fd 16) s;
     (if uret a \<noteq> 16 then Some s
      else if get16 0 (udata a) = 0 then ls_loop os fd buf p st s
      else do {
        let buf = splice_at p (de_name (udata a) @ [0]) buf;
        (r, st, s) \<leftarrow> u_stat os buf st s;
        (if r < 0 then do {
           s \<leftarrow> u_printf os (line ''ls: cannot stat %s'') [StrArg (Some buf)] s;
           ls_loop os fd buf p st s
         }
         else do {
           name \<leftarrow> fmtname buf;
           s \<leftarrow> u_printf os (line ''%s %d %d %d'') [StrArg (Some name), IntArg (sint (st_type st)), IntArg (sint (st_ino st)),
             IntArg (sint (ucast (st_size st) :: uint))] s;
           ls_loop os fd buf p st s
         })
      })
   }"

definition ls :: "'s os \<Rightarrow> bytes \<Rightarrow> 's \<Rightarrow> 's option" where
  "ls os path s = do {
     (fd, s) \<leftarrow> call os (SysOpen path O_RDONLY) s;
     (if fd < 0 then fprintf os 2 (line ''ls: cannot open %s'') [StrArg (Some path)] s
      else do {
        (a, s) \<leftarrow> os (SysFstat fd) s;
        (if uret a < 0 then do {
           s \<leftarrow> fprintf os 2 (line ''ls: cannot stat %s'') [StrArg (Some path)] s;
           doing os (SysClose fd) s
         }
         else do {
           let st = ustat a;
           s \<leftarrow> (if st_type st = T_FILE then do {
                   name \<leftarrow> fmtname path;
                   u_printf os (line ''%s %d %d %l'') [StrArg (Some name), IntArg (sint (st_type st)), IntArg (sint (st_ino st)),
                     PtrArg (st_size st)] s
                 }
                 else if st_type st = T_DIR then do {
                   n \<leftarrow> u_strlen path;
                   (if n + 1 + DIRSIZ + 1 > 512 then u_printf os (line ''ls: path too long'') [] s
                    else do {
                      buf \<leftarrow> strcpy (replicate 512 0) path;
                      buf \<leftarrow> put_at n 47 buf;
                      ls_loop os fd buf (Suc n) st s
                    })
                 }
                 else Some s);
           doing os (SysClose fd) s
         })
      })
   }"

definition ls_main :: "'s os \<Rightarrow> bytes list \<Rightarrow> 's \<Rightarrow> (stop \<times> 's) option" where
  "ls_main os argv s =
     (if length argv < 2 then do { s \<leftarrow> ls os (cstring ''.'') s; Some (Ended 0, s) }
      else do { s \<leftarrow> each (ls os) (tl argv) s; Some (Ended 0, s) })"

end
