(* ===== verification/Xargs.thy ===== *)
theory Xargs
  imports UserProgs
begin

text \<open>
  The lab program \<^verbatim>\<open>user/xargs.c\<close>.  An element of \<open>new_argv\<close> is a pointer to a string of the program's own arguments, or into the buffer
  with the line that was read.  A \<open>world\<close> is a system with standard streams and pipes but no files, in which programs can be run; the list \<open>wfork\<close> has the
  results of \<open>fork\<close> in the order of the calls, and when it is at its end the process is a child.
\<close>

section \<open>The program\<close>

datatype warg = WNull | WStr bytes | WBuf nat

partial_function (option) read_line :: "'s os \<Rightarrow> uchar \<Rightarrow> nat \<Rightarrow> bytes \<Rightarrow> 's \<Rightarrow> (nat \<times> bytes \<times> 's) option" where
  "read_line os c len buf s = do {
     (a, s) \<leftarrow> os (SysRead 0 1) s;
     (if uret a > 0 then do {
        let c = got a c;
        (if c = 10 then do { buf \<leftarrow> put_at len 0 buf; Some (len, buf, s) }
         else do { buf \<leftarrow> put_at len c buf; read_line os c (Suc len) buf s })
      }
      else Some (len, buf, s))
   }"

text \<open>The loop of \<open>add_args\<close>, with \<open>k\<close> characters to go from \<open>line_idx\<close>.\<close>

fun add_args_loop :: "nat \<Rightarrow> nat \<Rightarrow> nat \<Rightarrow> bool \<Rightarrow> warg list \<Rightarrow> bytes \<Rightarrow> (warg list \<times> bytes) option" where
  "add_args_loop 0 line_idx argv_idx prev_space argv buf = Some (argv, buf)"
| "add_args_loop (Suc k) line_idx argv_idx prev_space argv buf =
     (if length buf \<le> line_idx then None
      else if buf ! line_idx = 32
      then add_args_loop k (Suc line_idx) (if prev_space then argv_idx else Suc argv_idx) True argv (buf[line_idx := 0])
      else do {
        argv \<leftarrow> (if prev_space then put_at argv_idx (WBuf line_idx) argv else Some argv);
        add_args_loop k (Suc line_idx) argv_idx False argv buf
      })"

definition add_args :: "warg list \<Rightarrow> nat \<Rightarrow> bytes \<Rightarrow> nat \<Rightarrow> (warg list \<times> bytes) option" where
  "add_args argv old_argc buf line_len = add_args_loop line_len 0 old_argc True argv buf"

text \<open>The strings that \<open>exec\<close> gets, up to the null pointer.\<close>

fun warg_str :: "bytes \<Rightarrow> warg \<Rightarrow> bytes" where
  "warg_str buf (WStr str) = str"
| "warg_str buf (WBuf k) = drop k buf"
| "warg_str buf WNull = []"

definition argv_strings :: "bytes \<Rightarrow> warg list \<Rightarrow> bytes list option" where
  "argv_strings buf argv =
     (if WNull \<in> set argv then Some (map (warg_str buf) (takeWhile (\<lambda>a. a \<noteq> WNull) argv)) else None)"

text \<open>The main loop; \<open>new_argv\<close> and \<open>buf\<close> start with what the stack holds.  A child whose \<open>exec\<close> fails stays in the loop.\<close>

partial_function (option) xargs_loop :: "'s os \<Rightarrow> bytes list \<Rightarrow> warg list \<Rightarrow> bytes \<Rightarrow> 's \<Rightarrow> (stop \<times> 's) option" where
  "xargs_loop os argv new_argv buf s = do {
     (line_len, buf, s) \<leftarrow> read_line os 0 0 buf s;
     (if line_len \<noteq> 0 then do {
        (r, s) \<leftarrow> call os SysFork s;
        (if r > 0 then do {
           s \<leftarrow> doing os SysWait s;
           xargs_loop os argv new_argv buf s
         }
         else do {
           new_argv \<leftarrow> each (\<lambda>(i, a). put_at i (WStr a)) (enumerate 0 (tl argv)) new_argv;
           (new_argv, buf) \<leftarrow> add_args new_argv (length argv - 1) buf line_len;
           args \<leftarrow> argv_strings buf new_argv;
           (r, s) \<leftarrow> call os (SysExec (warg_str buf (new_argv ! 0)) args) s;
           (if 0 \<le> r then Some (Became (warg_str buf (new_argv ! 0)) args, s)
            else xargs_loop os argv new_argv buf s)
         })
      }
      else Some (Ended 0, s))
   }"

definition xargs_main :: "'s os \<Rightarrow> bytes list \<Rightarrow> warg list \<Rightarrow> bytes \<Rightarrow> 's \<Rightarrow> (stop \<times> 's) option" where
  "xargs_main os argv new_argv buf s =
     (if length argv < 2 then do { s \<leftarrow> u_printf os (line ''xargs: need argument(s)'') [] s; Some (Ended 0, s) }
      else xargs_loop os argv new_argv buf s)"

section \<open>A system with streams and pipes\<close>

datatype wobj = WIn | WOut | WErr | WPipeR nat | WPipeW nat

record world =
  wfds :: "wobj option list"
  wpipes :: "bytes list"
  winput :: bytes
  woutput :: bytes
  werrors :: bytes
  wfork :: "int list"
  wexec :: int

text \<open>The answers to calls that store nothing, and to \<open>read\<close>.\<close>

definition ans :: "int \<Rightarrow> uans" where
  "ans r = \<lparr>uret = r, udata = [], ufds = (0, 0), ustat = \<lparr>st_dev = 0, st_ino = 0, st_type = 0, st_nlink = 0, st_size = 0\<rparr>\<rparr>"

definition ans_data :: "bytes \<Rightarrow> uans" where
  "ans_data bs = (ans (int (length bs)))\<lparr>udata := bs\<rparr>"

definition lookup_fd :: "world \<Rightarrow> int \<Rightarrow> wobj option" where
  "lookup_fd w fd = (if 0 \<le> fd \<and> nat fd < length (wfds w) then wfds w ! nat fd else None)"

definition free_fd :: "wobj option list \<Rightarrow> nat option" where
  "free_fd fds = find (\<lambda>i. fds ! i = None) [0..<length fds]"

text \<open>
  A read from an empty pipe gives end of file when the process has closed the writing end, and otherwise does not return; neither does a
  write of bytes for which the pipe has no room.
\<close>

fun world_read :: "world \<Rightarrow> nat \<Rightarrow> wobj option \<Rightarrow> (uans \<times> world) option" where
  "world_read w n (Some WIn) = Some (ans_data (take n (winput w)), w\<lparr>winput := drop n (winput w)\<rparr>)"
| "world_read w n (Some (WPipeR k)) =
     (if wpipes w ! k = [] \<and> Some (WPipeW k) \<in> set (wfds w) then None
      else Some (ans_data (take n (wpipes w ! k)), w\<lparr>wpipes := (wpipes w)[k := drop n (wpipes w ! k)]\<rparr>))"
| "world_read w n _ = Some (ans (-1), w)"

fun world_write :: "world \<Rightarrow> bytes \<Rightarrow> wobj option \<Rightarrow> (uans \<times> world) option" where
  "world_write w bs (Some WOut) = Some (ans (int (length bs)), w\<lparr>woutput := woutput w @ bs\<rparr>)"
| "world_write w bs (Some WErr) = Some (ans (int (length bs)), w\<lparr>werrors := werrors w @ bs\<rparr>)"
| "world_write w bs (Some (WPipeW k)) =
     (if PIPESIZE < length (wpipes w ! k @ bs) then None
      else Some (ans (int (length bs)), w\<lparr>wpipes := (wpipes w)[k := wpipes w ! k @ bs]\<rparr>))"
| "world_write w bs _ = Some (ans (-1), w)"

definition world_pipe :: "world \<Rightarrow> (uans \<times> world) option" where
  "world_pipe w =
     (case free_fd (wfds w) of
        None \<Rightarrow> Some (ans (-1), w)
      | Some i \<Rightarrow>
          let fds = (wfds w)[i := Some (WPipeR (length (wpipes w)))]
          in case free_fd fds of
               None \<Rightarrow> Some (ans (-1), w)
             | Some j \<Rightarrow> Some ((ans 0)\<lparr>ufds := (int i, int j)\<rparr>,
                 w\<lparr>wfds := fds[j := Some (WPipeW (length (wpipes w)))], wpipes := wpipes w @ [[]]\<rparr>))"

fun world_os :: "world os" where
  "world_os SysFork w = (case wfork w of [] \<Rightarrow> Some (ans 0, w) | r # rs \<Rightarrow> Some (ans r, w\<lparr>wfork := rs\<rparr>))"
| "world_os SysPipe w = world_pipe w"
| "world_os (SysRead fd n) w = world_read w n (lookup_fd w fd)"
| "world_os (SysWrite fd bs) w = world_write w bs (lookup_fd w fd)"
| "world_os (SysClose fd) w =
     (if lookup_fd w fd = None then Some (ans (-1), w) else Some (ans 0, w\<lparr>wfds := (wfds w)[nat fd := None]\<rparr>))"
| "world_os (SysDup fd) w =
     (case (lookup_fd w fd, free_fd (wfds w)) of
        (Some f, Some i) \<Rightarrow> Some (ans (int i), w\<lparr>wfds := (wfds w)[i := Some f]\<rparr>)
      | _ \<Rightarrow> Some (ans (-1), w))"
| "world_os (SysExec path argv) w = Some (ans (wexec w), w)"
| "world_os _ w = Some (ans (-1), w)"

definition std_fds :: "wobj option list" where
  "std_fds = [Some WIn, Some WOut, Some WErr] @ replicate 13 None"

section \<open>The words of a line\<close>

function (sequential) words :: "bytes \<Rightarrow> bytes list" where
  "words l = (case dropWhile (\<lambda>c. c = 32) l of
     [] \<Rightarrow> []
   | c # l' \<Rightarrow> (c # takeWhile (\<lambda>c. c \<noteq> 32) l') # words (dropWhile (\<lambda>c. c \<noteq> 32) l'))"
  by pat_completeness auto
termination
proof (relation "measure length", simp)
  fix l l' :: bytes and c
  assume "dropWhile (\<lambda>c. c = 32) l = c # l'"
  then have "length l' < length l" by (metis length_Cons length_dropWhile_le less_eq_Suc_le)
  then show "(dropWhile (\<lambda>c. c \<noteq> 32) l', l) \<in> measure length" using length_dropWhile_le [of "\<lambda>c. c \<noteq> 32" l'] by simp
qed

declare words.simps [simp del]

lemma words_simps [simp]:
  "words [] = []"
  "words (32 # l) = words l"
  "c \<noteq> 32 \<Longrightarrow> words (c # l) = (c # takeWhile (\<lambda>c. c \<noteq> 32) l) # words (dropWhile (\<lambda>c. c \<noteq> 32) l)"
  by (simp_all add: words.simps [of "[]"] words.simps [of "32 # l"] words.simps [of "c # l"] words.simps [of l])

text \<open>Where words start, when the character before the line is a space or not.\<close>

fun arg_starts :: "nat \<Rightarrow> bool \<Rightarrow> bytes \<Rightarrow> nat list" where
  "arg_starts i prev [] = []"
| "arg_starts i prev (c # l) =
     (if c = 32 then arg_starts (Suc i) True l else (if prev then [i] else []) @ arg_starts (Suc i) False l)"

lemma arg_starts_words:
  "map (\<lambda>k. takeWhile (\<lambda>c. c \<noteq> 32) (drop k (p @ l))) (arg_starts (length p) prev l) =
     words (if prev then l else dropWhile (\<lambda>c. c \<noteq> 32) l)"
proof (induction l arbitrary: p prev)
  case (Cons c l)
  from Cons [of "p @ [c]"] show ?case by auto
qed simp

lemma arg_starts_bound: "k \<in> set (arg_starts i prev l) \<Longrightarrow> i \<le> k \<and> k < i + length l"
  by (induction l arbitrary: i prev) (fastforce split: if_splits)+

text \<open>The line with a NUL for every space.\<close>

definition nuls :: "bytes \<Rightarrow> bytes" where
  "nuls l = map (\<lambda>c. if c = 32 then 0 else c) l"

lemma nuls_string:
  assumes "0 \<notin> set l"
  shows "cstr (nuls l @ 0 # t) = takeWhile (\<lambda>c. c \<noteq> 32) l"
  using assms by (induction l) (auto simp: nuls_def)

lemma add_args_loop_eq:
  assumes "length (arg_starts (length p) prev l) \<le> m" "prev \<longleftrightarrow> i = length a" "\<not> prev \<Longrightarrow> Suc i = length a"
  shows "add_args_loop (length l) (length p) i prev (a @ replicate m WNull) (p @ l @ t) =
    Some (a @ map WBuf (arg_starts (length p) prev l) @ replicate (m - length (arg_starts (length p) prev l)) WNull, p @ nuls l @ t)"
  using assms
proof (induction l arbitrary: p prev i a m)
  case (Cons c l)
  let ?go = "\<lambda>i prev a m buf. add_args_loop (length l) (Suc (length p)) i prev (a @ replicate m WNull) buf"
  show ?case
  proof (cases "c = 32")
    case True
    then have "(p @ (c # l) @ t)[length p := 0] = (p @ [0]) @ l @ t" by simp
    then show ?thesis using Cons.IH [of "p @ [0]" True m "length a" a] Cons.prems True by (cases prev) (auto simp: nuls_def)
  next
    case c: False
    show ?thesis
    proof (cases prev)
      case True
      then obtain n where m: "m = Suc n" using Cons.prems(1) c by (cases m) auto
      have "put_at i (WBuf (length p)) (a @ replicate m WNull) = Some ((a @ [WBuf (length p)]) @ replicate n WNull)"
        using True Cons.prems(2) m by (simp add: put_at_def)
      then show ?thesis using Cons.IH [of "p @ [c]" False n i "a @ [WBuf (length p)]"] Cons.prems True c m by (simp add: nuls_def)
    next
      case False
      then show ?thesis using Cons.IH [of "p @ [c]" False m i a] Cons.prems c by (simp add: nuls_def)
    qed
  qed
qed (simp add: nuls_def)

section \<open>Correctness\<close>

lemma copy_args_eq:
  "length argv \<le> m \<Longrightarrow>
    each (\<lambda>(i, a). put_at i (WStr a)) (enumerate (length a) argv) (a @ replicate m WNull) = Some (a @ map WStr argv @ replicate (m - length argv) WNull)"
proof (induction argv arbitrary: a m)
  case (Cons x argv)
  then obtain n where m: "m = Suc n" by (cases m) auto
  have "put_at (length a) (WStr x) (a @ replicate m WNull) = Some ((a @ [WStr x]) @ replicate n WNull)" using m by (simp add: put_at_def)
  then show ?case using Cons.IH [of n "a @ [WStr x]"] Cons.prems m by simp
qed simp

lemma argv_strings_eq:
  assumes "WNull \<notin> set a" "0 < m"
  shows "argv_strings buf (a @ replicate m WNull) = Some (map (warg_str buf) a)"
proof -
  have "takeWhile (\<lambda>x. x \<noteq> WNull) (a @ replicate m WNull) = a @ takeWhile (\<lambda>x. x \<noteq> WNull) (replicate m WNull)"
    using assms(1) by (intro takeWhile_append2) auto
  then show ?thesis using assms(2) by (cases m) (simp_all add: argv_strings_def)
qed

lemma read_line_world:
  assumes "winput w = l @ 10 # r" "10 \<notin> set l" "lookup_fd w 0 = Some WIn" "length l < length q"
  shows "read_line world_os c (length p) (p @ q) w =
    Some (length p + length l, p @ l @ 0 # drop (Suc (length l)) q, w\<lparr>winput := r\<rparr>)"
  using assms
proof (induction l arbitrary: c p q w)
  case Nil
  then show ?case by (cases q) (simp_all add: read_line.simps ans_data_def ans_def got_def put_at_def)
next
  case (Cons b l)
  then obtain x q' where q: "q = x # q'" by (cases q) auto
  let ?w = "w\<lparr>winput := l @ 10 # r\<rparr>"
  have "lookup_fd ?w 0 = Some WIn" using Cons.prems(3) by (auto simp: lookup_fd_def split: if_splits)
  then have IH: "read_line world_os b (length (p @ [b])) ((p @ [b]) @ q') ?w =
      Some (length (p @ [b]) + length l, (p @ [b]) @ l @ 0 # drop (Suc (length l)) q', ?w\<lparr>winput := r\<rparr>)"
    using Cons.prems q by (intro Cons.IH) simp_all
  show ?case using Cons.prems q IH
    by (subst read_line.simps) (simp add: ans_data_def ans_def got_def put_at_def)
qed


definition xargs_world :: world where
  "xargs_world = \<lparr>wfds = std_fds, wpipes = [], winput = map of_char '' ab  c'' @ [10], woutput = [], werrors = [], wfork = [], wexec = 0\<rparr>"


end
