(* ===== verification/Primes.thy ===== *)
theory Primes
  imports Xargs
begin

text \<open>
  The sieve of the lab program \<^verbatim>\<open>user/primes.c\<close>, run in the system with pipes of \<open>Xargs\<close>.  Each process writes all its numbers before it
  forks, so that a run that follows the child at every \<open>fork\<close> passes through all the processes in their order.
\<close>

section \<open>Numbers in a pipe\<close>

definition ints :: "int list \<Rightarrow> bytes" where
  "ints ns = concat (map (\<lambda>n. enc_le 4 (word_of_int n :: uint)) ns)"

definition int_range :: "int \<Rightarrow> bool" where
  "int_range n \<longleftrightarrow> 0 < n \<and> n < 2 ^ 31"

lemma length_ints [simp]: "length (ints ns) = 4 * length ns"
  by (induction ns) (simp_all add: ints_def)

lemma ints_simps [simp]: "ints [] = []" "ints (n # ns) = enc_le 4 (word_of_int n :: uint) @ ints ns" "ints (ms @ ns) = ints ms @ ints ns"
  by (simp_all add: ints_def)

lemma dec_int:
  assumes "int_range n"
  shows "sint (dec_le (enc_le 4 (word_of_int n :: uint)) :: uint) = n"
proof -
  have "dec_le (enc_le 4 (word_of_int n :: uint)) = (word_of_int n :: uint)" by (simp add: dec_enc_le take_bit_word_eq_self)
  moreover have "sint (word_of_int n :: uint) = n"
    using assms by (simp add: int_range_def sint_sbintrunc' signed_take_bit_int_eq_self)
  ultimately show ?thesis by simp
qed

lemma c_rem_dvd:
  assumes "int_range p" "int_range n"
  shows "c_rem n p = 0 \<longleftrightarrow> p dvd n"
  using assms by (simp add: c_rem_def int_range_def dvd_eq_mod_eq_0)

lemma read_int_world:
  assumes "lookup_fd w fd = Some (WPipeR k)" "k < length (wpipes w)" "wpipes w ! k = ints (n # ns)" "int_range n"
  shows "read_int world_os fd m w = Some (4, n, w\<lparr>wpipes := (wpipes w)[k := ints ns]\<rparr>)"
proof -
  have "enc_le 4 (word_of_int n :: uint) \<noteq> []" by (metis length_enc_le list.size(3) zero_neq_numeral)
  then show ?thesis using assms dec_int [OF assms(4)] by (simp add: read_int_def ans_data_def ans_def splice_at_def)
qed

lemma write_int_world:
  assumes "lookup_fd w fd = Some (WPipeW k)" "length (wpipes w ! k) + 4 \<le> PIPESIZE"
  shows "write_int world_os fd n w = Some (4, w\<lparr>wpipes := (wpipes w)[k := wpipes w ! k @ ints [n]]\<rparr>)"
  using assms by (simp add: write_int_def call_def ans_def)

lemma lookup_fd_cong [simp]: "lookup_fd (w\<lparr>wpipes := p\<rparr>) fd = lookup_fd w fd" "lookup_fd (w\<lparr>woutput := out\<rparr>) fd = lookup_fd w fd"
  by (simp_all add: lookup_fd_def)

section \<open>One process of the sieve\<close>

lemma primes_filter_world:
  assumes "lookup_fd w rfd = Some (WPipeR k)" "lookup_fd w wfd = Some (WPipeW j)" "j \<noteq> k" "k < length (wpipes w)" "j < length (wpipes w)"
    and "Some (WPipeW k) \<notin> set (wfds w)" "wpipes w ! k = ints xs" "wpipes w ! j = ints ys"
    and "\<forall>x\<in>set xs. int_range x" "int_range p" "4 * (length xs + length ys) \<le> PIPESIZE"
  shows "\<exists>m. primes_filter world_os rfd wfd p num_2 cnt w =
    Some (m, cnt + int (length xs), w\<lparr>wpipes := (wpipes w)[k := [], j := ints (ys @ filter (\<lambda>x. \<not> p dvd x) xs)]\<rparr>)"
  using assms
proof (induction xs arbitrary: ys w num_2 cnt)
  case Nil
  have "(wpipes w)[k := []] = wpipes w" "(wpipes w)[j := ints ys] = wpipes w"
    using Nil.prems(7,8) by (metis ints_simps(1) list_update_id)+
  then show ?case using Nil by (subst primes_filter.simps) (simp add: read_int_def ans_data_def ans_def)
next
  case (Cons x xs)
  let ?u = "w\<lparr>wpipes := (wpipes w)[k := ints xs]\<rparr>" and ?zs = "if p dvd x then ys else ys @ [x]"
  let ?v = "w\<lparr>wpipes := (wpipes w)[k := ints xs, j := ints (if p dvd x then ys else ys @ [x])]\<rparr>"
  have "wpipes w ! j = ints ys" by fact
  then have same: "(wpipes w)[k := ints xs, j := ints ys] = (wpipes w)[k := ints xs]"
    using Cons.prems(3) by (metis list_update_id nth_list_update_neq)
  have rd: "read_int world_os rfd num_2 w = Some (4, x, ?u)" using Cons.prems by (intro read_int_world) simp_all
  have wr: "(if c_rem x p \<noteq> 0 then map_option snd (write_int world_os wfd x ?u) else Some ?u) = Some ?v"
    using Cons.prems c_rem_dvd [of p x] write_int_world [of ?u wfd j x] same by (simp add: list_update_swap)
  have "\<exists>m. primes_filter world_os rfd wfd p x (cnt + 1) ?v =
      Some (m, cnt + 1 + int (length xs), ?v\<lparr>wpipes := (wpipes ?v)[k := [], j := ints (?zs @ filter (\<lambda>x. \<not> p dvd x) xs)]\<rparr>)"
    using Cons.prems by (intro Cons.IH) simp_all
  then obtain m where "primes_filter world_os rfd wfd p x (cnt + 1) ?v =
      Some (m, cnt + 1 + int (length xs), ?v\<lparr>wpipes := (wpipes ?v)[k := [], j := ints (?zs @ filter (\<lambda>x. \<not> p dvd x) xs)]\<rparr>)" ..
  moreover have "(wpipes ?v)[k := [], j := ints (?zs @ filter (\<lambda>x. \<not> p dvd x) xs)] =
      (wpipes w)[k := [], j := ints (ys @ filter (\<lambda>x. \<not> p dvd x) (x # xs))]"
    using Cons.prems(3) by (simp add: list_update_swap)
  ultimately show ?case using rd wr by (subst primes_filter.simps) (simp add: algebra_simps)
qed

lemma putc_world:
  assumes "lookup_fd w 1 = Some WOut"
  shows "each (putc world_os 1) out w = Some (w\<lparr>woutput := woutput w @ out\<rparr>)"
  using assms by (induction out arbitrary: w) (simp_all add: putc_def doing_def)

text \<open>The line that is printed for a number below 100.\<close>

definition prime_line :: "int \<Rightarrow> bytes" where
  "prime_line p = map of_char ''prime '' @ (if p < 10 then [48 + word_of_int p] else [48 + word_of_int (p div 10), 48 + word_of_int (p mod 10)]) @ [10]"

definition printable :: "int \<Rightarrow> bool" where
  "printable p \<longleftrightarrow> vprintf (line ''prime %d'') [IntArg p] = Some (prime_line p)"

text \<open>The descriptors of a process of the sieve: besides the standard ones, the pipe that it reads from.\<close>

definition sieve_fds :: "nat \<Rightarrow> nat \<Rightarrow> wobj option list" where
  "sieve_fds r k = std_fds[r := Some (WPipeR k)]"

lemma free_fd_eq: "free_fd (map Some xs @ None # ys) = Some (length xs)"
  by (auto simp: free_fd_def find_Some_iff nth_append simp del: upt_Suc intro!: exI [of _ "length xs"])

lemma sieve_fds_eq:
  "sieve_fds 3 k = map Some [WIn, WOut, WErr, WPipeR k] @ None # replicate 11 None"
  "sieve_fds 4 k = map Some [WIn, WOut, WErr] @ None # Some (WPipeR k) # replicate 11 None"
  by (simp_all add: sieve_fds_def std_fds_def numeral_eq_Suc)

lemma sieve_fds_eq2:
  "(sieve_fds 3 k)[4 := Some (WPipeR j)] = map Some [WIn, WOut, WErr, WPipeR k, WPipeR j] @ None # replicate 10 None"
  "(sieve_fds 4 k)[3 := Some (WPipeR j)] = map Some [WIn, WOut, WErr, WPipeR j, WPipeR k] @ None # replicate 10 None"
  by (simp_all add: sieve_fds_def std_fds_def numeral_eq_Suc)

lemma sieve_pipe:
  assumes "r = 3 \<or> r = 4" "wfds w = sieve_fds r k"
  shows "world_pipe w = Some ((ans 0)\<lparr>ufds := (int (7 - r), 5)\<rparr>,
    w\<lparr>wfds := (sieve_fds r k)[7 - r := Some (WPipeR (length (wpipes w))), 5 := Some (WPipeW (length (wpipes w)))],
      wpipes := wpipes w @ [[]]\<rparr>)"
proof -
  let ?j = "length (wpipes w)"
  have "free_fd (sieve_fds r k) = Some (7 - r)"
    using assms(1) by (elim disjE) (simp_all only: sieve_fds_eq free_fd_eq, simp_all)
  moreover have "free_fd ((sieve_fds r k)[7 - r := Some (WPipeR ?j)]) = Some 5"
  proof (use assms(1) in \<open>elim disjE\<close>)
    assume "r = 3"
    then have "(sieve_fds r k)[7 - r := Some (WPipeR ?j)] = map Some [WIn, WOut, WErr, WPipeR k, WPipeR ?j] @ None # replicate 10 None"
      using sieve_fds_eq2(1) by simp
    then show ?thesis using free_fd_eq [of "[WIn, WOut, WErr, WPipeR k, WPipeR ?j]"] by simp
  next
    assume "r = 4"
    then have "(sieve_fds r k)[7 - r := Some (WPipeR ?j)] = map Some [WIn, WOut, WErr, WPipeR ?j, WPipeR k] @ None # replicate 10 None"
      using sieve_fds_eq2(2) by simp
    then show ?thesis using free_fd_eq [of "[WIn, WOut, WErr, WPipeR ?j, WPipeR k]"] by simp
  qed
  ultimately show ?thesis using assms(2) by (simp add: world_pipe_def)
qed

lemma sieve_lookup:
  assumes "r = 3 \<or> r = 4" "wfds w = (sieve_fds r k)[7 - r := Some (WPipeR j), 5 := Some (WPipeW j)]"
  shows "lookup_fd w 1 = Some WOut" "lookup_fd w (int r) = Some (WPipeR k)" "lookup_fd w 5 = Some (WPipeW j)"
    "k \<noteq> j \<Longrightarrow> Some (WPipeW k) \<notin> set (wfds w)"
    "(wfds w)[r := None, 5 := None] = sieve_fds (7 - r) j"
  using assms by (auto simp: lookup_fd_def sieve_fds_def std_fds_def numeral_eq_Suc)

lemma primes_loop_world:
  assumes "r = 3 \<or> r = 4" "wfds w = sieve_fds r k" "k < length (wpipes w)" "wpipes w ! k = ints (p # xs)" "wfork w = []"
    and "\<forall>x\<in>set (p # xs). int_range x" "4 * length xs \<le> PIPESIZE" "printable p" "fst (mypipe (n mod 2)) = int r"
  shows "\<exists>num_2' mypipe' w'. primes_loop world_os n mypipe num_1 num_2 w =
      (if xs = [] then Some (Ended 0, w') else primes_loop world_os (n + 1) mypipe' p num_2' w') \<and>
    woutput w' = woutput w @ prime_line p \<and> wfork w' = [] \<and> wfds w' = sieve_fds (7 - r) (length (wpipes w)) \<and>
    length (wpipes w') = Suc (length (wpipes w)) \<and> wpipes w' ! length (wpipes w) = ints (filter (\<lambda>x. \<not> p dvd x) xs) \<and>
    fst (mypipe' ((n + 1) mod 2)) = int (7 - r)"
proof -
  let ?K = "length (wpipes w)" and ?zs = "filter (\<lambda>x. \<not> p dvd x) xs"
  define mp where "mp = mypipe((n + 1) mod 2 := (int (7 - r), 5))"
  define w1 where "w1 = w\<lparr>wfds := (sieve_fds r k)[7 - r := Some (WPipeR ?K), 5 := Some (WPipeW ?K)], wpipes := wpipes w @ [[]]\<rparr>"
  define w2 where "w2 = w1\<lparr>wpipes := (wpipes w1)[k := ints xs]\<rparr>"
  define w3 where "w3 = w2\<lparr>woutput := woutput w2 @ prime_line p\<rparr>"
  define w4 where "w4 = w3\<lparr>wpipes := (wpipes w3)[k := [], ?K := ints ?zs]\<rparr>"
  define w5 where "w5 = w4\<lparr>wfds := (wfds w4)[r := None, 5 := None]\<rparr>"
  have pipe: "world_os SysPipe w = Some ((ans 0)\<lparr>ufds := (int (7 - r), 5)\<rparr>, w1)" using sieve_pipe [OF assms(1,2)] by (simp add: w1_def)
  have "(n + 1) mod 2 \<noteq> n mod 2" by presburger
  then have mp: "fst (mp (n mod 2)) = int r" "mp ((n + 1) mod 2) = (int (7 - r), 5)" using assms(9) by (simp_all add: mp_def)
  note look = sieve_lookup [OF assms(1), of w1 k ?K] sieve_lookup [OF assms(1), of w2 k ?K] sieve_lookup [OF assms(1), of w3 k ?K]
    sieve_lookup [OF assms(1), of w4 k ?K]
  have fds: "wfds w1 = (sieve_fds r k)[7 - r := Some (WPipeR ?K), 5 := Some (WPipeW ?K)]" "wfds w2 = wfds w1" "wfds w3 = wfds w1" "wfds w4 = wfds w1"
    by (simp_all add: w1_def w2_def w3_def w4_def)
  have rd: "read_int world_os (int r) num_1 w1 = Some (4, p, w2)" unfolding w2_def
    using look(2) fds(1) assms(3,4,6) by (intro read_int_world) (simp_all add: w1_def nth_append)
  have "lookup_fd w2 1 = Some WOut" using look(6) fds by simp
  then have pr: "u_printf world_os (line ''prime %d'') [IntArg p] w2 = Some w3"
    using assms(8) by (simp add: u_printf_def fprintf_def printable_def putc_world w3_def)
  have "wpipes w3 ! k = ints xs" "wpipes w3 ! ?K = ints []" "length (wpipes w3) = Suc ?K"
    using assms(3) by (simp_all add: w1_def w2_def w3_def nth_append)
  then obtain m where fl: "primes_filter world_os (int r) 5 p num_2 1 w3 = Some (m, 1 + int (length xs), w4)"
    using primes_filter_world [of w3 "int r" k 5 ?K xs "[]" p num_2 1] look(12,13,14) fds assms(3,6,7) by (auto simp: w4_def)
  have "lookup_fd (w4\<lparr>wfds := (wfds w4)[r := None]\<rparr>) 5 = Some (WPipeW ?K)"
    using look(18) fds assms(1) by (auto simp: lookup_fd_def split: if_splits)
  then have cl: "doing world_os (SysClose (int r)) w4 = Some (w4\<lparr>wfds := (wfds w4)[r := None]\<rparr>)"
    "doing world_os (SysClose 5) (w4\<lparr>wfds := (wfds w4)[r := None]\<rparr>) = Some w5"
    using look(17) fds by (simp_all add: doing_def w5_def)
  have w5: "wfork w5 = []" "woutput w5 = woutput w @ prime_line p" "wfds w5 = sieve_fds (7 - r) ?K" "length (wpipes w5) = Suc ?K"
    "wpipes w5 ! ?K = ints ?zs"
    using assms(3,5) look(20) fds by (simp_all add: w5_def w4_def w3_def w2_def w1_def)
  have "primes_loop world_os n mypipe num_1 num_2 w =
      (if xs = [] then Some (Ended 0, w5) else primes_loop world_os (n + 1) mp p m w5)"
    using pipe mp rd pr fl cl w5(1) by (subst primes_loop.simps) (simp add: call_def ans_def Let_def mp_def [symmetric] del: fun_upd_apply)
  then show ?thesis using w5 mp(2) by (intro exI [of _ m] exI [of _ mp] exI [of _ w5]) simp
qed

section \<open>The chain of processes\<close>

function sieve :: "int list \<Rightarrow> int list" where
  "sieve [] = []"
| "sieve (p # xs) = p # sieve (filter (\<lambda>x. \<not> p dvd x) xs)"
  by pat_completeness auto
termination by (relation "measure length") (simp_all add: le_imp_less_Suc)

text \<open>No process but the last one is without a number to pass on.\<close>

function feeds :: "int list \<Rightarrow> bool" where
  "feeds [] \<longleftrightarrow> False"
| "feeds (p # xs) \<longleftrightarrow> xs = [] \<or> feeds (filter (\<lambda>x. \<not> p dvd x) xs)"
  by pat_completeness auto
termination by (relation "measure length") (simp_all add: le_imp_less_Suc)

lemma primes_loop_chain:
  assumes "r = 3 \<or> r = 4" "wfds w = sieve_fds r k" "k < length (wpipes w)" "wpipes w ! k = ints ns" "wfork w = []" "feeds ns"
    and "\<forall>x\<in>set ns. int_range x \<and> printable x" "4 * length ns \<le> PIPESIZE" "fst (mypipe (n mod 2)) = int r"
  shows "\<exists>w'. primes_loop world_os n mypipe num_1 num_2 w = Some (Ended 0, w') \<and>
    woutput w' = woutput w @ concat (map prime_line (sieve ns))"
  using assms
proof (induction ns arbitrary: r w k n mypipe num_1 num_2 rule: sieve.induct)
  case (2 p xs)
  have "\<forall>x\<in>set (p # xs). int_range x" "4 * length xs \<le> PIPESIZE" "printable p" using "2.prems"(7,8) by simp_all
  from primes_loop_world [where mypipe = mypipe and n = n, OF "2.prems"(1-5) this "2.prems"(9), of num_1 num_2] obtain m mp v where v:
    "primes_loop world_os n mypipe num_1 num_2 w = (if xs = [] then Some (Ended 0, v) else primes_loop world_os (n + 1) mp p m v)"
    "woutput v = woutput w @ prime_line p" "wfork v = []" "wfds v = sieve_fds (7 - r) (length (wpipes w))"
    "length (wpipes v) = Suc (length (wpipes w))" "wpipes v ! length (wpipes w) = ints (filter (\<lambda>x. \<not> p dvd x) xs)"
    "fst (mp ((n + 1) mod 2)) = int (7 - r)" by (elim exE conjE)
  show ?case
  proof (cases "xs = []")
    case True
    then show ?thesis using v(1,2) by simp
  next
    case False
    have len: "4 * length (filter (\<lambda>x. \<not> p dvd x) xs) \<le> PIPESIZE"
      using "2.prems"(8) length_filter_le [of "\<lambda>x. \<not> p dvd x" xs] by (simp del: length_filter_le)
    have r: "7 - r = 3 \<or> 7 - r = 4" using "2.prems"(1) by auto
    have ns: "feeds (filter (\<lambda>x. \<not> p dvd x) xs)" "\<forall>x\<in>set (filter (\<lambda>x. \<not> p dvd x) xs). int_range x \<and> printable x"
      using "2.prems"(6,7) False by simp_all
    have "\<exists>w'. primes_loop world_os (n + 1) mp p m v = Some (Ended 0, w') \<and>
        woutput w' = woutput v @ concat (map prime_line (sieve (filter (\<lambda>x. \<not> p dvd x) xs)))"
      using "2.IH" [where mypipe = mp and n = "n + 1", OF r v(4) _ v(6,3) ns len v(7)] v(5) by simp
    then show ?thesis using v(1,2) False by auto
  qed
qed simp

lemma write_ints_world:
  assumes "lookup_fd w fd = Some (WPipeW k)" "k < length (wpipes w)" "length (wpipes w ! k) + 4 * length ns \<le> PIPESIZE"
  shows "each (\<lambda>n w. map_option snd (write_int world_os fd n w)) ns w = Some (w\<lparr>wpipes := (wpipes w)[k := wpipes w ! k @ ints ns]\<rparr>)"
  using assms by (induction ns arbitrary: w) (simp_all add: write_int_world)

definition is_prime :: "int \<Rightarrow> bool" where
  "is_prime p \<longleftrightarrow> 1 < p \<and> (\<forall>d\<in>{2..<p}. \<not> d dvd p)"

lemma sieve_36: "sieve [2..35] = filter is_prime [2..35]" "feeds [2..35]"
  by code_simp+

lemma printable_36: "\<forall>x\<in>set [2..35]. printable x"
  by code_simp

text \<open>A process with the standard descriptors, after \<open>pipe\<close>.\<close>

definition piped :: "world \<Rightarrow> world" where
  "piped w = w\<lparr>wfds := (sieve_fds 3 (length (wpipes w)))[4 := Some (WPipeW (length (wpipes w)))], wpipes := wpipes w @ [[]]\<rparr>"

lemma std_pipe:
  assumes "wfds w = std_fds"
  shows "world_pipe w = Some ((ans 0)\<lparr>ufds := (3, 4)\<rparr>, piped w)"
proof -
  let ?k = "length (wpipes w)"
  have "free_fd std_fds = Some 3" using free_fd_eq [of "[WIn, WOut, WErr]" "replicate 12 None"] by (simp add: std_fds_def numeral_eq_Suc)
  moreover have "free_fd (std_fds[3 := Some (WPipeR ?k)]) = Some 4"
    using free_fd_eq [of "[WIn, WOut, WErr, WPipeR ?k]"] sieve_fds_eq(1) [of ?k] by (simp add: sieve_fds_def)
  ultimately show ?thesis using assms by (simp add: world_pipe_def piped_def sieve_fds_def)
qed

definition fresh_world :: "int list \<Rightarrow> world" where
  "fresh_world rs = \<lparr>wfds = std_fds, wpipes = [], winput = [], woutput = [], werrors = [], wfork = rs, wexec = 0\<rparr>"

text \<open>The process at its first \<open>fork\<close>.\<close>

definition forked_world :: "int list \<Rightarrow> world" where
  "forked_world rs = piped (fresh_world rs)"

lemma forked_world_eq: "forked_world rs = (fresh_world rs)\<lparr>wfds := (sieve_fds 3 0)[4 := Some (WPipeW 0)], wpipes := [[]]\<rparr>"
  by (simp add: forked_world_def piped_def fresh_world_def)

lemma fresh_pipe: "world_pipe (fresh_world rs) = Some ((ans 0)\<lparr>ufds := (3, 4)\<rparr>, forked_world rs)"
  unfolding forked_world_def by (rule std_pipe) (simp add: fresh_world_def)


end
