(* ===== verification/ShRun.thy ===== *)
theory ShRun
  imports Sh Primes
begin

text \<open>
  The rest of the shell \<^verbatim>\<open>user/sh.c\<close>: how it runs a command, and its loop over the command lines; and \<^verbatim>\<open>user/init.c\<close>, which starts the
  shell.  \<open>runcmd\<close> never returns, so that it gives how the process ends.  A command has its strings in place of the pointers to them.
\<close>

section \<open>Running a command\<close>

definition sh_panic :: "'s os \<Rightarrow> string \<Rightarrow> 's \<Rightarrow> (stop \<times> 's) option" where
  "sh_panic os msg s = do { s \<leftarrow> fprintf os 2 (line ''%s'') [StrArg (Some (cstring msg))] s; Some (Ended 1, s) }"

definition fork1 :: "'s os \<Rightarrow> (int \<Rightarrow> 's \<Rightarrow> (stop \<times> 's) option) \<Rightarrow> 's \<Rightarrow> (stop \<times> 's) option" where
  "fork1 os k s = do { (r, s) \<leftarrow> call os SysFork s; (if r = -1 then sh_panic os ''fork'' s else k r s) }"

primrec runcmd :: "'s os \<Rightarrow> bytes cmd \<Rightarrow> 's \<Rightarrow> (stop \<times> 's) option" where
  "runcmd os (ExecCmd argv) s =
     (if argv = [] then Some (Ended 1, s)
      else exec_or os (hd argv) argv
        (\<lambda>s. do { s \<leftarrow> fprintf os 2 (line ''exec %s failed'') [StrArg (Some (hd argv))] s; Some (Ended 0, s) }) s)"
| "runcmd os (RedirCmd c name mode fd) s = do {
     s \<leftarrow> doing os (SysClose fd) s;
     (r, s) \<leftarrow> call os (SysOpen name (word_of_int mode)) s;
     (if r < 0 then do { s \<leftarrow> fprintf os 2 (line ''open %s failed'') [StrArg (Some name)] s; Some (Ended 1, s) }
      else runcmd os c s)
   }"
| "runcmd os (ListCmd l r) s =
     fork1 os (\<lambda>p s. if p = 0 then runcmd os l s else do { s \<leftarrow> doing os SysWait s; runcmd os r s }) s"
| "runcmd os (PipeCmd l r) s = do {
     (a, s) \<leftarrow> os SysPipe s;
     (if uret a < 0 then sh_panic os ''pipe'' s
      else
        let p0 = fst (ufds a); p1 = snd (ufds a)
        in fork1 os (\<lambda>p s.
          if p = 0 then do {
            s \<leftarrow> doing os (SysClose 1) s;
            s \<leftarrow> doing os (SysDup p1) s;
            s \<leftarrow> doing os (SysClose p0) s;
            s \<leftarrow> doing os (SysClose p1) s;
            runcmd os l s
          }
          else fork1 os (\<lambda>p s.
            if p = 0 then do {
              s \<leftarrow> doing os (SysClose 0) s;
              s \<leftarrow> doing os (SysDup p0) s;
              s \<leftarrow> doing os (SysClose p0) s;
              s \<leftarrow> doing os (SysClose p1) s;
              runcmd os r s
            }
            else do {
              s \<leftarrow> doing os (SysClose p0) s;
              s \<leftarrow> doing os (SysClose p1) s;
              s \<leftarrow> doing os SysWait s;
              s \<leftarrow> doing os SysWait s;
              Some (Ended 0, s)
            }) s) s)
   }"
| "runcmd os (BackCmd c) s = fork1 os (\<lambda>p s. if p = 0 then runcmd os c s else Some (Ended 0, s)) s"

section \<open>The loop of the shell\<close>

text \<open>\<open>read\<close> as \<open>gets\<close> calls it: after a call that does not return there is no state.\<close>

definition os_read :: "'s os \<Rightarrow> int \<Rightarrow> 's option read" where
  "os_read os fd s n =
     (case Option.bind s (os (SysRead fd n)) of None \<Rightarrow> (0, [], None) | Some (a, s) \<Rightarrow> (uret a, udata a, Some s))"

definition getcmd :: "'s os \<Rightarrow> nat \<Rightarrow> 's \<Rightarrow> (int \<times> bytes \<times> 's) option" where
  "getcmd os nbuf s = do {
     s \<leftarrow> fprintf os 2 (cstring ''$ '') [] s;
     (buf, s) \<leftarrow> gets (os_read os 0) (replicate nbuf 0) (int nbuf) (Some s);
     s \<leftarrow> s;
     Some (if buf ! 0 = 0 then -1 else 0, buf, s)
   }"

text \<open>The child: \<open>runcmd(parsecmd(buf))\<close>.\<close>

definition runline :: "'s os \<Rightarrow> bytes \<Rightarrow> 's \<Rightarrow> (stop \<times> 's) option" where
  "runline os buf s =
     (case parsecmd buf of
        Parsed (c, buf) \<Rightarrow> runcmd os (map_cmd (\<lambda>(q, _). drop (length buf - length q) buf) c) s
      | Panic msg \<Rightarrow> sh_panic os msg s
      | Leftovers ps \<Rightarrow> do { s \<leftarrow> fprintf os 2 (line ''leftovers: %s'') [StrArg (Some ps)] s; sh_panic os ''syntax'' s }
      | Undef \<Rightarrow> None
      | Deep \<Rightarrow> None)"

partial_function (option) sh_loop :: "'s os \<Rightarrow> 's \<Rightarrow> (stop \<times> 's) option" where
  "sh_loop os s = do {
     (r, buf, s) \<leftarrow> getcmd os 100 s;
     (if r < 0 then Some (Ended 0, s)
      else if take 3 buf = map of_char ''cd '' then do {
        n \<leftarrow> u_strlen buf;
        let buf = buf[n - 1 := 0];
        (r, s) \<leftarrow> call os (SysChdir (drop 3 buf)) s;
        s \<leftarrow> (if r < 0 then fprintf os 2 (line ''cannot cd %s'') [StrArg (Some (drop 3 buf))] s else Some s);
        sh_loop os s
      }
      else do {
        (r, s) \<leftarrow> call os SysFork s;
        (if r = -1 then sh_panic os ''fork'' s
         else if r = 0 then runline os buf s
         else do { s \<leftarrow> doing os SysWait s; sh_loop os s })
      })
   }"

text \<open>\<open>main\<close>: the loop that makes sure that three descriptors are open, and the loop above.\<close>

partial_function (option) sh_open :: "'s os \<Rightarrow> 's \<Rightarrow> 's option" where
  "sh_open os s = do {
     (fd, s) \<leftarrow> call os (SysOpen (cstring ''console'') O_RDWR) s;
     (if fd < 0 then Some s
      else if 3 \<le> fd then doing os (SysClose fd) s
      else sh_open os s)
   }"

definition sh_main :: "'s os \<Rightarrow> 's \<Rightarrow> (stop \<times> 's) option" where
  "sh_main os s = do { s \<leftarrow> sh_open os s; sh_loop os s }"

section \<open>init\<close>

text \<open>The inner loop gives \<open>False\<close> when \<open>wait\<close> fails.\<close>

partial_function (option) init_wait :: "'s os \<Rightarrow> int \<Rightarrow> 's \<Rightarrow> (bool \<times> 's) option" where
  "init_wait os p s = do {
     (wpid, s) \<leftarrow> call os SysWait s;
     (if wpid = p then Some (True, s)
      else if wpid < 0 then Some (False, s)
      else init_wait os p s)
   }"

partial_function (option) init_loop :: "'s os \<Rightarrow> 's \<Rightarrow> (stop \<times> 's) option" where
  "init_loop os s = do {
     s \<leftarrow> u_printf os (line ''init: starting sh'') [] s;
     (p, s) \<leftarrow> call os SysFork s;
     (if p < 0 then do { s \<leftarrow> u_printf os (line ''init: fork failed'') [] s; Some (Ended 1, s) }
      else if p = 0 then exec_or os (cstring ''sh'') [cstring ''sh'']
        (\<lambda>s. do { s \<leftarrow> u_printf os (line ''init: exec sh failed'') [] s; Some (Ended 1, s) }) s
      else do {
        (again, s) \<leftarrow> init_wait os p s;
        (if again then init_loop os s
         else do { s \<leftarrow> u_printf os (line ''init: wait returned an error'') [] s; Some (Ended 1, s) })
      })
   }"

definition init_main :: "'s os \<Rightarrow> 's \<Rightarrow> (stop \<times> 's) option" where
  "init_main os s = do {
     (r, s) \<leftarrow> call os (SysOpen (cstring ''console'') O_RDWR) s;
     s \<leftarrow> (if r < 0 then do {
             s \<leftarrow> doing os (SysMknod (cstring ''console'') CONSOLE 0) s;
             doing os (SysOpen (cstring ''console'') O_RDWR) s
           }
           else Some s);
     s \<leftarrow> doing os (SysDup 0) s;
     s \<leftarrow> doing os (SysDup 0) s;
     init_loop os s
   }"

section \<open>The wiring of a pipe\<close>

lemma close_world:
  assumes "wfds w = xs @ Some f # ys" "fd = int (length xs)"
  shows "doing world_os (SysClose fd) w = Some (w\<lparr>wfds := xs @ None # ys\<rparr>)"
  using assms by (simp add: doing_def lookup_fd_def)

lemma dup_world:
  assumes "wfds w = map Some xs @ None # ys" "lookup_fd w fd = Some f"
  shows "doing world_os (SysDup fd) w = Some (w\<lparr>wfds := map Some (xs @ [f]) @ ys\<rparr>)"
  using assms free_fd_eq [of xs ys] by (simp add: doing_def list_update_append)

lemma fork1_world:
  "wfork w = [] \<Longrightarrow> fork1 world_os k w = k 0 w"
  "wfork w = (1 + int p) # rs \<Longrightarrow> fork1 world_os k w = k (1 + int p) (w\<lparr>wfork := rs\<rparr>)"
  by (simp_all add: fork1_def call_def ans_def)

lemma std_fds_eq:
  "std_fds = Some WIn # Some WOut # Some WErr # None # None # replicate 11 None"
  "(sieve_fds 3 k)[4 := Some f] = Some WIn # Some WOut # Some WErr # Some (WPipeR k) # Some f # replicate 11 None"
  by (simp_all add: sieve_fds_def std_fds_def numeral_eq_Suc)


end
