(* ===== verification/Umalloc.thy ===== *)
theory Umalloc
  imports ULib
begin

text \<open>
  The allocator of the user library, \<^verbatim>\<open>user/umalloc.c\<close>: a circular list of free blocks in the order of their addresses.  Addresses are
  natural numbers and 0 is the null pointer; the fields of the header at an address are maps.  The state of the kernel is the field
  \<open>usys\<close>, and \<open>sbrk\<close> is an interface: \<^term>\<open>None\<close> when the call does not return, and no address for its result -1.
\<close>

record 's uheap =
  hptr :: "nat \<Rightarrow> nat"
  hsize :: "nat \<Rightarrow> uint"
  freep :: nat
  usys :: 's

type_synonym 's sbrk = "int \<Rightarrow> 's \<Rightarrow> (nat option \<times> 's) option"

definition sizeof_Header :: nat where
  "sizeof_Header = 16"

text \<open>\<open>p + p->s.size\<close>\<close>

definition block_end :: "'s uheap \<Rightarrow> nat \<Rightarrow> nat" where
  "block_end st p = p + sizeof_Header * unat (hsize st p)"

text \<open>The loop of \<open>free\<close>.\<close>

partial_function (option) free_from :: "'s uheap \<Rightarrow> nat \<Rightarrow> nat \<Rightarrow> nat option" where
  "free_from st bp p =
     (if p < bp \<and> bp < hptr st p then Some p
      else if hptr st p \<le> p \<and> (p < bp \<or> bp < hptr st p) then Some p
      else free_from st bp (hptr st p))"

definition free :: "nat \<Rightarrow> 's uheap \<Rightarrow> 's uheap option" where
  "free ap st = do {
     let bp = ap - sizeof_Header;
     p \<leftarrow> free_from st bp (freep st);
     let nxt = hptr st p;
     let st = (if block_end st bp = nxt
               then st\<lparr>hptr := (hptr st)(bp := hptr st nxt), hsize := (hsize st)(bp := hsize st bp + hsize st nxt)\<rparr>
               else st\<lparr>hptr := (hptr st)(bp := nxt)\<rparr>);
     let st = (if block_end st p = bp
               then st\<lparr>hptr := (hptr st)(p := hptr st bp), hsize := (hsize st)(p := hsize st p + hsize st bp)\<rparr>
               else st\<lparr>hptr := (hptr st)(p := bp)\<rparr>);
     Some (st\<lparr>freep := p\<rparr>)
   }"

text \<open>A call that asks the kernel for memory returns, or the kernel stops; \<^term>\<open>None\<close> remains for loops that do not end.\<close>

datatype 'a outcome = Returns 'a | Stops

text \<open>The argument of \<open>sbrk\<close> is an \<open>int\<close>.\<close>

definition morecore :: "'s sbrk \<Rightarrow> uint \<Rightarrow> 's uheap \<Rightarrow> (nat \<times> 's uheap) outcome option" where
  "morecore sbrk nu st =
     (let nu = (if nu < 4096 then 4096 else nu)
      in case sbrk (sint (of_nat (unat nu * sizeof_Header) :: uint)) (usys st) of
           None \<Rightarrow> Some Stops
         | Some (None, k) \<Rightarrow> Some (Returns (0, st\<lparr>usys := k\<rparr>))
         | Some (Some hp, k) \<Rightarrow> do {
             st \<leftarrow> free (hp + sizeof_Header) (st\<lparr>hsize := (hsize st)(hp := nu), usys := k\<rparr>);
             Some (Returns (freep st, st))
           })"

partial_function (option) malloc_loop ::
  "'s sbrk \<Rightarrow> uint \<Rightarrow> nat \<Rightarrow> nat \<Rightarrow> 's uheap \<Rightarrow> (nat \<times> 's uheap) outcome option" where
  "malloc_loop sbrk nunits prevp p st =
     (if nunits \<le> hsize st p
      then if hsize st p = nunits
        then Some (Returns (p + sizeof_Header, st\<lparr>hptr := (hptr st)(prevp := hptr st p), freep := prevp\<rparr>))
        else let st = st\<lparr>hsize := (hsize st)(p := hsize st p - nunits)\<rparr>;
                 q = block_end st p
             in Some (Returns (q + sizeof_Header, st\<lparr>hsize := (hsize st)(q := nunits), freep := prevp\<rparr>))
      else if p = freep st
      then Option.bind (morecore sbrk nunits st) (\<lambda>r. case r of
             Stops \<Rightarrow> Some Stops
           | Returns (p, st) \<Rightarrow> if p = 0 then Some (Returns (0, st)) else malloc_loop sbrk nunits p (hptr st p) st)
      else malloc_loop sbrk nunits p (hptr st p) st)"

definition units :: "uint \<Rightarrow> uint" where
  "units nbytes = ucast ((ucast nbytes + of_nat sizeof_Header - 1 :: uint64) div of_nat sizeof_Header + 1)"

definition malloc :: "'s sbrk \<Rightarrow> nat \<Rightarrow> uint \<Rightarrow> 's uheap \<Rightarrow> (nat \<times> 's uheap) outcome option" where
  "malloc sbrk base nbytes st =
     (let nunits = units nbytes;
          st = (if freep st = 0 then st\<lparr>hptr := (hptr st)(base := base), hsize := (hsize st)(base := 0), freep := base\<rparr> else st);
          prevp = freep st
      in malloc_loop sbrk nunits prevp (hptr st prevp) st)"

section \<open>Circular lists\<close>

text \<open>Every element points to the next, and the last to \<open>z\<close>.\<close>

fun linked :: "(nat \<Rightarrow> nat) \<Rightarrow> nat list \<Rightarrow> nat \<Rightarrow> bool" where
  "linked f [] z = True"
| "linked f (x # xs) z = (f x = hd (xs @ [z]) \<and> linked f xs z)"

lemma linked_append: "linked f (xs @ ys) z \<longleftrightarrow> linked f xs (hd (ys @ [z])) \<and> linked f ys z"
  by (induction xs) (auto simp: hd_append)

lemma linked_upd [simp]: "a \<notin> set xs \<Longrightarrow> linked (f(a := b)) xs z = linked f xs z"
  by (induction xs) auto

definition free_list :: "nat \<Rightarrow> 's uheap \<Rightarrow> nat list \<Rightarrow> bool" where
  "free_list base st xs \<longleftrightarrow> (\<exists>ys. xs = base # ys) \<and> sorted_wrt (<) xs \<and> linked (hptr st) xs base \<and> freep st \<in> set xs"

lemma free_from_low:
  assumes "linked (hptr st) (us @ ws @ p # vs) base" "hd (us @ ws @ p # vs) = base" "sorted_wrt (<) (us @ ws @ p # vs)"
    and "p < bp" "\<forall>v\<in>set vs. bp < v"
  shows "free_from st bp (hd (ws @ [p])) = Some p"
  using assms(1-3)
proof (induction ws arbitrary: us)
  case Nil
  have n: "hptr st p = hd (vs @ [base])" using Nil(1) by (simp add: linked_append)
  have "base \<le> p" using Nil(2,3) by (cases us) (auto simp: sorted_wrt_append)
  then show ?case using n assms(4,5) by (cases vs; subst free_from.simps) simp_all
next
  case (Cons x ws)
  let ?y = "hd (ws @ [p])"
  have "hptr st x = ?y" using Cons.prems(1) by (cases ws) (simp_all add: linked_append)
  moreover have "x < ?y" "?y < bp" using Cons.prems(3) assms(4) by (cases ws; auto simp: sorted_wrt_append)+
  ultimately have "free_from st bp x = free_from st bp ?y" by (subst free_from.simps) simp
  then show ?case using Cons.IH [of "us @ [x]"] Cons.prems by simp
qed

lemma free_from_high:
  assumes "linked (hptr st) (us @ x # ws) base" "sorted_wrt (<) (us @ x # ws)" "base < bp" "bp < x"
  shows "free_from st bp x = free_from st bp base"
  using assms
proof (induction ws arbitrary: us x)
  case Nil
  then have "hptr st x = base" by (simp add: linked_append)
  then show ?case using Nil by (subst free_from.simps) simp
next
  case (Cons y ws)
  have "hptr st x = y" "x < y" using Cons.prems(1,2) by (simp_all add: linked_append sorted_wrt_append)
  moreover from this have "free_from st bp x = free_from st bp y" using Cons.prems(4) by (subst free_from.simps) simp
  ultimately show ?case using Cons.IH [of "us @ [x]" y] Cons.prems by simp
qed

text \<open>\<open>free\<close> finds the last block below the freed one.\<close>

lemma free_from_eq:
  assumes xs: "free_list base st (us @ p # vs)" and p: "base < bp" "p < bp" "\<forall>v\<in>set vs. bp < v"
  shows "free_from st bp (freep st) = Some p"
proof -
  let ?xs = "us @ p # vs"
  have l: "linked (hptr st) ?xs base" "hd ?xs = base" "sorted_wrt (<) ?xs" "freep st \<in> set ?xs"
    using xs by (auto simp: free_list_def)
  have low: "free_from st bp x = Some p" if x: "x \<in> set (us @ [p])" for x
  proof -
    obtain u w where w: "us @ [p] = u @ x # w" using split_list [OF x] by blast
    show ?thesis
    proof (cases w rule: rev_cases)
      case Nil
      then show ?thesis using w free_from_low [of st us "[]" p vs base bp] l p by simp
    next
      case (snoc w' y)
      then have "us = u @ x # w'" using w by simp
      then show ?thesis using free_from_low [of st u "x # w'" p vs base bp] l p by simp
    qed
  qed
  show ?thesis
  proof (cases "freep st \<in> set (us @ [p])")
    case False
    then have "freep st \<in> set vs" using l(4) by auto
    then obtain u w where "vs = u @ freep st # w" using split_list [of "freep st" vs] by blast
    then have "free_from st bp (freep st) = free_from st bp base"
      using free_from_high [of st "us @ p # u" "freep st" w base bp] l p by simp
    moreover have "base \<in> set (us @ [p])" using l(2) by (cases us) auto
    ultimately show ?thesis using low by simp
  qed (use low in blast)
qed

section \<open>Blocks\<close>

text \<open>The blocks at the addresses \<open>B\<close> fill the memory between \<open>lo\<close> and \<open>hi\<close> and do not overlap.\<close>

definition block :: "(nat \<Rightarrow> uint) \<Rightarrow> nat \<Rightarrow> nat set" where
  "block ws a = {a..<a + sizeof_Header * unat (ws a)}"

definition tiles :: "(nat \<Rightarrow> uint) \<Rightarrow> nat set \<Rightarrow> nat \<Rightarrow> nat \<Rightarrow> bool" where
  "tiles ws B lo hi \<longleftrightarrow> finite B \<and> lo \<le> hi \<and> (\<forall>a\<in>B. ws a \<noteq> 0) \<and> (\<forall>a\<in>B. \<forall>b\<in>B. a \<noteq> b \<longrightarrow> block ws a \<inter> block ws b = {}) \<and>
     (\<Union>a\<in>B. block ws a) = {lo..<hi}"

lemma tiles_block:
  assumes "tiles ws B lo hi" "a \<in> B"
  shows "lo \<le> a" "a + sizeof_Header * unat (ws a) \<le> hi" "0 < unat (ws a)" "a < hi"
proof -
  show pos: "0 < unat (ws a)" using assms by (auto simp: tiles_def unat_gt_0)
  have "block ws a \<subseteq> {lo..<hi}" using assms by (auto simp: tiles_def)
  moreover have "a \<in> block ws a" "a + sizeof_Header * unat (ws a) - 1 \<in> block ws a" using pos by (auto simp: block_def sizeof_Header_def)
  ultimately show "lo \<le> a" "a < hi" "a + sizeof_Header * unat (ws a) \<le> hi" by (auto simp: subset_iff)
qed

lemma tiles_disjoint: "tiles ws B lo hi \<Longrightarrow> a \<in> B \<Longrightarrow> b \<in> B \<Longrightarrow> a \<noteq> b \<Longrightarrow> block ws a \<inter> block ws b = {}"
  by (auto simp: tiles_def)

lemma tiles_cong: "(\<And>a. a \<in> B \<Longrightarrow> ws a = ws' a) \<Longrightarrow> tiles ws B lo hi \<longleftrightarrow> tiles ws' B lo hi"
  by (simp add: tiles_def block_def cong: SUP_cong_simp)

text \<open>Replacing a block by blocks for the same memory.\<close>

lemma tiles_replace:
  assumes t: "tiles ws B lo hi" and C: "C \<subseteq> B" and D: "finite D" "\<And>a. a \<in> D \<Longrightarrow> ws' a \<noteq> 0"
    "\<And>a b. a \<in> D \<Longrightarrow> b \<in> D \<Longrightarrow> a \<noteq> b \<Longrightarrow> block ws' a \<inter> block ws' b = {}"
    and eq: "(\<Union>a\<in>D. block ws' a) = (\<Union>a\<in>C. block ws a)" and same: "\<And>a. a \<in> B - C \<Longrightarrow> ws' a = ws a"
  shows "tiles ws' (B - C \<union> D) lo hi"
proof -
  have blk: "block ws' a = block ws a" if "a \<in> B - C" for a using same [OF that] by (simp add: block_def)
  have apart: "block ws' a \<inter> block ws' d = {}" if "a \<in> B - C" "d \<in> D" for a d
  proof -
    have "block ws' d \<subseteq> (\<Union>a\<in>C. block ws a)" using that(2) eq by blast
    moreover have "block ws a \<inter> block ws c = {}" if "c \<in> C" for c
      using tiles_disjoint [OF t, of a c] \<open>a \<in> B - C\<close> that C by blast
    ultimately show ?thesis using blk [OF that(1)] by blast
  qed
  have "(\<Union>a\<in>B - C \<union> D. block ws' a) = (\<Union>a\<in>B - C. block ws a) \<union> (\<Union>a\<in>C. block ws a)" using eq blk by auto
  also have "\<dots> = (\<Union>a\<in>B. block ws a)" using C by blast
  also have "\<dots> = {lo..<hi}" using t by (simp add: tiles_def)
  finally have cover: "(\<Union>a\<in>B - C \<union> D. block ws' a) = {lo..<hi}" .
  have "block ws' a \<inter> block ws' b = {}" if ab: "a \<in> B - C \<union> D" "b \<in> B - C \<union> D" "a \<noteq> b" for a b
  proof (cases "a \<in> D")
    case True
    then show ?thesis using ab D(3) [of a b] apart [of b a] by (auto simp: Int_commute)
  next
    case False
    then have "a \<in> B - C" using ab by blast
    then show ?thesis using ab apart [of a b] blk tiles_disjoint [OF t, of a b] by (cases "b \<in> D") simp_all
  qed
  then show ?thesis using t D(1,2) same cover unfolding tiles_def by auto
qed

lemma tiles_merge:
  assumes t: "tiles ws B lo hi" and B: "a \<in> B" "b \<in> B" "b = a + sizeof_Header * unat (ws a)" and hi: "hi < 2 ^ 31"
  shows "tiles (ws(a := ws a + ws b)) (B - {b}) lo hi" "unat (ws a + ws b) = unat (ws a) + unat (ws b)"
proof -
  have pos: "0 < unat (ws a)" "a \<noteq> b" using tiles_block(3) [OF t B(1)] B(3) by (auto simp: sizeof_Header_def)
  have "unat (ws a) + unat (ws b) < 2 ^ 32" using tiles_block(2) [OF t B(2)] B(3) hi by (simp add: sizeof_Header_def)
  then show sum: "unat (ws a + ws b) = unat (ws a) + unat (ws b)" by (simp add: unat_word_ariths)
  then have "ws a + ws b \<noteq> 0" using pos by (metis add_gr_0 unat_0 less_irrefl)
  moreover have "block (ws(a := ws a + ws b)) a = block ws a \<union> block ws b"
    using sum by (auto simp: block_def B(3) distrib_left)
  ultimately have "tiles (ws(a := ws a + ws b)) (B - {a, b} \<union> {a}) lo hi" using B(1,2) pos(2) by (intro tiles_replace [OF t]) auto
  moreover have "B - {a, b} \<union> {a} = B - {b}" using B(1) pos(2) by auto
  ultimately show "tiles (ws(a := ws a + ws b)) (B - {b}) lo hi" by simp
qed

lemma tiles_split:
  assumes t: "tiles ws B lo hi" and B: "a \<in> B" "n < ws a" "n \<noteq> 0" and q: "q = a + sizeof_Header * unat (ws a - n)"
  shows "tiles (ws(a := ws a - n, q := n)) (insert q B) lo hi" "q \<notin> B"
proof -
  have sub: "unat (ws a - n) = unat (ws a) - unat n" using B(2) by (simp add: unat_sub)
  have n: "0 < unat n" "unat n < unat (ws a)" using B(2,3) by (simp_all add: unat_gt_0 word_less_nat_alt)
  then have ne: "a \<noteq> q" "ws a - n \<noteq> 0" using q sub by (auto simp: sizeof_Header_def) 
  have "q \<in> block ws a" using n sub by (simp add: q block_def sizeof_Header_def)
  then show "q \<notin> B" using tiles_disjoint [OF t B(1), of q] ne(1) tiles_block(3) [OF t, of q] by (auto simp: block_def sizeof_Header_def)
  let ?w = "ws(a := ws a - n, q := n)"
  have blk: "block ?w a = {a..<q}" "block ?w q = {q..<a + sizeof_Header * unat (ws a)}"
    using ne(1) n sub by (auto simp: block_def q sizeof_Header_def)
  have "a \<le> q" "q \<le> a + sizeof_Header * unat (ws a)" using n sub by (simp_all add: q sizeof_Header_def)
  then have "(\<Union>x\<in>{a, q}. block ?w x) = (\<Union>x\<in>{a}. block ws x)" "block ?w a \<inter> block ?w q = {}" using blk by (auto simp: block_def)
  moreover have "?w x \<noteq> 0" if "x \<in> {a, q}" for x using that ne B(3) by auto
  moreover have "?w x = ws x" if "x \<in> B - {a}" for x using that \<open>q \<notin> B\<close> by auto
  ultimately have "tiles ?w (B - {a} \<union> {a, q}) lo hi"
    using B(1) by (intro tiles_replace [OF t]) (auto simp del: fun_upd_apply)
  moreover have "B - {a} \<union> {a, q} = insert q B" using B(1) by auto
  ultimately show "tiles (ws(a := ws a - n, q := n)) (insert q B) lo hi" by simp
qed

lemma tiles_extend:
  assumes t: "tiles ws B lo hi" and n: "n \<noteq> 0"
  shows "tiles (ws(hi := n)) (insert hi B) lo (hi + sizeof_Header * unat n)" "hi \<notin> B"
proof -
  show hi: "hi \<notin> B" using tiles_block(4) [OF t] by blast
  have blk: "block (ws(hi := n)) a = block ws a" if "a \<in> B" for a using that hi by (auto simp: block_def)
  have le: "block ws a \<subseteq> {lo..<hi}" if "a \<in> B" for a using that t by (auto simp: tiles_def)
  have "block ws a \<inter> block (ws(hi := n)) hi = {}" if "a \<in> B" for a using le [OF that] by (auto simp: block_def)
  moreover have "(\<Union>a\<in>insert hi B. block (ws(hi := n)) a) = {lo..<hi} \<union> {hi..<hi + sizeof_Header * unat n}"
    using blk t by (auto simp: tiles_def block_def)
  moreover have "{lo..<hi} \<union> {hi..<hi + sizeof_Header * unat n} = {lo..<hi + sizeof_Header * unat n}" using t by (auto simp: tiles_def)
  ultimately show "tiles (ws(hi := n)) (insert hi B) lo (hi + sizeof_Header * unat n)"
    using t n blk hi unfolding tiles_def by (auto simp: Int_commute)
qed

section \<open>Freeing a block\<close>

text \<open>The heap between \<open>lo\<close> and \<open>hi\<close> consists of the free blocks, in the list \<open>xs\<close> after \<open>base\<close>, and of those that are in use.\<close>

definition heap_ok :: "nat \<Rightarrow> nat \<Rightarrow> nat \<Rightarrow> 's uheap \<Rightarrow> nat list \<Rightarrow> nat set \<Rightarrow> bool" where
  "heap_ok base lo hi st xs used \<longleftrightarrow> free_list base st xs \<and> hsize st base = 0 \<and> 0 < base \<and> base < lo \<and> hi < 2 ^ 31 \<and>
     set (tl xs) \<inter> used = {} \<and> tiles (hsize st) (set (tl xs) \<union> used) lo hi"

lemma split_sorted:
  "sorted_wrt (<) (x # xs) \<Longrightarrow> x < (b :: nat) \<Longrightarrow> b \<notin> set xs \<Longrightarrow> \<exists>us p vs. x # xs = us @ p # vs \<and> p < b \<and> (\<forall>v\<in>set vs. b < v)"
proof (induction xs arbitrary: x)
  case Nil
  then show ?case by (intro exI [of _ "[]"]) simp
next
  case (Cons y xs)
  show ?case
  proof (cases "y < b")
    case True
    then obtain us p vs where "y # xs = us @ p # vs" "p < b" "\<forall>v\<in>set vs. b < v" using Cons.IH [of y] Cons.prems by auto
    then show ?thesis by (intro exI [of _ "x # us"] exI [of _ p] exI [of _ vs]) simp
  next
    case False
    then have "b < y" using Cons.prems(3) by auto
    then have "\<forall>v\<in>set (y # xs). b < v" using Cons.prems(1) by auto
    then show ?thesis using Cons.prems(2) by (intro exI [of _ "[]"] exI [of _ x] exI [of _ "y # xs"]) simp
  qed
qed

text \<open>The first half of \<open>free\<close>: the block is linked to the next free one, or merged with it.\<close>

definition free_next :: "nat \<Rightarrow> nat \<Rightarrow> 's uheap \<Rightarrow> 's uheap" where
  "free_next bp nxt st =
     (if block_end st bp = nxt
      then st\<lparr>hptr := (hptr st)(bp := hptr st nxt), hsize := (hsize st)(bp := hsize st bp + hsize st nxt)\<rparr>
      else st\<lparr>hptr := (hptr st)(bp := nxt)\<rparr>)"

lemma free_next_ok:
  assumes l: "linked (hptr st) vs base" and vs: "\<forall>v\<in>set vs. bp < v" "distinct vs" and base: "base < bp" and hi: "hi < 2 ^ 31"
    and t: "tiles (hsize st) (insert bp (set vs \<union> R)) lo hi" and R: "bp \<notin> R" "set vs \<inter> R = {}"
  obtains ws where "linked (hptr (free_next bp (hd (vs @ [base])) st)) (bp # ws) base" "\<exists>u. vs = u @ ws"
    "tiles (hsize (free_next bp (hd (vs @ [base])) st)) (insert bp (set ws \<union> R)) lo hi"
    "unat (hsize st bp) \<le> unat (hsize (free_next bp (hd (vs @ [base])) st) bp)"
proof -
  let ?n = "hd (vs @ [base])"
  let ?t = "free_next bp ?n st"
  have bv: "bp \<notin> set vs" using vs(1) by auto
  show thesis
  proof (cases "block_end st bp = ?n")
    case True
    have "?n \<noteq> base" using True base by (simp add: block_end_def)
    then obtain v ws where v: "vs = v # ws" by (cases vs) auto
    have nv: "?n = v" "v \<noteq> bp" "v \<notin> set ws" "bp \<notin> set ws" using v vs bv by auto
    have sz: "hsize ?t = (hsize st)(bp := hsize st bp + hsize st v)" and pt: "hptr ?t = (hptr st)(bp := hptr st v)"
      using True nv by (simp_all add: free_next_def)
    have m: "tiles (hsize ?t) (insert bp (set vs \<union> R) - {v}) lo hi" "unat (hsize ?t bp) = unat (hsize st bp) + unat (hsize st v)"
      using tiles_merge [OF t, of bp v] True hi v nv(1) unfolding sz by (simp_all add: block_end_def)
    have "insert bp (set vs \<union> R) - {v} = insert bp (set ws \<union> R)" using v nv R by auto
    moreover have "linked (hptr ?t) (bp # ws) base" using l nv pt v by simp
    ultimately show thesis using that [of ws] m v by simp
  next
    case False
    then show thesis using that [of vs] l t bv by (simp add: free_next_def)
  qed
qed

text \<open>The second half: the previous free block is linked to it, or merged with it.\<close>

definition free_prev :: "nat \<Rightarrow> nat \<Rightarrow> 's uheap \<Rightarrow> 's uheap" where
  "free_prev bp p st =
     (if block_end st p = bp
      then st\<lparr>hptr := (hptr st)(p := hptr st bp), hsize := (hsize st)(p := hsize st p + hsize st bp)\<rparr>
      else st\<lparr>hptr := (hptr st)(p := bp)\<rparr>)"

lemma free_split:
  "free ap st = Option.bind (free_from st (ap - sizeof_Header) (freep st)) (\<lambda>p.
     let bp = ap - sizeof_Header in Some ((free_prev bp p (free_next bp (hptr st p) st))\<lparr>freep := p\<rparr>))"
  by (simp add: free_def free_next_def free_prev_def Let_def)

lemma free_next_other [simp]:
  "x \<noteq> bp \<Longrightarrow> hptr (free_next bp n st) x = hptr st x" "x \<noteq> bp \<Longrightarrow> hsize (free_next bp n st) x = hsize st x"
  "usys (free_next bp n st) = usys st"
  by (simp_all add: free_next_def)

lemma linked_cong: "(\<And>x. x \<in> set xs \<Longrightarrow> f x = g x) \<Longrightarrow> linked f xs z = linked g xs z"
  by (induction xs) auto

lemma free_prev_ok:
  assumes us: "linked (hptr t) us p" "\<forall>u\<in>set us. u < p" "p < bp" "\<forall>w\<in>set ws. bp < w" and ws: "linked (hptr t) (bp # ws) base"
    and R: "tiles (hsize t) (insert bp R) lo hi" "bp \<notin> R" and p: "p \<in> R \<or> hsize t p = 0" and hi: "hi < 2 ^ 31"
  obtains vs where "linked (hptr (free_prev bp p t)) (us @ p # vs) base" "vs = ws \<or> vs = bp # ws"
    "tiles (hsize (free_prev bp p t)) (R \<union> (set vs - set ws)) lo hi"
    "\<exists>x\<in>(R \<inter> {p}) \<union> (set vs - set ws). unat (hsize t bp) \<le> unat (hsize (free_prev bp p t) x)"
    "\<And>x. x \<noteq> p \<Longrightarrow> hsize (free_prev bp p t) x = hsize t x"
proof -
  let ?t = "free_prev bp p t"
  have notin: "p \<notin> set us" "p \<notin> set ws" "p \<noteq> bp" "bp \<notin> set ws" "bp \<notin> set us" using us by auto
  show thesis
  proof (cases "block_end t p = bp")
    case True
    then have pR: "p \<in> R" using p us(3) by (auto simp: block_end_def)
    have m: "tiles (hsize ?t) (insert bp R - {bp}) lo hi" "unat (hsize ?t p) = unat (hsize t p) + unat (hsize t bp)"
      using tiles_merge [OF R(1), of p bp] True pR hi by (simp_all add: free_prev_def block_end_def)
    have "linked (hptr ?t) (us @ p # ws) base" using us(1) ws notin True by (simp add: free_prev_def linked_append)
    moreover have "insert bp R - {bp} = R" using R(2) by auto
    ultimately show thesis using that [of ws] m pR True by (auto simp: free_prev_def)
  next
    case False
    have "linked (hptr ?t) (us @ p # bp # ws) base" using us(1) ws notin False by (simp add: free_prev_def linked_append)
    moreover have "set (bp # ws) - set ws = {bp}" using notin by auto
    ultimately show thesis using that [of "bp # ws"] R False by (simp add: free_prev_def)
  qed
qed

lemma heap_okD:
  assumes "heap_ok base lo hi st xs used"
  obtains ys where "xs = base # ys" "sorted_wrt (<) xs" "linked (hptr st) xs base" "freep st \<in> set xs" "hsize st base = 0"
    "0 < base" "base < lo" "hi < 2 ^ 31" "set ys \<inter> used = {}" "tiles (hsize st) (set ys \<union> used) lo hi" "base \<notin> used" "distinct xs"
proof -
  obtain ys where ys: "xs = base # ys" "sorted_wrt (<) xs" "base < lo" "tiles (hsize st) (set ys \<union> used) lo hi"
    using assms by (auto simp: heap_ok_def free_list_def)
  moreover have "base \<notin> used" using tiles_block(1) [OF ys(4), of base] ys(3) by auto
  moreover have "distinct xs" using ys(2) strict_sorted_iff by blast
  ultimately show thesis using that [of ys] assms by (auto simp: heap_ok_def free_list_def)
qed

text \<open>The free blocks below and above a block in use.\<close>

lemma heap_split:
  assumes ok: "heap_ok base lo hi st xs used" and a: "a \<in> used"
  obtains us p vs where "xs = us @ p # vs" "p < a" "\<forall>v\<in>set vs. a < v" "base < a" "free_from st a (freep st) = Some p"
    "linked (hptr st) us p" "hptr st p = hd (vs @ [base])" "linked (hptr st) vs base"
    "set (tl xs) = (set (us @ [p]) - {base}) \<union> set vs" "a \<notin> set xs" "base \<le> p"
proof -
  obtain ys where h: "xs = base # ys" "sorted_wrt (<) xs" "linked (hptr st) xs base" "base < lo" "set ys \<inter> used = {}"
    "tiles (hsize st) (set ys \<union> used) lo hi" "distinct xs" using heap_okD [OF ok] by metis
  have ba: "base < a" "a \<notin> set ys" using tiles_block(1) [OF h(6), of a] a h(4,5) by auto
  obtain us p vs where sp: "base # ys = us @ p # vs" "p < a" "\<forall>v\<in>set vs. a < v" using split_sorted [of base ys a] h ba by auto
  have "free_list base st (us @ p # vs)" using ok h(1) sp(1) by (simp add: heap_ok_def)
  then have ff: "free_from st a (freep st) = Some p" using ba(1) sp(2,3) by (rule free_from_eq)
  have lk: "linked (hptr st) us p" "hptr st p = hd (vs @ [base])" "linked (hptr st) vs base"
    using h(1,3) sp(1) by (simp_all add: linked_append)
  have d: "distinct (us @ p # vs)" using h(1,7) sp(1) by simp
  have hd: "base \<in> set (us @ [p])" using sp(1) by (cases us) auto
  then have "base \<notin> set vs" using d by auto
  moreover have "set ys = set (us @ p # vs) - {base}" using h(1,7) unfolding sp(1) [symmetric] by auto
  ultimately have ys: "set ys = (set (us @ [p]) - {base}) \<union> set vs" by auto
  have bp: "base \<le> p" using h(1,2) sp(1) by (cases us) (auto simp: less_imp_le)
  have x: "xs = us @ p # vs" using h(1) sp(1) by simp
  have "a \<notin> set xs" "set (tl xs) = (set (us @ [p]) - {base}) \<union> set vs" unfolding h(1) using ba ys by simp_all
  then show thesis using that [OF x sp(2,3) ba(1) ff lk _ _ bp] by blast
qed

lemma free_ok:
  assumes ok: "heap_ok base lo hi st xs used" and a: "a \<in> used"
  obtains t xs' where "free (a + sizeof_Header) st = Some t" "heap_ok base lo hi t xs' (used - {a})" "usys t = usys st"
    "\<forall>b\<in>used - {a}. hsize t b = hsize st b" "\<exists>x\<in>set (tl xs'). unat (hsize st a) \<le> unat (hsize t x)" "freep t \<noteq> 0"
proof -
  obtain ys where h: "xs = base # ys" "sorted_wrt (<) xs" "hsize st base = 0" "0 < base" "base < lo" "hi < 2 ^ 31" "set ys \<inter> used = {}"
    "tiles (hsize st) (set ys \<union> used) lo hi" "base \<notin> used" "distinct xs" using heap_okD [OF ok] by metis
  obtain us p vs where sp: "xs = us @ p # vs" "p < a" "\<forall>v\<in>set vs. a < v" "base < a" "free_from st a (freep st) = Some p"
    "linked (hptr st) us p" "hptr st p = hd (vs @ [base])" "linked (hptr st) vs base" "set (tl xs) = (set (us @ [p]) - {base}) \<union> set vs"
    "a \<notin> set xs" "base \<le> p" by (rule heap_split [OF ok a])
  have ord: "\<forall>u\<in>set us. u < p" "distinct vs" "\<forall>u\<in>set us. \<forall>v\<in>set vs. u < v" "sorted_wrt (<) us" "sorted_wrt (<) vs" "a \<notin> set us" "p \<noteq> a"
    using h(2,10) sp(10) unfolding sp(1) by (auto simp: sorted_wrt_append)
  define R where "R = (set (us @ [p]) - {base}) \<union> (used - {a})"
  have ys: "set ys = (set (us @ [p]) - {base}) \<union> set vs" using sp(9) h(1) by simp
  have ysR: "set ys \<union> used = insert a (set vs \<union> R)" "a \<notin> R" "set vs \<inter> R = {}"
    using ys a h(7,10) sp(10) unfolding R_def sp(1) by auto
  let ?s = "free_next a (hd (vs @ [base])) st"
  obtain ws where ws: "linked (hptr ?s) (a # ws) base" "\<exists>u. vs = u @ ws" "tiles (hsize ?s) (insert a (set ws \<union> R)) lo hi"
    "unat (hsize st a) \<le> unat (hsize ?s a)"
    using free_next_ok [OF sp(8,3) ord(2) sp(4) h(6) h(8) [unfolded ysR(1)] ysR(2,3)] by blast
  have wv: "set ws \<subseteq> set vs" "\<forall>w\<in>set ws. a < w" "sorted_wrt (<) ws" using ws(2) sp(3) ord(5) by (auto simp: sorted_wrt_append)
  have "hptr ?s x = hptr st x" if "x \<in> set us" for x using that ord(6) by (cases "x = a") auto
  then have l1: "linked (hptr ?s) us p" using sp(6) linked_cong by blast
  have l2: "a \<notin> set ws \<union> R" using wv(2) ysR(2) by auto
  have l3: "p \<in> set ws \<union> R \<or> hsize ?s p = 0" using h(3) ord(7) by (cases "p = base") (auto simp: R_def)
  let ?t = "free_prev a p ?s"
  obtain vs' where v: "linked (hptr ?t) (us @ p # vs') base" "vs' = ws \<or> vs' = a # ws" "tiles (hsize ?t) (set ws \<union> R \<union> (set vs' - set ws)) lo hi"
    "\<exists>x\<in>((set ws \<union> R) \<inter> {p}) \<union> (set vs' - set ws). unat (hsize ?s a) \<le> unat (hsize ?t x)" "\<And>x. x \<noteq> p \<Longrightarrow> hsize ?t x = hsize ?s x"
    by (rule free_prev_ok [OF l1 ord(1) sp(2) wv(2) ws(1,3) l2 l3 h(6)]) blast
  let ?xs = "us @ p # vs'"
  have "\<forall>w\<in>set ws. p < w" "\<forall>u\<in>set us. u < a" "\<forall>u\<in>set us. \<forall>w\<in>set ws. u < w" using wv(1,2) ord(1,3) sp(2) by auto
  then have sorted: "sorted_wrt (<) ?xs" using v(2) ord(1,4) sp(2) wv(2,3) by (auto simp: sorted_wrt_append)
  obtain zs where zs: "?xs = base # zs" using h(1) sp(1) by (cases us) auto
  have ds: "distinct ?xs" using sorted strict_sorted_iff by blast
  have "base \<in> set (us @ [p])" using zs by (cases us) auto
  then have "base \<notin> set vs'" using ds by auto
  moreover have "set zs = set ?xs - {base}" using ds unfolding zs by auto
  ultimately have tl: "set zs = (set (us @ [p]) - {base}) \<union> set vs'" by auto
  have vv: "set vs' \<subseteq> insert a (set vs)" "set ws \<subseteq> set vs'" "p \<notin> set vs'" "p \<notin> used" using v(2) wv(1) ds ys h(7,9) by auto
  have sets: "set ws \<union> R \<union> (set vs' - set ws) = set zs \<union> (used - {a})" using vv(2) unfolding tl R_def by auto
  have bz: "hsize ?t base = 0"
    using h(3) sp(2,4) v(5) [of base] by (cases "p = base") (auto simp: free_prev_def block_end_def)
  have "set zs \<inter> (used - {a}) = {}" using h(7) ys vv(1) unfolding tl by auto
  moreover have "p \<in> set (base # zs)" unfolding zs [symmetric] by simp
  ultimately have ok': "heap_ok base lo hi (?t\<lparr>freep := p\<rparr>) ?xs (used - {a})"
    using v(1,3) sorted h(4-6) zs bz unfolding sets by (auto simp: heap_ok_def free_list_def)
  have fr: "free (a + sizeof_Header) st = Some (?t\<lparr>freep := p\<rparr>)" using sp(5,7) by (simp add: free_split)
  have "hsize ?t b = hsize st b" if "b \<in> used - {a}" for b using that v(5) [of b] vv(4) by (cases "b = p") auto
  then have same: "\<forall>b\<in>used - {a}. hsize (?t\<lparr>freep := p\<rparr>) b = hsize st b" by simp
  have "((set ws \<union> R) \<inter> {p}) \<union> (set vs' - set ws) \<subseteq> set zs" using vv unfolding tl R_def by auto
  then obtain x where "x \<in> set zs" "unat (hsize ?s a) \<le> unat (hsize ?t x)" using v(4) by blast
  then have "\<exists>x\<in>set (tl ?xs). unat (hsize st a) \<le> unat (hsize (?t\<lparr>freep := p\<rparr>) x)"
    using ws(4) unfolding zs by (intro bexI [of _ x]) simp_all
  then show thesis using that [OF fr ok' _ same] sp(11) h(4) by (simp add: free_prev_def)
qed

section \<open>Taking a block\<close>

text \<open>How \<open>malloc\<close> goes on after \<open>morecore\<close>.\<close>

definition retry :: "'s sbrk \<Rightarrow> uint \<Rightarrow> (nat \<times> 's uheap) outcome \<Rightarrow> (nat \<times> 's uheap) outcome option" where
  "retry sbrk n r = (case r of
     Stops \<Rightarrow> Some Stops
   | Returns (p, st) \<Rightarrow> if p = 0 then Some (Returns (0, st)) else malloc_loop sbrk n p (hptr st p) st)"

text \<open>Where the search of \<open>malloc\<close> ends, from the block after \<open>prevp\<close> to the one that \<open>freep\<close> points to.\<close>

definition search_hit :: "'s sbrk \<Rightarrow> uint \<Rightarrow> nat \<Rightarrow> nat list \<Rightarrow> 's uheap \<Rightarrow> bool" where
  "search_hit sbrk n prevp rs st \<longleftrightarrow> (\<exists>us pr x vs. prevp # rs = us @ pr # x # vs \<and> n \<le> hsize st x \<and>
     malloc_loop sbrk n prevp (hd rs) st = malloc_loop sbrk n pr x st)"

lemma malloc_search:
  assumes "linked (hptr st) (prevp # rs) z" "rs \<noteq> []" "last rs = freep st" "freep st \<notin> set (butlast rs)"
  shows "search_hit sbrk n prevp rs st \<or>
    (\<forall>x\<in>set rs. hsize st x < n) \<and> malloc_loop sbrk n prevp (hd rs) st = Option.bind (morecore sbrk n st) (retry sbrk n)"
  using assms
proof (induction rs arbitrary: prevp)
  case (Cons x rs)
  show ?case
  proof (cases "n \<le> hsize st x")
    case True
    then have "search_hit sbrk n prevp (x # rs) st" unfolding search_hit_def by (intro exI [of _ "[]"]) auto
    then show ?thesis ..
  next
    case False
    show ?thesis
    proof (cases "rs = []")
      case True
      have "malloc_loop sbrk n prevp x st = Option.bind (morecore sbrk n st) (retry sbrk n)"
        using False Cons.prems True by (subst malloc_loop.simps) (simp add: retry_def [abs_def])
      then show ?thesis using False True by (simp add: not_le)
    next
      case more: False
      then have "x \<noteq> freep st" "hptr st x = hd rs" using Cons.prems by auto
      then have step: "malloc_loop sbrk n prevp x st = malloc_loop sbrk n x (hd rs) st" using False by (subst malloc_loop.simps) simp
      have "search_hit sbrk n prevp (x # rs) st" if hit: "search_hit sbrk n x rs st"
      proof -
        obtain us pr y vs where y: "x # rs = us @ pr # y # vs" "n \<le> hsize st y" "malloc_loop sbrk n x (hd rs) st = malloc_loop sbrk n pr y st"
          using hit unfolding search_hit_def by blast
        then have "prevp # x # rs = (prevp # us) @ pr # y # vs" by simp
        moreover have "malloc_loop sbrk n prevp (hd (x # rs)) st = malloc_loop sbrk n pr y st" unfolding list.sel step by (rule y(3))
        ultimately show ?thesis unfolding search_hit_def using y(2) by blast
      qed
      then show ?thesis using Cons.IH [of x] Cons.prems more step False by auto
    qed
  qed
qed simp

text \<open>The circle of the list, from the block after \<open>freep\<close> on.\<close>

lemma circle:
  assumes "free_list base st xs"
  obtains rs where "linked (hptr st) (freep st # rs) (hptr st (freep st))" "rs \<noteq> []" "last rs = freep st" "freep st \<notin> set (butlast rs)"
    "set rs = set xs" "hd rs = hptr st (freep st)"
proof -
  have "freep st \<in> set xs" using assms by (simp add: free_list_def)
  then obtain us vs where xs: "xs = us @ freep st # vs" using split_list [of "freep st" xs] by blast
  let ?f = "freep st" and ?rs = "vs @ us @ [freep st]"
  have l: "linked (hptr st) us ?f" "hptr st ?f = hd (vs @ [base])" "linked (hptr st) vs base"
    using assms unfolding xs by (auto simp: free_list_def linked_append)
  have b: "hd (us @ [?f]) = base" using assms unfolding xs by (cases us) (auto simp: free_list_def)
  have d: "distinct xs" using assms strict_sorted_iff by (auto simp: free_list_def)
  have h: "hd ?rs = hptr st ?f" using l(2) b by (cases vs) auto
  have "linked (hptr st) (?f # ?rs) (hptr st ?f)" using l b h by (auto simp: linked_append hd_append)
  then show thesis using that [of ?rs] d h xs by (auto simp: butlast_append)
qed

lemma take_block:
  assumes ok: "heap_ok base lo hi st xs used" and pr: "pr \<in> set xs" "hptr st pr = x" and n: "n \<le> hsize st x" "n \<noteq> 0"
  obtains q t xs' where "malloc_loop sbrk n pr x st = Some (Returns (q + sizeof_Header, t))" "heap_ok base lo hi t xs' (insert q used)" "q \<notin> used"
    "hsize t q = n" "\<forall>b\<in>used. hsize t b = hsize st b" "usys t = usys st"
proof -
  obtain ys where xs: "xs = base # ys" "sorted_wrt (<) xs" "linked (hptr st) xs base" "freep st \<in> set xs" and sz: "hsize st base = 0"
    and base: "0 < base" "base < lo" "hi < 2 ^ 31" and dis: "set ys \<inter> used = {}" and t: "tiles (hsize st) (set ys \<union> used) lo hi"
    by (rule heap_okD [OF ok])
  obtain A B where AB: "xs = A @ pr # B" using split_list [OF pr(1)] by blast
  have hx: "x = hd (B @ [base])" using xs(3) pr(2) unfolding AB by (simp add: linked_append)
  have "x \<noteq> base" using n sz by auto
  then obtain B' where B: "B = x # B'" using hx by (cases B) auto
  have "x \<in> set (base # ys)" unfolding xs(1) [symmetric] AB B by simp
  then have x: "x \<in> set ys" "x \<notin> used" using dis \<open>x \<noteq> base\<close> by auto
  show thesis
  proof (cases "hsize st x = n")
    case True
    let ?t = "st\<lparr>hptr := (hptr st)(pr := hptr st x), freep := pr\<rparr>"
    have d: "distinct (A @ pr # x # B')" using xs(2) strict_sorted_iff unfolding AB B by blast
    have "linked (hptr ?t) (A @ pr # B') base" using xs(3) d unfolding AB B by (simp add: linked_append)
    moreover have "sorted_wrt (<) (A @ pr # B')" using xs(2) unfolding AB B by (auto simp: sorted_wrt_append)
    moreover obtain zs where zs: "A @ pr # B' = base # zs" using xs(1) unfolding AB by (cases A) auto
    moreover have ys: "set ys = insert x (set zs)" "x \<notin> set zs"
      using xs(1) zs d \<open>x \<noteq> base\<close> unfolding AB B by (cases A; auto)+
    moreover have "pr \<in> set (base # zs)" unfolding zs [symmetric] by simp
    ultimately have "heap_ok base lo hi ?t (base # zs) (insert x used)"
      using sz base dis t x unfolding heap_ok_def free_list_def by auto
    moreover have "malloc_loop sbrk n pr x st = Some (Returns (x + sizeof_Header, ?t))"
      using True by (subst malloc_loop.simps) simp
    ultimately show thesis using that x(2) True by simp
  next
    case False
    then have lt: "n < hsize st x" using n(1) by simp
    let ?w = "(hsize st)(x := hsize st x - n)"
    define q where "q = x + sizeof_Header * unat (hsize st x - n)"
    let ?t = "st\<lparr>hsize := ?w(q := n), freep := pr\<rparr>"
    have q: "tiles (?w(q := n)) (insert q (set ys \<union> used)) lo hi" "q \<notin> set ys \<union> used"
      using tiles_split [OF t, of x n q] x(1) lt n(2) q_def by simp_all
    have qb: "base < q" using tiles_block(1) [OF t, of x] x(1) base(2) by (simp add: q_def)
    have "heap_ok base lo hi ?t xs (insert q used)"
      using q qb xs sz base dis pr(1) \<open>x \<noteq> base\<close> unfolding heap_ok_def free_list_def by auto
    moreover have "malloc_loop sbrk n pr x st = Some (Returns (q + sizeof_Header, ?t))"
      using False n(1) by (subst malloc_loop.simps) (simp add: Let_def block_end_def q_def)
    moreover have "\<forall>b\<in>used. hsize ?t b = hsize st b" using q(2) x(2) by auto
    ultimately show thesis using that [of q ?t xs] q(2) by simp
  qed
qed

lemma malloc_hit:
  assumes s: "heap_ok base lo hi s zs used" and n: "n \<noteq> 0" and big: "\<exists>x\<in>set zs. n \<le> hsize s x"
  shows "\<exists>q t ys. malloc_loop sbrk n (freep s) (hptr s (freep s)) s = Some (Returns (q + sizeof_Header, t)) \<and>
    heap_ok base lo hi t ys (insert q used) \<and> usys t = usys s \<and> q \<notin> used \<and> hsize t q = n \<and> (\<forall>b\<in>used. hsize t b = hsize s b)"
proof -
  have fl: "free_list base s zs" using s by (simp add: heap_ok_def)
  obtain rs where rs: "linked (hptr s) (freep s # rs) (hptr s (freep s))" "rs \<noteq> []" "last rs = freep s" "freep s \<notin> set (butlast rs)"
    "set rs = set zs" "hd rs = hptr s (freep s)" by (rule circle [OF fl])
  have "search_hit sbrk n (freep s) rs s" using malloc_search [OF rs(1-4), of sbrk n] big rs(5) by auto
  then obtain us pr x vs where x: "freep s # rs = us @ pr # x # vs" "n \<le> hsize s x" "malloc_loop sbrk n (freep s) (hd rs) s = malloc_loop sbrk n pr x s"
    unfolding search_hit_def by blast
  have "pr \<in> set (freep s # rs)" unfolding x(1) by simp
  then have pr: "pr \<in> set zs" using rs(5) fl by (auto simp: free_list_def)
  have "hptr s pr = x" using rs(1) unfolding x(1) by (simp add: linked_append)
  then show ?thesis using take_block [OF s pr _ x(2) n, of sbrk] x(3) rs(6) by metis
qed

section \<open>Allocating\<close>

lemma sint_of_nat_small: "m < 2 ^ 31 \<Longrightarrow> sint (of_nat m :: uint) = int m"
  by (simp add: signed_of_nat signed_take_bit_int_eq_self)

lemma units_eq: "unat (units nbytes) = (unat nbytes + 15) div 16 + 1"
proof -
  have b: "unat nbytes < 2 ^ 32" using unat_bound [of nbytes] by simp
  have u: "unat (ucast nbytes :: uint64) = unat nbytes" using b by (simp add: unsigned_ucast_eq take_bit_nat_eq_self)
  have s1: "unat (ucast nbytes + of_nat sizeof_Header - 1 :: uint64) = unat nbytes + 15"
    using b u by (simp add: sizeof_Header_def unat_word_ariths)
  then have "unat ((ucast nbytes + of_nat sizeof_Header - 1 :: uint64) div of_nat sizeof_Header + 1) = (unat nbytes + 15) div 16 + 1"
    using b by (simp add: sizeof_Header_def unat_word_ariths unat_div)
  then show ?thesis using b by (simp add: units_def unsigned_ucast_eq take_bit_nat_eq_self)
qed

lemma units_nonzero: "units nbytes \<noteq> 0"
  using units_eq [of nbytes] by (metis add_is_0 one_neq_zero unat_0)

text \<open>The most that \<open>malloc\<close> asks the kernel for.\<close>

definition core_need :: "uint \<Rightarrow> nat" where
  "core_need nbytes = sizeof_Header * max (unat (units nbytes)) 4096"

definition heap_inv :: "('s \<Rightarrow> bool) \<Rightarrow> ('s \<Rightarrow> nat) \<Rightarrow> nat \<Rightarrow> nat \<Rightarrow> 's uheap \<Rightarrow> nat set \<Rightarrow> bool" where
  "heap_inv sys_ok brk base lo st used \<longleftrightarrow> sys_ok (usys st) \<and> 0 < base \<and> base < lo \<and> brk (usys st) < 2 ^ 31 \<and>
     (if freep st = 0 then used = {} \<and> lo = brk (usys st) else \<exists>xs. heap_ok base lo (brk (usys st)) st xs used)"

text \<open>What \<open>sbrk\<close> promises: a positive amount is added at the end of the memory of the process, and its old end is returned.\<close>

locale sbrk_provider =
  fixes sbrk :: "'s sbrk" and brk :: "'s \<Rightarrow> nat" and sys_ok :: "'s \<Rightarrow> bool"
  assumes sbrk_grows: "sys_ok k \<Longrightarrow> 0 < n \<Longrightarrow> int (brk k) + n < 2 ^ 31 \<Longrightarrow>
    sbrk n k = None \<or> (\<exists>k'. sbrk n k = Some (None, k') \<and> sys_ok k' \<and> brk k' = brk k) \<or>
    (\<exists>k'. sbrk n k = Some (Some (brk k), k') \<and> sys_ok k' \<and> brk k' = brk k + nat n)"
begin

lemma morecore_ok:
  assumes ok: "heap_ok base lo (brk (usys st)) st xs used" and sys: "sys_ok (usys st)"
    and room: "brk (usys st) + sizeof_Header * max (unat n) 4096 < 2 ^ 31"
  obtains (stop) "morecore sbrk n st = Some Stops"
    | (fail) k where "morecore sbrk n st = Some (Returns (0, st\<lparr>usys := k\<rparr>))" "sys_ok k" "brk k = brk (usys st)"
    | (more) t ys where "morecore sbrk n st = Some (Returns (freep t, t))" "freep t \<noteq> 0" "heap_ok base lo (brk (usys t)) t ys used" "sys_ok (usys t)"
        "\<exists>x\<in>set ys. n \<le> hsize t x" "\<forall>b\<in>used. hsize t b = hsize st b" "brk (usys t) = brk (usys st) + sizeof_Header * max (unat n) 4096"
proof -
  define nu where "nu = (if n < 4096 then 4096 else n)"
  let ?hi = "brk (usys st)" and ?m = "sizeof_Header * max (unat n) 4096"
  have nu: "unat nu = max (unat n) 4096" by (auto simp: nu_def word_less_nat_alt)
  have arg: "sint (of_nat (unat nu * sizeof_Header) :: uint) = int ?m"
  proof -
    have "unat nu * sizeof_Header = ?m" "?m < 2 ^ 31" using room nu by simp_all
    then show ?thesis by (simp only: sint_of_nat_small)
  qed
  have mp: "0 < int ?m" "int ?hi + int ?m < 2 ^ 31" using room by (simp_all add: sizeof_Header_def)
  have core: "morecore sbrk n st = (case sbrk (int ?m) (usys st) of
       None \<Rightarrow> Some Stops
     | Some (None, k) \<Rightarrow> Some (Returns (0, st\<lparr>usys := k\<rparr>))
     | Some (Some hp, k) \<Rightarrow> Option.bind (free (hp + sizeof_Header) (st\<lparr>hsize := (hsize st)(hp := nu), usys := k\<rparr>)) (\<lambda>st. Some (Returns (freep st, st))))"
    unfolding morecore_def Let_def nu_def [symmetric] arg by simp
  from sbrk_grows [OF sys mp] consider "sbrk (int ?m) (usys st) = None"
    | k where "sbrk (int ?m) (usys st) = Some (None, k)" "sys_ok k" "brk k = ?hi"
    | k where "sbrk (int ?m) (usys st) = Some (Some ?hi, k)" "sys_ok k" "brk k = ?hi + ?m" by (metis nat_int)
  then show thesis
  proof cases
    case (3 k)
    let ?s = "st\<lparr>hsize := (hsize st)(?hi := nu), usys := k\<rparr>"
    have nz: "nu \<noteq> 0" using nu by (auto simp: max_def split: if_splits)
    have t: "tiles (hsize st) (set (tl xs) \<union> used) lo ?hi" and base: "base < lo" "lo \<le> ?hi" using ok by (auto simp: heap_ok_def tiles_def)
    have ext: "tiles ((hsize st)(?hi := nu)) (insert ?hi (set (tl xs) \<union> used)) lo (?hi + ?m)" "?hi \<notin> set (tl xs) \<union> used"
      using tiles_extend [OF t nz] nu by simp_all
    have okn: "heap_ok base lo (?hi + ?m) ?s xs (insert ?hi used)"
      using ok ext room base unfolding heap_ok_def free_list_def by auto
    obtain t ys where f: "free (?hi + sizeof_Header) ?s = Some t" "heap_ok base lo (?hi + ?m) t ys (insert ?hi used - {?hi})" "usys t = usys ?s"
      "\<forall>b\<in>insert ?hi used - {?hi}. hsize t b = hsize ?s b" "\<exists>x\<in>set (tl ys). unat (hsize ?s ?hi) \<le> unat (hsize t x)" "freep t \<noteq> 0"
      by (rule free_ok [OF okn insertI1])
    have used: "insert ?hi used - {?hi} = used" using ext(2) by auto
    have "ys \<noteq> []" using f(2) by (auto simp: heap_ok_def free_list_def)
    then have "\<exists>x\<in>set ys. n \<le> hsize t x" using f(5) nu by (auto simp: word_le_nat_alt dest: list.set_sel(2))
    then show thesis using more [of t ys] 3 f ext(2) core unfolding used by auto
  qed (use stop fail core in auto)
qed

lemma malloc_loop_ok:
  assumes ok: "heap_ok base lo (brk (usys st)) st xs used" and sys: "sys_ok (usys st)" and n: "n \<noteq> 0"
    and room: "brk (usys st) + sizeof_Header * max (unat n) 4096 < 2 ^ 31"
  shows "malloc_loop sbrk n (freep st) (hptr st (freep st)) st = Some Stops \<or>
    (\<exists>t ys. malloc_loop sbrk n (freep st) (hptr st (freep st)) st = Some (Returns (0, t)) \<and> heap_ok base lo (brk (usys t)) t ys used \<and>
      sys_ok (usys t) \<and> brk (usys t) = brk (usys st) \<and> (\<forall>b\<in>used. hsize t b = hsize st b)) \<or>
    (\<exists>q t ys. malloc_loop sbrk n (freep st) (hptr st (freep st)) st = Some (Returns (q + sizeof_Header, t)) \<and>
      heap_ok base lo (brk (usys t)) t ys (insert q used) \<and> sys_ok (usys t) \<and> brk (usys t) \<le> brk (usys st) + sizeof_Header * max (unat n) 4096 \<and>
      q \<notin> used \<and> hsize t q = n \<and> (\<forall>b\<in>used. hsize t b = hsize st b))"
proof (cases "\<exists>x\<in>set xs. n \<le> hsize st x")
  case True
  then show ?thesis using malloc_hit [OF ok n, of sbrk] sys by (metis le_add1)
next
  case False
  obtain rs where rs: "linked (hptr st) (freep st # rs) (hptr st (freep st))" "rs \<noteq> []" "last rs = freep st" "freep st \<notin> set (butlast rs)"
    "set rs = set xs" "hd rs = hptr st (freep st)" using circle ok unfolding heap_ok_def by metis
  have "\<not> search_hit sbrk n (freep st) rs st"
  proof
    assume "search_hit sbrk n (freep st) rs st"
    then obtain us pr x vs where "freep st # rs = us @ pr # x # vs" "n \<le> hsize st x" unfolding search_hit_def by blast
    moreover from this(1) have "x \<in> set rs" by (cases us) auto
    ultimately show False using False rs(5) by auto
  qed
  then have core: "malloc_loop sbrk n (freep st) (hptr st (freep st)) st = Option.bind (morecore sbrk n st) (retry sbrk n)"
    using malloc_search [OF rs(1-4), of sbrk n] rs(6) by auto
  from ok sys room show ?thesis
  proof (cases rule: morecore_ok)
    case stop
    then show ?thesis using core by (simp add: retry_def)
  next
    case (fail k)
    have "heap_ok base lo (brk k) (st\<lparr>usys := k\<rparr>) xs used" using ok fail(3) by (simp add: heap_ok_def free_list_def)
    then show ?thesis using core fail by (auto simp: retry_def)
  next
    case (more t ys)
    have "malloc_loop sbrk n (freep st) (hptr st (freep st)) st = malloc_loop sbrk n (freep t) (hptr t (freep t)) t"
      using core more(1,2) by (simp add: retry_def)
    moreover obtain q u zs where "malloc_loop sbrk n (freep t) (hptr t (freep t)) t = Some (Returns (q + sizeof_Header, u))"
      "heap_ok base lo (brk (usys t)) u zs (insert q used)" "usys u = usys t" "q \<notin> used" "hsize u q = n" "\<forall>b\<in>used. hsize u b = hsize t b"
      using malloc_hit [OF more(3) n more(5), of sbrk] by blast
    ultimately show ?thesis using more(4,6,7) by (intro disjI2 exI [of _ q] exI [of _ u] exI [of _ zs]) simp
  qed
qed

lemma malloc_ok:
  assumes inv: "heap_inv sys_ok brk base lo st used" and room: "brk (usys st) + core_need nbytes < 2 ^ 31"
  shows "malloc sbrk base nbytes st = Some Stops \<or>
    (\<exists>t. malloc sbrk base nbytes st = Some (Returns (0, t)) \<and> heap_inv sys_ok brk base lo t used \<and>
      brk (usys t) = brk (usys st) \<and> (\<forall>b\<in>used. hsize t b = hsize st b)) \<or>
    (\<exists>q t. malloc sbrk base nbytes st = Some (Returns (q + sizeof_Header, t)) \<and> heap_inv sys_ok brk base lo t (insert q used) \<and>
      brk (usys t) \<le> brk (usys st) + core_need nbytes \<and> q \<notin> used \<and> hsize t q = units nbytes \<and> (\<forall>b\<in>used. hsize t b = hsize st b))"
proof -
  define s where "s = (if freep st = 0 then st\<lparr>hptr := (hptr st)(base := base), hsize := (hsize st)(base := 0), freep := base\<rparr> else st)"
  have "\<exists>xs. heap_ok base lo (brk (usys s)) s xs used"
  proof (cases "freep st = 0")
    case True
    then have "heap_ok base lo (brk (usys s)) s [base] used" using inv by (simp add: s_def heap_inv_def heap_ok_def free_list_def tiles_def)
    then show ?thesis ..
  next
    case False
    then show ?thesis using inv by (simp add: s_def heap_inv_def)
  qed
  then obtain xs where ok: "heap_ok base lo (brk (usys s)) s xs used" ..
  have used: "hsize s b = hsize st b" if "b \<in> used" for b using inv that by (auto simp: s_def heap_inv_def)
  have k: "usys s = usys st" "sys_ok (usys s)" using inv by (simp_all add: s_def heap_inv_def)
  have m: "malloc sbrk base nbytes st = malloc_loop sbrk (units nbytes) (freep s) (hptr s (freep s)) s" by (simp add: malloc_def Let_def s_def)
  have inv': "heap_inv sys_ok brk base lo t u" if "heap_ok base lo (brk (usys t)) t ys u" "sys_ok (usys t)" for t ys u
  proof -
    have "freep t \<in> set ys" "\<forall>x\<in>set ys. base \<le> x" "0 < base" using that(1) by (auto simp: heap_ok_def free_list_def less_imp_le)
    then have "freep t \<noteq> 0" by (metis not_le)
    then show ?thesis using that by (auto simp: heap_inv_def heap_ok_def)
  qed
  have "brk (usys s) + sizeof_Header * max (unat (units nbytes)) 4096 < 2 ^ 31" using room k(1) by (simp add: core_need_def)
  from malloc_loop_ok [OF ok k(2) units_nonzero [of nbytes] this]
  show ?thesis unfolding m k(1) core_need_def using used inv' by (elim disjE exE conjE) auto
qed

lemma free_inv:
  assumes inv: "heap_inv sys_ok brk base lo st used" and a: "a \<in> used"
  shows "\<exists>t. free (a + sizeof_Header) st = Some t \<and> heap_inv sys_ok brk base lo t (used - {a}) \<and> usys t = usys st \<and>
    (\<forall>b\<in>used - {a}. hsize t b = hsize st b)"
proof -
  obtain xs where "heap_ok base lo (brk (usys st)) st xs used" using inv a by (auto simp: heap_inv_def split: if_splits)
  then obtain t ys where "free (a + sizeof_Header) st = Some t" "heap_ok base lo (brk (usys st)) t ys (used - {a})" "usys t = usys st"
    "\<forall>b\<in>used - {a}. hsize t b = hsize st b" "freep t \<noteq> 0" using free_ok a by metis
  then show ?thesis using inv by (auto simp: heap_inv_def)
qed

end

end
