(* ===== verification/UserHeap.thy ===== *)
theory UserHeap
  imports Umalloc Process
begin

text \<open>
  The allocator of the user library on the kernel's \<open>sbrk\<close>: \<open>growproc\<close> meets the contract of the allocator, and a program that calls \<open>malloc\<close> and
  \<open>free\<close> gets memory that nothing else uses.
\<close>

section \<open>The kernel's sbrk\<close>

text \<open>The table of processes and the current processes stay as they are.\<close>

definition same_proc :: "'a kproc_scheme \<Rightarrow> 'a kproc_scheme \<Rightarrow> bool" where
  "same_proc s t \<longleftrightarrow> procs t = procs s \<and> (\<forall>j. cproc (cpus t j) = cproc (cpus s j))"

lemma same_proc_refl [simp]: "same_proc s s"
  by (simp add: same_proc_def)

lemma same_proc_trans: "same_proc s t \<Longrightarrow> same_proc t u \<Longrightarrow> same_proc s u"
  by (simp add: same_proc_def)

lemma same_proc_mem [simp]: "same_proc (s\<lparr>pmem := m\<rparr>) t = same_proc s t" "same_proc s (t\<lparr>pmem := m\<rparr>) = same_proc s t"
    "same_proc (s\<lparr>freelist := p\<rparr>) t = same_proc s t" "same_proc s (t\<lparr>freelist := p\<rparr>) = same_proc s t"
  for s t :: "'a kmem_scheme"
  by (simp_all add: same_proc_def)

lemma push_off_same: "same_proc s (push_off h s)" for s :: "'a kproc_scheme"
  by (simp add: same_proc_def push_off_def Let_def intr_off_def upd_cpu_def)

lemma pop_off_same: "pop_off h s = Some t \<Longrightarrow> same_proc s t" for s :: "'a kproc_scheme"
  by (auto simp: same_proc_def pop_off_def Let_def intr_on_def upd_cpu_def split: if_splits)

lemma upd_lock_same [simp]: "same_proc s (upd_lock l f t) = same_proc s t" "same_proc (upd_lock l f s) t = same_proc s t" for s :: "'a kproc_scheme"
  by (simp_all add: same_proc_def upd_lock_def)

lemma acquire_same: "acquire h l s = Some t \<Longrightarrow> same_proc s t" for s :: "'a kproc_scheme"
  by (auto simp: acquire_def Let_def push_off_same split: if_splits)

lemma release_same: "release h l s = Some t \<Longrightarrow> same_proc s t" for s :: "'a kproc_scheme"
  by (auto simp: release_def dest: pop_off_same split: if_splits)

lemma myproc_same: "myproc h s = Some (me, t) \<Longrightarrow> same_proc s t \<and> me = cproc (cpus s h)" for s :: "'a kproc_scheme"
  using push_off_same [of s h] by (auto simp: myproc_def Let_def bind_eq_Some_conv same_proc_def dest: pop_off_same)

lemma kalloc_same: "kalloc h s = Some (p, t) \<Longrightarrow> same_proc s t"
  by (auto simp: kalloc_def Let_def bind_eq_Some_conv split: if_splits dest!: acquire_same release_same intro: same_proc_trans)

lemma kfree_same: "kfree h p s = Some t \<Longrightarrow> same_proc s t"
  by (auto simp: kfree_def Let_def bind_eq_Some_conv split: if_splits dest!: acquire_same release_same intro: same_proc_trans)

lemma walk_loop_same: "walk_loop h pt va alloc l s = Some (p, t) \<Longrightarrow> same_proc s t"
proof (induction l arbitrary: pt s alloc)
  case (Suc l)
  show ?case
    using Suc.prems
    by (auto simp: Let_def bind_eq_Some_conv split: if_splits dest!: kalloc_same Suc.IH intro: same_proc_trans)
qed simp

lemma walk_same: "walk h pt va alloc s = Some (p, t) \<Longrightarrow> same_proc s t"
  by (auto simp: walk_def split: if_splits dest: walk_loop_same)

lemma mappages_loop_same:
  assumes m: "mappages_loop h pt a lst pa perm s = Some y"
  shows "same_proc s (snd y)"
proof (rule mappages_loop.raw_induct [OF _ m, where P = "\<lambda>h pt a lst pa perm s y. same_proc s (snd y)"])
  fix f h pt a lst pa perm and s :: "'a kmem_scheme" and y
  assume ih: "\<And>h pt a lst pa perm s y. f h pt a lst pa perm s = Some y \<Longrightarrow> same_proc s (snd y)"
    and "Option.bind (walk h pt a True s) (\<lambda>(pte, s).
       if pte = 0 then Some (-1, s)
       else if load64 (pmem s) pte AND PTE_V \<noteq> 0 then None
       else let s = s\<lparr>pmem := store64 pte (PA2PTE pa OR perm OR PTE_V) (pmem s)\<rparr>
         in if a = lst then Some (0, s)
            else f h pt (a + PGSIZE) lst (pa + PGSIZE) perm s) = Some y"
  then show "same_proc s (snd y)"
    by (auto simp: bind_eq_Some_conv Let_def split: if_splits dest!: walk_same ih intro: same_proc_trans)
qed

lemma mappages_same: "mappages h pt va len pa perm s = Some (r, t) \<Longrightarrow> same_proc s t"
  by (auto simp: mappages_def split: if_splits dest: mappages_loop_same)

lemma uvmunmap_loop_same:
  assumes m: "uvmunmap_loop h pt a lim do_free s = Some t"
  shows "same_proc s t"
proof (rule uvmunmap_loop.raw_induct [OF _ m, where P = "\<lambda>h pt a lim do_free s t. same_proc s t"])
  fix f h pt a lim do_free and s t :: "'a kmem_scheme"
  assume ih: "\<And>h pt a lim do_free s t. f h pt a lim do_free s = Some t \<Longrightarrow> same_proc s t"
    and "(if a < lim
      then Option.bind (walk h pt a False s) (\<lambda>(pte, s).
        if pte = 0 then None
        else if load64 (pmem s) pte AND PTE_V = 0 then None
        else if PTE_FLAGS (load64 (pmem s) pte) = PTE_V then None
        else Option.bind (if do_free then kfree h (PTE2PA (load64 (pmem s) pte)) s else Some s)
          (\<lambda>s. f h pt (a + PGSIZE) lim do_free (s\<lparr>pmem := store64 pte 0 (pmem s)\<rparr>)))
      else Some s) = Some t"
  then show "same_proc s t"
    by (auto simp: bind_eq_Some_conv split: if_splits dest!: walk_same kfree_same ih intro: same_proc_trans)
qed

lemma uvmdealloc_same: "uvmdealloc h pt oldsz newsz s = Some (r, t) \<Longrightarrow> same_proc s t"
  by (auto simp: uvmdealloc_def uvmunmap_def Let_def bind_eq_Some_conv split: if_splits dest: uvmunmap_loop_same)

lemma uvmalloc_loop_same:
  assumes m: "uvmalloc_loop h pt oldsz a newsz s = Some y"
  shows "same_proc s (snd y) \<and> fst y \<in> {0, newsz}"
proof (rule uvmalloc_loop.raw_induct [OF _ m, where P = "\<lambda>h pt oldsz a newsz s y. same_proc s (snd y) \<and> fst y \<in> {0, newsz}"])
  fix f h pt oldsz a newsz and s :: "'a kmem_scheme" and y
  assume ih: "\<And>h pt oldsz a newsz s y. f h pt oldsz a newsz s = Some y \<Longrightarrow> same_proc s (snd y) \<and> fst y \<in> {0, newsz}"
    and "(if a < newsz
      then Option.bind (kalloc h s) (\<lambda>(mm, s).
        if mm = 0
        then Option.bind (uvmdealloc h pt a oldsz s) (\<lambda>(_, s). Some (0, s))
        else let s = s\<lparr>pmem := memset mm 0 (ucast PGSIZE) (pmem s)\<rparr>
          in Option.bind (mappages h pt a PGSIZE mm (PTE_W OR PTE_X OR PTE_R OR PTE_U) s) (\<lambda>(r, s).
            if r \<noteq> 0
            then Option.bind (kfree h mm s) (\<lambda>s.
              Option.bind (uvmdealloc h pt a oldsz s) (\<lambda>(_, s). Some (0, s)))
            else f h pt oldsz (a + PGSIZE) newsz s))
      else Some (newsz, s)) = Some y"
  then show "same_proc s (snd y) \<and> fst y \<in> {0, newsz}"
    by (auto simp: bind_eq_Some_conv Let_def split: if_splits
        dest!: kalloc_same kfree_same mappages_same uvmdealloc_same ih) (simp_all add: same_proc_def)
qed

text \<open>\<open>sbrk\<close> as the program sees it: the result of \<open>sys_sbrk\<close> for the argument \<open>n\<close>.\<close>

definition kernel_sbrk :: "nat \<Rightarrow> 'a kmem_scheme sbrk" where
  "kernel_sbrk h n s = do {
     (me, s) \<leftarrow> myproc h s;
     p \<leftarrow> me;
     let addr = sint (ucast (sz (procs s p)) :: uint);
     (r, s) \<leftarrow> growproc h n s;
     Some (if r < 0 then None else Some (nat addr), s)
   }"

definition kernel_brk :: "nat \<Rightarrow> 'a kmem_scheme \<Rightarrow> nat" where
  "kernel_brk h s = unat (sz (procs s (the (cproc (cpus s h)))))"

definition kernel_ok :: "nat \<Rightarrow> 'a kmem_scheme \<Rightarrow> bool" where
  "kernel_ok h s \<longleftrightarrow> cproc (cpus s h) \<noteq> None \<and> kernel_brk h s < 2 ^ 31"

lemma unat_down: "unat (w :: uint64) < 2 ^ 32 \<Longrightarrow> unat (ucast w :: uint) = unat w"
  by (simp add: unsigned_ucast_eq take_bit_nat_eq_self)

lemma unat_up: "unat (ucast (v :: uint) :: uint64) = unat v"
  using unat_bound [of v] by (simp add: unsigned_ucast_eq take_bit_nat_eq_self)

lemma growproc_grows:
  assumes g: "growproc h n s = Some (r, t)" and p: "cproc (cpus s h) = Some p" and n: "0 < n" "int (kernel_brk h s) + n < 2 ^ 31"
  shows "r = -1 \<and> same_proc s t \<or> r = 0 \<and> cproc (cpus t h) = Some p \<and> unat (sz (procs t p)) = unat (sz (procs s p)) + nat n"
proof -
  let ?z = "sz (procs s p)"
  define Z where "Z = unat ?z"
  obtain N where N: "n = int N" "nat n = N" using n(1) by (metis nat_int zero_le_imp_eq_int less_imp_le)
  have "kernel_brk h s = Z" using p by (simp add: kernel_brk_def Z_def)
  then have z: "Z + N < 2 ^ 31" using n(2) unfolding N(1) by simp
  then have u: "unat (ucast ?z :: uint) = Z" unfolding Z_def by (intro unat_down) simp
  define u' where "u' = (ucast ?z :: uint) + of_int n"
  have "unat (of_int n :: uint) = N" using z unfolding N(1) by (simp add: unat_of_nat)
  then have u': "unat u' = Z + N" using u z by (simp add: u'_def unat_word_ariths)
  obtain s1 where s1: "myproc h s = Some (Some p, s1)" "same_proc s s1"
  proof -
    obtain me s1 where m: "myproc h s = Some (me, s1)" using g by (cases "myproc h s") (auto simp: growproc_def)
    then show thesis using that [of s1] myproc_same [OF m] p by simp
  qed
  have e: "procs s1 = procs s" using s1(2) by (simp add: same_proc_def)
  obtain x s2 where a: "uvmalloc h (pagetable (procs s p)) (ucast (ucast ?z :: uint)) (ucast u') s1 = Some (x, s2)"
    and rt: "(r, t) = (if (ucast x :: uint) = 0 then (-1, s2) else (0, upd_proc p (\<lambda>q. q\<lparr>sz := ucast (ucast x :: uint)\<rparr>) s2))"
    using g n(1) by (auto simp: growproc_def u'_def e s1(1) bind_eq_Some_conv Let_def split: if_splits)
  have "\<not> (ucast u' :: uint64) < ucast (ucast ?z :: uint)" unfolding word_less_nat_alt unat_up using u u' by simp
  then have lp: "uvmalloc_loop h (pagetable (procs s p)) (PGROUNDUP (ucast (ucast ?z :: uint))) (PGROUNDUP (ucast (ucast ?z :: uint))) (ucast u') s1 = Some (x, s2)"
    using a by (simp add: uvmalloc_def)
  have s2: "same_proc s1 s2" "x = 0 \<or> x = ucast u'" using uvmalloc_loop_same [OF lp] by simp_all
  have x: "unat (ucast x :: uint) = unat x" using s2(2) unat_bound [of u'] unat_up [of u'] by (intro unat_down) auto
  show ?thesis
  proof (cases "x = 0")
    case True
    then show ?thesis using rt same_proc_trans [OF s1(2) s2(1)] by simp
  next
    case False
    then have ux: "unat x = unat u'" using s2(2) unat_up by auto
    then have "unat (ucast x :: uint) \<noteq> 0" using x u' N n(1) by simp
    then have "(ucast x :: uint) \<noteq> 0" by auto
    then have rt': "r = 0" "t = upd_proc p (\<lambda>q. q\<lparr>sz := ucast (ucast x :: uint)\<rparr>) s2" using rt by simp_all
    have "unat (sz (procs t p)) = unat x" unfolding rt'(2) using x unat_up [of "ucast x"] by (simp add: upd_proc_def)
    moreover have "cproc (cpus t h) = Some p" using rt'(2) same_proc_trans [OF s1(2) s2(1)] p by (simp add: same_proc_def upd_proc_def)
    ultimately show ?thesis using rt'(1) ux u' unfolding N(2) Z_def by simp
  qed
qed

interpretation kernel_heap: sbrk_provider "kernel_sbrk h" "kernel_brk h" "kernel_ok h" for h
proof
  fix k :: "'a kmem_scheme" and n
  assume ok: "kernel_ok h k" and n: "0 < n" "int (kernel_brk h k) + n < 2 ^ 31"
  obtain p where p: "cproc (cpus k h) = Some p" using ok by (auto simp: kernel_ok_def)
  have brk: "kernel_brk h k = unat (sz (procs k p))" using p by (simp add: kernel_brk_def)
  show "kernel_sbrk h n k = None \<or> (\<exists>k'. kernel_sbrk h n k = Some (None, k') \<and> kernel_ok h k' \<and> kernel_brk h k' = kernel_brk h k) \<or>
    (\<exists>k'. kernel_sbrk h n k = Some (Some (kernel_brk h k), k') \<and> kernel_ok h k' \<and> kernel_brk h k' = kernel_brk h k + nat n)"
  proof (cases "kernel_sbrk h n k")
    case (Some y)
    obtain k1 r k2 where m: "myproc h k = Some (Some p, k1)" "same_proc k k1" "growproc h n k1 = Some (r, k2)"
      and y: "y = (if r < 0 then None else Some (nat (sint (ucast (sz (procs k p)) :: uint))), k2)"
    proof -
      obtain me k1 where m: "myproc h k = Some (me, k1)" using Some by (cases "myproc h k") (auto simp: kernel_sbrk_def)
      have me: "me = Some p" "same_proc k k1" using myproc_same [OF m] p by auto
      then have "procs k1 = procs k" by (simp add: same_proc_def)
      then show thesis using that [of k1] m me Some by (auto simp: kernel_sbrk_def bind_eq_Some_conv Let_def)
    qed
    have k1: "cproc (cpus k1 h) = Some p" "kernel_brk h k1 = kernel_brk h k" "procs k1 = procs k" using m(2) p by (simp_all add: same_proc_def kernel_brk_def)
    have small: "kernel_brk h k < 2 ^ 31" using ok by (simp add: kernel_ok_def)
    have addr: "sint (ucast (sz (procs k p)) :: uint) = int (kernel_brk h k)"
    proof -
      have "(ucast (sz (procs k p)) :: uint) = of_nat (kernel_brk h k)" by (simp add: brk)
      then show ?thesis using small by (simp only: sint_of_nat_small)
    qed
    from growproc_grows [OF m(3) k1(1) n(1)] n(2)
    consider "r = -1" "same_proc k1 k2" | "r = 0" "cproc (cpus k2 h) = Some p" "unat (sz (procs k2 p)) = unat (sz (procs k p)) + nat n"
      unfolding k1(2,3) by blast
    then show ?thesis
    proof cases
      case 1
      then show ?thesis using Some y ok same_proc_trans [OF m(2) 1(2)] by (auto simp: kernel_ok_def kernel_brk_def same_proc_def)
    next
      case 2
      have "kernel_brk h k2 = kernel_brk h k + nat n" using 2 brk by (simp add: kernel_brk_def)
      then show ?thesis using Some y 2 addr n by (auto simp: kernel_ok_def)
    qed
  qed simp
qed

section \<open>Programs that allocate and free\<close>

text \<open>A program allocates, and frees the \<open>i\<close>th of the pointers it holds; with each pointer it keeps the number of bytes it asked for.\<close>

datatype heap_op = Malloc uint | Free nat

fun client :: "'s sbrk \<Rightarrow> nat \<Rightarrow> heap_op list \<Rightarrow> 's uheap \<Rightarrow> (nat \<times> uint) list \<Rightarrow> ('s uheap \<times> (nat \<times> uint) list) outcome option" where
  "client sbrk base [] st held = Some (Returns (st, held))"
| "client sbrk base (Malloc n # ops) st held =
     Option.bind (malloc sbrk base n st) (\<lambda>r. case r of
       Stops \<Rightarrow> Some Stops
     | Returns (p, st) \<Rightarrow> client sbrk base ops st (if p = 0 then held else (p, n) # held))"
| "client sbrk base (Free i # ops) st held =
     (if i < length held
      then Option.bind (free (fst (held ! i)) st) (\<lambda>st. client sbrk base ops st (take i held @ drop (Suc i) held))
      else client sbrk base ops st held)"

fun ops_need :: "heap_op list \<Rightarrow> nat" where
  "ops_need [] = 0"
| "ops_need (Malloc n # ops) = core_need n + ops_need ops"
| "ops_need (Free i # ops) = ops_need ops"

definition header_of :: "nat \<times> uint \<Rightarrow> nat" where
  "header_of = (\<lambda>(p, n). p - sizeof_Header)"

lemma header_of_pair [simp]: "header_of (p, n) = p - sizeof_Header"
  by (simp add: header_of_def)

definition heap_held :: "('s \<Rightarrow> bool) \<Rightarrow> ('s \<Rightarrow> nat) \<Rightarrow> nat \<Rightarrow> nat \<Rightarrow> 's uheap \<Rightarrow> (nat \<times> uint) list \<Rightarrow> bool" where
  "heap_held sys_ok brk base lo st held \<longleftrightarrow> heap_inv sys_ok brk base lo st (header_of ` set held) \<and> distinct (map header_of held) \<and>
     (\<forall>(p, n)\<in>set held. sizeof_Header \<le> p \<and> hsize st (p - sizeof_Header) = units n)"

lemma held_remove:
  assumes "i < length xs" "distinct (map f xs)"
  shows "f ` set (take i xs @ drop (Suc i) xs) = f ` set xs - {f (xs ! i)}" "distinct (map f (take i xs @ drop (Suc i) xs))"
    "set (take i xs @ drop (Suc i) xs) \<subseteq> set xs"
proof -
  have xs: "xs = take i xs @ xs ! i # drop (Suc i) xs" by (rule id_take_nth_drop [OF assms(1)])
  have d: "distinct (map f (take i xs @ xs ! i # drop (Suc i) xs))" using assms(2) xs by metis
  have "f ` set xs = f ` set (take i xs @ xs ! i # drop (Suc i) xs)" using xs by metis
  then have "f ` set xs = insert (f (xs ! i)) (f ` set (take i xs @ drop (Suc i) xs))" by auto
  moreover have "f (xs ! i) \<notin> f ` set (take i xs @ drop (Suc i) xs)" using d by auto
  ultimately show "f ` set (take i xs @ drop (Suc i) xs) = f ` set xs - {f (xs ! i)}" by simp
  show "distinct (map f (take i xs @ drop (Suc i) xs))" using d by auto
  show "set (take i xs @ drop (Suc i) xs) \<subseteq> set xs" using set_take_subset set_drop_subset by fastforce
qed

context sbrk_provider
begin

lemma held_malloc:
  assumes inv: "heap_held sys_ok brk base lo st held" and room: "brk (usys st) + core_need n < 2 ^ 31"
  obtains (stop) "malloc sbrk base n st = Some Stops"
    | (ret) p t where "malloc sbrk base n st = Some (Returns (p, t))" "heap_held sys_ok brk base lo t (if p = 0 then held else (p, n) # held)"
        "brk (usys t) \<le> brk (usys st) + core_need n"
proof -
  have h: "heap_inv sys_ok brk base lo st (header_of ` set held)" "distinct (map header_of held)"
    "\<forall>(p, n)\<in>set held. sizeof_Header \<le> p \<and> hsize st (p - sizeof_Header) = units n" using inv by (simp_all add: heap_held_def)
  have keep: "\<forall>(p, n)\<in>set held. sizeof_Header \<le> p \<and> hsize t (p - sizeof_Header) = units n"
    if "\<forall>b\<in>header_of ` set held. hsize t b = hsize st b" for t
  proof clarify
    fix p n assume m: "(p, n) \<in> set held"
    then have "hsize t (header_of (p, n)) = hsize st (header_of (p, n))" using that by blast
    then show "sizeof_Header \<le> p \<and> hsize t (p - sizeof_Header) = units n" using h(3) m by auto
  qed
  from malloc_ok [OF h(1) room] show thesis
  proof (elim disjE exE conjE)
    fix t
    assume q: "malloc sbrk base n st = Some (Returns (0, t))" "heap_inv sys_ok brk base lo t (header_of ` set held)" "brk (usys t) = brk (usys st)"
      "\<forall>b\<in>header_of ` set held. hsize t b = hsize st b"
    have "heap_held sys_ok brk base lo t held" using q(2) h(2) keep [OF q(4)] by (simp add: heap_held_def)
    then show thesis using ret [of 0 t] q by simp
  next
    fix q t
    assume q: "malloc sbrk base n st = Some (Returns (q + sizeof_Header, t))" "heap_inv sys_ok brk base lo t (insert q (header_of ` set held))"
      "brk (usys t) \<le> brk (usys st) + core_need n" "q \<notin> header_of ` set held" "hsize t q = units n" "\<forall>b\<in>header_of ` set held. hsize t b = hsize st b"
    have "heap_held sys_ok brk base lo t ((q + sizeof_Header, n) # held)"
      using q h(2) keep [OF q(6)] by (simp add: heap_held_def)
    then show thesis using ret [of "q + sizeof_Header" t] q by (simp add: sizeof_Header_def)
  qed (use stop in blast)
qed

lemma held_free:
  assumes inv: "heap_held sys_ok brk base lo st held" and i: "i < length held"
  obtains t where "free (fst (held ! i)) st = Some t" "heap_held sys_ok brk base lo t (take i held @ drop (Suc i) held)" "usys t = usys st"
proof -
  have h: "heap_inv sys_ok brk base lo st (header_of ` set held)" "distinct (map header_of held)"
    "\<forall>(p, n)\<in>set held. sizeof_Header \<le> p \<and> hsize st (p - sizeof_Header) = units n" using inv by (simp_all add: heap_held_def)
  note rm = held_remove [OF i h(2)]
  obtain p n where pn: "held ! i = (p, n)" by (cases "held ! i")
  have p: "header_of (p, n) \<in> header_of ` set held" "header_of (p, n) + sizeof_Header = p"
    using pn h(3) nth_mem [OF i] by (auto simp del: header_of_pair, auto)
  obtain t where t: "free p st = Some t" "heap_inv sys_ok brk base lo t (header_of ` set held - {header_of (p, n)})" "usys t = usys st"
    "\<forall>b\<in>header_of ` set held - {header_of (p, n)}. hsize t b = hsize st b" using free_inv [OF h(1) p(1)] p(2) by auto
  have "\<forall>(p, n)\<in>set (take i held @ drop (Suc i) held). sizeof_Header \<le> p \<and> hsize t (p - sizeof_Header) = units n"
  proof clarify
    fix p' n' assume m: "(p', n') \<in> set (take i held @ drop (Suc i) held)"
    then have "header_of (p', n') \<in> header_of ` set held - {header_of (p, n)}" using rm(1) pn by (metis imageI)
    then have "hsize t (header_of (p', n')) = hsize st (header_of (p', n'))" using t(4) by blast
    moreover have "(p', n') \<in> set held" using m rm(3) by blast
    ultimately show "sizeof_Header \<le> p' \<and> hsize t (p' - sizeof_Header) = units n'" using h(3) by auto
  qed
  then have "heap_held sys_ok brk base lo t (take i held @ drop (Suc i) held)" using t(2) rm(1,2) pn by (simp add: heap_held_def)
  then show thesis using that t pn by simp
qed

lemma client_ok:
  assumes "heap_held sys_ok brk base lo st held" "brk (usys st) + ops_need ops < 2 ^ 31"
  shows "client sbrk base ops st held = Some Stops \<or>
    (\<exists>t held'. client sbrk base ops st held = Some (Returns (t, held')) \<and> heap_held sys_ok brk base lo t held')"
  using assms
proof (induction ops arbitrary: st held)
  case (Cons op ops)
  show ?case
  proof (cases op)
    case (Malloc n)
    have room: "brk (usys st) + core_need n < 2 ^ 31" using Cons.prems(2) Malloc by simp
    from Cons.prems(1) room show ?thesis
    proof (cases rule: held_malloc)
      case (ret p t)
      then show ?thesis using Cons.IH [OF ret(2)] Cons.prems(2) Malloc by simp
    qed (simp add: Malloc)
  next
    case (Free i)
    show ?thesis
    proof (cases "i < length held")
      case True
      obtain t where "free (fst (held ! i)) st = Some t" "heap_held sys_ok brk base lo t (take i held @ drop (Suc i) held)" "usys t = usys st"
        by (rule held_free [OF Cons.prems(1) True])
      then show ?thesis using Cons.IH [of t] Cons.prems(2) True Free by simp
    qed (use Cons Free in simp)
  qed
qed simp

end

text \<open>The memory of a pointer: the bytes that were asked for.\<close>

definition bytes_of :: "nat \<times> uint \<Rightarrow> nat set" where
  "bytes_of = (\<lambda>(p, n). {p..<p + unat n})"

lemma held_blocks:
  assumes inv: "heap_held sys_ok brk base lo st held" and ij: "i < length held" "j < length held"
  shows "i \<noteq> j \<Longrightarrow> bytes_of (held ! i) \<inter> bytes_of (held ! j) = {}" "bytes_of (held ! i) \<subseteq> {lo..<brk (usys st)}"
proof -
  have h: "heap_inv sys_ok brk base lo st (header_of ` set held)" "distinct (map header_of held)"
    "\<forall>(p, n)\<in>set held. sizeof_Header \<le> p \<and> hsize st (p - sizeof_Header) = units n" using inv by (simp_all add: heap_held_def)
  have ne: "header_of ` set held \<noteq> {}" using ij by auto
  then obtain xs where "heap_ok base lo (brk (usys st)) st xs (header_of ` set held)" using h(1) by (auto simp: heap_inv_def split: if_splits)
  then have t: "tiles (hsize st) (set (tl xs) \<union> header_of ` set held) lo (brk (usys st))" by (simp add: heap_ok_def)
  have sub: "bytes_of (held ! k) \<subseteq> block (hsize st) (header_of (held ! k))" if k: "k < length held" for k
  proof -
    obtain p n where pn: "held ! k = (p, n)" by (cases "held ! k")
    have "sizeof_Header \<le> p" "hsize st (p - sizeof_Header) = units n" using h(3) nth_mem [OF k] pn by auto
    moreover have "unat n \<le> 16 * ((unat n + 15) div 16)" by simp
    ultimately show ?thesis by (auto simp: pn bytes_of_def block_def units_eq sizeof_Header_def)
  qed
  have mem: "header_of (held ! k) \<in> set (tl xs) \<union> header_of ` set held" if "k < length held" for k using that by simp
  have "header_of (held ! i) \<noteq> header_of (held ! j)" if "i \<noteq> j" using h(2) ij that by (metis distinct_conv_nth length_map nth_map)
  then show "bytes_of (held ! i) \<inter> bytes_of (held ! j) = {}" if "i \<noteq> j"
    using that sub ij tiles_disjoint [OF t mem [OF ij(1)] mem [OF ij(2)]] by blast
  have "block (hsize st) (header_of (held ! i)) \<subseteq> {lo..<brk (usys st)}" using t mem [OF ij(1)] unfolding tiles_def by blast
  then show "bytes_of (held ! i) \<subseteq> {lo..<brk (usys st)}" using sub ij(1) by blast
qed

text \<open>
  C17: a program that starts with an empty heap and calls \<open>malloc\<close> and \<open>free\<close> in any order, on the kernel's \<open>sbrk\<close>, never holds two
  pieces of memory that overlap, however the allocator splits, merges and grows its blocks; each piece has the bytes that were asked
  for, and lies between the old and the new end of the memory of the process.  Every call returns, unless the kernel stops, as long as
  the process stays below 2 GB.
\<close>

theorem umalloc_never_shares:
  fixes st :: "'a kmem_scheme uheap"
  assumes "freep st = 0" "kernel_ok h (usys st)" "0 < base" "base < kernel_brk h (usys st)" "kernel_brk h (usys st) + ops_need ops < 2 ^ 31"
  shows "client (kernel_sbrk h) base ops st [] = Some Stops \<or>
    (\<exists>t held. client (kernel_sbrk h) base ops st [] = Some (Returns (t, held)) \<and>
      (\<forall>i<length held. \<forall>j<length held. i \<noteq> j \<longrightarrow> bytes_of (held ! i) \<inter> bytes_of (held ! j) = {}) \<and>
      (\<forall>x\<in>set held. bytes_of x \<subseteq> {kernel_brk h (usys st)..<kernel_brk h (usys t)}))"
proof -
  have "heap_held (kernel_ok h) (kernel_brk h) base (kernel_brk h (usys st)) st []"
    using assms by (simp add: heap_held_def heap_inv_def)
  from kernel_heap.client_ok [OF this assms(5)] show ?thesis
  proof (elim disjE exE conjE)
    fix t held
    assume c: "client (kernel_sbrk h) base ops st [] = Some (Returns (t, held))"
      and ok: "heap_held (kernel_ok h) (kernel_brk h) base (kernel_brk h (usys st)) t held"
    have "bytes_of x \<subseteq> {kernel_brk h (usys st)..<kernel_brk h (usys t)}" if x: "x \<in> set held" for x
    proof -
      obtain i where "i < length held" "x = held ! i" using x by (auto simp: in_set_conv_nth)
      then show ?thesis using held_blocks(2) [OF ok, of i i] by simp
    qed
    then show ?thesis using c held_blocks(1) [OF ok] by blast
  qed blast
qed

definition example_user :: kmem where
  "example_user = boot_kmem\<lparr>cpus := (\<lambda>h. idle_cpu)(0 := idle_cpu\<lparr>cproc := Some 0\<rparr>),
     procs := (\<lambda>p. unused_proc)(0 := unused_proc\<lparr>pstate := RUNNING, pid := 1, sz := 0x4000\<rparr>)\<rparr>"

theorem umalloc_never_shares_witness:
  "let st = \<lparr>hptr = (\<lambda>a. 0), hsize = (\<lambda>a. 0), freep = 0, usys = example_user\<rparr>; ops = [Malloc 100, Malloc 70000, Free 0, Malloc 1] in
    client (kernel_sbrk 0) 0x1000 ops st [] = Some Stops \<or>
    (\<exists>t held. client (kernel_sbrk 0) 0x1000 ops st [] = Some (Returns (t, held)) \<and>
      (\<forall>i<length held. \<forall>j<length held. i \<noteq> j \<longrightarrow> bytes_of (held ! i) \<inter> bytes_of (held ! j) = {}) \<and>
      (\<forall>x\<in>set held. bytes_of x \<subseteq> {kernel_brk 0 (usys st)..<kernel_brk 0 (usys t)}))"
proof -
  have "kernel_brk 0 example_user = 0x4000" by (simp add: kernel_brk_def example_user_def boot_kmem_def)
  moreover have "kernel_ok 0 example_user" using calculation by (simp add: kernel_ok_def example_user_def boot_kmem_def)
  moreover have "ops_need [Malloc 100, Malloc 70000, Free 0, Malloc 1] < 2 ^ 20" by (simp add: core_need_def units_eq sizeof_Header_def)
  ultimately show ?thesis unfolding Let_def by (intro umalloc_never_shares) simp_all
qed

end
