(* ===== verification/Mkfs.thy ===== *)
theory Mkfs
  imports FsRead
begin

text \<open>
  The program that makes the disk image, \<^verbatim>\<open>mkfs/mkfs.c\<close>, which runs on the machine that builds the system.  The image is a file
  of that machine, the list of its sectors; reading beyond its end is an error of \<open>read\<close>, and writing beyond its end extends it.  The
  machine is little-endian.  What \<open>open\<close> and \<open>read\<close> of the files to copy give is a parameter: the pieces that the successive calls of
  \<open>read\<close> return, or nothing when the file cannot be opened.  \<open>None\<close> is a run that ends in \<open>die\<close>, \<open>exit(1)\<close> or a failed \<open>assert\<close>.
  A \<open>struct dinode\<close> is the on-disk part of the record \<open>inode\<close>, whose other fields \<open>mkfs\<close> does not use.
\<close>

section \<open>The program\<close>

definition FSSIZE :: nat where "FSSIZE = 1000"
definition NINODES :: nat where "NINODES = 200"
definition nbitmap :: nat where "nbitmap = FSSIZE div (BSIZE * 8) + 1"
definition ninodeblocks :: nat where "ninodeblocks = NINODES div IPB + 1"
definition nmeta :: nat where "nmeta = 2 + LOGSIZE + ninodeblocks + nbitmap"

record mkfs =
  fsimg :: "bytes list"
  freeinode :: uint
  freeblock :: uint

definition xshort :: "ushort \<Rightarrow> ushort" where
  "xshort x = dec_le [ucast x, ucast (drop_bit 8 x)]"

definition xint :: "uint \<Rightarrow> uint" where
  "xint x = dec_le [ucast x, ucast (drop_bit 8 x), ucast (drop_bit 16 x), ucast (drop_bit 24 x)]"

text \<open>The super block, and its bytes at the start of a block.\<close>

definition mk_sb :: superblock where
  "mk_sb = \<lparr>magic = FSMAGIC, sbsize = xint (of_nat FSSIZE), nblocks = xint (of_nat (FSSIZE - nmeta)), ninodes = xint (of_nat NINODES),
     nlog = xint (of_nat LOGSIZE), logstart = xint 2, inodestart = xint (of_nat (2 + LOGSIZE)),
     bmapstart = xint (of_nat (2 + LOGSIZE + ninodeblocks))\<rparr>"

definition put_superblock :: "superblock \<Rightarrow> bytes \<Rightarrow> bytes" where
  "put_superblock b xs = put32 28 (bmapstart b) (put32 24 (inodestart b) (put32 20 (logstart b) (put32 16 (nlog b)
     (put32 12 (ninodes b) (put32 8 (nblocks b) (put32 4 (sbsize b) (put32 0 (magic b) xs)))))))"

definition rsect :: "uint \<Rightarrow> mkfs \<Rightarrow> bytes option" where
  "rsect sec m =
     (let i = unat (sec * of_nat BSIZE) div BSIZE
      in if i < length (fsimg m) then Some (fsimg m ! i) else None)"

definition wsect :: "uint \<Rightarrow> bytes \<Rightarrow> mkfs \<Rightarrow> mkfs" where
  "wsect sec buf m =
     (let i = unat (sec * of_nat BSIZE) div BSIZE; n = length (fsimg m)
      in m\<lparr>fsimg := (if i < n then (fsimg m)[i := buf] else fsimg m @ replicate (i - n) (replicate BSIZE 0) @ [buf])\<rparr>)"

definition dinode0 :: "uint \<Rightarrow> inode" where
  "dinode0 i = \<lparr>idev = 0, inum = i, iref = 0, ivalid = False, itype = 0, imajor = 0, iminor = 0, inlink = 0, isize = 0, iaddrs = (\<lambda>k. 0)\<rparr>"

definition winode :: "uint \<Rightarrow> inode \<Rightarrow> mkfs \<Rightarrow> mkfs option" where
  "winode i ip m = do {
     let bn = IBLOCK i mk_sb;
     buf \<leftarrow> rsect bn m;
     Some (wsect bn (put_dinode (dinode_off i) ip buf) m)
   }"

definition rinode :: "uint \<Rightarrow> mkfs \<Rightarrow> inode option" where
  "rinode i m = do {
     buf \<leftarrow> rsect (IBLOCK i mk_sb) m;
     Some (get_dinode (dinode_off i) buf (dinode0 i))
   }"

definition mk_ialloc :: "ushort \<Rightarrow> mkfs \<Rightarrow> (uint \<times> mkfs) option" where
  "mk_ialloc ty m = do {
     let i = freeinode m;
     let m = m\<lparr>freeinode := i + 1\<rparr>;
     m \<leftarrow> winode i ((dinode0 i)\<lparr>itype := xshort ty, inlink := xshort 1, isize := xint 0\<rparr>) m;
     Some (i, m)
   }"

text \<open>The bitmap of the first blocks, and writing it.\<close>

definition mk_bits :: "nat \<Rightarrow> bytes" where
  "mk_bits used = fold (\<lambda>i buf. buf[i div 8 := buf ! (i div 8) OR push_bit (i mod 8) 1]) [0..<used] (replicate BSIZE 0)"

definition mk_balloc :: "nat \<Rightarrow> mkfs \<Rightarrow> mkfs option" where
  "mk_balloc used m = (if used < BSIZE * 8 then Some (wsect (bmapstart mk_sb) (mk_bits used) m) else None)"

text \<open>The block \<open>fbn\<close> of a file, a new one if need be; first its entry in the indirect block.\<close>

definition iappend_entry :: "nat \<Rightarrow> inode \<Rightarrow> mkfs \<Rightarrow> (uint \<times> inode \<times> mkfs) option" where
  "iappend_entry fbn din m = do {
     indirect \<leftarrow> rsect (xint (iaddrs din NDIRECT)) m;
     let (indirect, m) = (if get32 (4 * (fbn - NDIRECT)) indirect = 0
       then let indirect = put32 (4 * (fbn - NDIRECT)) (xint (freeblock m)) indirect;
                m = m\<lparr>freeblock := freeblock m + 1\<rparr>
            in (indirect, wsect (xint (iaddrs din NDIRECT)) indirect m)
       else (indirect, m));
     Some (xint (get32 (4 * (fbn - NDIRECT)) indirect), din, m)
   }"

definition iappend_block :: "nat \<Rightarrow> inode \<Rightarrow> mkfs \<Rightarrow> (uint \<times> inode \<times> mkfs) option" where
  "iappend_block fbn din m =
     (if fbn < NDIRECT
      then let (din, m) = (if xint (iaddrs din fbn) = 0
             then (din\<lparr>iaddrs := (iaddrs din)(fbn := xint (freeblock m))\<rparr>, m\<lparr>freeblock := freeblock m + 1\<rparr>) else (din, m))
           in Some (xint (iaddrs din fbn), din, m)
      else let (din, m) = (if xint (iaddrs din NDIRECT) = 0
             then (din\<lparr>iaddrs := (iaddrs din)(NDIRECT := xint (freeblock m))\<rparr>, m\<lparr>freeblock := freeblock m + 1\<rparr>) else (din, m))
           in iappend_entry fbn din m)"

lemma next_block: "n < BSIZE + n div BSIZE * BSIZE"
  by (simp add: BSIZE_def)

function iappend_loop :: "bytes \<Rightarrow> uint \<Rightarrow> inode \<Rightarrow> mkfs \<Rightarrow> (uint \<times> inode \<times> mkfs) option" where
  "iappend_loop p off din m =
     (if p = [] then Some (off, din, m)
      else do {
        let fbn = unat off div BSIZE;
        if \<not> fbn < MAXFILE then None
        else do {
          (x, din, m) \<leftarrow> iappend_block fbn din m;
          let n1 = min (length p) ((fbn + 1) * BSIZE - unat off);
          buf \<leftarrow> rsect x m;
          let m = wsect x (splice_at (unat off - fbn * BSIZE) (take n1 p) buf) m;
          iappend_loop (drop n1 p) (off + of_nat n1) din m
        }
      })"
  by auto
termination
  by (relation "measure (\<lambda>(p, _). length p)") (use next_block in \<open>auto simp: Let_def\<close>)

declare iappend_loop.simps [simp del]

definition iappend :: "uint \<Rightarrow> bytes \<Rightarrow> mkfs \<Rightarrow> mkfs option" where
  "iappend i p m = do {
     din \<leftarrow> rinode i m;
     (off, din, m) \<leftarrow> iappend_loop p (xint (isize din)) din m;
     winode i (din\<lparr>isize := xint off\<rparr>) m
   }"

definition dirent :: "uint \<Rightarrow> bytes \<Rightarrow> bytes" where
  "dirent i name = enc_le 2 (xshort (ucast i)) @ take DIRSIZ (name @ replicate DIRSIZ 0)"

text \<open>The name of a file in the image: without \<^verbatim>\<open>user/\<close>, and then without the first underscore.\<close>

definition strip_user :: "bytes \<Rightarrow> bytes" where
  "strip_user a = (if take 5 a = [117, 115, 101, 114, 47] then drop 5 a else a)"

definition shortname :: "bytes \<Rightarrow> bytes" where
  "shortname a = (let s = strip_user a in if s \<noteq> [] \<and> hd s = 95 then tl s else s)"

type_synonym host = "bytes \<Rightarrow> bytes list option"

definition mk_file :: "host \<Rightarrow> uint \<Rightarrow> bytes \<Rightarrow> mkfs \<Rightarrow> mkfs option" where
  "mk_file host rootino a m =
     (if slash \<in> set (strip_user a) then None
      else do {
        pieces \<leftarrow> host a;
        (i, m) \<leftarrow> mk_ialloc T_FILE m;
        m \<leftarrow> iappend rootino (dirent i (shortname a)) m;
        for_each (iappend i) pieces m
      })"

definition mk_blank :: mkfs where
  "mk_blank = fold (\<lambda>i. wsect (of_nat i) (replicate BSIZE 0)) [0..<FSSIZE] \<lparr>fsimg = [], freeinode = 1, freeblock = of_nat nmeta\<rparr>"

definition mk_main :: "(bytes \<Rightarrow> bool) \<Rightarrow> host \<Rightarrow> bytes list \<Rightarrow> mkfs option" where
  "mk_main can_create host argv =
     (if length argv < 2 \<or> \<not> can_create (argv ! 1) then None
      else do {
        let m = wsect 1 (put_superblock mk_sb (replicate BSIZE 0)) mk_blank;
        (rootino, m) \<leftarrow> mk_ialloc T_DIR m;
        if rootino \<noteq> ROOTINO then None
        else do {
          m \<leftarrow> iappend rootino (dirent rootino [46]) m;
          m \<leftarrow> iappend rootino (dirent rootino [46, 46]) m;
          m \<leftarrow> for_each (mk_file host rootino) (drop 2 argv) m;
          din \<leftarrow> rinode rootino m;
          let off = (xint (isize din) div of_nat BSIZE + 1) * of_nat BSIZE;
          m \<leftarrow> winode rootino (din\<lparr>isize := xint off\<rparr>) m;
          mk_balloc (unat (freeblock m)) m
        }
      })"

end
