(* ===== verification/MkfsImage.thy ===== *)
theory MkfsImage
  imports Mkfs
begin

text \<open>
  The image that \<^verbatim>\<open>mkfs/mkfs.c\<close> makes is a file system of the kernel.  While \<open>mkfs\<close> runs, the bitmap is not yet written; the
  proofs look at the image as if it were, \<open>marked\<close>, so that taking the next free block is the step \<open>taken_block\<close> of the kernel's
  \<open>balloc\<close> and appending to a file is the change \<open>file_written\<close> of the kernel's \<open>writei\<close>.
\<close>

section \<open>Sectors\<close>

lemma xshort_id [simp]: "xshort x = x" and xint_id [simp]: "xint y = y"
proof -
  have "[ucast x, ucast (drop_bit 8 x)] = enc_le 2 x" by (simp add: numeral_2_eq_2)
  then show "xshort x = x" unfolding xshort_def by (simp only: dec_enc_le) (simp add: take_bit_word_eq_self)
  have "[ucast y, ucast (drop_bit 8 y), ucast (drop_bit 16 y), ucast (drop_bit 24 y)] = enc_le 4 y"
    by (simp add: eval_nat_numeral)
  then show "xint y = y" unfolding xint_def by (simp only: dec_enc_le) (simp add: take_bit_word_eq_self)
qed

lemma mk_sb_eq: "mk_sb = example_sb"
  by (simp add: mk_sb_def example_sb_def FSSIZE_def nmeta_def ninodeblocks_def nbitmap_def NINODES_def IPB_def BSIZE_def sizeof_dinode_def
      LOGSIZE_def MAXOPBLOCKS_def FSMAGIC_def)

lemma nmeta_eq: "nmeta = 46"
  by (simp add: nmeta_def ninodeblocks_def nbitmap_def FSSIZE_def NINODES_def IPB_def BSIZE_def sizeof_dinode_def LOGSIZE_def MAXOPBLOCKS_def)

definition sector :: "mkfs \<Rightarrow> uint \<Rightarrow> bytes" where
  "sector m b = (if unat b < length (fsimg m) then fsimg m ! unat b else replicate BSIZE 0)"

lemma sect_index: "unat (b :: uint) < FSSIZE \<Longrightarrow> unat (b * of_nat BSIZE) div BSIZE = unat b"
proof -
  assume "unat b < FSSIZE"
  then have "unat (b * 1024 :: uint) = unat b * 1024" by (simp add: unat_word_ariths FSSIZE_def)
  then show ?thesis by (simp add: BSIZE_def)
qed

lemma rsect_sector: "length (fsimg m) = FSSIZE \<Longrightarrow> unat b < FSSIZE \<Longrightarrow> rsect b m = Some (sector m b)"
  by (simp add: rsect_def sect_index sector_def)

lemma wsect_sector:
  assumes "length (fsimg m) = FSSIZE" "unat b < FSSIZE"
  shows "sector (wsect b v m) = (sector m)(b := v)" "length (fsimg (wsect b v m)) = FSSIZE"
    "freeinode (wsect b v m) = freeinode m" "freeblock (wsect b v m) = freeblock m"
  using assms by (auto simp: wsect_def sect_index sector_def Let_def fun_eq_iff nth_list_update word_unat_eq_iff)

section \<open>The image with its bitmap\<close>

lemma mk_bits_Suc: "mk_bits (Suc u) = (mk_bits u)[u div 8 := mk_bits u ! (u div 8) OR push_bit (u mod 8) 1]"
  by (simp add: mk_bits_def)

lemma length_mk_bits [simp]: "length (mk_bits u) = BSIZE"
  by (induction u) (simp_all add: mk_bits_Suc mk_bits_def)

lemma mk_bits_bit: "u \<le> 8192 \<Longrightarrow> j < 8192 \<Longrightarrow> bit (mk_bits u ! (j div 8)) (j mod 8) \<longleftrightarrow> j < u"
proof (induction u)
  case 0
  then have "j div 8 < BSIZE" by (simp add: BSIZE_def)
  then show ?case by (simp add: mk_bits_def)
next
  case (Suc u)
  have "u div 8 < length (mk_bits u)" "j div 8 < length (mk_bits u)" using Suc.prems by (auto simp: BSIZE_def)
  from bit_of_list(1) [OF this] show ?case using Suc by (auto simp: mk_bits_Suc)
qed

definition marked :: "mkfs \<Rightarrow> uint \<Rightarrow> bytes" where
  "marked m = (sector m)(bmapstart mk_sb := mk_bits (unat (freeblock m)))"

definition img_ok :: "mkfs \<Rightarrow> bool" where
  "img_ok m \<longleftrightarrow> length (fsimg m) = FSSIZE \<and> (\<forall>x\<in>set (fsimg m). length x = BSIZE) \<and> nmeta \<le> unat (freeblock m) \<and>
     unat (freeblock m) \<le> FSSIZE \<and> (\<forall>b. unat (freeblock m) \<le> unat b \<longrightarrow> sector m b = replicate BSIZE 0)"

abbreviation mk_log :: "uint set" where
  "mk_log \<equiv> log_area 2 30"

lemma mk_sb_fields: "unat (sbsize mk_sb) = 1000" "bmapstart mk_sb = 45" "inodestart mk_sb = 32"
  by (simp_all add: mk_sb_eq example_sb_def)

lemma mk_BBLOCK: "unat b < FSSIZE \<Longrightarrow> BBLOCK b mk_sb = 45"
  using example_BBLOCK [of "unat b"] by (simp add: mk_sb_eq FSSIZE_def)

lemma mk_bitmap_blocks: "bitmap_blocks mk_sb = {45}"
proof -
  have "BBLOCK (of_nat n) mk_sb = 45" if "n < 1000" for n
    using example_BBLOCK [OF that] by (simp add: mk_sb_eq)
  then show ?thesis by (auto simp: bitmap_blocks_def mk_sb_fields image_iff intro!: exI [of _ 0])
qed

lemma mk_IBLOCK:
  assumes "unat i < 208"
  shows "32 \<le> unat (IBLOCK i mk_sb)" "unat (IBLOCK i mk_sb) < 45"
proof -
  have "unat (i div 16) = unat i div 16" by (simp add: unat_div)
  then have "unat (IBLOCK i mk_sb) = unat i div 16 + 32"
    using assms by (simp add: IBLOCK_def mk_sb_fields IPB_def BSIZE_def sizeof_dinode_def unat_word_ariths)
  then show "32 \<le> unat (IBLOCK i mk_sb)" "unat (IBLOCK i mk_sb) < 45" using assms by auto
qed

lemma img_okD:
  assumes "img_ok m"
  shows "length (fsimg m) = FSSIZE" "46 \<le> unat (freeblock m)" "unat (freeblock m) \<le> 1000"
    "unat (freeblock m) \<le> unat b \<Longrightarrow> sector m b = replicate BSIZE 0" "length (sector m b) = BSIZE" "length (marked m b) = BSIZE"
  using assms by (auto simp: img_ok_def nmeta_eq FSSIZE_def sector_def marked_def)

lemma marked_used:
  assumes "img_ok m" "unat b < FSSIZE"
  shows "blk_used mk_sb (marked m) b \<longleftrightarrow> unat b < unat (freeblock m)"
  using mk_bits_bit [of "unat (freeblock m)" "unat b"] img_okD(3) [OF assms(1)] assms(2)
  by (simp add: blk_used_def mk_BBLOCK marked_def mk_sb_fields FSSIZE_def)

lemma marked_layout:
  assumes ok: "img_ok m" and i: "unat i < 208"
  shows "layout_ok mk_log mk_sb i (marked m)"
proof -
  note o = img_okD [OF ok] and I = mk_IBLOCK [OF i]
  have u: "blk_used mk_sb (marked m) b" if "unat b < 46" for b using marked_used [OF ok, of b] o(2) that by (simp add: FSSIZE_def)
  have L: "unat b < 32" if "b \<in> mk_log" for b
    using example_log_area [OF that] by (auto simp: unsigned_of_nat take_bit_nat_eq_self)
  have "b \<in> bitmap_blocks mk_sb \<Longrightarrow> b = 45" for b by (simp add: mk_bitmap_blocks)
  moreover have "BBLOCK (of_nat n) mk_sb = 45" if "n < 1000" for n
    using that by (intro mk_BBLOCK) (simp add: FSSIZE_def unsigned_of_nat take_bit_nat_eq_self)
  moreover have "IBLOCK i mk_sb \<noteq> 0" "IBLOCK i mk_sb \<noteq> 45" "(45 :: uint) \<notin> mk_log" "IBLOCK i mk_sb \<notin> mk_log"
    using I L [of 45] L [of "IBLOCK i mk_sb"] by auto
  ultimately show ?thesis
    using o(6) I u L by (fastforce simp: layout_ok_def bitmap_ok_def mk_sb_fields Let_def)
qed

text \<open>Taking the next block is what the kernel's \<open>balloc\<close> does to the blocks.\<close>

lemma marked_alloc:
  assumes ok: "img_ok m" and room: "unat (freeblock m) < FSSIZE"
  defines "m' \<equiv> m\<lparr>freeblock := freeblock m + 1\<rparr>"
  shows "marked m' = taken_block mk_sb (freeblock m) (marked m)" "img_ok m'" "unat (freeblock m') = Suc (unat (freeblock m))"
    "\<not> blk_used mk_sb (marked m) (freeblock m)"
proof -
  note o = img_okD [OF ok]
  show f: "unat (freeblock m') = Suc (unat (freeblock m))" using room by (simp add: m'_def unat_word_ariths FSSIZE_def)
  have s: "sector m' = sector m" by (simp add: m'_def sector_def fun_eq_iff)
  show "img_ok m'" using ok f s room by (simp add: img_ok_def) (simp add: m'_def)
  show "\<not> blk_used mk_sb (marked m) (freeblock m)" using marked_used [OF ok room] by simp
  have n: "freeblock m \<noteq> 45" using o(2) by auto
  have "bitmap_set mk_sb (freeblock m) True (marked m) = mk_bits (Suc (unat (freeblock m)))"
    using room by (simp add: bitmap_set_def mk_BBLOCK marked_def mk_sb_fields mk_bits_Suc FSSIZE_def Let_def)
  then show "marked m' = taken_block mk_sb (freeblock m) (marked m)"
    using n o(4) [of "freeblock m"] room f s
    by (auto simp: taken_block_def mk_BBLOCK marked_def mk_sb_fields fun_eq_iff)
qed

lemma marked_wsect:
  assumes ok: "img_ok m" and b: "unat b < unat (freeblock m)" "b \<noteq> 45" and v: "length v = BSIZE"
  shows "img_ok (wsect b v m)" "marked (wsect b v m) = (marked m)(b := v)" "freeblock (wsect b v m) = freeblock m"
    "freeinode (wsect b v m) = freeinode m"
proof -
  note o = img_okD [OF ok]
  have b': "unat b < FSSIZE" using b o(3) by (simp add: FSSIZE_def)
  note w = wsect_sector [OF o(1) b', of v]
  show "freeblock (wsect b v m) = freeblock m" "freeinode (wsect b v m) = freeinode m" by (rule w)+
  show "marked (wsect b v m) = (marked m)(b := v)" using b(2) w by (auto simp: marked_def mk_sb_fields)
  have "\<forall>x\<in>set (fsimg (wsect b v m)). length x = BSIZE"
    using ok b' o(1) v by (auto simp: wsect_def sect_index img_ok_def dest!: set_update_subset_insert [THEN subsetD])
  then show "img_ok (wsect b v m)" using ok w b(1) by (auto simp: img_ok_def)
qed

lemma rsect_marked: "img_ok m \<Longrightarrow> unat b < 1000 \<Longrightarrow> b \<noteq> 45 \<Longrightarrow> rsect b m = Some (marked m b)"
  using img_okD(1) [of m] by (simp add: rsect_sector FSSIZE_def marked_def mk_sb_fields)

lemma mk_data_block:
  assumes "img_ok m" "data_block mk_log mk_sb i (marked m) a"
  shows "unat a < unat (freeblock m)" "a \<noteq> 45" "unat a < 1000"
  using assms marked_used [OF assms(1), of a] by (auto simp: data_block_def mk_bitmap_blocks mk_sb_fields FSSIZE_def)

section \<open>Appending to a file\<close>

text \<open>The number of new blocks that block \<open>bn\<close> of a file needs.\<close>

definition blk_need :: "(uint \<Rightarrow> bytes) \<Rightarrow> inode \<Rightarrow> nat \<Rightarrow> nat" where
  "blk_need V x bn = (if block_of V x bn = 0 then 1 else 0) + (if NDIRECT \<le> bn \<and> iaddrs x NDIRECT = 0 then 1 else 0)"

lemma iappend_entry_spec:
  assumes p: "img_ok p" "file_ok mk_log mk_sb (marked p) y" "iaddrs y NDIRECT \<noteq> 0" "block_of (marked p) y bn = 0" "NDIRECT \<le> bn" "bn < MAXFILE"
    "unat (freeblock p) < FSSIZE"
  obtains x m' where "iappend_entry bn y p = Some (x, y, m')" "img_ok m'" "freeinode m' = freeinode p"
    "unat x < FSSIZE" "\<not> blk_used mk_sb (marked p) x" "unat (freeblock m') = Suc (unat (freeblock p))"
    "marked m' = (taken_block mk_sb x (marked p))(iaddrs y NDIRECT := put32 (4 * (bn - NDIRECT)) x (marked p (iaddrs y NDIRECT)))"
proof -
  let ?j = "iaddrs y NDIRECT" and ?q = "p\<lparr>freeblock := freeblock p + 1\<rparr>" and ?k = "4 * (bn - NDIRECT)"
  have len: "?k + 4 \<le> BSIZE" using p(6) by (simp add: MAXFILE_def NINDIRECT_def BSIZE_def NDIRECT_def)
  have j: "unat ?j < unat (freeblock p)" "?j \<noteq> 45" "unat ?j < 1000" using mk_data_block [OF p(1) file_okD(2) [OF p(2,3)]] by auto
  have z: "get32 ?k (marked p ?j) = 0" using p(3,4,5) by (simp add: block_of_def)
  note a = marked_alloc [OF p(1,7)]
  have jq: "unat ?j < unat (freeblock ?q)" using j(1) a(3) by simp
  have l: "length (put32 ?k (freeblock p) (marked p ?j)) = BSIZE" "?k + 4 \<le> length (marked p ?j)" using len img_okD(6) [OF p(1)] by simp_all
  note w = marked_wsect [OF a(2) jq j(2) l(1)]
  have "iappend_entry bn y p = Some (freeblock p, y, wsect ?j (put32 ?k (freeblock p) (marked p ?j)) ?q)"
    using rsect_marked [OF p(1) j(3,2)] z l(2) by (simp add: iappend_entry_def Let_def)
  moreover have "unat (freeblock (wsect ?j (put32 ?k (freeblock p) (marked p ?j)) ?q)) = Suc (unat (freeblock p))"
    using w(3) a(3) by (simp only:)
  moreover have "marked (wsect ?j (put32 ?k (freeblock p) (marked p ?j)) ?q) =
      (taken_block mk_sb (freeblock p) (marked p))(?j := put32 ?k (freeblock p) (marked p ?j))" using w(2) a(1) by (simp only:)
  moreover have "freeinode (wsect ?j (put32 ?k (freeblock p) (marked p ?j)) ?q) = freeinode p" using w(4) by simp
  ultimately show thesis using that w(1) a(4) p(7) by blast
qed

lemma iappend_block_spec:
  assumes ok: "img_ok m" and f: "file_ok mk_log mk_sb (marked m) din" and bn: "bn < MAXFILE"
    and room: "unat (freeblock m) + blk_need (marked m) din bn \<le> FSSIZE"
  shows "\<exists>x y m'. iappend_block bn din m = Some (x, y, m') \<and> img_ok m' \<and> freeinode m' = freeinode m \<and>
    unat (freeblock m') = unat (freeblock m) + blk_need (marked m) din bn \<and>
    bmapped mk_log mk_sb (marked m) din bn x (marked m') y \<and>
    (iaddrs y NDIRECT \<noteq> 0 \<longleftrightarrow> iaddrs din NDIRECT \<noteq> 0 \<or> NDIRECT \<le> bn)"
proof -
  let ?V = "marked m" and ?i = "iaddrs din NDIRECT" and ?n = "freeblock m"
  let ?m1 = "m\<lparr>freeblock := freeblock m + 1\<rparr>" and ?k = "4 * (bn - NDIRECT)"
  have size: "unat a < unat (sbsize mk_sb) \<longleftrightarrow> unat a < FSSIZE" for a :: uint by (simp add: mk_sb_fields FSSIZE_def)
  consider (direct) "bn < NDIRECT" "block_of ?V din bn = 0" | (found) "block_of ?V din bn \<noteq> 0"
    | (more) "NDIRECT \<le> bn" "?i \<noteq> 0" "block_of ?V din bn = 0" | (first) "NDIRECT \<le> bn" "?i = 0" "block_of ?V din bn = 0"
    by linarith
  then show ?thesis
  proof cases
    case direct
    then have z: "iaddrs din bn = 0" and n: "unat ?n < FSSIZE" "blk_need ?V din bn = 1" using room by (simp_all add: block_of_def blk_need_def)
    note a = marked_alloc [OF ok n(1)]
    have "bmapped mk_log mk_sb ?V din bn ?n (taken_block mk_sb ?n ?V) (din\<lparr>iaddrs := (iaddrs din)(bn := ?n)\<rparr>)"
      by (rule bmapped_direct [OF f]) (use n a(4) direct z size in auto)
    then show ?thesis using direct z a n(2) by (simp add: iappend_block_def)
  next
    case found
    show ?thesis
    proof (cases "bn < NDIRECT")
      case True
      then show ?thesis using found bmapped_same [OF f found] ok by (simp add: iappend_block_def block_of_def blk_need_def)
    next
      case False
      then have i: "?i \<noteq> 0" "block_of ?V din bn = get32 ?k (?V ?i)" using found by (auto simp: block_of_def split: if_splits)
      have "rsect ?i m = Some (?V ?i)" using rsect_marked [OF ok] mk_data_block [OF ok file_okD(2) [OF f i(1)]] by blast
      then show ?thesis using False found i bmapped_same [OF f found] ok by (simp add: iappend_block_def iappend_entry_def blk_need_def)
    qed
  next
    case more
    then have n: "unat ?n < FSSIZE" "blk_need ?V din bn = 1" using room by (simp_all add: blk_need_def)
    obtain x m' where e: "iappend_block bn din m = Some (x, din, m')" "img_ok m'" "freeinode m' = freeinode m" "unat x < FSSIZE" "\<not> blk_used mk_sb ?V x"
      "unat (freeblock m') = Suc (unat ?n)" "marked m' = (taken_block mk_sb x ?V)(?i := put32 ?k x (?V ?i))"
      using iappend_entry_spec [OF ok f more(2,3,1) bn n(1)] more(1,2) by (simp add: iappend_block_def) metis
    have "bmapped mk_log mk_sb ?V din bn x (marked m') din"
      unfolding e(7) by (rule bmapped_entry(1) [OF f]) (use e more bn size in auto)
    then show ?thesis using e n(2) more by simp
  next
    case first
    then have n: "unat ?n < FSSIZE" "Suc (unat ?n) < FSSIZE" "blk_need ?V din bn = 2" using room by (simp_all add: blk_need_def)
    note a = marked_alloc [OF ok n(1)]
    let ?y = "din\<lparr>iaddrs := (iaddrs din)(NDIRECT := ?n)\<rparr>"
    note tk = file_taken [OF f, of ?n]
    have n': "unat ?n < unat (sbsize mk_sb)" using n(1) size by simp
    note tk = file_taken [OF f n' a(4)]
    note add = file_add_indirect [OF tk(1,3) first(2)]
    have y0: "iaddrs ?y NDIRECT \<noteq> 0" using tk(3) by (simp add: fresh_block_def)
    have yb: "block_of (marked ?m1) ?y bn = 0" using add(2) [OF bn] tk(2) first(3) a(1) by simp
    have yf: "file_ok mk_log mk_sb (marked ?m1) ?y" using add(1) a(1) by simp
    have n1: "unat (freeblock ?m1) < FSSIZE" using a(3) n(2) by simp
    obtain x m' where e: "iappend_block bn din m = Some (x, ?y, m')" "img_ok m'" "freeinode m' = freeinode ?m1" "unat x < FSSIZE" "\<not> blk_used mk_sb (marked ?m1) x"
      "unat (freeblock m') = Suc (unat (freeblock ?m1))" "marked m' = (taken_block mk_sb x (marked ?m1))(?n := put32 ?k x (marked ?m1 ?n))"
      using iappend_entry_spec [OF a(2) yf y0 yb first(1) bn n1] first(1,2) by (simp add: iappend_block_def) metis
    have "bmapped mk_log mk_sb ?V din bn x (marked m') ?y"
      unfolding e(7) a(1) by (rule bmapped_first [OF f n' a(4) first(2,1) bn]) (use e(4,5) a(1) size in auto)
    then show ?thesis using e n(3) a(3) first(1) y0 by simp
  qed
qed

text \<open>A file of \<open>n\<close> bytes without holes, that has no blocks to spare, and the number of blocks that it takes.\<close>

definition filled :: "(uint \<Rightarrow> bytes) \<Rightarrow> inode \<Rightarrow> nat \<Rightarrow> bool" where
  "filled V x n \<longleftrightarrow> (\<forall>bn<MAXFILE. block_of V x bn \<noteq> 0 \<longleftrightarrow> bn * BSIZE < n) \<and> (iaddrs x NDIRECT \<noteq> 0 \<longleftrightarrow> NDIRECT * BSIZE < n)"

definition blocks_for :: "nat \<Rightarrow> nat" where
  "blocks_for n = (n + BSIZE - 1) div BSIZE + (if NDIRECT * BSIZE < n then 1 else 0)"

lemma blocks_for_mono: "m \<le> n \<Longrightarrow> blocks_for m \<le> blocks_for n"
proof -
  assume "m \<le> n"
  then have "(m + BSIZE - 1) div BSIZE \<le> (n + BSIZE - 1) div BSIZE" by (intro div_le_mono) simp
  then show ?thesis using \<open>m \<le> n\<close> unfolding blocks_for_def by (auto simp del: One_nat_def)
qed

text \<open>One turn of the loop stays inside a block.\<close>

lemma append_part:
  assumes f: "filled V x n" and k: "0 < k" "n div BSIZE * BSIZE < n + k" "n + k \<le> (n div BSIZE + 1) * BSIZE" and bn: "n div BSIZE < MAXFILE"
  shows "blocks_for (n + k) = blocks_for n + blk_need V x (n div BSIZE)"
    "b * BSIZE < n + k \<longleftrightarrow> b * BSIZE < n \<or> b = n div BSIZE" "NDIRECT * BSIZE < n + k \<longleftrightarrow> NDIRECT * BSIZE < n \<or> NDIRECT \<le> n div BSIZE"
proof -
  let ?q = "n div BSIZE"
  have B: "0 < BSIZE" by (simp add: BSIZE_def)
  have n: "?q * BSIZE \<le> n" "n < (?q + 1) * BSIZE" using next_block [of n] by (simp_all add: BSIZE_def)
  have le: "b * BSIZE < n + k \<longleftrightarrow> b \<le> ?q" for b
  proof
    assume "b * BSIZE < n + k"
    then have "b * BSIZE < (?q + 1) * BSIZE" using k(3) by linarith
    then show "b \<le> ?q" by (simp only: mult_less_cancel2) simp
  next
    assume "b \<le> ?q"
    then have "b * BSIZE \<le> ?q * BSIZE" by (rule mult_le_mono1)
    then show "b * BSIZE < n + k" using k(2) by linarith
  qed
  have lt: "b * BSIZE < n \<or> b = ?q \<longleftrightarrow> b \<le> ?q" for b
  proof
    assume "b * BSIZE < n \<or> b = ?q"
    then show "b \<le> ?q" using le [of b] k(1) by auto
  next
    assume "b \<le> ?q"
    moreover have "b * BSIZE < n" if "b < ?q" using that n(1) mult_less_mono1 [OF that B] by linarith
    ultimately show "b * BSIZE < n \<or> b = ?q" by linarith
  qed
  show "b * BSIZE < n + k \<longleftrightarrow> b * BSIZE < n \<or> b = ?q" by (simp only: le lt)
  show nd: "NDIRECT * BSIZE < n + k \<longleftrightarrow> NDIRECT * BSIZE < n \<or> NDIRECT \<le> ?q" using le [of NDIRECT] k(1) by linarith
  have up: "(n + k + BSIZE - 1) div BSIZE = ?q + 1"
    by (rule div_nat_eqI) (use k n B in \<open>auto simp: algebra_simps\<close>)
  have dn: "(n + BSIZE - 1) div BSIZE = (if n = ?q * BSIZE then ?q else ?q + 1)"
  proof (cases "n = ?q * BSIZE")
    case False
    then have "?q * BSIZE < n" using n(1) by linarith
    then have "BSIZE * (?q + 1) \<le> n + BSIZE - 1" "n + BSIZE - 1 < BSIZE * Suc (?q + 1)" using n(2) B by (simp_all add: mult.commute)
    then show ?thesis using False by (simp only: div_nat_eqI if_False)
  qed (rule div_nat_eqI, use n B in \<open>auto simp: algebra_simps\<close>)
  have "block_of V x ?q = 0 \<longleftrightarrow> \<not> ?q * BSIZE < n" using f bn unfolding filled_def by blast
  then have z: "block_of V x ?q = 0 \<longleftrightarrow> n = ?q * BSIZE" using n(1) by linarith
  have i: "iaddrs x NDIRECT = 0 \<longleftrightarrow> \<not> NDIRECT * BSIZE < n" using f unfolding filled_def by blast
  have "NDIRECT * BSIZE < n \<Longrightarrow> NDIRECT \<le> ?q" using lt [of NDIRECT] by simp
  then show "blocks_for (n + k) = blocks_for n + blk_need V x ?q"
    using nd z i unfolding blocks_for_def blk_need_def up dn by auto
qed

lemma iappend_turn:
  assumes ok: "img_ok m" and f: "file_ok mk_log mk_sb (marked m) x" and fl: "filled (marked m) x (unat off)"
    and small: "unat off + length p \<le> MAXFILE * BSIZE" and p: "p \<noteq> []"
    and room: "unat (freeblock m) + blocks_for (unat off + length p) \<le> FSSIZE + blocks_for (unat off)"
  obtains k y m' where "iappend_loop p off x m = iappend_loop (drop k p) (off + of_nat k) y m'" "0 < k" "k \<le> length p" "img_ok m'"
    "freeinode m' = freeinode m" "file_written mk_log mk_sb (marked m) x (unat off) (take k p) (marked m') y" "filled (marked m') y (unat off + k)"
    "unat (freeblock m') + blocks_for (unat off) = unat (freeblock m) + blocks_for (unat off + k)"
proof -
  define n where "n = unat off"
  define q where "q = n div BSIZE"
  define k where "k = min (length p) ((q + 1) * BSIZE - n)"
  have n: "q * BSIZE \<le> n" "n < (q + 1) * BSIZE" using next_block [of n] by (simp_all add: q_def BSIZE_def)
  have "k \<le> length p" "k \<le> (q + 1) * BSIZE - n" "k = length p \<or> k = (q + 1) * BSIZE - n" "0 < length p"
    using p unfolding k_def min_def by (simp_all only: length_greater_0_conv not_False_eq_True split: if_split) linarith+
  then have k: "0 < k" "n div BSIZE * BSIZE < n + k" "n + k \<le> (n div BSIZE + 1) * BSIZE" "k \<le> length p"
    using n unfolding q_def [symmetric] by linarith+
  have kd: "min (length p) (BSIZE + q * BSIZE - n) = k" by (simp add: k_def)
  have q: "n div BSIZE < MAXFILE" "q < MAXFILE" using small p by (cases p, simp_all add: n_def q_def less_mult_imp_div_less)+
  have part: "unat off - q * BSIZE = unat off mod BSIZE" by (simp add: q_def n_def minus_div_mult_eq_mod)
  have fits: "unat off mod BSIZE + k \<le> BSIZE"
    using k(3) div_mult_mod_eq [of n BSIZE] unfolding n_def [symmetric] q_def by (simp only: distrib_right mult_1)
  note ap = append_part [OF fl [folded n_def] k(1-3) q(1)]
  have "blocks_for (n + k) \<le> blocks_for (n + length p)" using k(4) by (intro blocks_for_mono) simp
  then have "unat (freeblock m) + blk_need (marked m) x q \<le> FSSIZE" using room ap(1) by (simp add: n_def q_def)
  then obtain a y m1 where b: "iappend_block q x m = Some (a, y, m1)" "img_ok m1" "freeinode m1 = freeinode m"
    "unat (freeblock m1) = unat (freeblock m) + blk_need (marked m) x q" "bmapped mk_log mk_sb (marked m) x q a (marked m1) y"
    "iaddrs y NDIRECT \<noteq> 0 \<longleftrightarrow> iaddrs x NDIRECT \<noteq> 0 \<or> NDIRECT \<le> q"
    using iappend_block_spec [OF ok f q(2)] by auto
  note B = b(5) [unfolded bmapped_def]
  have da: "data_block mk_log mk_sb (inum y) (marked m1) a" using B q(2) file_okD(3) [of mk_log mk_sb "marked m1" y q] by auto
  note a = mk_data_block [OF b(2) da]
  let ?v = "splice_at (unat off mod BSIZE) (take k p) (marked m1 a)"
  have v: "length ?v = BSIZE" using img_okD(6) [OF b(2)] fits k(4) by (simp add: min_absorb2)
  note w = marked_wsect [OF b(2) a(1,2) v]
  have "file_written mk_log mk_sb (marked m) x n (take k p) (marked (wsect a ?v m1)) y"
    using file_written_block [OF f b(5) q(2), of "unat off mod BSIZE" "take k p"] fits k(4) w(2) by (simp add: q_def n_def min_absorb2)
  moreover have "block_of (marked (wsect a ?v m1)) y = block_of (marked m1) y"
    unfolding w(2) by (rule file_ok_write(2) [of mk_log mk_sb "marked m1" y]) (use B q(2) v in auto)
  then have "filled (marked (wsect a ?v m1)) y (n + k)"
    using fl B b(6) ap(2,3) unfolding filled_def by (auto simp: q_def n_def)
  moreover have "iappend_loop p off x m = iappend_loop (drop k p) (off + of_nat k) y (wsect a ?v m1)"
    using p q b(1) rsect_marked [OF b(2) a(3,2)] part k(4)
    by (subst iappend_loop.simps) (simp add: q_def [symmetric] n_def [symmetric] kd Let_def)
  ultimately show thesis using that k(1,4) w b(3,4) ap(1) by (simp add: n_def q_def)
qed

lemma iappend_loop_spec:
  assumes "img_ok m" "file_ok mk_log mk_sb (marked m) x" "filled (marked m) x (unat off)" "unat off + length p \<le> MAXFILE * BSIZE"
    and "unat (freeblock m) + blocks_for (unat off + length p) \<le> FSSIZE + blocks_for (unat off)"
  shows "\<exists>y m'. iappend_loop p off x m = Some (off + of_nat (length p), y, m') \<and> img_ok m' \<and> freeinode m' = freeinode m \<and>
    file_written mk_log mk_sb (marked m) x (unat off) p (marked m') y \<and> filled (marked m') y (unat off + length p) \<and>
    unat (freeblock m') + blocks_for (unat off) = unat (freeblock m) + blocks_for (unat off + length p)"
  using assms
proof (induction "length p" arbitrary: p off x m rule: less_induct)
  case less
  note small = less.prems(4) and room = less.prems(5)
  show ?case
  proof (cases "p = []")
    case True
    then show ?thesis using less.prems(1,3) file_written_refl [OF less.prems(2)] by (subst iappend_loop.simps) simp
  next
    case False
    from iappend_turn [OF less.prems(1-4) False room] obtain k y m2
      where t: "iappend_loop p off x m = iappend_loop (drop k p) (off + of_nat k) y m2" "0 < k" "k \<le> length p" "img_ok m2"
        "freeinode m2 = freeinode m" "file_written mk_log mk_sb (marked m) x (unat off) (take k p) (marked m2) y" "filled (marked m2) y (unat off + k)"
        "unat (freeblock m2) + blocks_for (unat off) = unat (freeblock m) + blocks_for (unat off + k)" .
    have uo: "unat (off + of_nat k) = unat off + k"
      using small t(3) by (intro unat_add_small) (simp add: MAXFILE_def NDIRECT_def NINDIRECT_def BSIZE_def)
    have shorter: "length (drop k p) < length p" using t(2,3) by simp
    have small': "unat off + k + length (drop k p) \<le> MAXFILE * BSIZE" using small t(3) by simp
    have room': "unat (freeblock m2) + blocks_for (unat off + k + length (drop k p)) \<le> FSSIZE + blocks_for (unat off + k)"
      using room t(3,8) by simp
    obtain z m' where r: "iappend_loop (drop k p) (off + of_nat k) y m2 = Some (off + of_nat k + of_nat (length (drop k p)), z, m')"
      "img_ok m'" "freeinode m' = freeinode m2" "file_written mk_log mk_sb (marked m2) y (unat off + k) (drop k p) (marked m') z"
      "filled (marked m') z (unat off + k + length (drop k p))"
      "unat (freeblock m') + blocks_for (unat off + k) = unat (freeblock m2) + blocks_for (unat off + k + length (drop k p))"
      using less.hyps [OF shorter t(4) file_writtenD(1) [OF t(6)], of "off + of_nat k"] t(7) small' room' unfolding uo by blast
    have "file_written mk_log mk_sb (marked m) x (unat off) (take k p @ drop k p) (marked m') z"
      by (rule file_written_trans [OF t(6) _ less.prems(2)]) (use r(4) t(3) small in \<open>auto simp: min_absorb2\<close>)
    then show ?thesis using t r by (simp flip: of_nat_add add.assoc)
  qed
qed

section \<open>All the files of the image\<close>

text \<open>The inode \<open>i\<close> as it is on the disk.\<close>

definition inode_at :: "(uint \<Rightarrow> bytes) \<Rightarrow> uint \<Rightarrow> inode" where
  "inode_at V i = get_dinode (dinode_off i) (V (IBLOCK i mk_sb)) (dinode0 i)"

lemma inum_inode_at [simp]: "inum (inode_at V i) = i"
  by (simp add: inode_at_def get_dinode_def dinode0_def)

lemma rsect_inode: "img_ok m \<Longrightarrow> unat i < 208 \<Longrightarrow> rsect (IBLOCK i mk_sb) m = Some (marked m (IBLOCK i mk_sb))"
proof -
  assume a: "img_ok m" "unat i < 208"
  have "IBLOCK i mk_sb \<noteq> 45" using mk_IBLOCK(2) [OF a(2)] by auto
  then show ?thesis using rsect_marked [OF a(1)] mk_IBLOCK(2) [OF a(2)] by simp
qed

lemma rinode_marked:
  assumes "img_ok m" "unat i < 208"
  shows "rinode i m = Some (inode_at (marked m) i)"
  using rsect_inode [OF assms] by (simp add: rinode_def inode_at_def)

lemma winode_marked:
  assumes ok: "img_ok m" and i: "unat i < 208"
  obtains m' where "winode i x m = Some m'" "img_ok m'" "freeblock m' = freeblock m" "freeinode m' = freeinode m"
    "marked m' = (marked m)(IBLOCK i mk_sb := put_dinode (dinode_off i) x (marked m (IBLOCK i mk_sb)))"
proof -
  let ?b = "IBLOCK i mk_sb"
  have b: "unat ?b < unat (freeblock m)" "?b \<noteq> 45" using mk_IBLOCK [OF i] img_okD(2) [OF ok] by auto
  have "length (put_dinode (dinode_off i) x (marked m ?b)) = BSIZE"
    using dinode_off_bound [of i] img_okD(6) [OF ok] by (simp add: length_put_dinode)
  note w = marked_wsect [OF ok b this]
  show thesis by (rule that [OF _ w(1,3,4,2)]) (simp add: winode_def rsect_inode [OF ok i] Let_def)
qed

text \<open>What a file is depends on the part of the inode that is on the disk.\<close>

lemma same_dinode_cong:
  assumes "same_dinode x y" "inum x = inum y"
  shows "block_of V x = block_of V y" "iaddrs x NDIRECT = iaddrs y NDIRECT" "file_ok L sp V x = file_ok L sp V y"
    "filled V x n = filled V y n" "file_blocks V x = file_blocks V y" "file_byte V x k = file_byte V y k"
proof -
  have a: "iaddrs x k = iaddrs y k" if "k < NDIRECT + 1" for k using assms(1) that by (simp add: same_dinode_def)
  have b: "block_of V x = block_of V y" for V using a by (simp add: block_of_def fun_eq_iff)
  show "block_of V x = block_of V y" by (rule b)
  show "file_blocks V x = file_blocks V y" "file_byte V x k = file_byte V y k"
    "iaddrs x NDIRECT = iaddrs y NDIRECT" "file_ok L sp V x = file_ok L sp V y" "filled V x n = filled V y n"
    using a [of NDIRECT] b assms(2) by (simp_all add: file_blocks_def file_byte_def file_ok_def filled_def)
qed

lemma dinode_bytes_cong:
  assumes "dinode_bytes mk_sb W j = dinode_bytes mk_sb V j" "length (V (IBLOCK j mk_sb)) = BSIZE" "length (W (IBLOCK j mk_sb)) = BSIZE"
  shows "inode_at W j = inode_at V j"
proof -
  let ?o = "dinode_off j" and ?b = "IBLOCK j mk_sb"
  have s: "slice (?o + off) k (X ?b) = slice off k (dinode_bytes mk_sb X j)" if "off + k \<le> 64" for off k X
    using that by (simp add: slice_def dinode_bytes_def sizeof_dinode_def drop_take min_absorb1 add.commute)
  have "get16 (?o + off) (W ?b) = get16 (?o + off) (V ?b)" if "off + 2 \<le> 64" for off using s [OF that] assms(1) by (simp add: get16_def)
  from this [of 0] this [of 2] this [of 4] this [of 6] have "get16 ?o (W ?b) = get16 ?o (V ?b)" "get16 (?o + 2) (W ?b) = get16 (?o + 2) (V ?b)"
    "get16 (?o + 4) (W ?b) = get16 (?o + 4) (V ?b)" "get16 (?o + 6) (W ?b) = get16 (?o + 6) (V ?b)" by simp_all
  moreover have "get32 (?o + off) (W ?b) = get32 (?o + off) (V ?b)" if "off + 4 \<le> 64" for off using s [OF that] assms(1) by (simp add: get32_def)
  then have "get32 (?o + 12 + 4 * k) (W ?b) = get32 (?o + 12 + 4 * k) (V ?b)" if "k < NDIRECT + 1" for k
    using that by (simp add: NDIRECT_def add.assoc)
  moreover have "get32 (?o + 8) (W ?b) = get32 (?o + 8) (V ?b)" using s [of 8 4] assms(1) by (simp add: get32_def)
  ultimately show ?thesis by (simp add: inode_at_def get_dinode_def cong: if_cong)
qed

text \<open>The file with the inode \<open>i\<close> has the type \<open>ty\<close> and the size \<open>n\<close>, and holds \<open>c\<close>.\<close>

fun holds_file :: "(uint \<Rightarrow> bytes) \<Rightarrow> uint \<Rightarrow> ushort \<times> nat \<times> bytes \<Rightarrow> bool" where
  "holds_file V i (ty, n, c) \<longleftrightarrow> (let x = inode_at V i in
     itype x = ty \<and> inlink x = 1 \<and> isize x = of_nat n \<and> length c \<le> MAXFILE * BSIZE \<and> file_ok mk_log mk_sb V x \<and>
     filled V x (length c) \<and> (\<forall>b\<in>file_blocks V x. b \<noteq> 0 \<longrightarrow> nmeta \<le> unat b) \<and>
     (\<forall>k<MAXFILE * BSIZE. file_byte V x k = (if k < length c then c ! k else 0)))"

declare holds_file.simps [simp del]

lemma holds_fileD:
  assumes "holds_file V i (ty, n, c)"
  shows "itype (inode_at V i) = ty" "inlink (inode_at V i) = 1" "isize (inode_at V i) = of_nat n" "length c \<le> MAXFILE * BSIZE"
    "file_ok mk_log mk_sb V (inode_at V i)" "filled V (inode_at V i) (length c)"
    "b \<in> file_blocks V (inode_at V i) \<Longrightarrow> b \<noteq> 0 \<Longrightarrow> nmeta \<le> unat b"
    "k < MAXFILE * BSIZE \<Longrightarrow> file_byte V (inode_at V i) k = (if k < length c then c ! k else 0)"
  using assms by (auto simp: holds_file.simps Let_def)

lemma file_blocks_data:
  assumes "file_ok L sp V x" "b \<in> file_blocks V x" "b \<noteq> 0"
  shows "data_block L sp (inum x) V b"
  using assms(2,3) file_okD(2,3) [OF assms(1)] by (auto simp: file_blocks_def)

text \<open>A file is not affected by changes elsewhere.\<close>

lemma holds_file_frame:
  assumes h: "holds_file V j f" and ok: "img_ok m" and j: "unat j < 208" and i: "inode_at (marked m) j = inode_at V j"
    and used: "\<And>b. unat b < 1000 \<Longrightarrow> blk_used mk_sb V b \<Longrightarrow> blk_used mk_sb (marked m) b"
    and same: "\<And>b. b \<in> file_blocks V (inode_at V j) \<Longrightarrow> b \<noteq> 0 \<Longrightarrow> marked m b = V b"
  shows "holds_file (marked m) j f" "file_blocks (marked m) (inode_at (marked m) j) = file_blocks V (inode_at V j)"
proof -
  let ?x = "inode_at V j" and ?W = "marked m"
  obtain ty n c where f: "f = (ty, n, c)" by (cases f)
  note H = holds_fileD [OF h [unfolded f]]
  have b: "block_of ?W ?x = block_of V ?x"
    using same [of "iaddrs ?x NDIRECT"] by (auto simp: block_of_def file_blocks_def fun_eq_iff)
  then show fb: "file_blocks ?W (inode_at ?W j) = file_blocks V ?x" by (simp add: file_blocks_def i)
  have d: "data_block mk_log mk_sb k V a \<Longrightarrow> data_block mk_log mk_sb k ?W a" for k a
    using used by (auto simp: data_block_def mk_sb_fields)
  have "file_ok mk_log mk_sb ?W ?x"
    using H(5) marked_layout [OF ok j] d by (simp add: file_ok_def b)
  moreover have "filled ?W ?x n = filled V ?x n" for n by (simp add: filled_def b)
  moreover have "file_byte ?W ?x k = file_byte V ?x k" if "k < MAXFILE * BSIZE" for k
    using same [of "block_of V ?x (k div BSIZE)"] less_mult_imp_div_less [OF that]
    by (auto simp: file_byte_def Let_def b file_blocks_def)
  ultimately show "holds_file ?W j f" using h fb by (simp add: f holds_file.simps Let_def i)
qed

text \<open>
  The state of \<open>mkfs\<close> after it made the inodes 1, 2, \<open>\<dots>\<close> with the types, sizes and contents \<open>fs\<close>: these files, no block in two of them, and as
  many blocks taken as they need.
\<close>

definition total_blocks :: "(ushort \<times> nat \<times> bytes) list \<Rightarrow> nat" where
  "total_blocks fs = nmeta + (\<Sum>(ty, n, c)\<leftarrow>fs. blocks_for (length c))"

definition mk_inv :: "(ushort \<times> nat \<times> bytes) list \<Rightarrow> mkfs \<Rightarrow> bool" where
  "mk_inv fs m \<longleftrightarrow> img_ok m \<and> freeinode m = of_nat (Suc (length fs)) \<and> length fs < 207 \<and> unat (freeblock m) = total_blocks fs \<and>
     (\<forall>j<length fs. holds_file (marked m) (of_nat (Suc j)) (fs ! j)) \<and>
     (\<forall>j<length fs. \<forall>k<length fs. j \<noteq> k \<longrightarrow>
       file_blocks (marked m) (inode_at (marked m) (of_nat (Suc j))) \<inter> file_blocks (marked m) (inode_at (marked m) (of_nat (Suc k))) \<subseteq> {0}) \<and>
     superblock_of (marked m 1) = mk_sb \<and> (\<forall>b. unat b < 32 \<longrightarrow> b \<noteq> 0 \<longrightarrow> b \<noteq> 1 \<longrightarrow> marked m b = replicate BSIZE 0)"

lemma mk_invD:
  assumes "mk_inv fs m"
  shows "img_ok m" "freeinode m = of_nat (Suc (length fs))" "length fs < 207" "unat (freeblock m) = total_blocks fs"
    "j < length fs \<Longrightarrow> holds_file (marked m) (of_nat (Suc j)) (fs ! j)"
    "j < length fs \<Longrightarrow> k < length fs \<Longrightarrow> j \<noteq> k \<Longrightarrow> b \<in> file_blocks (marked m) (inode_at (marked m) (of_nat (Suc j))) \<Longrightarrow>
       b \<in> file_blocks (marked m) (inode_at (marked m) (of_nat (Suc k))) \<Longrightarrow> b = 0"
    "superblock_of (marked m 1) = mk_sb" "unat b < 32 \<Longrightarrow> b \<noteq> 0 \<Longrightarrow> b \<noteq> 1 \<Longrightarrow> marked m b = replicate BSIZE 0"
  using assms unfolding mk_inv_def by (simp_all add: disjoint_iff subset_iff)

lemma unat_ino: "k < 208 \<Longrightarrow> unat (of_nat k :: uint) = k" "k < 208 \<Longrightarrow> k' < 208 \<Longrightarrow> (of_nat k :: uint) = of_nat k' \<longleftrightarrow> k = k'"
  by (simp_all add: unsigned_of_nat take_bit_nat_eq_self of_nat_word_eq_iff)

text \<open>Changing one file, or adding one, leaves the others alone.\<close>

lemma mk_inv_update:
  assumes inv: "mk_inv fs m" and ok: "img_ok m'" and i: "i \<le> length fs" and fs': "fs' = take i fs @ f # drop (Suc i) fs" "length fs' < 207"
    and free: "freeinode m' = of_nat (Suc (length fs'))" "unat (freeblock m') = total_blocks fs'"
    and new: "holds_file (marked m') (of_nat (Suc i)) f"
    and old: "\<And>b. b \<in> B \<Longrightarrow> nmeta \<le> unat b"
      "\<And>j b. j < length fs \<Longrightarrow> j \<noteq> i \<Longrightarrow> b \<in> file_blocks (marked m) (inode_at (marked m) (of_nat (Suc j))) \<Longrightarrow> b \<notin> B"
    and blk: "\<And>b. b \<in> file_blocks (marked m') (inode_at (marked m') (of_nat (Suc i))) \<Longrightarrow> b \<noteq> 0 \<Longrightarrow> b \<in> B \<or> \<not> blk_used mk_sb (marked m) b"
    and frame: "\<And>b. unat b < 1000 \<Longrightarrow> blk_used mk_sb (marked m) b \<Longrightarrow> blk_used mk_sb (marked m') b"
      "\<And>b. unat b < 1000 \<Longrightarrow> blk_used mk_sb (marked m) b \<Longrightarrow> b \<notin> {0, 45, IBLOCK (of_nat (Suc i)) mk_sb} \<union> B \<Longrightarrow> marked m' b = marked m b"
    and dino: "\<And>j. j \<noteq> of_nat (Suc i) \<Longrightarrow> IBLOCK j mk_sb = IBLOCK (of_nat (Suc i)) mk_sb \<Longrightarrow>
      dinode_bytes mk_sb (marked m') j = dinode_bytes mk_sb (marked m) j"
  shows "mk_inv fs' m'"
proof -
  let ?V = "marked m" and ?W = "marked m'" and ?N = "\<lambda>j. of_nat (Suc j) :: uint"
  note I = mk_invD [OF inv]
  have len: "length fs' = max (length fs) (Suc i)" using i fs'(1) by auto
  have il: "Suc i < 208" using len fs'(2) by simp
  have used: "blk_used mk_sb ?V b" if "unat b < 46" for b
    using marked_used [OF I(1), of b] img_okD(2) [OF I(1)] that by (simp add: FSSIZE_def)
  have low: "?W b = ?V b" if b: "unat b < 45" "b \<noteq> 0" "b \<noteq> IBLOCK (?N i) mk_sb" for b
  proof -
    have "b \<noteq> 45" using b(1) by auto
    then show ?thesis using frame(2) [of b] used [of b] old(1) [of b] b by (auto simp: nmeta_eq)
  qed
  have other: "holds_file ?W (?N j) (fs' ! j) \<and> file_blocks ?W (inode_at ?W (?N j)) = file_blocks ?V (inode_at ?V (?N j)) \<and> j < length fs"
    if j: "j < length fs'" "j \<noteq> i" for j
  proof -
    have jl: "j < length fs" "fs' ! j = fs ! j" using j len i fs'(1) by (auto simp: nth_append min_def)
    have ju: "unat (?N j) < 208" "?N j \<noteq> ?N i" using unat_ino [of "Suc j"] unat_ino(2) [of "Suc j" "Suc i"] j(2) jl(1) I(3) il by (auto simp del: of_nat_Suc)
    obtain ty n c where f: "fs ! j = (ty, n, c)" by (cases "fs ! j")
    note B = mk_IBLOCK [OF ju(1)] and h = I(5) [OF jl(1), unfolded f]
    have "inode_at ?W (?N j) = inode_at ?V (?N j)"
    proof (cases "IBLOCK (?N j) mk_sb = IBLOCK (?N i) mk_sb")
      case True
      show ?thesis by (rule dinode_bytes_cong [OF dino [OF ju(2) True]]) (use img_okD(6) I(1) ok in blast)+
    next
      case False
      then have "?W (IBLOCK (?N j) mk_sb) = ?V (IBLOCK (?N j) mk_sb)" using B by (intro low) auto
      then show ?thesis by (simp add: inode_at_def)
    qed
    moreover have "?W b = ?V b" if b: "b \<in> file_blocks ?V (inode_at ?V (?N j))" "b \<noteq> 0" for b
    proof -
      have d: "data_block mk_log mk_sb (?N j) ?V b" using file_blocks_data [OF holds_fileD(5) [OF h] b] by simp
      have "46 \<le> unat b" using holds_fileD(7) [OF h b] by (simp add: nmeta_eq)
      moreover have "unat (IBLOCK (?N i) mk_sb) < 45" using mk_IBLOCK(2) [of "?N i"] unat_ino(1) [OF il] il by simp
      ultimately have "b \<noteq> IBLOCK (?N i) mk_sb" by auto
      then show ?thesis
        using frame(2) [of b] mk_data_block [OF I(1) d] d old(2) [OF jl(1) j(2) b(1)] b(2) by (auto simp: data_block_def)
    qed
    ultimately show ?thesis using holds_file_frame [OF h ok ju(1) _ frame(1)] jl f by simp
  qed
  have new': "fs' ! i = f" using fs'(1) i by (simp add: nth_append min_def)
  have sep: "file_blocks ?W (inode_at ?W (?N i)) \<inter> file_blocks ?W (inode_at ?W (?N j)) \<subseteq> {0}" if j: "j < length fs'" "j \<noteq> i" for j
  proof -
    note o = other [OF j]
    have "blk_used mk_sb ?V b" if "b \<in> file_blocks ?V (inode_at ?V (?N j))" "b \<noteq> 0" for b
      using file_blocks_data [OF holds_fileD(5) that] I(5) [of j] o by (cases "fs ! j") (auto simp: data_block_def)
    then show ?thesis using o blk old(2) [of j] j(2) by auto
  qed
  have "\<forall>j<length fs'. holds_file ?W (?N j) (fs' ! j)" using other new new' by metis
  moreover have "file_blocks ?W (inode_at ?W (?N j)) \<inter> file_blocks ?W (inode_at ?W (?N k)) \<subseteq> {0}"
    if jk: "j < length fs'" "k < length fs'" "j \<noteq> k" for j k
    using sep [OF jk(1)] sep [OF jk(2)] other [OF jk(1)] other [OF jk(2)] I(6) [of j k] jk(3) by (cases "j = i"; cases "k = i") auto
  moreover have "?W b = ?V b" if "unat b < 32" "b \<noteq> 0" for b
    using mk_IBLOCK(1) [of "?N i"] unat_ino(1) [OF il] il that by (intro low) auto
  ultimately show ?thesis using ok fs'(2) free I(7,8) unfolding mk_inv_def by auto
qed

lemma total_blocks_update:
  assumes "i < length fs" "fs ! i = (ty, n, c)"
  shows "total_blocks (fs[i := (ty, k, d)]) + blocks_for (length c) = total_blocks fs + blocks_for (length d)"
proof -
  let ?f = "\<lambda>(ty :: ushort, n :: nat, c). blocks_for (length c)"
  have "?f (fs ! i) \<le> sum_list (map ?f fs)" using assms(1) member_le_sum_list [of "?f (fs ! i)" "map ?f fs"] by simp
  then show ?thesis using assms sum_list_update [of i "map ?f fs" "?f (ty, k, d)"] by (simp add: total_blocks_def map_update)
qed

lemma unat_size: "n \<le> MAXFILE * BSIZE \<Longrightarrow> unat (of_nat n :: uint) = n"
  by (simp add: MAXFILE_def NDIRECT_def NINDIRECT_def BSIZE_def unsigned_of_nat take_bit_nat_eq_self)

text \<open>The file after \<open>iappend\<close> stored its inode.\<close>

lemma holds_file_written:
  assumes h: "holds_file V i (ty, k, c)" and w: "file_written mk_log mk_sb V (inode_at V i) (length c) p U y" and fl: "filled U y (length c + length p)"
    and z: "z = y\<lparr>isize := of_nat n\<rparr>" and W: "W = U(IBLOCK i mk_sb := put_dinode (dinode_off i) z (U (IBLOCK i mk_sb)))"
    and small: "length c + length p \<le> MAXFILE * BSIZE" and unused: "\<And>b. unat b < 1000 \<Longrightarrow> \<not> blk_used mk_sb V b \<Longrightarrow> nmeta \<le> unat b"
  shows "holds_file W i (ty, n, c @ p)"
    "b \<in> file_blocks W (inode_at W i) \<Longrightarrow> b \<noteq> 0 \<Longrightarrow> b \<in> file_blocks V (inode_at V i) \<or> \<not> blk_used mk_sb V b"
proof -
  let ?x = "inode_at V i"
  note H = holds_fileD [OF h] and D = file_writtenD [OF w]
  note f = file_after_iupdate [OF w H(5) inum_inode_at [symmetric] z W]
  have iz: "inum z = i" using D(2) by (simp add: z) (metis inode.select_convs(2) inode.surjective inode.update_convs(10) inum_inode_at)
  have yt: "itype y = ty" "inlink y = 1" using arg_cong [OF D(2), of itype] arg_cong [OF D(2), of inlink] H(1,2) by simp_all
  have room: "dinode_off i + sizeof_dinode \<le> length (U (IBLOCK i mk_sb))"
    using dinode_off_bound layout_okD(2) [OF file_okD(1) [OF D(1)]] by simp
  have sd: "same_dinode (inode_at W i) z" using get_put_dinode [OF room] by (simp add: inode_at_def W)
  note C = same_dinode_cong [OF sd] 
  have bl: "b \<in> file_blocks V ?x \<or> \<not> blk_used mk_sb V b \<and> unat b < 1000" if b: "b \<in> file_blocks U y" "b \<noteq> 0" for b
  proof -
    have "unat b < 1000" using file_blocks_data [OF D(1) b] by (simp add: data_block_def mk_sb_fields)
    then show ?thesis using b(1) D(4,6) by (auto simp: file_blocks_def)
  qed
  have fb: "file_blocks W (inode_at W i) = file_blocks U y" using C(5) iz f(2) by (simp add: file_blocks_def) (simp add: z)
  then show "b \<in> file_blocks W (inode_at W i) \<Longrightarrow> b \<noteq> 0 \<Longrightarrow> b \<in> file_blocks V ?x \<or> \<not> blk_used mk_sb V b" using bl by blast
  have "filled W (inode_at W i) (length (c @ p))" using C(4) iz fl f(2) by (simp add: filled_def) (simp add: z)
  moreover have "file_byte W (inode_at W i) k = (if k < length (c @ p) then (c @ p) ! k else 0)" if "k < MAXFILE * BSIZE" for k
    using C(6) iz f(3) [OF that] D(3) [OF that] H(8) [OF that] by (auto simp: nth_append)
  moreover have "file_ok mk_log mk_sb W (inode_at W i)" using C(3) iz f(1) by simp
  moreover have "nmeta \<le> unat b" if "b \<in> file_blocks U y" "b \<noteq> 0" for b using bl [OF that] H(7) [OF _ that(2)] unused by blast
  moreover have "itype (inode_at W i) = ty" "inlink (inode_at W i) = 1" "isize (inode_at W i) = of_nat n"
    using sd yt by (simp_all add: same_dinode_def z)
  ultimately show "holds_file W i (ty, n, c @ p)" using small fb by (simp add: holds_file.simps Let_def)
qed

text \<open>Storing the inode of a file that was changed.\<close>

lemma store_inv:
  assumes inv: "mk_inv fs m" and i: "i < length fs" "fs ! i = (ty, k, c)" and small: "length c + length p \<le> MAXFILE * BSIZE"
    and ok: "img_ok m1" "freeinode m1 = freeinode m" "unat (freeblock m1) + blocks_for (length c) = unat (freeblock m) + blocks_for (length c + length p)"
    and w: "file_written mk_log mk_sb (marked m) (inode_at (marked m) (of_nat (Suc i))) (length c) p (marked m1) y" and fl: "filled (marked m1) y (length c + length p)"
  obtains m' where "winode (of_nat (Suc i)) (y\<lparr>isize := of_nat n\<rparr>) m1 = Some m'" "mk_inv (fs[i := (ty, n, c @ p)]) m'"
proof -
  let ?i = "of_nat (Suc i) :: uint" and ?V = "marked m" and ?fs = "fs[i := (ty, n, c @ p)]" and ?z = "y\<lparr>isize := of_nat n\<rparr>"
  let ?x = "inode_at ?V ?i" and ?b = "IBLOCK ?i mk_sb"
  note I = mk_invD [OF inv]
  have iu: "unat ?i < 208" using unat_ino(1) [of "Suc i"] i(1) I(3) by simp
  have h: "holds_file ?V ?i (ty, k, c)" using I(5) [OF i(1)] i(2) by simp
  note H = holds_fileD [OF h]
  have tot: "total_blocks ?fs + blocks_for (length c) = total_blocks fs + blocks_for (length c + length p)" using total_blocks_update [OF i, of n "c @ p"] by simp
  from winode_marked [OF ok(1) iu, of ?z] obtain m' where m': "winode ?i ?z m1 = Some m'" "img_ok m'" "freeblock m' = freeblock m1"
    "freeinode m' = freeinode m1" "marked m' = (marked m1)(?b := put_dinode (dinode_off ?i) ?z (marked m1 ?b))" .
  have unused: "nmeta \<le> unat b" if "unat b < 1000" "\<not> blk_used mk_sb ?V b" for b
    using marked_used [OF I(1), of b] that img_okD(2) [OF I(1)] by (simp add: FSSIZE_def nmeta_eq)
  note N = holds_file_written [OF h w fl refl m'(5) small unused] and D = file_writtenD [OF w]
  have b45: "?b \<noteq> 45" using mk_IBLOCK(2) [OF iu] by auto
  have used': "blk_used mk_sb (marked m') b = blk_used mk_sb (marked m1) b" if "unat b < 1000" for b
    using b45 that unfolding m'(5) by (intro blk_used_cong) (auto simp: mk_bitmap_blocks mk_sb_fields)
  have "mk_inv ?fs m'"
  proof (rule mk_inv_update [OF inv m'(2), where i = i and f = "(ty, n, c @ p)" and B = "file_blocks ?V ?x - {0}"])
    show "?fs = take i fs @ (ty, n, c @ p) # drop (Suc i) fs" using i(1) by (rule upd_conv_take_nth_drop)
    show "unat (freeblock m') = total_blocks ?fs" using m'(3) ok(3) tot I(4) by simp
    show "b \<notin> file_blocks ?V ?x - {0}" if "j < length fs" "j \<noteq> i" "b \<in> file_blocks ?V (inode_at ?V (of_nat (Suc j)))" for j b
      using I(6) [OF that(1) i(1) that(2,3)] by blast
    show "marked m' b = ?V b" if "unat b < 1000" "blk_used mk_sb ?V b" "b \<notin> {0, 45, ?b} \<union> (file_blocks ?V ?x - {0})" for b
      using D(8) [of b] that by (auto simp: m'(5) mk_sb_fields mk_bitmap_blocks file_blocks_def)
    show "dinode_bytes mk_sb (marked m') j = dinode_bytes mk_sb ?V j" if "j \<noteq> ?i" "IBLOCK j mk_sb = ?b" for j
      using file_after_iupdate(5) [OF w H(5) inum_inode_at [symmetric] refl m'(5)] that by simp
  qed (use i N H(7) m' ok I D(7) used' in \<open>auto simp: mk_sb_fields simp del: of_nat_Suc\<close>)
  then show thesis using that m'(1) by blast
qed

lemma iappend_inv:
  assumes inv: "mk_inv fs m" and i: "i < length fs" "fs ! i = (ty, length c, c)" and small: "length c + length p \<le> MAXFILE * BSIZE"
    and room: "total_blocks (fs[i := (ty, length (c @ p), c @ p)]) \<le> FSSIZE"
  obtains m' where "iappend (of_nat (Suc i)) p m = Some m'" "mk_inv (fs[i := (ty, length (c @ p), c @ p)]) m'"
proof -
  let ?i = "of_nat (Suc i) :: uint" and ?n = "of_nat (length c) :: uint"
  let ?x = "inode_at (marked m) ?i"
  note I = mk_invD [OF inv]
  have iu: "unat ?i < 208" using unat_ino(1) [of "Suc i"] i(1) I(3) by simp
  note H = holds_fileD [OF I(5) [OF i(1), unfolded i(2)]]
  have un: "unat ?n = length c" by (rule unat_size [OF H(4)])
  from iappend_loop_spec [OF I(1) H(5), of ?n p] obtain y m1 where
    l: "iappend_loop p ?n ?x m = Some (?n + of_nat (length p), y, m1)" "img_ok m1" "freeinode m1 = freeinode m"
      "file_written mk_log mk_sb (marked m) ?x (length c) p (marked m1) y" "filled (marked m1) y (length c + length p)"
      "unat (freeblock m1) + blocks_for (length c) = unat (freeblock m) + blocks_for (length c + length p)"
    using H(6) small room total_blocks_update [OF i, of "length (c @ p)" "c @ p"] I(4) unfolding un by auto
  from store_inv [OF inv i small l(2,3,6,4,5), of "length (c @ p)"] obtain m'
    where "winode ?i (y\<lparr>isize := of_nat (length (c @ p))\<rparr>) m1 = Some m'" "mk_inv (fs[i := (ty, length (c @ p), c @ p)]) m'" .
  then show thesis using that rinode_marked [OF I(1) iu] H(3) l(1) by (simp add: iappend_def)
qed

text \<open>Setting the size of a file.\<close>

lemma resize_inv:
  assumes inv: "mk_inv fs m" and i: "i < length fs" "fs ! i = (ty, k, c)"
  obtains m' where "winode (of_nat (Suc i)) ((inode_at (marked m) (of_nat (Suc i)))\<lparr>isize := of_nat n\<rparr>) m = Some m'" "mk_inv (fs[i := (ty, n, c)]) m'"
proof -
  note I = mk_invD [OF inv]
  note H = holds_fileD [OF I(5) [OF i(1), unfolded i(2)]]
  from store_inv [OF inv i _ I(1) refl _ file_written_refl [OF H(5)], of n] H(4,6) that show thesis by auto
qed

section \<open>The steps of main\<close>

lemma empty_file:
  assumes sd: "same_dinode (inode_at V i) z" and z: "inum z = i" "itype z = ty" "inlink z = 1" "isize z = 0" "\<And>k. iaddrs z k = 0"
    and l: "layout_ok mk_log mk_sb i V"
  shows "holds_file V i (ty, 0, [])" "file_blocks V (inode_at V i) = {0}"
proof -
  have iz: "inum (inode_at V i) = inum z" using z(1) by simp
  note C = same_dinode_cong [OF sd iz]
  have b: "block_of V z = (\<lambda>k. 0)" by (simp add: block_of_def z fun_eq_iff)
  show fb: "file_blocks V (inode_at V i) = {0}" unfolding C(5) by (auto simp: file_blocks_def b z)
  have "file_ok mk_log mk_sb V z" using l by (simp add: file_ok_def b z)
  moreover have "filled V z 0" by (simp add: filled_def b z)
  moreover have "file_byte V z k = 0" for k by (simp add: file_byte_def b)
  ultimately show "holds_file V i (ty, 0, [])" using sd z fb by (simp add: holds_file.simps same_dinode_def Let_def C(3,4,6))
qed

lemma ialloc_inv:
  assumes inv: "mk_inv fs m" and n: "length fs < 206"
  obtains m' where "mk_ialloc ty m = Some (of_nat (Suc (length fs)), m')" "mk_inv (fs @ [(ty, 0, [])]) m'"
proof -
  define i :: uint where "i = of_nat (Suc (length fs))"
  let ?V = "marked m" and ?m1 = "m\<lparr>freeinode := freeinode m + 1\<rparr>"
  let ?z = "(dinode0 i)\<lparr>itype := ty, inlink := 1, isize := 0\<rparr>" and ?b = "IBLOCK i mk_sb"
  note I = mk_invD [OF inv]
  have iu: "unat i < 208" using unat_ino(1) [of "Suc (length fs)"] n by (simp add: i_def)
  have "sector ?m1 = sector m" by (simp add: sector_def fun_eq_iff)
  then have m1: "img_ok ?m1" "marked ?m1 = ?V" using I(1) by (simp_all add: img_ok_def marked_def)
  from winode_marked [OF m1(1) iu, of ?z] obtain m' where w: "winode i ?z ?m1 = Some m'" "img_ok m'" "freeblock m' = freeblock m"
    "freeinode m' = freeinode m + 1" "marked m' = ?V(?b := put_dinode (dinode_off i) ?z (?V ?b))" using m1(2) by auto
  have room: "dinode_off i + sizeof_dinode \<le> length (?V ?b)" using dinode_off_bound img_okD(6) [OF I(1)] by simp
  have "same_dinode (inode_at (marked m') i) ?z" using get_put_dinode [OF room] by (simp add: inode_at_def w(5))
  note new = empty_file [OF this _ _ _ _ _ marked_layout [OF w(2) iu], of ty]
  have b45: "?b \<noteq> 45" using mk_IBLOCK(2) [OF iu] by auto
  have "mk_inv (fs @ [(ty, 0, [])]) m'"
  proof (rule mk_inv_update [OF inv w(2) order_refl, where f = "(ty, 0, [])" and B = "{}", folded i_def])
    show "blk_used mk_sb (marked m') b" if "unat b < 1000" "blk_used mk_sb ?V b" for b
      using that(2) b45 blk_used_cong [of mk_sb "marked m'" ?V b] that(1) by (auto simp: w(5) mk_bitmap_blocks mk_sb_fields)
    show "unat (freeblock m') = total_blocks (fs @ [(ty, 0, [])])"
      using w(3) I(4) by (simp add: total_blocks_def blocks_for_def BSIZE_def)
    show "dinode_bytes mk_sb (marked m') j = dinode_bytes mk_sb ?V j" if "j \<noteq> i" "IBLOCK j mk_sb = ?b" for j
    proof -
      have "slice (dinode_off j) sizeof_dinode (put_dinode (dinode_off i) ?z (?V ?b)) = slice (dinode_off j) sizeof_dinode (?V ?b)"
        by (rule slice_put_dinode_other [OF room]) (use IBLOCK_other [OF that] dinode_off_bound [of j] img_okD(6) [OF I(1)] in auto)
      then show ?thesis using that(2) by (simp add: dinode_bytes_def w(5))
    qed
    show "holds_file (marked m') i (ty, 0, [])" by (rule new(1)) (simp_all add: dinode0_def)
    show "b \<in> {} \<or> \<not> blk_used mk_sb ?V b" if "b \<in> file_blocks (marked m') (inode_at (marked m') i)" "b \<noteq> 0" for b
      using that new(2) by (simp add: dinode0_def)
  qed (use n w I(2) in \<open>auto simp: i_def\<close>)
  moreover have "mk_ialloc ty m = Some (i, m')" using w(1) I(2) by (simp add: mk_ialloc_def Let_def i_def)
  ultimately show thesis using that by (simp add: i_def)
qed

text \<open>Copying a file, however \<open>read\<close> cuts it.\<close>

lemma total_blocks_grow:
  assumes "i < length fs" "fs ! i = (ty, n, c)" "length c \<le> length d"
  shows "total_blocks fs \<le> total_blocks (fs[i := (ty, k, d)])"
  using total_blocks_update [OF assms(1,2), of k d] blocks_for_mono [OF assms(3)] by simp

lemma iappend_pieces:
  assumes "mk_inv fs m" "i < length fs" "fs ! i = (ty, length c, c)" "length c + length (concat ps) \<le> MAXFILE * BSIZE"
    and "total_blocks (fs[i := (ty, length (c @ concat ps), c @ concat ps)]) \<le> FSSIZE"
  shows "\<exists>m'. for_each (iappend (of_nat (Suc i))) ps m = Some m' \<and> mk_inv (fs[i := (ty, length (c @ concat ps), c @ concat ps)]) m'"
  using assms
proof (induction ps arbitrary: c fs m)
  case Nil
  then have "fs[i := (ty, length c, c)] = fs" by (metis list_update_id)
  then show ?case using Nil by simp
next
  case (Cons p ps)
  let ?fs = "fs[i := (ty, length (c @ p), c @ p)]"
  have "total_blocks ?fs \<le> total_blocks (?fs[i := (ty, length ((c @ p) @ concat ps), (c @ p) @ concat ps)])"
    by (rule total_blocks_grow) (use Cons.prems(2) in auto)
  then have room: "total_blocks ?fs \<le> FSSIZE" using Cons.prems(5) by simp
  obtain m1 where m1: "iappend (of_nat (Suc i)) p m = Some m1" "mk_inv ?fs m1"
    using iappend_inv [OF Cons.prems(1-3) _ room] Cons.prems(4) by auto
  from Cons.IH [OF m1(2), of "c @ p"] Cons.prems(2,4,5) m1(1) show ?case by auto
qed

lemma length_dirent [simp]: "length (dirent i name) = 16"
  by (simp add: dirent_def DIRSIZ_def)

lemma mk_file_inv:
  assumes inv: "mk_inv ((T_DIR, length ds, ds) # fl) m" and a: "slash \<notin> set (strip_user a)" "host a = Some ps" and n: "length fl < 205"
    and small: "length ds + 16 \<le> MAXFILE * BSIZE" "length (concat ps) \<le> MAXFILE * BSIZE"
  defines "ds' \<equiv> ds @ dirent (of_nat (length fl + 2)) (shortname a)"
  assumes room: "total_blocks ((T_DIR, length ds', ds') # fl @ [(T_FILE, length (concat ps), concat ps)]) \<le> FSSIZE"
  shows "\<exists>m'. mk_file host ROOTINO a m = Some m' \<and> mk_inv ((T_DIR, length ds', ds') # fl @ [(T_FILE, length (concat ps), concat ps)]) m'"
proof -
  let ?i = "Suc (length fl)"
  let ?fs1 = "((T_DIR, length ds, ds) # fl) @ [(T_FILE, 0, [])]" and ?fs2 = "((T_DIR, length ds', ds') # fl) @ [(T_FILE, length ([] :: bytes), [])]"
  from ialloc_inv [OF inv, of T_FILE] n obtain m1 where m1: "mk_ialloc T_FILE m = Some (of_nat (Suc ?i), m1)" "mk_inv ?fs1 m1" by auto
  have up: "?fs2[?i := (T_FILE, length (concat ps), concat ps)] = (T_DIR, length ds', ds') # fl @ [(T_FILE, length (concat ps), concat ps)]"
    by (simp add: list_update_append)
  have "total_blocks ?fs2 \<le> total_blocks (?fs2[?i := (T_FILE, length (concat ps), concat ps)])"
    by (rule total_blocks_grow [where n = 0 and c = "[]"]) (simp_all add: nth_append)
  then have "total_blocks ?fs2 \<le> FSSIZE" using room up by simp
  moreover have d: "?fs1[0 := (T_DIR, length (ds @ dirent (of_nat (Suc ?i)) (shortname a)), ds @ dirent (of_nat (Suc ?i)) (shortname a))] = ?fs2"
    by (simp add: ds'_def)
  ultimately obtain m2 where m2: "iappend ROOTINO (dirent (of_nat (Suc ?i)) (shortname a)) m1 = Some m2" "mk_inv ?fs2 m2"
    using iappend_inv [OF m1(2), of 0 T_DIR ds "dirent (of_nat (Suc ?i)) (shortname a)"] small(1) unfolding d by (auto simp: ROOTINO_def)
  from iappend_pieces [OF m2(2), of ?i T_FILE "[]" ps] small(2) room up obtain m3
    where "for_each (iappend (of_nat (Suc ?i))) ps m2 = Some m3" "mk_inv (?fs2[?i := (T_FILE, length (concat ps), concat ps)]) m3"
    by (auto simp: nth_append)
  then show ?thesis using a m1(1) m2(1) up by (simp add: mk_file_def)
qed

text \<open>The blank image with its super block.\<close>

lemma mk_blank_eq: "mk_blank = \<lparr>fsimg = replicate FSSIZE (replicate BSIZE 0), freeinode = 1, freeblock = of_nat nmeta\<rparr>"
proof -
  have "fold (\<lambda>i. wsect (of_nat i) (replicate BSIZE 0)) [0..<n] \<lparr>fsimg = [], freeinode = 1, freeblock = of_nat nmeta\<rparr> =
      \<lparr>fsimg = replicate n (replicate BSIZE 0), freeinode = 1, freeblock = of_nat nmeta\<rparr>" if "n \<le> FSSIZE" for n
    using that
  proof (induction n)
    case (Suc n)
    then have "unat (of_nat n :: uint) = n" by (simp add: FSSIZE_def unsigned_of_nat take_bit_nat_eq_self)
    then have "unat (of_nat n * of_nat BSIZE :: uint) div BSIZE = n" using sect_index [of "of_nat n"] Suc.prems by simp
    then show ?case using Suc by (simp add: wsect_def Let_def replicate_append_same)
  qed simp
  then show ?thesis by (simp add: mk_blank_def)
qed

lemma superblock_put: "length xs = BSIZE \<Longrightarrow> superblock_of (put_superblock b xs) = b"
  by (simp add: superblock_of_def put_superblock_def get_put_other BSIZE_def)

lemma start_inv: "mk_inv [] (wsect 1 (put_superblock mk_sb (replicate BSIZE 0)) mk_blank)"
proof -
  have s: "sector mk_blank b = replicate BSIZE 0" for b by (simp add: mk_blank_eq sector_def)
  have ok: "img_ok mk_blank" using s by (simp add: img_ok_def mk_blank_eq nmeta_eq FSSIZE_def)
  let ?v = "put_superblock mk_sb (replicate BSIZE 0)"
  have v: "length ?v = BSIZE" by (simp add: put_superblock_def BSIZE_def)
  have one: "unat (1 :: uint) < unat (freeblock mk_blank)" "(1 :: uint) \<noteq> 45" by (simp_all add: mk_blank_eq nmeta_eq)
  note w = marked_wsect [OF ok one v]
  have m: "marked mk_blank b = replicate BSIZE 0" if "b \<noteq> 45" for b using that s by (simp add: marked_def mk_sb_fields)
  have "marked mk_blank b = replicate BSIZE 0" if "unat b < 32" for b using that by (intro m) auto
  then show ?thesis
    using w superblock_put [of "replicate BSIZE 0" mk_sb] by (simp add: mk_inv_def) (simp add: total_blocks_def mk_blank_eq nmeta_eq)
qed

text \<open>The files of the image.\<close>

definition root_entries :: "bytes list \<Rightarrow> bytes" where
  "root_entries args = dirent 1 [46] @ dirent 1 [46, 46] @ concat (map (\<lambda>(k, a). dirent (of_nat k) (shortname a)) (enumerate 2 args))"

definition files_of :: "host \<Rightarrow> bytes list \<Rightarrow> (ushort \<times> nat \<times> bytes) list" where
  "files_of host args = (T_DIR, length (root_entries args), root_entries args) #
     map (\<lambda>a. (T_FILE, length (concat (the (host a))), concat (the (host a)))) args"

lemma root_entries_snoc: "root_entries (args @ [a]) = root_entries args @ dirent (of_nat (length args + 2)) (shortname a)"
  by (simp add: root_entries_def enumerate_append_eq add.commute)

lemma length_root_entries: "length (root_entries args) = 16 * (length args + 2)"
  by (induction args rule: rev_induct) (simp_all add: root_entries_snoc, simp add: root_entries_def)

lemma total_files_snoc: "total_blocks (files_of host args) \<le> total_blocks (files_of host (args @ [a]))"
  by (simp add: files_of_def total_blocks_def length_root_entries blocks_for_mono trans_le_add1)

lemma total_files_take: "total_blocks (files_of host (take k args)) \<le> total_blocks (files_of host args)"
proof (induction args rule: rev_induct)
  case (snoc a args)
  then show ?case using total_files_snoc [of host args a] by (cases "k \<le> length args") auto
qed simp

lemma root_start:
  obtains m where "do { (i, m) \<leftarrow> mk_ialloc T_DIR (wsect 1 (put_superblock mk_sb (replicate BSIZE 0)) mk_blank);
      m \<leftarrow> iappend i (dirent i [46]) m; m \<leftarrow> iappend i (dirent i [46, 46]) m; Some (i, m) } = Some (ROOTINO, m)" "mk_inv (files_of host []) m"
proof -
  obtain m1 where m1: "mk_ialloc T_DIR (wsect 1 (put_superblock mk_sb (replicate BSIZE 0)) mk_blank) = Some (1, m1)" "mk_inv [(T_DIR, length ([] :: bytes), [])] m1"
    using ialloc_inv [OF start_inv, of T_DIR] by auto
  have s: "total_blocks [(T_DIR, n, c)] \<le> FSSIZE" "length c \<le> MAXFILE * BSIZE" if "length c \<le> 32" for n c
    using that blocks_for_mono [OF that] by (simp_all add: total_blocks_def nmeta_eq FSSIZE_def blocks_for_def NDIRECT_def BSIZE_def MAXFILE_def)
  obtain m2 where m2: "iappend 1 (dirent 1 [46]) m1 = Some m2" "mk_inv [(T_DIR, length (dirent 1 [46]), dirent 1 [46])] m2"
    using iappend_inv [OF m1(2), of 0 T_DIR "[]" "dirent 1 [46]"] s [of "dirent 1 [46]"] by auto
  let ?c = "dirent 1 [46] @ dirent 1 [46, 46]"
  obtain m3 where "iappend 1 (dirent 1 [46, 46]) m2 = Some m3" "mk_inv [(T_DIR, length ?c, ?c)] m3"
    using iappend_inv [OF m2(2), of 0 T_DIR "dirent 1 [46]" "dirent 1 [46, 46]"] s [of ?c] by auto
  then show thesis using that m1(1) m2(1) by (simp add: ROOTINO_def files_of_def root_entries_def)
qed

lemma files_inv:
  assumes a: "\<forall>a\<in>set args. slash \<notin> set (strip_user a) \<and> (\<exists>ps. host a = Some ps \<and> length (concat ps) \<le> MAXFILE * BSIZE)"
    and n: "Suc (length args) < NINODES" and room: "total_blocks (files_of host args) \<le> FSSIZE" and m: "mk_inv (files_of host []) m"
  shows "\<exists>t. for_each (mk_file host ROOTINO) args m = Some t \<and> mk_inv (files_of host args) t"
proof -
  have "\<exists>t. for_each (mk_file host ROOTINO) args m = Some t \<and> mk_inv (files_of host (take (length args) args)) t"
  proof (rule for_each_inv [where I = "\<lambda>k t. mk_inv (files_of host (take k args)) t"])
    fix k t assume k: "k < length args" and t: "mk_inv (files_of host (take k args)) t"
    let ?as = "take k args" and ?a = "args ! k"
    obtain ps where ps: "slash \<notin> set (strip_user ?a)" "host ?a = Some ps" "length (concat ps) \<le> MAXFILE * BSIZE" using a k by (meson nth_mem)
    have sn: "take (Suc k) args = ?as @ [?a]" using k by (rule take_Suc_conv_app_nth)
    have fs: "files_of host (take (Suc k) args) = (T_DIR, length (root_entries (?as @ [?a])), root_entries (?as @ [?a])) #
        map (\<lambda>a. (T_FILE, length (concat (the (host a))), concat (the (host a)))) ?as @ [(T_FILE, length (concat ps), concat ps)]"
      using ps(2) by (simp add: sn files_of_def)
    have "total_blocks (files_of host (take (Suc k) args)) \<le> FSSIZE" using total_files_take [of host "Suc k" args] room by linarith
    moreover have "length (root_entries ?as) + 16 \<le> MAXFILE * BSIZE"
      using n k by (simp add: length_root_entries NINODES_def MAXFILE_def NDIRECT_def NINDIRECT_def BSIZE_def)
    moreover have "length (map (\<lambda>a. (T_FILE, length (concat (the (host a))), concat (the (host a)))) ?as) < 205" using n k by (simp add: NINODES_def)
    ultimately show "\<exists>u. mk_file host ROOTINO ?a t = Some u \<and> mk_inv (files_of host (take (Suc k) args)) u"
      using mk_file_inv [OF t [unfolded files_of_def], of ?a host ps] ps k unfolding fs root_entries_snoc by simp
  qed (use m in simp)
  then show ?thesis by simp
qed

end
