(* ===== verification/Mount.thy ===== *)
theory Mount
  imports MkfsImage
begin

text \<open>
  Mounting: \<open>fsinit\<close> of \<^verbatim>\<open>kernel/fs.c\<close> on a disk, and that the image of \<open>mkfs\<close> is a disk that the kernel can mount and whose
  files it then sees.
\<close>

section \<open>fsinit\<close>

lemma readsb_spec:
  fixes r :: "'a kfs_scheme"
  assumes r: "rebooted h d D r"
  obtains u where "readsb h d r = Some u" "rebooted h d D u" "sb u = superblock_of (D 1)" "itab u = itab r"
    "outstanding u = outstanding r" "committing u = committing r"
proof -
  let ?sp = "superblock_of (D 1)"
  have r': "quiet h r" "cache_ok d r" "no_users (abs_cache d r)" "disk r = D" using r by (simp_all add: rebooted_def)
  have V: "view d r = D" using no_users_view [OF r'(2,3)] r'(4) by simp
  have okr: "quiet h r \<and> cache_ok d r" using r' by simp
  have av: "available (abs_cache d r) 1" using r'(3) by (simp add: available_def no_users_def NBUF_def MAXOPBLOCKS_def)
  from bcache.rd_law [OF okr av] obtain b t where t: "bread h d 1 r = Some (b, t)" "mine h d t 1 b"
    "cache_step h d r t (locked_by (me_pid h r) 1 (abs_cache d r))" by blast
  note T = bcache.step_result [OF t(3) okr]
  let ?t = "t\<lparr>sb := ?sp\<rparr>"
  have c: "abs_cache d ?t = abs_cache d t" "cache_ok d ?t = cache_ok d t" by (rule abs_cache_cong'; simp)+
  have q: "quiet h ?t = quiet h t" by (simp add: quiet_def lock_free_def)
  have okt: "quiet h ?t \<and> cache_ok d ?t" and mt: "mine h d ?t 1 b" using T t(2) c q by (simp_all add: mine_def me_pid_def)
  have "crefs (abs_cache d ?t) 1 = 1 \<Longrightarrow> cview (abs_cache d ?t) 1 = cdisk (abs_cache d ?t) 1"
    using T V r'(4) arg_cong [of "abs_cache d t" _ cdisk] by (simp add: c locked_by_def)
  from bcache.rl_law [OF okt mt this] obtain u where u: "brelse h b ?t = Some u" "cache_step h d ?t u (released 1 (abs_cache d ?t))" by blast
  note U = bcache.step_result [OF u(2) okt]
  have au: "abs_cache d u = abs_cache d r"
    using U T by (simp add: c released_def locked_by_def) (use r'(3) in \<open>simp add: no_users_def fun_upd_idem\<close>)
  have "disk u = D" using arg_cong [OF au, of cdisk] r'(4) by simp
  moreover have "bdata (bufs t b) = D 1" using bcache.own_data [OF _ t(2)] T V by (auto simp: locked_by_def)
  then have "readsb h d r = Some u" using t(1) u(1) by (simp add: readsb_def)
  moreover have "bio_frame r t" "bio_frame ?t u" using T U by auto
  then have "sb u = ?sp" "itab u = itab r" "outstanding u = outstanding r" "committing u = committing r" by (auto simp: bio_frame_def)
  ultimately show thesis using that U au r'(3) by (simp add: rebooted_def)
qed

lemma fsinit_spec:
  fixes r :: "'a kfs_scheme"
  assumes r: "rebooted h d D r" and sp: "superblock_of (D 1) = sp" "magic sp = FSMAGIC"
    and ok: "log_disk_ok (logstart sp) (nat (sint (nlog sp))) D"
  obtains t where "fsinit h d r = Some t" "sb t = sp" "itab t = itab r" "lhn t = 0" "lstart t = logstart sp" "lsize t = sint (nlog sp)"
    "rebooted h d (disk t) t" "view d t = disk t" "same_homes (logstart sp) (nat (sint (nlog sp))) (disk t) (logical (logstart sp) D)"
    "ldev t = d" "outstanding t = outstanding r" "committing t = committing r"
    "\<exists>block. disk t = apply_writes (recovery_writes (logstart sp) block D) D"
proof -
  from readsb_spec [OF r] sp(1) obtain u where u: "readsb h d r = Some u" "rebooted h d D u" "sb u = sp" "itab u = itab r"
    "outstanding u = outstanding r" "committing u = committing r" by metis
  have u': "quiet h u" "cache_ok d u" "no_users (abs_cache d u)" "disk u = D" using u(2) by (simp_all add: rebooted_def)
  let ?s = "(initlock LogLock ''log'' u)\<lparr>lstart := logstart sp, lsize := sint (nlog sp), ldev := d\<rparr>"
  have same: "abs_cache d ?s = abs_cache d u" "cache_ok d ?s = cache_ok d u" "disk ?s = D"
    using abs_cache_cong'(1) [of ?s u d] abs_cache_cong'(2) [of ?s u d] u'(4) by (simp_all add: initlock_def upd_lock_def)
  have "quiet h ?s" using u'(1) by (auto simp: quiet_def lock_free_def initlock_def upd_lock_def)
  from recover_from_log_spec [OF this, of d "nat (sint (nlog sp))"] obtain v block where v: "recover_from_log h ?s = Some v" "quiet h v" "cache_ok d v"
    "klog_frame ?s v" "abs_cache d v = wrote (recovery_writes (logstart sp) block D) (abs_cache d u)" "lstart v = logstart sp"
    "lsize v = sint (nlog sp)" "lhn v = 0" "ldev v = d" "outstanding v = outstanding r" "committing v = committing r"
    using same u' u(5,6) ok by (auto simp: initlock_def upd_lock_def)
  have dsk: "disk v = apply_writes (recovery_writes (logstart sp) block D) D" using arg_cong [OF v(5), of cdisk] u'(4) by simp
  have "same_homes (logstart sp) (nat (sint (nlog sp))) (disk v) (logical (logstart sp) D)"
    using dsk recovery_result(1) [OF ok, of block] by (simp add: same_homes_def)
  moreover have nu: "no_users (abs_cache d v)" using u'(3) by (simp add: v(5) no_users_def)
  moreover have "sb v = sp" "itab v = itab r"
    using arg_cong [OF v(4) [unfolded klog_frame_def], of sb] arg_cong [OF v(4) [unfolded klog_frame_def], of itab] u(3,4)
    by (simp_all add: initlock_def upd_lock_def)
  moreover have "\<not> BSIZE \<le> sizeof_logheader" by (simp add: BSIZE_def sizeof_logheader_def LOGSIZE_def MAXOPBLOCKS_def)
  then have "fsinit h d r = Some v" using u(1,3) sp(2) v(1) by (simp add: fsinit_def initlog_def)
  ultimately show thesis using that v(2,3,6-11) dsk no_users_view [OF v(3) nu] by (auto simp: rebooted_def)
qed

section \<open>The image of mkfs\<close>

lemma unat_sector: "i < FSSIZE \<Longrightarrow> unat (of_nat i :: uint) = i"
  by (simp add: FSSIZE_def unsigned_of_nat take_bit_nat_eq_self)

lemma mk_main_spec:
  assumes argv: "2 \<le> length argv" "can_create (argv ! 1)"
    and a: "\<forall>a\<in>set (drop 2 argv). slash \<notin> set (strip_user a) \<and> (\<exists>ps. host a = Some ps \<and> length (concat ps) \<le> MAXFILE * BSIZE)"
    and n: "Suc (length (drop 2 argv)) < NINODES" and room: "total_blocks (files_of host (drop 2 argv)) \<le> FSSIZE"
  obtains m where "mk_main can_create host argv = Some m" "mk_inv ((files_of host (drop 2 argv))
      [0 := (T_DIR, (length (root_entries (drop 2 argv)) div BSIZE + 1) * BSIZE, root_entries (drop 2 argv))]) m" "sector m = marked m"
proof -
  let ?args = "drop 2 argv"
  let ?fs = "files_of host ?args" and ?re = "root_entries ?args"
  let ?n = "(length ?re div BSIZE + 1) * BSIZE"
  obtain m1 where m1: "do { (i, m) \<leftarrow> mk_ialloc T_DIR (wsect 1 (put_superblock mk_sb (replicate BSIZE 0)) mk_blank);
      m \<leftarrow> iappend i (dirent i [46]) m; m \<leftarrow> iappend i (dirent i [46, 46]) m; Some (i, m) } = Some (ROOTINO, m1)" "mk_inv (files_of host []) m1"
    by (rule root_start)
  obtain m2 where m2: "for_each (mk_file host ROOTINO) ?args m1 = Some m2" "mk_inv ?fs m2" using files_inv [OF a n room m1(2)] by blast
  note I = mk_invD [OF m2(2)]
  have f0: "0 < length ?fs" "?fs ! 0 = (T_DIR, length ?re, ?re)" by (simp_all add: files_of_def)
  note H = holds_fileD [OF I(5) [OF f0(1), unfolded f0(2)]]
  have len: "length ?re \<le> 4000" using n by (simp add: length_root_entries NINODES_def)
  have u: "unat (of_nat (length ?re) :: uint) = length ?re" using len by (intro unat_size) (simp add: MAXFILE_def NDIRECT_def NINDIRECT_def BSIZE_def)
  have sz: "(of_nat (length ?re) div of_nat BSIZE + 1) * of_nat BSIZE = (of_nat ?n :: uint)"
  proof -
    have "length ?re div BSIZE \<le> MAXFILE * BSIZE" using len by (simp add: MAXFILE_def NDIRECT_def NINDIRECT_def BSIZE_def)
    then have "of_nat (length ?re) div of_nat BSIZE = (of_nat (length ?re div BSIZE) :: uint)"
      using u unat_size by (simp add: word_unat_eq_iff unat_div BSIZE_def)
    then show ?thesis by (simp add: algebra_simps)
  qed
  obtain m3 where m3: "winode ROOTINO ((inode_at (marked m2) ROOTINO)\<lparr>isize := of_nat ?n\<rparr>) m2 = Some m3" "mk_inv (?fs[0 := (T_DIR, ?n, ?re)]) m3"
    using resize_inv [OF m2(2) f0, of ?n] by (auto simp: ROOTINO_def)
  note J = mk_invD [OF m3(2)]
  let ?m = "wsect 45 (mk_bits (unat (freeblock m3))) m3"
  have w: "sector ?m = (sector m3)(45 := mk_bits (unat (freeblock m3)))" "length (fsimg ?m) = FSSIZE" "freeinode ?m = freeinode m3" "freeblock ?m = freeblock m3"
    using wsect_sector [OF img_okD(1) [OF J(1)], of 45] by (simp_all add: FSSIZE_def)
  have s: "sector ?m = marked m3" "marked ?m = marked m3" using w by (simp_all add: marked_def mk_sb_fields)
  have "\<forall>x\<in>set (fsimg ?m). length x = BSIZE"
    using img_okD(6) [OF J(1)] s(1) w(2) by (metis (no_types, lifting) in_set_conv_nth sector_def unat_sector)
  then have "img_ok ?m" using J(1) w s by (auto simp: img_ok_def marked_def mk_sb_fields nmeta_eq)
  then have "mk_inv (?fs[0 := (T_DIR, ?n, ?re)]) ?m" using m3(2) w s(2) by (simp add: mk_inv_def)
  moreover have "mk_balloc (unat (freeblock m3)) m3 = Some ?m" using img_okD(3) [OF J(1)] by (simp add: mk_balloc_def BSIZE_def mk_sb_fields)
  then have "mk_main can_create host argv = Some ?m"
    using argv m1(1) m2(1) m3(1) sz H(3) rinode_marked [OF I(1), of 1] by (auto simp: mk_main_def ROOTINO_def)
  ultimately show thesis using that s by simp
qed

text \<open>What the kernel reads from a file of the image.\<close>

lemma holds_file_part:
  assumes h: "holds_file V i (ty, n, c)" and n: "length c \<le> n" "n \<le> MAXFILE * BSIZE"
  shows "unat (isize (inode_at V i)) = n" "file_part V (inode_at V i) 0 n = c @ replicate (n - length c) 0"
    "no_holes V (inode_at V i) \<longleftrightarrow> (\<forall>k<n. k div BSIZE * BSIZE < length c)"
proof -
  note H = holds_fileD [OF h]
  show s: "unat (isize (inode_at V i)) = n" using H(3) unat_size [OF n(2)] by simp
  show "file_part V (inode_at V i) 0 n = c @ replicate (n - length c) 0"
    by (rule nth_equalityI) (use H(8) n in \<open>auto simp: nth_append\<close>)
  have "block_of V (inode_at V i) (k div BSIZE) \<noteq> 0 \<longleftrightarrow> k div BSIZE * BSIZE < length c" if "k < n" for k
    using H(6) that n(2) by (simp add: filled_def less_mult_imp_div_less)
  then show "no_holes V (inode_at V i) \<longleftrightarrow> (\<forall>k<n. k div BSIZE * BSIZE < length c)"
    using s n(2) by (simp add: no_holes_def)
qed

lemma div_mult_less: "k < n \<Longrightarrow> k div BSIZE * BSIZE < n"
  using div_times_less_eq_dividend [of k BSIZE] by linarith

lemma round_up_holes:
  "(\<forall>k<(n div BSIZE + 1) * BSIZE. k div BSIZE * BSIZE < n) \<longleftrightarrow> n mod BSIZE \<noteq> 0"
proof
  assume a: "\<forall>k<(n div BSIZE + 1) * BSIZE. k div BSIZE * BSIZE < n"
  have "n < (n div BSIZE + 1) * BSIZE" using next_block [of n] by simp
  then have "n div BSIZE * BSIZE < n" using a by blast
  then show "n mod BSIZE \<noteq> 0" using div_mult_mod_eq [of n BSIZE] by linarith
next
  assume a: "n mod BSIZE \<noteq> 0"
  show "\<forall>k<(n div BSIZE + 1) * BSIZE. k div BSIZE * BSIZE < n"
  proof (intro allI impI)
    fix k assume "k < (n div BSIZE + 1) * BSIZE"
    then have "k div BSIZE < n div BSIZE + 1" by (rule less_mult_imp_div_less)
    then have "k div BSIZE * BSIZE \<le> n div BSIZE * BSIZE" by (intro mult_le_mono1) simp
    then show "k div BSIZE * BSIZE < n" using a div_mult_mod_eq [of n BSIZE] by linarith
  qed
qed

text \<open>The log of the image is empty, and recovery changes nothing.\<close>

lemma mk_mounts:
  fixes r :: "'a kfs_scheme"
  assumes inv: "mk_inv fs m" and m: "sector m = marked m" and r: "rebooted h d (sector m) r"
  obtains t where "fsinit h d r = Some t" "sb t = mk_sb" "itab t = itab r" "lhn t = 0" "lstart t = 2" "lsize t = 30" "ldev t = d"
    "outstanding t = outstanding r" "committing t = committing r" "rebooted h d (sector m) t" "view d t = sector m"
    "log_disk_ok 2 30 (sector m)" "hdr_n (sector m 2) = 0"
proof -
  note I = mk_invD [OF inv]
  have sp: "superblock_of (sector m 1) = mk_sb" "magic mk_sb = FSMAGIC" using I(7) m by (simp_all add: mk_sb_def)
  have lg: "logstart mk_sb = 2" "nat (sint (nlog mk_sb)) = 30" "sint (nlog mk_sb) = 30" by (simp_all add: mk_sb_eq example_sb_def)
  have z: "sector m 2 = replicate BSIZE 0" using I(8) [of 2] m by simp
  have hdr: "hdr_n (sector m 2) = 0" by (simp add: z hdr_n_def get32_zeros BSIZE_def)
  have ok: "log_disk_ok 2 30 (sector m)" using hdr z by (simp add: log_disk_ok_def)
  then have "log_disk_ok (logstart mk_sb) (nat (sint (nlog mk_sb))) (sector m)" by (simp add: lg)
  from fsinit_spec [OF r sp this] obtain t block where t: "fsinit h d r = Some t" "sb t = mk_sb" "itab t = itab r" "lhn t = 0" "lstart t = 2"
    "lsize t = 30" "ldev t = d" "outstanding t = outstanding r" "committing t = committing r" "rebooted h d (disk t) t" "view d t = disk t"
    "disk t = apply_writes (recovery_writes 2 block (sector m)) (sector m)" unfolding lg by metis
  have "hdr_put 0 block (sector m 2) = sector m 2" by (simp add: hdr_put_def z put32_def splice_at_def BSIZE_def numeral_eq_Suc)
  then have "disk t = sector m" using t(12) hdr by (simp add: recovery_writes_def log_writes_def)
  then show thesis using that t(1-11) ok hdr by simp
qed

lemma image_file:
  assumes inv: "mk_inv ((files_of host args)[0 := root]) m" and m: "sector m = marked m" and k: "k < length args"
  shows "itype (inode_at (sector m) (of_nat (k + 2))) = T_FILE \<and> inlink (inode_at (sector m) (of_nat (k + 2))) = 1 \<and>
    file_ok mk_log mk_sb (sector m) (inode_at (sector m) (of_nat (k + 2))) \<and> no_holes (sector m) (inode_at (sector m) (of_nat (k + 2))) \<and>
    file_part (sector m) (inode_at (sector m) (of_nat (k + 2))) 0 (unat (isize (inode_at (sector m) (of_nat (k + 2))))) =
      concat (the (host (args ! k)))"
proof -
  let ?c = "concat (the (host (args ! k)))"
  have "(files_of host args)[0 := root] ! Suc k = (T_FILE, length ?c, ?c)" using k by (simp add: files_of_def)
  then have h: "holds_file (sector m) (of_nat (k + 2)) (T_FILE, length ?c, ?c)"
    using mk_invD(5) [OF inv, of "Suc k"] k by (simp add: m files_of_def)
  show ?thesis using holds_fileD [OF h] holds_file_part [OF h order_refl] div_mult_less by simp
qed

text \<open>
  C4: when the files to copy exist, their names have no slash, there are fewer than \<open>NINODES\<close> of them and they and the root
  directory fit into the image, \<open>mkfs\<close> makes an image in which
  the super block is the one that the kernel reads back;
  the bitmap marks exactly the blocks below the first free one;
  inode \<open>k + 2\<close> is a regular file with the contents of the \<open>k\<close>-th file, however \<open>read\<close> cut it, well formed in the sense of the kernel's
  file system and without holes;
  inode 1 is a directory with the entries ``.'', ``..'' and those of the files, followed by zeros, whose size is rounded up beyond them; it
  has a hole if and only if its entries fill whole blocks;
  no block belongs to two files;
  and a kernel that boots from the image returns from \<open>fsinit\<close> and sees these blocks.
\<close>

theorem mkfs_correct:
  fixes can_create :: "bytes \<Rightarrow> bool" and host :: host
  assumes "2 \<le> length argv" "can_create (argv ! 1)" "args = drop 2 argv"
    and "\<forall>a\<in>set args. slash \<notin> set (strip_user a) \<and> (\<exists>ps. host a = Some ps \<and> length (concat ps) \<le> MAXFILE * BSIZE)"
    and "Suc (length args) < NINODES" "total_blocks (files_of host args) \<le> FSSIZE"
  shows "\<exists>m. mk_main can_create host argv = Some m \<and> (let V = sector m; x = (\<lambda>i. inode_at V (of_nat i)) in
    superblock_of (V 1) = mk_sb \<and>
    (\<forall>b<FSSIZE. blk_used mk_sb V (of_nat b) \<longleftrightarrow> b < total_blocks (files_of host args)) \<and>
    (\<forall>k<length args. itype (x (k + 2)) = T_FILE \<and> inlink (x (k + 2)) = 1 \<and> file_ok mk_log mk_sb V (x (k + 2)) \<and> no_holes V (x (k + 2)) \<and>
      file_part V (x (k + 2)) 0 (unat (isize (x (k + 2)))) = concat (the (host (args ! k)))) \<and>
    (let n = length (root_entries args); size = (n div BSIZE + 1) * BSIZE in
      itype (x 1) = T_DIR \<and> inlink (x 1) = 1 \<and> file_ok mk_log mk_sb V (x 1) \<and> unat (isize (x 1)) = size \<and>
      file_part V (x 1) 0 size = root_entries args @ replicate (size - n) 0 \<and> (no_holes V (x 1) \<longleftrightarrow> n mod BSIZE \<noteq> 0)) \<and>
    (\<forall>j k. 1 \<le> j \<and> j < k \<and> k \<le> Suc (length args) \<longrightarrow> file_blocks V (x j) \<inter> file_blocks V (x k) \<subseteq> {0}) \<and>
    (\<forall>h d (r :: kfs). rebooted h d V r \<longrightarrow>
      (\<exists>t. fsinit h d r = Some t \<and> sb t = mk_sb \<and> view d t = V)))"
proof -
  let ?n = "length (root_entries args)"
  let ?size = "(?n div BSIZE + 1) * BSIZE" and ?fs = "files_of host args"
  obtain m where m: "mk_main can_create host argv = Some m" "mk_inv (?fs[0 := (T_DIR, ?size, root_entries args)]) m" "sector m = marked m"
    using mk_main_spec [where can_create = can_create, OF assms(1,2) assms(4-6) [unfolded assms(3)]] unfolding assms(3) by blast
  let ?V = "sector m" and ?gs = "?fs[0 := (T_DIR, ?size, root_entries args)]"
  note I = mk_invD [OF m(2), folded m(3)]
  have len: "length ?gs = Suc (length args)" by (simp add: files_of_def)
  have tot: "total_blocks ?gs = total_blocks ?fs" by (simp add: files_of_def total_blocks_def)
  have used: "\<forall>b<FSSIZE. blk_used mk_sb ?V (of_nat b) \<longleftrightarrow> b < total_blocks ?fs"
    using marked_used [OF I(1)] I(4) tot unat_sector by (simp add: m(3))
  note reg = image_file [OF m(2,3)]
  have "?gs ! 0 = (T_DIR, ?size, root_entries args)" by (simp add: files_of_def)
  then have h: "holds_file ?V (of_nat 1) (T_DIR, ?size, root_entries args)" using I(5) [of 0] len by (cases "files_of host args") auto
  have "?n < ?size" using next_block [of ?n] by simp
  moreover have "?size \<le> MAXFILE * BSIZE"
    using assms(5) length_root_entries [of args] by (simp add: NINODES_def MAXFILE_def NDIRECT_def NINDIRECT_def BSIZE_def)
  ultimately have dir: "?n \<le> ?size" "?size \<le> MAXFILE * BSIZE" by linarith+
  note D = holds_fileD [OF h] holds_file_part [OF h dir]
  have sep: "file_blocks ?V (inode_at ?V (of_nat j)) \<inter> file_blocks ?V (inode_at ?V (of_nat k)) \<subseteq> {0}"
    if "1 \<le> j \<and> j < k \<and> k \<le> Suc (length args)" for j k
    using I(6) [of "j - 1" "k - 1"] that len by auto
  have "\<exists>t. fsinit h d r = Some t \<and> sb t = mk_sb \<and> view d t = ?V" if "rebooted h d ?V r" for h d and r :: kfs
    by (rule mk_mounts [OF m(2,3) that]) blast
  then show ?thesis
    unfolding Let_def using m(1) I(7) used reg D(1,2,5,9,10) D(11) [unfolded round_up_holes] sep
    by (intro exI [of _ m] conjI allI impI) blast+
qed

text \<open>An image with one file, \<^verbatim>\<open>user/_a\<close>, that \<open>read\<close> returns in two pieces.\<close>

definition example_host :: host where
  "example_host a = (if a = [117, 115, 101, 114, 47, 95, 97] then Some [[104], [105]] else None)"

abbreviation example_name :: bytes where
  "example_name \<equiv> [117, 115, 101, 114, 47, 95, 97]"

lemma example_image:
  "\<forall>a\<in>set [example_name]. slash \<notin> set (strip_user a) \<and> (\<exists>ps. example_host a = Some ps \<and> length (concat ps) \<le> MAXFILE * BSIZE)"
  "total_blocks (files_of example_host [example_name]) = 48" "total_blocks (files_of example_host [example_name]) \<le> FSSIZE"
  "2 \<le> length [[109], [102], example_name]" "[example_name] = drop 2 [[109], [102], example_name]" "Suc (length [example_name]) < NINODES"
proof -
  have h: "example_host example_name = Some [[104], [105]]" by (simp add: example_host_def)
  have "slash \<notin> set (strip_user example_name)" by (simp add: strip_user_def slash_def)
  then show "\<forall>a\<in>set [example_name]. slash \<notin> set (strip_user a) \<and> (\<exists>ps. example_host a = Some ps \<and> length (concat ps) \<le> MAXFILE * BSIZE)"
    using h by (simp add: MAXFILE_def NDIRECT_def BSIZE_def)
  show t: "total_blocks (files_of example_host [example_name]) = 48"
    using h length_root_entries [of "[example_name]"] by (simp add: files_of_def total_blocks_def nmeta_eq blocks_for_def NDIRECT_def BSIZE_def)
  show "total_blocks (files_of example_host [example_name]) \<le> FSSIZE" by (simp add: t FSSIZE_def)
qed (simp_all add: NINODES_def)

theorem mkfs_correct_witness:
  "\<exists>m. mk_main (\<lambda>a. True) example_host [[109], [102], [117, 115, 101, 114, 47, 95, 97]] = Some m \<and>
    itype (inode_at (sector m) 2) = T_FILE \<and>
    file_part (sector m) (inode_at (sector m) 2) 0 (unat (isize (inode_at (sector m) 2))) = [104, 105] \<and>
    blk_used mk_sb (sector m) 47 \<and> \<not> blk_used mk_sb (sector m) 48"
proof -
  let ?a = example_name
  have h: "example_host ?a = Some [[104], [105]]" by (simp add: example_host_def)
  note M = mkfs_correct [where can_create = "\<lambda>a. True", OF example_image(4) TrueI example_image(5,1,6,3), unfolded Let_def example_image(2)]
  obtain m where m: "mk_main (\<lambda>a. True) example_host [[109], [102], ?a] = Some m"
    "\<forall>b<FSSIZE. blk_used mk_sb (sector m) (of_nat b) \<longleftrightarrow> b < 48"
    "\<forall>k<length [?a]. itype (inode_at (sector m) (of_nat (k + 2))) = T_FILE \<and> inlink (inode_at (sector m) (of_nat (k + 2))) = 1 \<and>
      file_ok mk_log mk_sb (sector m) (inode_at (sector m) (of_nat (k + 2))) \<and> no_holes (sector m) (inode_at (sector m) (of_nat (k + 2))) \<and>
      file_part (sector m) (inode_at (sector m) (of_nat (k + 2))) 0 (unat (isize (inode_at (sector m) (of_nat (k + 2))))) =
        concat (the (example_host ([?a] ! k)))" using M by (elim exE conjE) (rule that; assumption)
  have "concat (the (example_host ([?a] ! 0))) = [104, 105]" using h by simp
  moreover have "blk_used mk_sb (sector m) 47" "\<not> blk_used mk_sb (sector m) 48"
    using m(2) [rule_format, of 47] m(2) [rule_format, of 48] by (simp_all add: FSSIZE_def)
  ultimately show ?thesis using m(1,3) by auto
qed

end
