(* ===== verification/FirstRead.thy ===== *)
theory FirstRead
  imports Mount
begin

text \<open>
  From \<open>mkfs\<close> to the first read: a kernel boots from the image that \<open>mkfs\<close> made, starts an operation, gets the inode of a file, locks it, and
  reads it.
\<close>

section \<open>The locks of inodes\<close>

lemma slocks_set_data: "slocks (set_data b v s) = slocks s"
  by (simp add: set_data_def slocks_basic)

lemma slocks_bwrite: "bwrite h b s = Some t \<Longrightarrow> slocks t (InodeLock i) = slocks s (InodeLock i)"
  by (auto simp: bwrite_def slocks_basic(4,5) Let_def dest!: slocks_sleeplock(3) [where k = "InodeLock i"] split: if_splits)

lemma slocks_read_head_loop: "read_head_loop lh k i s = Some t \<Longrightarrow> slocks t = slocks s"
  by (induction lh k i s rule: read_head_loop.induct) (auto split: if_splits)

lemma slocks_install: "install_trans_loop h True k tail s = Some t \<Longrightarrow> slocks t (InodeLock i) = slocks s (InodeLock i)"
  by (induction k arbitrary: tail s)
    (auto simp: slocks_set_data Let_def dest!: slocks_bio [where i = i] slocks_bwrite [where i = i] split: if_splits)

lemma slocks_recover: "recover_from_log h s = Some t \<Longrightarrow> slocks t (InodeLock i) = slocks s (InodeLock i)"
  by (auto simp: recover_from_log_def read_head_def write_head_def install_trans_def slocks_set_data Let_def
      dest!: slocks_bio [where i = i] slocks_bwrite [where i = i] slocks_install [where i = i] slocks_read_head_loop)

lemma slocks_fsinit: "fsinit h d s = Some t \<Longrightarrow> slocks t (InodeLock i) = slocks s (InodeLock i)"
  by (auto simp: fsinit_def readsb_def initlog_def initlock_def upd_lock_def Let_def dest!: slocks_bio [where i = i] slocks_recover [where i = i]
      split: if_splits)

section \<open>Starting an operation, and getting an inode\<close>

lemma tx_settle:
  fixes s :: "'a kfs_scheme"
  assumes "tx_inv h d {} s"
  shows "tx_inv h d {} (settle h s)" "abs_cache d (settle h s) = abs_cache d s"
proof -
  have f: "bufs (settle h s) = bufs s" "slocks (settle h s) = slocks s" "disk (settle h s) = disk s" "history (settle h s) = history s"
    "lstart (settle h s) = lstart s" "lsize (settle h s) = lsize s" "ldev (settle h s) = ldev s" "lhn (settle h s) = lhn s"
    "lhblock (settle h s) = lhblock s" by (simp_all add: upd_cpu_def)
  have "quiet h (settle h s)" by (rule quiet_step_quiet [OF quiet_step_settle tx_invD(1) [OF assms]])
  moreover have "me_pid h (settle h s) = me_pid h s" by (simp add: me_pid_def upd_cpu_def)
  ultimately show "tx_inv h d {} (settle h s)" using assms tx_invD(1) [OF assms] by (subst tx_inv_cong [where s = s]) (simp_all add: f)
  show "abs_cache d (settle h s) = abs_cache d s" by (rule abs_cache_cong'(1)) (simp_all add: f)
qed

lemma begin_op_boot:
  fixes s :: "'a kfs_scheme"
  assumes r: "rebooted h d D s" and l: "log_disk_ok (lstart s) (nat (lsize s)) D" "hdr_n (D (lstart s)) = 0" "ldev s = d" "lhn s = 0"
    "lsize s = 30" and o: "outstanding s = 0" "committing s = 0"
  obtains t where "begin_op h s = Some t" "in_op h d 1 t" "view d t = view d s" "itab t = itab s" "sb t = sb s" "slocks t = slocks s"
    "lstart t = lstart s" "lsize t = lsize s"
proof -
  have r': "quiet h s" "cache_ok d s" "no_users (abs_cache d s)" "disk s = D" using r by (simp_all add: rebooted_def)
  let ?t = "(settle h s)\<lparr>outstanding := outstanding s + 1\<rparr>"
  have b: "begin_op h s = Some ?t"
    by (rule begin_op_eq [OF r'(1)]) (simp add: begin_op_blocked_def l o LOGSIZE_def MAXOPBLOCKS_def)
  have "committable (lstart s) (nat (lsize s)) (lhn s) (lhblock s) D" using l by (simp add: committable_def LOGSIZE_def)
  then have "tx_inv h d {} s" using r' l(3-5) by (simp add: tx_inv_def no_users_def pins_def NBUF_def MAXOPBLOCKS_def)
  note tx = tx_settle [OF this]
  have "tx_inv h d {} ?t" using tx(1) by (subst tx_inv_cong [where s = "settle h s"]) (simp_all add: quiet_def lock_free_def me_pid_def)
  then have "in_op h d 1 ?t" using l(4,5) o by (simp add: in_op_def NBUF_def MAXOPBLOCKS_def)
  moreover have "abs_cache d ?t = abs_cache d (settle h s)" by (rule abs_cache_cong'(1)) simp_all
  ultimately show thesis using that b tx(2) by (simp add: upd_cpu_def)
qed

lemma iget_scan_empty:
  assumes "\<forall>i. iref (T i) = 0"
  shows "iget_scan T dev i [0..<NINODE] None = (None, Some 0)"
proof -
  have "iget_scan T dev i ips (Some e) = (None, Some e)" for ips e using assms by (induction ips) simp_all
  then show ?thesis using assms by (simp add: upt_conv_Cons NINODE_def)
qed

lemma iget_boot:
  fixes s :: "'a kfs_scheme"
  assumes op: "in_op h d 1 s" and i: "\<forall>i. iref (itab s i) = 0"
  obtains t where "iget h d n s = Some (0, t)" "in_op h d 1 t" "view d t = view d s" "sb t = sb s" "slocks t = slocks s"
    "lstart t = lstart s" "lsize t = lsize s" "itab t 0 = (itab s 0)\<lparr>idev := d, inum := n, iref := 1, ivalid := False\<rparr>"
proof -
  have tx: "tx_inv h d {} s" using op by (simp add: in_op_def)
  have q: "hart_ok h s" "lock_free ItableLock s" using tx_invD(1) [OF tx] by (simp_all add: quiet_def)
  let ?f = "\<lambda>x. x\<lparr>idev := d, inum := n, iref := 1, ivalid := False\<rparr>"
  let ?u = "upd_inode 0 ?f (taken h ItableLock s)" and ?t = "upd_inode 0 ?f (settle h s)"
  have it: "itab (taken h ItableLock s) = itab s" by (simp add: taken_def upd_lock_def upd_cpu_def)
  have "release h ItableLock ?u = Some (?u\<lparr>cpus := (cpus s)(h := settled (cpus s h)), locks := locks s\<rparr>)"
    by (rule critical_release [OF q(2,1)]) (simp_all add: upd_inode_def)
  also have "?u\<lparr>cpus := (cpus s)(h := settled (cpus s h)), locks := locks s\<rparr> = ?t"
    by (simp add: upd_inode_def taken_def upd_lock_def upd_cpu_def)
  finally have "iget h d n s = Some (0, ?t)" using acquire_free [OF q(2)] iget_scan_empty [OF i] it by (simp add: iget_def)
  moreover have "in_op h d 1 ?t" using op tx_settle(1) [OF tx] by (simp add: in_op_def upd_inode_tx)
  moreover have "view d ?t = view d s" using tx_settle(2) [OF tx] by (simp add: upd_inode_tx)
  ultimately show thesis using that by (simp add: upd_cpu_def)
qed

section \<open>The first read\<close>

lemma file_cong:
  assumes "inum x = inum y" "isize x = isize y" "\<forall>k\<le>NDIRECT. iaddrs x k = iaddrs y k"
  shows "file_ok L sp V x = file_ok L sp V y" "no_holes V x = no_holes V y" "file_byte V x = file_byte V y"
proof -
  have b: "block_of V x = block_of V y" using assms(3) by (auto simp: fun_eq_iff block_of_def)
  show "file_ok L sp V x = file_ok L sp V y" using assms by (simp add: file_ok_def b)
  show "no_holes V x = no_holes V y" using assms(2) by (simp add: no_holes_def b)
  show "file_byte V x = file_byte V y" by (simp add: fun_eq_iff file_byte_def b)
qed

lemma boot_reads:
  fixes r :: "'a kfs_scheme"
  assumes inv: "mk_inv fs m" "sector m = marked m" and r: "rebooted h d (sector m) r" "outstanding r = 0" "committing r = 0"
    "\<forall>i. iref (itab r i) = 0" "\<forall>i. slocked (slocks r (InodeLock i)) = 0"
    and x: "itype (inode_at (sector m) n) \<noteq> 0" "file_ok mk_log mk_sb (sector m) (inode_at (sector m) n)" "no_holes (sector m) (inode_at (sector m) n)"
    and c: "c = file_part (sector m) (inode_at (sector m) n) 0 (unat (isize (inode_at (sector m) n)))" "length buf = length c"
  shows "\<exists>t. do {
      s \<leftarrow> fsinit h d r;
      s \<leftarrow> begin_op h s;
      (ip, s) \<leftarrow> iget h d n s;
      s \<leftarrow> ilock h ip s;
      readi h ip object_sink 0 (of_nat (length c)) buf s
    } = Some (int (length c), c, t)"
proof -
  let ?x = "inode_at (sector m) n"
  obtain s1 where s1: "fsinit h d r = Some s1" "sb s1 = mk_sb" "itab s1 = itab r" "lhn s1 = 0" "lstart s1 = 2" "lsize s1 = 30" "ldev s1 = d"
    "outstanding s1 = outstanding r" "committing s1 = committing r" "rebooted h d (sector m) s1" "view d s1 = sector m"
    "log_disk_ok 2 30 (sector m)" "hdr_n (sector m 2) = 0"
    by (rule mk_mounts [OF inv r(1)])
  obtain s2 where s2: "begin_op h s1 = Some s2" "in_op h d 1 s2" "view d s2 = view d s1" "itab s2 = itab s1" "sb s2 = sb s1" "slocks s2 = slocks s1"
    "lstart s2 = lstart s1" "lsize s2 = lsize s1"
    by (rule begin_op_boot [OF s1(10)]) (use s1 r in simp_all)
  obtain s3 where s3: "iget h d n s2 = Some (0, s3)" "in_op h d 1 s3" "view d s3 = view d s2" "sb s3 = sb s2" "slocks s3 = slocks s2"
    "lstart s3 = lstart s2" "lsize s3 = lsize s2" "itab s3 0 = (itab s2 0)\<lparr>idev := d, inum := n, iref := 1, ivalid := False\<rparr>"
    by (rule iget_boot [OF s2(2), of n]) (use s2 s1 r in simp_all)
  have V: "view d s3 = sector m" "sb s3 = mk_sb" "log_blocks s3 = mk_log" using s1 s2 s3 by simp_all
  have "slocked (slocks s3 (InodeLock 0)) = 0" using slocks_fsinit [OF s1(1)] s2(6) s3(5) r(5) by simp
  moreover have "get16 (dinode_off n) (sector m (IBLOCK n mk_sb)) \<noteq> 0" using x(1) by (simp add: inode_at_def get_dinode_def)
  ultimately obtain s4 where s4: "ilock h 0 s3 = Some s4" "in_op h d 1 s4" "view d s4 = sector m" "sb s4 = mk_sb" "log_blocks s4 = mk_log"
    "itab s4 0 = (get_dinode (dinode_off n) (sector m (IBLOCK n mk_sb)) (itab s3 0))\<lparr>ivalid := True\<rparr>"
    using ilock_spec [OF s3(2), of 0] s3(8) V by (auto simp: fun_upd_same)
  let ?y = "itab s4 0"
  have y: "inum ?y = inum ?x" "isize ?y = isize ?x" "\<forall>k\<le>NDIRECT. iaddrs ?y k = iaddrs ?x k" "idev ?y = d"
    using s3(8) by (simp_all add: s4(6) inode_at_def get_dinode_def dinode0_def)
  note fc = file_cong [OF y(1-3)]
  have len: "unat (isize ?x) = length c" using c(1) by simp
  have n: "of_nat (length c) = isize ?x" "unat (of_nat (length c) :: uint) = length c" "length c < 4294967296"
    unfolding len [symmetric] using unat_bound [of "isize ?x"] by simp_all
  have "file_ok (log_blocks s4) (sb s4) (view d s4) ?y" "no_holes (view d s4) ?y" "unat (of_nat (length c) :: uint) \<le> length buf"
    using x(2,3) fc(1,2) s4 c(2) n(2) by simp_all
  moreover have "file_part (view d s4) ?y 0 (length c) = c" using fc(3) s4(3) len c(1) by simp
  ultimately obtain t where "readi h 0 object_sink 0 (of_nat (length c)) buf s4 = Some (int (length c), splice_at 0 c buf, t)"
    using readi_spec [OF s4(2) y(4), where off = 0 and n = "of_nat (length c)" and x = buf] y(2) len n by (auto simp: Let_def)
  then show ?thesis using s1(1) s2(1) s3(1) s4(1) c(2) by (simp add: splice_at_def)
qed

text \<open>
  C5: what goes into the image comes out of the kernel.  When \<open>mkfs\<close> has made an image as in \<open>mkfs_correct\<close> and a kernel boots
  from it, with an empty cache, no inode in use and no operation in progress, then \<open>fsinit\<close>, \<open>begin_op\<close>, \<open>iget\<close> of the inode of the \<open>k\<close>-th file, \<open>ilock\<close>
  and \<open>readi\<close> all return, and \<open>readi\<close> gives exactly the bytes that the file has on the machine where \<open>mkfs\<close> ran.
\<close>

theorem first_read_correct:
  fixes can_create :: "bytes \<Rightarrow> bool" and host :: host
  assumes "2 \<le> length argv" "can_create (argv ! 1)" "args = drop 2 argv"
    and "\<forall>a\<in>set args. slash \<notin> set (strip_user a) \<and> (\<exists>ps. host a = Some ps \<and> length (concat ps) \<le> MAXFILE * BSIZE)"
    and "Suc (length args) < NINODES" "total_blocks (files_of host args) \<le> FSSIZE"
    and "k < length args" "c = concat (the (host (args ! k)))"
  shows "\<exists>m. mk_main can_create host argv = Some m \<and>
    (\<forall>h d (r :: kfs) buf. rebooted h d (sector m) r \<and> outstanding r = 0 \<and> committing r = 0 \<and> (\<forall>i. iref (itab r i) = 0) \<and>
        (\<forall>i. slocked (slocks r (InodeLock i)) = 0) \<and> length buf = length c \<longrightarrow>
      (\<exists>t. do {
         s \<leftarrow> fsinit h d r;
         s \<leftarrow> begin_op h s;
         (ip, s) \<leftarrow> iget h d (of_nat (k + 2)) s;
         s \<leftarrow> ilock h ip s;
         readi h ip object_sink 0 (of_nat (length c)) buf s
       } = Some (int (length c), c, t)))"
proof -
  let ?i = "of_nat (k + 2) :: uint"
  obtain m where m: "mk_main can_create host argv = Some m"
    "mk_inv ((files_of host args)[0 := (T_DIR, (length (root_entries args) div BSIZE + 1) * BSIZE, root_entries args)]) m" "sector m = marked m"
    using mk_main_spec [where can_create = can_create, OF assms(1,2) assms(4-6) [unfolded assms(3)]] unfolding assms(3) by blast
  let ?x = "inode_at (sector m) ?i"
  have x: "itype ?x = T_FILE" "file_ok mk_log mk_sb (sector m) ?x" "no_holes (sector m) ?x" "c = file_part (sector m) ?x 0 (unat (isize ?x))"
    using image_file [OF m(2,3) assms(7)] assms(8) by simp_all
  have "itype ?x \<noteq> 0" using x(1) by (simp add: T_FILE_def)
  note reads = boot_reads [OF m(2,3) _ _ _ _ _ this x(2-4)]
  show ?thesis using m(1) reads by (intro exI [of _ m]) blast
qed

text \<open>A kernel that has just booted from the disk \<open>D\<close>.\<close>

definition boot_fs :: "(uint \<Rightarrow> bytes) \<Rightarrow> kfs" where
  "boot_fs D = binit (klog.extend (boot_klog\<lparr>disk := D\<rparr>) \<lparr>sb = example_sb, itab = itab example_fs\<rparr>)"

lemma boot_fs_ok:
  "rebooted 0 1 D (boot_fs D)" "outstanding (boot_fs D) = 0" "committing (boot_fs D) = 0" "iref (itab (boot_fs D) i) = 0"
  "slocked (slocks (boot_fs D) (InodeLock i)) = 0"
proof -
  let ?s = "klog.extend (boot_klog\<lparr>disk := D\<rparr>) \<lparr>sb = example_sb, itab = itab example_fs\<rparr>"
  note defs = klog.extend_def boot_klog_def boot_bio_def bio.extend_def
  have "quiet 0 ?s" by (simp add: defs quiet_def lock_free_def idle_cpu_def free_lock_def cpu_ok_def)
  moreover have "cache_ok 1 (boot_fs D)" "no_users (abs_cache 1 (boot_fs D))"
    using binit_ok(1,2) [of ?s 1] by (simp_all add: boot_fs_def defs no_users_def)
  ultimately show "rebooted 0 1 D (boot_fs D)"
    using quiet_binit [of 0 ?s] by (simp add: rebooted_def boot_fs_def binit_klog) (simp add: defs)
  show "outstanding (boot_fs D) = 0" "committing (boot_fs D) = 0" "iref (itab (boot_fs D) i) = 0"
    by (simp_all add: boot_fs_def binit_klog binit_fields) (simp_all add: defs example_fs_def binit_fields)
  have "slocks (binit_loop k s) (InodeLock i) = slocks s (InodeLock i)" for k and s :: kfs
    by (induction k) (auto simp: binit_body_def initsleeplock_def initlock_def upd_slock_def upd_lock_def upd_buf_def Let_def)
  then show "slocked (slocks (boot_fs D) (InodeLock i)) = 0"
    by (simp add: boot_fs_def binit_def Let_def) (simp add: initlock_def upd_lock_def upd_buf_def defs)
qed

theorem first_read_correct_witness:
  "\<exists>m t. mk_main (\<lambda>a. True) example_host [[109], [102], example_name] = Some m \<and>
    do {
      s \<leftarrow> fsinit 0 1 (boot_fs (sector m));
      s \<leftarrow> begin_op 0 s;
      (ip, s) \<leftarrow> iget 0 1 2 s;
      s \<leftarrow> ilock 0 ip s;
      readi 0 ip object_sink 0 2 [0, 0] s
    } = Some (2, [104, 105], t)"
proof -
  have c: "[104, 105] = concat (the (example_host ([example_name] ! 0)))" by (simp add: example_host_def)
  have k: "0 < length [example_name]" by simp
  note R = first_read_correct [where can_create = "\<lambda>a. True", OF example_image(4) TrueI example_image(5,1,6,3) k c]
  from R obtain m where m: "mk_main (\<lambda>a. True) example_host [[109], [102], example_name] = Some m"
    "\<forall>h d (r :: kfs) buf. rebooted h d (sector m) r \<and> outstanding r = 0 \<and> committing r = 0 \<and> (\<forall>i. iref (itab r i) = 0) \<and>
        (\<forall>i. slocked (slocks r (InodeLock i)) = 0) \<and> length buf = length [104 :: uchar, 105] \<longrightarrow>
      (\<exists>t. do {
         s \<leftarrow> fsinit h d r;
         s \<leftarrow> begin_op h s;
         (ip, s) \<leftarrow> iget h d (of_nat (0 + 2)) s;
         s \<leftarrow> ilock h ip s;
         readi h ip object_sink 0 (of_nat (length [104 :: uchar, 105])) buf s
       } = Some (int (length [104 :: uchar, 105]), [104, 105], t))" by blast
  then show ?thesis using m(2) [rule_format, of 0 1 "boot_fs (sector m)" "[0, 0]"] boot_fs_ok by (auto simp: numeral_2_eq_2)
qed

end
